(* ===== verification/Prelude.thy ===== *)
theory Prelude
  imports Main "HOL-Library.Word"
begin

unbundle bit_operations_syntax

text \<open>
  Shared ground of the development.  It fixes the C integer types of
  \<^verbatim>\<open>include/types.h\<close> as machine words, the arithmetic macros of
  \<^verbatim>\<open>include/common.h\<close>, the result type in which every kernel operation returns
  (a value, or the way in which the kernel stops), and the generic facts about lists and
  words that the component theories use.  Facts that a group of component proofs applies
  again and again are collected under the names declared here.
\<close>

named_theorems wrap_simps \<open>reading word arithmetic back as natural numbers\<close>
named_theorems mem_simps \<open>loads over stores at disjoint or equal addresses\<close>
named_theorems res_simps \<open>results and their sequencing\<close>

section \<open>Integer types\<close>

type_synonym uint8 = "8 word"
type_synonym uint16 = "16 word"
type_synonym uint32 = "32 word"
type_synonym uint64 = "64 word"
type_synonym uintptr = "64 word"
type_synonym pte_t = "64 word"

abbreviation NULL :: uintptr where
  "NULL \<equiv> 0"

section \<open>Arithmetic macros\<close>

text \<open>The macros cast to \<open>uint64\<close> first, so every one of them works at 64 bits.\<close>

definition BIT64_MASK :: "nat \<Rightarrow> uint64" where
  "BIT64_MASK n = push_bit n 1 - 1"

definition KiB :: "uint64 \<Rightarrow> uint64" where
  "KiB x = push_bit 10 x"

definition MiB :: "uint64 \<Rightarrow> uint64" where
  "MiB x = push_bit 20 x"

definition GiB :: "uint64 \<Rightarrow> uint64" where
  "GiB x = push_bit 30 x"

definition ROUNDUP :: "uint64 \<Rightarrow> uint64 \<Rightarrow> uint64" where
  "ROUNDUP a n = (a + n - 1) AND NOT (n - 1)"

definition ROUNDDOWN :: "uint64 \<Rightarrow> uint64 \<Rightarrow> uint64" where
  "ROUNDDOWN a n = a AND NOT (n - 1)"

section \<open>Results\<close>

text \<open>
  A kernel operation returns \<open>Inr\<close> of its value (and of the state it leaves), or \<open>Inl\<close>
  of the reason why it does not return.  \<open>Panic\<close> carries the format string that the
  \<^verbatim>\<open>panic\<close> macro prints before it spins for ever; \<open>Diverge\<close> is a loop of the source that
  never ends (\<^verbatim>\<open>while (1);\<close>); \<open>OutOfFuel\<close> is the value of a loop that was given fewer steps
  than it takes; \<open>DivByZero\<close> is the processor's divide fault, which the kernel does not
  recover from; \<open>Undef\<close> is an access outside an array of the source.
\<close>

datatype kerror = Panic string | Diverge | OutOfFuel | DivByZero | Undef

type_synonym 'a kres = "kerror + 'a"

definition ebind :: "'a kres \<Rightarrow> ('a \<Rightarrow> 'b kres) \<Rightarrow> 'b kres" where
  "ebind r f = (case r of Inl e \<Rightarrow> Inl e | Inr x \<Rightarrow> f x)"

lemma ebind_Inl [simp, res_simps]: "ebind (Inl e) f = Inl e"
  by (simp add: ebind_def)

lemma ebind_Inr [simp, res_simps]: "ebind (Inr x) f = f x"
  by (simp add: ebind_def)

lemma ebind_eq_Inr [res_simps]: "ebind r f = Inr y \<longleftrightarrow> (\<exists>x. r = Inr x \<and> f x = Inr y)"
  by (cases r) auto

lemma ebind_eq_Inl [res_simps]:
  "ebind r f = Inl e \<longleftrightarrow> r = Inl e \<or> (\<exists>x. r = Inr x \<and> f x = Inl e)"
  by (cases r) auto

lemma ebind_assoc: "ebind (ebind r f) g = ebind r (\<lambda>x. ebind (f x) g)"
  by (cases r) auto

lemma ebind_cong [fundef_cong]:
  assumes "r = r'" and "\<And>x. r' = Inr x \<Longrightarrow> f x = f' x"
  shows "ebind r f = ebind r' f'"
  using assms by (cases r') auto

lemma ebind_InrE:
  assumes "ebind r f = Inr y"
  obtains x where "r = Inr x" and "f x = Inr y"
  using assms by (auto simp: ebind_eq_Inr)

lemma ebind_no_return:
  assumes "\<And>x. r = Inr x \<Longrightarrow> \<exists>e. f x = Inl e"
  shows "\<exists>e. ebind r f = Inl e"
  using assms by (cases r) auto

section \<open>Words as natural numbers\<close>

lemma unat_less_2p64 [simp]: "unat (a :: uint64) < 18446744073709551616"
proof -
  have "unat a < 2 ^ LENGTH(64)" by (rule unsigned_less)
  then show ?thesis by simp
qed

lemma unat_add_no_wrap [wrap_simps]:
  fixes a :: uint64
  assumes "unat a + n < 18446744073709551616"
  shows "unat (a + of_nat n) = unat a + n"
proof -
  have "unat (of_nat n :: uint64) = n"
    using assms by (simp add: unat_of_nat)
  then show ?thesis
    using assms by (simp add: unat_word_ariths)
qed

lemma unat_of_nat_small: "n < 18446744073709551616 \<Longrightarrow> unat (of_nat n :: uint64) = n"
  by (simp add: unat_of_nat)

lemma unat_uminus: "x \<noteq> 0 \<Longrightarrow> unat (- x :: uint64) = 18446744073709551616 - unat x"
  using unat_sub_if' [of 0 x] by (simp add: unat_gt_0 unat_eq_0 split: if_splits)

text \<open>The distance between two offsets, counted around the address space.\<close>

lemma offset_distance:
  assumes "i < 9223372036854775808" and "j < 9223372036854775808" and "i + n \<le> j \<or> j + n \<le> i"
    and "n \<le> 9223372036854775808"
  shows "n \<le> unat (of_nat j - of_nat i :: uint64)"
proof (cases "i \<le> j")
  case True
  then have "of_nat j - of_nat i = (of_nat (j - i) :: uint64)" by (simp add: of_nat_diff)
  also have "unat \<dots> = j - i" using assms by (intro unat_of_nat_small) linarith
  finally show ?thesis using True assms by linarith
next
  case False
  then have "of_nat j - of_nat i = (- of_nat (i - j) :: uint64)" by (simp add: of_nat_diff)
  moreover have "unat (of_nat (i - j) :: uint64) = i - j"
    using assms by (intro unat_of_nat_small) linarith
  moreover from this False have "(of_nat (i - j) :: uint64) \<noteq> 0"
    by (metis diff_is_0_eq not_le_imp_less less_imp_le_nat unat_0 zero_less_diff less_numeral_extra(3))
  ultimately have "unat (of_nat j - of_nat i :: uint64) = 18446744073709551616 - (i - j)"
    using unat_uminus by metis
  then show ?thesis using False assms by linarith
qed

lemma of_nat_inj_uint64:
  assumes "i < 18446744073709551616" and "j < 18446744073709551616"
  shows "(of_nat i :: uint64) = of_nat j \<longleftrightarrow> i = j"
  using assms by (auto simp: of_nat_eq_iff take_bit_eq_mod word_of_nat_eq_iff)

lemma uint64_nat_cases:
  fixes a :: uint64
  obtains n where "a = of_nat n" and "n < 18446744073709551616"
proof
  show "a = of_nat (unat a)" by simp
  show "unat a < 18446744073709551616" by simp
qed

lemma BIT64_MASK_eq: "BIT64_MASK n = mask n"
  by (simp add: BIT64_MASK_def mask_eq_decr_exp push_bit_eq_mult)

lemma bit_ROUNDDOWN_pow2:
  "ROUNDDOWN a (push_bit k 1) = push_bit k (drop_bit k a)"
proof (rule bit_word_eqI)
  fix i
  have "(push_bit k 1 - 1 :: uint64) = mask k"
    by (simp add: mask_eq_decr_exp push_bit_eq_mult)
  then show "bit (ROUNDDOWN a (push_bit k 1)) i = bit (push_bit k (drop_bit k a)) i" 
    if "i < LENGTH(64)"
    using that by (auto simp: ROUNDDOWN_def bit_simps)
qed

section \<open>Lists\<close>

lemma nth_list_update_same [simp]:
  "i < length xs \<Longrightarrow> j < length xs \<Longrightarrow> (xs[i := x]) ! j = (if i = j then x else xs ! j)"
  by (simp add: nth_list_update)

lemma map_upt_Suc_shift: "map f [0..<Suc n] = f 0 # map (\<lambda>i. f (Suc i)) [0..<n]"
  by (simp add: map_upt_Suc del: upt_Suc)

end
