(* ===== verification/Memory.thy ===== *)
theory Memory
  imports Prelude
begin

text \<open>
  The byte-addressed physical memory that every kernel structure lives in, little-endian
  loads and stores of the widths the kernel uses, and the routines of \<^verbatim>\<open>string.c\<close>.  On x86
  \<^verbatim>\<open>memset\<close> and \<^verbatim>\<open>memcpy\<close> are the string instructions \<open>rep stosb\<close> and \<open>rep movsb\<close> of
  \<^verbatim>\<open>include/x86/asm.h\<close>, which work byte by byte towards higher addresses; they are modelled
  as those loops.  The locale \<open>cell_memory\<close> is the contract of a fixed-width load and store
  pair; linked structures are reasoned about through it and through \<open>chain\<close>.
\<close>

type_synonym mem_t = "uint64 \<Rightarrow> uint8"

section \<open>Byte sequences in memory\<close>

primrec store_bytes :: "mem_t \<Rightarrow> uint64 \<Rightarrow> uint8 list \<Rightarrow> mem_t" where
  "store_bytes m a [] = m"
| "store_bytes m a (b # bs) = store_bytes (m(a := b)) (a + 1) bs"

primrec load_bytes :: "mem_t \<Rightarrow> uint64 \<Rightarrow> nat \<Rightarrow> uint8 list" where
  "load_bytes m a 0 = []"
| "load_bytes m a (Suc n) = m a # load_bytes m (a + 1) n"

primrec le_bytes :: "nat \<Rightarrow> nat \<Rightarrow> uint8 list" where
  "le_bytes 0 v = []"
| "le_bytes (Suc n) v = of_nat (v mod 256) # le_bytes n (v div 256)"

primrec le_val :: "uint8 list \<Rightarrow> nat" where
  "le_val [] = 0"
| "le_val (b # bs) = unat b + 256 * le_val bs"

definition load8 :: "mem_t \<Rightarrow> uint64 \<Rightarrow> uint8" where
  "load8 m a = m a"

definition store8 :: "mem_t \<Rightarrow> uint64 \<Rightarrow> uint8 \<Rightarrow> mem_t" where
  "store8 m a v = m(a := v)"

definition load16 :: "mem_t \<Rightarrow> uint64 \<Rightarrow> uint16" where
  "load16 m a = of_nat (le_val (load_bytes m a 2))"

definition store16 :: "mem_t \<Rightarrow> uint64 \<Rightarrow> uint16 \<Rightarrow> mem_t" where
  "store16 m a v = store_bytes m a (le_bytes 2 (unat v))"

definition load32 :: "mem_t \<Rightarrow> uint64 \<Rightarrow> uint32" where
  "load32 m a = of_nat (le_val (load_bytes m a 4))"

definition store32 :: "mem_t \<Rightarrow> uint64 \<Rightarrow> uint32 \<Rightarrow> mem_t" where
  "store32 m a v = store_bytes m a (le_bytes 4 (unat v))"

definition load64 :: "mem_t \<Rightarrow> uint64 \<Rightarrow> uint64" where
  "load64 m a = of_nat (le_val (load_bytes m a 8))"

definition store64 :: "mem_t \<Rightarrow> uint64 \<Rightarrow> uint64 \<Rightarrow> mem_t" where
  "store64 m a v = store_bytes m a (le_bytes 8 (unat v))"

section \<open>The routines of string.c\<close>

primrec stosb :: "mem_t \<Rightarrow> uint64 \<Rightarrow> uint8 \<Rightarrow> nat \<Rightarrow> mem_t" where
  "stosb m a d 0 = m"
| "stosb m a d (Suc n) = stosb (m(a := d)) (a + 1) d n"

primrec movsb :: "mem_t \<Rightarrow> uint64 \<Rightarrow> uint64 \<Rightarrow> nat \<Rightarrow> mem_t" where
  "movsb m dst src 0 = m"
| "movsb m dst src (Suc n) = movsb (m(dst := m src)) (dst + 1) (src + 1) n"

definition memset :: "mem_t \<Rightarrow> uint64 \<Rightarrow> uint8 \<Rightarrow> uint64 \<Rightarrow> mem_t" where
  "memset m addr data count = stosb m addr data (unat count)"

definition memcpy :: "mem_t \<Rightarrow> uint64 \<Rightarrow> uint64 \<Rightarrow> uint64 \<Rightarrow> mem_t" where
  "memcpy m dest src count = movsb m dest src (unat count)"

primrec memcmp_loop :: "mem_t \<Rightarrow> uint64 \<Rightarrow> uint64 \<Rightarrow> nat \<Rightarrow> int" where
  "memcmp_loop m p q 0 = 0"
| "memcmp_loop m p q (Suc n) = (if m p \<noteq> m q then 1 else memcmp_loop m (p + 1) (q + 1) n)"

definition memcmp :: "mem_t \<Rightarrow> uint64 \<Rightarrow> uint64 \<Rightarrow> uint64 \<Rightarrow> int" where
  "memcmp m p q limit = memcmp_loop m p q (unat limit)"

text \<open>
  \<^verbatim>\<open>strcmp\<close> reads until a terminator, so the number of steps is a parameter: it returns
  as soon as the shorter of two C strings has fewer bytes than the steps it is given.
\<close>

primrec strcmp :: "nat \<Rightarrow> mem_t \<Rightarrow> uint64 \<Rightarrow> uint64 \<Rightarrow> int kres" where
  "strcmp 0 m dest src = Inl OutOfFuel"
| "strcmp (Suc n) m dest src =
     (if m dest \<noteq> 0 \<and> m src \<noteq> 0 then
        (if m dest \<noteq> m src then Inr 1 else strcmp n m (dest + 1) (src + 1))
      else if m dest \<noteq> m src then Inr 1 else Inr 0)"

section \<open>Addresses covered by a run of bytes\<close>

definition bytes_at :: "uint64 \<Rightarrow> nat \<Rightarrow> uint64 set" where
  "bytes_at a n = (\<lambda>i. a + of_nat i) ` {..<n}"

lemma bytes_at_0 [simp]: "bytes_at a 0 = {}"
  by (simp add: bytes_at_def)

lemma bytes_at_Suc: "bytes_at a (Suc n) = insert a (bytes_at (a + 1) n)"
proof -
  have "{..<Suc n} = insert 0 (Suc ` {..<n})"
    by (auto simp: image_iff less_Suc_eq_0_disj)
  then show ?thesis
    by (auto simp: bytes_at_def image_image add.assoc add.commute add.left_commute)
qed

lemma bytes_at_mono: "n \<le> k \<Longrightarrow> bytes_at a n \<subseteq> bytes_at a k"
  by (auto simp: bytes_at_def)

lemma bytes_at_self: "0 < n \<Longrightarrow> a \<in> bytes_at a n"
  by (force simp: bytes_at_def)

text \<open>A run that does not pass the end of the address space is an interval.\<close>

lemma bytes_at_interval:
  assumes "unat a + n \<le> 18446744073709551616"
  shows "bytes_at a n = {x. unat a \<le> unat x \<and> unat x < unat a + n}"
proof (rule set_eqI, rule iffI)
  fix x
  assume "x \<in> bytes_at a n"
  then obtain i where "i < n" and "x = a + of_nat i"
    by (auto simp: bytes_at_def)
  with assms show "x \<in> {x. unat a \<le> unat x \<and> unat x < unat a + n}"
    by (simp add: unat_add_no_wrap)
next
  fix x :: uint64
  assume x: "x \<in> {x. unat a \<le> unat x \<and> unat x < unat a + n}"
  then have "x = a + of_nat (unat x - unat a)"
    by (simp add: of_nat_diff)
  moreover from x have "unat x - unat a < n" by auto
  ultimately show "x \<in> bytes_at a n"
    unfolding bytes_at_def by blast
qed

lemma bytes_at_disjointI:
  assumes "unat a + n \<le> 18446744073709551616" and "unat b + k \<le> 18446744073709551616"
    and "unat a + n \<le> unat b \<or> unat b + k \<le> unat a"
  shows "bytes_at a n \<inter> bytes_at b k = {}"
  using assms by (auto simp: bytes_at_interval)

text \<open>Two runs are apart when each begins behind the other, counted around the address space.\<close>

lemma bytes_at_apart:
  assumes "n \<le> unat (b - a)" and "k \<le> unat (a - b)"
  shows "bytes_at a n \<inter> bytes_at b k = {}"
proof -
  have False if x: "x \<in> bytes_at a n" "x \<in> bytes_at b k" for x
  proof -
    obtain i j where i: "i < n" "x = a + of_nat i" and j: "j < k" "x = b + of_nat j"
      using x by (auto simp: bytes_at_def)
    have small: "i < 18446744073709551616" "j < 18446744073709551616"
      using i(1) j(1) assms unat_less_2p64 [of "b - a"] unat_less_2p64 [of "a - b"] by linarith+
    have rep: "unat (of_nat d :: uint64) = d" if "d < 18446744073709551616" for d
      using that by (simp add: unat_of_nat)
    have eq: "a + of_nat i = b + of_nat j" using i(2) j(2) by simp
    then have ba: "b - a = of_nat i - of_nat j" and ab: "a - b = of_nat j - of_nat i"
      by (simp_all add: algebra_simps)
    show False
    proof (cases "j \<le> i")
      case True
      then have "b - a = of_nat (i - j)" using ba by (simp add: of_nat_diff)
      then have "unat (b - a) = i - j" using rep [of "i - j"] small by simp
      with assms(1) i(1) show False by linarith
    next
      case False
      then have "a - b = of_nat (j - i)" using ab by (simp add: of_nat_diff)
      then have "unat (a - b) = j - i" using rep [of "j - i"] small by simp
      with assms(2) j(1) show False by linarith
    qed
  qed
  then show ?thesis by blast
qed

lemma bytes_at_offset_subset:
  assumes "i + k \<le> n"
  shows "bytes_at (a + of_nat i) k \<subseteq> bytes_at a n"
proof
  fix x
  assume "x \<in> bytes_at (a + of_nat i) k"
  then obtain j where "j < k" and "x = a + of_nat (i + j)"
    by (auto simp: bytes_at_def add.assoc)
  moreover from this assms have "i + j < n" by simp
  ultimately show "x \<in> bytes_at a n"
    unfolding bytes_at_def by blast
qed

section \<open>Loads over stores\<close>

lemma length_load_bytes [simp]: "length (load_bytes m a n) = n"
  by (induction n arbitrary: a) auto

lemma length_le_bytes [simp]: "length (le_bytes n v) = n"
  by (induction n arbitrary: v) auto

lemma store_bytes_outside:
  "x \<notin> bytes_at a (length bs) \<Longrightarrow> store_bytes m a bs x = m x"
  by (induction bs arbitrary: m a) (auto simp: bytes_at_Suc)

lemma load_bytes_cong:
  "(\<And>x. x \<in> bytes_at a n \<Longrightarrow> m x = m' x) \<Longrightarrow> load_bytes m a n = load_bytes m' a n"
  by (induction n arbitrary: a) (auto simp: bytes_at_Suc)

lemma nth_load_bytes: "i < n \<Longrightarrow> load_bytes m a n ! i = m (a + of_nat i)"
proof (induction n arbitrary: a i)
  case 0
  then show ?case by simp
next
  case (Suc n)
  then show ?case by (cases i) (simp_all add: add.assoc)
qed

lemma self_notin_bytes_at_Suc:
  assumes "Suc n \<le> 18446744073709551616"
  shows "(a :: uint64) \<notin> bytes_at (a + 1) n"
proof
  assume "a \<in> bytes_at (a + 1) n"
  then obtain i where "i < n" and "(of_nat (Suc i) :: uint64) = of_nat 0"
    by (auto simp: bytes_at_def add.assoc)
  moreover from this assms have "Suc i = 0"
    by (subst (asm) of_nat_inj_uint64) auto
  ultimately show False by simp
qed

lemma load_store_bytes:
  assumes "length bs \<le> 18446744073709551616"
  shows "load_bytes (store_bytes m a bs) a (length bs) = bs"
  using assms
proof (induction bs arbitrary: m a)
  case Nil
  then show ?case by simp
next
  case (Cons b bs)
  then have "store_bytes (m(a := b)) (a + 1) bs a = b"
    by (simp add: store_bytes_outside self_notin_bytes_at_Suc)
  with Cons show ?case by simp
qed

lemma load_store_bytes_other:
  assumes "bytes_at a (length bs) \<inter> bytes_at b n = {}"
  shows "load_bytes (store_bytes m a bs) b n = load_bytes m b n"
  by (rule load_bytes_cong, rule store_bytes_outside) (use assms in auto)

lemma le_val_bytes: "le_val (le_bytes n v) = v mod 256 ^ n"
proof (induction n arbitrary: v)
  case 0
  then show ?case by simp
next
  case (Suc n)
  have "unat (of_nat (v mod 256) :: uint8) = v mod 256"
    by (simp add: unat_of_nat)
  with Suc show ?case
    by (simp add: mod_mult2_eq)
qed

lemma le_bytes_val: "le_bytes (length bs) (le_val bs) = bs"
proof (induction bs)
  case Nil
  then show ?case by simp
next
  case (Cons b bs)
  have "unat b < 256"
    using unsigned_less [of b] by simp
  with Cons show ?case by simp
qed

lemma le_val_less: "le_val bs < 256 ^ length bs"
proof (induction bs)
  case Nil
  then show ?case by simp
next
  case (Cons b bs)
  have "unat b < 256"
    using unsigned_less [of b] by simp
  with Cons show ?case by simp
qed

lemma nth_le_bytes: "i < n \<Longrightarrow> le_bytes n v ! i = of_nat (v div 256 ^ i mod 256)"
proof (induction n arbitrary: i v)
  case 0
  then show ?case by simp
next
  case (Suc n)
  then show ?case by (cases i) (auto simp: div_mult2_eq)
qed

lemma le_bytes_word16: "le_bytes 2 (unat (v :: uint16)) = [ucast v, ucast (drop_bit 8 v)]"
proof -
  have "of_nat (unat v mod 256) = (ucast v :: uint8)"
    by (simp add: word_unat_eq_iff unat_of_nat unsigned_ucast_eq take_bit_eq_mod)
  moreover have "of_nat (unat v div 256 mod 256) = (ucast (drop_bit 8 v) :: uint8)"
    by (simp add: word_unat_eq_iff unat_of_nat unsigned_ucast_eq take_bit_eq_mod unsigned_drop_bit_eq
        drop_bit_eq_div unat_div)
  ultimately show ?thesis by (simp add: numeral_2_eq_2)
qed

lemma store_bytes_append:
  "store_bytes m a (xs @ ys) = store_bytes (store_bytes m a xs) (a + of_nat (length xs)) ys"
  by (induction xs arbitrary: m a) (simp_all add: algebra_simps)

lemma le_bytes_0: "le_bytes n 0 = replicate n 0"
  by (induction n) auto

section \<open>Fixed-width cells\<close>

text \<open>
  What the users of a fixed-width load and store pair rely on: a load gives back what was
  stored, a store changes only its own bytes, and a load depends only on its own bytes.
\<close>

locale cell_memory =
  fixes width :: nat
    and load :: "mem_t \<Rightarrow> uint64 \<Rightarrow> 'v"
    and store :: "mem_t \<Rightarrow> uint64 \<Rightarrow> 'v \<Rightarrow> mem_t"
  assumes load_store: "load (store m a v) a = v"
    and store_outside: "x \<notin> bytes_at a width \<Longrightarrow> store m a v x = m x"
    and load_local: "(\<And>x. x \<in> bytes_at a width \<Longrightarrow> m x = m' x) \<Longrightarrow> load m a = load m' a"
begin

lemma load_store_other:
  assumes "bytes_at a width \<inter> bytes_at b width = {}"
  shows "load (store m a v) b = load m b"
  by (rule load_local, rule store_outside) (use assms in auto)

lemma store_frame:
  assumes "bytes_at a width \<inter> R = {}" and "x \<in> R"
  shows "store m a v x = m x"
  using assms by (intro store_outside) auto

lemma load_frame:
  assumes "\<And>x. x \<in> R \<Longrightarrow> m x = m' x" and "bytes_at a width \<subseteq> R"
  shows "load m a = load m' a"
  using assms by (intro load_local) auto

end

interpretation byte_cell: cell_memory 1 load8 store8
  by unfold_locales (auto simp: load8_def store8_def bytes_at_def)

interpretation half_cell: cell_memory 2 load16 store16
proof unfold_locales
  fix m :: mem_t and a and v :: uint16
  have "load_bytes (store_bytes m a (le_bytes 2 (unat v))) a 2 = le_bytes 2 (unat v)"
    using load_store_bytes [of "le_bytes 2 (unat v)" m a] by simp
  moreover have "unat v < 65536"
    using unsigned_less [of v] by simp
  ultimately show "load16 (store16 m a v) a = v"
    by (simp add: load16_def store16_def le_val_bytes)
next
  show "store16 m a v x = m x" if "x \<notin> bytes_at a 2" for x a m v
    using that by (simp add: store16_def store_bytes_outside)
next
  show "load16 m a = load16 m' a" if "\<And>x. x \<in> bytes_at a 2 \<Longrightarrow> m x = m' x" for a m m'
    using load_bytes_cong [OF that] by (simp add: load16_def)
qed

interpretation word_cell: cell_memory 4 load32 store32
proof unfold_locales
  fix m :: mem_t and a and v :: uint32
  have "load_bytes (store_bytes m a (le_bytes 4 (unat v))) a 4 = le_bytes 4 (unat v)"
    using load_store_bytes [of "le_bytes 4 (unat v)" m a] by simp
  moreover have "unat v < 4294967296"
    using unsigned_less [of v] by simp
  ultimately show "load32 (store32 m a v) a = v"
    by (simp add: load32_def store32_def le_val_bytes)
next
  show "store32 m a v x = m x" if "x \<notin> bytes_at a 4" for x a m v
    using that by (simp add: store32_def store_bytes_outside)
next
  show "load32 m a = load32 m' a" if "\<And>x. x \<in> bytes_at a 4 \<Longrightarrow> m x = m' x" for a m m'
    using load_bytes_cong [OF that] by (simp add: load32_def)
qed

interpretation quad_cell: cell_memory 8 load64 store64
proof unfold_locales
  fix m :: mem_t and a and v :: uint64
  have "load_bytes (store_bytes m a (le_bytes 8 (unat v))) a 8 = le_bytes 8 (unat v)"
    using load_store_bytes [of "le_bytes 8 (unat v)" m a] by simp
  then show "load64 (store64 m a v) a = v"
    by (simp add: load64_def store64_def le_val_bytes)
next
  show "store64 m a v x = m x" if "x \<notin> bytes_at a 8" for x a m v
    using that by (simp add: store64_def store_bytes_outside)
next
  show "load64 m a = load64 m' a" if "\<And>x. x \<in> bytes_at a 8 \<Longrightarrow> m x = m' x" for a m m'
    using load_bytes_cong [OF that] by (simp add: load64_def)
qed

lemmas cell_same [simp, mem_simps] =
  byte_cell.load_store half_cell.load_store word_cell.load_store quad_cell.load_store

lemma quad_apart [mem_simps]:
  assumes "8 \<le> unat (b - a)" and "8 \<le> unat (a - b)"
  shows "load64 (store64 m a v) b = load64 m b"
  by (rule quad_cell.load_store_other, rule bytes_at_apart) (use assms in auto)

section \<open>Linked structures\<close>

text \<open>
  \<open>chain nx p as\<close>: following the link function \<open>nx\<close> from \<open>p\<close> visits exactly the cells \<open>as\<close>
  and ends at the null pointer.  The free lists, the slab lists and \<^verbatim>\<open>list_t\<close> are chains
  whose link function is a load from memory.
\<close>

primrec chain :: "(uint64 \<Rightarrow> uint64) \<Rightarrow> uint64 \<Rightarrow> uint64 list \<Rightarrow> bool" where
  "chain nx p [] \<longleftrightarrow> p = NULL"
| "chain nx p (a # as) \<longleftrightarrow> p = a \<and> a \<noteq> NULL \<and> chain nx (nx a) as"

lemma chain_NULL [simp]: "chain nx NULL as \<longleftrightarrow> as = []"
  by (cases as) auto

lemma chain_not_NULL: "p \<noteq> NULL \<Longrightarrow> chain nx p as \<longleftrightarrow> (\<exists>bs. as = p # bs \<and> chain nx (nx p) bs)"
  by (cases as) auto

lemma chain_cong:
  "(\<And>a. a \<in> set as \<Longrightarrow> nx a = nx' a) \<Longrightarrow> chain nx p as \<longleftrightarrow> chain nx' p as"
  by (induction as arbitrary: p) auto

lemma chain_unique: "chain nx p as \<Longrightarrow> chain nx p bs \<Longrightarrow> as = bs"
proof (induction as arbitrary: p bs)
  case Nil
  then show ?case by simp
next
  case (Cons a as)
  then show ?case by (cases bs) auto
qed

lemma chain_suffix: "chain nx p (as @ b # bs) \<Longrightarrow> chain nx b (b # bs)"
  by (induction as arbitrary: p) auto

lemma chain_distinct: "chain nx p as \<Longrightarrow> distinct as"
proof (induction as arbitrary: p)
  case Nil
  then show ?case by simp
next
  case (Cons a as)
  have "a \<notin> set as"
  proof
    assume "a \<in> set as"
    then obtain us vs where "as = us @ a # vs"
      by (auto simp: in_set_conv_decomp)
    with Cons.prems have "chain nx a (a # vs)" and "chain nx a (a # as)"
      using chain_suffix [of nx "nx a" us a vs] by auto
    from chain_unique [OF this] \<open>as = us @ a # vs\<close> show False by simp
  qed
  with Cons show ?case by auto
qed

lemma chain_NULL_notin: "chain nx p as \<Longrightarrow> NULL \<notin> set as"
  by (induction as arbitrary: p) auto

lemma chain_snoc:
  assumes "chain nx p (as @ [a])" and "n \<noteq> NULL" and "n \<notin> set (as @ [a])"
  shows "chain (nx(a := n, n := NULL)) p (as @ [a, n])"
  using assms
proof (induction as arbitrary: p)
  case Nil
  then show ?case by simp
next
  case (Cons b as)
  then have "b \<noteq> a" and "b \<noteq> n"
    using chain_distinct [OF Cons.prems(1)] by auto
  with Cons show ?case by simp
qed

lemma chain_delete:
  assumes "chain nx p (as @ a # b # bs)"
  shows "chain (nx(a := nx b)) p (as @ a # bs)"
  using assms
proof (induction as arbitrary: p)
  case Nil
  from chain_distinct [OF Nil] have "a \<notin> set bs" by simp
  then have "chain (nx(a := nx b)) (nx b) bs \<longleftrightarrow> chain nx (nx b) bs"
    by (intro chain_cong) auto
  with Nil show ?case by (simp del: fun_upd_apply add: fun_upd_same)
next
  case (Cons c as)
  then have "c \<noteq> a"
    using chain_distinct [OF Cons.prems] by auto
  with Cons show ?case by simp
qed

section \<open>Correctness of the string routines\<close>

lemma stosb_apply:
  assumes "n \<le> 18446744073709551616"
  shows "stosb m a d n x = (if x \<in> bytes_at a n then d else m x)"
  using assms
proof (induction n arbitrary: m a)
  case 0
  then show ?case by simp
next
  case (Suc n)
  then have "a \<notin> bytes_at (a + 1) n" by (intro self_notin_bytes_at_Suc) simp
  with Suc show ?case by (auto simp: bytes_at_Suc)
qed

lemma memset_apply: "memset m a d n x = (if x \<in> bytes_at a (unat n) then d else m x)"
  unfolding memset_def using unat_less_2p64 [of n] by (intro stosb_apply) linarith

lemma memset_zero_load64:
  assumes "bytes_at b 8 \<subseteq> bytes_at a (unat n)"
  shows "load64 (memset m a 0 n) b = 0"
proof -
  have "load_bytes (memset m a 0 n) b 8 = load_bytes (\<lambda>_. 0) b 8"
    by (rule load_bytes_cong) (use assms in \<open>auto simp: memset_apply\<close>)
  also have "\<dots> = replicate 8 0"
    by (simp add: eval_nat_numeral)
  finally show ?thesis
    by (simp add: load64_def eval_nat_numeral)
qed

lemma movsb_eq_store:
  assumes "n \<le> 18446744073709551616"
    and "\<And>i j. i < j \<Longrightarrow> j < n \<Longrightarrow> dst + of_nat i \<noteq> src + of_nat j"
  shows "movsb m dst src n = store_bytes m dst (load_bytes m src n)"
  using assms
proof (induction n arbitrary: m dst src)
  case 0
  then show ?case by simp
next
  case (Suc n)
  have "movsb (m(dst := m src)) (dst + 1) (src + 1) n =
      store_bytes (m(dst := m src)) (dst + 1) (load_bytes (m(dst := m src)) (src + 1) n)"
  proof (rule Suc.IH)
    show "dst + 1 + of_nat i \<noteq> src + 1 + of_nat j" if "i < j" "j < n" for i j
      using Suc.prems(2) [of "Suc i" "Suc j"] that by (simp add: add.assoc)
  qed (use Suc.prems in simp)
  moreover have "load_bytes (m(dst := m src)) (src + 1) n = load_bytes m (src + 1) n"
  proof (rule load_bytes_cong)
    fix x assume "x \<in> bytes_at (src + 1) n"
    then obtain j where "j < n" and "x = src + of_nat (Suc j)"
      by (auto simp: bytes_at_def add.assoc)
    with Suc.prems(2) [of 0 "Suc j"] show "(m(dst := m src)) x = m x" by auto
  qed
  ultimately show ?case by simp
qed

lemma bytes_at_disjoint_ne:
  assumes "bytes_at a n \<inter> bytes_at b k = {}" and "i < n" and "j < k"
  shows "a + of_nat i \<noteq> b + of_nat j"
  using assms by (auto simp: bytes_at_def)

lemma memcpy_eq_store:
  assumes "\<And>i j. i < j \<Longrightarrow> j < unat n \<Longrightarrow> dst + of_nat i \<noteq> src + of_nat j"
  shows "memcpy m dst src n = store_bytes m dst (load_bytes m src (unat n))"
  unfolding memcpy_def using unat_less_2p64 [of n] assms
  by (intro movsb_eq_store) (linarith, blast)

lemma memcpy_outside:
  assumes "x \<notin> bytes_at dst (unat n)"
  shows "memcpy m dst src n x = m x"
proof -
  have "movsb m dst src k x = m x" if "x \<notin> bytes_at dst k" for k m dst src
    using that by (induction k arbitrary: m dst src) (auto simp: bytes_at_Suc)
  with assms show ?thesis by (simp add: memcpy_def)
qed

lemma memcmp_loop_zero:
  "memcmp_loop m p q n = 0 \<longleftrightarrow> load_bytes m p n = load_bytes m q n"
  by (induction n arbitrary: p q) auto

definition is_cstr :: "mem_t \<Rightarrow> uint64 \<Rightarrow> uint8 list \<Rightarrow> bool" where
  "is_cstr m a s \<longleftrightarrow>
     0 \<notin> set s \<and> load_bytes m a (length s) = s \<and> m (a + of_nat (length s)) = 0"

lemma is_cstr_Nil [simp]: "is_cstr m a [] \<longleftrightarrow> m a = 0"
  by (simp add: is_cstr_def)

lemma is_cstr_Cons [simp]:
  "is_cstr m a (c # s) \<longleftrightarrow> c \<noteq> 0 \<and> m a = c \<and> is_cstr m (a + 1) s"
  by (auto simp: is_cstr_def add.assoc add.left_commute)

lemma is_cstr_cong:
  assumes "\<And>x. x \<in> bytes_at a (Suc (length s)) \<Longrightarrow> m x = m' x"
  shows "is_cstr m a s \<longleftrightarrow> is_cstr m' a s"
  using assms
proof (induction s arbitrary: a)
  case Nil
  then show ?case by (simp add: bytes_at_Suc)
next
  case (Cons c s)
  then have "is_cstr m (a + 1) s \<longleftrightarrow> is_cstr m' (a + 1) s"
    by (intro Cons.IH) (auto simp: bytes_at_Suc [of a])
  with Cons.prems [of a] show ?case by (simp add: bytes_at_self)
qed

text \<open>
  \<^verbatim>\<open>memcpy\<close> copies: as long as no byte of the source is overwritten before it is read
  (disjoint buffers, or a destination below an overlapping source), the destination
  afterwards holds the bytes the source held before, and no other byte of memory changes.
\<close>

theorem memcpy_correct:
  assumes "\<And>i j. i < j \<Longrightarrow> j < unat n \<Longrightarrow> dst + of_nat i \<noteq> src + of_nat j"
  shows "load_bytes (memcpy m dst src n) dst (unat n) = load_bytes m src (unat n) \<and>
    (\<forall>x. x \<notin> bytes_at dst (unat n) \<longrightarrow> memcpy m dst src n x = m x)"
proof (intro conjI allI impI)
  have "unat n \<le> 18446744073709551616"
    using unat_less_2p64 [of n] by linarith
  then show "load_bytes (memcpy m dst src n) dst (unat n) = load_bytes m src (unat n)"
    using load_store_bytes [of "load_bytes m src (unat n)" m dst] assms
    by (simp add: memcpy_eq_store)
next
  show "memcpy m dst src n x = m x" if "x \<notin> bytes_at dst (unat n)" for x
    using that by (rule memcpy_outside)
qed

theorem memcpy_correct_witness:
  "load_bytes (memcpy (\<lambda>x. if x = 8192 then 7 else 0) 4096 8192 2) 4096 2 = [7, 0]"
proof -
  have "(4096 :: uint64) + of_nat i \<noteq> 8192 + of_nat j" if "i < j" "j < unat (2 :: uint64)" for i j
  proof -
    from that have "i = 0" and "j = 1" by auto
    then show ?thesis by simp
  qed
  from memcpy_correct [of 2 4096 8192 "\<lambda>x. if x = 8192 then 7 else 0", OF this]
  have "load_bytes (memcpy (\<lambda>x. if x = 8192 then 7 else 0) 4096 8192 2) 4096 2 =
      load_bytes (\<lambda>x. if x = 8192 then 7 else 0) 8192 2"
    by simp
  then show ?thesis by (simp add: numeral_2_eq_2)
qed

lemma strcmp_spec:
  assumes "is_cstr m p s" and "is_cstr m q t" and "min (length s) (length t) < fuel"
  shows "strcmp fuel m p q = Inr (if s = t then 0 else 1)"
  using assms
proof (induction fuel arbitrary: p q s t)
  case 0
  then show ?case by simp
next
  case (Suc fuel)
  show ?case
  proof (cases s; cases t)
    fix c s' d t'
    assume "s = c # s'" and "t = d # t'"
    with Suc.prems Suc.IH [of "p + 1" s' "q + 1" t'] show ?thesis by auto
  qed (use Suc.prems in auto)
qed

text \<open>
  \<^verbatim>\<open>strcmp\<close> on two C strings returns after at most as many steps as the shorter string
  has characters plus one, with result 0 exactly when the strings are equal and 1 otherwise.
\<close>

theorem strcmp_correct:
  assumes "is_cstr m p s" and "is_cstr m q t" and "min (length s) (length t) < fuel"
  shows "strcmp fuel m p q = Inr (if s = t then 0 else 1)"
  by (rule strcmp_spec [OF assms])

theorem strcmp_correct_witness:
  "strcmp 2 (\<lambda>x. if x = 1 then 65 else if x = 9 then 66 else 0) 1 9 = Inr 1"
  using strcmp_correct [of "\<lambda>x. if x = 1 then 65 else if x = 9 then 66 else 0" 1 "[65]" 9 "[66]" 2]
  by simp

end
