(* ===== verification/Ports.thy ===== *)
theory Ports
  imports Prelude
begin

text \<open>
  Port and memory-mapped input and output, \<^verbatim>\<open>include/x86/asm.h\<close>.  The devices behind them
  are not part of the program.  A run of a driver is recorded as the list of its accesses,
  newest first, and the device is a parameter: a function that says what a read delivers
  after the accesses made so far.  Since the function is arbitrary, a theorem that
  holds for every device function holds for every behaviour of the hardware.
\<close>

datatype io_ev =
    Out8 uint16 uint8
  | Out16 uint16 uint16
  | Out32 uint16 uint32
  | In8 uint16 uint8
  | In16 uint16 uint16
  | In32 uint16 uint32
  | MmioWrite uint64 uint32
  | MmioRead uint64 uint32

type_synonym trace = "io_ev list"

type_synonym device = "trace \<Rightarrow> uint16 \<Rightarrow> uint32"

definition outb :: "uint16 \<Rightarrow> uint8 \<Rightarrow> trace \<Rightarrow> trace" where
  "outb port v tr = Out8 port v # tr"

definition outw :: "uint16 \<Rightarrow> uint16 \<Rightarrow> trace \<Rightarrow> trace" where
  "outw port v tr = Out16 port v # tr"

definition outl :: "uint16 \<Rightarrow> uint32 \<Rightarrow> trace \<Rightarrow> trace" where
  "outl port v tr = Out32 port v # tr"

definition inb :: "device \<Rightarrow> uint16 \<Rightarrow> trace \<Rightarrow> uint8 \<times> trace" where
  "inb D port tr = (let v = ucast (D tr port) in (v, In8 port v # tr))"

definition inw :: "device \<Rightarrow> uint16 \<Rightarrow> trace \<Rightarrow> uint16 \<times> trace" where
  "inw D port tr = (let v = ucast (D tr port) in (v, In16 port v # tr))"

definition inl :: "device \<Rightarrow> uint16 \<Rightarrow> trace \<Rightarrow> uint32 \<times> trace" where
  "inl D port tr = (let v = D tr port in (v, In32 port v # tr))"

type_synonym mmio_device = "trace \<Rightarrow> uint64 \<Rightarrow> uint32"

definition mmio_read32 :: "mmio_device \<Rightarrow> uint64 \<Rightarrow> trace \<Rightarrow> uint32 \<times> trace" where
  "mmio_read32 D addr tr = (let v = D tr addr in (v, MmioRead addr v # tr))"

definition mmio_write32 :: "uint64 \<Rightarrow> uint32 \<Rightarrow> trace \<Rightarrow> trace" where
  "mmio_write32 addr v tr = MmioWrite addr v # tr"

text \<open>The bytes a driver has written to one port, oldest first.\<close>

fun written8 :: "uint16 \<Rightarrow> trace \<Rightarrow> uint8 list" where
  "written8 port [] = []"
| "written8 port (Out8 p v # tr) = written8 port tr @ (if p = port then [v] else [])"
| "written8 port (_ # tr) = written8 port tr"

lemma written8_outb [simp]:
  "written8 port (outb p v tr) = written8 port tr @ (if p = port then [v] else [])"
  by (simp add: outb_def)

lemma written8_inb [simp]: "inb D p tr = (v, tr') \<Longrightarrow> written8 port tr' = written8 port tr"
  by (auto simp: inb_def Let_def)

text \<open>The writes to memory-mapped registers, oldest first.\<close>

fun mmio_writes :: "trace \<Rightarrow> (uint64 \<times> uint32) list" where
  "mmio_writes [] = []"
| "mmio_writes (MmioWrite a v # tr) = mmio_writes tr @ [(a, v)]"
| "mmio_writes (_ # tr) = mmio_writes tr"

lemma mmio_writes_write [simp]: "mmio_writes (mmio_write32 a v tr) = mmio_writes tr @ [(a, v)]"
  by (simp add: mmio_write32_def)

lemma mmio_writes_read [simp]: "mmio_writes (snd (mmio_read32 D a tr)) = mmio_writes tr"
  by (simp add: mmio_read32_def Let_def)

lemma mmio_writes_outb [simp]: "mmio_writes (outb p v tr) = mmio_writes tr"
  by (simp add: outb_def)

lemma written8_mmio [simp]:
  "written8 p (mmio_write32 a v tr) = written8 p tr"
  "written8 p (snd (mmio_read32 D a tr)) = written8 p tr"
  by (simp_all add: mmio_write32_def mmio_read32_def Let_def)

end
