(* ===== verification/Console.thy ===== *)
theory Console
  imports Memory Ports
begin

text \<open>
  Text output: the formatter of \<^verbatim>\<open>serial.c\<close> and the UART driver of \<^verbatim>\<open>arch/x86/serial.c\<close>.
  The formatter is modelled by the characters it hands to \<^verbatim>\<open>putchar\<close>, the driver by its port
  accesses; \<open>kprint\<close> sends characters through the driver, and the device hypothesis of its theorem is that
  the transmitter becomes ready after finitely many polls.
\<close>

section \<open>Formatting\<close>

definition digits :: string where
  "digits = ''0123456789ABCDEF''"

text \<open>
  \<^verbatim>\<open>digits\<close> has its terminator as seventeenth element; past it the array access is
  undefined.  With base 1 the recursion never reaches a zero quotient.
\<close>

definition digit_char :: "nat \<Rightarrow> char kres" where
  "digit_char k = (if k < 16 then Inr (digits ! k) else if k = 16 then Inr (CHR 0x00) else Inl Undef)"

function printn :: "uint64 \<Rightarrow> uint64 \<Rightarrow> string kres" where
  "printn n base =
     (if base = 0 then Inl DivByZero
      else if base = 1 \<and> n \<noteq> 0 then Inl Diverge
      else
        ebind (if n div base \<noteq> 0 then printn (n div base) base else Inr []) (\<lambda>out.
        ebind (digit_char (unat (n mod base))) (\<lambda>c.
        Inr (out @ [c]))))"
  by pat_completeness auto
termination
proof (relation "measure (\<lambda>(n, base). unat n)")
  fix n base :: uint64
  assume b: "base \<noteq> 0" "\<not> (base = 1 \<and> n \<noteq> 0)" and q: "n div base \<noteq> 0"
  from q have n: "n \<noteq> 0" by auto
  with b have "unat base \<noteq> 0" and "unat base \<noteq> 1" by (auto simp: word_unat_eq_iff)
  then have "1 < unat base" by linarith
  with n have "unat n div unat base < unat n"
    by (intro div_less_dividend) (auto simp: unat_gt_0)
  then show "((n div base, base), (n, base)) \<in> measure (\<lambda>(n, base). unat n)"
    by (simp add: unat_div)
qed simp

declare printn.simps [simp del]

text \<open>
  The format string is read up to its terminator, so it is a list of characters; the
  arguments are the values \<^verbatim>\<open>kprintf\<close> casts to \<^verbatim>\<open>uintptr\<close>.  A \<^verbatim>\<open>%s\<close> argument is a pointer
  whose string is read from memory by \<open>kprint_at\<close>.  A percent sign at the very end of the
  format makes the code take the terminator as the conversion character.
\<close>

primrec kprint_at :: "nat \<Rightarrow> mem_t \<Rightarrow> uint64 \<Rightarrow> string kres" where
  "kprint_at 0 m a = Inl OutOfFuel"
| "kprint_at (Suc n) m a =
     (if m a = 0 then Inr []
      else ebind (kprint_at n m (a + 1)) (\<lambda>out. Inr (char_of (unat (m a)) # out)))"

definition not_enough_args :: string where
  "not_enough_args = ''Error: Not enough arguments provided for format string.\<newline>''"

definition convert :: "nat \<Rightarrow> mem_t \<Rightarrow> char \<Rightarrow> uint64 \<Rightarrow> (bool \<times> string) kres" where
  "convert fuel m c v =
     (if c = CHR ''d'' then ebind (printn v 10) (\<lambda>o1. Inr (True, o1))
      else if c = CHR ''x'' \<or> c = CHR ''p'' then ebind (printn v 16) (\<lambda>o1. Inr (True, ''0x'' @ o1))
      else if c = CHR ''o'' then ebind (printn v 8) (\<lambda>o1. Inr (True, ''0o'' @ o1))
      else if c = CHR ''c'' then Inr (True, [char_of (unat v mod 256)])
      else if c = CHR ''s'' then
        (if v = NULL then Inr (True, ''(null)'')
         else ebind (kprint_at fuel m v) (\<lambda>o1. Inr (True, o1)))
      else if c = CHR ''X'' then ebind (printn v 16) (\<lambda>o1. Inr (True, o1))
      else Inr (False, ''Unknown format '' @ [c]))"

fun kprintf_out :: "nat \<Rightarrow> mem_t \<Rightarrow> string \<Rightarrow> uint64 list \<Rightarrow> string kres" where
  "kprintf_out fuel m [] args = Inr []"
| "kprintf_out fuel m (c # fmt) args =
     (if c \<noteq> CHR ''%'' then ebind (kprintf_out fuel m fmt args) (\<lambda>out. Inr (c # out))
      else
        (case args of
           [] \<Rightarrow> Inr not_enough_args
         | v # args' \<Rightarrow>
             (case fmt of
                [] \<Rightarrow> ebind (convert fuel m (CHR 0x00) v) (\<lambda>(go, o1). Inr o1)
              | c' # fmt' \<Rightarrow>
                  ebind (convert fuel m c' v) (\<lambda>(go, o1).
                  if go then ebind (kprintf_out fuel m fmt' args') (\<lambda>out. Inr (o1 @ out))
                  else Inr o1))))"

section \<open>The UART driver\<close>

definition COM1_PORT :: uint16 where
  "COM1_PORT = 0x3F8"

definition serial_init :: "device \<Rightarrow> trace \<Rightarrow> int \<times> trace" where
  "serial_init D tr =
     (let tr = outb (COM1_PORT + 1) 0x00 tr;
          tr = outb (COM1_PORT + 3) 0x80 tr;
          tr = outb (COM1_PORT + 0) 0x03 tr;
          tr = outb (COM1_PORT + 1) 0x00 tr;
          tr = outb (COM1_PORT + 3) 0x03 tr;
          tr = outb (COM1_PORT + 2) 0xC7 tr;
          tr = outb (COM1_PORT + 4) 0x0B tr;
          tr = outb (COM1_PORT + 4) 0x1E tr;
          tr = outb (COM1_PORT + 0) 0xAE tr;
          (v, tr) = inb D (COM1_PORT + 0) tr
      in if v \<noteq> 0xAE then (1, tr) else (0, outb (COM1_PORT + 4) 0x0F tr))"

definition serial_ready :: "device \<Rightarrow> trace \<Rightarrow> uint8 \<times> trace" where
  "serial_ready D tr = (let (v, tr) = inb D (COM1_PORT + 5) tr in (v AND 0x20, tr))"

primrec serial_putchar :: "nat \<Rightarrow> device \<Rightarrow> char \<Rightarrow> trace \<Rightarrow> trace kres" where
  "serial_putchar 0 D c tr = Inl OutOfFuel"
| "serial_putchar (Suc n) D c tr =
     (let (r, tr) = serial_ready D tr in
      if r = 0 then serial_putchar n D c tr
      else Inr (outb COM1_PORT (of_nat (of_char c)) tr))"

primrec kprint :: "nat \<Rightarrow> device \<Rightarrow> string \<Rightarrow> trace \<Rightarrow> trace kres" where
  "kprint n D [] tr = Inr tr"
| "kprint n D (c # cs) tr = ebind (serial_putchar n D c tr) (\<lambda>tr. kprint n D cs tr)"

section \<open>Correctness of the formatter\<close>

definition digit_value :: "char \<Rightarrow> nat" where
  "digit_value c = (if of_char c < (58 :: nat) then of_char c - 48 else of_char c - 55)"

definition parse_digits :: "nat \<Rightarrow> string \<Rightarrow> nat" where
  "parse_digits base s = foldl (\<lambda>acc c. acc * base + digit_value c) 0 s"

lemma parse_digits_snoc [simp]:
  "parse_digits base (s @ [c]) = parse_digits base s * base + digit_value c"
  by (simp add: parse_digits_def)

lemma parse_digits_Nil [simp]: "parse_digits base [] = 0"
  by (simp add: parse_digits_def)

lemma digit_value_digits: "k < 16 \<Longrightarrow> digit_value (digits ! k) = k"
proof -
  have "\<forall>k \<in> set [0..<16]. digit_value (digits ! k) = k"
    by code_simp
  then show "k < 16 \<Longrightarrow> digit_value (digits ! k) = k" by simp
qed

lemma printn_step:
  assumes "2 \<le> unat base" and "unat base \<le> 16"
  shows "printn n base =
    ebind (if n div base \<noteq> 0 then printn (n div base) base else Inr []) (\<lambda>out.
      Inr (out @ [digits ! (unat n mod unat base)]))"
proof -
  have "base \<noteq> 0" and "base \<noteq> 1" using assms(1) by auto
  moreover have "unat n mod unat base < 16"
    using assms mod_less_divisor [of "unat base" "unat n"] by linarith
  ultimately show ?thesis
    by (subst printn.simps) (simp add: digit_char_def unat_mod)
qed

text \<open>
  \<^verbatim>\<open>printn\<close> terminates for every base from 2 to 16, and reading the digits it prints as
  a number in that base gives back the argument; it prints a leading zero only for 0.
\<close>

theorem printn_roundtrip:
  assumes "2 \<le> unat base" and "unat base \<le> 16"
  shows "\<exists>s. printn n base = Inr s \<and> s \<noteq> [] \<and> parse_digits (unat base) s = unat n \<and>
    (hd s = CHR ''0'' \<longrightarrow> n = 0 \<and> s = ''0'')"
proof (induction "unat n" arbitrary: n rule: less_induct)
  case less
  have mod16: "unat n mod unat base < 16"
    using assms mod_less_divisor [of "unat base" "unat n"] by linarith
  show ?case
  proof (cases "n div base = 0")
    case True
    then have "unat n div unat base = 0" by (metis unat_0 unat_div)
    then have small: "unat n < unat base"
      using assms by (simp add: div_eq_0_iff)
    have z: "n = 0" if "digits ! unat n = CHR ''0''"
    proof -
      from small assms digit_value_digits [of "unat n"] that have "unat n = 0"
        by (simp add: digit_value_def)
      then show ?thesis by (simp add: unat_eq_zero)
    qed
    have "digits ! 0 = CHR ''0''" by (simp add: digits_def)
    with True small mod16 assms z show ?thesis
      by (subst printn_step) (auto simp: digit_value_digits parse_digits_def)
  next
    case False
    then have "n \<noteq> 0" by auto
    then have "unat (n div base) < unat n"
      using assms by (auto simp: unat_div unat_gt_0 intro!: div_less_dividend)
    from less [OF this] obtain s where s: "printn (n div base) base = Inr s" "s \<noteq> []"
      "parse_digits (unat base) s = unat (n div base)"
      "hd s = CHR ''0'' \<longrightarrow> n div base = 0 \<and> s = ''0''"
      by blast
    then have "parse_digits (unat base) (s @ [digits ! (unat n mod unat base)]) = unat n"
      using mod16 by (simp add: digit_value_digits unat_div)
    with s False assms show ?thesis
      by (subst printn_step) auto
  qed
qed

theorem printn_roundtrip_witness:
  "\<exists>s. printn 255 16 = Inr s \<and> s \<noteq> [] \<and> parse_digits 16 s = 255"
  using printn_roundtrip [of 16 255] by auto

lemma kprintf_out_literal:
  "CHR ''%'' \<notin> set fmt \<Longrightarrow> kprintf_out fuel m fmt args = Inr fmt"
  by (induction fmt) auto

section \<open>Correctness of the driver\<close>

text \<open>
  The transmitter becomes ready: from any point of a run, some poll among the next \<open>n\<close>
  finds bit 5 of the line status register set.
\<close>

primrec ready_within :: "nat \<Rightarrow> device \<Rightarrow> trace \<Rightarrow> bool" where
  "ready_within 0 D tr \<longleftrightarrow> False"
| "ready_within (Suc n) D tr \<longleftrightarrow>
     fst (serial_ready D tr) \<noteq> 0 \<or> ready_within n D (snd (serial_ready D tr))"

lemma serial_ready_written [simp]: "written8 p (snd (serial_ready D tr)) = written8 p tr"
  by (simp add: serial_ready_def inb_def Let_def)

lemma serial_putchar_sends:
  assumes "ready_within n D tr"
  shows "\<exists>tr'. serial_putchar n D c tr = Inr tr' \<and>
    written8 COM1_PORT tr' = written8 COM1_PORT tr @ [of_nat (of_char c)]"
  using assms
proof (induction n arbitrary: tr)
  case 0
  then show ?case by simp
next
  case (Suc n)
  have w: "written8 p (snd (serial_ready D tr)) = written8 p tr" for p by simp
  show ?case
  proof (cases "serial_ready D tr")
    case (Pair r tr1)
    with w [of COM1_PORT] have "written8 COM1_PORT tr1 = written8 COM1_PORT tr" by simp
    with Pair Suc.IH [of tr1] Suc.prems show ?thesis
      by (cases "r = 0") auto
  qed
qed

text \<open>
  On a UART whose transmitter always becomes ready within \<open>n\<close> polls, printing a string
  returns, and the bytes that went out through the data port are the characters of the
  string, in order and each exactly once.
\<close>

theorem kprint_sends:
  assumes "\<And>tr. ready_within n D tr"
  shows "\<exists>tr'. kprint n D cs tr = Inr tr' \<and>
    written8 COM1_PORT tr' = written8 COM1_PORT tr @ map (of_nat \<circ> of_char) cs"
proof (induction cs arbitrary: tr)
  case Nil
  then show ?case by simp
next
  case (Cons c cs)
  from serial_putchar_sends [OF assms, of c tr] obtain tr1
    where "serial_putchar n D c tr = Inr tr1"
      and "written8 COM1_PORT tr1 = written8 COM1_PORT tr @ [of_nat (of_char c)]"
    by blast
  with Cons [of tr1] show ?case by auto
qed

theorem kprint_sends_witness:
  "\<exists>tr'. kprint 1 (\<lambda>_ _. 0x20) ''ok'' [] = Inr tr' \<and> written8 COM1_PORT tr' = [111, 107]"
proof -
  have "ready_within 1 (\<lambda>_ _. 0x20) tr" for tr
    by (simp add: serial_ready_def inb_def)
  from kprint_sends [OF this, of "''ok''" "[]"] show ?thesis by simp
qed

end
