(* ===== verification/Machine.thy ===== *)
theory Machine
  imports Console
begin

text \<open>
  The kernel's state.  Its dynamic structures live in the byte memory; the scalar globals of
  the C files are fields of their own.  What the kernel is linked with and run on is a
  constant \<open>K\<close> of the model: the addresses the linker chooses for the globals that are reached
  through pointers (\<^verbatim>\<open>slabs\<close>, the list heads, \<^verbatim>\<open>kernel_end\<close> of \<^verbatim>\<open>kernel.ls\<close>), the addresses of
  those local variables whose address is taken, the table of \<^verbatim>\<open>vectors.S\<close>, the devices behind
  ports and memory-mapped registers, the answers of the \<^verbatim>\<open>cpuid\<close> instruction, and the number
  of steps granted to loops over linked structures.
\<close>

record klayout =
  kernel_end :: uint64
  slabs_at :: uint64
  proc_list_at :: uint64
  inode_list_at :: uint64
  pci_devices_at :: uint64
  idt_at :: uint64
  ts_at :: uint64
  gdt_at :: uint64
  sysret_at :: uint64
  syscall_at :: uint64
  stdio_at :: uint64
  local_at :: "string \<Rightarrow> uint64"
  vectors :: "nat \<Rightarrow> uint64"
  port_dev :: device
  mmio_dev :: mmio_device
  cpuid_out :: "uint32 \<Rightarrow> nat \<Rightarrow> uint32"
  loop_fuel :: nat

text \<open>The structures \<^verbatim>\<open>APIC\<close> of \<^verbatim>\<open>include/apic.h\<close> and \<^verbatim>\<open>FAT16\<close> of \<^verbatim>\<open>include/fs/fat16.h\<close>.\<close>

record APIC =
  lapic_id :: uint64
  lapic_addr :: uint64
  ioapic_id :: uint64
  ioapic_addr :: uint64

record FAT16 =
  bpb_entry :: uint16
  fat_entry :: uint16
  rootdir_entry :: uint16
  data_entry :: uint16
  sector_size :: uint16
  cluster_size :: uint16
  fat_size :: uint16
  partition0_size :: uint32
  sector_per_cluster :: uint16
  sector_per_fat :: uint16
  sector_per_partition0 :: uint16
  root_entries :: uint16

record kstate =
  mem :: mem_t
  pmmap :: "uint64 list"
  memtotal :: uint64
  screen_base :: uint64
  screen_size :: uint64
  screen_hr :: uint32
  screen_vr :: uint32
  xsdp :: uint64
  pgdir :: uint64
  cr3 :: uint64
  cr2 :: uint64
  msrs :: "uint32 \<Rightarrow> uint64"
  idtr_limit :: uint16
  idtr_base :: uint64
  task_reg :: uint16
  curproc :: uint64
  nextpid :: uint64
  apic :: APIC
  fat16 :: FAT16
  kbd_flags :: uint8
  ticks :: uint64
  io :: trace
  console :: string

section \<open>Input and output of the running kernel\<close>

text \<open>The accesses of \<^verbatim>\<open>include/x86/asm.h\<close>, made on the machine \<open>K\<close> and recorded in the state.\<close>

definition k_outb :: "uint16 \<Rightarrow> uint8 \<Rightarrow> kstate \<Rightarrow> kstate" where
  "k_outb port v s = s\<lparr>io := outb port v (io s)\<rparr>"

definition k_outl :: "uint16 \<Rightarrow> uint32 \<Rightarrow> kstate \<Rightarrow> kstate" where
  "k_outl port v s = s\<lparr>io := outl port v (io s)\<rparr>"

definition k_inb :: "klayout \<Rightarrow> uint16 \<Rightarrow> kstate \<Rightarrow> uint8 \<times> kstate" where
  "k_inb K port s = (let (v, tr) = inb (port_dev K) port (io s) in (v, s\<lparr>io := tr\<rparr>))"

definition k_inl :: "klayout \<Rightarrow> uint16 \<Rightarrow> kstate \<Rightarrow> uint32 \<times> kstate" where
  "k_inl K port s = (let (v, tr) = inl (port_dev K) port (io s) in (v, s\<lparr>io := tr\<rparr>))"

definition k_mmio_read32 :: "klayout \<Rightarrow> uint64 \<Rightarrow> kstate \<Rightarrow> uint32 \<times> kstate" where
  "k_mmio_read32 K addr s =
     (let (v, tr) = mmio_read32 (mmio_dev K) addr (io s) in (v, s\<lparr>io := tr\<rparr>))"

definition k_mmio_write32 :: "uint64 \<Rightarrow> uint32 \<Rightarrow> kstate \<Rightarrow> kstate" where
  "k_mmio_write32 addr v s = s\<lparr>io := mmio_write32 addr v (io s)\<rparr>"

section \<open>Printing\<close>

text \<open>
  \<^verbatim>\<open>kprintf\<close>, and \<^verbatim>\<open>debugf\<close> in the build with \<^verbatim>\<open>__DEBUG__\<close> (the Makefile defines it), append
  what they format to the console.
\<close>

definition kprintf :: "klayout \<Rightarrow> string \<Rightarrow> uint64 list \<Rightarrow> kstate \<Rightarrow> kstate kres" where
  "kprintf K fmt args s =
     ebind (kprintf_out (loop_fuel K) (mem s) fmt args) (\<lambda>out.
     Inr (s\<lparr>console := console s @ out\<rparr>))"

text \<open>A run of calls of \<^verbatim>\<open>kprintf\<close>, one after the other.\<close>

fun kprintfs :: "klayout \<Rightarrow> (string \<times> uint64 list) list \<Rightarrow> kstate \<Rightarrow> kstate kres" where
  "kprintfs K [] s = Inr s"
| "kprintfs K ((fmt, args) # ls) s = ebind (kprintf K fmt args s) (\<lambda>s. kprintfs K ls s)"

text \<open>A format without a \<^verbatim>\<open>%s\<close> conversion never waits for a string terminator.\<close>

fun no_string_arg :: "string \<Rightarrow> bool" where
  "no_string_arg [] \<longleftrightarrow> True"
| "no_string_arg [c] \<longleftrightarrow> True"
| "no_string_arg (c # d # fmt) \<longleftrightarrow>
     (if c = CHR ''%'' then d \<noteq> CHR ''s'' \<and> no_string_arg fmt else no_string_arg (d # fmt))"

lemma printn_bases [simp]: 
  "\<exists>out. printn v 10 = Inr out" "\<exists>out. printn v 16 = Inr out" "\<exists>out. printn v 8 = Inr out"
proof -
  have "\<exists>out. printn v b = Inr out" if "2 \<le> unat b" "unat b \<le> 16" for b
    using that
  proof (induction "unat v" arbitrary: v rule: less_induct)
    case less
    show ?case
    proof (cases "v div b = 0")
      case True
      with less.prems show ?thesis by (simp add: printn_step)
    next
      case False
      then have "v \<noteq> 0" by auto
      then have "unat (v div b) < unat v"
        using less.prems by (auto simp: unat_div unat_gt_0 intro!: div_less_dividend)
      from less.hyps [OF this less.prems] less.prems False show ?thesis
        by (auto simp: printn_step [of b v])
    qed
  qed
  from this [of 10] this [of 16] this [of 8]
  show "\<exists>out. printn v 10 = Inr out" "\<exists>out. printn v 16 = Inr out" "\<exists>out. printn v 8 = Inr out"
    by simp_all
qed

lemma convert_total: "c \<noteq> CHR ''s'' \<Longrightarrow> \<exists>go o1. convert fuel m c v = Inr (go, o1)"
proof -
  assume c: "c \<noteq> CHR ''s''"
  obtain o10 o16 o8 where "printn v 10 = Inr o10" "printn v 16 = Inr o16" "printn v 8 = Inr o8"
    using printn_bases [of v] by blast
  with c show ?thesis by (simp add: convert_def ex_bool_eq)
qed

lemma kprintf_out_total: "no_string_arg fmt \<Longrightarrow> \<exists>out. kprintf_out fuel m fmt args = Inr out"
proof (induction fmt arbitrary: args rule: no_string_arg.induct)
  case 1
  then show ?case by simp
next
  case (2 c)
  from convert_total [of "CHR 0x00" fuel m "hd args"] show ?case
    by (auto split: list.split)
next
  case (3 c d fmt)
  show ?case
  proof (cases "c = CHR ''%''")
    case True
    with 3 have d: "d \<noteq> CHR ''s''" and IH: "\<exists>out. kprintf_out fuel m fmt a = Inr out" for a
      by auto
    show ?thesis
    proof (cases args)
      case Nil
      with True show ?thesis by simp
    next
      case (Cons v args')
      from convert_total [OF d, of fuel m v] obtain go o1
        where "convert fuel m d v = Inr (go, o1)" by blast
      with True Cons IH [of args'] show ?thesis by auto
    qed
  next
    case False
    with 3 obtain out where "kprintf_out fuel m (d # fmt) args = Inr out" by auto
    with False show ?thesis by simp
  qed
qed

lemma kprintf_total:
  assumes "no_string_arg fmt"
  shows "\<exists>out. kprintf K fmt args s = Inr (s\<lparr>console := console s @ out\<rparr>)"
  using kprintf_out_total [OF assms, of "loop_fuel K" "mem s" args] by (auto simp: kprintf_def)

lemma kprintfs_total:
  assumes "\<forall>(fmt, args) \<in> set ls. no_string_arg fmt"
  shows "\<exists>out. kprintfs K ls s = Inr (s\<lparr>console := console s @ out\<rparr>)"
  using assms
proof (induction ls arbitrary: s)
  case Nil
  have "kprintfs K [] s = Inr (s\<lparr>console := console s @ []\<rparr>)" by simp
  then show ?case by blast
next
  case (Cons l ls)
  obtain fmt args where l: "l = (fmt, args)" by (cases l)
  with Cons.prems have "no_string_arg fmt" and ls: "\<forall>(fmt, args) \<in> set ls. no_string_arg fmt"
    by simp_all
  then obtain o1 where o1: "kprintf K fmt args s = Inr (s\<lparr>console := console s @ o1\<rparr>)"
    using kprintf_total by blast
  from Cons.IH [OF ls] obtain o2 where
    "kprintfs K ls (s\<lparr>console := console s @ o1\<rparr>) =
       Inr (s\<lparr>console := console s @ o1\<rparr>\<lparr>console := console (s\<lparr>console := console s @ o1\<rparr>) @ o2\<rparr>)"
    by blast
  with o1 have "kprintfs K (l # ls) s = Inr (s\<lparr>console := console s @ (o1 @ o2)\<rparr>)"
    by (simp add: l)
  then show ?case by blast
qed

declare kprintfs.simps [simp del]

end
