(* ===== verification/Ide.thy ===== *)
theory Ide
  imports Machine
begin

text \<open>
  The disk driver, \<^verbatim>\<open>arch/x86/ide.c\<close>: programmed input of whole sectors from the primary ATA
  channel.
\<close>

definition IDE_COMMAND :: uint16 where "IDE_COMMAND = 0x1F7"
definition ATA_SR_BSY :: uint8 where "ATA_SR_BSY = 0x80"
definition ATA_SR_DRDY :: uint8 where "ATA_SR_DRDY = 0x40"
definition ATA_SR_DRQ :: uint8 where "ATA_SR_DRQ = 0x08"
definition ATA_CMD_READ_PIO :: uint8 where "ATA_CMD_READ_PIO = 0x20"

primrec ide_wait_ready_loop :: "nat \<Rightarrow> klayout \<Rightarrow> kstate \<Rightarrow> kstate kres" where
  "ide_wait_ready_loop 0 K s = Inl (Panic ''IDE: Wait Ready Timeout\<newline>'')"
| "ide_wait_ready_loop (Suc retries) K s =
     (let (v, s) = k_inb K IDE_COMMAND s in
      if v AND (ATA_SR_BSY OR ATA_SR_DRDY) = ATA_SR_DRDY then Inr s
      else ide_wait_ready_loop retries K s)"

definition ide_wait_ready :: "klayout \<Rightarrow> kstate \<Rightarrow> kstate kres" where
  "ide_wait_ready K s = ide_wait_ready_loop 10000 K s"

primrec ide_wait_data_loop :: "nat \<Rightarrow> klayout \<Rightarrow> kstate \<Rightarrow> kstate kres" where
  "ide_wait_data_loop 0 K s = Inl (Panic ''IDE: Wait Data Timeout\<newline>'')"
| "ide_wait_data_loop (Suc retries) K s =
     (let (v, s) = k_inb K IDE_COMMAND s in
      if v AND ATA_SR_DRQ \<noteq> 0 then Inr s else ide_wait_data_loop retries K s)"

definition ide_wait_data :: "klayout \<Rightarrow> kstate \<Rightarrow> kstate kres" where
  "ide_wait_data K s = ide_wait_data_loop 10000 K s"

primrec ide_read_words :: "nat \<Rightarrow> klayout \<Rightarrow> uint64 \<Rightarrow> kstate \<Rightarrow> kstate" where
  "ide_read_words 0 K buf s = s"
| "ide_read_words (Suc n) K buf s =
     (let (v, s) = k_inl K 0x1F0 s in
      ide_read_words n K (buf + 4) (s\<lparr>mem := store32 (mem s) buf v\<rparr>))"

primrec ide_read_sectors :: "nat \<Rightarrow> klayout \<Rightarrow> uint64 \<Rightarrow> kstate \<Rightarrow> kstate kres" where
  "ide_read_sectors 0 K buf s = Inr s"
| "ide_read_sectors (Suc n) K buf s =
     ebind (ide_wait_data K s) (\<lambda>s.
     ide_read_sectors n K (buf + 512) (ide_read_words 128 K buf s))"

definition ide_select :: "uint32 \<Rightarrow> uint32 \<Rightarrow> kstate \<Rightarrow> kstate" where
  "ide_select sector count s =
     (let s = k_outb 0x1F6 (0xE0 OR ucast (drop_bit 24 sector AND 0xF)) s;
          s = k_outb 0x1F2 (ucast count) s;
          s = k_outb 0x1F3 (ucast (sector AND 0xFF)) s;
          s = k_outb 0x1F4 (ucast (drop_bit 8 sector AND 0xFF)) s;
          s = k_outb 0x1F5 (ucast (drop_bit 16 sector AND 0xFF)) s
      in k_outb IDE_COMMAND ATA_CMD_READ_PIO s)"

definition ide_read_seq :: "klayout \<Rightarrow> uint32 \<Rightarrow> uint64 \<Rightarrow> uint32 \<Rightarrow> kstate \<Rightarrow> kstate kres" where
  "ide_read_seq K sector buf count s =
     ebind (ide_wait_ready K s) (\<lambda>s.
     ide_read_sectors (unat count) K buf (ide_select sector count s))"

definition ide_read :: "klayout \<Rightarrow> uint32 \<Rightarrow> uint64 \<Rightarrow> kstate \<Rightarrow> kstate kres" where
  "ide_read K sector buf s = ide_read_seq K sector buf 1 s"

end
