(* ===== verification/PhysMem.thy ===== *)
theory PhysMem
  imports Machine
begin

text \<open>
  The physical page allocator: \<^verbatim>\<open>mm/pm.c\<close> and its start-up in \<^verbatim>\<open>arch/x86/pm.c\<close>.  Free blocks
  of 4 KiB, 512 KiB and 64 MiB hang in three singly linked lists whose links are stored in
  the first eight bytes of the blocks themselves; a larger block is cut into 128 smaller
  ones when a list runs empty.
\<close>

section \<open>mm/pm.c\<close>

definition PM_4K :: uint64 where
  "PM_4K = KiB 4"

definition PM_512K :: uint64 where
  "PM_512K = KiB 512"

definition PM_64M :: uint64 where
  "PM_64M = MiB 64"

definition pm_size_to_idx :: "uint64 \<Rightarrow> nat kres" where
  "pm_size_to_idx sz =
     (if sz = PM_4K then Inr 0
      else if sz = PM_512K then Inr 1
      else if sz = PM_64M then Inr 2
      else Inl (Panic ''pm: invalid size %d''))"

definition pmfree :: "klayout \<Rightarrow> uint64 \<Rightarrow> uint64 \<Rightarrow> kstate \<Rightarrow> kstate kres" where
  "pmfree K addr sz s =
     ebind (pm_size_to_idx sz) (\<lambda>idx.
     if addr = NULL \<or> addr < kernel_end K \<or> addr \<ge> memtotal s then
       Inl (Panic ''pmfree: invalid address %x'')
     else
       let s = s\<lparr>mem := store64 (mem s) addr (pmmap s ! idx)\<rparr> in
       Inr (s\<lparr>pmmap := (pmmap s)[idx := addr]\<rparr>))"

text \<open>The loop that hands \<open>n\<close> neighbouring blocks to \<^verbatim>\<open>pmfree\<close>, from the highest one down.\<close>

primrec pm_split :: "klayout \<Rightarrow> uint64 \<Rightarrow> nat \<Rightarrow> uint64 \<Rightarrow> kstate \<Rightarrow> kstate kres" where
  "pm_split K sz 0 addr s = Inr s"
| "pm_split K sz (Suc n) addr s =
     ebind (pmfree K addr sz s) (\<lambda>s. pm_split K sz n (addr - sz) s)"

lemma PM_values: "PM_4K = 4096" "PM_512K = 524288" "PM_64M = 67108864"
  by (simp_all add: PM_4K_def PM_512K_def PM_64M_def KiB_def MiB_def)

function pmalloc :: "klayout \<Rightarrow> uint64 \<Rightarrow> kstate \<Rightarrow> (uint64 \<times> kstate) kres" where
  "pmalloc K sz s =
     ebind (pm_size_to_idx sz) (\<lambda>idx.
     ebind
       (if pmmap s ! idx = NULL then
          (if sz = PM_64M then Inl (Panic ''pmalloc: out of memory'')
           else if sz = PM_512K then
             ebind (pmalloc K PM_64M s) (\<lambda>(a, s).
             pm_split K PM_512K 128 (a + PM_64M - PM_512K) s)
           else if sz = PM_4K then
             ebind (pmalloc K PM_512K s) (\<lambda>(a, s).
             pm_split K PM_4K 128 (a + PM_512K - PM_4K) s)
           else Inr s)
        else Inr s) (\<lambda>s.
     let addr = pmmap s ! idx;
         s = s\<lparr>pmmap := (pmmap s)[idx := load64 (mem s) addr]\<rparr>;
         s = s\<lparr>mem := memset (mem s) addr 0 sz\<rparr>
     in Inr (addr, s)))"
  by pat_completeness auto
termination
  by (relation "measure (\<lambda>(K, sz, s). if sz = PM_4K then 2 else if sz = PM_512K then 1 else 0)")
    (auto simp: PM_values)

declare pmalloc.simps [simp del]

text \<open>Counting a free list, and the report of \<^verbatim>\<open>pm_dump\<close>.\<close>

primrec pm_count :: "nat \<Rightarrow> mem_t \<Rightarrow> uint64 \<Rightarrow> uint64 kres" where
  "pm_count 0 m p = Inl OutOfFuel"
| "pm_count (Suc n) m p =
     (if p = NULL then Inr 0 else ebind (pm_count n m (load64 m p)) (\<lambda>c. Inr (c + 1)))"

definition pm_dump_one :: "klayout \<Rightarrow> nat \<Rightarrow> string \<Rightarrow> kstate \<Rightarrow> kstate kres" where
  "pm_dump_one K i fmt s =
     (if pmmap s ! i = NULL then Inr s
      else ebind (pm_count (loop_fuel K) (mem s) (pmmap s ! i)) (\<lambda>count. kprintf K fmt [count] s))"

definition pm_dump :: "klayout \<Rightarrow> kstate \<Rightarrow> kstate kres" where
  "pm_dump K s =
     ebind (pm_dump_one K 0 ''[pm] pmmap[4K]: %d\<newline>'' s) (\<lambda>s.
     ebind (pm_dump_one K 1 ''[pm] pmmap[512K]: %d\<newline>'' s) (\<lambda>s.
     pm_dump_one K 2 ''[pm] pmmap[64M]: %d\<newline>'' s))"

section \<open>arch/x86/pm.c\<close>

definition PG_P :: uint64 where "PG_P = 1"
definition PG_RW :: uint64 where "PG_RW = push_bit 1 1"
definition PG_US :: uint64 where "PG_US = push_bit 2 1"
definition PG_PS :: uint64 where "PG_PS = push_bit 7 1"

text \<open>
  A loop over the 512 entries of a table that ends at the first entry whose body jumps to
  \<^verbatim>\<open>out\<close>; the body's result is the value it leaves in \<^verbatim>\<open>allocatable_max\<close>.
\<close>

fun scan_table :: "mem_t \<Rightarrow> uint64 \<Rightarrow> (uint64 \<Rightarrow> uint64 option) \<Rightarrow> nat list \<Rightarrow> uint64 option" where
  "scan_table m table body [] = None"
| "scan_table m table body (i # is) =
     (let e = load64 m (table + 8 * of_nat i) in
      if e AND PG_P = 0 then scan_table m table body is
      else (case body e of None \<Rightarrow> scan_table m table body is | Some r \<Rightarrow> Some r))"

definition find_allocatable_max :: "mem_t \<Rightarrow> uint64 \<Rightarrow> uint64 \<Rightarrow> uint64 \<Rightarrow> uint64" where
  "find_allocatable_max m pml4 mask_lo12 mask_lo21 =
     (case scan_table m pml4 (\<lambda>e4.
        scan_table m (e4 AND mask_lo12) (\<lambda>e3.
          scan_table m (e3 AND mask_lo12) (\<lambda>e2.
            if e2 AND PG_RW = 0 then Some (e2 AND mask_lo21)
            else if e2 AND PG_PS \<noteq> 0 then None
            else scan_table m (e2 AND mask_lo12) (\<lambda>e1.
              if e1 AND PG_RW = 0 then Some (e1 AND mask_lo12) else None) [0..<512])
            [0..<512])
          [0..<512])
        [0..<512] of
        None \<Rightarrow> 0 | Some r \<Rightarrow> r)"

primrec pm_fill :: "nat \<Rightarrow> klayout \<Rightarrow> uint64 \<Rightarrow> uint64 \<Rightarrow> kstate \<Rightarrow> (uint64 \<times> kstate) kres" where
  "pm_fill 0 K sz amax s = Inl OutOfFuel"
| "pm_fill (Suc n) K sz amax s =
     (if amax \<ge> kernel_end K + sz then
        ebind (pmfree K (amax - sz) sz s) (\<lambda>s. pm_fill n K sz (amax - sz) s)
      else Inr (amax, s))"

definition pm_init :: "klayout \<Rightarrow> uint32 \<Rightarrow> kstate \<Rightarrow> kstate kres" where
  "pm_init K cpuid_8000_0008_eax s =
     (let max_paddr = unat (cpuid_8000_0008_eax AND 0xFF) in
      if 64 \<le> max_paddr then Inl Undef
      else
        let mask_lo12 = BIT64_MASK max_paddr AND NOT (BIT64_MASK 12);
            mask_lo21 = BIT64_MASK max_paddr AND NOT (BIT64_MASK 21);
            amax = find_allocatable_max (mem s) (cr3 s AND mask_lo12) mask_lo12 mask_lo21
        in
        ebind (kprintf K ''[pm] kernel_end: %x\<newline>'' [kernel_end K] s) (\<lambda>s.
        ebind (kprintf K ''[pm] allocatable_max: %x\<newline>'' [amax] s) (\<lambda>s.
        ebind (pm_fill (loop_fuel K) K PM_64M amax s) (\<lambda>(amax, s).
        ebind (pm_fill (loop_fuel K) K PM_512K amax s) (\<lambda>(amax, s).
        ebind (pm_fill (loop_fuel K) K PM_4K amax s) (\<lambda>(amax, s).
        pm_dump K s))))))"

section \<open>Abstract allocator\<close>

text \<open>
  The abstract state is the list of free blocks of each size.  \<open>cover A x\<close> counts the free
  blocks that contain the byte at address \<open>x\<close>: the lists are sound when no byte is counted
  twice, and no memory is lost when an operation keeps the count.
\<close>

type_synonym pm_abs = "uint64 list list"

definition pm_sz :: "nat \<Rightarrow> nat" where
  "pm_sz i = [4096, 524288, 67108864] ! i"

definition pm_size :: "nat \<Rightarrow> uint64" where
  "pm_size i = [PM_4K, PM_512K, PM_64M] ! i"

definition in_block :: "nat \<Rightarrow> uint64 \<Rightarrow> nat \<Rightarrow> bool" where
  "in_block n a x \<longleftrightarrow> unat a \<le> x \<and> x < unat a + n"

definition cov :: "nat \<Rightarrow> uint64 list \<Rightarrow> nat \<Rightarrow> nat" where
  "cov n as x = length (filter (\<lambda>a. in_block n a x) as)"

definition cover :: "pm_abs \<Rightarrow> nat \<Rightarrow> nat" where
  "cover A x = cov (pm_sz 0) (A ! 0) x + cov (pm_sz 1) (A ! 1) x + cov (pm_sz 2) (A ! 2) x"

definition block_ok :: "klayout \<Rightarrow> uint64 \<Rightarrow> nat \<Rightarrow> uint64 \<Rightarrow> bool" where
  "block_ok K mt n a \<longleftrightarrow> a \<noteq> NULL \<and> kernel_end K \<le> a \<and> unat a + n \<le> unat mt"

definition pm_rel :: "klayout \<Rightarrow> kstate \<Rightarrow> pm_abs \<Rightarrow> bool" where
  "pm_rel K s A \<longleftrightarrow>
     length (pmmap s) = 3 \<and> length A = 3 \<and>
     (\<forall>i<3. chain (load64 (mem s)) (pmmap s ! i) (A ! i)) \<and>
     (\<forall>i<3. \<forall>a \<in> set (A ! i). block_ok K (memtotal s) (pm_sz i) a) \<and>
     (\<forall>x. cover A x \<le> 1)"

text \<open>Taking a block: from its own list, or by cutting a block of the next size in 128.\<close>

function pm_take :: "nat \<Rightarrow> pm_abs \<Rightarrow> (uint64 \<times> pm_abs) option" where
  "pm_take i A =
     (case A ! i of
        a # as \<Rightarrow> Some (a, A[i := as])
      | [] \<Rightarrow>
          if 2 \<le> i then None
          else
            (case pm_take (Suc i) A of
               None \<Rightarrow> None
             | Some (b, A') \<Rightarrow> Some (b, A'[i := map (\<lambda>k. b + of_nat (k * pm_sz i)) [1..<128]])))"
  by pat_completeness auto
termination
  by (relation "measure (\<lambda>(i, A). 3 - i)") auto

declare pm_take.simps [simp del]

lemma pm_idx_cases:
  fixes i :: nat
  assumes "i < 3"
  obtains "i = 0" | "i = 1" | "i = 2"
  using assms by linarith

lemma pm_sz_vals [simp]: "pm_sz 0 = 4096" "pm_sz (Suc 0) = 524288" "pm_sz 2 = 67108864"
  by (simp_all add: pm_sz_def)

lemma pm_size_vals: "pm_size 0 = 4096" "pm_size (Suc 0) = 524288" "pm_size 2 = 67108864"
  by (simp_all add: pm_size_def PM_values)

lemma pm_sz_bounds: "i < 3 \<Longrightarrow> 4096 \<le> pm_sz i \<and> pm_sz i \<le> 67108864"
  by (erule pm_idx_cases) auto

lemma unat_pm_size [simp]: "i < 3 \<Longrightarrow> unat (pm_size i) = pm_sz i"
  by (erule pm_idx_cases) (simp_all add: pm_size_vals)

lemma pm_size_of_nat: "i < 3 \<Longrightarrow> pm_size i = of_nat (pm_sz i)"
  by (erule pm_idx_cases) (simp_all add: pm_size_vals)

lemma pm_size_to_idx_size [simp]: "i < 3 \<Longrightarrow> pm_size_to_idx (pm_size i) = Inr i"
  by (erule pm_idx_cases) (simp_all add: pm_size_to_idx_def pm_size_def PM_values)

lemma pm_sz_Suc: "i < 2 \<Longrightarrow> pm_sz (Suc i) = 128 * pm_sz i"
  by (auto simp: less_2_cases_iff numeral_2_eq_2 [symmetric])

section \<open>Counting free bytes\<close>

lemma cov_Nil [simp]: "cov n [] x = 0"
  by (simp add: cov_def)

lemma cov_Cons [simp]: "cov n (a # as) x = of_bool (in_block n a x) + cov n as x"
  by (simp add: cov_def)

lemma cov_append [simp]: "cov n (as @ bs) x = cov n as x + cov n bs x"
  by (simp add: cov_def)

lemma cov_member: "a \<in> set as \<Longrightarrow> in_block n a x \<Longrightarrow> 1 \<le> cov n as x"
  by (induction as) auto

lemma cov_le_cover: "i < 3 \<Longrightarrow> cov (pm_sz i) (A ! i) x \<le> cover A x"
  by (erule pm_idx_cases) (auto simp: cover_def)

lemma cover_update:
  assumes "length A = 3" and "i < 3"
  shows "cover (A[i := bs]) x + cov (pm_sz i) (A ! i) x = cover A x + cov (pm_sz i) bs x"
  using assms(2) by (rule pm_idx_cases) (use assms in \<open>auto simp: cover_def\<close>)

lemma cover_apart:
  assumes "cover A x + of_bool (in_block n a x) \<le> 1" and "i < 3" and "b \<in> set (A ! i)"
  shows "\<not> (in_block n a x \<and> in_block (pm_sz i) b x)"
proof
  assume x: "in_block n a x \<and> in_block (pm_sz i) b x"
  then have "1 \<le> cov (pm_sz i) (A ! i) x"
    using assms(3) by (intro cov_member) auto
  with cov_le_cover [OF assms(2), of A x] assms(1) x show False by simp
qed

lemma bytes_at_in_block:
  assumes "unat a + n \<le> 18446744073709551616"
  shows "x \<in> bytes_at a n \<longleftrightarrow> in_block n a (unat x)"
  using assms by (auto simp: bytes_at_interval in_block_def)

lemma block_ok_no_wrap: "block_ok K mt n a \<Longrightarrow> unat a + n < 18446744073709551616"
  unfolding block_ok_def using unat_less_2p64 [of mt] by linarith

lemma block_links_apart:
  assumes "\<And>x. cover A x + of_bool (in_block n a x) \<le> 1" and "i < 3" and "b \<in> set (A ! i)"
    and "block_ok K mt n a" and "block_ok K mt (pm_sz i) b" and "k \<le> n"
  shows "bytes_at a k \<inter> bytes_at b 8 = {}"
proof -
  have "\<not> (in_block n a (unat x) \<and> in_block (pm_sz i) b (unat x))" for x :: uint64
    using assms(1-3) by (rule cover_apart)
  moreover have "bytes_at a k \<subseteq> bytes_at a n" and "bytes_at b 8 \<subseteq> bytes_at b (pm_sz i)"
    using assms(6) pm_sz_bounds [OF assms(2)] by (auto intro!: bytes_at_mono)
  moreover have "unat a + n \<le> 18446744073709551616" "unat b + pm_sz i \<le> 18446744073709551616"
    using assms(4,5) by (auto dest!: block_ok_no_wrap)
  ultimately show ?thesis
    using bytes_at_in_block [of a n] bytes_at_in_block [of b "pm_sz i"] by blast
qed

text \<open>Nothing below the end of the kernel image is ever free.\<close>

lemma cover_below_kernel:
  assumes "pm_rel K s A" and "x < unat (kernel_end K)"
  shows "cover A x = 0"
proof -
  have "\<not> in_block (pm_sz i) a x" if ia: "i < 3" "a \<in> set (A ! i)" for i a
  proof -
    from assms(1) ia have "block_ok K (memtotal s) (pm_sz i) a" by (simp add: pm_rel_def)
    with assms(2) show ?thesis by (simp add: block_ok_def in_block_def word_le_nat_alt)
  qed
  then have "cov (pm_sz i) (A ! i) x = 0" if "i < 3" for i
    using that by (auto simp: cov_def filter_empty_conv)
  from this [of 0] this [of 1] this [of 2] show ?thesis by (simp add: cover_def)
qed

text \<open>A change of memory inside a block that is not free leaves the free lists as they are.\<close>

lemma pm_chain_frame:
  assumes "pm_rel K s A" and "\<And>x. cover A x + of_bool (in_block n a x) \<le> 1"
    and "block_ok K (memtotal s) n a" and "k \<le> n"
    and "\<And>x. x \<notin> bytes_at a k \<Longrightarrow> m' x = mem s x" and "i < 3"
  shows "chain (load64 m') p (A ! i) \<longleftrightarrow> chain (load64 (mem s)) p (A ! i)"
proof (rule chain_cong)
  fix b
  assume b: "b \<in> set (A ! i)"
  have "block_ok K (memtotal s) (pm_sz i) b"
    using assms(1,6) b by (simp add: pm_rel_def)
  from block_links_apart [OF assms(2) assms(6) b assms(3) this assms(4)]
  show "load64 m' b = load64 (mem s) b"
    by (intro quad_cell.load_local assms(5)) auto
qed

text \<open>The free lists depend on the page maps, the memory size and the free bytes only.\<close>

lemma pm_rel_frame:
  assumes rel: "pm_rel K s A" and "pmmap s' = pmmap s" and "memtotal s' = memtotal s"
    and same: "\<And>x. cover A (unat x) \<noteq> 0 \<Longrightarrow> mem s' x = mem s x"
  shows "pm_rel K s' A"
proof -
  have "chain (load64 (mem s')) p (A ! i) \<longleftrightarrow> chain (load64 (mem s)) p (A ! i)" if i: "i < 3" for i p
  proof (rule chain_cong)
    fix b assume b: "b \<in> set (A ! i)"
    then have ok: "block_ok K (memtotal s) (pm_sz i) b" using rel i by (simp add: pm_rel_def)
    have "cover A (unat x) \<noteq> 0" if "x \<in> bytes_at b 8" for x
    proof -
      from block_ok_no_wrap [OF ok] pm_sz_bounds [OF i] that have "in_block (pm_sz i) b (unat x)"
        by (auto simp: bytes_at_in_block in_block_def)
      with cov_member [OF b] cov_le_cover [OF i, of A "unat x"] show ?thesis
        by (metis le_zero_eq not_one_le_zero)
    qed
    with same show "load64 (mem s') b = load64 (mem s) b"
      by (intro quad_cell.load_local) auto
  qed
  with rel assms(2,3) show ?thesis by (simp add: pm_rel_def)
qed

lemma pm_same_trans:
  assumes "s1 = s\<lparr>mem := mem s1, pmmap := pmmap s1\<rparr>" and "s2 = s1\<lparr>mem := mem s2, pmmap := pmmap s2\<rparr>"
  shows "s2 = s\<lparr>mem := mem s2, pmmap := pmmap s2\<rparr>"
  using assms by (cases s; cases s1; cases s2) simp

section \<open>Freeing\<close>

lemma pmfree_step:
  assumes rel: "pm_rel K s A" and i: "i < 3" and ok: "block_ok K (memtotal s) (pm_sz i) a"
    and apart: "\<And>x. cover A x + of_bool (in_block (pm_sz i) a x) \<le> 1"
  defines "s' \<equiv> s\<lparr>mem := store64 (mem s) a (pmmap s ! i), pmmap := (pmmap s)[i := a]\<rparr>"
  shows "pmfree K a (pm_size i) s = Inr s'" and "pm_rel K s' (A[i := a # A ! i])"
proof -
  from rel have len: "length (pmmap s) = 3" "length A = 3"
    and ch: "\<And>j. j < 3 \<Longrightarrow> chain (load64 (mem s)) (pmmap s ! j) (A ! j)"
    and oks: "\<And>j b. j < 3 \<Longrightarrow> b \<in> set (A ! j) \<Longrightarrow> block_ok K (memtotal s) (pm_sz j) b"
    by (auto simp: pm_rel_def)
  have "unat a < unat (memtotal s)"
    using ok pm_sz_bounds [OF i] by (simp add: block_ok_def)
  then show "pmfree K a (pm_size i) s = Inr s'"
    using ok i by (auto simp: pmfree_def s'_def block_ok_def word_le_nat_alt word_less_nat_alt)
  have frame: "chain (load64 (mem s')) p (A ! j) \<longleftrightarrow> chain (load64 (mem s)) p (A ! j)"
    if "j < 3" for j p
  proof (rule pm_chain_frame [OF rel apart ok _ _ that])
    show "8 \<le> pm_sz i" using pm_sz_bounds [OF i] by linarith
    show "mem s' x = mem s x" if "x \<notin> bytes_at a 8" for x
      using that by (simp add: s'_def quad_cell.store_outside)
  qed
  have "load64 (mem s') a = pmmap s ! i" by (simp add: s'_def)
  moreover have "a \<noteq> NULL" using ok by (simp add: block_ok_def)
  ultimately have "chain (load64 (mem s')) (pmmap s' ! j) (A[i := a # A ! i] ! j)" if "j < 3" for j
    using frame [OF that] ch [OF that] len i that by (auto simp: s'_def)
  moreover have "cover (A[i := a # A ! i]) x \<le> 1" for x
    using cover_update [OF len(2) i, of "a # A ! i" x] apart [of x] by simp
  ultimately show "pm_rel K s' (A[i := a # A ! i])"
    using len oks ok i by (auto simp: pm_rel_def s'_def)
qed

lemma in_block_shift:
  assumes "unat b + k + n < 18446744073709551616"
  shows "in_block n (b + of_nat k) x \<longleftrightarrow> unat b + k \<le> x \<and> x < unat b + k + n"
  using assms by (simp add: in_block_def unat_add_no_wrap)

text \<open>The pieces of a block, from offset 0 up.\<close>

definition pieces :: "uint64 \<Rightarrow> nat \<Rightarrow> nat \<Rightarrow> uint64 list" where
  "pieces b n c = map (\<lambda>k. b + of_nat (k * n)) [0..<c]"

lemma pieces_Suc: "pieces b n (Suc c) = pieces b n c @ [b + of_nat (c * n)]"
  by (simp add: pieces_def)

lemma cov_pieces:
  assumes "unat b + c * n < 18446744073709551616"
  shows "cov n (pieces b n c) x = of_bool (in_block (c * n) b x)"
  using assms
proof (induction c)
  case 0
  then show ?case by (simp add: pieces_def in_block_def)
next
  case (Suc c)
  then have "in_block n (b + of_nat (c * n)) x \<longleftrightarrow> unat b + c * n \<le> x \<and> x < unat b + c * n + n"
    by (intro in_block_shift) simp
  with Suc show ?case
    by (auto simp: pieces_Suc in_block_def)
qed

lemma pm_split_step:
  assumes "pm_rel K s A" and "i < 3" and "b \<noteq> NULL" and "kernel_end K \<le> b"
    and "unat b + n * pm_sz i \<le> unat (memtotal s)"
    and "\<And>x. cover A x + of_bool (in_block (n * pm_sz i) b x) \<le> 1"
  shows "\<exists>s'. pm_split K (pm_size i) n (b + of_nat (n * pm_sz i) - pm_size i) s = Inr s' \<and>
    pm_rel K s' (A[i := pieces b (pm_sz i) n @ A ! i]) \<and>
    (\<forall>x. \<not> in_block (n * pm_sz i) b (unat x) \<longrightarrow> mem s' x = mem s x) \<and>
    s' = s\<lparr>mem := mem s', pmmap := pmmap s'\<rparr>"
  using assms
proof (induction n arbitrary: s A)
  case 0
  then show ?case by (simp add: pieces_def)
next
  case (Suc n)
  let ?a = "b + of_nat (n * pm_sz i)"
  let ?s = "s\<lparr>mem := store64 (mem s) ?a (pmmap s ! i), pmmap := (pmmap s)[i := ?a]\<rparr>"
  have len: "length A = 3" using Suc.prems(1) by (simp add: pm_rel_def)
  have nowrap: "unat b + n * pm_sz i + pm_sz i < 18446744073709551616"
  proof -
    have "unat b + n * pm_sz i + pm_sz i \<le> unat (memtotal s)" using Suc.prems(5) by simp
    also have "\<dots> < 18446744073709551616" by simp
    finally show ?thesis .
  qed
  then have ua: "unat ?a = unat b + n * pm_sz i"
    by (intro unat_add_no_wrap) simp
  have a_in: "in_block (pm_sz i) ?a x \<longleftrightarrow>
      unat b + n * pm_sz i \<le> x \<and> x < unat b + n * pm_sz i + pm_sz i" for x
    using nowrap by (intro in_block_shift) simp
  have ok: "block_ok K (memtotal s) (pm_sz i) ?a"
    using Suc.prems(3-5) ua by (auto simp: block_ok_def word_le_nat_alt unat_eq_0 [symmetric])
  have apart: "cover A x + of_bool (in_block (pm_sz i) ?a x) \<le> 1" for x
    using Suc.prems(6) [of x] a_in [of x] by (auto simp: in_block_def split: if_splits)
  note free = pmfree_step [OF Suc.prems(1,2) ok apart]
  have cov': "cover (A[i := ?a # A ! i]) x + of_bool (in_block (n * pm_sz i) b x) \<le> 1" for x
    using cover_update [OF len Suc.prems(2), of "?a # A ! i" x] Suc.prems(6) [of x] a_in [of x]
    by (auto simp: in_block_def split: if_splits)
  have "\<exists>s'. pm_split K (pm_size i) n (b + of_nat (n * pm_sz i) - pm_size i) ?s = Inr s' \<and>
      pm_rel K s' ((A[i := ?a # A ! i])[i := pieces b (pm_sz i) n @ A[i := ?a # A ! i] ! i]) \<and>
      (\<forall>x. \<not> in_block (n * pm_sz i) b (unat x) \<longrightarrow> mem s' x = mem ?s x) \<and>
      s' = ?s\<lparr>mem := mem s', pmmap := pmmap s'\<rparr>"
    using Suc.prems(2-5) by (intro Suc.IH free(2) cov') auto
  then obtain s' where s': "pm_split K (pm_size i) n (?a - pm_size i) ?s = Inr s'"
    "pm_rel K s' (A[i := pieces b (pm_sz i) (Suc n) @ A ! i])"
    "\<And>x. \<not> in_block (n * pm_sz i) b (unat x) \<Longrightarrow> mem s' x = mem ?s x"
    "s' = s\<lparr>mem := mem s', pmmap := pmmap s'\<rparr>"
    using len Suc.prems(2) by (auto simp: pieces_Suc)
  have "b + of_nat (Suc n * pm_sz i) - pm_size i = ?a"
    using Suc.prems(2) by (simp add: pm_size_of_nat)
  moreover have "mem s' x = mem s x" if "\<not> in_block (Suc n * pm_sz i) b (unat x)" for x
  proof -
    have "x \<notin> bytes_at ?a 8"
      using that nowrap ua pm_sz_bounds [OF Suc.prems(2)]
      by (subst bytes_at_interval) (auto simp: in_block_def)
    with that s'(3) [of x] show ?thesis
      by (auto simp: quad_cell.store_outside in_block_def)
  qed
  ultimately show ?case
    using free(1) s' by auto
qed

section \<open>Allocating\<close>

text \<open>The last three statements of \<^verbatim>\<open>pmalloc\<close>: unlink the head of the list and clear it.\<close>

definition pm_pop :: "nat \<Rightarrow> kstate \<Rightarrow> uint64 \<times> kstate" where
  "pm_pop i s =
     (let addr = pmmap s ! i;
          s = s\<lparr>pmmap := (pmmap s)[i := load64 (mem s) addr]\<rparr>
      in (addr, s\<lparr>mem := memset (mem s) addr 0 (pm_size i)\<rparr>))"

lemma pmalloc_level:
  assumes "i < 3"
  shows "pmalloc K (pm_size i) s =
    ebind
      (if pmmap s ! i \<noteq> NULL then Inr s
       else if i = 2 then Inl (Panic ''pmalloc: out of memory'')
       else ebind (pmalloc K (pm_size (Suc i)) s) (\<lambda>(b, s).
         pm_split K (pm_size i) 128 (b + of_nat (128 * pm_sz i) - pm_size i) s))
      (\<lambda>s. Inr (pm_pop i s))"
  using assms
proof (rule pm_idx_cases)
  assume "i = 0"
  then show ?thesis
    by (subst pmalloc.simps)
      (simp add: pm_size_to_idx_def pm_size_def PM_values pm_pop_def Let_def
        cong: if_cong)
next
  assume "i = 1"
  then show ?thesis
    by (subst pmalloc.simps)
      (simp add: pm_size_to_idx_def pm_size_def PM_values pm_pop_def Let_def
        cong: if_cong)
next
  assume "i = 2"
  then show ?thesis
    by (subst pmalloc.simps)
      (simp add: pm_size_to_idx_def pm_size_def PM_values pm_pop_def Let_def
        cong: if_cong)
qed

text \<open>What a caller of \<^verbatim>\<open>pmalloc\<close> is promised when the free lists go from \<open>A\<close> to \<open>A'\<close>.\<close>

definition pm_granted ::
  "klayout \<Rightarrow> nat \<Rightarrow> kstate \<Rightarrow> pm_abs \<Rightarrow> uint64 \<Rightarrow> pm_abs \<Rightarrow> kstate \<Rightarrow> bool" where
  "pm_granted K n s A a A' s' \<longleftrightarrow>
     pm_rel K s' A' \<and> block_ok K (memtotal s) n a \<and>
     (\<forall>x. cover A' x + of_bool (in_block n a x) = cover A x) \<and>
     (\<forall>x. in_block n a (unat x) \<longrightarrow> mem s' x = 0) \<and>
     (\<forall>x. cover A (unat x) = 0 \<longrightarrow> mem s' x = mem s x) \<and>
     (\<forall>x. cover A x \<le> 1) \<and>
     s' = s\<lparr>mem := mem s', pmmap := pmmap s'\<rparr>"

lemma pm_granted_cover_le: "pm_granted K n s A a A' s' \<Longrightarrow> cover A x \<le> 1"
  by (simp add: pm_granted_def)

lemma pm_pop_step:
  assumes rel: "pm_rel K s A" and i: "i < 3" and hd: "A ! i = a # as"
  shows "\<exists>s'. pm_pop i s = (a, s') \<and> pm_granted K (pm_sz i) s A a (A[i := as]) s'"
proof -
  let ?A = "A[i := as]"
  let ?s1 = "s\<lparr>pmmap := (pmmap s)[i := load64 (mem s) a]\<rparr>"
  let ?s = "?s1\<lparr>mem := memset (mem s) a 0 (pm_size i)\<rparr>"
  from rel have len: "length (pmmap s) = 3" "length A = 3"
    and ch: "\<And>j. j < 3 \<Longrightarrow> chain (load64 (mem s)) (pmmap s ! j) (A ! j)"
    and oks: "\<And>j b. j < 3 \<Longrightarrow> b \<in> set (A ! j) \<Longrightarrow> block_ok K (memtotal s) (pm_sz j) b"
    and cov1: "\<And>x. cover A x \<le> 1"
    by (auto simp: pm_rel_def)
  have head: "pmmap s ! i = a" "chain (load64 (mem s)) (load64 (mem s) a) as"
    using ch [OF i] hd by auto
  have ok: "block_ok K (memtotal s) (pm_sz i) a" using oks [OF i, of a] hd by simp
  have conserve: "cover ?A x + of_bool (in_block (pm_sz i) a x) = cover A x" for x
    using cover_update [OF len(2) i, of as x] hd by simp
  have chains1: "chain (load64 (mem s)) (pmmap ?s1 ! j) (?A ! j)" if "j < 3" for j
    using ch [OF that] head len i that by auto
  have oks': "block_ok K (memtotal s) (pm_sz j) b" if "j < 3" "b \<in> set (?A ! j)" for j b
    using oks [of j b] hd len i that by (auto split: if_splits)
  have cov': "cover ?A x \<le> 1" for x
    using conserve [of x] cov1 [of x] by linarith
  have rel1: "pm_rel K ?s1 ?A"
    using len chains1 oks' cov' by (auto simp: pm_rel_def)
  have mset_eq: "memset (mem s) a 0 (pm_size i) x = (if in_block (pm_sz i) a (unat x) then 0 else mem s x)"
    for x using ok i by (simp add: memset_apply bytes_at_in_block block_ok_no_wrap less_imp_le)
  have "chain (load64 (mem ?s)) (pmmap ?s ! j) (?A ! j)" if "j < 3" for j
  proof -
    have "chain (load64 (mem ?s)) p (?A ! j) \<longleftrightarrow> chain (load64 (mem ?s1)) p (?A ! j)" for p
      using conserve cov1 ok i that
      by (intro pm_chain_frame [OF rel1, where n = "pm_sz i" and a = a and k = "pm_sz i"])
        (auto simp: memset_apply)
    with chains1 [OF that] show ?thesis by simp
  qed
  then have rel': "pm_rel K ?s ?A"
    using rel1 by (auto simp: pm_rel_def)
  have "\<not> in_block (pm_sz i) a (unat x)" if "cover A (unat x) = 0" for x :: uint64
    using conserve [of "unat x"] that by auto
  then have "pm_granted K (pm_sz i) s A a ?A ?s"
    using rel' ok conserve mset_eq cov1 by (simp add: pm_granted_def)
  with head show ?thesis
    by (auto simp: pm_pop_def Let_def)
qed

lemma pm_granted_trans:
  assumes g: "pm_granted K n s A b A' s1" 
    and rel: "pm_rel K s2 A2" and conserve: "\<And>x. cover A2 x = cover A' x + of_bool (in_block n b x)"
    and frame: "\<And>x. \<not> in_block n b (unat x) \<Longrightarrow> mem s2 x = mem s1 x"
    and same: "s2 = s1\<lparr>mem := mem s2, pmmap := pmmap s2\<rparr>"
    and g2: "pm_granted K k s2 A2 a A3 s3"
  shows "pm_granted K k s A a A3 s3"
proof -
  have cov: "cover A2 x = cover A x" for x
    using g conserve [of x] by (simp add: pm_granted_def)
  have "mem s3 x = mem s x" if "cover A (unat x) = 0" for x
  proof -
    have "\<not> in_block n b (unat x)" 
    proof
      assume "in_block n b (unat x)"
      then have "cover A' (unat x) + 1 = cover A (unat x)"
        using g by (auto simp: pm_granted_def dest!: spec [where x = "unat x"])
      with that show False by simp
    qed
    with that g g2 frame [of x] show ?thesis
      by (simp add: pm_granted_def cov)
  qed
  moreover have "s3 = s\<lparr>mem := mem s3, pmmap := pmmap s3\<rparr>"
  proof -
    have "s3 = s2\<lparr>mem := mem s3, pmmap := pmmap s3\<rparr>" "s1 = s\<lparr>mem := mem s1, pmmap := pmmap s1\<rparr>"
      using g g2 by (auto simp: pm_granted_def)
    then show ?thesis using pm_same_trans [OF pm_same_trans [OF _ same]] by blast
  qed
  moreover have "memtotal s2 = memtotal s"
  proof -
    have "memtotal s1 = memtotal s"
      using g unfolding pm_granted_def by (elim conjE) (erule ssubst, simp)
    then show ?thesis by (subst same) simp
  qed
  ultimately show ?thesis
    using g2 by (simp add: pm_granted_def cov)
qed

lemma pm_take_below:
  assumes "j < i" and "pm_take i A = Some (a, A')"
  shows "A' ! j = A ! j"
  using assms
proof (induction i A arbitrary: a A' rule: pm_take.induct)
  case (1 i A)
  show ?case
  proof (cases "A ! i")
    case (Cons b bs)
    with "1.prems" show ?thesis by (auto simp: pm_take.simps [of i A])
  next
    case Nil
    with "1.prems" obtain b A1 where "\<not> 2 \<le> i" "pm_take (Suc i) A = Some (b, A1)"
      "A' = A1[i := map (\<lambda>k. b + of_nat (k * pm_sz i)) [1..<128]]"
      by (auto simp: pm_take.simps [of i A] split: if_splits option.splits)
    with "1.IH" [OF Nil _ _ \<open>pm_take (Suc i) A = Some (b, A1)\<close>] "1.prems"(1) show ?thesis
      by simp
  qed
qed

text \<open>Cutting a freshly granted block in 128 and taking the first piece.\<close>

lemma pm_refill:
  assumes g: "pm_granted K (128 * pm_sz i) s A b A1 s1" and i: "i < 3" and empty: "A1 ! i = []"
  shows "\<exists>s2 s3. pm_split K (pm_size i) 128 (b + of_nat (128 * pm_sz i) - pm_size i) s1 = Inr s2 \<and>
    pm_pop i s2 = (b, s3) \<and>
    pm_granted K (pm_sz i) s A b (A1[i := map (\<lambda>k. b + of_nat (k * pm_sz i)) [1..<128]]) s3"
proof -
  have rel1: "pm_rel K s1 A1" and ok: "block_ok K (memtotal s) (128 * pm_sz i) b"
    and conserve: "\<And>x. cover A1 x + of_bool (in_block (128 * pm_sz i) b x) = cover A x"
    and same1: "s1 = s\<lparr>mem := mem s1, pmmap := pmmap s1\<rparr>"
    using g by (auto simp: pm_granted_def)
  have len: "length A1 = 3" using rel1 by (simp add: pm_rel_def)
  have "memtotal s1 = memtotal s"
    by (subst same1) simp
  moreover have "cover A1 x + of_bool (in_block (128 * pm_sz i) b x) \<le> 1" for x
    using conserve [of x] g pm_granted_cover_le [OF g, of x] by simp
  ultimately obtain s2 where s2:
    "pm_split K (pm_size i) 128 (b + of_nat (128 * pm_sz i) - pm_size i) s1 = Inr s2"
    "pm_rel K s2 (A1[i := pieces b (pm_sz i) 128])"
    "\<And>x. \<not> in_block (128 * pm_sz i) b (unat x) \<Longrightarrow> mem s2 x = mem s1 x"
    "s2 = s1\<lparr>mem := mem s2, pmmap := pmmap s2\<rparr>"
    using pm_split_step [OF rel1 i, of b 128] ok empty by (auto simp: block_ok_def)
  let ?A2 = "A1[i := pieces b (pm_sz i) 128]"
  have pcs: "pieces b (pm_sz i) 128 = b # map (\<lambda>k. b + of_nat (k * pm_sz i)) [1..<128]"
    by (simp add: pieces_def upt_rec [of 0 128])
  then have "?A2 ! i = b # map (\<lambda>k. b + of_nat (k * pm_sz i)) [1..<128]"
    using len i by simp
  from pm_pop_step [OF s2(2) i this] obtain s3 where pop: "pm_pop i s2 = (b, s3)"
    and g3: "pm_granted K (pm_sz i) s2 ?A2 b (A1[i := map (\<lambda>k. b + of_nat (k * pm_sz i)) [1..<128]]) s3"
    by auto
  have "cover ?A2 x = cover A1 x + of_bool (in_block (128 * pm_sz i) b x)" for x
    using cover_update [OF len i, of "pieces b (pm_sz i) 128" x] empty ok
      cov_pieces [of b 128 "pm_sz i" x] block_ok_no_wrap [OF ok]
    by simp
  from pm_granted_trans [OF g s2(2) this s2(3) s2(4) g3] s2(1) pop show ?thesis by blast
qed

lemma pmalloc_take:
  assumes "pm_rel K s A" and "i < 3"
  shows "case pm_take i A of
      None \<Rightarrow> pmalloc K (pm_size i) s = Inl (Panic ''pmalloc: out of memory'')
    | Some (a, A') \<Rightarrow> \<exists>s'. pmalloc K (pm_size i) s = Inr (a, s') \<and> pm_granted K (pm_sz i) s A a A' s'"
  using assms
proof (induction i A rule: pm_take.induct)
  case (1 i A)
  have len: "length A = 3" and ch: "chain (load64 (mem s)) (pmmap s ! i) (A ! i)"
    using "1.prems" by (auto simp: pm_rel_def)
  show ?case
  proof (cases "A ! i")
    case (Cons a as)
    with ch have "pmmap s ! i \<noteq> NULL" by auto
    with pm_pop_step [OF "1.prems" Cons] Cons "1.prems"(2) show ?thesis
      by (auto simp: pmalloc_level pm_take.simps [of i A])
  next
    case Nil
    with ch have empty: "pmmap s ! i = NULL" by simp
    show ?thesis
    proof (cases "2 \<le> i")
      case True
      with Nil empty "1.prems"(2) show ?thesis
        by (simp add: pmalloc_level pm_take.simps [of i A])
    next
      case False
      have IH: "case pm_take (Suc i) A of
          None \<Rightarrow> pmalloc K (pm_size (Suc i)) s = Inl (Panic ''pmalloc: out of memory'')
        | Some (a, A') \<Rightarrow> \<exists>s'. pmalloc K (pm_size (Suc i)) s = Inr (a, s') \<and>
            pm_granted K (pm_sz (Suc i)) s A a A' s'"
        using "1.IH" [OF Nil False "1.prems"(1)] False by simp
      show ?thesis
      proof (cases "pm_take (Suc i) A")
        case None
        with IH Nil empty False "1.prems"(2) show ?thesis
          by (simp add: pmalloc_level pm_take.simps [of i A])
      next
        case (Some r)
        obtain b A1 where r: "r = (b, A1)" by (cases r)
        with IH Some obtain s1 where s1: "pmalloc K (pm_size (Suc i)) s = Inr (b, s1)"
          and g: "pm_granted K (128 * pm_sz i) s A b A1 s1"
          using False by (auto simp: pm_sz_Suc)
        have "A1 ! i = []"
          using pm_take_below [OF _ Some [unfolded r]] Nil by simp
        from pm_refill [OF g \<open>i < 3\<close> this]
        obtain s2 s3 where s2: "pm_split K (pm_size i) 128 (b + of_nat (128 * pm_sz i) - pm_size i) s1 = Inr s2"
          and pop: "pm_pop i s2 = (b, s3)"
          and g3: "pm_granted K (pm_sz i) s A b (A1[i := map (\<lambda>k. b + of_nat (k * pm_sz i)) [1..<128]]) s3"
          by blast
        have "pmalloc K (pm_size i) s = Inr (b, s3)"
          using s1 s2 pop empty False "1.prems"(2) by (simp add: pmalloc_level)
        with g3 Some r Nil False show ?thesis
          by (simp add: pm_take.simps [of i A])
      qed
    qed
  qed
qed

section \<open>Filling the lists at start-up\<close>

text \<open>
  One of the loops of \<^verbatim>\<open>pm_init\<close>: with enough steps it moves every whole block between the
  end of the kernel and \<^verbatim>\<open>allocatable_max\<close> into its list, and nothing else.
\<close>

lemma pm_fill_step:
  assumes "pm_rel K s A" and "i < 3" and "kernel_end K \<noteq> NULL"
    and "unat (kernel_end K) + pm_sz i < 18446744073709551616"
    and "kernel_end K \<le> amax" and "unat amax \<le> unat (memtotal s)"
    and "\<And>x. x < unat amax \<Longrightarrow> cover A x = 0"
    and "(unat amax - unat (kernel_end K)) div pm_sz i < fuel"
  shows "\<exists>amax' s' A'. pm_fill fuel K (pm_size i) amax s = Inr (amax', s') \<and> pm_rel K s' A' \<and>
    kernel_end K \<le> amax' \<and> unat amax' < unat (kernel_end K) + pm_sz i \<and> unat amax' \<le> unat amax \<and>
    (\<forall>x. cover A' x = cover A x + of_bool (unat amax' \<le> x \<and> x < unat amax)) \<and>
    (\<forall>j<3. length (A' ! j) = length (A ! j) + (if j = i then (unat amax - unat (kernel_end K)) div pm_sz i else 0)) \<and>
    unat amax = unat amax' + pm_sz i * ((unat amax - unat (kernel_end K)) div pm_sz i) \<and>
    (4096 dvd unat amax \<longrightarrow> (\<forall>j<3. \<forall>a \<in> set (A' ! j). a \<in> set (A ! j) \<or> 4096 dvd unat a)) \<and>
    (\<forall>x. \<not> (unat amax' \<le> unat x \<and> unat x < unat amax) \<longrightarrow> mem s' x = mem s x) \<and>
    s' = s\<lparr>mem := mem s', pmmap := pmmap s'\<rparr>"
  using assms
proof (induction fuel arbitrary: amax s A)
  case 0
  then show ?case by simp
next
  case (Suc fuel)
  let ?ke = "unat (kernel_end K)"
  have sz: "4096 \<le> pm_sz i" using pm_sz_bounds [OF Suc.prems(2)] by simp
  have usum: "unat (kernel_end K + pm_size i) = ?ke + pm_sz i"
    using Suc.prems(2,4) by (simp add: pm_size_of_nat unat_add_no_wrap)
  show ?case
  proof (cases "kernel_end K + pm_size i \<le> amax")
    case False
    then have lt: "unat amax < ?ke + pm_sz i"
      using usum by (simp add: word_le_nat_alt)
    then have "(unat amax - ?ke) div pm_sz i = 0"
      using sz by simp
    with False lt Suc.prems show ?thesis
      by (intro exI [of _ amax] exI [of _ s] exI [of _ A]) simp
  next
    case True
    let ?a = "amax - pm_size i"
    let ?A = "A[i := ?a # A ! i]"
    let ?s = "s\<lparr>mem := store64 (mem s) ?a (pmmap s ! i), pmmap := (pmmap s)[i := ?a]\<rparr>"
    have len: "length A = 3" using Suc.prems(1) by (simp add: pm_rel_def)
    have ge: "?ke + pm_sz i \<le> unat amax" using True usum by (simp add: word_le_nat_alt)
    then have ua: "unat ?a = unat amax - pm_sz i"
      using Suc.prems(2) by (simp add: unat_sub word_le_nat_alt)
    have blk: "in_block (pm_sz i) ?a x \<longleftrightarrow> unat amax - pm_sz i \<le> x \<and> x < unat amax" for x
      using ge by (auto simp: in_block_def ua)
    have ke0: "?ke \<noteq> 0" using Suc.prems(3) by (simp add: unat_eq_0)
    have ok: "block_ok K (memtotal s) (pm_sz i) ?a"
      using Suc.prems(6) ge ua ke0 by (auto simp: block_ok_def word_le_nat_alt unat_eq_0 [symmetric])
    have apart: "cover A x + of_bool (in_block (pm_sz i) ?a x) \<le> 1" for x
      using Suc.prems(1) Suc.prems(7) [of x] blk [of x] by (auto simp: pm_rel_def)
    have cov': "cover ?A x = cover A x + of_bool (unat amax - pm_sz i \<le> x \<and> x < unat amax)" for x
      using cover_update [OF len Suc.prems(2), of "?a # A ! i" x] blk [of x] by simp
    note free = pmfree_step [OF Suc.prems(1,2) ok apart]
    have steps: "(unat amax - ?ke) div pm_sz i = Suc ((unat ?a - ?ke) div pm_sz i)"
    proof -
      have "unat amax - ?ke = (unat ?a - ?ke) + pm_sz i" using ge ua by simp
      moreover have "pm_sz i \<noteq> 0" using sz by linarith
      ultimately show ?thesis by (simp add: div_add_self2)
    qed
    have "\<exists>amax' s' A'. pm_fill fuel K (pm_size i) ?a ?s = Inr (amax', s') \<and> pm_rel K s' A' \<and>
      kernel_end K \<le> amax' \<and> unat amax' < ?ke + pm_sz i \<and> unat amax' \<le> unat ?a \<and>
      (\<forall>x. cover A' x = cover ?A x + of_bool (unat amax' \<le> x \<and> x < unat ?a)) \<and>
      (\<forall>j<3. length (A' ! j) = length (?A ! j) + (if j = i then (unat ?a - ?ke) div pm_sz i else 0)) \<and>
      unat ?a = unat amax' + pm_sz i * ((unat ?a - ?ke) div pm_sz i) \<and>
      (4096 dvd unat ?a \<longrightarrow> (\<forall>j<3. \<forall>a \<in> set (A' ! j). a \<in> set (?A ! j) \<or> 4096 dvd unat a)) \<and>
      (\<forall>x. \<not> (unat amax' \<le> unat x \<and> unat x < unat ?a) \<longrightarrow> mem s' x = mem ?s x) \<and>
      s' = ?s\<lparr>mem := mem s', pmmap := pmmap s'\<rparr>"
    proof (rule Suc.IH [OF free(2) Suc.prems(2-4)])
      show "kernel_end K \<le> ?a" using ge ua by (simp add: word_le_nat_alt)
      show "unat ?a \<le> unat (memtotal ?s)" using Suc.prems(6) ua by simp
      show "cover ?A x = 0" if "x < unat ?a" for x
        using that cov' [of x] Suc.prems(7) [of x] ua by simp
      show "(unat ?a - ?ke) div pm_sz i < fuel" using Suc.prems(8) steps by simp
    qed
    then obtain amax' s' A' where r: "pm_fill fuel K (pm_size i) ?a ?s = Inr (amax', s')"
      "pm_rel K s' A'" "kernel_end K \<le> amax'" "unat amax' < ?ke + pm_sz i" "unat amax' \<le> unat ?a"
      "\<And>x. cover A' x = cover ?A x + of_bool (unat amax' \<le> x \<and> x < unat ?a)"
      "\<And>j. j < 3 \<Longrightarrow> length (A' ! j) = length (?A ! j) + (if j = i then (unat ?a - ?ke) div pm_sz i else 0)"
      "\<And>x. \<not> (unat amax' \<le> unat x \<and> unat x < unat ?a) \<Longrightarrow> mem s' x = mem ?s x"
      "s' = s\<lparr>mem := mem s', pmmap := pmmap s'\<rparr>"
      "unat ?a = unat amax' + pm_sz i * ((unat ?a - ?ke) div pm_sz i)"
      "\<And>j a. 4096 dvd unat ?a \<Longrightarrow> j < 3 \<Longrightarrow> a \<in> set (A' ! j) \<Longrightarrow> a \<in> set (?A ! j) \<or> 4096 dvd unat a"
      by auto
    have "unat amax = unat amax' + pm_sz i * ((unat amax - ?ke) div pm_sz i)"
      using r(10) ge ua unfolding steps mult_Suc_right by linarith
    moreover have "a \<in> set (A ! j) \<or> 4096 dvd unat a"
      if "4096 dvd unat amax" "j < 3" "a \<in> set (A' ! j)" for j a
    proof -
      have "4096 dvd pm_sz i" using Suc.prems(2) by (rule pm_idx_cases) simp_all
      with that(1) have "4096 dvd unat ?a" unfolding ua by (rule dvd_diff_nat)
      with r(11) [OF this that(2,3)] len Suc.prems(2) that(2) show ?thesis by (auto split: if_splits)
    qed
    moreover have "cover A' x = cover A x + of_bool (unat amax' \<le> x \<and> x < unat amax)" for x
      using r(5) r(6) [of x] cov' [of x] ua ge by auto
    moreover have "mem s' x = mem s x" if "\<not> (unat amax' \<le> unat x \<and> unat x < unat amax)" for x
    proof -
      have "x \<notin> bytes_at ?a 8"
      proof -
        have "unat ?a + 8 \<le> 18446744073709551616" using sz ua ge unat_less_2p64 [of amax] by linarith
        then show ?thesis using that r(5) ua ge sz by (auto simp: bytes_at_interval)
      qed
      moreover have "\<not> (unat amax' \<le> unat x \<and> unat x < unat ?a)" using that ua by linarith
      ultimately show ?thesis using r(8) [of x] by (simp add: quad_cell.store_outside)
    qed
    moreover have "length (A' ! j) = length (A ! j) + (if j = i then (unat amax - ?ke) div pm_sz i else 0)"
      if "j < 3" for j
      using r(7) [OF that] steps len Suc.prems(2) that by (auto split: if_splits)
    ultimately show ?thesis
      using r(1-4) r(5,9) free(1) True ua
      by (intro exI [of _ amax'] exI [of _ s'] exI [of _ A']) auto
  qed
qed

lemma pm_count_chain:
  "chain (load64 m) p as \<Longrightarrow> length as < fuel \<Longrightarrow> pm_count fuel m p = Inr (of_nat (length as))"
proof (induction fuel arbitrary: p as)
  case 0
  then show ?case by simp
next
  case (Suc fuel)
  then show ?case by (cases as) (auto simp: add.commute)
qed

lemma pm_dump_one_ok:
  assumes "pm_rel K s A" and "i < 3" and "length (A ! i) < loop_fuel K" and "no_string_arg fmt"
  shows "\<exists>out. pm_dump_one K i fmt s = Inr (s\<lparr>console := console s @ out\<rparr>)"
proof -
  have "chain (load64 (mem s)) (pmmap s ! i) (A ! i)" using assms(1,2) by (simp add: pm_rel_def)
  from pm_count_chain [OF this assms(3)] kprintf_total [OF assms(4), of K "[of_nat (length (A ! i))]" s]
  show ?thesis
    by (auto simp: pm_dump_one_def intro: exI [of _ "[]"])
qed

lemma pm_rel_console: "pm_rel K (s\<lparr>console := c\<rparr>) A \<longleftrightarrow> pm_rel K s A"
  by (simp add: pm_rel_def)

lemma pm_dump_ok:
  assumes "pm_rel K s A" and "\<And>i. i < 3 \<Longrightarrow> length (A ! i) < loop_fuel K"
  shows "\<exists>out. pm_dump K s = Inr (s\<lparr>console := console s @ out\<rparr>)"
proof -
  let ?f0 = "''[pm] pmmap[4K]: %d\<newline>''" and ?f1 = "''[pm] pmmap[512K]: %d\<newline>''"
    and ?f2 = "''[pm] pmmap[64M]: %d\<newline>''"
  have one: "\<exists>out. pm_dump_one K i fmt (s\<lparr>console := c\<rparr>) = Inr (s\<lparr>console := c @ out\<rparr>)"
    if "i < 3" "no_string_arg fmt" for i fmt c
    using pm_dump_one_ok [of K "s\<lparr>console := c\<rparr>" A i fmt] assms that by (simp add: pm_rel_console)
  obtain o0 where o0: "pm_dump_one K 0 ?f0 (s\<lparr>console := console s\<rparr>) = Inr (s\<lparr>console := console s @ o0\<rparr>)"
    using one [of 0 ?f0 "console s"] by auto
  obtain o1 where o1: "pm_dump_one K 1 ?f1 (s\<lparr>console := console s @ o0\<rparr>) =
      Inr (s\<lparr>console := (console s @ o0) @ o1\<rparr>)"
    using one [of 1 ?f1 "console s @ o0"] by auto
  obtain o2 where o2: "pm_dump_one K 2 ?f2 (s\<lparr>console := (console s @ o0) @ o1\<rparr>) =
      Inr (s\<lparr>console := ((console s @ o0) @ o1) @ o2\<rparr>)"
    using one [of 2 ?f2 "(console s @ o0) @ o1"] by auto
  from o0 o1 o2 show ?thesis
    by (auto simp: pm_dump_def)
qed

text \<open>All three loops in a row, from empty lists.\<close>

lemma pm_fill_all:
  assumes "pm_rel K s [[], [], []]" and "kernel_end K \<noteq> NULL"
    and "unat (kernel_end K) + 67108864 < 18446744073709551616"
    and "kernel_end K \<le> amax" and "unat amax \<le> unat (memtotal s)"
    and "unat (memtotal s) div 4096 < loop_fuel K"
  shows "\<exists>lo s' A.
    ebind (pm_fill (loop_fuel K) K PM_64M amax s) (\<lambda>(amax, s).
    ebind (pm_fill (loop_fuel K) K PM_512K amax s) (\<lambda>(amax, s).
    pm_fill (loop_fuel K) K PM_4K amax s)) = Inr (lo, s') \<and>
    pm_rel K s' A \<and> kernel_end K \<le> lo \<and> unat lo < unat (kernel_end K) + 4096 \<and>
    (\<forall>x. cover A x = of_bool (unat lo \<le> x \<and> x < unat amax)) \<and>
    (\<forall>j<3. length (A ! j) < loop_fuel K) \<and>
    (4096 dvd unat amax \<longrightarrow> (\<forall>j<3. \<forall>a \<in> set (A ! j). 4096 dvd unat a)) \<and>
    (unat amax - unat (kernel_end K)) div 524288 = length (A ! 1) + 128 * length (A ! 2) \<and>
    (\<forall>x. \<not> (unat lo \<le> unat x \<and> unat x < unat amax) \<longrightarrow> mem s' x = mem s x) \<and>
    s' = s\<lparr>mem := mem s', pmmap := pmmap s'\<rparr>"
proof -
  let ?ke = "unat (kernel_end K)" and ?E = "[[], [], []] :: pm_abs"
  have one_lt: "1 < (3 :: nat)" and two_lt: "2 < (3 :: nat)" and zero_lt: "0 < (3 :: nat)" by simp_all
  have fuel: "(n - ?ke) div k < loop_fuel K" if "n \<le> unat amax" "4096 \<le> k" for n k
  proof -
    have "(n - ?ke) div k \<le> unat (memtotal s) div k" 
      using that assms(5) by (intro div_le_mono) simp
    also have "\<dots> \<le> unat (memtotal s) div 4096" using that(2) by (intro div_le_mono2) auto
    finally show ?thesis using assms(6) by simp
  qed
  have E0: "cover ?E x = 0" for x by (simp add: cover_def numeral_2_eq_2)
  have ke: "?ke + pm_sz i < 18446744073709551616" if "i < 3" for i
    using assms(3) pm_sz_bounds [OF that] by linarith
  have f: "(n - ?ke) div pm_sz i < loop_fuel K" if "n \<le> unat amax" "i < 3" for n i
    using fuel [OF that(1)] pm_sz_bounds [OF that(2)] by blast
  obtain a2 s2 A2 where r2: "pm_fill (loop_fuel K) K (pm_size 2) amax s = Inr (a2, s2)" "pm_rel K s2 A2"
    "kernel_end K \<le> a2" "unat a2 \<le> unat amax"
    "\<And>x. cover A2 x = cover ?E x + of_bool (unat a2 \<le> x \<and> x < unat amax)"
    "\<And>j. j < 3 \<Longrightarrow> length (A2 ! j) = length (?E ! j) + (if j = 2 then (unat amax - ?ke) div pm_sz 2 else 0)"
    "\<And>x. \<not> (unat a2 \<le> unat x \<and> unat x < unat amax) \<Longrightarrow> mem s2 x = mem s x"
    "s2 = s\<lparr>mem := mem s2, pmmap := pmmap s2\<rparr>"
    "unat amax = unat a2 + pm_sz 2 * ((unat amax - ?ke) div pm_sz 2)"
    "4096 dvd unat amax \<longrightarrow> (\<forall>j<3. \<forall>a \<in> set (A2 ! j). a \<in> set (?E ! j) \<or> 4096 dvd unat a)"
    using pm_fill_step [OF assms(1) two_lt assms(2) ke [OF two_lt] assms(4,5) E0 f [OF order_refl two_lt]] by blast
  have mt2: "memtotal s2 = memtotal s" by (subst r2(8)) simp
  have c2: "cover A2 x = 0" if "x < unat a2" for x using that r2(5) [of x] E0 by simp
  have le2: "unat a2 \<le> unat (memtotal s2)" using r2(4) assms(5) mt2 by simp
  obtain a1 s1 A1 where r1: "pm_fill (loop_fuel K) K (pm_size 1) a2 s2 = Inr (a1, s1)" "pm_rel K s1 A1"
    "kernel_end K \<le> a1" "unat a1 \<le> unat a2"
    "\<And>x. cover A1 x = cover A2 x + of_bool (unat a1 \<le> x \<and> x < unat a2)"
    "\<And>j. j < 3 \<Longrightarrow> length (A1 ! j) = length (A2 ! j) + (if j = 1 then (unat a2 - ?ke) div pm_sz 1 else 0)"
    "\<And>x. \<not> (unat a1 \<le> unat x \<and> unat x < unat a2) \<Longrightarrow> mem s1 x = mem s2 x"
    "s1 = s2\<lparr>mem := mem s1, pmmap := pmmap s1\<rparr>"
    "unat a2 = unat a1 + pm_sz 1 * ((unat a2 - ?ke) div pm_sz 1)"
    "4096 dvd unat a2 \<longrightarrow> (\<forall>j<3. \<forall>a \<in> set (A1 ! j). a \<in> set (A2 ! j) \<or> 4096 dvd unat a)"
    using pm_fill_step [OF r2(2) one_lt assms(2) ke [OF one_lt] r2(3) le2 c2 f [OF r2(4) one_lt]] by blast
  have mt1: "memtotal s1 = memtotal s" using mt2 by (subst r1(8)) simp
  have c1: "cover A1 x = 0" if "x < unat a1" for x using that r1(4) r1(5) [of x] c2 [of x] by simp
  have le1: "unat a1 \<le> unat (memtotal s1)" using r1(4) r2(4) assms(5) mt1 by simp
  have am1: "unat a1 \<le> unat amax" using r1(4) r2(4) by simp
  obtain a0 s0 A0 where r0: "pm_fill (loop_fuel K) K (pm_size 0) a1 s1 = Inr (a0, s0)" "pm_rel K s0 A0"
    "kernel_end K \<le> a0" "unat a0 < ?ke + pm_sz 0" "unat a0 \<le> unat a1"
    "\<And>x. cover A0 x = cover A1 x + of_bool (unat a0 \<le> x \<and> x < unat a1)"
    "\<And>j. j < 3 \<Longrightarrow> length (A0 ! j) = length (A1 ! j) + (if j = 0 then (unat a1 - ?ke) div pm_sz 0 else 0)"
    "\<And>x. \<not> (unat a0 \<le> unat x \<and> unat x < unat a1) \<Longrightarrow> mem s0 x = mem s1 x"
    "s0 = s1\<lparr>mem := mem s0, pmmap := pmmap s0\<rparr>"
    "unat a1 = unat a0 + pm_sz 0 * ((unat a1 - ?ke) div pm_sz 0)"
    "4096 dvd unat a1 \<longrightarrow> (\<forall>j<3. \<forall>a \<in> set (A0 ! j). a \<in> set (A1 ! j) \<or> 4096 dvd unat a)"
    using pm_fill_step [OF r1(2) zero_lt assms(2) ke [OF zero_lt] r1(3) le1 c1 f [OF am1 zero_lt]] by blast
  have "length (A0 ! j) < loop_fuel K" if "j < 3" for j
    using that
  proof (rule pm_idx_cases)
    assume "j = 0"
    with r0(7) [of 0] r1(6) [of 0] r2(6) [of 0] fuel [of "unat a1" 4096] r1(4) r2(4) show ?thesis by simp
  next
    assume "j = 1"
    with r0(7) [of 1] r1(6) [of 1] r2(6) [of 1] fuel [of "unat a2" 524288] r2(4) show ?thesis by simp
  next
    assume "j = 2"
    with r0(7) [of 2] r1(6) [of 2] r2(6) [of 2] fuel [of "unat amax" 67108864] show ?thesis by simp
  qed
  moreover have "4096 dvd unat amax \<longrightarrow> (\<forall>j<3. \<forall>a \<in> set (A0 ! j). 4096 dvd unat a)"
  proof (intro impI allI ballI)
    fix j a assume d: "4096 dvd unat amax" and j: "j < 3" "a \<in> set (A0 ! j)"
    have sz: "4096 dvd pm_sz i * n" if "i < 3" for i n
      using that by (rule pm_idx_cases) (simp_all add: dvd_mult2)
    from d r2(9) sz [OF two_lt] have d2: "4096 dvd unat a2" by (metis dvd_add_left_iff)
    from d2 r1(9) sz [OF one_lt] have d1: "4096 dvd unat a1" by (metis dvd_add_left_iff)
    have "?E ! j = []" using j(1) by (rule pm_idx_cases) (simp_all add: numeral_2_eq_2)
    with j r0(11) d1 r1(10) d2 r2(10) d show "4096 dvd unat a" by fastforce
  qed
  moreover have "(unat amax - ?ke) div 524288 = length (A0 ! 1) + 128 * length (A0 ! 2)"
  proof -
    define q where "q = (unat amax - ?ke) div 67108864"
    have e: "unat amax - ?ke = (unat a2 - ?ke) + 524288 * (128 * q)"
      using r2(3) r2(9) by (simp add: word_le_nat_alt q_def)
    have "(unat amax - ?ke) div 524288 = (unat a2 - ?ke) div 524288 + 128 * q" unfolding e by simp
    then show ?thesis unfolding q_def using r0(7) [of 1] r1(6) [of 1] r2(6) [of 1] r0(7) [of 2] r1(6) [of 2] r2(6) [of 2]
      by (simp add: nth_Cons')
  qed
  moreover have "cover A0 x = of_bool (unat a0 \<le> x \<and> x < unat amax)" for x
    using r0(5) r0(6) [of x] r1(4) r1(5) [of x] r2(4) r2(5) [of x] E0 [of x] by auto
  moreover have "mem s0 x = mem s x" if "\<not> (unat a0 \<le> unat x \<and> unat x < unat amax)" for x
  proof -
    have "\<not> (unat a0 \<le> unat x \<and> unat x < unat a1)" "\<not> (unat a1 \<le> unat x \<and> unat x < unat a2)"
      "\<not> (unat a2 \<le> unat x \<and> unat x < unat amax)"
      using that r0(5) r1(4) r2(4) by linarith+
    then show ?thesis using r0(8) [of x] r1(7) [of x] r2(7) [of x] by simp
  qed
  moreover have "s0 = s\<lparr>mem := mem s0, pmmap := pmmap s0\<rparr>"
    using pm_same_trans [OF pm_same_trans [OF r2(8) r1(8)] r0(9)] .
  ultimately show ?thesis
    using r0(1-4) r1(1) r2(1)
    by (intro exI [of _ a0] exI [of _ s0] exI [of _ A0] conjI allI impI) (simp_all add: pm_size_def)
qed

section \<open>The contract of a block source\<close>

text \<open>
  What the users of the page allocator rely on, for one block length.  \<open>count A x\<close> is the
  number of free blocks that hold the byte \<open>x\<close>.
\<close>

locale block_source =
  fixes alloc :: "kstate \<Rightarrow> (uint64 \<times> kstate) kres"
    and free :: "uint64 \<Rightarrow> kstate \<Rightarrow> kstate kres"
    and len :: nat
    and rel :: "kstate \<Rightarrow> 'a \<Rightarrow> bool"
    and count :: "'a \<Rightarrow> nat \<Rightarrow> nat"
    and ok :: "kstate \<Rightarrow> uint64 \<Rightarrow> bool"
  assumes alloc_grants:
      "rel s A \<Longrightarrow> (\<exists>e. alloc s = Inl (Panic e)) \<or>
        (\<exists>a s' A'. alloc s = Inr (a, s') \<and> rel s' A' \<and> ok s' a \<and>
          (\<forall>x. count A' x + of_bool (in_block len a x) = count A x) \<and>
          (\<forall>x. in_block len a (unat x) \<longrightarrow> mem s' x = 0) \<and>
          (\<forall>x. count A (unat x) = 0 \<longrightarrow> mem s' x = mem s x))"
    and free_returns:
      "rel s A \<Longrightarrow> ok s a \<Longrightarrow> (\<And>x. count A x + of_bool (in_block len a x) \<le> 1) \<Longrightarrow>
        \<exists>s' A'. free a s = Inr s' \<and> rel s' A' \<and>
          (\<forall>x. count A' x = count A x + of_bool (in_block len a x)) \<and>
          (\<forall>x. \<not> in_block len a (unat x) \<longrightarrow> mem s' x = mem s x)"
    and count_le: "rel s A \<Longrightarrow> count A x \<le> 1"
begin

lemma alloc_cases:
  assumes "rel s A" and "alloc s = Inr (a, s')"
  obtains A' where "rel s' A'" and "ok s' a"
    and "\<And>x. count A' x + of_bool (in_block len a x) = count A x"
    and "\<And>x. in_block len a (unat x) \<Longrightarrow> mem s' x = 0"
    and "\<And>x. count A (unat x) = 0 \<Longrightarrow> mem s' x = mem s x"
  using alloc_grants [OF assms(1)] assms(2) by auto

lemma allocs_disjoint:
  assumes "rel s A" and "alloc s = Inr (a, s1)" and "alloc s1 = Inr (b, s2)"
  shows "\<not> (in_block len a x \<and> in_block len b x)"
proof
  assume both: "in_block len a x \<and> in_block len b x"
  from assms(1,2) obtain A1 where A1: "rel s1 A1"
    "\<And>x. count A1 x + of_bool (in_block len a x) = count A x"
    using alloc_cases [OF assms(1,2)] by metis
  obtain A2 where "\<And>x. count A2 x + of_bool (in_block len b x) = count A1 x"
    using alloc_cases [OF A1(1) assms(3)] by metis
  from this [of x] have "count A x = count A2 x + 2" using A1(2) [of x] both by simp
  with count_le [OF assms(1), of x] show False by simp
qed

lemma alloc_free_restores:
  assumes "rel s A" and "alloc s = Inr (a, s1)"
  shows "\<exists>s2 A2. free a s1 = Inr s2 \<and> rel s2 A2 \<and> (\<forall>x. count A2 x = count A x) \<and>
    (\<forall>x. count A (unat x) = 0 \<longrightarrow> mem s2 x = mem s x)"
proof -
  from assms obtain A1 where A1: "rel s1 A1" "ok s1 a"
    "\<And>x. count A1 x + of_bool (in_block len a x) = count A x"
    "\<And>x. count A (unat x) = 0 \<Longrightarrow> mem s1 x = mem s x"
    using alloc_cases [OF assms] by metis
  have "count A1 x + of_bool (in_block len a x) \<le> 1" for x
    using A1(3) [of x] count_le [OF assms(1), of x] by simp
  from free_returns [OF A1(1,2) this] obtain s2 A2 where r: "free a s1 = Inr s2" "rel s2 A2"
    "\<And>x. count A2 x = count A1 x + of_bool (in_block len a x)"
    "\<And>x. \<not> in_block len a (unat x) \<Longrightarrow> mem s2 x = mem s1 x"
    by blast
  moreover have "mem s2 x = mem s x" if "count A (unat x) = 0" for x
  proof -
    from A1(3) [of "unat x"] that have "\<not> in_block len a (unat x)" by auto
    with r(4) A1(4) that show ?thesis by simp
  qed
  ultimately show ?thesis using A1(3) by auto
qed

end

lemma pmalloc_block_source:
  assumes i: "i < 3"
  shows "block_source (pmalloc K (pm_size i)) (\<lambda>a. pmfree K a (pm_size i)) (pm_sz i) (pm_rel K) cover
    (\<lambda>s a. block_ok K (memtotal s) (pm_sz i) a)"
proof
  fix s A
  assume rel: "pm_rel K s A"
  from pmalloc_take [OF rel i] show "(\<exists>e. pmalloc K (pm_size i) s = Inl (Panic e)) \<or>
      (\<exists>a s' A'. pmalloc K (pm_size i) s = Inr (a, s') \<and> pm_rel K s' A' \<and>
        block_ok K (memtotal s') (pm_sz i) a \<and>
        (\<forall>x. cover A' x + of_bool (in_block (pm_sz i) a x) = cover A x) \<and>
        (\<forall>x. in_block (pm_sz i) a (unat x) \<longrightarrow> mem s' x = 0) \<and>
        (\<forall>x. cover A (unat x) = 0 \<longrightarrow> mem s' x = mem s x))"
  proof (cases "pm_take i A")
    case None
    with pmalloc_take [OF rel i] show ?thesis by simp
  next
    case (Some r)
    with pmalloc_take [OF rel i] obtain a A' s' where "pmalloc K (pm_size i) s = Inr (a, s')"
      and g: "pm_granted K (pm_sz i) s A a A' s'"
      by (cases r) auto
    moreover have "memtotal s' = memtotal s"
      using g unfolding pm_granted_def by (elim conjE) (erule ssubst, simp)
    ultimately show ?thesis
      unfolding pm_granted_def by metis
  qed
  show "cover A x \<le> 1" for x using rel by (simp add: pm_rel_def)
next
  fix s A a
  assume rel: "pm_rel K s A" and ok: "block_ok K (memtotal s) (pm_sz i) a"
    and apart: "\<And>x. cover A x + of_bool (in_block (pm_sz i) a x) \<le> 1"
  let ?s = "s\<lparr>mem := store64 (mem s) a (pmmap s ! i), pmmap := (pmmap s)[i := a]\<rparr>"
  have len: "length A = 3" using rel by (simp add: pm_rel_def)
  have "mem ?s x = mem s x" if "\<not> in_block (pm_sz i) a (unat x)" for x
  proof -
    have "x \<notin> bytes_at a (pm_sz i)"
      using that block_ok_no_wrap [OF ok] by (simp add: bytes_at_in_block)
    then have "x \<notin> bytes_at a 8"
      using bytes_at_mono [of 8 "pm_sz i" a] pm_sz_bounds [OF i] by auto
    then show ?thesis by (simp add: quad_cell.store_outside)
  qed
  moreover have "cover (A[i := a # A ! i]) x = cover A x + of_bool (in_block (pm_sz i) a x)" for x
    using cover_update [OF len i, of "a # A ! i" x] by simp
  ultimately show "\<exists>s' A'. pmfree K a (pm_size i) s = Inr s' \<and> pm_rel K s' A' \<and>
      (\<forall>x. cover A' x = cover A x + of_bool (in_block (pm_sz i) a x)) \<and>
      (\<forall>x. \<not> in_block (pm_sz i) a (unat x) \<longrightarrow> mem s' x = mem s x)"
    using pmfree_step [OF rel i ok apart] by blast
qed

interpretation page: block_source "pmalloc K PM_4K" "\<lambda>a. pmfree K a PM_4K" 4096 "pm_rel K" cover
  "\<lambda>s a. block_ok K (memtotal s) 4096 a" for K
  using pmalloc_block_source [of 0 K] by (simp add: pm_size_def)

interpretation big_block: block_source "pmalloc K PM_512K" "\<lambda>a. pmfree K a PM_512K" 524288 "pm_rel K" cover
  "\<lambda>s a. block_ok K (memtotal s) 524288 a" for K
  using pmalloc_block_source [of 1 K] by (simp add: pm_size_def)

interpretation huge_block: block_source "pmalloc K PM_64M" "\<lambda>a. pmfree K a PM_64M" 67108864 "pm_rel K" cover
  "\<lambda>s a. block_ok K (memtotal s) 67108864 a" for K
  using pmalloc_block_source [of 2 K] by (simp add: pm_size_def)

section \<open>Properties\<close>

text \<open>
  C1.  \<^verbatim>\<open>pmalloc\<close> implements the abstract allocator.  On sound free lists it panics exactly
  when neither its own list nor a larger one holds a block; otherwise it returns, the block
  it hands out lies between the end of the kernel and the end of memory and is all zero,
  every byte that was free is either still free exactly once or in that block (so nothing
  is lost or handed out twice), the lists stay sound, and memory that was not free is left
  alone.
\<close>

theorem pmalloc_refines:
  assumes "pm_rel K s A" and "i < 3"
  shows "case pm_take i A of
      None \<Rightarrow> pmalloc K (pm_size i) s = Inl (Panic ''pmalloc: out of memory'')
    | Some (a, A') \<Rightarrow>
        \<exists>s'. pmalloc K (pm_size i) s = Inr (a, s') \<and> pm_rel K s' A' \<and>
          a \<noteq> NULL \<and> kernel_end K \<le> a \<and> unat a + pm_sz i \<le> unat (memtotal s) \<and>
          (\<forall>x. cover A' x + of_bool (in_block (pm_sz i) a x) = cover A x) \<and>
          (\<forall>x. in_block (pm_sz i) a (unat x) \<longrightarrow> mem s' x = 0) \<and>
          (\<forall>x. cover A (unat x) = 0 \<longrightarrow> mem s' x = mem s x) \<and>
          s' = s\<lparr>mem := mem s', pmmap := pmmap s'\<rparr>"
proof (cases "pm_take i A")
  case None
  with pmalloc_take [OF assms] show ?thesis by simp
next
  case (Some r)
  obtain a A' where r: "r = (a, A')" by (cases r)
  with pmalloc_take [OF assms] Some obtain s' where "pmalloc K (pm_size i) s = Inr (a, s')"
    and "pm_granted K (pm_sz i) s A a A' s'" by auto
  then show ?thesis
    unfolding Some r option.case prod.case pm_granted_def block_ok_def by blast
qed

definition demo_layout :: klayout where
  "demo_layout = \<lparr>kernel_end = 0x200000, slabs_at = 0x1F0000, proc_list_at = 0x1F8000,
     inode_list_at = 0x1F8100, pci_devices_at = 0x1F8200, idt_at = 0x1F9000, ts_at = 0x1FA000,
     gdt_at = 0x1FA100, sysret_at = 0x100100, syscall_at = 0x100200, stdio_at = 0x1F8300,
     local_at = (\<lambda>_. 0x1FC000), vectors = (\<lambda>i. 0x110000 + 16 * of_nat i), port_dev = (\<lambda>_ _. 0x48),
     mmio_dev = (\<lambda>_ _. 0), cpuid_out = (\<lambda>_ _. 0x30), loop_fuel = 16777216\<rparr>"

definition demo_state :: kstate where
  "demo_state = \<lparr>mem = (\<lambda>_. 0), pmmap = [0, 0, 0x4000000], memtotal = 0x20000000,
     screen_base = 0, screen_size = 0, screen_hr = 0, screen_vr = 0, xsdp = 0,
     pgdir = 0, cr3 = 0x1000, cr2 = 0, msrs = (\<lambda>_. 0),
     idtr_limit = 0, idtr_base = 0, task_reg = 0, curproc = 0, nextpid = 0,
     apic = \<lparr>lapic_id = 0, lapic_addr = 0, ioapic_id = 0, ioapic_addr = 0\<rparr>,
     fat16 = \<lparr>bpb_entry = 1, fat_entry = 2, rootdir_entry = 66, data_entry = 98,
       sector_size = 512, cluster_size = 512, fat_size = 16384, partition0_size = 33554432,
       sector_per_cluster = 1, sector_per_fat = 32, sector_per_partition0 = 65535,
       root_entries = 512\<rparr>,
     kbd_flags = 0, ticks = 0, io = [], console = []\<rparr>"

lemma load64_zero [simp]: "load64 (\<lambda>_. 0) a = 0"
  by (simp add: load64_def eval_nat_numeral)

lemma demo_pm_rel: "pm_rel demo_layout demo_state [[], [], [0x4000000]]"
proof -
  have "chain (load64 (mem demo_state)) (pmmap demo_state ! i) ([[], [], [0x4000000]] ! i)"
    if "i < 3" for i
    using that by (rule pm_idx_cases) (simp_all add: demo_state_def)
  moreover have "block_ok demo_layout (memtotal demo_state) (pm_sz i) a"
    if "i < 3" "a \<in> set ([[], [], [0x4000000]] ! i)" for i a
    using that by (elim pm_idx_cases) (simp_all add: demo_state_def demo_layout_def block_ok_def)
  moreover have "cover [[], [], [0x4000000]] x \<le> 1" for x
    by (simp add: cover_def)
  ultimately show ?thesis
    by (simp add: pm_rel_def) (simp add: demo_state_def)
qed

lemma demo_pm_take:
  "\<exists>A'. pm_take 0 [[], [], [0x4000000]] = Some (0x4000000, A')"
  by (simp add: pm_take.simps [of 0] pm_take.simps [of "Suc 0"] pm_take.simps [of 2]
      numeral_2_eq_2 [symmetric])

theorem pmalloc_refines_witness:
  "\<exists>s'. pmalloc demo_layout PM_4K demo_state = Inr (0x4000000, s') \<and> mem s' 0x4000000 = 0"
proof -
  obtain A' where A': "pm_take 0 [[], [], [0x4000000]] = Some (0x4000000, A')"
    using demo_pm_take by blast
  have z: "(0 :: nat) < 3" by simp
  from pmalloc_refines [OF demo_pm_rel z] A' show ?thesis
    by (auto simp: pm_size_def in_block_def)
qed

text \<open>
  Two 4 KiB pages handed out one after the other never share a byte.
\<close>

theorem pmalloc_pages_disjoint:
  assumes "pm_rel K s A" and "pmalloc K PM_4K s = Inr (a, s1)" and "pmalloc K PM_4K s1 = Inr (b, s2)"
  shows "\<not> (in_block 4096 a x \<and> in_block 4096 b x)"
  using assms by (rule page.allocs_disjoint)

theorem pmalloc_pages_disjoint_witness:
  "\<exists>a s1. pmalloc demo_layout PM_4K demo_state = Inr (a, s1) \<and>
    (\<forall>b s2 x. pmalloc demo_layout PM_4K s1 = Inr (b, s2) \<longrightarrow> \<not> (in_block 4096 a x \<and> in_block 4096 b x))"
proof -
  obtain A' where A': "pm_take 0 [[], [], [0x4000000]] = Some (0x4000000, A')"
    using demo_pm_take by blast
  have z: "(0 :: nat) < 3" by simp
  from pmalloc_take [OF demo_pm_rel z] A'
  obtain s1 where s1: "pmalloc demo_layout PM_4K demo_state = Inr (0x4000000, s1)"
    by (auto simp: pm_size_def)
  with pmalloc_pages_disjoint [OF demo_pm_rel s1] show ?thesis by blast
qed

text \<open>
  C30.  Giving a 4 KiB page back right after it was handed out never panics and returns the
  allocator to the same set of free bytes, without touching memory in use.
\<close>

theorem pmalloc_pmfree_roundtrip:
  assumes "pm_rel K s A" and "pmalloc K PM_4K s = Inr (a, s1)"
  shows "\<exists>s2 A2. pmfree K a PM_4K s1 = Inr s2 \<and> pm_rel K s2 A2 \<and> (\<forall>x. cover A2 x = cover A x) \<and>
    (\<forall>x. cover A (unat x) = 0 \<longrightarrow> mem s2 x = mem s x)"
  using assms by (rule page.alloc_free_restores)

theorem pmalloc_pmfree_roundtrip_witness:
  "\<exists>a s1 s2. pmalloc demo_layout PM_4K demo_state = Inr (a, s1) \<and> pmfree demo_layout a PM_4K s1 = Inr s2"
proof -
  obtain A' where A': "pm_take 0 [[], [], [0x4000000]] = Some (0x4000000, A')"
    using demo_pm_take by blast
  have z: "(0 :: nat) < 3" by simp
  from pmalloc_take [OF demo_pm_rel z] A'
  obtain s1 where s1: "pmalloc demo_layout PM_4K demo_state = Inr (0x4000000, s1)"
    by (auto simp: pm_size_def)
  with pmalloc_pmfree_roundtrip [OF demo_pm_rel s1] show ?thesis by blast
qed

lemma pm_init_spec:
  fixes eax :: uint32 and s :: kstate
  defines "w \<equiv> unat (eax AND 0xFF)"
  defines "m12 \<equiv> BIT64_MASK w AND NOT (BIT64_MASK 12)" and "m21 \<equiv> BIT64_MASK w AND NOT (BIT64_MASK 21)"
  defines "amax \<equiv> find_allocatable_max (mem s) (cr3 s AND m12) m12 m21"
  assumes "w < 64" and "pmmap s = [NULL, NULL, NULL]" and "kernel_end K \<noteq> NULL"
    and "unat (kernel_end K) + 67108864 < 18446744073709551616"
    and "kernel_end K \<le> amax" and "amax \<le> memtotal s"
    and "unat (memtotal s) div 4096 < loop_fuel K"
  shows "\<exists>s' A lo. pm_init K eax s = Inr s' \<and> pm_rel K s' A \<and>
    unat (kernel_end K) \<le> lo \<and> lo < unat (kernel_end K) + 4096 \<and>
    (\<forall>x. cover A x = of_bool (lo \<le> x \<and> x < unat amax)) \<and>
    (\<forall>x. \<not> (lo \<le> unat x \<and> unat x < unat amax) \<longrightarrow> mem s' x = mem s x) \<and>
    (4096 dvd unat amax \<longrightarrow> (\<forall>j<3. \<forall>a \<in> set (A ! j). 4096 dvd unat a)) \<and>
    (unat amax - unat (kernel_end K)) div 524288 = length (A ! 1) + 128 * length (A ! 2) \<and>
    (\<exists>out. s' = s\<lparr>mem := mem s', pmmap := pmmap s', console := out\<rparr>)"
proof -
  obtain o1 where o1: "kprintf K ''[pm] kernel_end: %x\<newline>'' [kernel_end K] s = Inr (s\<lparr>console := o1\<rparr>)"
    using kprintf_total [of "''[pm] kernel_end: %x\<newline>''" K "[kernel_end K]" s] by auto
  let ?s1 = "s\<lparr>console := o1\<rparr>"
  obtain o2 where o2: "kprintf K ''[pm] allocatable_max: %x\<newline>'' [amax] ?s1 = Inr (s\<lparr>console := o2\<rparr>)"
    using kprintf_total [of "''[pm] allocatable_max: %x\<newline>''" K "[amax]" ?s1] by auto
  let ?s2 = "s\<lparr>console := o2\<rparr>"
  have "pm_rel K ?s2 [[], [], []]"
    using assms(6) by (auto simp: pm_rel_def cover_def elim!: pm_idx_cases)
  moreover have "unat amax \<le> unat (memtotal ?s2)" using assms(10) by (simp add: word_le_nat_alt)
  ultimately obtain lo s3 A where f:
    "ebind (pm_fill (loop_fuel K) K PM_64M amax ?s2) (\<lambda>(amax, s).
     ebind (pm_fill (loop_fuel K) K PM_512K amax s) (\<lambda>(amax, s).
     pm_fill (loop_fuel K) K PM_4K amax s)) = Inr (lo, s3)"
    and g: "pm_rel K s3 A" "kernel_end K \<le> lo" "unat lo < unat (kernel_end K) + 4096"
    "\<And>x. cover A x = of_bool (unat lo \<le> x \<and> x < unat amax)"
    "\<And>j. j < 3 \<Longrightarrow> length (A ! j) < loop_fuel K"
    "\<And>x. \<not> (unat lo \<le> unat x \<and> unat x < unat amax) \<Longrightarrow> mem s3 x = mem ?s2 x"
    "4096 dvd unat amax \<longrightarrow> (\<forall>j<3. \<forall>a \<in> set (A ! j). 4096 dvd unat a)"
    "(unat amax - unat (kernel_end K)) div 524288 = length (A ! 1) + 128 * length (A ! 2)"
    "s3 = ?s2\<lparr>mem := mem s3, pmmap := pmmap s3\<rparr>"
    using pm_fill_all [of K ?s2 amax] assms(7-11) by auto
  from pm_dump_ok [OF g(1,5)] obtain o3 where o3: "pm_dump K s3 = Inr (s3\<lparr>console := o3\<rparr>)"
    by auto
  let ?s3 = "s3\<lparr>console := o3\<rparr>"
  have pr: "pm_init K eax s = Inr ?s3"
    using f o1 o2 o3 assms(5) unfolding pm_init_def Let_def w_def [symmetric] m12_def [symmetric]
      m21_def [symmetric] amax_def [symmetric]
    by (auto simp: ebind_eq_Inr)
  have rel: "pm_rel K ?s3 A" using g(1) by (simp add: pm_rel_console)
  have "?s3 = s\<lparr>mem := mem s3, pmmap := pmmap s3, console := o3\<rparr>"
    by (subst g(9)) simp
  then have eq: "\<exists>out. ?s3 = s\<lparr>mem := mem ?s3, pmmap := pmmap ?s3, console := out\<rparr>"
    by (intro exI [of _ o3]) simp
  show ?thesis
    by (intro exI [of _ ?s3] exI [of _ A] exI [of _ "unat lo"] conjI pr rel eq)
      (use g(2-8) in \<open>simp_all add: word_le_nat_alt\<close>)
qed

text \<open>
  C2.  Start-up.  With a physical-address width the shift macros support, and a limit of
  writable memory that lies between the end of the kernel and the end of memory, \<^verbatim>\<open>pm_init\<close>
  returns with sound free lists that hold exactly the bytes from some address less than one
  page above \<^verbatim>\<open>kernel_end\<close> up to that limit, and it changes no byte outside them.
\<close>

theorem pm_init_covers:
  fixes eax :: uint32 and s :: kstate
  defines "w \<equiv> unat (eax AND 0xFF)"
  defines "m12 \<equiv> BIT64_MASK w AND NOT (BIT64_MASK 12)" and "m21 \<equiv> BIT64_MASK w AND NOT (BIT64_MASK 21)"
  defines "amax \<equiv> find_allocatable_max (mem s) (cr3 s AND m12) m12 m21"
  assumes "w < 64" and "pmmap s = [NULL, NULL, NULL]" and "kernel_end K \<noteq> NULL"
    and "unat (kernel_end K) + 67108864 < 18446744073709551616"
    and "kernel_end K \<le> amax" and "amax \<le> memtotal s"
    and "unat (memtotal s) div 4096 < loop_fuel K"
  shows "\<exists>s' A lo. pm_init K eax s = Inr s' \<and> pm_rel K s' A \<and>
    unat (kernel_end K) \<le> lo \<and> lo < unat (kernel_end K) + 4096 \<and>
    (\<forall>x. cover A x = of_bool (lo \<le> x \<and> x < unat amax)) \<and>
    (\<forall>x. \<not> (lo \<le> unat x \<and> unat x < unat amax) \<longrightarrow> mem s' x = mem s x)"
  using pm_init_spec [of eax s K] assms(5-11) unfolding assms(1-4) by blast

text \<open>A boot page table whose first 2 MiB entry is read-only at 128 MiB.\<close>

definition boot_state :: kstate where
  "boot_state = demo_state\<lparr>pmmap := [0, 0, 0],
     mem := store64 (store64 (store64 (\<lambda>_. 0) 0x1000 0x2003) 0x2000 0x3003) 0x3000 0x8000001\<rparr>"

lemma load64_store64_apart:
  assumes "unat a + 8 \<le> unat b \<or> unat b + 8 \<le> unat a"
    and "unat a + 8 \<le> 18446744073709551616" and "unat b + 8 \<le> 18446744073709551616"
  shows "load64 (store64 m a v) b = load64 m b"
  using assms by (intro quad_cell.load_store_other bytes_at_disjointI) auto

lemma boot_loads:
  "load64 (mem boot_state) 0x1000 = 0x2003" "load64 (mem boot_state) 0x2000 = 0x3003"
  "load64 (mem boot_state) 0x3000 = 0x8000001"
  by (simp_all add: boot_state_def load64_store64_apart)

lemma scan_table_first:
  assumes "load64 m table AND PG_P \<noteq> 0" and "body (load64 m table) = Some r"
  shows "scan_table m table body [0..<512] = Some r"
proof -
  have "[0..<512] = 0 # [1..<512]" by (simp add: upt_rec [of 0 512])
  with assms show ?thesis by simp
qed

lemma boot_allocatable_max:
  "find_allocatable_max (mem boot_state) 0x1000 0xFFFFFFF000 0xFFFFE00000 = 0x8000000"
proof -
  let ?m = "mem boot_state" and ?k = "0xFFFFFFF000 :: uint64"
  define pt :: "uint64 \<Rightarrow> uint64 option" where
    "pt = (\<lambda>e1. if e1 AND PG_RW = 0 then Some (e1 AND ?k) else None)"
  define pd :: "uint64 \<Rightarrow> uint64 option" where
    "pd = (\<lambda>e2. if e2 AND PG_RW = 0 then Some (e2 AND 0xFFFFE00000)
       else if e2 AND PG_PS \<noteq> 0 then None
       else scan_table ?m (e2 AND ?k) pt [0..<512])"
  have s3: "scan_table ?m 0x3000 pd [0..<512] = Some 0x8000000"
    by (rule scan_table_first) (simp_all add: boot_loads PG_P_def PG_RW_def pd_def)
  have s2: "scan_table ?m 0x2000 (\<lambda>e3. scan_table ?m (e3 AND ?k) pd [0..<512]) [0..<512] = Some 0x8000000"
    by (rule scan_table_first) (simp_all add: s3 boot_loads PG_P_def del: upt_rec_numeral)
  have "scan_table ?m 0x1000 (\<lambda>e4. scan_table ?m (e4 AND ?k)
      (\<lambda>e3. scan_table ?m (e3 AND ?k) pd [0..<512]) [0..<512]) [0..<512] = Some 0x8000000"
    by (rule scan_table_first) (simp_all add: s2 boot_loads PG_P_def del: upt_rec_numeral)
  then show ?thesis
    unfolding find_allocatable_max_def pd_def pt_def by (simp del: upt_rec_numeral)
qed

theorem pm_init_covers_witness:
  "\<exists>s' A lo. pm_init demo_layout 40 boot_state = Inr s' \<and> pm_rel demo_layout s' A \<and>
    (\<forall>x. cover A x = of_bool (lo \<le> x \<and> x < 0x8000000))"
proof -
  have amax: "find_allocatable_max (mem boot_state)
      (cr3 boot_state AND (BIT64_MASK (unat ((40 :: uint32) AND 0xFF)) AND NOT (BIT64_MASK 12)))
      (BIT64_MASK (unat ((40 :: uint32) AND 0xFF)) AND NOT (BIT64_MASK 12))
      (BIT64_MASK (unat ((40 :: uint32) AND 0xFF)) AND NOT (BIT64_MASK 21)) = 0x8000000"
    using boot_allocatable_max by (simp add: BIT64_MASK_def boot_state_def demo_state_def)
  have "unat ((40 :: uint32) AND 0xFF) < 64" and "pmmap boot_state = [NULL, NULL, NULL]"
    and "kernel_end demo_layout \<noteq> NULL"
    and "unat (kernel_end demo_layout) + 67108864 < 18446744073709551616"
    and "kernel_end demo_layout \<le> 0x8000000" and "0x8000000 \<le> memtotal boot_state"
    and "unat (memtotal boot_state) div 4096 < loop_fuel demo_layout"
    by (simp_all add: boot_state_def demo_state_def demo_layout_def)
  note boot = this
  have u: "unat (0x8000000 :: uint64) = 0x8000000" by simp
  from pm_init_covers [of 40 boot_state demo_layout, unfolded amax, OF boot, unfolded u]
  show ?thesis by blast
qed

end
