(* ===== verification/Slab.thy ===== *)
theory Slab
  imports PhysMem
begin

text \<open>
  The kernel heap, \<^verbatim>\<open>mm/slab.c\<close>.  Objects of fourteen size classes (64 bytes to 512 KiB) are
  carved out of pages taken from the page allocator; a \<^verbatim>\<open>SLAB\<close> record keeps the page's address,
  a bitmap of the slots in use and the link to the next slab of the class.  The first record
  of each class is an element of the static array \<^verbatim>\<open>slabs\<close>; a further record of the 64-byte
  class lives in the first slot of its own page, and one of a larger class is itself an object
  of the 64-byte class.
\<close>

section \<open>Data\<close>

text \<open>\<^verbatim>\<open>enum SLAB_IDX\<close>, and the members of \<^verbatim>\<open>struct SLAB\<close> by their offsets.\<close>

definition SLAB_MIN_SIZE :: uint64 where "SLAB_MIN_SIZE = 64"

definition SLAB_64 :: nat where "SLAB_64 = 0"
definition SLAB_128 :: nat where "SLAB_128 = 1"
definition SLAB_4K :: nat where "SLAB_4K = 6"
definition SLAB_8K :: nat where "SLAB_8K = 7"
definition SLAB_NUM :: nat where "SLAB_NUM = 14"

definition sizeof_SLAB :: uint64 where "sizeof_SLAB = 24"

definition slab_address :: "mem_t \<Rightarrow> uint64 \<Rightarrow> uint64" where
  "slab_address m e = load64 m e"

definition slab_bitmap :: "mem_t \<Rightarrow> uint64 \<Rightarrow> uint64" where
  "slab_bitmap m e = load64 m (e + 8)"

definition slab_next :: "mem_t \<Rightarrow> uint64 \<Rightarrow> uint64" where
  "slab_next m e = load64 m (e + 16)"

definition set_slab_address :: "uint64 \<Rightarrow> uint64 \<Rightarrow> kstate \<Rightarrow> kstate" where
  "set_slab_address e v s = s\<lparr>mem := store64 (mem s) e v\<rparr>"

definition set_slab_bitmap :: "uint64 \<Rightarrow> uint64 \<Rightarrow> kstate \<Rightarrow> kstate" where
  "set_slab_bitmap e v s = s\<lparr>mem := store64 (mem s) (e + 8) v\<rparr>"

definition set_slab_next :: "uint64 \<Rightarrow> uint64 \<Rightarrow> kstate \<Rightarrow> kstate" where
  "set_slab_next e v s = s\<lparr>mem := store64 (mem s) (e + 16) v\<rparr>"

text \<open>The address of \<^verbatim>\<open>slabs[i]\<close>.\<close>

definition slab_head :: "klayout \<Rightarrow> nat \<Rightarrow> uint64" where
  "slab_head K i = slabs_at K + 24 * of_nat i"

section \<open>Allocation\<close>

definition size_to_slab_idx :: "uint64 \<Rightarrow> nat kres" where
  "size_to_slab_idx sz =
     (if sz \<le> 64 then Inr 0
      else if sz \<le> 128 then Inr 1
      else if sz \<le> 256 then Inr 2
      else if sz \<le> 512 then Inr 3
      else if sz \<le> KiB 1 then Inr 4
      else if sz \<le> KiB 2 then Inr 5
      else if sz \<le> KiB 4 then Inr 6
      else if sz \<le> KiB 8 then Inr 7
      else if sz \<le> KiB 16 then Inr 8
      else if sz \<le> KiB 32 then Inr 9
      else if sz \<le> KiB 64 then Inr 10
      else if sz \<le> KiB 128 then Inr 11
      else if sz \<le> KiB 256 then Inr 12
      else if sz \<le> KiB 512 then Inr 13
      else Inl (Panic ''kmalloc: size %d not supported\<newline>''))"

text \<open>The first clear bit among the lowest \<open>pages\<close> bits of a bitmap.\<close>

definition first_free :: "uint64 \<Rightarrow> nat \<Rightarrow> nat option" where
  "first_free bitmap pages = find (\<lambda>i. bitmap AND push_bit i 1 = 0) [0..<pages]"

primrec find_free_loop :: "nat \<Rightarrow> uint64 \<Rightarrow> uint64 \<Rightarrow> uint64 \<Rightarrow> kstate \<Rightarrow> (uint64 \<times> kstate) kres" where
  "find_free_loop 0 sz pages entry s = Inl OutOfFuel"
| "find_free_loop (Suc n) sz pages entry s =
     (if entry = NULL then Inr (NULL, s)
      else
        let bitmap = slab_bitmap (mem s) entry in
        (case (if bitmap \<noteq> 0xFFFFFFFFFFFFFFFF then first_free bitmap (unat pages) else None) of
           Some i \<Rightarrow>
             let s = set_slab_bitmap entry (bitmap OR push_bit i 1) s in
             Inr (slab_address (mem s) entry + of_nat i * sz, s)
         | None \<Rightarrow> find_free_loop n sz pages (slab_next (mem s) entry) s))"

text \<open>
  The guard lets \<open>SLAB_NUM\<close> itself through; \<^verbatim>\<open>slabs[SLAB_NUM]\<close> is past the end of the array.
\<close>

definition find_free_slab :: "klayout \<Rightarrow> nat \<Rightarrow> kstate \<Rightarrow> (uint64 \<times> kstate) kres" where
  "find_free_slab K idx s =
     (if idx > SLAB_NUM then Inl (Panic ''find_free_slab\<newline>'')
      else if idx = SLAB_NUM then Inl Undef
      else
        let entry = slab_head K idx;
            sz = push_bit idx SLAB_MIN_SIZE;
            pages = (if sz > KiB 4 then PM_512K div sz else PM_4K div sz)
        in find_free_loop (loop_fuel K) sz pages entry s)"

text \<open>The last record of a class, from which a new slab is linked.\<close>

primrec slab_last :: "nat \<Rightarrow> mem_t \<Rightarrow> uint64 \<Rightarrow> uint64 kres" where
  "slab_last 0 m e = Inl OutOfFuel"
| "slab_last (Suc n) m e = (if slab_next m e \<noteq> NULL then slab_last n m (slab_next m e) else Inr e)"

definition kmalloc64 :: "klayout \<Rightarrow> kstate \<Rightarrow> (uint64 \<times> kstate) kres" where
  "kmalloc64 K s =
     ebind (find_free_slab K SLAB_64 s) (\<lambda>(addr, s).
     if addr \<noteq> NULL then Inr (addr, s\<lparr>mem := memset (mem s) addr 0 64\<rparr>)
     else
       ebind (slab_last (loop_fuel K) (mem s) (slab_head K SLAB_64)) (\<lambda>last.
       ebind (pmalloc K PM_4K s) (\<lambda>(new, s).
       let s = set_slab_address new new s;
           s = set_slab_bitmap new 3 s;
           s = set_slab_next last new s
       in Inr (slab_address (mem s) new + 64, s))))"

definition kmalloc :: "klayout \<Rightarrow> uint64 \<Rightarrow> kstate \<Rightarrow> (uint64 \<times> kstate) kres" where
  "kmalloc K sz s =
     (if sz \<le> 64 then kmalloc64 K s
      else
        ebind (size_to_slab_idx sz) (\<lambda>idx.
        ebind (find_free_slab K idx s) (\<lambda>(addr, s).
        if addr \<noteq> NULL then Inr (addr, s\<lparr>mem := memset (mem s) addr 0 (push_bit idx SLAB_MIN_SIZE)\<rparr>)
        else
          ebind (slab_last (loop_fuel K) (mem s) (slab_head K idx)) (\<lambda>entry.
          ebind (kmalloc64 K s) (\<lambda>(new, s).
          ebind (if idx > SLAB_4K then pmalloc K PM_512K s else pmalloc K PM_4K s) (\<lambda>(page, s).
          let s = set_slab_address new page s;
              s = set_slab_bitmap new 1 s;
              s = set_slab_next entry new s
          in Inr (slab_address (mem s) new, s)))))))"

section \<open>Release\<close>

text \<open>
  The search of \<^verbatim>\<open>kmfree\<close>: the first record, in the order of the classes, whose page contains
  the address, with the record before it in its class (\<open>NULL\<close> for the first).
\<close>

primrec slab_find_in ::
    "nat \<Rightarrow> mem_t \<Rightarrow> uint64 \<Rightarrow> uint64 \<Rightarrow> uint64 \<Rightarrow> uint64 \<Rightarrow> (uint64 \<times> uint64) option kres" where
  "slab_find_in 0 m page_size addr entry prev = Inl OutOfFuel"
| "slab_find_in (Suc n) m page_size addr entry prev =
     (if entry = NULL then Inr None
      else if slab_address m entry + page_size > addr \<and> slab_address m entry \<le> addr then
        Inr (Some (entry, prev))
      else slab_find_in n m page_size addr (slab_next m entry) entry)"

definition slab_page_size :: "nat \<Rightarrow> uint64" where
  "slab_page_size i = (if i > SLAB_4K then PM_512K else PM_4K)"

primrec slab_find :: "klayout \<Rightarrow> mem_t \<Rightarrow> uint64 \<Rightarrow> nat list \<Rightarrow> (nat \<times> uint64 \<times> uint64) option kres" where
  "slab_find K m addr [] = Inr None"
| "slab_find K m addr (i # is) =
     ebind (slab_find_in (loop_fuel K) m (slab_page_size i) addr (slab_head K i) NULL) (\<lambda>r.
     case r of
       None \<Rightarrow> slab_find K m addr is
     | Some (entry, prev) \<Rightarrow> Inr (Some (i, entry, prev)))"

primrec kmfree_rec :: "nat \<Rightarrow> klayout \<Rightarrow> uint64 \<Rightarrow> kstate \<Rightarrow> kstate kres" where
  "kmfree_rec 0 K addr s = Inl OutOfFuel"
| "kmfree_rec (Suc n) K addr s =
     (if addr = NULL then Inl (Panic ''kmfree: addr is NULL\<newline>'')
      else
        ebind (slab_find K (mem s) addr [0..<SLAB_NUM]) (\<lambda>r.
        case r of
          None \<Rightarrow> Inl (Panic ''kmfree: slab addr %x not found\<newline>'')
        | Some (i, entry, prev) \<Rightarrow>
            let page_size = slab_page_size i;
                slab_size = push_bit i SLAB_MIN_SIZE;
                idx = (addr - slab_address (mem s) entry) div slab_size
            in
            if addr mod slab_size \<noteq> 0 \<or> idx \<ge> page_size div slab_size then
              Inl (Panic ''kmfree: invalid addr %x\<newline>'')
            else
              let s = set_slab_bitmap entry
                        (slab_bitmap (mem s) entry AND NOT (push_bit (unat idx) 1)) s
              in
              ebind
                (if slab_bitmap (mem s) entry = 0 \<and> prev \<noteq> NULL then
                   kmfree_rec n K entry (set_slab_next prev (slab_next (mem s) entry) s)
                 else Inr s) (\<lambda>s.
              if slab_bitmap (mem s) entry = 1 \<and> slab_size = SLAB_MIN_SIZE \<and> prev \<noteq> NULL then
                let s = set_slab_next prev (slab_next (mem s) entry) s in
                (if page_size > KiB 4 then pmfree K entry PM_512K s else pmfree K entry PM_4K s)
              else Inr s)))"

definition kmfree :: "klayout \<Rightarrow> uint64 \<Rightarrow> kstate \<Rightarrow> kstate kres" where
  "kmfree K addr s = kmfree_rec (loop_fuel K) K addr s"

section \<open>Start-up and self test\<close>

primrec kmalloc_n :: "klayout \<Rightarrow> uint64 \<Rightarrow> nat \<Rightarrow> kstate \<Rightarrow> (uint64 list \<times> kstate) kres" where
  "kmalloc_n K sz 0 s = Inr ([], s)"
| "kmalloc_n K sz (Suc n) s =
     ebind (kmalloc K sz s) (\<lambda>(a, s).
     ebind (kmalloc_n K sz n s) (\<lambda>(as, s).
     Inr (a # as, s)))"

primrec kmfree_all :: "klayout \<Rightarrow> uint64 list \<Rightarrow> kstate \<Rightarrow> kstate kres" where
  "kmfree_all K [] s = Inr s"
| "kmfree_all K (a # as) s = ebind (kmfree K a s) (\<lambda>s. kmfree_all K as s)"

text \<open>Every second element of an array, from index \<open>i\<close> up.\<close>

definition every_second :: "nat \<Rightarrow> 'a list \<Rightarrow> 'a list" where
  "every_second i xs = map ((!) xs) (filter (\<lambda>k. k mod 2 = i mod 2) [i..<length xs])"

primrec slab_dump :: "nat \<Rightarrow> klayout \<Rightarrow> string \<Rightarrow> uint64 \<Rightarrow> kstate \<Rightarrow> kstate kres" where
  "slab_dump 0 K title e s = Inl OutOfFuel"
| "slab_dump (Suc n) K title e s =
     (if e = NULL then Inr s
      else
        ebind (kprintfs K
          [(title, [e]),
           (''             address %x\<newline>'', [slab_address (mem s) e]),
           (''             bitmap %x\<newline>'', [slab_bitmap (mem s) e]),
           (''             next %x\<newline>'', [slab_next (mem s) e])] s) (\<lambda>s.
        slab_dump n K title (slab_next (mem s) e) s))"

definition slab_tests_failed :: "klayout \<Rightarrow> kstate \<Rightarrow> kstate kres" where
  "slab_tests_failed K s =
     ebind (slab_dump (loop_fuel K) K ''Dump slab64: %x\<newline>'' (slab_head K SLAB_64) s) (\<lambda>s.
     ebind (slab_dump (loop_fuel K) K ''Dump slab128: %x\<newline>'' (slab_head K SLAB_128) s) (\<lambda>s.
     ebind (slab_dump (loop_fuel K) K ''Dump slab8K: %x\<newline>'' (slab_head K SLAB_8K) s) (\<lambda>s.
     Inl (Panic ''slab_tests failed\<newline>''))))"

text \<open>
  The two shapes that the self test compares a class with: one record with the given bitmap,
  or two records with the given bitmaps.
\<close>

definition slab_is1 :: "mem_t \<Rightarrow> uint64 \<Rightarrow> uint64 \<Rightarrow> bool" where
  "slab_is1 m e b \<longleftrightarrow> \<not> (slab_bitmap m e \<noteq> b \<or> slab_next m e \<noteq> NULL)"

definition slab_is2 :: "mem_t \<Rightarrow> uint64 \<Rightarrow> uint64 \<Rightarrow> uint64 \<Rightarrow> bool" where
  "slab_is2 m e b b' \<longleftrightarrow>
     \<not> (slab_bitmap m e \<noteq> b \<or> slab_next m e = NULL) \<and>
     \<not> (slab_bitmap m (slab_next m e) \<noteq> b' \<or> slab_next m (slab_next m e) \<noteq> NULL)"

definition slab_check :: "klayout \<Rightarrow> bool \<Rightarrow> string \<Rightarrow> kstate \<Rightarrow> kstate kres" where
  "slab_check K ok msg s = (if ok then kprintf K msg [] s else slab_tests_failed K s)"

definition slab_tests :: "klayout \<Rightarrow> kstate \<Rightarrow> kstate kres" where
  "slab_tests K s =
     (let s64 = slab_head K SLAB_64; s128 = slab_head K SLAB_128; s8K = slab_head K SLAB_8K in
      ebind (kprintf K ''[slab] start slab_tests: '' [] s) (\<lambda>s.
      ebind (kmalloc_n K 64 65 s) (\<lambda>(addr, s).
      ebind (slab_check K (slab_is2 (mem s) s64 0xFFFFFFFFFFFFFFFF 3) ''1 '' s) (\<lambda>s.
      ebind (kmfree_all K (every_second 0 addr) s) (\<lambda>s.
      ebind (slab_check K (slab_is1 (mem s) s64 0xAAAAAAAAAAAAAAAA) ''2 '' s) (\<lambda>s.
      ebind (kmalloc_n K 64 64 s) (\<lambda>(addr2, s).
      ebind (slab_check K (slab_is2 (mem s) s64 0xFFFFFFFFFFFFFFFF 0x1FFFFFFFF) ''3 '' s) (\<lambda>s.
      ebind (kmfree_all K (every_second 1 addr) s) (\<lambda>s.
      ebind (kmfree_all K addr2 s) (\<lambda>s.
      ebind (slab_check K (slab_is1 (mem s) s64 0) ''4 '' s) (\<lambda>s.
      ebind (kmalloc_n K 128 33 s) (\<lambda>(addr, s).
      ebind (slab_check K (slab_is1 (mem s) s64 1 \<and> slab_is2 (mem s) s128 0xFFFFFFFF 1) ''5 '' s) (\<lambda>s.
      ebind (kmfree_all K (every_second 0 addr) s) (\<lambda>s.
      ebind (slab_check K (slab_is1 (mem s) s64 0 \<and> slab_is1 (mem s) s128 0xAAAAAAAA) ''6 '' s) (\<lambda>s.
      ebind (kmfree_all K (every_second 1 addr) s) (\<lambda>s.
      ebind (slab_check K (slab_is1 (mem s) s64 0 \<and> slab_is1 (mem s) s128 0) ''7 '' s) (\<lambda>s.
      ebind (kmalloc_n K (KiB 8) 65 s) (\<lambda>(addr, s).
      ebind (slab_check K (slab_is1 (mem s) s64 1 \<and> slab_is2 (mem s) s8K 0xFFFFFFFFFFFFFFFF 1) ''8 '' s) (\<lambda>s.
      ebind (kmfree_all K addr s) (\<lambda>s.
      ebind (slab_check K (slab_is1 (mem s) s64 0 \<and> slab_is1 (mem s) s128 0 \<and>
               slab_is1 (mem s) s8K 0) ''9\<newline>'' s) (\<lambda>s.
      kprintf K ''[slab] finish slab_tests\<newline>'' [] s)))))))))))))))))))))"

primrec slab_init_loop :: "klayout \<Rightarrow> nat list \<Rightarrow> kstate \<Rightarrow> kstate kres" where
  "slab_init_loop K [] s = Inr s"
| "slab_init_loop K (i # is) s =
     ebind (if i > SLAB_4K then pmalloc K PM_512K s else pmalloc K PM_4K s) (\<lambda>(page, s).
     let s = set_slab_address (slab_head K i) page s;
         s = set_slab_bitmap (slab_head K i) 0 s;
         s = set_slab_next (slab_head K i) NULL s
     in slab_init_loop K is s)"

definition slab_init :: "klayout \<Rightarrow> kstate \<Rightarrow> kstate kres" where
  "slab_init K s = ebind (slab_init_loop K [0..<SLAB_NUM] s) (\<lambda>s. slab_tests K s)"

end
