(* ===== verification/KList.thy ===== *)
theory KList
  imports Slab
begin

text \<open>
  The doubly linked list of \<^verbatim>\<open>list.c\<close>, used for processes, inodes and PCI devices.  A list is
  headed by a static \<^verbatim>\<open>list_t\<close> that is zero at start-up, so the first cell carries no element.
\<close>

definition sizeof_list_t :: uint64 where "sizeof_list_t = 24"

definition list_node :: "mem_t \<Rightarrow> uint64 \<Rightarrow> uint64" where
  "list_node m e = load64 m e"

definition list_prev :: "mem_t \<Rightarrow> uint64 \<Rightarrow> uint64" where
  "list_prev m e = load64 m (e + 8)"

definition list_next :: "mem_t \<Rightarrow> uint64 \<Rightarrow> uint64" where
  "list_next m e = load64 m (e + 16)"

definition set_list_node :: "uint64 \<Rightarrow> uint64 \<Rightarrow> kstate \<Rightarrow> kstate" where
  "set_list_node e v s = s\<lparr>mem := store64 (mem s) e v\<rparr>"

definition set_list_prev :: "uint64 \<Rightarrow> uint64 \<Rightarrow> kstate \<Rightarrow> kstate" where
  "set_list_prev e v s = s\<lparr>mem := store64 (mem s) (e + 8) v\<rparr>"

definition set_list_next :: "uint64 \<Rightarrow> uint64 \<Rightarrow> kstate \<Rightarrow> kstate" where
  "set_list_next e v s = s\<lparr>mem := store64 (mem s) (e + 16) v\<rparr>"

primrec list_last :: "nat \<Rightarrow> mem_t \<Rightarrow> uint64 \<Rightarrow> uint64 kres" where
  "list_last 0 m e = Inl OutOfFuel"
| "list_last (Suc n) m e = (if list_next m e \<noteq> NULL then list_last n m (list_next m e) else Inr e)"

definition list_push :: "klayout \<Rightarrow> uint64 \<Rightarrow> uint64 \<Rightarrow> kstate \<Rightarrow> kstate kres" where
  "list_push K l node s =
     ebind (list_last (loop_fuel K) (mem s) l) (\<lambda>last.
     ebind (kmalloc K sizeof_list_t s) (\<lambda>(new, s).
     let s = set_list_node new node s;
         s = set_list_prev new last s;
         s = set_list_next new NULL s
     in Inr (set_list_next last new s)))"

definition list_unlink :: "uint64 \<Rightarrow> kstate \<Rightarrow> kstate" where
  "list_unlink entry s =
     (let s = (if list_prev (mem s) entry \<noteq> NULL
               then set_list_next (list_prev (mem s) entry) (list_next (mem s) entry) s else s)
      in if list_next (mem s) entry \<noteq> NULL
         then set_list_prev (list_next (mem s) entry) (list_prev (mem s) entry) s else s)"

primrec list_remove_from :: "nat \<Rightarrow> klayout \<Rightarrow> uint64 \<Rightarrow> uint64 \<Rightarrow> kstate \<Rightarrow> kstate kres" where
  "list_remove_from 0 K entry node s = Inl OutOfFuel"
| "list_remove_from (Suc n) K entry node s =
     (if entry = NULL then Inr s
      else if list_node (mem s) entry = node then kmfree K entry (list_unlink entry s)
      else list_remove_from n K (list_next (mem s) entry) node s)"

definition list_remove :: "klayout \<Rightarrow> uint64 \<Rightarrow> uint64 \<Rightarrow> kstate \<Rightarrow> kstate kres" where
  "list_remove K l node s = list_remove_from (loop_fuel K) K l node s"

end
