(* ===== verification/Inode.thy ===== *)
theory Inode
  imports KList
begin

text \<open>
  In-core inodes, \<^verbatim>\<open>fs/inode.c\<close>: a reference-counted list keyed by the inode number.
\<close>

definition sizeof_inode_t :: uint64 where "sizeof_inode_t = 24"

definition inode_id :: "mem_t \<Rightarrow> uint64 \<Rightarrow> uint64" where "inode_id m ip = load64 m ip"
definition inode_size :: "mem_t \<Rightarrow> uint64 \<Rightarrow> uint64" where "inode_size m ip = load64 m (ip + 8)"
definition inode_refcnt :: "mem_t \<Rightarrow> uint64 \<Rightarrow> uint16" where "inode_refcnt m ip = load16 m (ip + 16)"

definition set_inode_id :: "uint64 \<Rightarrow> uint64 \<Rightarrow> kstate \<Rightarrow> kstate" where
  "set_inode_id ip v s = s\<lparr>mem := store64 (mem s) ip v\<rparr>"

definition set_inode_size :: "uint64 \<Rightarrow> uint64 \<Rightarrow> kstate \<Rightarrow> kstate" where
  "set_inode_size ip v s = s\<lparr>mem := store64 (mem s) (ip + 8) v\<rparr>"

definition set_inode_refcnt :: "uint64 \<Rightarrow> uint16 \<Rightarrow> kstate \<Rightarrow> kstate" where
  "set_inode_refcnt ip v s = s\<lparr>mem := store16 (mem s) (ip + 16) v\<rparr>"

text \<open>
  The search starts at the list head itself, whose element is \<open>NULL\<close>: the first inode number
  compared is the one at address 0.
\<close>

primrec inode_find :: "nat \<Rightarrow> mem_t \<Rightarrow> uint64 \<Rightarrow> uint64 \<Rightarrow> uint64 option kres" where
  "inode_find 0 m p ino = Inl OutOfFuel"
| "inode_find (Suc n) m p ino =
     (if p = NULL then Inr None
      else if inode_id m (list_node m p) = ino then Inr (Some (list_node m p))
      else inode_find n m (list_next m p) ino)"

definition ialloc :: "klayout \<Rightarrow> uint64 \<Rightarrow> kstate \<Rightarrow> (uint64 \<times> kstate) kres" where
  "ialloc K ino s =
     ebind (inode_find (loop_fuel K) (mem s) (inode_list_at K) ino) (\<lambda>r.
     case r of
       Some ip \<Rightarrow> Inr (ip, set_inode_refcnt ip (inode_refcnt (mem s) ip + 1) s)
     | None \<Rightarrow>
         ebind (kmalloc K sizeof_inode_t s) (\<lambda>(ip, s).
         let s = set_inode_id ip ino s;
             s = set_inode_size ip 0 s;
             s = set_inode_refcnt ip 1 s
         in ebind (list_push K (inode_list_at K) ip s) (\<lambda>s. Inr (ip, s))))"

definition ifree :: "klayout \<Rightarrow> uint64 \<Rightarrow> kstate \<Rightarrow> kstate kres" where
  "ifree K ip s =
     (if inode_refcnt (mem s) ip > 2 then
        Inr (set_inode_refcnt ip (inode_refcnt (mem s) ip - 1) s)
      else
        ebind (list_remove K (inode_list_at K) ip s) (\<lambda>s. kmfree K ip s))"

end
