(* ===== verification/Pages.thy ===== *)
theory Pages
  imports PhysMem
begin

text \<open>
  What the users of single pages rely on besides the contract of \<^verbatim>\<open>pmalloc\<close>: pages lie on page
  boundaries, and a number of pages is left that every request lowers by one.
\<close>

definition pm_pages :: "pm_abs \<Rightarrow> nat" where
  "pm_pages A = length (A ! 0) + 128 * length (A ! 1) + 16384 * length (A ! 2)"

definition pm_aligned :: "pm_abs \<Rightarrow> bool" where
  "pm_aligned A \<longleftrightarrow> (\<forall>i<3. \<forall>a \<in> set (A ! i). 4096 dvd unat a)"

lemma aligned_add:
  fixes b :: uint64
  assumes "4096 dvd unat b" and "4096 dvd n"
  shows "4096 dvd unat (b + of_nat n)"
proof -
  have "(4096 :: nat) dvd 2 ^ LENGTH(64)" by simp
  then have "4096 dvd unat (of_nat n :: uint64)" using assms(2) by (simp add: unat_of_nat dvd_mod)
  with assms(1) have "4096 dvd (unat b + unat (of_nat n :: uint64))" by (rule dvd_add)
  with \<open>4096 dvd 2 ^ LENGTH(64)\<close> show ?thesis by (simp only: unat_word_ariths dvd_mod)
qed

lemma pm_take_none: "pm_take i A = None \<longleftrightarrow> (\<forall>j. i \<le> j \<and> j \<le> max i 2 \<longrightarrow> A ! j = [])"
proof (induction i A rule: pm_take.induct)
  case (1 i A)
  show ?case
  proof (cases "A ! i")
    case Nil
    show ?thesis
    proof (cases "2 \<le> i")
      case True
      with Nil show ?thesis by (auto simp: pm_take.simps [of i A] max_def le_less_Suc_eq)
    next
      case False
      have "(\<forall>j. i \<le> j \<and> j \<le> max i 2 \<longrightarrow> A ! j = []) \<longleftrightarrow>
          (\<forall>j. Suc i \<le> j \<and> j \<le> max (Suc i) 2 \<longrightarrow> A ! j = [])"
        using Nil False by (metis Suc_leI le_less max.absorb2 max_def not_less_eq_eq nat_le_linear)
      with "1.IH" [OF Nil False] Nil False show ?thesis
        by (auto simp: pm_take.simps [of i A] split: option.splits)
    qed
  qed (auto simp: pm_take.simps [of i A])
qed

lemma pm_take_aligned:
  assumes "pm_take i A = Some (a, A')" and "pm_aligned A" and "i < 3" and "length A = 3"
  shows "4096 dvd unat a \<and> pm_aligned A' \<and> length A' = 3"
  using assms
proof (induction i A arbitrary: a A' rule: pm_take.induct)
  case (1 i A)
  show ?case
  proof (cases "A ! i")
    case (Cons b bs)
    with "1.prems" show ?thesis
      by (auto simp: pm_take.simps [of i A] pm_aligned_def split: if_splits)
  next
    case Nil
    with "1.prems" obtain A1 where r: "\<not> 2 \<le> i" "pm_take (Suc i) A = Some (a, A1)"
      "A' = A1[i := map (\<lambda>k. a + of_nat (k * pm_sz i)) [1..<128]]"
      by (auto simp: pm_take.simps [of i A] split: if_splits option.splits)
    with "1.IH" [OF Nil r(1,2)] "1.prems" have IH: "4096 dvd unat a" "pm_aligned A1" "length A1 = 3"
      by auto
    have "4096 dvd pm_sz i" using \<open>i < 3\<close> by (rule pm_idx_cases) simp_all
    then have "4096 dvd k * pm_sz i" for k by (rule dvd_mult)
    then have "4096 dvd unat (a + of_nat (k * pm_sz i))" for k by (rule aligned_add [OF IH(1)])
    with IH r(3) \<open>i < 3\<close> show ?thesis by (auto simp: pm_aligned_def split: if_splits)
  qed
qed

lemma pm_take_pages:
  assumes "pm_take 0 A = Some (a, A')" and "length A = 3"
  shows "pm_pages A = Suc (pm_pages A')"
proof -
  have one: "A ! 1 = A ! Suc 0" by simp
  show ?thesis
    using assms
    by (auto simp: pm_pages_def pm_take.simps [of 0 A] pm_take.simps [of "Suc 0" A]
        pm_take.simps [of 2 A] numeral_2_eq_2 [symmetric] split: list.splits option.splits if_splits)
qed

text \<open>Every request for a page or a larger block lowers this number by at most one.\<close>

definition big_left :: "pm_abs \<Rightarrow> nat" where
  "big_left A = length (A ! 1) + 128 * length (A ! 2)"

lemma pm_take_big_left:
  assumes "pm_take n A = Some (a, A')" and "n < 2" and "length A = 3"
  shows "big_left A \<le> Suc (big_left A')"
proof -
  from assms(2) have "n = 0 \<or> n = 1" by linarith
  with assms show ?thesis
    by (auto simp: big_left_def pm_take.simps [of 0 A] pm_take.simps [of "Suc 0" A] pm_take.simps [of 2 A]
        numeral_2_eq_2 [symmetric] split: list.splits option.splits if_splits)
qed

text \<open>A run of requests for pages uses up at most one larger block for each page.\<close>

definition blocks_kept :: "pm_abs \<Rightarrow> pm_abs \<Rightarrow> bool" where
  "blocks_kept A A' \<longleftrightarrow> big_left A + pm_pages A' \<le> big_left A' + pm_pages A"

lemma blocks_kept_refl [simp]: "blocks_kept A A"
  by (simp add: blocks_kept_def)

lemma blocks_kept_trans: "blocks_kept A A1 \<Longrightarrow> blocks_kept A1 A2 \<Longrightarrow> blocks_kept A A2"
  by (simp add: blocks_kept_def)

text \<open>One page, with everything a caller is promised.\<close>

lemma page_grant:
  assumes rel: "pm_rel K s A" and al: "pm_aligned A" and left: "0 < pm_pages A"
  obtains a A' s' where "pmalloc K PM_4K s = Inr (a, s')" and "pm_granted K 4096 s A a A' s'"
    and "pm_aligned A'" and "4096 dvd unat a" and "pm_pages A = Suc (pm_pages A')" and "blocks_kept A A'"
proof -
  have len: "length A = 3" using rel by (simp add: pm_rel_def)
  have "pm_take 0 A \<noteq> None"
  proof
    assume "pm_take 0 A = None"
    then have "A ! 0 = []" "A ! 1 = []" "A ! 2 = []" by (simp_all add: pm_take_none)
    with left show False by (simp add: pm_pages_def)
  qed
  then obtain a A' where t: "pm_take 0 A = Some (a, A')" by auto
  have z: "(0 :: nat) < 3" by simp
  from pmalloc_take [OF rel z] t obtain s' where
    "pmalloc K PM_4K s = Inr (a, s')" "pm_granted K 4096 s A a A' s'" by (auto simp: pm_size_def)
  moreover have "blocks_kept A A'"
    using pm_take_big_left [OF t _ len] pm_take_pages [OF t len] by (simp add: blocks_kept_def)
  ultimately show thesis using that pm_take_aligned [OF t al z len] pm_take_pages [OF t len] by blast
qed

end
