(* ===== verification/VirtMem.thy ===== *)
theory VirtMem
  imports Pages
begin

text \<open>
  Page tables, \<^verbatim>\<open>arch/x86/vm.c\<close> with the macros of \<^verbatim>\<open>include/x86/mm.h\<close>.  The tables are
  arrays of 512 eight-byte entries in memory; a routine indexes them by nine bits of the
  virtual address per level.  The translation that the processor performs on the same
  tables is defined beside them as the reference.
\<close>

section \<open>arch/x86/vm.c\<close>

definition USER_ADDR_START :: uint64 where "USER_ADDR_START = 0x10000000000"

definition PML4_IDX :: "uint64 \<Rightarrow> uint64" where "PML4_IDX va = drop_bit 39 va AND 0x1FF"
definition PDPT_IDX :: "uint64 \<Rightarrow> uint64" where "PDPT_IDX va = drop_bit 30 va AND 0x1FF"
definition PD_IDX :: "uint64 \<Rightarrow> uint64" where "PD_IDX va = drop_bit 21 va AND 0x1FF"
definition PT_IDX :: "uint64 \<Rightarrow> uint64" where "PT_IDX va = drop_bit 12 va AND 0x1FF"

text \<open>The address of entry \<open>i\<close> of a table, and the table an entry points to.\<close>

definition pte_at :: "uint64 \<Rightarrow> uint64 \<Rightarrow> uint64" where
  "pte_at table i = table + 8 * i"

definition pte_table :: "pte_t \<Rightarrow> uint64" where
  "pte_table e = e AND NOT (BIT64_MASK 12)"

definition set_pte :: "uint64 \<Rightarrow> pte_t \<Rightarrow> kstate \<Rightarrow> kstate" where
  "set_pte p e s = s\<lparr>mem := store64 (mem s) p e\<rparr>"

text \<open>
  One level of \<^verbatim>\<open>walk_pgdir\<close>: the entry at \<open>p\<close> is left alone when it is present; otherwise the
  walk fails, or fills it with a fresh page and the flags given.
\<close>

definition walk_level :: "klayout \<Rightarrow> bool \<Rightarrow> uint64 \<Rightarrow> uint64 \<Rightarrow> kstate \<Rightarrow> (bool \<times> kstate) kres" where
  "walk_level K create p flag s =
     (if load64 (mem s) p AND PG_P = 0 then
        (if \<not> create then Inr (False, s)
         else ebind (pmalloc K PM_4K s) (\<lambda>(page, s). Inr (True, set_pte p (page OR flag) s)))
      else Inr (True, s))"

definition walk_pgdir :: "klayout \<Rightarrow> uint64 \<Rightarrow> bool \<Rightarrow> bool \<Rightarrow> kstate \<Rightarrow> (uint64 \<times> kstate) kres" where
  "walk_pgdir K va create large s =
     (let flag = PG_P OR PG_RW;
          flag = (if va \<ge> USER_ADDR_START then flag OR PG_US else flag);
          pml4e = pte_at (ROUNDDOWN (pgdir s) (KiB 4)) (PML4_IDX va)
      in
      ebind (walk_level K create pml4e flag s) (\<lambda>(ok, s).
      if \<not> ok then Inr (NULL, s)
      else
        let pdpte = pte_at (pte_table (load64 (mem s) pml4e)) (PDPT_IDX va) in
        ebind (walk_level K create pdpte flag s) (\<lambda>(ok, s).
        if \<not> ok then Inr (NULL, s)
        else
          let pde = pte_at (pte_table (load64 (mem s) pdpte)) (PD_IDX va) in
          ebind
            (if load64 (mem s) pde AND PG_P = 0 then
               (if \<not> create then Inr (False, s)
                else if large then
                  (if va < USER_ADDR_START then
                     Inr (True, set_pte pde (ROUNDDOWN va (MiB 2) OR flag OR PG_PS) s)
                   else
                     ebind (pmalloc K PM_4K s) (\<lambda>(page, s).
                     Inr (True, set_pte pde (page OR flag OR PG_PS) s)))
                else
                  ebind (pmalloc K PM_4K s) (\<lambda>(page, s).
                  Inr (True, set_pte pde (page OR flag) s)))
             else Inr (True, s)) (\<lambda>(ok, s).
          if \<not> ok then Inr (NULL, s)
          else if load64 (mem s) pde AND PG_PS \<noteq> 0 then Inr (pde, s)
          else
            let pte = pte_at (pte_table (load64 (mem s) pde)) (PT_IDX va) in
            ebind
              (if load64 (mem s) pte AND PG_P = 0 then
                 (if \<not> create then Inr (False, s)
                  else if va < USER_ADDR_START then
                    Inr (True, set_pte pte (ROUNDDOWN va (KiB 4) OR flag) s)
                  else
                    ebind (pmalloc K PM_4K s) (\<lambda>(page, s).
                    Inr (True, set_pte pte (page OR flag) s)))
               else Inr (True, s)) (\<lambda>(ok, s).
            if \<not> ok then Inr (NULL, s) else Inr (pte, s))))))"

definition setflag :: "uint64 \<Rightarrow> uint64 \<Rightarrow> kstate \<Rightarrow> kstate" where
  "setflag pte flag s = set_pte pte (load64 (mem s) pte OR flag) s"

primrec vm_map_loop :: "klayout \<Rightarrow> uint64 list \<Rightarrow> kstate \<Rightarrow> kstate kres" where
  "vm_map_loop K [] s = Inr s"
| "vm_map_loop K (va # vas) s =
     ebind (walk_pgdir K va True True s) (\<lambda>(r, s).
     if r = NULL then Inl (Panic ''vm_init: create page failed %x\<newline>'')
     else vm_map_loop K vas s)"

text \<open>The loop runs over the multiples of 2 MiB below 4 GiB.\<close>

definition vm_init :: "klayout \<Rightarrow> kstate \<Rightarrow> kstate kres" where
  "vm_init K s =
     ebind (pmalloc K PM_4K s) (\<lambda>(page, s).
     ebind (vm_map_loop K (map (\<lambda>i. of_nat i * MiB 2) [0..<unat (GiB 4 div MiB 2)])
              (s\<lparr>pgdir := page\<rparr>)) (\<lambda>s.
     ebind (kprintf K ''[vm] Mapped 0 - %d MiB\<newline>'' [GiB 4 div MiB 1] s) (\<lambda>s.
     Inr (s\<lparr>cr3 := pgdir s\<rparr>))))"

text \<open>The field \<^verbatim>\<open>upml4\<close> of \<^verbatim>\<open>proc_t\<close> is at offset 40.\<close>

definition proc_upml4 :: "mem_t \<Rightarrow> uint64 \<Rightarrow> pte_t" where
  "proc_upml4 m p = load64 m (p + 40)"

definition set_proc_upml4 :: "uint64 \<Rightarrow> pte_t \<Rightarrow> kstate \<Rightarrow> kstate" where
  "set_proc_upml4 p v s = s\<lparr>mem := store64 (mem s) (p + 40) v\<rparr>"

definition switch_uvm :: "uint64 \<Rightarrow> kstate \<Rightarrow> kstate" where
  "switch_uvm proc s =
     set_pte (pte_at (ROUNDDOWN (pgdir s) (KiB 4)) (PML4_IDX USER_ADDR_START))
       (proc_upml4 (mem s) proc) s"

text \<open>A loop over the present entries of a table.\<close>

primrec free_entries ::
    "(pte_t \<Rightarrow> kstate \<Rightarrow> kstate kres) \<Rightarrow> uint64 \<Rightarrow> nat list \<Rightarrow> kstate \<Rightarrow> kstate kres" where
  "free_entries body table [] s = Inr s"
| "free_entries body table (i # is) s =
     (let e = load64 (mem s) (pte_at table (of_nat i)) in
      ebind (if e AND PG_P \<noteq> 0 then body e s else Inr s) (\<lambda>s. free_entries body table is s))"

definition free_pt :: "klayout \<Rightarrow> pte_t \<Rightarrow> kstate \<Rightarrow> kstate kres" where
  "free_pt K e s =
     ebind (free_entries (\<lambda>e s. pmfree K (pte_table e) PM_4K s) (pte_table e) [0..<512] s) (\<lambda>s.
     pmfree K (pte_table e) PM_4K s)"

definition free_pd :: "klayout \<Rightarrow> pte_t \<Rightarrow> kstate \<Rightarrow> kstate kres" where
  "free_pd K e s =
     ebind (free_entries (free_pt K) (pte_table e) [0..<512] s) (\<lambda>s.
     pmfree K (pte_table e) PM_4K s)"

definition free_uvm :: "klayout \<Rightarrow> uint64 \<Rightarrow> kstate \<Rightarrow> kstate kres" where
  "free_uvm K proc s =
     (if proc_upml4 (mem s) proc AND PG_P = 0 then Inl (Panic ''free_uvm: pml4[2] not present\<newline>'')
      else
        let pdpt = pte_table (proc_upml4 (mem s) proc) in
        ebind (free_entries (free_pd K) pdpt [0..<512] s) (\<lambda>s.
        ebind (pmfree K pdpt PM_4K s) (\<lambda>s.
        Inr (set_proc_upml4 proc 0 s))))"

section \<open>The processor's translation\<close>

text \<open>
  Four-level translation with 4 KiB and 2 MiB pages, as the processor performs it on the
  tables below the page-directory base (bits 12 and up of \<open>cr3\<close>; bits 51 to 12 of an
  entry give the next table or the page).
\<close>

definition pte_frame :: "pte_t \<Rightarrow> uint64" where
  "pte_frame e = e AND 0xFFFFFFFFFF000"

definition translate :: "mem_t \<Rightarrow> uint64 \<Rightarrow> uint64 \<Rightarrow> uint64 option" where
  "translate m base va =
     (let e4 = load64 m (pte_at (pte_frame base) (PML4_IDX va)) in
      if e4 AND PG_P = 0 then None
      else
        let e3 = load64 m (pte_at (pte_frame e4) (PDPT_IDX va)) in
        if e3 AND PG_P = 0 then None
        else
          let e2 = load64 m (pte_at (pte_frame e3) (PD_IDX va)) in
          if e2 AND PG_P = 0 then None
          else if e2 AND PG_PS \<noteq> 0 then Some (pte_frame e2 AND NOT 0x1FFFFF OR va AND 0x1FFFFF)
          else
            let e1 = load64 m (pte_at (pte_frame e2) (PT_IDX va)) in
            if e1 AND PG_P = 0 then None
            else Some (pte_frame e1 OR va AND 0xFFF))"

section \<open>Accesses that may fault\<close>

text \<open>
  The kernel's own addresses are mapped to themselves, so kernel code accesses them directly.
  A pointer that may lie in the user half goes through the tables; when the page is missing
  the processor records the address in \<open>cr2\<close> and raises the exception that the \<open>X86_EX_PF\<close> case
  of \<^verbatim>\<open>trap\<close> handles, then repeats the access.  An access that still faults would repeat for
  ever.
\<close>

definition page_fault :: "klayout \<Rightarrow> kstate \<Rightarrow> kstate kres" where
  "page_fault K s =
     ebind (kprintf K ''#PF: CR2 = %x\<newline>'' [cr2 s] s) (\<lambda>s.
     ebind (walk_pgdir K (cr2 s) True False s) (\<lambda>(r, s).
     if r = NULL then Inl (Panic ''walk_pgdir failed\<newline>'') else Inr s))"

definition user_addr :: "klayout \<Rightarrow> uint64 \<Rightarrow> kstate \<Rightarrow> (uint64 \<times> kstate) kres" where
  "user_addr K va s =
     (if va < USER_ADDR_START then Inr (va, s)
      else
        case translate (mem s) (cr3 s) va of
          Some pa \<Rightarrow> Inr (pa, s)
        | None \<Rightarrow>
            ebind (page_fault K (s\<lparr>cr2 := va\<rparr>)) (\<lambda>s.
            case translate (mem s) (cr3 s) va of
              Some pa \<Rightarrow> Inr (pa, s)
            | None \<Rightarrow> Inl Diverge))"

definition vload8 :: "klayout \<Rightarrow> uint64 \<Rightarrow> kstate \<Rightarrow> (uint8 \<times> kstate) kres" where
  "vload8 K va s = ebind (user_addr K va s) (\<lambda>(pa, s). Inr (load8 (mem s) pa, s))"

definition vstore8 :: "klayout \<Rightarrow> uint64 \<Rightarrow> uint8 \<Rightarrow> kstate \<Rightarrow> kstate kres" where
  "vstore8 K va v s =
     ebind (user_addr K va s) (\<lambda>(pa, s). Inr (s\<lparr>mem := store8 (mem s) pa v\<rparr>))"

text \<open>Printing a string that may lie in the user half, as the \<^verbatim>\<open>%s\<close> conversion does.\<close>

primrec vkprint_loop :: "nat \<Rightarrow> klayout \<Rightarrow> uint64 \<Rightarrow> kstate \<Rightarrow> kstate kres" where
  "vkprint_loop 0 K va s = Inl OutOfFuel"
| "vkprint_loop (Suc n) K va s =
     ebind (vload8 K va s) (\<lambda>(c, s).
     if c = 0 then Inr s
     else vkprint_loop n K (va + 1) (s\<lparr>console := console s @ [char_of (unat c)]\<rparr>))"

definition vkprint :: "klayout \<Rightarrow> uint64 \<Rightarrow> kstate \<Rightarrow> kstate kres" where
  "vkprint K va s =
     (if va = NULL then Inr (s\<lparr>console := console s @ ''(null)''\<rparr>)
      else vkprint_loop (loop_fuel K) K va s)"

text \<open>\<^verbatim>\<open>memcpy\<close> from a kernel buffer to a destination that may be a user address.\<close>

primrec vmemcpy :: "klayout \<Rightarrow> uint64 \<Rightarrow> uint64 \<Rightarrow> nat \<Rightarrow> kstate \<Rightarrow> kstate kres" where
  "vmemcpy K dst src 0 s = Inr s"
| "vmemcpy K dst src (Suc n) s =
     ebind (vstore8 K dst (load8 (mem s) src) s) (\<lambda>s. vmemcpy K (dst + 1) (src + 1) n s)"

end
