(* ===== verification/Fat16.thy ===== *)
theory Fat16
  imports Ide Inode VirtMem
begin

text \<open>
  The FAT16 file system, \<^verbatim>\<open>fs/fat16/\<close>.  The on-disk structures of \<^verbatim>\<open>include/fs/fat16.h\<close> are
  packed, so a member is a load at its byte offset in the buffer that the sector was read to.
\<close>

section \<open>On-disk structures\<close>

definition sizeof_FAT16_MBR :: uint64 where "sizeof_FAT16_MBR = 512"
definition sizeof_FAT16_BPB :: uint64 where "sizeof_FAT16_BPB = 512"
definition sizeof_FAT16_DIR_ENTRY :: uint64 where "sizeof_FAT16_DIR_ENTRY = 32"

text \<open>Entry \<open>i\<close> of the partition table.\<close>

definition mbr_table :: "uint64 \<Rightarrow> nat \<Rightarrow> uint64" where "mbr_table mbr i = mbr + 446 + 16 * of_nat i"
definition mbr_boot :: "mem_t \<Rightarrow> uint64 \<Rightarrow> uint8" where "mbr_boot m t = load8 m t"
definition mbr_type :: "mem_t \<Rightarrow> uint64 \<Rightarrow> uint8" where "mbr_type m t = load8 m (t + 4)"
definition mbr_bpb_begin :: "mem_t \<Rightarrow> uint64 \<Rightarrow> uint32" where "mbr_bpb_begin m t = load32 m (t + 8)"
definition mbr_sectors :: "mem_t \<Rightarrow> uint64 \<Rightarrow> uint32" where "mbr_sectors m t = load32 m (t + 12)"
definition mbr_bootsig :: "mem_t \<Rightarrow> uint64 \<Rightarrow> uint16" where "mbr_bootsig m mbr = load16 m (mbr + 510)"

definition bpb_bytes_per_sector :: "mem_t \<Rightarrow> uint64 \<Rightarrow> uint16" where
  "bpb_bytes_per_sector m b = load16 m (b + 11)"
definition bpb_sectors_per_cluster :: "mem_t \<Rightarrow> uint64 \<Rightarrow> uint8" where
  "bpb_sectors_per_cluster m b = load8 m (b + 13)"
definition bpb_reserved_sectors :: "mem_t \<Rightarrow> uint64 \<Rightarrow> uint16" where
  "bpb_reserved_sectors m b = load16 m (b + 14)"
definition bpb_fats :: "mem_t \<Rightarrow> uint64 \<Rightarrow> uint8" where "bpb_fats m b = load8 m (b + 16)"
definition bpb_root_entries :: "mem_t \<Rightarrow> uint64 \<Rightarrow> uint16" where
  "bpb_root_entries m b = load16 m (b + 17)"
definition bpb_sectors :: "mem_t \<Rightarrow> uint64 \<Rightarrow> uint16" where "bpb_sectors m b = load16 m (b + 19)"
definition bpb_sectors_per_fat :: "mem_t \<Rightarrow> uint64 \<Rightarrow> uint16" where
  "bpb_sectors_per_fat m b = load16 m (b + 22)"
definition bpb_signature :: "mem_t \<Rightarrow> uint64 \<Rightarrow> uint8" where "bpb_signature m b = load8 m (b + 38)"

text \<open>The address of entry \<open>i\<close> of a directory, and the members of an entry.\<close>

definition dir_at :: "uint64 \<Rightarrow> nat \<Rightarrow> uint64" where "dir_at dir i = dir + 32 * of_nat i"
definition dir_attr :: "mem_t \<Rightarrow> uint64 \<Rightarrow> uint8" where "dir_attr m d = load8 m (d + 11)"
definition dir_ctime_ms :: "mem_t \<Rightarrow> uint64 \<Rightarrow> uint8" where "dir_ctime_ms m d = load8 m (d + 13)"
definition dir_ctime :: "mem_t \<Rightarrow> uint64 \<Rightarrow> uint16" where "dir_ctime m d = load16 m (d + 14)"
definition dir_cdate :: "mem_t \<Rightarrow> uint64 \<Rightarrow> uint16" where "dir_cdate m d = load16 m (d + 16)"
definition dir_adate :: "mem_t \<Rightarrow> uint64 \<Rightarrow> uint16" where "dir_adate m d = load16 m (d + 18)"
definition dir_mtime :: "mem_t \<Rightarrow> uint64 \<Rightarrow> uint16" where "dir_mtime m d = load16 m (d + 22)"
definition dir_mdate :: "mem_t \<Rightarrow> uint64 \<Rightarrow> uint16" where "dir_mdate m d = load16 m (d + 24)"
definition dir_cluster :: "mem_t \<Rightarrow> uint64 \<Rightarrow> uint16" where "dir_cluster m d = load16 m (d + 26)"
definition dir_size :: "mem_t \<Rightarrow> uint64 \<Rightarrow> uint32" where "dir_size m d = load32 m (d + 28)"

section \<open>dump.c\<close>

abbreviation byte_arg :: "uint8 \<Rightarrow> uint64" where "byte_arg v \<equiv> ucast v"
abbreviation half_arg :: "uint16 \<Rightarrow> uint64" where "half_arg v \<equiv> ucast v"
abbreviation word_arg :: "uint32 \<Rightarrow> uint64" where "word_arg v \<equiv> ucast v"

primrec dump_mbr_loop :: "klayout \<Rightarrow> uint64 \<Rightarrow> nat list \<Rightarrow> kstate \<Rightarrow> kstate kres" where
  "dump_mbr_loop K mbr [] s = Inr s"
| "dump_mbr_loop K mbr (i # is) s =
     (let t = mbr_table mbr i; m = mem s in
      if mbr_type m t = 0 then dump_mbr_loop K mbr is s
      else
        ebind (kprintfs K
          [(''  Partition %d:\<newline>'', [of_nat i]),
           (''    Bootable: %x\<newline>'', [byte_arg (mbr_boot m t)]),
           (''    CHS Begin: %x %x %x\<newline>'',
              [byte_arg (load8 m (t + 1)), byte_arg (load8 m (t + 2)), byte_arg (load8 m (t + 3))]),
           (''    Type: %x\<newline>'', [byte_arg (mbr_type m t)]),
           (''    CHS End: %x %x %x\<newline>'',
              [byte_arg (load8 m (t + 5)), byte_arg (load8 m (t + 6)), byte_arg (load8 m (t + 7))]),
           (''    BPB Begin: %x\<newline>'', [word_arg (mbr_bpb_begin m t)]),
           (''    Sectors: %x\<newline>'', [word_arg (mbr_sectors m t)])] s) (\<lambda>s.
        dump_mbr_loop K mbr is s))"

definition fat16_dump_mbr :: "klayout \<Rightarrow> uint64 \<Rightarrow> kstate \<Rightarrow> kstate kres" where
  "fat16_dump_mbr K mbr s =
     ebind (kprintf K ''FAT16 MBR:\<newline>'' [] s) (\<lambda>s. dump_mbr_loop K mbr [0..<4] s)"

definition fat16_dump_bpb :: "klayout \<Rightarrow> uint64 \<Rightarrow> kstate \<Rightarrow> kstate kres" where
  "fat16_dump_bpb K b s =
     (let m = mem s in
      kprintfs K
        [(''FAT16 BPB:\<newline>'', []),
         (''  JMP: %x %x %x\<newline>'',
            [byte_arg (load8 m b), byte_arg (load8 m (b + 1)), byte_arg (load8 m (b + 2))]),
         (''  OEM: %s\<newline>'', [b + 3]),
         (''  Bytes per sector: %x\<newline>'', [half_arg (bpb_bytes_per_sector m b)]),
         (''  Sectors per cluster: %x\<newline>'', [byte_arg (bpb_sectors_per_cluster m b)]),
         (''  Reserved sectors: %x\<newline>'', [half_arg (bpb_reserved_sectors m b)]),
         (''  FATS: %x\<newline>'', [byte_arg (bpb_fats m b)]),
         (''  Root entries: %x\<newline>'', [half_arg (bpb_root_entries m b)]),
         (''  Sectors: %x\<newline>'', [half_arg (bpb_sectors m b)]),
         (''  Media: %x\<newline>'', [byte_arg (load8 m (b + 21))]),
         (''  Sectors per FAT: %x\<newline>'', [half_arg (bpb_sectors_per_fat m b)]),
         (''  Sectors per track: %x\<newline>'', [half_arg (load16 m (b + 24))]),
         (''  Heads: %x\<newline>'', [half_arg (load16 m (b + 26))]),
         (''  Hidden sectors: %x\<newline>'', [word_arg (load32 m (b + 28))]),
         (''  Large sectors: %x\<newline>'', [word_arg (load32 m (b + 32))]),
         (''  Drive number: %x\<newline>'', [byte_arg (load8 m (b + 36))]),
         (''  Signature: %x\<newline>'', [byte_arg (bpb_signature m b)]),
         (''  Volume ID: %x\<newline>'', [word_arg (load32 m (b + 39))]),
         (''  Volume label: %s\<newline>'', [b + 43]),
         (''  Filesystem type: %s\<newline>'', [b + 54])] s)"

text \<open>The date and time fields of a directory entry, at the widths of the local variables.\<close>

definition fat_year :: "uint16 \<Rightarrow> uint16" where
  "fat_year d = drop_bit 9 (d AND 0xFE00) + 1980"
definition fat_month :: "uint16 \<Rightarrow> uint8" where
  "fat_month d = ucast (drop_bit 5 (d AND 0x01E0))"
definition fat_day :: "uint16 \<Rightarrow> uint8" where
  "fat_day d = ucast (d AND 0x001F)"
definition fat_hour :: "uint16 \<Rightarrow> uint8" where
  "fat_hour t = ucast (drop_bit 11 (t AND 0xF800))"
definition fat_minute :: "uint16 \<Rightarrow> uint8" where
  "fat_minute t = ucast (drop_bit 5 (t AND 0x07E0))"
definition fat_second :: "uint16 \<Rightarrow> uint8" where
  "fat_second t = ucast ((t AND 0x001F) * 2)"
definition fat_second_ms :: "uint16 \<Rightarrow> uint8 \<Rightarrow> uint8" where
  "fat_second_ms t ms = ucast ((t AND 0x001F) * 2 + ucast ms div 100)"

text \<open>A long-name entry: thirteen of its characters, cut to a byte each, go to a local buffer.\<close>

definition lfn_chars :: "mem_t \<Rightarrow> uint64 \<Rightarrow> uint8 list" where
  "lfn_chars m d =
     map (\<lambda>j. ucast (load16 m (d + 1 + 2 * of_nat j))) [0..<5] @
     map (\<lambda>j. ucast (load16 m (d + 14 + 2 * of_nat j))) [0..<6] @
     map (\<lambda>j. ucast (load16 m (d + 28 + 2 * of_nat j))) [0..<2]"

definition dump_lfn :: "klayout \<Rightarrow> uint64 \<Rightarrow> kstate \<Rightarrow> kstate kres" where
  "dump_lfn K d s =
     (let filename = local_at K ''filename'';
          s = s\<lparr>mem := store_bytes (mem s) filename (lfn_chars (mem s) d @ [0])\<rparr>
      in kprintfs K
        [(''  LFN: %x\<newline>'', [byte_arg (load8 (mem s) d)]),
         (''    filename: %s\<newline>'', [filename]),
         (''    attr: %x\<newline>'', [byte_arg (dir_attr (mem s) d)]),
         (''    checksum: %x\<newline>'', [byte_arg (load8 (mem s) (d + 13))])] s)"

definition dump_attr :: "uint8 \<Rightarrow> uint8 \<Rightarrow> string \<Rightarrow> (string \<times> uint64 list) list" where
  "dump_attr attr bit_mask name = (if attr AND bit_mask \<noteq> 0 then [(name, [])] else [])"

definition dump_entry :: "klayout \<Rightarrow> uint64 \<Rightarrow> kstate \<Rightarrow> kstate kres" where
  "dump_entry K d s =
     (let filename = local_at K ''filename'';
          s = s\<lparr>mem := memcpy (mem s) filename d 11\<rparr>;
          s = s\<lparr>mem := store8 (mem s) (filename + 11) 0\<rparr>;
          m = mem s; attr = dir_attr m d;
          cdate = dir_cdate m d; ctime = dir_ctime m d;
          mdate = dir_mdate m d; mtime = dir_mtime m d; adate = dir_adate m d
      in kprintfs K
        ([(''  %s\<newline>'', [filename]), (''    FileType: '', [])] @
         dump_attr attr 0x01 ''Read-only '' @ dump_attr attr 0x02 ''Hidden '' @
         dump_attr attr 0x04 ''System '' @ dump_attr attr 0x08 ''VolumeID '' @
         dump_attr attr 0x10 ''Directory '' @ dump_attr attr 0x20 ''Archive '' @
         [(''(%x) \<newline>'', [byte_arg attr]),
          (''    Cluster: %x\<newline>'', [half_arg (dir_cluster m d)]),
          (''    Size: %d\<newline>'', [word_arg (dir_size m d)]),
          (''    Create DateTime: %d-%d-%d %d:%d:%d\<newline>'',
             [half_arg (fat_year cdate), byte_arg (fat_month cdate), byte_arg (fat_day cdate),
              byte_arg (fat_hour ctime), byte_arg (fat_minute ctime),
              byte_arg (fat_second_ms ctime (dir_ctime_ms m d))]),
          (''    Last Modify DateTime: %d-%d-%d %d:%d:%d\<newline>'',
             [half_arg (fat_year mdate), byte_arg (fat_month mdate), byte_arg (fat_day mdate),
              byte_arg (fat_hour mtime), byte_arg (fat_minute mtime), byte_arg (fat_second mtime)]),
          (''    Last Access Date: %d-%d-%d\<newline>'',
             [half_arg (fat_year adate), byte_arg (fat_month adate), byte_arg (fat_day adate)])]) s)"

primrec dump_dir_loop :: "klayout \<Rightarrow> uint64 \<Rightarrow> nat list \<Rightarrow> kstate \<Rightarrow> kstate kres" where
  "dump_dir_loop K dir [] s = Inr s"
| "dump_dir_loop K dir (i # is) s =
     (let d = dir_at dir i in
      if load8 (mem s) d = 0 then Inr s
      else
        ebind (if dir_attr (mem s) d = 0x0F then dump_lfn K d s else dump_entry K d s) (\<lambda>s.
        dump_dir_loop K dir is s))"

definition fat16_dump_dir :: "klayout \<Rightarrow> uint64 \<Rightarrow> uint32 \<Rightarrow> kstate \<Rightarrow> kstate kres" where
  "fat16_dump_dir K dir entries s = dump_dir_loop K dir [0..<unat entries] s"

section \<open>init.c\<close>

text \<open>
  The members of \<^verbatim>\<open>fat16\<close> are 16 bits wide (\<^verbatim>\<open>partition0_size\<close> 32), so every assignment
  truncates; the products and sums are formed in 32-bit \<^verbatim>\<open>int\<close> and \<^verbatim>\<open>uint32\<close>, which is exact
  before the truncation, and the size of the root directory in 64 bits.
\<close>

definition fat16_layout :: "mem_t \<Rightarrow> uint64 \<Rightarrow> uint64 \<Rightarrow> FAT16 \<Rightarrow> FAT16" where
  "fat16_layout m mbr b f =
     (let bps = bpb_bytes_per_sector m b;
          f = f\<lparr>sector_size := bps\<rparr>;
          f = f\<lparr>cluster_size := bps * ucast (bpb_sectors_per_cluster m b)\<rparr>;
          f = f\<lparr>fat_size := bps * bpb_sectors_per_fat m b\<rparr>;
          f = f\<lparr>partition0_size := mbr_sectors m (mbr_table mbr 0) * ucast bps\<rparr>;
          f = f\<lparr>sector_per_cluster := ucast (bpb_sectors_per_cluster m b)\<rparr>;
          f = f\<lparr>sector_per_fat := bpb_sectors_per_fat m b\<rparr>;
          f = f\<lparr>sector_per_partition0 := bpb_sectors m b\<rparr>;
          f = f\<lparr>fat_entry := bpb_entry f + bpb_reserved_sectors m b\<rparr>;
          f = f\<lparr>root_entries := bpb_root_entries m b\<rparr>;
          f = f\<lparr>rootdir_entry := fat_entry f + bpb_sectors_per_fat m b * ucast (bpb_fats m b)\<rparr>
      in f\<lparr>data_entry :=
           ucast (ucast (rootdir_entry f) +
             sizeof_FAT16_DIR_ENTRY * half_arg (bpb_root_entries m b) div half_arg bps)\<rparr>)"

definition mbr_valid :: "mem_t \<Rightarrow> uint64 \<Rightarrow> bool" where
  "mbr_valid m mbr \<longleftrightarrow>
     \<not> (mbr_bootsig m mbr \<noteq> 0xAA55 \<or> mbr_boot m (mbr_table mbr 0) \<noteq> 0x80 \<or>
        (mbr_type m (mbr_table mbr 0) \<noteq> 0x04 \<and> mbr_type m (mbr_table mbr 0) \<noteq> 0x06))"

definition bpb_valid :: "mem_t \<Rightarrow> uint64 \<Rightarrow> bool" where
  "bpb_valid m b \<longleftrightarrow>
     \<not> (bpb_bytes_per_sector m b \<noteq> 512 \<or> bpb_fats m b \<noteq> 2 \<or>
        (bpb_signature m b \<noteq> 0x28 \<and> bpb_signature m b \<noteq> 0x29))"

definition fat16_init :: "klayout \<Rightarrow> kstate \<Rightarrow> kstate kres" where
  "fat16_init K s =
     ebind (kmalloc K sizeof_FAT16_MBR s) (\<lambda>(mbr, s).
     ebind (ide_read K 0 mbr s) (\<lambda>s.
     ebind (fat16_dump_mbr K mbr s) (\<lambda>s.
     if \<not> mbr_valid (mem s) mbr then Inl (Panic ''FAT16: Invalid MBR\<newline>'')
     else
       let s = s\<lparr>fat16 := (fat16 s)\<lparr>bpb_entry := ucast (mbr_bpb_begin (mem s) (mbr_table mbr 0))\<rparr>\<rparr> in
       ebind (kprintf K ''[fs] FAT16 Partition0 found\<newline>'' [] s) (\<lambda>s.
       ebind (kmalloc K sizeof_FAT16_BPB s) (\<lambda>(bpb, s).
       ebind (ide_read K (ucast (bpb_entry (fat16 s))) bpb s) (\<lambda>s.
       ebind (fat16_dump_bpb K bpb s) (\<lambda>s.
       if \<not> bpb_valid (mem s) bpb then Inl (Panic ''FAT16: Invalid BPB\<newline>'')
       else
         let f = fat16_layout (mem s) mbr bpb (fat16 s);
             s = s\<lparr>fat16 := f\<rparr>
         in
         ebind (kprintfs K
           [(''[fs] Partition Size: %d KiB\<newline>'', [word_arg (partition0_size f) div KiB 1]),
            (''[fs] Cluster Size: %d KiB\<newline>'', [half_arg (cluster_size f) div KiB 1]),
            (''[fs] FAT Size: %d KiB\<newline>'', [half_arg (fat_size f) div KiB 1]),
            (''[fs] Volume Label: %s\<newline>'', [bpb + 43])] s) (\<lambda>s.
         ebind (kmfree K mbr s) (\<lambda>s.
         kmfree K bpb s)))))))))"

section \<open>common.c\<close>

definition fat16_read_rootdir :: "klayout \<Rightarrow> uint64 \<Rightarrow> kstate \<Rightarrow> kstate kres" where
  "fat16_read_rootdir K buf s =
     (let f = fat16 s in
      if sector_size f = 0 then Inl DivByZero
      else
        ide_read_seq K (ucast (rootdir_entry f)) buf
          (ucast (sizeof_FAT16_DIR_ENTRY * half_arg (root_entries f) div half_arg (sector_size f))) s)"

definition fat16_read_cluster :: "klayout \<Rightarrow> uint16 \<Rightarrow> uint64 \<Rightarrow> kstate \<Rightarrow> kstate kres" where
  "fat16_read_cluster K cluster buf s =
     (let f = fat16 s in
      ide_read_seq K (ucast (data_entry f) + (ucast cluster - 2) * ucast (sector_per_cluster f)) buf
        (ucast (sector_per_cluster f)) s)"

definition fat16_next_cluster :: "klayout \<Rightarrow> uint16 \<Rightarrow> kstate \<Rightarrow> (uint16 \<times> kstate) kres" where
  "fat16_next_cluster K cluster s =
     ebind (kmalloc K (half_arg (sector_size (fat16 s))) s) (\<lambda>(fat, s).
     let fat_entries = sector_size (fat16 s) div 2 in
     if fat_entries = 0 then Inl DivByZero
     else
       ebind (ide_read K (ucast (fat_entry (fat16 s)) + ucast (cluster div fat_entries)) fat s) (\<lambda>s.
       let nxt = load16 (mem s) (fat + 2 * ucast (cluster mod fat_entries)) in
       ebind (kmfree K fat s) (\<lambda>s. Inr (nxt, s))))"

text \<open>The copy of a directory entry's name in which blanks are terminators.\<close>

definition entry_name :: "mem_t \<Rightarrow> uint64 \<Rightarrow> uint8 list" where
  "entry_name m d =
     map (\<lambda>j. let c = load8 m (d + of_nat j) in if c = 0x20 then 0 else c) [0..<11] @ [0]"

primrec find_entry :: "klayout \<Rightarrow> uint64 \<Rightarrow> uint64 \<Rightarrow> nat list \<Rightarrow> kstate \<Rightarrow> (nat option \<times> kstate) kres" where
  "find_entry K filename dir [] s = Inr (None, s)"
| "find_entry K filename dir (i # is) s =
     (let d = dir_at dir i in
      if load8 (mem s) d = 0 then find_entry K filename dir is s
      else if dir_attr (mem s) d = 0x0F then find_entry K filename dir is s
      else
        let entry_filename = local_at K ''entry_filename'';
            s = s\<lparr>mem := store_bytes (mem s) entry_filename (entry_name (mem s) d)\<rparr>
        in
        ebind (strcmp (loop_fuel K) (mem s) filename entry_filename) (\<lambda>r.
        if r = 0 then Inr (Some i, s) else find_entry K filename dir is s))"

definition fat16_find_cluster ::
    "klayout \<Rightarrow> uint64 \<Rightarrow> uint16 \<Rightarrow> kstate \<Rightarrow> (uint64 \<times> kstate) kres" where
  "fat16_find_cluster K filename dir_clus s =
     ebind
       (if dir_clus = 0 then
          let entries = root_entries (fat16 s) in
          ebind (kmalloc K (sizeof_FAT16_DIR_ENTRY * half_arg entries) s) (\<lambda>(dir, s).
          ebind (fat16_read_rootdir K dir s) (\<lambda>s. Inr (entries, dir, s)))
        else
          let entries = cluster_size (fat16 s) div 32 in
          ebind (kmalloc K (half_arg (cluster_size (fat16 s))) s) (\<lambda>(dir, s).
          ebind (fat16_read_cluster K dir_clus dir s) (\<lambda>s. Inr (entries, dir, s)))) (\<lambda>(entries, dir, s).
     ebind (find_entry K filename dir [0..<unat entries] s) (\<lambda>(r, s).
     ebind (kmfree K dir s) (\<lambda>s.
     case r of
       Some i \<Rightarrow>
         Inr (half_arg (dir_cluster (mem s) (dir_at dir i)) OR
              push_bit 32 (word_arg (dir_size (mem s) (dir_at dir i))), s)
     | None \<Rightarrow> Inr (0, s))))"

section \<open>name.c\<close>

text \<open>
  Extraction of one path component: at most eleven characters are kept, the rest of the
  component is skipped.  The result is the index behind the component and the number of
  characters kept.
\<close>

primrec extract_name ::
    "nat \<Rightarrow> klayout \<Rightarrow> uint64 \<Rightarrow> nat \<Rightarrow> nat \<Rightarrow> kstate \<Rightarrow> (nat \<times> nat \<times> kstate) kres" where
  "extract_name 0 K path i j s = Inl OutOfFuel"
| "extract_name (Suc n) K path i j s =
     ebind (vload8 K (path + of_nat i) s) (\<lambda>(c, s).
     if c \<noteq> 0x2F \<and> c \<noteq> 0 then
       (if j < 11 then
          extract_name n K path (i + 1) (j + 1)
            (s\<lparr>mem := store8 (mem s) (local_at K ''filename'' + of_nat j) c\<rparr>)
        else extract_name n K path (i + 1) j s)
     else Inr (i, j, s))"

primrec namei_loop ::
    "nat \<Rightarrow> klayout \<Rightarrow> uint64 \<Rightarrow> nat \<Rightarrow> uint16 \<Rightarrow> kstate \<Rightarrow> (uint64 \<times> kstate) kres" where
  "namei_loop 0 K path i dir_clus s = Inl OutOfFuel"
| "namei_loop (Suc n) K path i dir_clus s =
     ebind (vload8 K (path + of_nat i) s) (\<lambda>(c, s).
     if c = 0 then Inr (NULL, s)
     else
       let filename = local_at K ''filename'' in
       ebind (extract_name (loop_fuel K) K path i 0 s) (\<lambda>(i, j, s).
       let s = s\<lparr>mem := store8 (mem s) (filename + of_nat j) 0\<rparr> in
       ebind (fat16_find_cluster K filename dir_clus s) (\<lambda>(tmp, s).
       let cluster = (ucast tmp :: uint16); sz = (ucast (drop_bit 32 tmp) :: uint32) in
       if cluster = 0 then Inr (NULL, s)
       else
         ebind (vload8 K (path + of_nat i) s) (\<lambda>(c, s).
         if c = 0x2F then
           ebind (vload8 K (path + of_nat (i + 1)) s) (\<lambda>(c, s).
           if c = 0 then
             ebind (kprintf K (''sys_spawn: path ends with '' @ [CHR 0x27, CHR 0x2F, CHR 0x27, CHR 0x0A]) [] s) (\<lambda>s. Inr (NULL, s))
           else
             namei_loop n K path (i + 1) cluster (s\<lparr>mem := memset (mem s) filename 0 12\<rparr>))
         else if c \<noteq> 0 then Inr (NULL, s)
         else
           ebind (ialloc K (half_arg cluster) s) (\<lambda>(ip, s).
           if ip = NULL then Inr (NULL, s)
           else Inr (ip, set_inode_size ip (word_arg sz) s))))))"

definition fat16_namei :: "klayout \<Rightarrow> uint64 \<Rightarrow> kstate \<Rightarrow> (uint64 \<times> kstate) kres" where
  "fat16_namei K path s =
     (let s = s\<lparr>mem := store_bytes (mem s) (local_at K ''filename'') (replicate 12 0)\<rparr> in
      ebind (vload8 K path s) (\<lambda>(c, s).
      if c \<noteq> 0x2F then Inr (NULL, s)
      else namei_loop (loop_fuel K) K path 1 0 s))"

section \<open>read.c\<close>

text \<open>
  The loop over the clusters of a read.  The offset into the destination is formed in 32-bit
  \<^verbatim>\<open>int\<close>, whose overflow is undefined.
\<close>

primrec readi_loop ::
    "klayout \<Rightarrow> uint16 \<Rightarrow> uint64 \<Rightarrow> uint64 \<Rightarrow> uint64 \<Rightarrow> nat \<Rightarrow> nat \<Rightarrow> nat \<Rightarrow> nat \<Rightarrow> nat list \<Rightarrow> kstate
       \<Rightarrow> kstate kres" where
  "readi_loop K cluster buf dst sz c0 r0 c1 r1 [] s = Inr s"
| "readi_loop K cluster buf dst sz c0 r0 c1 r1 (i # is) s =
     ebind (fat16_read_cluster K (cluster + of_nat i) buf s) (\<lambda>s.
     let csize = unat (cluster_size (fat16 s)) in
     if (i - c0) * csize \<ge> 2147483648 then Inl Undef
     else
       ebind
         (if i = c0 \<and> i = c1 then vmemcpy K dst (buf + of_nat r0) (unat sz) s
          else if i = c0 then vmemcpy K dst (buf + of_nat r0) (unat (of_int (int csize - int r0) :: uint64)) s
          else if i = c1 then vmemcpy K (dst + of_nat ((i - c0) * csize)) buf r1 s
          else vmemcpy K (dst + of_nat ((i - c0) * csize)) buf csize s) (\<lambda>s.
       readi_loop K cluster buf dst sz c0 r0 c1 r1 is s))"

definition fat16_readi ::
    "klayout \<Rightarrow> uint64 \<Rightarrow> uint64 \<Rightarrow> uint64 \<Rightarrow> uint64 \<Rightarrow> kstate \<Rightarrow> (int \<times> kstate) kres" where
  "fat16_readi K ino dst offset sz s =
     (if inode_id (mem s) ino > 0xFFFF then Inr (- 1, s)
      else if offset + sz > inode_size (mem s) ino then Inr (- 1, s)
      else if cluster_size (fat16 s) = 0 then Inl DivByZero
      else
        let cluster = (ucast (inode_id (mem s) ino) :: uint16);
            csize = half_arg (cluster_size (fat16 s));
            c0 = unat (ucast (offset div csize) :: uint16);
            r0 = unat (ucast (offset mod csize) :: uint16);
            c1 = unat (ucast ((offset + sz) div csize) :: uint16);
            r1 = unat (ucast ((offset + sz) mod csize) :: uint16)
        in
        ebind (kmalloc K csize s) (\<lambda>(buf, s).
        ebind (readi_loop K cluster buf dst sz c0 r0 c1 r1 [c0..<Suc c1] s) (\<lambda>s.
        ebind (kmfree K buf s) (\<lambda>s. Inr (0, s)))))"

end
