(* ===== verification/Msr.thy ===== *)
theory Msr
  imports Machine
begin

text \<open>
  Model-specific registers and the system-call set-up: \<^verbatim>\<open>arch/x86/msr.c\<close>,
  \<^verbatim>\<open>arch/x86/syscall.c\<close>, \<^verbatim>\<open>include/x86/msr.h\<close>.  The registers are part of the processor's state.
\<close>

definition IA32_APIC_BASE_MSR :: uint32 where "IA32_APIC_BASE_MSR = 0x1B"
definition IA32_APIC_BASE_MSR_ENABLE :: uint32 where "IA32_APIC_BASE_MSR_ENABLE = push_bit 11 1"
definition IA32_SYSENTER_CS :: uint32 where "IA32_SYSENTER_CS = 0x174"
definition IA32_SYSENTER_ESP :: uint32 where "IA32_SYSENTER_ESP = 0x175"
definition IA32_SYSENTER_EIP :: uint32 where "IA32_SYSENTER_EIP = 0x176"
definition IA32_STAR :: uint32 where "IA32_STAR = 0xC0000081"
definition IA32_LSTAR :: uint32 where "IA32_LSTAR = 0xC0000082"
definition IA32_SFMASK :: uint32 where "IA32_SFMASK = 0xC0000084"
definition IA32_EFER :: uint32 where "IA32_EFER = 0xC0000080"
definition IA32_EFER_SCE :: uint64 where "IA32_EFER_SCE = 1"

definition GDT_KCODE :: uint64 where "GDT_KCODE = push_bit 3 1"
definition GDT_UNULL :: uint64 where "GDT_UNULL = push_bit 3 3"
definition GDT_UDATA :: uint64 where "GDT_UDATA = push_bit 3 4"
definition GDT_UCODE :: uint64 where "GDT_UCODE = push_bit 3 5"

text \<open>The instructions deliver and take the register in two halves.\<close>

definition rdmsr :: "uint32 \<Rightarrow> kstate \<Rightarrow> uint32 \<times> uint32" where
  "rdmsr msr s = (ucast (msrs s msr), ucast (drop_bit 32 (msrs s msr)))"

definition wrmsr :: "uint32 \<Rightarrow> uint32 \<Rightarrow> uint32 \<Rightarrow> kstate \<Rightarrow> kstate" where
  "wrmsr msr lo hi s = s\<lparr>msrs := (msrs s)(msr := ucast lo OR push_bit 32 (ucast hi))\<rparr>"

definition read_msr :: "uint32 \<Rightarrow> kstate \<Rightarrow> uint64" where
  "read_msr msr s = (let (lo, hi) = rdmsr msr s in ucast lo OR push_bit 32 (ucast hi))"

definition write_msr :: "uint32 \<Rightarrow> uint64 \<Rightarrow> kstate \<Rightarrow> kstate" where
  "write_msr msr val s = wrmsr msr (ucast val) (ucast (drop_bit 32 val)) s"

definition syscall_init :: "klayout \<Rightarrow> kstate \<Rightarrow> kstate kres" where
  "syscall_init K s =
     (let s = write_msr IA32_EFER (read_msr IA32_EFER s OR IA32_EFER_SCE) s in
      ebind (kprintf K ''[sys] IA32_EFER: %x\<newline>'' [read_msr IA32_EFER s] s) (\<lambda>s.
      let s = write_msr IA32_SYSENTER_CS 0x08 s;
          s = write_msr IA32_SYSENTER_EIP (syscall_at K) s in
      ebind (kprintf K ''[sys] IA32_SYSENTER_CS: %x\<newline>'' [read_msr IA32_SYSENTER_CS s] s) (\<lambda>s.
      ebind (kprintf K ''[sys] IA32_SYSENTER_EIP: %x\<newline>'' [read_msr IA32_SYSENTER_EIP s] s) (\<lambda>s.
      let s = write_msr IA32_STAR (push_bit 32 GDT_KCODE OR push_bit 48 GDT_UNULL) s;
          s = write_msr IA32_LSTAR (syscall_at K) s;
          s = write_msr IA32_SFMASK 0 s in
      ebind (kprintf K ''[sys] IA32_STAR: %x\<newline>'' [read_msr IA32_STAR s] s) (\<lambda>s.
      ebind (kprintf K ''[sys] IA32_LSTAR: %x\<newline>'' [read_msr IA32_LSTAR s] s) (\<lambda>s.
      kprintf K ''[sys] IA32_FMASK: %x\<newline>'' [read_msr IA32_SFMASK s] s))))))"

definition set_sysenter_stack :: "klayout \<Rightarrow> uint64 \<Rightarrow> kstate \<Rightarrow> kstate kres" where
  "set_sysenter_stack K kstack s =
     (let s = write_msr IA32_SYSENTER_ESP kstack s in
      kprintf K ''[sys] IA32_SYSENTER_ESP: %x\<newline>'' [read_msr IA32_SYSENTER_ESP s] s)"

section \<open>Register contents\<close>

lemma join_halves:
  "(ucast (ucast v :: uint32) :: uint64) OR push_bit 32 (ucast (ucast (drop_bit 32 v) :: uint32)) = v"
  by (rule bit_word_eqI) (auto simp: bit_simps)

lemma read_msr_eq [simp]: "read_msr msr s = msrs s msr"
  by (simp add: read_msr_def rdmsr_def join_halves)

lemma write_msr_eq: "write_msr msr v s = s\<lparr>msrs := (msrs s)(msr := v)\<rparr>"
  by (simp add: write_msr_def wrmsr_def join_halves)

lemma msrs_console: "s\<lparr>console := c, msrs := r\<rparr> = s\<lparr>msrs := r, console := c\<rparr>"
  by simp

lemma msr_numbers_distinct:
  "distinct [IA32_EFER, IA32_SYSENTER_CS, IA32_SYSENTER_EIP, IA32_SYSENTER_ESP, IA32_STAR,
     IA32_LSTAR, IA32_SFMASK]"
  by (simp add: IA32_EFER_def IA32_SYSENTER_CS_def IA32_SYSENTER_EIP_def IA32_SYSENTER_ESP_def
      IA32_STAR_def IA32_LSTAR_def IA32_SFMASK_def)

text \<open>
  The stack that the system-call entry switches to is the one the kernel set last, and
  setting it changes no other register, no memory and nothing but the console besides.
\<close>

theorem set_sysenter_stack_effect:
  "\<exists>out. set_sysenter_stack K kstack s =
     Inr (s\<lparr>msrs := (msrs s)(IA32_SYSENTER_ESP := kstack), console := console s @ out\<rparr>)"
  using kprintf_total [of "''[sys] IA32_SYSENTER_ESP: %x\<newline>''" K
      "[kstack]" "s\<lparr>msrs := (msrs s)(IA32_SYSENTER_ESP := kstack)\<rparr>"]
  by (simp add: set_sysenter_stack_def write_msr_eq)

definition syscall_msrs :: "klayout \<Rightarrow> (uint32 \<Rightarrow> uint64) \<Rightarrow> uint32 \<Rightarrow> uint64" where
  "syscall_msrs K r = r
     (IA32_EFER := r IA32_EFER OR IA32_EFER_SCE, IA32_SYSENTER_CS := 0x08,
      IA32_SYSENTER_EIP := syscall_at K,
      IA32_STAR := push_bit 32 GDT_KCODE OR push_bit 48 GDT_UNULL,
      IA32_LSTAR := syscall_at K, IA32_SFMASK := 0)"

lemma syscall_init_effect:
  "\<exists>out. syscall_init K s = Inr (s\<lparr>msrs := syscall_msrs K (msrs s), console := console s @ out\<rparr>)"
proof -
  have step: "\<exists>o2. kprintf K fmt args (s\<lparr>msrs := r, console := console s @ o1\<rparr>) =
      Inr (s\<lparr>msrs := r, console := console s @ o2\<rparr>)"
    if "no_string_arg fmt" for fmt args r o1
    using kprintf_total [OF that, of K args "s\<lparr>msrs := r, console := console s @ o1\<rparr>"]
    by (auto simp: append.assoc)
  have step0: "\<exists>o2. kprintf K fmt args (s\<lparr>msrs := r\<rparr>) =
      Inr (s\<lparr>msrs := r, console := console s @ o2\<rparr>)"
    if "no_string_arg fmt" for fmt args r
    using kprintf_total [OF that, of K args "s\<lparr>msrs := r\<rparr>"] by auto
  let ?r1 = "(msrs s)(IA32_EFER := msrs s IA32_EFER OR IA32_EFER_SCE)"
  let ?r2 = "?r1(IA32_SYSENTER_CS := 0x08, IA32_SYSENTER_EIP := syscall_at K)"
  let ?r3 = "syscall_msrs K (msrs s)"
  obtain o1 where 1: "kprintf K ''[sys] IA32_EFER: %x\<newline>'' [?r1 IA32_EFER] (s\<lparr>msrs := ?r1\<rparr>) =
      Inr (s\<lparr>msrs := ?r1, console := console s @ o1\<rparr>)" using step0 by force
  obtain o2 where 2: "kprintf K ''[sys] IA32_SYSENTER_CS: %x\<newline>'' [?r2 IA32_SYSENTER_CS]
      (s\<lparr>msrs := ?r2, console := console s @ o1\<rparr>) =
      Inr (s\<lparr>msrs := ?r2, console := console s @ o2\<rparr>)" using step by force
  obtain o3 where 3: "kprintf K ''[sys] IA32_SYSENTER_EIP: %x\<newline>'' [?r2 IA32_SYSENTER_EIP]
      (s\<lparr>msrs := ?r2, console := console s @ o2\<rparr>) =
      Inr (s\<lparr>msrs := ?r2, console := console s @ o3\<rparr>)" using step by force
  obtain o4 where 4: "kprintf K ''[sys] IA32_STAR: %x\<newline>'' [?r3 IA32_STAR]
      (s\<lparr>msrs := ?r3, console := console s @ o3\<rparr>) =
      Inr (s\<lparr>msrs := ?r3, console := console s @ o4\<rparr>)" using step by force
  obtain o5 where 5: "kprintf K ''[sys] IA32_LSTAR: %x\<newline>'' [?r3 IA32_LSTAR]
      (s\<lparr>msrs := ?r3, console := console s @ o4\<rparr>) =
      Inr (s\<lparr>msrs := ?r3, console := console s @ o5\<rparr>)" using step by force
  obtain o6 where 6: "kprintf K ''[sys] IA32_FMASK: %x\<newline>'' [?r3 IA32_SFMASK]
      (s\<lparr>msrs := ?r3, console := console s @ o5\<rparr>) =
      Inr (s\<lparr>msrs := ?r3, console := console s @ o6\<rparr>)" using step by force
  have r3: "?r2(IA32_STAR := push_bit 32 GDT_KCODE OR push_bit 48 GDT_UNULL,
      IA32_LSTAR := syscall_at K, IA32_SFMASK := 0) = ?r3"
    by (simp add: syscall_msrs_def)
  have "syscall_init K s = Inr (s\<lparr>msrs := ?r3, console := console s @ o6\<rparr>)"
    using 1 2 3 4 5 6 msr_numbers_distinct
    by (simp add: syscall_init_def write_msr_eq Let_def msrs_console r3 [symmetric])
  then show ?thesis by blast
qed

text \<open>
  After \<^verbatim>\<open>syscall_init\<close> the \<^verbatim>\<open>syscall\<close> instruction is enabled and enters the kernel's handler
  in the kernel code segment, the other bits of EFER are as before, and the selectors that
  \<^verbatim>\<open>sysret\<close> derives from \<^verbatim>\<open>STAR\<close> (bits 63 to 48, plus 16 for code and plus 8 for data) are those of
  the user code and data segments of the GDT.
\<close>

theorem syscall_init_registers:
  "\<exists>s'. syscall_init K s = Inr s' \<and> mem s' = mem s \<and>
     msrs s' IA32_EFER = msrs s IA32_EFER OR 1 \<and>
     msrs s' IA32_LSTAR = syscall_at K \<and>
     drop_bit 32 (msrs s' IA32_STAR) AND 0xFFFF = GDT_KCODE \<and>
     drop_bit 48 (msrs s' IA32_STAR) + 16 = GDT_UCODE \<and>
     drop_bit 48 (msrs s' IA32_STAR) + 8 = GDT_UDATA"
proof -
  obtain out where
    "syscall_init K s = Inr (s\<lparr>msrs := syscall_msrs K (msrs s), console := console s @ out\<rparr>)"
    using syscall_init_effect by blast
  moreover have "syscall_msrs K r IA32_EFER = r IA32_EFER OR 1"
    and "syscall_msrs K r IA32_LSTAR = syscall_at K"
    and "syscall_msrs K r IA32_STAR = 0x18000800000000" for r
    using msr_numbers_distinct
    by (auto simp: syscall_msrs_def IA32_EFER_SCE_def GDT_KCODE_def GDT_UNULL_def)
  ultimately show ?thesis
    by (simp add: GDT_KCODE_def GDT_UCODE_def GDT_UDATA_def)
qed

end
