(* ===== verification/Proc.thy ===== *)
theory Proc
  imports Fat16 Msr
begin

text \<open>
  Processes and program loading: \<^verbatim>\<open>arch/x86/proc.c\<close>, \<^verbatim>\<open>fs/vfs.c\<close>, \<^verbatim>\<open>syscall/spawn.c\<close>,
  \<^verbatim>\<open>syscall/call.c\<close>, with the structures of \<^verbatim>\<open>include/proc.h\<close> and \<^verbatim>\<open>include/elf.h\<close>.
\<close>

section \<open>The process record\<close>

text \<open>
  \<^verbatim>\<open>enum procstat\<close> is stored in the first four bytes of a \<^verbatim>\<open>proc_t\<close>.  The page-table entry
  \<^verbatim>\<open>upml4\<close> is declared with the page tables.
\<close>

datatype procstat = UNUSED | SET | READY | RUN | SLEEP | ZOMB | STOP

primrec procstat_code :: "procstat \<Rightarrow> uint32" where
  "procstat_code UNUSED = 0" | "procstat_code SET = 1" | "procstat_code READY = 2"
| "procstat_code RUN = 3" | "procstat_code SLEEP = 4" | "procstat_code ZOMB = 5"
| "procstat_code STOP = 6"

definition sizeof_proc_t :: uint64 where "sizeof_proc_t = 304"
definition sizeof_context_t :: uint64 where "sizeof_context_t = 56"
definition KSTACK_SIZE :: uint64 where "KSTACK_SIZE = KiB 1"
definition RFLAGS_IF :: uint64 where "RFLAGS_IF = push_bit 9 1"
definition FD_STDIN :: nat where "FD_STDIN = 0"
definition FD_STDOUT :: nat where "FD_STDOUT = 1"

definition proc_stat :: "mem_t \<Rightarrow> uint64 \<Rightarrow> uint32" where "proc_stat m p = load32 m p"
definition proc_pid :: "mem_t \<Rightarrow> uint64 \<Rightarrow> uint64" where "proc_pid m p = load64 m (p + 8)"
definition proc_kstack :: "mem_t \<Rightarrow> uint64 \<Rightarrow> uint64" where "proc_kstack m p = load64 m (p + 16)"
definition proc_context :: "mem_t \<Rightarrow> uint64 \<Rightarrow> uint64" where "proc_context m p = load64 m (p + 24)"

definition set_proc_stat :: "uint64 \<Rightarrow> procstat \<Rightarrow> kstate \<Rightarrow> kstate" where
  "set_proc_stat p v s = s\<lparr>mem := store32 (mem s) p (procstat_code v)\<rparr>"
definition set_proc_pid :: "uint64 \<Rightarrow> uint64 \<Rightarrow> kstate \<Rightarrow> kstate" where
  "set_proc_pid p v s = s\<lparr>mem := store64 (mem s) (p + 8) v\<rparr>"
definition set_proc_kstack :: "uint64 \<Rightarrow> uint64 \<Rightarrow> kstate \<Rightarrow> kstate" where
  "set_proc_kstack p v s = s\<lparr>mem := store64 (mem s) (p + 16) v\<rparr>"
definition set_proc_context :: "uint64 \<Rightarrow> uint64 \<Rightarrow> kstate \<Rightarrow> kstate" where
  "set_proc_context p v s = s\<lparr>mem := store64 (mem s) (p + 24) v\<rparr>"
definition set_proc_wchan :: "uint64 \<Rightarrow> uint64 \<Rightarrow> kstate \<Rightarrow> kstate" where
  "set_proc_wchan p v s = s\<lparr>mem := store64 (mem s) (p + 32) v\<rparr>"
definition set_proc_ofile :: "uint64 \<Rightarrow> nat \<Rightarrow> uint64 \<Rightarrow> kstate \<Rightarrow> kstate" where
  "set_proc_ofile p fd v s = s\<lparr>mem := store64 (mem s) (p + 48 + 8 * of_nat fd) v\<rparr>"

text \<open>The members of \<^verbatim>\<open>context_t\<close> in order: r15, r14, r13, r12, rbp, rbx, rip.\<close>

definition set_ctx :: "nat \<Rightarrow> uint64 \<Rightarrow> uint64 \<Rightarrow> kstate \<Rightarrow> kstate" where
  "set_ctx i c v s = s\<lparr>mem := store64 (mem s) (c + 8 * of_nat i) v\<rparr>"

text \<open>
  \<^verbatim>\<open>struct file_operations\<close> and the one file of devfs.  A member that is \<^verbatim>\<open>NULL\<close> is \<open>None\<close>; the standard file only
  has \<^verbatim>\<open>read\<close>, which always reads nothing.
\<close>

record file_operations =
  fop_open :: "(uint64 \<Rightarrow> uint64 \<Rightarrow> uint32 \<Rightarrow> kstate \<Rightarrow> (int \<times> kstate) kres) option"
  fop_close :: "(uint64 \<Rightarrow> kstate \<Rightarrow> (int \<times> kstate) kres) option"
  fop_read :: "(uint64 \<Rightarrow> uint64 \<Rightarrow> uint64 \<Rightarrow> kstate \<Rightarrow> (int \<times> kstate) kres) option"
  fop_write :: "(uint64 \<Rightarrow> uint64 \<Rightarrow> uint64 \<Rightarrow> kstate \<Rightarrow> (int \<times> kstate) kres) option"
  fop_seek :: "(uint64 \<Rightarrow> uint64 \<Rightarrow> kstate \<Rightarrow> (int \<times> kstate) kres) option"

definition stdio_read :: "uint64 \<Rightarrow> uint64 \<Rightarrow> uint64 \<Rightarrow> kstate \<Rightarrow> (int \<times> kstate) kres" where
  "stdio_read file buf sz s = Inr (0, s)"

definition stdio_fops :: file_operations where
  "stdio_fops = \<lparr>fop_open = None, fop_close = None, fop_read = Some stdio_read, fop_write = None, fop_seek = None\<rparr>"

definition devfs_stdio :: "klayout \<Rightarrow> uint64" where "devfs_stdio K = stdio_at K"

definition palloc :: "klayout \<Rightarrow> kstate \<Rightarrow> (uint64 \<times> kstate) kres" where
  "palloc K s =
     ebind (kmalloc K sizeof_proc_t s) (\<lambda>(p, s).
     let s = set_proc_stat p SET s;
         s = set_proc_pid p (nextpid s) s;
         s = s\<lparr>nextpid := nextpid s + 1\<rparr>
     in
     ebind (kmalloc K KSTACK_SIZE s) (\<lambda>(kstack, s).
     let s = set_proc_kstack p kstack s;
         sp = proc_kstack (mem s) p + KSTACK_SIZE;
         sp = sp - sizeof_context_t;
         s = set_proc_context p sp s;
         s = set_ctx 6 (proc_context (mem s) p) (sysret_at K) s;
         s = set_ctx 2 (proc_context (mem s) p) RFLAGS_IF s;
         s = set_proc_wchan p NULL s
     in
     ebind (pmalloc K PM_4K s) (\<lambda>(page, s).
     let s = set_proc_upml4 p (page OR PG_P OR PG_RW OR PG_US) s;
         s = set_proc_ofile p FD_STDIN (devfs_stdio K) s;
         s = set_proc_ofile p FD_STDOUT (devfs_stdio K) s
     in
     ebind (list_push K (proc_list_at K) p s) (\<lambda>s. Inr (p, s)))))"

definition pfree :: "klayout \<Rightarrow> uint64 \<Rightarrow> kstate \<Rightarrow> kstate kres" where
  "pfree K p s =
     ebind (list_remove K (proc_list_at K) p s) (\<lambda>s.
     ebind (kmfree K (proc_kstack (mem s) p) s) (\<lambda>s.
     ebind (free_uvm K p s) (\<lambda>s.
     ebind (pmfree K (proc_upml4 (mem s) p) PM_4K s) (\<lambda>s.
     kmfree K p s))))"

section \<open>Switching\<close>

text \<open>
  \<^verbatim>\<open>context_switch\<close> of \<^verbatim>\<open>swtch.S\<close> stores the stack pointer in \<open>*old\<close> after pushing the six
  callee-saved registers, and continues with the stack at \<open>new\<close>.  Its effect on memory is a
  parameter of the operations that call it; what they hand to it is part of their result.  The theory \<^verbatim>\<open>Asm\<close> executes the
  instructions of the routine, and \<^verbatim>\<open>FirstProc\<close> puts it in the place of the parameter.
\<close>

definition switch_prepare :: "klayout \<Rightarrow> uint64 \<Rightarrow> kstate \<Rightarrow> kstate kres" where
  "switch_prepare K new s =
     (let s = switch_uvm new (s\<lparr>curproc := new\<rparr>) in
      set_sysenter_stack K (proc_kstack (mem s) new + KSTACK_SIZE) s)"

definition switch_proc ::
    "klayout \<Rightarrow> (uint64 \<Rightarrow> uint64 \<Rightarrow> kstate \<Rightarrow> kstate kres) \<Rightarrow> uint64 \<Rightarrow> uint64 \<Rightarrow> kstate \<Rightarrow> kstate kres" where
  "switch_proc K context_switch new old s =
     (if new = NULL \<or> old = NULL then Inl (Panic ''switch_proc: new/old is NULL\<newline>'')
      else if proc_stat (mem s) old \<noteq> procstat_code RUN \<or> proc_stat (mem s) new \<noteq> procstat_code READY
      then Inl (Panic ''switch_proc: stat is invalid\<newline>'')
      else
        let s = set_proc_stat old READY s;
            s = set_proc_stat new RUN s
        in
        ebind (switch_prepare K new s) (\<lambda>s.
        context_switch (old + 24) (proc_context (mem s) new) s))"

definition initcode :: "uint8 list" where
  "initcode =
     [0x48, 0xbf, 0x26, 0x00, 0x00, 0x00, 0x00, 0x01, 0x00, 0x00,
      0x48, 0x31, 0xf6,
      0x48, 0xc7, 0xc0, 0xe8, 0x03, 0x00, 0x00,
      0x0f, 0x05,
      0x48, 0xc7, 0xc7, 0x01, 0x00, 0x00, 0x00,
      0x48, 0xc7, 0xc0, 0x3c, 0x00, 0x00, 0x00,
      0x0f, 0x05,
      0x2f, 0x42, 0x49, 0x4e, 0x2f, 0x53, 0x48, 0x45, 0x4c, 0x4c, 0x00]"

text \<open>Copying a constant array of the kernel image to a user address, byte by byte.\<close>

primrec vstore_bytes :: "klayout \<Rightarrow> uint64 \<Rightarrow> uint8 list \<Rightarrow> kstate \<Rightarrow> kstate kres" where
  "vstore_bytes K dst [] s = Inr s"
| "vstore_bytes K dst (b # bs) s = ebind (vstore8 K dst b s) (\<lambda>s. vstore_bytes K (dst + 1) bs s)"

definition uinit ::
    "klayout \<Rightarrow> (uint64 \<Rightarrow> uint64 \<Rightarrow> kstate \<Rightarrow> kstate kres) \<Rightarrow> kstate \<Rightarrow> kstate kres" where
  "uinit K context_switch s =
     ebind (palloc K s) (\<lambda>(init, s).
     let s = set_proc_stat init RUN s;
         s = switch_uvm init s
     in
     ebind (set_sysenter_stack K (proc_kstack (mem s) init + KSTACK_SIZE) s) (\<lambda>s.
     ebind (vstore_bytes K USER_ADDR_START initcode s) (\<lambda>s.
     let s = set_ctx 0 (proc_context (mem s) init) USER_ADDR_START s;
         s = set_ctx 1 (proc_context (mem s) init) (USER_ADDR_START + KiB 4) s;
         s = s\<lparr>curproc := init\<rparr>
     in context_switch (local_at K ''dummy.context'') (proc_context (mem s) init) s)))"

section \<open>vfs.c\<close>

definition vfs_read ::
    "klayout \<Rightarrow> uint64 \<Rightarrow> uint64 \<Rightarrow> uint64 \<Rightarrow> uint64 \<Rightarrow> kstate \<Rightarrow> (int \<times> kstate) kres" where
  "vfs_read K ip dst offset sz s = fat16_readi K ip dst offset sz s"

definition vfs_namei :: "klayout \<Rightarrow> uint64 \<Rightarrow> kstate \<Rightarrow> (uint64 \<times> kstate) kres" where
  "vfs_namei K path s = fat16_namei K path s"

text \<open>\<^verbatim>\<open>devfs_init\<close> does nothing.\<close>

definition devfs_init :: "kstate \<Rightarrow> kstate" where "devfs_init s = s"

definition vfs_init :: "klayout \<Rightarrow> kstate \<Rightarrow> kstate kres" where
  "vfs_init K s = fat16_init K (devfs_init s)"

section \<open>spawn.c\<close>

definition sizeof_Elf64_Ehdr :: uint64 where "sizeof_Elf64_Ehdr = 64"
definition sizeof_Elf64_Phdr :: uint64 where "sizeof_Elf64_Phdr = 56"
definition ELF_PROG_LOAD :: uint32 where "ELF_PROG_LOAD = 1"

definition e_entry :: "mem_t \<Rightarrow> uint64 \<Rightarrow> uint64" where "e_entry m h = load64 m (h + 24)"
definition e_phoff :: "mem_t \<Rightarrow> uint64 \<Rightarrow> uint64" where "e_phoff m h = load64 m (h + 32)"
definition e_phentsize :: "mem_t \<Rightarrow> uint64 \<Rightarrow> uint16" where "e_phentsize m h = load16 m (h + 54)"
definition e_phnum :: "mem_t \<Rightarrow> uint64 \<Rightarrow> uint16" where "e_phnum m h = load16 m (h + 56)"
definition p_type :: "mem_t \<Rightarrow> uint64 \<Rightarrow> uint32" where "p_type m h = load32 m h"
definition p_offset :: "mem_t \<Rightarrow> uint64 \<Rightarrow> uint64" where "p_offset m h = load64 m (h + 8)"
definition p_vaddr :: "mem_t \<Rightarrow> uint64 \<Rightarrow> uint64" where "p_vaddr m h = load64 m (h + 16)"
definition p_paddr :: "mem_t \<Rightarrow> uint64 \<Rightarrow> uint64" where "p_paddr m h = load64 m (h + 24)"
definition p_filesz :: "mem_t \<Rightarrow> uint64 \<Rightarrow> uint64" where "p_filesz m h = load64 m (h + 32)"
definition p_memsz :: "mem_t \<Rightarrow> uint64 \<Rightarrow> uint64" where "p_memsz m h = load64 m (h + 40)"

text \<open>
  The loop over the program headers; the result says whether every segment was loaded
  (otherwise the code jumps to \<^verbatim>\<open>bad\<close>).  \<^verbatim>\<open>off\<close> is a 32-bit \<^verbatim>\<open>int\<close>, sign-extended when it is
  passed on.
\<close>

primrec load_segments ::
    "klayout \<Rightarrow> uint64 \<Rightarrow> nat \<Rightarrow> uint32 \<Rightarrow> kstate \<Rightarrow> (bool \<times> kstate) kres" where
  "load_segments K inode 0 off s = Inr (True, s)"
| "load_segments K inode (Suc n) off s =
     (let ehdr = local_at K ''ehdr''; phdr = local_at K ''phdr'' in
      ebind (vfs_read K inode phdr (scast off) sizeof_Elf64_Phdr s) (\<lambda>(r, s).
      let off' = off + ucast (e_phentsize (mem s) ehdr) in
      if r = - 1 then Inr (False, s)
      else if p_type (mem s) phdr \<noteq> ELF_PROG_LOAD then load_segments K inode n off' s
      else if p_filesz (mem s) phdr > p_memsz (mem s) phdr then Inr (False, s)
      else if p_vaddr (mem s) phdr < USER_ADDR_START then Inr (False, s)
      else
        ebind (vfs_read K inode (p_vaddr (mem s) phdr) (p_offset (mem s) phdr)
                 (p_filesz (mem s) phdr) s) (\<lambda>(r, s).
        if r = - 1 then Inr (False, s)
        else
          ebind (kprintf K '' mapped %x-%x\<newline>''
                   [p_vaddr (mem s) phdr, p_vaddr (mem s) phdr + p_memsz (mem s) phdr] s) (\<lambda>s.
          load_segments K inode n off' s))))"

definition sys_spawn :: "klayout \<Rightarrow> uint64 \<Rightarrow> uint64 \<Rightarrow> kstate \<Rightarrow> (int \<times> kstate) kres" where
  "sys_spawn K path argv s =
     (if path = NULL then Inr (- 1, s)
      else
        ebind (vfs_namei K path s) (\<lambda>(inode, s).
        if inode = NULL then Inr (- 1, s)
        else
          ebind (palloc K s) (\<lambda>(new_proc, s).
          if new_proc = NULL then ebind (ifree K inode s) (\<lambda>s. Inr (- 1, s))
          else
            let s = switch_uvm new_proc s; ehdr = local_at K ''ehdr'' in
            ebind (vfs_read K inode ehdr 0 sizeof_Elf64_Ehdr s) (\<lambda>(r, s).
            ebind
              (if r = - 1 then Inr (False, s)
               else
                 ebind (kprintf K '' entry %x\<newline>'' [e_entry (mem s) ehdr] s) (\<lambda>s.
                 load_segments K inode (unat (e_phnum (mem s) ehdr)) (ucast (e_phoff (mem s) ehdr)) s))
              (\<lambda>(ok, s).
            ebind (if ok then Inr s else pfree K new_proc s) (\<lambda>s.
            ebind (ifree K inode (switch_uvm (curproc s) s)) (\<lambda>s.
            Inr (0, s))))))))"

section \<open>call.c\<close>

definition SYS_exit :: uint64 where "SYS_exit = 60"
definition SYS_spawn :: uint64 where "SYS_spawn = 1000"

text \<open>
  The argument that the debug message prints is a user pointer, so its string is read through
  the page tables.  Every system call ends in a loop that never returns.  The state in which the kernel then
  spins is the result; a call that panics is an error as everywhere else.
\<close>

definition syscall :: "klayout \<Rightarrow> uint64 \<Rightarrow> uint64 \<Rightarrow> uint64 \<Rightarrow> kstate \<Rightarrow> kstate kres" where
  "syscall K arg1 arg2 syscall_num s =
     ebind (kprintf K ''#SYSCALL: '' [] s) (\<lambda>s.
     if syscall_num = SYS_spawn then
       ebind (kprintf K ''sys_spawn('' [] s) (\<lambda>s.
       ebind (kprintf K [CHR 0x22] [] s) (\<lambda>s.
       ebind (vkprint K arg1 s) (\<lambda>s.
       ebind (kprintf K (CHR 0x22 # '')\<newline>'') [] s) (\<lambda>s.
       ebind (sys_spawn K arg1 arg2 s) (\<lambda>(r, s). Inr s)))))
     else if syscall_num = SYS_exit then kprintf K ''SYS_exit\<newline>'' [] s
     else kprintf K ''unknown syscall %d\<newline>'' [syscall_num] s)"

end
