(* ===== verification/Cpu.thy ===== *)
theory Cpu
  imports Machine
begin

text \<open>
  Processor identification, \<^verbatim>\<open>arch/x86/cpu.c\<close> and \<^verbatim>\<open>include/x86/cpuid.h\<close>.  What the instruction
  answers is a parameter of the machine.
\<close>

definition CPUID_EAX :: nat where "CPUID_EAX = 0"
definition CPUID_ECX :: nat where "CPUID_ECX = 2"
definition CPUID_EDX :: nat where "CPUID_EDX = 3"

definition cpuid :: "klayout \<Rightarrow> uint32 \<Rightarrow> nat \<Rightarrow> kstate \<Rightarrow> (uint32 \<times> kstate) kres" where
  "cpuid K code regs s =
     (if regs \<le> 3 then Inr (cpuid_out K code regs, s)
      else ebind (kprintf K ''cpuid: invalid register %d\<newline>'' [of_nat regs] s) (\<lambda>s. Inr (0, s)))"

text \<open>The feature bits of leaf 1 as \<^verbatim>\<open>cpuid.h\<close> numbers them.\<close>

datatype cpuid_ecx =
  ECX_SSE3 | ECX_PCLMULQDQ | ECX_DTES64 | ECX_MONITOR | ECX_DS_CPL | ECX_VMX | ECX_SMX | ECX_EST |
  ECX_TM2 | ECX_SSSE3 | ECX_CNXT_ID | ECX_FMA | ECX_CMPXCHG16B | ECX_XTPR | ECX_PDCM | ECX_PCID |
  ECX_DCA | ECX_SSE4_1 | ECX_SSE4_2 | ECX_X2APIC | ECX_MOVBE | ECX_POPCNT | ECX_TSC_DEADLINE |
  ECX_AES | ECX_XSAVE | ECX_OSXSAVE | ECX_AVX | ECX_F16C | ECX_RDRAND

primrec CPUID_0001_ECX_bit :: "cpuid_ecx \<Rightarrow> nat" where
  "CPUID_0001_ECX_bit ECX_SSE3 = 0"
| "CPUID_0001_ECX_bit ECX_PCLMULQDQ = 1"
| "CPUID_0001_ECX_bit ECX_DTES64 = 2"
| "CPUID_0001_ECX_bit ECX_MONITOR = 3"
| "CPUID_0001_ECX_bit ECX_DS_CPL = 4"
| "CPUID_0001_ECX_bit ECX_VMX = 5"
| "CPUID_0001_ECX_bit ECX_SMX = 6"
| "CPUID_0001_ECX_bit ECX_EST = 7"
| "CPUID_0001_ECX_bit ECX_TM2 = 8"
| "CPUID_0001_ECX_bit ECX_SSSE3 = 9"
| "CPUID_0001_ECX_bit ECX_CNXT_ID = 10"
| "CPUID_0001_ECX_bit ECX_FMA = 12"
| "CPUID_0001_ECX_bit ECX_CMPXCHG16B = 13"
| "CPUID_0001_ECX_bit ECX_XTPR = 14"
| "CPUID_0001_ECX_bit ECX_PDCM = 15"
| "CPUID_0001_ECX_bit ECX_PCID = 17"
| "CPUID_0001_ECX_bit ECX_DCA = 18"
| "CPUID_0001_ECX_bit ECX_SSE4_1 = 19"
| "CPUID_0001_ECX_bit ECX_SSE4_2 = 20"
| "CPUID_0001_ECX_bit ECX_X2APIC = 21"
| "CPUID_0001_ECX_bit ECX_MOVBE = 22"
| "CPUID_0001_ECX_bit ECX_POPCNT = 23"
| "CPUID_0001_ECX_bit ECX_TSC_DEADLINE = 24"
| "CPUID_0001_ECX_bit ECX_AES = 25"
| "CPUID_0001_ECX_bit ECX_XSAVE = 26"
| "CPUID_0001_ECX_bit ECX_OSXSAVE = 27"
| "CPUID_0001_ECX_bit ECX_AVX = 28"
| "CPUID_0001_ECX_bit ECX_F16C = 29"
| "CPUID_0001_ECX_bit ECX_RDRAND = 30"

datatype cpuid_edx =
  EDX_FPU | EDX_VME | EDX_DE | EDX_PSE | EDX_TSC | EDX_MSR | EDX_PAE | EDX_MCE | EDX_CX8 |
  EDX_APIC | EDX_SEP | EDX_MTRR | EDX_PGE | EDX_MCA | EDX_CMOV | EDX_PAT | EDX_PSE36 | EDX_PSN |
  EDX_CFLSH | EDX_DS | EDX_ACPI | EDX_MMX | EDX_FXSR | EDX_SSE | EDX_SSE2 | EDX_SS | EDX_HTT |
  EDX_TM | EDX_PBE

primrec CPUID_0001_EDX_bit :: "cpuid_edx \<Rightarrow> nat" where
  "CPUID_0001_EDX_bit EDX_FPU = 0"
| "CPUID_0001_EDX_bit EDX_VME = 1"
| "CPUID_0001_EDX_bit EDX_DE = 2"
| "CPUID_0001_EDX_bit EDX_PSE = 3"
| "CPUID_0001_EDX_bit EDX_TSC = 4"
| "CPUID_0001_EDX_bit EDX_MSR = 5"
| "CPUID_0001_EDX_bit EDX_PAE = 6"
| "CPUID_0001_EDX_bit EDX_MCE = 7"
| "CPUID_0001_EDX_bit EDX_CX8 = 8"
| "CPUID_0001_EDX_bit EDX_APIC = 9"
| "CPUID_0001_EDX_bit EDX_SEP = 11"
| "CPUID_0001_EDX_bit EDX_MTRR = 12"
| "CPUID_0001_EDX_bit EDX_PGE = 13"
| "CPUID_0001_EDX_bit EDX_MCA = 14"
| "CPUID_0001_EDX_bit EDX_CMOV = 15"
| "CPUID_0001_EDX_bit EDX_PAT = 16"
| "CPUID_0001_EDX_bit EDX_PSE36 = 17"
| "CPUID_0001_EDX_bit EDX_PSN = 18"
| "CPUID_0001_EDX_bit EDX_CFLSH = 19"
| "CPUID_0001_EDX_bit EDX_DS = 21"
| "CPUID_0001_EDX_bit EDX_ACPI = 22"
| "CPUID_0001_EDX_bit EDX_MMX = 23"
| "CPUID_0001_EDX_bit EDX_FXSR = 24"
| "CPUID_0001_EDX_bit EDX_SSE = 25"
| "CPUID_0001_EDX_bit EDX_SSE2 = 26"
| "CPUID_0001_EDX_bit EDX_SS = 27"
| "CPUID_0001_EDX_bit EDX_HTT = 28"
| "CPUID_0001_EDX_bit EDX_TM = 29"
| "CPUID_0001_EDX_bit EDX_PBE = 31"

text \<open>The features tested, in the order of the tests, with the names printed.\<close>

definition features_edx :: "(cpuid_edx \<times> string) list" where
  "features_edx =
    [(EDX_FPU, ''FPU ''), (EDX_VME, ''VME ''), (EDX_DE, ''DE ''), (EDX_PSE, ''PSE ''),
     (EDX_TSC, ''TSC ''), (EDX_MSR, ''MSR ''), (EDX_PAE, ''PAE ''), (EDX_MCE, ''MCE ''),
     (EDX_CX8, ''CX8 ''), (EDX_APIC, ''APIC ''), (EDX_SEP, ''SEP ''), (EDX_MTRR, ''MTRR ''),
     (EDX_PGE, ''PGE ''), (EDX_MCA, ''MCA ''), (EDX_CMOV, ''CMOV ''), (EDX_PAT, ''PAT ''),
     (EDX_PSE36, ''PSE-36 ''), (EDX_PSN, ''PSN ''), (EDX_CFLSH, ''CFLSH ''), (EDX_DS, ''DS ''),
     (EDX_ACPI, ''ACPI ''), (EDX_MMX, ''MMX ''), (EDX_FXSR, ''FXSR ''), (EDX_SSE, ''SSE ''),
     (EDX_SSE2, ''SSE2 ''), (EDX_SS, ''SS ''), (EDX_HTT, ''HTT ''), (EDX_TM, ''TM ''),
     (EDX_PBE, ''PBE '')]"

definition features_ecx :: "(cpuid_ecx \<times> string) list" where
  "features_ecx =
    [(ECX_SSE3, ''SSE3 ''), (ECX_PCLMULQDQ, ''PCLMULQDQ ''), (ECX_DTES64, ''DTES64 ''),
     (ECX_MONITOR, ''MONITOR ''), (ECX_DS_CPL, ''DS_CPL ''), (ECX_VMX, ''VMX ''), (ECX_SMX, ''SMX ''),
     (ECX_EST, ''EST ''), (ECX_TM2, ''TM2 ''), (ECX_SSSE3, ''SSSE3 ''), (ECX_CNXT_ID, ''CNXT_ID ''),
     (ECX_FMA, ''FMA ''), (ECX_CMPXCHG16B, ''CMPXCHG16B ''), (ECX_XTPR, ''XTPR ''),
     (ECX_PDCM, ''PDCM ''), (ECX_PCID, ''PCID ''), (ECX_DCA, ''DCA ''), (ECX_SSE4_1, ''SSE4.1 ''),
     (ECX_SSE4_2, ''SSE4.2 ''), (ECX_X2APIC, ''X2APIC ''), (ECX_MOVBE, ''MOVBE ''),
     (ECX_POPCNT, ''POPCNT ''), (ECX_TSC_DEADLINE, ''TSC_DEADLINE ''), (ECX_AES, ''AES ''),
     (ECX_XSAVE, ''XSAVE ''), (ECX_OSXSAVE, ''OSXSAVE ''), (ECX_AVX, ''AVX ''), (ECX_F16C, ''F16C ''),
     (ECX_RDRAND, ''RDRAND '')]"

definition print_features :: "klayout \<Rightarrow> uint32 \<Rightarrow> ('f \<Rightarrow> nat) \<Rightarrow> ('f \<times> string) list \<Rightarrow> kstate \<Rightarrow> kstate kres" where
  "print_features K reg feature_bit fs s =
     kprintfs K (map (\<lambda>(f, name). (name, [])) (filter (\<lambda>(f, name). reg AND push_bit (feature_bit f) 1 \<noteq> 0) fs)) s"

definition CPUID_8000_0001_EDX_SYSCALL :: uint32 where "CPUID_8000_0001_EDX_SYSCALL = push_bit 11 1"
definition CPUID_8000_0001_EDX_PDPE1GB :: uint32 where "CPUID_8000_0001_EDX_PDPE1GB = push_bit 26 1"

text \<open>
  The brand string is collected one 32-bit register at a time, but each goes to an eight-byte
  element of the local array.
\<close>

primrec brand_loop :: "klayout \<Rightarrow> nat list \<Rightarrow> kstate \<Rightarrow> kstate kres" where
  "brand_loop K [] s = Inr s"
| "brand_loop K (i # is) s =
     ebind (cpuid K (0x80000002 + of_nat (i div 4)) (CPUID_EAX + i mod 4) s) (\<lambda>(v, s).
     let s = s\<lparr>mem := store64 (mem s) (local_at K ''processor_brand'' + 8 * of_nat i) (ucast v)\<rparr> in
     if v = 0 then Inr s else brand_loop K is s)"

definition cpu_init :: "klayout \<Rightarrow> kstate \<Rightarrow> kstate kres" where
  "cpu_init K s =
     ebind (cpuid K 0x80000001 CPUID_EDX s) (\<lambda>(ext, s).
     if ext AND CPUID_8000_0001_EDX_SYSCALL = 0 then Inl (Panic ''[cpuid] SYSCALL/SYSRET is not supported\<newline>'')
     else
       ebind (kprintf K ''[cpuid] SYSCALL/SYSRET is supported\<newline>'' [] s) (\<lambda>s.
       ebind (cpuid K 0x80000001 CPUID_EDX s) (\<lambda>(ext, s).
       ebind (if ext AND CPUID_8000_0001_EDX_PDPE1GB \<noteq> 0
              then kprintf K ''[cpuid] 1GB page is supported\<newline>'' [] s
              else kprintf K ''[cpuid] 1GB page is not supported\<newline>'' [] s) (\<lambda>s.
       ebind (brand_loop K [0..<12] s) (\<lambda>s.
       ebind (kprintf K ''[cpuid] processor brand: %s\<newline>'' [local_at K ''processor_brand''] s) (\<lambda>s.
       ebind (kprintf K ''[cpuid] features: '' [] s) (\<lambda>s.
       ebind (cpuid K 1 CPUID_EDX s) (\<lambda>(edx, s).
       ebind (print_features K edx CPUID_0001_EDX_bit features_edx s) (\<lambda>s.
       ebind (cpuid K 1 CPUID_ECX s) (\<lambda>(ecx, s).
       ebind (print_features K ecx CPUID_0001_ECX_bit features_ecx s) (\<lambda>s.
       kprintf K ''\<newline>'' [] s)))))))))))"

section \<open>The brand string\<close>

lemma load_bytes_store64:
  "load_bytes (store64 m a v) a 8 = le_bytes 8 (unat v)"
  using load_store_bytes [of "le_bytes 8 (unat v)" m a] by (simp add: store64_def)

lemma byte4_of_word:
  assumes "load64 m a = ucast (v :: uint32)"
  shows "m (a + 4) = 0"
proof -
  have "load_bytes m a 8 ! 4 = m (a + 4)" using nth_load_bytes [of 4 8 m a] by simp
  moreover have "le_bytes 8 (unat (load64 m a)) = load_bytes m a 8"
    using le_bytes_val [of "load_bytes m a 8"] le_val_less [of "load_bytes m a 8"]
    by (simp add: load64_def unat_of_nat_small)
  moreover have "le_bytes 8 (unat (ucast v :: uint64)) ! 4 = 0"
  proof -
    have "unat v < 4294967296" using unsigned_less [of v] by simp
    moreover from this have "unat (ucast v :: uint64) = unat v"
      by (simp add: unsigned_ucast_eq take_bit_nat_eq_self)
    ultimately show ?thesis
      by (simp add: nth_le_bytes)
  qed
  ultimately show ?thesis using assms by metis
qed

lemma brand_loop_first:
  assumes "\<forall>i \<in> set is. 0 < i \<and> i < 12"
  shows "\<exists>s'. brand_loop K is s = Inr s' \<and>
    load64 (mem s') (local_at K ''processor_brand'') = load64 (mem s) (local_at K ''processor_brand'')"
  using assms
proof (induction "is" arbitrary: s)
  case Nil
  show ?case by simp
next
  case (Cons i "is")
  let ?a = "local_at K ''processor_brand''"
  let ?v = "cpuid_out K (0x80000002 + of_nat (i div 4)) (CPUID_EAX + i mod 4)"
  let ?s = "s\<lparr>mem := store64 (mem s) (?a + 8 * of_nat i) (ucast ?v)\<rparr>"
  have "CPUID_EAX + i mod 4 \<le> 3" by (simp add: CPUID_EAX_def)
  then have c: "cpuid K (0x80000002 + of_nat (i div 4)) (CPUID_EAX + i mod 4) s = Inr (?v, s)"
    by (simp add: cpuid_def)
  have d: "8 \<le> unat (of_nat 0 - of_nat (8 * i) :: uint64)"
    "8 \<le> unat (of_nat (8 * i) - of_nat 0 :: uint64)"
    by (rule offset_distance; use Cons.prems in force)+
  have same: "load64 (mem ?s) ?a = load64 (mem s) ?a"
    using d quad_apart [of ?a "?a + 8 * of_nat i" "mem s" "ucast ?v"] by simp
  from Cons.IH [of ?s] Cons.prems obtain s' where
    "brand_loop K is ?s = Inr s'" "load64 (mem s') ?a = load64 (mem ?s) ?a" by auto
  then show ?case using c same by (auto simp: Let_def)
qed

lemma cstr_within:
  assumes "m (a + of_nat n) = 0"
  shows "\<exists>bs. length bs \<le> n \<and> is_cstr m a bs"
  using assms
proof (induction n arbitrary: a)
  case 0
  then have "is_cstr m a []" by simp
  then show ?case by (intro exI [of _ "[]"]) simp
next
  case (Suc n)
  show ?case
  proof (cases "m a = 0")
    case True
    then have "is_cstr m a []" by simp
    then show ?thesis by (intro exI [of _ "[]"]) simp
  next
    case False
    from Suc.prems have "m (a + 1 + of_nat n) = 0" by (simp add: add.assoc)
    from Suc.IH [OF this] obtain bs where "length bs \<le> n" "is_cstr m (a + 1) bs" by blast
    with False have "length (m a # bs) \<le> Suc n" "is_cstr m a (m a # bs)" by simp_all
    then show ?thesis by blast
  qed
qed

text \<open>
  C40. Whatever the processor answers, the string that \<^verbatim>\<open>cpu_init\<close> prints as the processor brand
  has at most four of the brand's 48 characters: each register is stored in an eight-byte
  element whose upper half is zero.
\<close>

theorem brand_at_most_four:
  "\<exists>s' bs. brand_loop K [0..<12] s = Inr s' \<and>
     is_cstr (mem s') (local_at K ''processor_brand'') bs \<and> length bs \<le> 4"
proof -
  let ?a = "local_at K ''processor_brand''"
  let ?v = "cpuid_out K 0x80000002 0"
  let ?s = "s\<lparr>mem := store64 (mem s) ?a (ucast ?v)\<rparr>"
  have "[0..<12] = 0 # [1..<12]" by (simp add: upt_rec)
  moreover obtain s' where "brand_loop K [1..<12] ?s = Inr s'" "load64 (mem s') ?a = ucast ?v"
    using brand_loop_first [of "[1..<12]" K ?s] by auto
  ultimately obtain s'' where s'': "brand_loop K [0..<12] s = Inr s''" "load64 (mem s'') ?a = ucast ?v"
    by (cases "?v = 0") (auto simp: cpuid_def CPUID_EAX_def)
  from byte4_of_word [OF s''(2)] have "mem s'' (?a + of_nat 4) = 0" by simp
  from cstr_within [of "mem s''" ?a 4, OF this] s''(1) show ?thesis by blast
qed

end
