(* ===== verification/Apic.thy ===== *)
theory Apic
  imports Cpu Msr PhysMem
begin

text \<open>
  The interrupt controllers, \<^verbatim>\<open>arch/x86/apic.c\<close>.
\<close>

definition APIC_ID :: uint32 where "APIC_ID = 0x20"
definition APIC_VER :: uint32 where "APIC_VER = 0x30"
definition APIC_TPR :: uint32 where "APIC_TPR = 0x80"
definition APIC_EOI :: uint32 where "APIC_EOI = 0xB0"
definition APIC_SVR :: uint32 where "APIC_SVR = 0xF0"
definition APIC_SVR_ENABLE :: uint32 where "APIC_SVR_ENABLE = push_bit 8 1"
definition APIC_ESR :: uint32 where "APIC_ESR = 0x280"
definition APIC_ICR_LOW :: uint32 where "APIC_ICR_LOW = 0x300"
definition APIC_ICR_INIT :: uint32 where "APIC_ICR_INIT = push_bit 8 5"
definition APIC_ICR_DELIV_STATUS :: uint32 where "APIC_ICR_DELIV_STATUS = push_bit 12 1"
definition APIC_ICR_LEVEL :: uint32 where "APIC_ICR_LEVEL = push_bit 15 1"
definition APIC_ICR_BROADCAST :: uint32 where "APIC_ICR_BROADCAST = push_bit 18 2"
definition APIC_ICR_HIGH :: uint32 where "APIC_ICR_HIGH = 0x310"
definition APIC_LVT_TIMER :: uint32 where "APIC_LVT_TIMER = 0x320"
definition APIC_LVT_TIMER_PERIODIC :: uint32 where "APIC_LVT_TIMER_PERIODIC = push_bit 17 1"
definition APIC_LVT_PMC :: uint32 where "APIC_LVT_PMC = 0x340"
definition APIC_LVT_LINT0 :: uint32 where "APIC_LVT_LINT0 = 0x350"
definition APIC_LVT_LINT1 :: uint32 where "APIC_LVT_LINT1 = 0x360"
definition APIC_LVT_ERROR :: uint32 where "APIC_LVT_ERROR = 0x370"
definition APIC_LVT_MASKED :: uint32 where "APIC_LVT_MASKED = push_bit 16 1"
definition APIC_TIMER_ICR :: uint32 where "APIC_TIMER_ICR = 0x380"
definition APIC_TIMER_ICR_VALUE :: uint32 where "APIC_TIMER_ICR_VALUE = 10000000"
definition APIC_TIMER_DCR :: uint32 where "APIC_TIMER_DCR = 0x3E0"
definition APIC_TIMER_DCR_DIV1 :: uint32 where "APIC_TIMER_DCR_DIV1 = 0xB"

definition IOAPIC_REG_INDEX :: uint64 where "IOAPIC_REG_INDEX = 0x00"
definition IOAPIC_REG_DATA :: uint64 where "IOAPIC_REG_DATA = 0x10"
definition IOAPIC_REDTBL_START :: uint8 where "IOAPIC_REDTBL_START = 0x10"

definition T_IRQ0 :: nat where "T_IRQ0 = 32"
definition IRQ_TIMER :: nat where "IRQ_TIMER = 0"
definition IRQ_KBD :: nat where "IRQ_KBD = 1"
definition IRQ_ERROR :: nat where "IRQ_ERROR = 19"
definition IRQ_SPURIOUS :: nat where "IRQ_SPURIOUS = 31"

definition PIC1_DATA :: uint16 where "PIC1_DATA = 0x20 + 1"
definition PIC2_DATA :: uint16 where "PIC2_DATA = 0xA0 + 1"

definition check_apic :: "klayout \<Rightarrow> kstate \<Rightarrow> (bool \<times> kstate) kres" where
  "check_apic K s = ebind (cpuid K 1 CPUID_EDX s) (\<lambda>(v, s). Inr (v AND push_bit 9 1 \<noteq> 0, s))"

definition check_x2apic :: "klayout \<Rightarrow> kstate \<Rightarrow> (bool \<times> kstate) kres" where
  "check_x2apic K s = ebind (cpuid K 1 CPUID_ECX s) (\<lambda>(v, s). Inr (v AND push_bit 21 1 \<noteq> 0, s))"

definition disable_pic :: "kstate \<Rightarrow> kstate" where
  "disable_pic s = k_outb PIC2_DATA 0xFF (k_outb PIC1_DATA 0xFF s)"

definition enable_apic :: "klayout \<Rightarrow> kstate \<Rightarrow> kstate kres" where
  "enable_apic K s =
     (let (eax, edx) = rdmsr IA32_APIC_BASE_MSR s;
          s = s\<lparr>apic := (apic s)\<lparr>lapic_addr := ucast eax AND 0xfffff0000\<rparr>\<rparr>
      in
      ebind (kprintf K ''[apic] IA32_APIC_BASE_MSR: %x %x\<newline>'' [ucast edx, ucast eax] s) (\<lambda>s.
      ebind (kprintf K ''[apic] APIC at: %x\<newline>'' [lapic_addr (apic s)] s) (\<lambda>s.
      if eax AND IA32_APIC_BASE_MSR_ENABLE = 0 then
        Inr (wrmsr IA32_APIC_BASE_MSR (eax OR IA32_APIC_BASE_MSR_ENABLE) edx s)
      else Inr s)))"

definition write_apic :: "klayout \<Rightarrow> uint32 \<Rightarrow> uint32 \<Rightarrow> kstate \<Rightarrow> uint32 \<times> kstate" where
  "write_apic K idx val s =
     k_mmio_read32 K (lapic_addr (apic s) + ucast APIC_ID)
       (k_mmio_write32 (lapic_addr (apic s) + ucast idx) val s)"

definition read_apic :: "klayout \<Rightarrow> uint32 \<Rightarrow> kstate \<Rightarrow> uint32 \<times> kstate" where
  "read_apic K idx s = k_mmio_read32 K (lapic_addr (apic s) + ucast idx) s"

definition read_ioapic :: "klayout \<Rightarrow> uint8 \<Rightarrow> kstate \<Rightarrow> uint32 \<times> kstate" where
  "read_ioapic K reg s =
     k_mmio_read32 K (ioapic_addr (apic s) + IOAPIC_REG_DATA)
       (k_mmio_write32 (ioapic_addr (apic s) + IOAPIC_REG_INDEX) (ucast reg) s)"

definition write_ioapic :: "uint8 \<Rightarrow> uint32 \<Rightarrow> kstate \<Rightarrow> kstate" where
  "write_ioapic reg val s =
     k_mmio_write32 (ioapic_addr (apic s) + IOAPIC_REG_DATA) val
       (k_mmio_write32 (ioapic_addr (apic s) + IOAPIC_REG_INDEX) (ucast reg) s)"

definition ioapic_init :: "klayout \<Rightarrow> kstate \<Rightarrow> kstate kres" where
  "ioapic_init K s =
     ebind (kprintf K ''[apic] IO APIC at: %x\<newline>'' [ioapic_addr (apic s)] s) (\<lambda>s.
     let s = write_ioapic (IOAPIC_REDTBL_START + of_nat IRQ_KBD * 2) (of_nat (T_IRQ0 + IRQ_KBD)) s
     in Inr (write_ioapic (IOAPIC_REDTBL_START + of_nat IRQ_KBD * 2 + 1) 0 s))"

primrec apic_wait_icr :: "nat \<Rightarrow> klayout \<Rightarrow> kstate \<Rightarrow> kstate kres" where
  "apic_wait_icr 0 K s = Inl OutOfFuel"
| "apic_wait_icr (Suc n) K s =
     (let (v, s) = read_apic K APIC_ICR_LOW s in
      if v AND APIC_ICR_DELIV_STATUS \<noteq> 0 then apic_wait_icr n K s else Inr s)"

primrec write_apics :: "klayout \<Rightarrow> (uint32 \<times> uint32) list \<Rightarrow> kstate \<Rightarrow> kstate" where
  "write_apics K [] s = s"
| "write_apics K (w # ws) s = write_apics K ws (snd (write_apic K (fst w) (snd w) s))"

definition apic_init :: "klayout \<Rightarrow> kstate \<Rightarrow> kstate kres" where
  "apic_init K s =
     ebind (check_apic K s) (\<lambda>(ok, s).
     if \<not> ok then Inl (Panic ''apic: not supported\<newline>'')
     else
       ebind (check_x2apic K s) (\<lambda>(x2, s).
       ebind (if \<not> x2 then kprintf K ''[apic] x2apic not supported\<newline>'' [] s else Inr s) (\<lambda>s.
       ebind (enable_apic K (disable_pic s)) (\<lambda>s.
       let s = write_apics K
                 [(APIC_SVR, APIC_SVR_ENABLE OR of_nat (T_IRQ0 + IRQ_SPURIOUS)),
                  (APIC_TIMER_DCR, APIC_TIMER_DCR_DIV1),
                  (APIC_LVT_TIMER, APIC_LVT_TIMER_PERIODIC OR of_nat (T_IRQ0 + IRQ_TIMER)),
                  (APIC_TIMER_ICR, APIC_TIMER_ICR_VALUE),
                  (APIC_LVT_LINT0, APIC_LVT_MASKED),
                  (APIC_LVT_LINT1, APIC_LVT_MASKED)] s;
           (ver, s) = read_apic K APIC_VER s;
           s = (if drop_bit 16 ver AND 0xFF \<ge> 4
                then write_apics K [(APIC_LVT_PMC, APIC_LVT_MASKED)] s else s);
           s = write_apics K
                 [(APIC_LVT_ERROR, of_nat (T_IRQ0 + IRQ_ERROR)),
                  (APIC_ESR, 0), (APIC_ESR, 0), (APIC_EOI, 0),
                  (APIC_ICR_HIGH, 0),
                  (APIC_ICR_LOW, APIC_ICR_BROADCAST OR APIC_ICR_LEVEL OR APIC_ICR_INIT)] s
       in
       ebind (apic_wait_icr (loop_fuel K) K s) (\<lambda>s.
       ioapic_init K (write_apics K [(APIC_TPR, 0)] s))))))"

definition apic_eoi :: "klayout \<Rightarrow> kstate \<Rightarrow> kstate" where
  "apic_eoi K s = snd (write_apic K APIC_EOI 0 s)"

section \<open>What the controllers are programmed with\<close>

lemma k_mmio_write32_simps [simp]:
  "io (k_mmio_write32 a v s) = mmio_write32 a v (io s)"
  "apic (k_mmio_write32 a v s) = apic s" "mem (k_mmio_write32 a v s) = mem s"
  "console (k_mmio_write32 a v s) = console s" "ticks (k_mmio_write32 a v s) = ticks s"
  by (simp_all add: k_mmio_write32_def)

lemma k_mmio_read32_simps [simp]:
  "io (snd (k_mmio_read32 K a s)) = snd (mmio_read32 (mmio_dev K) a (io s))"
  "fst (k_mmio_read32 K a s) = mmio_dev K (io s) a"
  "apic (snd (k_mmio_read32 K a s)) = apic s" "mem (snd (k_mmio_read32 K a s)) = mem s"
  "console (snd (k_mmio_read32 K a s)) = console s" "ticks (snd (k_mmio_read32 K a s)) = ticks s"
  by (simp_all add: k_mmio_read32_def mmio_read32_def Let_def)

lemma write_apics_effect:
  "apic (write_apics K ws s) = apic s \<and> mem (write_apics K ws s) = mem s \<and>
   mmio_writes (io (write_apics K ws s)) =
     mmio_writes (io s) @ map (\<lambda>(i, v). (lapic_addr (apic s) + ucast i, v)) ws \<and>
   written8 p (io (write_apics K ws s)) = written8 p (io s)"
  by (induction ws arbitrary: s) (auto simp: write_apic_def)

declare write_apics.simps [simp del]

lemma read_apic_effect:
  assumes "read_apic K idx s = (v, s')"
  shows "apic s' = apic s" "mem s' = mem s" "mmio_writes (io s') = mmio_writes (io s)"
    "written8 p (io s') = written8 p (io s)"
proof -
  have "s' = snd (k_mmio_read32 K (lapic_addr (apic s) + ucast idx) s)"
    using assms by (simp add: read_apic_def)
  then show "apic s' = apic s" "mem s' = mem s" "mmio_writes (io s') = mmio_writes (io s)"
    "written8 p (io s') = written8 p (io s)" by simp_all
qed

text \<open>The interrupt command register is seen idle within \<open>n\<close> polls after the accesses \<open>tr\<close>.\<close>

primrec icr_idle :: "nat \<Rightarrow> mmio_device \<Rightarrow> uint64 \<Rightarrow> trace \<Rightarrow> bool" where
  "icr_idle 0 D a tr = False"
| "icr_idle (Suc n) D a tr \<longleftrightarrow>
     D tr a AND APIC_ICR_DELIV_STATUS = 0 \<or> icr_idle n D a (snd (mmio_read32 D a tr))"

lemma apic_wait_icr_returns:
  assumes "icr_idle n (mmio_dev K) (lapic_addr (apic s) + ucast APIC_ICR_LOW) (io s)"
  shows "\<exists>s'. apic_wait_icr n K s = Inr s' \<and> apic s' = apic s \<and> mem s' = mem s \<and>
    mmio_writes (io s') = mmio_writes (io s) \<and> (\<forall>p. written8 p (io s') = written8 p (io s))"
  using assms
proof (induction n arbitrary: s)
  case 0
  then show ?case by simp
next
  case (Suc n)
  obtain v s1 where r: "read_apic K APIC_ICR_LOW s = (v, s1)" by (metis surj_pair)
  then have v: "v = mmio_dev K (io s) (lapic_addr (apic s) + ucast APIC_ICR_LOW)"
    and io1: "io s1 = snd (mmio_read32 (mmio_dev K) (lapic_addr (apic s) + ucast APIC_ICR_LOW) (io s))"
    using k_mmio_read32_simps [of K "lapic_addr (apic s) + ucast APIC_ICR_LOW" s]
    by (simp_all add: read_apic_def)
  note e = read_apic_effect [OF r]
  show ?case
  proof (cases "v AND APIC_ICR_DELIV_STATUS = 0")
    case True
    with r e show ?thesis by simp
  next
    case False
    with Suc.prems v io1 e(1)
    have "icr_idle n (mmio_dev K) (lapic_addr (apic s1) + ucast APIC_ICR_LOW) (io s1)" by simp
    from Suc.IH [OF this] obtain s' where "apic_wait_icr n K s1 = Inr s'"
      "apic s' = apic s1" "mem s' = mem s1" "mmio_writes (io s') = mmio_writes (io s1)"
      "\<forall>p. written8 p (io s') = written8 p (io s1)" by blast
    with r e False show ?thesis by simp
  qed
qed

text \<open>The base address that \<^verbatim>\<open>enable_apic\<close> takes from the register.\<close>

definition apic_base :: "kstate \<Rightarrow> uint64" where
  "apic_base s = ucast (fst (rdmsr IA32_APIC_BASE_MSR s)) AND 0xfffff0000"

lemma enable_apic_effect:
  "\<exists>s'. enable_apic K s = Inr s' \<and> lapic_addr (apic s') = apic_base s \<and>
     ioapic_addr (apic s') = ioapic_addr (apic s) \<and> mem s' = mem s \<and> io s' = io s"
proof -
  obtain eax edx where r: "rdmsr IA32_APIC_BASE_MSR s = (eax, edx)" by (metis surj_pair)
  define s1 where "s1 = s\<lparr>apic := (apic s)\<lparr>lapic_addr := ucast eax AND 0xfffff0000\<rparr>\<rparr>"
  obtain o1 where o1: "kprintf K ''[apic] IA32_APIC_BASE_MSR: %x %x\<newline>'' [ucast edx, ucast eax] s1 =
      Inr (s1\<lparr>console := console s1 @ o1\<rparr>)" using kprintf_total [of _ K _ s1] by force
  define s2 where "s2 = s1\<lparr>console := console s1 @ o1\<rparr>"
  obtain o2 where o2: "kprintf K ''[apic] APIC at: %x\<newline>'' [lapic_addr (apic s2)] s2 =
      Inr (s2\<lparr>console := console s2 @ o2\<rparr>)" using kprintf_total [of _ K _ s2] by force
  show ?thesis
    using o1 o2
    by (auto simp: enable_apic_def r Let_def s1_def [symmetric] s2_def [symmetric] wrmsr_def
        apic_base_def)
       (simp_all add: s2_def s1_def)
qed

definition apic_program :: "uint64 \<Rightarrow> bool \<Rightarrow> (uint64 \<times> uint32) list" where
  "apic_program base pmc =
     map (\<lambda>(i, v). (base + i, v))
       ([(0xF0, 0x13F), (0x3E0, 0xB), (0x320, 0x20020), (0x380, 10000000),
         (0x350, 0x10000), (0x360, 0x10000)] @
        (if pmc then [(0x340, 0x10000)] else []) @
        [(0x370, 51), (0x280, 0), (0x280, 0), (0xB0, 0), (0x310, 0), (0x300, 0x88500), (0x80, 0)])"

definition ioapic_program :: "uint64 \<Rightarrow> (uint64 \<times> uint32) list" where
  "ioapic_program base = [(base, 0x12), (base + 0x10, 33), (base, 0x13), (base + 0x10, 0)]"

lemma ioapic_init_effect:
  "\<exists>s'. ioapic_init K s = Inr s' \<and> mem s' = mem s \<and>
     mmio_writes (io s') = mmio_writes (io s) @ ioapic_program (ioapic_addr (apic s)) \<and>
     (\<forall>p. written8 p (io s') = written8 p (io s))"
proof -
  obtain o1 where "kprintf K ''[apic] IO APIC at: %x\<newline>'' [ioapic_addr (apic s)] s =
      Inr (s\<lparr>console := console s @ o1\<rparr>)" using kprintf_total [of _ K _ s] by force
  then show ?thesis
    by (simp add: ioapic_init_def write_ioapic_def ioapic_program_def IOAPIC_REDTBL_START_def
        IOAPIC_REG_DATA_def IOAPIC_REG_INDEX_def IRQ_KBD_def T_IRQ0_def)
qed

lemma disable_pic_effect:
  "mem (disable_pic s) = mem s" "apic (disable_pic s) = apic s" "apic_base (disable_pic s) = apic_base s"
  "mmio_writes (io (disable_pic s)) = mmio_writes (io s)"
  "written8 0x21 (io (disable_pic s)) = written8 0x21 (io s) @ [0xFF]"
  "written8 0xA1 (io (disable_pic s)) = written8 0xA1 (io s) @ [0xFF]"
  by (simp_all add: disable_pic_def k_outb_def apic_base_def rdmsr_def PIC1_DATA_def PIC2_DATA_def)

lemmas apic_regs =
  APIC_SVR_def APIC_SVR_ENABLE_def IRQ_SPURIOUS_def APIC_TIMER_DCR_def APIC_TIMER_DCR_DIV1_def
  APIC_LVT_TIMER_def APIC_LVT_TIMER_PERIODIC_def IRQ_TIMER_def APIC_TIMER_ICR_def
  APIC_TIMER_ICR_VALUE_def APIC_LVT_LINT0_def APIC_LVT_LINT1_def APIC_LVT_MASKED_def
  APIC_LVT_PMC_def APIC_LVT_ERROR_def IRQ_ERROR_def APIC_ESR_def APIC_EOI_def APIC_ICR_HIGH_def
  APIC_ICR_LOW_def APIC_ICR_BROADCAST_def APIC_ICR_LEVEL_def APIC_ICR_INIT_def APIC_TPR_def
  T_IRQ0_def

text \<open>The part of \<^verbatim>\<open>apic_init\<close> behind \<^verbatim>\<open>enable_apic\<close>.\<close>

definition apic_setup :: "klayout \<Rightarrow> kstate \<Rightarrow> kstate kres" where
  "apic_setup K s =
     (let s = write_apics K
                 [(APIC_SVR, APIC_SVR_ENABLE OR of_nat (T_IRQ0 + IRQ_SPURIOUS)),
                  (APIC_TIMER_DCR, APIC_TIMER_DCR_DIV1),
                  (APIC_LVT_TIMER, APIC_LVT_TIMER_PERIODIC OR of_nat (T_IRQ0 + IRQ_TIMER)),
                  (APIC_TIMER_ICR, APIC_TIMER_ICR_VALUE),
                  (APIC_LVT_LINT0, APIC_LVT_MASKED),
                  (APIC_LVT_LINT1, APIC_LVT_MASKED)] s;
           (ver, s) = read_apic K APIC_VER s;
           s = (if drop_bit 16 ver AND 0xFF \<ge> 4
                then write_apics K [(APIC_LVT_PMC, APIC_LVT_MASKED)] s else s);
           s = write_apics K
                 [(APIC_LVT_ERROR, of_nat (T_IRQ0 + IRQ_ERROR)),
                  (APIC_ESR, 0), (APIC_ESR, 0), (APIC_EOI, 0),
                  (APIC_ICR_HIGH, 0),
                  (APIC_ICR_LOW, APIC_ICR_BROADCAST OR APIC_ICR_LEVEL OR APIC_ICR_INIT)] s
       in
       ebind (apic_wait_icr (loop_fuel K) K s) (\<lambda>s.
       ioapic_init K (write_apics K [(APIC_TPR, 0)] s)))"

lemma apic_setup_effect:
  assumes "\<And>tr. icr_idle (loop_fuel K) (mmio_dev K) (lapic_addr (apic s) + 0x300) tr"
  shows "\<exists>s' pmc. apic_setup K s = Inr s' \<and> mem s' = mem s \<and>
    mmio_writes (io s') = mmio_writes (io s) @ apic_program (lapic_addr (apic s)) pmc @
      ioapic_program (ioapic_addr (apic s)) \<and>
    (\<forall>p. written8 p (io s') = written8 p (io s))"
proof -
  define ws1 where "ws1 = [(APIC_SVR, APIC_SVR_ENABLE OR of_nat (T_IRQ0 + IRQ_SPURIOUS)),
      (APIC_TIMER_DCR, APIC_TIMER_DCR_DIV1),
      (APIC_LVT_TIMER, APIC_LVT_TIMER_PERIODIC OR of_nat (T_IRQ0 + IRQ_TIMER)),
      (APIC_TIMER_ICR, APIC_TIMER_ICR_VALUE),
      (APIC_LVT_LINT0, APIC_LVT_MASKED), (APIC_LVT_LINT1, APIC_LVT_MASKED)]"
  define ws2 where "ws2 = [(APIC_LVT_ERROR, of_nat (T_IRQ0 + IRQ_ERROR)), (APIC_ESR, 0 :: uint32),
      (APIC_ESR, 0), (APIC_EOI, 0), (APIC_ICR_HIGH, 0),
      (APIC_ICR_LOW, APIC_ICR_BROADCAST OR APIC_ICR_LEVEL OR APIC_ICR_INIT)]"
  define s1 where "s1 = write_apics K ws1 s"
  obtain ver s2 where r: "read_apic K APIC_VER s1 = (ver, s2)" by (metis surj_pair)
  define pmc where "pmc \<longleftrightarrow> drop_bit 16 ver AND 0xFF \<ge> 4"
  define s3 where "s3 = (if pmc then write_apics K [(APIC_LVT_PMC, APIC_LVT_MASKED)] s2 else s2)"
  define s4 where "s4 = write_apics K ws2 s3"
  note w = write_apics_effect [of K]
  have a: "apic s1 = apic s" "apic s2 = apic s" "apic s3 = apic s" "apic s4 = apic s"
    using read_apic_effect [OF r] w by (simp_all add: s1_def s3_def s4_def)
  have "icr_idle (loop_fuel K) (mmio_dev K) (lapic_addr (apic s4) + ucast APIC_ICR_LOW) (io s4)"
    using assms by (simp add: a APIC_ICR_LOW_def)
  from apic_wait_icr_returns [OF this] obtain s5 where s5: "apic_wait_icr (loop_fuel K) K s4 = Inr s5"
    "apic s5 = apic s" "mem s5 = mem s4" "mmio_writes (io s5) = mmio_writes (io s4)"
    "\<forall>p. written8 p (io s5) = written8 p (io s4)" using a by auto
  define s6 where "s6 = write_apics K [(APIC_TPR, 0)] s5"
  obtain s7 where s7: "ioapic_init K s6 = Inr s7" "mem s7 = mem s6"
    "mmio_writes (io s7) = mmio_writes (io s6) @ ioapic_program (ioapic_addr (apic s6))"
    "\<forall>p. written8 p (io s7) = written8 p (io s6)"
    using ioapic_init_effect [of K s6] by blast
  have m: "mmio_writes (io s6) = mmio_writes (io s) @ apic_program (lapic_addr (apic s)) pmc"
    using w read_apic_effect [OF r] s5 a
    by (simp add: s6_def s4_def s3_def s1_def ws1_def ws2_def apic_program_def apic_regs)
  have "apic_setup K s = Inr s7"
    unfolding apic_setup_def ws1_def [symmetric] ws2_def [symmetric] Let_def s1_def [symmetric] r
      prod.case pmc_def [symmetric] s3_def [symmetric] s4_def [symmetric] s5(1) ebind_Inr
      s6_def [symmetric] by (rule s7(1))
  moreover have "mem s7 = mem s" "\<forall>p. written8 p (io s7) = written8 p (io s)"
    using s7 s5 w read_apic_effect [OF r] by (simp_all add: s6_def s4_def s3_def s1_def)
  moreover have "apic s6 = apic s" using w s5 by (simp add: s6_def)
  ultimately show ?thesis using s7(3) m by auto
qed

text \<open>
  C33. On a processor with an APIC whose command register becomes idle, \<^verbatim>\<open>apic_init\<close> returns after
  masking both legacy controllers and programming, in this order, the spurious vector, a
  periodic timer on vector 32, masked local lines, the error vector, the broadcast INIT, and
  the keyboard's redirection entry with vector 33.
\<close>

theorem apic_init_programs:
  assumes "cpuid_out K 1 3 AND push_bit 9 1 \<noteq> 0"
    and idle: "\<And>tr. icr_idle (loop_fuel K) (mmio_dev K) (apic_base s + 0x300) tr"
  shows "\<exists>s' pmc. apic_init K s = Inr s' \<and> mem s' = mem s \<and>
    mmio_writes (io s') =
      mmio_writes (io s) @ apic_program (apic_base s) pmc @ ioapic_program (ioapic_addr (apic s)) \<and>
    written8 0x21 (io s') = written8 0x21 (io s) @ [0xFF] \<and>
    written8 0xA1 (io s') = written8 0xA1 (io s) @ [0xFF]"
proof -
  let ?x2 = "cpuid_out K 1 2 AND push_bit 21 1 \<noteq> 0"
  have chk: "check_apic K s = Inr (True, s)" "check_x2apic K s = Inr (?x2, s)"
    using assms(1) by (simp_all add: check_apic_def check_x2apic_def cpuid_def CPUID_EDX_def CPUID_ECX_def)
  obtain c where c: "(if \<not> ?x2 then kprintf K ''[apic] x2apic not supported\<newline>'' [] s else Inr s) =
      Inr (s\<lparr>console := c\<rparr>)"
  proof (cases ?x2)
    case True
    show ?thesis by (rule that [of "console s"]) (use True in simp)
  next
    case False
    with that kprintf_total [of "''[apic] x2apic not supported\<newline>''" K "[]" s] show ?thesis by auto
  qed
  define s1 where "s1 = disable_pic (s\<lparr>console := c\<rparr>)"
  have b: "apic_base s1 = apic_base s" "mem s1 = mem s" "apic s1 = apic s"
    "mmio_writes (io s1) = mmio_writes (io s)"
    "written8 0x21 (io s1) = written8 0x21 (io s) @ [0xFF]"
    "written8 0xA1 (io s1) = written8 0xA1 (io s) @ [0xFF]"
    by (simp_all add: s1_def disable_pic_effect) (simp add: apic_base_def rdmsr_def)
  obtain s2 where s2: "enable_apic K s1 = Inr s2" "lapic_addr (apic s2) = apic_base s"
    "ioapic_addr (apic s2) = ioapic_addr (apic s)" "mem s2 = mem s" "io s2 = io s1"
    using enable_apic_effect [of K s1] b by auto
  have "apic_init K s = apic_setup K s2"
    using s2(1) c by (simp add: apic_init_def chk apic_setup_def s1_def [symmetric] split del: if_split)
  moreover obtain s' pmc where "apic_setup K s2 = Inr s'" "mem s' = mem s2"
    "mmio_writes (io s') = mmio_writes (io s2) @ apic_program (lapic_addr (apic s2)) pmc @
      ioapic_program (ioapic_addr (apic s2))"
    "\<forall>p. written8 p (io s') = written8 p (io s2)"
    using apic_setup_effect [of K s2] idle s2(2) by auto
  ultimately show ?thesis using s2 b by auto
qed

text \<open>The registers read as zero: the command register is idle at the first poll.\<close>

definition apic_demo :: klayout where
  "apic_demo = demo_layout\<lparr>cpuid_out := (\<lambda>_ _. 0x200)\<rparr>"

theorem apic_init_programs_witness:
  "\<exists>s' pmc. apic_init apic_demo demo_state = Inr s' \<and> mem s' = mem demo_state \<and>
    mmio_writes (io s') = mmio_writes (io demo_state) @ apic_program (apic_base demo_state) pmc @
      ioapic_program (ioapic_addr (apic demo_state)) \<and>
    written8 0x21 (io s') = written8 0x21 (io demo_state) @ [0xFF] \<and>
    written8 0xA1 (io s') = written8 0xA1 (io demo_state) @ [0xFF]"
proof (rule apic_init_programs)
  show "cpuid_out apic_demo 1 3 AND push_bit 9 1 \<noteq> 0" by (simp add: apic_demo_def)
  have "loop_fuel apic_demo = Suc 16777215" by (simp add: apic_demo_def demo_layout_def)
  then show "icr_idle (loop_fuel apic_demo) (mmio_dev apic_demo) (apic_base demo_state + 0x300) tr"
    for tr by (simp only: icr_idle.simps) (simp add: apic_demo_def demo_layout_def)
qed

end
