(* ===== verification/Kbd.thy ===== *)
theory Kbd
  imports PhysMem
begin

text \<open>
  The keyboard driver, \<^verbatim>\<open>drivers/kbd.c\<close>: one scan code is read from the controller, translated
  by a table, and the shift state is kept in \<^verbatim>\<open>flags\<close>.
\<close>

definition KBD_DATA :: uint16 where "KBD_DATA = 0x60"
definition KBD_FLAG_SHIFT :: uint8 where "KBD_FLAG_SHIFT = 0x01"

definition normalmap :: "uint8 list" where
  "normalmap =
     [0, 27, 49, 50, 51, 52, 53, 54, 55, 56, 57, 48, 45, 61, 8, 9,
      113, 119, 101, 114, 116, 121, 117, 105, 111, 112, 91, 93, 10, 0, 97, 115,
      100, 102, 103, 104, 106, 107, 108, 59, 39, 96, 0, 92, 122, 120, 99, 118,
      98, 110, 109, 44, 46, 47, 0, 42, 0, 32, 0, 0, 0, 0, 0, 0]"

definition shiftmap :: "uint8 list" where
  "shiftmap =
     [0, 27, 33, 64, 35, 36, 37, 94, 38, 42, 40, 41, 95, 43, 8, 9,
      81, 87, 69, 82, 84, 89, 85, 73, 79, 80, 123, 125, 10, 0, 65, 83,
      68, 70, 71, 72, 74, 75, 76, 58, 34, 126, 0, 124, 90, 88, 67, 86,
      66, 78, 77, 60, 62, 63, 0, 42, 0, 32, 0, 0, 0, 0, 0, 0]"

definition kbdgetc :: "klayout \<Rightarrow> kstate \<Rightarrow> uint8 \<times> kstate" where
  "kbdgetc K s =
     (let (n, s) = k_inb K KBD_DATA s in
      if n = 0x2A \<or> n = 0x36 then (0, s\<lparr>kbd_flags := kbd_flags s OR KBD_FLAG_SHIFT\<rparr>)
      else if n = 0xAA \<or> n = 0xB6 then (0, s\<lparr>kbd_flags := kbd_flags s AND NOT KBD_FLAG_SHIFT\<rparr>)
      else if n < 0x40 then
        (if kbd_flags s AND KBD_FLAG_SHIFT \<noteq> 0 then (shiftmap ! unat n, s)
         else (normalmap ! unat n, s))
      else (0, s))"

section \<open>The shift state over a run of key events\<close>

text \<open>
  A run of the driver reads one scan code after another.  The reference state is whether a
  shift key is held, which only the four shift codes change.
\<close>

inductive kbd_run :: "klayout \<Rightarrow> kstate \<Rightarrow> uint8 list \<Rightarrow> kstate \<Rightarrow> bool" where
  kbd_run_Nil: "kbd_run K s [] s"
| kbd_run_Cons:
    "k_inb K KBD_DATA s = (n, s1) \<Longrightarrow> kbdgetc K s = (c, s2) \<Longrightarrow> kbd_run K s2 codes s' \<Longrightarrow>
       kbd_run K s (n # codes) s'"

inductive_cases kbd_run_ConsE: "kbd_run K s (n # codes) s'"

definition shift_after :: "bool \<Rightarrow> uint8 \<Rightarrow> bool" where
  "shift_after held n = (if n \<in> {0x2A, 0x36} then True else if n \<in> {0xAA, 0xB6} then False else held)"

definition shift_held :: "kstate \<Rightarrow> bool" where
  "shift_held s \<longleftrightarrow> kbd_flags s AND KBD_FLAG_SHIFT \<noteq> 0"

lemma k_inb_flags: "k_inb K port s = (n, s1) \<Longrightarrow> kbd_flags s1 = kbd_flags s"
  by (auto simp: k_inb_def inb_def Let_def)

lemma shift_flag_set: "(f OR KBD_FLAG_SHIFT) AND KBD_FLAG_SHIFT \<noteq> 0"
proof -
  have "bit ((f OR KBD_FLAG_SHIFT) AND KBD_FLAG_SHIFT) 0"
    by (simp add: KBD_FLAG_SHIFT_def bit_simps)
  then show ?thesis by auto
qed

lemma shift_flag_clear: "(f AND NOT KBD_FLAG_SHIFT) AND KBD_FLAG_SHIFT = 0"
  by (rule bit_word_eqI) (auto simp: bit_simps)

lemma kbdgetc_eq:
  assumes "k_inb K KBD_DATA s = (n, s1)"
  shows "kbdgetc K s =
     (if n \<in> {0x2A, 0x36} then (0, s1\<lparr>kbd_flags := kbd_flags s OR KBD_FLAG_SHIFT\<rparr>)
      else if n \<in> {0xAA, 0xB6} then (0, s1\<lparr>kbd_flags := kbd_flags s AND NOT KBD_FLAG_SHIFT\<rparr>)
      else (if 0x40 \<le> n then 0 else if shift_held s then shiftmap ! unat n else normalmap ! unat n, s1))"
  unfolding kbdgetc_def assms Let_def prod.case k_inb_flags [OF assms] shift_held_def
  by (simp add: not_less [symmetric])

lemma kbdgetc_shift:
  assumes "k_inb K KBD_DATA s = (n, s1)" and "kbdgetc K s = (c, s2)"
  shows "shift_held s2 = shift_after (shift_held s) n"
proof -
  consider "n \<in> {0x2A, 0x36}" | "n \<notin> {0x2A, 0x36}" "n \<in> {0xAA, 0xB6}"
    | "n \<notin> {0x2A, 0x36}" "n \<notin> {0xAA, 0xB6}" by blast
  then show ?thesis
  proof cases
    case 1
    with assms kbdgetc_eq [OF assms(1)] have "kbd_flags s2 = kbd_flags s OR KBD_FLAG_SHIFT" by auto
    with 1 shift_flag_set show ?thesis by (simp only: shift_held_def shift_after_def) simp
  next
    case 2
    with assms kbdgetc_eq [OF assms(1)] have "kbd_flags s2 = kbd_flags s AND NOT KBD_FLAG_SHIFT"
      by auto
    with 2 show ?thesis by (simp add: shift_held_def shift_after_def shift_flag_clear)
  next
    case 3
    with assms kbdgetc_eq [OF assms(1)] have "kbd_flags s2 = kbd_flags s"
      by (simp add: k_inb_flags)
    with 3 show ?thesis by (simp add: shift_held_def shift_after_def)
  qed
qed

text \<open>
  C34. Over any run of scan codes, whatever the controller delivers, the shift state that the
  driver keeps is the one that the sequence of shift presses and releases determines.
\<close>

theorem kbd_run_shift:
  assumes "kbd_run K s codes s'"
  shows "shift_held s' = foldl shift_after (shift_held s) codes"
  using assms
proof (induction rule: kbd_run.induct)
  case (kbd_run_Nil K s)
  show ?case by simp
next
  case (kbd_run_Cons K s n s1 c s2 codes s')
  with kbdgetc_shift [of K s n s1 c s2] show ?case by simp
qed

text \<open>A left shift key held down, repeated by the controller.\<close>

definition kbd_demo :: klayout where
  "kbd_demo = demo_layout\<lparr>port_dev := (\<lambda>_ _. 0x2A)\<rparr>"

lemma kbd_demo_run: "\<exists>s'. kbd_run kbd_demo s [0x2A, 0x2A] s'"
proof -
  have "k_inb kbd_demo KBD_DATA t = (0x2A, t\<lparr>io := In8 KBD_DATA 0x2A # io t\<rparr>)" for t
    by (simp add: k_inb_def inb_def kbd_demo_def)
  moreover have "kbdgetc kbd_demo t = (fst (kbdgetc kbd_demo t), snd (kbdgetc kbd_demo t))" for t
    by simp
  ultimately show ?thesis by (metis kbd_run_Cons kbd_run_Nil)
qed

theorem kbd_run_shift_witness: "\<exists>s'. kbd_run kbd_demo demo_state [0x2A, 0x2A] s' \<and> shift_held s'"
  using kbd_demo_run [of demo_state] kbd_run_shift [of kbd_demo demo_state "[0x2A, 0x2A]"]
  by (auto simp: shift_after_def)

end
