(* ===== verification/Trap.thy ===== *)
theory Trap
  imports Apic Kbd VirtMem
begin

text \<open>
  The interrupt dispatcher, \<^verbatim>\<open>arch/x86/trap.c\<close>, with the frame that \<^verbatim>\<open>vectors.S\<close> and the
  processor leave on the stack (\<^verbatim>\<open>include/trap.h\<close>).
\<close>

record trapframe =
  tf_r15 :: uint64
  tf_r14 :: uint64
  tf_r13 :: uint64
  tf_r12 :: uint64
  tf_r11 :: uint64
  tf_r10 :: uint64
  tf_r9 :: uint64
  tf_r8 :: uint64
  tf_rbp :: uint64
  tf_rdi :: uint64
  tf_rsi :: uint64
  tf_rdx :: uint64
  tf_rcx :: uint64
  tf_rbx :: uint64
  tf_rax :: uint64
  tf_trapno :: uint64
  tf_err :: uint64
  tf_rip :: uint64
  tf_cs :: uint64
  tf_rflags :: uint64
  tf_rsp :: uint64
  tf_ss :: uint64

definition X86_EX_PF :: uint64 where "X86_EX_PF = 14"

definition dump_tf :: "klayout \<Rightarrow> trapframe \<Rightarrow> kstate \<Rightarrow> kstate kres" where
  "dump_tf K tf s =
     kprintfs K
       [(''trapframe:\<newline>'', []),
        (''    trapno = %x\<newline>'', [tf_trapno tf]),
        (''    r15 = %x\<newline>'', [tf_r15 tf]),
        (''    r14 = %x\<newline>'', [tf_r14 tf]),
        (''    r13 = %x\<newline>'', [tf_r13 tf]),
        (''    r12 = %x\<newline>'', [tf_r12 tf]),
        (''    r11 = %x\<newline>'', [tf_r11 tf]),
        (''    r10 = %x\<newline>'', [tf_r10 tf]),
        (''     r9 = %x\<newline>'', [tf_r9 tf]),
        (''     r8 = %x\<newline>'', [tf_r8 tf]),
        (''    rbp = %x\<newline>'', [tf_rbp tf]),
        (''    rdi = %x\<newline>'', [tf_rdi tf]),
        (''    rsi = %x\<newline>'', [tf_rsi tf]),
        (''    rdx = %x\<newline>'', [tf_rdx tf]),
        (''    rcx = %x\<newline>'', [tf_rcx tf]),
        (''    rbx = %x\<newline>'', [tf_rbx tf]),
        (''    rax = %x\<newline>'', [tf_rax tf]),
        (''    err = %x\<newline>'', [tf_err tf]),
        (''    rip = %x\<newline>'', [tf_rip tf]),
        (''    rsp = %x\<newline>'', [tf_rsp tf]),
        (''    cs  = %x\<newline>'', [tf_cs tf]),
        (''    ss  = %x\<newline>'', [tf_ss tf]),
        (''    rflags = %x\<newline>'', [tf_rflags tf])] s"

definition trap :: "klayout \<Rightarrow> trapframe \<Rightarrow> kstate \<Rightarrow> kstate kres" where
  "trap K tf s =
     (if tf_trapno tf = X86_EX_PF then page_fault K s
      else if tf_trapno tf = of_nat (T_IRQ0 + IRQ_TIMER) then
        let s = apic_eoi K (s\<lparr>ticks := ticks s + 1\<rparr>) in
        (if ticks s mod 100 = 0 then kprintf K ''ticks = %d\<newline>'' [ticks s] s else Inr s)
      else if tf_trapno tf = of_nat (T_IRQ0 + IRQ_KBD) then
        let (c, s) = kbdgetc K s in
        ebind (if c \<noteq> 0 then kprintf K ''kbd: %c\<newline>'' [ucast c] s else Inr s) (\<lambda>s.
        Inr (apic_eoi K s))
      else
        ebind (dump_tf K tf s) (\<lambda>s. Inl (Panic ''unknown interrupt\<newline>'')))"

section \<open>Properties of the dispatcher\<close>

lemma apic_eoi_effect [simp]:
  "mem (apic_eoi K s) = mem s" "apic (apic_eoi K s) = apic s" "ticks (apic_eoi K s) = ticks s"
  "console (apic_eoi K s) = console s"
  "mmio_writes (io (apic_eoi K s)) = mmio_writes (io s) @ [(lapic_addr (apic s) + 0xB0, 0)]"
  by (simp_all add: apic_eoi_def write_apic_def APIC_EOI_def)

text \<open>
  A timer interrupt counts one tick, acknowledges the interrupt exactly once, touches no
  memory, and prints nothing except on every hundredth tick.
\<close>

theorem trap_timer_tick:
  assumes "tf_trapno tf = 32"
  shows "\<exists>s'. trap K tf s = Inr s' \<and> ticks s' = ticks s + 1 \<and> mem s' = mem s \<and>
    mmio_writes (io s') = mmio_writes (io s) @ [(lapic_addr (apic s) + 0xB0, 0)] \<and>
    ((ticks s + 1) mod 100 \<noteq> 0 \<longrightarrow> console s' = console s)"
proof -
  let ?s = "apic_eoi K (s\<lparr>ticks := ticks s + 1\<rparr>)"
  obtain out where "kprintf K ''ticks = %d\<newline>'' [ticks s + 1] ?s = Inr (?s\<lparr>console := console ?s @ out\<rparr>)"
    using kprintf_total [of _ K _ ?s] by force
  then show ?thesis
    using assms by (auto simp: trap_def X86_EX_PF_def T_IRQ0_def IRQ_TIMER_def Let_def)
qed

theorem trap_timer_tick_witness:
  "\<exists>s'. trap demo_layout \<lparr>tf_r15 = 0, tf_r14 = 0, tf_r13 = 0, tf_r12 = 0, tf_r11 = 0, tf_r10 = 0,
      tf_r9 = 0, tf_r8 = 0, tf_rbp = 0, tf_rdi = 0, tf_rsi = 0, tf_rdx = 0, tf_rcx = 0, tf_rbx = 0,
      tf_rax = 0, tf_trapno = 32, tf_err = 0, tf_rip = 0, tf_cs = 0, tf_rflags = 0, tf_rsp = 0,
      tf_ss = 0\<rparr> demo_state = Inr s' \<and> ticks s' = 1"
  using trap_timer_tick [of "\<lparr>tf_r15 = 0, tf_r14 = 0, tf_r13 = 0, tf_r12 = 0, tf_r11 = 0, tf_r10 = 0,
      tf_r9 = 0, tf_r8 = 0, tf_rbp = 0, tf_rdi = 0, tf_rsi = 0, tf_rdx = 0, tf_rcx = 0, tf_rbx = 0,
      tf_rax = 0, tf_trapno = 32, tf_err = 0, tf_rip = 0, tf_cs = 0, tf_rflags = 0, tf_rsp = 0,
      tf_ss = 0\<rparr>" demo_layout demo_state]
  by (auto simp: demo_state_def)

lemma dump_tf_total: "\<exists>out. dump_tf K tf s = Inr (s\<lparr>console := console s @ out\<rparr>)"
  unfolding dump_tf_def by (rule kprintfs_total) simp

text \<open>
  A vector other than the page fault, the timer and the keyboard always stops the kernel
  with the panic for unknown interrupts: no state in which it could hang earlier or return
  exists.
\<close>

theorem trap_unknown_panics:
  assumes "tf_trapno tf \<notin> {14, 32, 33}"
  shows "trap K tf s = Inl (Panic ''unknown interrupt\<newline>'')"
proof -
  obtain out where "dump_tf K tf s = Inr (s\<lparr>console := console s @ out\<rparr>)"
    using dump_tf_total by blast
  with assms show ?thesis
    by (simp add: trap_def X86_EX_PF_def T_IRQ0_def IRQ_TIMER_def IRQ_KBD_def)
qed

theorem trap_unknown_panics_witness:
  "trap demo_layout \<lparr>tf_r15 = 0, tf_r14 = 0, tf_r13 = 0, tf_r12 = 0, tf_r11 = 0, tf_r10 = 0,
      tf_r9 = 0, tf_r8 = 0, tf_rbp = 0, tf_rdi = 0, tf_rsi = 0, tf_rdx = 0, tf_rcx = 0, tf_rbx = 0,
      tf_rax = 0, tf_trapno = 13, tf_err = 0, tf_rip = 0, tf_cs = 0, tf_rflags = 0, tf_rsp = 0,
      tf_ss = 0\<rparr> demo_state = Inl (Panic ''unknown interrupt\<newline>'')"
  by (rule trap_unknown_panics) simp

end
