(* ===== verification/Idt.thy ===== *)
theory Idt
  imports PhysMem Msr
begin

text \<open>
  Interrupt descriptors and the task state segment, \<^verbatim>\<open>arch/x86/idt.c\<close> and
  \<^verbatim>\<open>include/x86/desc.h\<close>.  The descriptors are structures of bit-fields; an assignment to a
  field replaces its bits in the 64-bit word that holds it.
\<close>

text \<open>Bits \<open>lo\<close> to \<open>lo + w - 1\<close> of a word: reading, and replacing by the low \<open>w\<close> bits of a value.\<close>

definition bf_get :: "nat \<Rightarrow> nat \<Rightarrow> uint64 \<Rightarrow> uint64" where
  "bf_get lo w x = drop_bit lo x AND BIT64_MASK w"

definition bf_put :: "nat \<Rightarrow> nat \<Rightarrow> uint64 \<Rightarrow> uint64 \<Rightarrow> uint64" where
  "bf_put lo w v x =
     (x AND NOT (push_bit lo (BIT64_MASK w))) OR push_bit lo (v AND BIT64_MASK w)"

definition set_bf :: "uint64 \<Rightarrow> nat \<Rightarrow> nat \<Rightarrow> uint64 \<Rightarrow> kstate \<Rightarrow> kstate" where
  "set_bf p lo w v s = s\<lparr>mem := store64 (mem s) p (bf_put lo w v (load64 (mem s) p))\<rparr>"

text \<open>The fields of \<^verbatim>\<open>struct gatedesc\<close>: word, first bit and width.\<close>

definition STS_IG64 :: uint64 where "STS_IG64 = 0xE"
definition STS_TG64 :: uint64 where "STS_TG64 = 0xF"

definition idt_entry :: "uint64 \<Rightarrow> uint64 \<Rightarrow> uint64 \<Rightarrow> bool \<Rightarrow> uint64 \<Rightarrow> kstate \<Rightarrow> kstate" where
  "idt_entry p cs offset is_trap dpl s =
     (let s = set_bf (p + 8) 0 32 (drop_bit 32 offset) s;
          s = set_bf p 48 16 (drop_bit 16 offset AND 0xFFFF) s;
          s = set_bf p 0 16 (offset AND 0xFFFF) s;
          s = set_bf p 16 16 cs s;
          s = set_bf p 47 1 1 s;
          s = set_bf p 45 2 dpl s;
          s = set_bf p 40 4 (if is_trap then STS_TG64 else STS_IG64) s;
          s = set_bf p 44 1 0 s;
          s = set_bf p 32 3 0 s;
          s = set_bf (p + 8) 32 32 0 s
      in set_bf p 35 5 0 s)"

definition gate_at :: "klayout \<Rightarrow> nat \<Rightarrow> uint64" where
  "gate_at K i = idt_at K + 16 * of_nat i"

definition set_idt_entry :: "klayout \<Rightarrow> uint8 \<Rightarrow> uint64 \<Rightarrow> kstate \<Rightarrow> kstate" where
  "set_idt_entry K idx offset s = idt_entry (gate_at K (unat idx)) GDT_KCODE offset False 0 s"

definition restore_idt_entry :: "klayout \<Rightarrow> uint8 \<Rightarrow> kstate \<Rightarrow> kstate" where
  "restore_idt_entry K idx s =
     idt_entry (gate_at K (unat idx)) GDT_KCODE (vectors K (unat idx)) False 0 s"

primrec idt_fill :: "klayout \<Rightarrow> nat list \<Rightarrow> kstate \<Rightarrow> kstate" where
  "idt_fill K [] s = s"
| "idt_fill K (i # is) s =
     idt_fill K is (idt_entry (gate_at K i) GDT_KCODE (vectors K i) False 0 s)"

definition GDT_SEG_TSS :: nat where "GDT_SEG_TSS = 6"
definition GDT_TSS :: uint16 where "GDT_TSS = push_bit 3 6"
definition sizeof_idt :: uint64 where "sizeof_idt = 4096"
definition sizeof_taskstate :: uint64 where "sizeof_taskstate = 104"

text \<open>
  \<^verbatim>\<open>lidt\<close> loads the limit and the base from the five half-words of \<^verbatim>\<open>idtr\<close>.
\<close>

definition lidt :: "uint16 list \<Rightarrow> kstate \<Rightarrow> kstate" where
  "lidt idtr s =
     s\<lparr>idtr_limit := idtr ! 0,
       idtr_base := ucast (idtr ! 1) OR push_bit 16 (ucast (idtr ! 2)) OR
         push_bit 32 (ucast (idtr ! 3)) OR push_bit 48 (ucast (idtr ! 4))\<rparr>"

definition tss_desc :: "klayout \<Rightarrow> kstate \<Rightarrow> kstate" where
  "tss_desc K s =
     (let tss = gdt_at K + 8 * of_nat GDT_SEG_TSS; ts = ts_at K;
          s = set_bf tss 0 16 (sizeof_taskstate - 1) s;
          s = set_bf tss 16 16 (ts AND 0xFFFF) s;
          s = set_bf tss 32 8 (drop_bit 16 ts AND 0xFF) s;
          s = set_bf tss 40 4 0x9 s;
          s = set_bf tss 44 1 0 s;
          s = set_bf tss 45 2 0 s;
          s = set_bf tss 47 1 1 s;
          s = set_bf tss 48 4 (drop_bit 16 (sizeof_taskstate - 1)) s;
          s = set_bf tss 52 4 0 s;
          s = set_bf tss 56 8 (drop_bit 24 ts AND 0xFF) s
      in set_bf (tss + 8) 0 32 (drop_bit 32 ts) s)"

definition idt_init :: "klayout \<Rightarrow> kstate \<Rightarrow> kstate kres" where
  "idt_init K s =
     ebind (kprintf K ''[x86] init Interrupt Descriptor Table\<newline>'' [] s) (\<lambda>s.
     let s = idt_fill K [0..<256] s;
         s = lidt [ucast (sizeof_idt - 1), ucast (idt_at K), ucast (drop_bit 16 (idt_at K)),
                   ucast (drop_bit 32 (idt_at K)), ucast (drop_bit 48 (idt_at K))] s
     in
     ebind (kprintf K ''[x86] init Task State Segment\<newline>'' [] s) (\<lambda>s.
     ebind (pmalloc K PM_4K s) (\<lambda>(page, s).
     let s = s\<lparr>mem := store32 (mem s) (ts_at K + 4) (ucast (page + PM_4K))\<rparr>;
         s = s\<lparr>mem := store16 (mem s) (ts_at K + 102) 0xFFFF\<rparr>;
         s = tss_desc K s;
         s = s\<lparr>task_reg := GDT_TSS\<rparr>
     in kprintf K ''[x86] init IDT/TSS Done.\<newline>'' [] s)))"

section \<open>Gates as the processor reads them\<close>

lemma bf_get_put_same:
  assumes "lo + w \<le> 64"
  shows "bf_get lo w (bf_put lo w v x) = v AND BIT64_MASK w"
  by (rule bit_word_eqI)
    (use assms in \<open>auto simp: bf_get_def bf_put_def BIT64_MASK_eq bit_simps\<close>)

lemma bf_get_put_other:
  assumes "lo + w \<le> lo' \<or> lo' + w' \<le> lo" and "lo + w \<le> 64"
  shows "bf_get lo w (bf_put lo' w' v x) = bf_get lo w x"
  by (rule bit_word_eqI)
    (use assms in \<open>auto simp: bf_get_def bf_put_def BIT64_MASK_eq bit_simps\<close>)

lemma load64_set_bf [simp]: "load64 (mem (set_bf p lo w v s)) p = bf_put lo w v (load64 (mem s) p)"
  by (simp add: set_bf_def)

lemma load64_set_bf_apart:
  assumes "8 \<le> unat (q - p)" and "8 \<le> unat (p - q)"
  shows "load64 (mem (set_bf p lo w v s)) q = load64 (mem s) q"
  using assms by (simp add: set_bf_def quad_apart)

lemma set_bf_frame: "x \<notin> bytes_at p 8 \<Longrightarrow> mem (set_bf p lo w v s) x = mem s x"
  by (simp add: set_bf_def quad_cell.store_outside)

lemma set_bf_rest: "set_bf p lo w v s = s\<lparr>mem := mem (set_bf p lo w v s)\<rparr>"
  by (simp add: set_bf_def)

definition gate_offset :: "mem_t \<Rightarrow> uint64 \<Rightarrow> uint64" where
  "gate_offset m p =
     bf_get 0 16 (load64 m p) OR push_bit 16 (bf_get 48 16 (load64 m p)) OR
     push_bit 32 (bf_get 0 32 (load64 m (p + 8)))"

definition gate_ok :: "mem_t \<Rightarrow> uint64 \<Rightarrow> uint64 \<Rightarrow> uint64 \<Rightarrow> bool \<Rightarrow> uint64 \<Rightarrow> bool" where
  "gate_ok m p cs offset is_trap dpl \<longleftrightarrow>
     gate_offset m p = offset \<and> bf_get 16 16 (load64 m p) = cs \<and>
     bf_get 32 3 (load64 m p) = 0 \<and>
     bf_get 40 4 (load64 m p) = (if is_trap then STS_TG64 else STS_IG64) \<and>
     bf_get 44 1 (load64 m p) = 0 \<and> bf_get 45 2 (load64 m p) = dpl \<and>
     bf_get 47 1 (load64 m p) = 1"

lemma join_offset:
  "(offset AND 0xFFFF AND BIT64_MASK 16) OR
   push_bit 16 (drop_bit 16 offset AND 0xFFFF AND BIT64_MASK 16) OR
   push_bit 32 (drop_bit 32 offset AND BIT64_MASK 32) = (offset :: uint64)"
proof -
  have m: "(0xFFFF :: uint64) = mask 16" by (simp add: mask_eq_decr_exp)
  show ?thesis
  proof (rule bit_word_eqI)
    fix n assume "n < LENGTH(64)"
    then show "bit ((offset AND 0xFFFF AND BIT64_MASK 16) OR
        push_bit 16 (drop_bit 16 offset AND 0xFFFF AND BIT64_MASK 16) OR
        push_bit 32 (drop_bit 32 offset AND BIT64_MASK 32)) n \<longleftrightarrow> bit offset n"
      by (cases "n < 16"; cases "n < 32") (auto simp: m BIT64_MASK_eq bit_simps)
  qed
qed

lemma idt_entry_words:
  shows "load64 (mem (idt_entry p cs offset is_trap dpl s)) p =
      bf_put 35 5 0 (bf_put 32 3 0 (bf_put 44 1 0 (bf_put 40 4 (if is_trap then STS_TG64 else STS_IG64)
        (bf_put 45 2 dpl (bf_put 47 1 1 (bf_put 16 16 cs (bf_put 0 16 (offset AND 0xFFFF)
        (bf_put 48 16 (drop_bit 16 offset AND 0xFFFF) (load64 (mem s) p)))))))))"
    and "load64 (mem (idt_entry p cs offset is_trap dpl s)) (p + 8) =
      bf_put 32 32 0 (bf_put 0 32 (drop_bit 32 offset) (load64 (mem s) (p + 8)))"
  by (simp_all add: idt_entry_def Let_def load64_set_bf_apart)

lemma and_mask_less: "unat v < 2 ^ n \<Longrightarrow> v AND BIT64_MASK n = (v :: uint64)"
  by (simp add: BIT64_MASK_eq flip: take_bit_eq_mask)
    (simp add: word_unat_eq_iff unsigned_take_bit_eq take_bit_nat_eq_self)

lemma idt_entry_gate_ok:
  assumes "cs < 0x10000" and "dpl < 4"
  shows "gate_ok (mem (idt_entry p cs offset is_trap dpl s)) p cs offset is_trap dpl"
proof -
  have m: "cs AND BIT64_MASK 16 = cs" "dpl AND BIT64_MASK 2 = dpl"
    using assms by (simp_all add: and_mask_less word_less_nat_alt)
  have c: "STS_TG64 AND BIT64_MASK 4 = STS_TG64" "STS_IG64 AND BIT64_MASK 4 = STS_IG64"
    "(1 :: uint64) AND BIT64_MASK (Suc 0) = 1"
    by (simp_all add: STS_TG64_def STS_IG64_def BIT64_MASK_def)
  show ?thesis
    using join_offset [of offset]
    by (simp add: gate_ok_def gate_offset_def idt_entry_words bf_get_put_same bf_get_put_other m c
        and.assoc)
qed

lemma idt_entry_frame:
  assumes "x \<notin> bytes_at p 16"
  shows "mem (idt_entry p cs offset is_trap dpl s) x = mem s x"
proof -
  have "bytes_at p 8 \<subseteq> bytes_at p 16" by (rule bytes_at_mono) simp
  moreover have "bytes_at (p + 8) 8 \<subseteq> bytes_at p 16"
    using bytes_at_offset_subset [of 8 8 16 p] by simp
  ultimately have "x \<notin> bytes_at p 8" and "x \<notin> bytes_at (p + 8) 8"
    using assms by blast+
  then show ?thesis by (simp add: idt_entry_def Let_def set_bf_frame)
qed

text \<open>
  A gate written by \<^verbatim>\<open>idt_entry\<close> is read by the processor as the handler's full 64-bit
  address, the given code segment and privilege level, present, of the gate type asked for,
  and with no interrupt stack; nothing outside its sixteen bytes changes.
\<close>

theorem idt_entry_gate:
  assumes "cs < 0x10000" and "dpl < 4"
  shows "gate_ok (mem (idt_entry p cs offset is_trap dpl s)) p cs offset is_trap dpl \<and>
    (\<forall>x. x \<notin> bytes_at p 16 \<longrightarrow> mem (idt_entry p cs offset is_trap dpl s) x = mem s x)"
  using idt_entry_gate_ok [OF assms] idt_entry_frame by blast

theorem idt_entry_gate_witness:
  "gate_ok (mem (idt_entry 0x1F9000 GDT_KCODE 0xFFFF800012345678 False 0 demo_state)) 0x1F9000
     GDT_KCODE 0xFFFF800012345678 False 0"
  using idt_entry_gate [of GDT_KCODE 0 "0x1F9000" "0xFFFF800012345678" False demo_state]
  by (simp add: GDT_KCODE_def)

section \<open>The whole table\<close>

lemma gate_ok_cong:
  assumes "\<And>x. x \<in> bytes_at p 16 \<Longrightarrow> m' x = m x"
  shows "gate_ok m' p cs offset is_trap dpl = gate_ok m p cs offset is_trap dpl"
proof -
  have "bytes_at p 8 \<subseteq> bytes_at p 16" by (rule bytes_at_mono) simp
  moreover have "bytes_at (p + 8) 8 \<subseteq> bytes_at p 16"
    using bytes_at_offset_subset [of 8 8 16 p] by simp
  ultimately have "load64 m' p = load64 m p" and "load64 m' (p + 8) = load64 m (p + 8)"
    using assms by (auto intro!: quad_cell.load_local)
  then show ?thesis by (simp add: gate_ok_def gate_offset_def)
qed

lemma gate_in_table: "i < 256 \<Longrightarrow> bytes_at (gate_at K i) 16 \<subseteq> bytes_at (idt_at K) 4096"
  using bytes_at_offset_subset [of "16 * i" 16 4096 "idt_at K"] by (simp add: gate_at_def)

lemma gates_apart:
  assumes "i < 256" and "j < 256" and "i \<noteq> j"
  shows "bytes_at (gate_at K i) 16 \<inter> bytes_at (gate_at K j) 16 = {}"
proof -
  have d: "gate_at K k - gate_at K l = of_nat (16 * k) - of_nat (16 * l)" for k l
    by (simp add: gate_at_def)
  show ?thesis
    by (rule bytes_at_apart; unfold d; rule offset_distance) (use assms in linarith)+
qed

lemma idt_fill_frame:
  assumes "set is \<subseteq> {..<256}" and "x \<notin> (\<Union>i \<in> set is. bytes_at (gate_at K i) 16)"
  shows "mem (idt_fill K is s) x = mem s x"
  using assms by (induction "is" arbitrary: s) (auto simp: idt_entry_frame)

lemma idt_fill_rest: "idt_fill K is s = s\<lparr>mem := mem (idt_fill K is s)\<rparr>"
proof (induction "is" arbitrary: s)
  case Nil
  show ?case by simp
next
  case (Cons i "is")
  have e: "idt_entry p cs off t d s = s\<lparr>mem := mem (idt_entry p cs off t d s)\<rparr>" for p cs off t d s
    by (simp add: idt_entry_def set_bf_def Let_def)
  show ?case
    using Cons [of "idt_entry (gate_at K i) GDT_KCODE (vectors K i) False 0 s"]
      e [of "gate_at K i" GDT_KCODE "vectors K i" False 0 s]
    by (metis idt_fill.simps(2) kstate.update_convs(1) kstate.surjective)
qed

lemma idt_fill_gates:
  assumes "distinct is" and "set is \<subseteq> {..<256}" and "i \<in> set is"
  shows "gate_ok (mem (idt_fill K is s)) (gate_at K i) GDT_KCODE (vectors K i) False 0"
  using assms
proof (induction "is" arbitrary: s)
  case Nil
  then show ?case by simp
next
  case (Cons j "is")
  show ?case
  proof (cases "i = j")
    case True
    let ?s = "idt_entry (gate_at K j) GDT_KCODE (vectors K j) False 0 s"
    have "mem (idt_fill K is ?s) x = mem ?s x" if "x \<in> bytes_at (gate_at K j) 16" for x
      by (rule idt_fill_frame) (use Cons.prems that gates_apart [of j] in \<open>fastforce+\<close>)
    from gate_ok_cong [OF this] True show ?thesis
      using idt_entry_gate_ok [of GDT_KCODE 0 "gate_at K j" "vectors K j" False s]
      by (simp add: GDT_KCODE_def)
  next
    case False
    with Cons show ?thesis by simp
  qed
qed

lemma set_bf_rest_kstate:
  "pmmap (set_bf p lo w v s) = pmmap s" "memtotal (set_bf p lo w v s) = memtotal s"
  "idtr_base (set_bf p lo w v s) = idtr_base s" "idtr_limit (set_bf p lo w v s) = idtr_limit s"
  by (simp_all add: set_bf_def)

lemma tss_desc_frame:
  assumes "x \<notin> bytes_at (gdt_at K) 64"
  shows "mem (tss_desc K s) x = mem s x"
proof -
  have "bytes_at (gdt_at K + 48) 8 \<subseteq> bytes_at (gdt_at K) 64"
    using bytes_at_offset_subset [of 48 8 64 "gdt_at K"] by simp
  moreover have "bytes_at (gdt_at K + 48 + 8) 8 \<subseteq> bytes_at (gdt_at K) 64"
    using bytes_at_offset_subset [of 56 8 64 "gdt_at K"] by (simp add: add.commute)
  ultimately have "x \<notin> bytes_at (gdt_at K + 48) 8" and "x \<notin> bytes_at (gdt_at K + 48 + 8) 8"
    using assms by blast+
  then show ?thesis by (simp add: tss_desc_def Let_def set_bf_frame GDT_SEG_TSS_def)
qed

lemma idtr_words:
  "(ucast (ucast b :: uint16) :: uint64) OR push_bit 16 (ucast (ucast (drop_bit 16 b) :: uint16)) OR
   push_bit 32 (ucast (ucast (drop_bit 32 b) :: uint16)) OR
   push_bit 48 (ucast (ucast (drop_bit 48 b) :: uint16)) = b"
proof (rule bit_word_eqI)
  fix n assume "n < LENGTH(64)"
  then show "bit ((ucast (ucast b :: uint16) :: uint64) OR
      push_bit 16 (ucast (ucast (drop_bit 16 b) :: uint16)) OR
      push_bit 32 (ucast (ucast (drop_bit 32 b) :: uint16)) OR
      push_bit 48 (ucast (ucast (drop_bit 48 b) :: uint16))) n \<longleftrightarrow> bit b n"
    by (cases "n < 16"; cases "n < 32"; cases "n < 48") (auto simp: bit_simps)
qed

lemma tss_desc_rest: "tss_desc K s = s\<lparr>mem := mem (tss_desc K s)\<rparr>"
  by (simp add: tss_desc_def Let_def set_bf_def)

text \<open>The last part of \<^verbatim>\<open>idt_init\<close>, after the stack page has been allocated.\<close>

definition tss_setup :: "klayout \<Rightarrow> uint64 \<Rightarrow> kstate \<Rightarrow> kstate" where
  "tss_setup K page s =
     (let s = s\<lparr>mem := store32 (mem s) (ts_at K + 4) (ucast (page + PM_4K))\<rparr>;
          s = s\<lparr>mem := store16 (mem s) (ts_at K + 102) 0xFFFF\<rparr>;
          s = tss_desc K s
      in s\<lparr>task_reg := GDT_TSS\<rparr>)"

lemma tss_setup_frame:
  assumes "x \<notin> bytes_at (ts_at K) 104" and "x \<notin> bytes_at (gdt_at K) 64"
  shows "mem (tss_setup K page s) x = mem s x"
proof -
  have "bytes_at (ts_at K + 4) 4 \<subseteq> bytes_at (ts_at K) 104"
    using bytes_at_offset_subset [of 4 4 104 "ts_at K"] by simp
  moreover have "bytes_at (ts_at K + 102) 2 \<subseteq> bytes_at (ts_at K) 104"
    using bytes_at_offset_subset [of 102 2 104 "ts_at K"] by simp
  ultimately have "x \<notin> bytes_at (ts_at K + 4) 4" and "x \<notin> bytes_at (ts_at K + 102) 2"
    using assms(1) by blast+
  with assms(2) show ?thesis
    by (simp add: tss_setup_def Let_def tss_desc_frame word_cell.store_outside half_cell.store_outside)
qed

lemma tss_setup_rest:
  "idtr_base (tss_setup K page s) = idtr_base s" "idtr_limit (tss_setup K page s) = idtr_limit s"
  "task_reg (tss_setup K page s) = GDT_TSS"
  by (simp_all add: tss_setup_def Let_def tss_desc_def set_bf_rest_kstate)

text \<open>
  C31. \<^verbatim>\<open>idt_init\<close> leaves a table in which every one of the 256 vectors leads to its stub of
  \<^verbatim>\<open>vectors.S\<close> in the kernel code segment, with the table's address and limit loaded in the
  processor and the task register set; allocating the interrupt stack does not disturb it.
\<close>

theorem idt_init_installs:
  assumes rel: "pm_rel K s A" and mem_left: "pm_take 0 A \<noteq> None"
    and idt: "unat (idt_at K) + 4096 \<le> unat (kernel_end K)"
    and ts: "bytes_at (ts_at K) 104 \<inter> bytes_at (idt_at K) 4096 = {}"
    and gdt: "bytes_at (gdt_at K) 64 \<inter> bytes_at (idt_at K) 4096 = {}"
  shows "\<exists>s'. idt_init K s = Inr s' \<and>
    (\<forall>i<256. gate_ok (mem s') (gate_at K i) GDT_KCODE (vectors K i) False 0) \<and>
    idtr_base s' = idt_at K \<and> idtr_limit s' = 4095 \<and> task_reg s' = GDT_TSS"
proof -
  let ?idt = "bytes_at (idt_at K) 4096"
  have below: "cover A (unat x) = 0" if "x \<in> ?idt" for x
    using that cover_below_kernel [OF rel, of "unat x"] idt unat_less_2p64 [of "kernel_end K"]
    by (auto simp: bytes_at_interval)
  obtain o1 where o1: "kprintf K ''[x86] init Interrupt Descriptor Table\<newline>'' [] s =
      Inr (s\<lparr>console := console s @ o1\<rparr>)" using kprintf_total [of _ K "[]" s] by force
  define s1 where "s1 = s\<lparr>console := console s @ o1\<rparr>"
  define s2 where "s2 = lidt [ucast (sizeof_idt - 1), ucast (idt_at K),
      ucast (drop_bit 16 (idt_at K)), ucast (drop_bit 32 (idt_at K)), ucast (drop_bit 48 (idt_at K))]
      (idt_fill K [0..<256] s1)"
  have m2: "mem s2 = mem (idt_fill K [0..<256] s1)" by (simp add: s2_def lidt_def)
  have idtr: "idtr_base s2 = idt_at K" "idtr_limit s2 = 4095"
    by (simp_all add: s2_def lidt_def idtr_words sizeof_idt_def)
  have rest2: "pmmap s2 = pmmap s" "memtotal s2 = memtotal s"
    using arg_cong [OF idt_fill_rest [of K "[0..<256]" s1], of pmmap]
      arg_cong [OF idt_fill_rest [of K "[0..<256]" s1], of memtotal]
    by (simp_all add: s2_def lidt_def s1_def)
  have gates2: "gate_ok (mem s2) (gate_at K i) GDT_KCODE (vectors K i) False 0" if "i < 256" for i
    unfolding m2 by (rule idt_fill_gates) (use that in auto)
  obtain o2 where o2: "kprintf K ''[x86] init Task State Segment\<newline>'' [] s2 =
      Inr (s2\<lparr>console := console s2 @ o2\<rparr>)" using kprintf_total [of _ K "[]" s2] by force
  define s3 where "s3 = s2\<lparr>console := console s2 @ o2\<rparr>"
  have "mem s3 x = mem s x" if "cover A (unat x) \<noteq> 0" for x
  proof -
    have "x \<notin> (\<Union>i \<in> {0..<256}. bytes_at (gate_at K i) 16)"
      using that below gate_in_table [of _ K] by fastforce
    then have "mem (idt_fill K [0..<256] s1) x = mem s1 x"
      by (intro idt_fill_frame) auto
    then show ?thesis by (simp add: s3_def m2 s1_def)
  qed
  then have rel3: "pm_rel K s3 A"
    by (intro pm_rel_frame [OF rel]) (simp_all add: s3_def rest2)
  obtain page A' where take: "pm_take 0 A = Some (page, A')" using mem_left by auto
  then obtain s4 where s4: "pmalloc K PM_4K s3 = Inr (page, s4)"
    and granted: "pm_granted K 4096 s3 A page A' s4"
    using pmalloc_take [OF rel3, of 0] by (auto simp: pm_size_vals PM_values)
  have mem4: "mem s4 x = mem s3 x" if "cover A (unat x) = 0" for x
    using granted that by (simp add: pm_granted_def)
  have rest4: "s4 = s3\<lparr>mem := mem s4, pmmap := pmmap s4\<rparr>"
    using granted unfolding pm_granted_def by blast
  have idtr4: "idtr_base s4 = idt_at K" "idtr_limit s4 = 4095"
    by (subst rest4, simp add: s3_def idtr)+
  define s5 where "s5 = tss_setup K page s4"
  obtain o5 where o5: "kprintf K ''[x86] init IDT/TSS Done.\<newline>'' [] s5 =
      Inr (s5\<lparr>console := console s5 @ o5\<rparr>)" using kprintf_total [of _ K "[]" s5] by force
  have "gate_ok (mem s5) (gate_at K i) GDT_KCODE (vectors K i) False 0" if i: "i < 256" for i
  proof -
    have "mem s5 x = mem s2 x" if "x \<in> bytes_at (gate_at K i) 16" for x
    proof -
      from that gate_in_table [OF i] have x: "x \<in> ?idt" by blast
      with ts gdt have "mem s5 x = mem s4 x"
        unfolding s5_def by (intro tss_setup_frame) auto
      with mem4 [OF below [OF x]] show ?thesis by (simp add: s3_def)
    qed
    from gate_ok_cong [OF this] gates2 [OF i] show ?thesis by simp
  qed
  moreover have "idt_init K s = Inr (s5\<lparr>console := console s5 @ o5\<rparr>)"
    using o1 o2 s4 o5
    by (simp add: idt_init_def Let_def tss_setup_def s1_def [symmetric] s2_def [symmetric]
        s3_def [symmetric] s5_def)
  moreover have "idtr_base s5 = idt_at K" "idtr_limit s5 = 4095" "task_reg s5 = GDT_TSS"
    by (simp_all add: s5_def tss_setup_rest idtr4)
  ultimately show ?thesis by auto
qed

theorem idt_init_installs_witness:
  "\<exists>s'. idt_init demo_layout demo_state = Inr s' \<and>
    (\<forall>i<256. gate_ok (mem s') (gate_at demo_layout i) GDT_KCODE (vectors demo_layout i) False 0) \<and>
    idtr_base s' = idt_at demo_layout \<and> idtr_limit s' = 4095 \<and> task_reg s' = GDT_TSS"
proof (rule idt_init_installs [OF demo_pm_rel])
  show "pm_take 0 [[], [], [0x4000000]] \<noteq> None" using demo_pm_take by auto
  show "unat (idt_at demo_layout) + 4096 \<le> unat (kernel_end demo_layout)"
    by (simp add: demo_layout_def)
  show "bytes_at (ts_at demo_layout) 104 \<inter> bytes_at (idt_at demo_layout) 4096 = {}"
    "bytes_at (gdt_at demo_layout) 64 \<inter> bytes_at (idt_at demo_layout) 4096 = {}"
    by (rule bytes_at_apart; simp add: demo_layout_def)+
qed

end
