(* ===== verification/Acpi.thy ===== *)
theory Acpi
  imports Machine
begin

text \<open>
  The ACPI tables, \<^verbatim>\<open>acpi.c\<close> and \<^verbatim>\<open>include/acpi.h\<close>: the root table is scanned for the
  interrupt-controller table, whose entries give the addresses of the local and the
  input/output APIC.  The structures are packed.
\<close>

definition sizeof_ACPI_XSDT_HEADER :: uint64 where "sizeof_ACPI_XSDT_HEADER = 36"
definition sizeof_ACPI_MADT :: uint64 where "sizeof_ACPI_MADT = 44"

definition acpi_length :: "mem_t \<Rightarrow> uint64 \<Rightarrow> uint32" where "acpi_length m t = load32 m (t + 4)"

text \<open>
  Comparison with a string literal: \<^verbatim>\<open>strcmp\<close> whose second argument is the literal's bytes.
\<close>

primrec strcmp_lit :: "mem_t \<Rightarrow> uint64 \<Rightarrow> uint8 list \<Rightarrow> int" where
  "strcmp_lit m a [] = (if m a \<noteq> 0 then 1 else 0)"
| "strcmp_lit m a (b # bs) = (if m a \<noteq> b then 1 else if m a = 0 then 0 else strcmp_lit m (a + 1) bs)"

definition sig_APIC :: "uint8 list" where "sig_APIC = [0x41, 0x50, 0x49, 0x43]"

definition dump_xsdp :: "klayout \<Rightarrow> uint64 \<Rightarrow> kstate \<Rightarrow> kstate kres" where
  "dump_xsdp K x s =
     (let sig = local_at K ''sig''; oem = local_at K ''oem'';
          s = s\<lparr>mem := store_bytes (mem s) sig (replicate 9 0)\<rparr>;
          s = s\<lparr>mem := store_bytes (mem s) oem (replicate 9 0)\<rparr>;
          s = s\<lparr>mem := memcpy (mem s) sig x 8\<rparr>;
          s = s\<lparr>mem := memcpy (mem s) oem (x + 9) 6\<rparr>;
          m = mem s
      in kprintfs K
        [(''[acpi] XSDP:\<newline>'', []),
         (''  Signature: %s\<newline>'', [sig]),
         (''  OEMID: %s\<newline>'', [oem]),
         (''  Revision: %d\<newline>'', [ucast (load8 m (x + 15))]),
         (''  RsdtAddress: %x\<newline>'', [ucast (load32 m (x + 16))]),
         (''  XsdtAddress: %x\<newline>'', [load64 m (x + 24)])] s)"

definition dump_xsdt :: "klayout \<Rightarrow> uint64 \<Rightarrow> kstate \<Rightarrow> kstate kres" where
  "dump_xsdt K x s =
     (let sig = local_at K ''sig''; oem = local_at K ''oem'';
          s = s\<lparr>mem := store_bytes (mem s) sig (replicate 9 0)\<rparr>;
          s = s\<lparr>mem := store_bytes (mem s) oem (replicate 9 0)\<rparr>;
          s = s\<lparr>mem := memcpy (mem s) sig x 8\<rparr>;
          s = s\<lparr>mem := memcpy (mem s) oem (x + 10) 6\<rparr>;
          m = mem s
      in kprintfs K
        [(''[acpi] XSDT:\<newline>'', []),
         (''  Signature: %s\<newline>'', [sig]),
         (''  OEMID: %s\<newline>'', [oem]),
         (''  Revision: %d\<newline>'', [ucast (load8 m (x + 8))]),
         (''  OEMRevision: %d\<newline>'', [ucast (load32 m (x + 24))])] s)"

definition dump_madt :: "klayout \<Rightarrow> uint64 \<Rightarrow> kstate \<Rightarrow> kstate kres" where
  "dump_madt K x s =
     (let m = mem s in
      kprintfs K
        [(''[acpi] MADT:\<newline>'', []),
         (''  Revision: %d\<newline>'', [ucast (load8 m (x + 8))]),
         (''  LocalAPICAddress: %x\<newline>'', [ucast (load32 m (x + 36))]),
         (''  Flags: %x\<newline>'', [ucast (load32 m (x + 40))])] s)"

text \<open>One entry of the MADT: what is printed, what is recorded, and its length.\<close>

definition madt_entry :: "klayout \<Rightarrow> uint64 \<Rightarrow> kstate \<Rightarrow> (nat \<times> kstate) kres" where
  "madt_entry K e s =
     (let m = mem s; t = load8 m e in
      if t = 0 then
        ebind (kprintfs K
          [(''  LAPIC:\<newline>'', []),
           (''    ACPI Processor ID: %d\<newline>'', [ucast (load8 m (e + 2))]),
           (''    Local APIC ID: %d\<newline>'', [ucast (load8 m (e + 3))]),
           (''    Flags: %x\<newline>'', [ucast (load32 m (e + 4))])] s) (\<lambda>s.
        Inr (8, s\<lparr>apic := (apic s)\<lparr>lapic_id := ucast (load8 m (e + 3))\<rparr>\<rparr>))
      else if t = 1 then
        ebind (kprintfs K
          [(''  IOAPIC:\<newline>'', []),
           (''    IOAPIC ID: %d\<newline>'', [ucast (load8 m (e + 2))]),
           (''    IOAPIC Address: %x\<newline>'', [ucast (load32 m (e + 4))]),
           (''    Global System Interrupt Base: %d\<newline>'', [ucast (load32 m (e + 8))])] s) (\<lambda>s.
        Inr (12, s\<lparr>apic := (apic s)\<lparr>ioapic_id := ucast (load8 m (e + 2)),
                                   ioapic_addr := ucast (load32 m (e + 4))\<rparr>\<rparr>))
      else if t = 2 then
        ebind (kprintfs K
          [(''  Interrupt Override:\<newline>'', []),
           (''    Bus: %d\<newline>'', [ucast (load8 m (e + 2))]),
           (''    Source: %d\<newline>'', [ucast (load8 m (e + 3))]),
           (''    Global System Interrupt: %d\<newline>'', [ucast (load32 m (e + 4))]),
           (''    Flags: %x\<newline>'', [ucast (load16 m (e + 8))])] s) (\<lambda>s. Inr (10, s))
      else if t = 3 then
        ebind (kprintfs K
          [(''  NMI:\<newline>'', []),
           (''    NMI Source: %d\<newline>'', [ucast (load8 m (e + 2))]),
           (''    Global System Interrupt: %d\<newline>'', [ucast (load32 m (e + 6))]),
           (''    Flags: %x\<newline>'', [ucast (load16 m (e + 4))])] s) (\<lambda>s. Inr (10, s))
      else if t = 4 then
        ebind (kprintfs K
          [(''  LAPIC NMI:\<newline>'', []),
           (''    ACPI Processor ID: %d\<newline>'', [ucast (load8 m (e + 2))]),
           (''    Flags: %x\<newline>'', [ucast (load16 m (e + 3))]),
           (''    LINT: %d\<newline>'', [ucast (load8 m (e + 5))])] s) (\<lambda>s. Inr (6, s))
      else if t = 5 then
        ebind (kprintfs K
          [(''  LAPIC Address Override:\<newline>'', []),
           (''    Local APIC Address: %llx\<newline>'', [load64 m (e + 4)])] s) (\<lambda>s.
        Inr (12, s\<lparr>apic := (apic s)\<lparr>lapic_addr := load64 m (e + 4)\<rparr>\<rparr>))
      else if t = 9 then
        ebind (kprintfs K
          [(''  Local x2APIC:\<newline>'', []),
           (''    x2APIC ID: %d\<newline>'', [ucast (load32 m (e + 4))]),
           (''    ACPI ID: %d\<newline>'', [ucast (load32 m (e + 12))]),
           (''    Flags: %x\<newline>'', [ucast (load32 m (e + 8))])] s) (\<lambda>s. Inr (16, s))
      else Inl (Panic ''[acpi] Unknown MADT type: %d\<newline>''))"

lemma madt_entry_len: "madt_entry K e s = Inr (len, s') \<Longrightarrow> 0 < len"
  by (auto simp: madt_entry_def Let_def ebind_eq_Inr split: if_splits)

text \<open>
  The entries are walked until the length of the table is used up.  Every entry has a
  positive length, so the walk ends.
\<close>

function madt_loop :: "klayout \<Rightarrow> uint64 \<Rightarrow> int \<Rightarrow> kstate \<Rightarrow> kstate kres" where
  "madt_loop K e remain s =
     (if remain > 0 then
        ebind (madt_entry K e s) (\<lambda>r.
        madt_loop K (e + of_nat (fst r)) (remain - int (fst r)) (snd r))
      else Inr s)"
  by pat_completeness auto
termination
proof (relation "measure (\<lambda>(K, e, remain, s). nat remain)")
  fix K :: klayout and e :: uint64 and remain :: int and s :: kstate and r
  assume "remain > 0" and "madt_entry K e s = Inr r"
  moreover obtain len s' where "r = (len, s')" by (cases r)
  ultimately show "((K, e + of_nat (fst r), remain - int (fst r), snd r), K, e, remain, s) \<in>
      measure (\<lambda>(K, e, remain, s). nat remain)"
    using madt_entry_len [of K e s len s'] by simp
qed simp

declare madt_loop.simps [simp del]

definition acpi_entry :: "klayout \<Rightarrow> uint64 \<Rightarrow> kstate \<Rightarrow> kstate kres" where
  "acpi_entry K entry s =
     (let sig = local_at K ''sig'';
          s = s\<lparr>mem := store_bytes (mem s) sig (replicate 5 0)\<rparr>;
          s = s\<lparr>mem := memcpy (mem s) sig entry 4\<rparr>
      in
      if strcmp_lit (mem s) sig sig_APIC = 0 then
        ebind (dump_madt K entry s) (\<lambda>s.
        let s = s\<lparr>apic := (apic s)\<lparr>lapic_addr := ucast (load32 (mem s) (entry + 36))\<rparr>\<rparr>;
            remain = sint (ucast (ucast (acpi_length (mem s) entry) - sizeof_ACPI_MADT) :: uint32)
        in madt_loop K (entry + sizeof_ACPI_MADT) remain s)
      else Inr s)"

primrec acpi_loop :: "klayout \<Rightarrow> uint64 \<Rightarrow> nat list \<Rightarrow> kstate \<Rightarrow> kstate kres" where
  "acpi_loop K xsdt_table [] s = Inr s"
| "acpi_loop K xsdt_table (i # is) s =
     ebind (acpi_entry K (load64 (mem s) (xsdt_table + 8 * of_nat i)) s) (\<lambda>s.
     acpi_loop K xsdt_table is s)"

definition acpi_init :: "klayout \<Rightarrow> uint64 \<Rightarrow> kstate \<Rightarrow> kstate kres" where
  "acpi_init K xsdp_addr s =
     ebind (dump_xsdp K xsdp_addr s) (\<lambda>s.
     let xsdt = load64 (mem s) (xsdp_addr + 24) in
     ebind (dump_xsdt K xsdt s) (\<lambda>s.
     let xsdt_table = xsdt + sizeof_ACPI_XSDT_HEADER;
         xsdt_n = (ucast ((ucast (acpi_length (mem s) xsdt) - sizeof_ACPI_XSDT_HEADER) div 8) :: uint8)
     in
     ebind (kprintf K ''[acpi] XSDT Entries: %d\<newline>'' [ucast xsdt_n] s) (\<lambda>s.
     acpi_loop K xsdt_table [0..<unat xsdt_n] s)))"

section \<open>The interrupt-controller table\<close>

text \<open>
  The reference reading of the table: the length of an entry by its type, the list of entry
  addresses that a table of the given length holds (\<open>None\<close> when an entry has a type the kernel
  does not know), and what an entry says about the controllers.
\<close>

definition madt_len :: "uint8 \<Rightarrow> nat option" where
  "madt_len t =
     (if t = 0 then Some 8 else if t = 1 then Some 12 else if t = 2 \<or> t = 3 then Some 10
      else if t = 4 then Some 6 else if t = 5 then Some 12 else if t = 9 then Some 16 else None)"

function madt_entries :: "mem_t \<Rightarrow> uint64 \<Rightarrow> int \<Rightarrow> uint64 list option" where
  "madt_entries m e remain =
     (if remain \<le> 0 then Some []
      else case madt_len (load8 m e) of
        None \<Rightarrow> None
      | Some len \<Rightarrow> map_option ((#) e) (madt_entries m (e + of_nat len) (remain - int len)))"
  by pat_completeness auto
termination
  by (relation "measure (\<lambda>(m, e, remain). nat remain)") (auto simp: madt_len_def split: if_splits)

declare madt_entries.simps [simp del]

definition madt_apic :: "mem_t \<Rightarrow> uint64 \<Rightarrow> APIC \<Rightarrow> APIC" where
  "madt_apic m e a =
     (if load8 m e = 0 then a\<lparr>lapic_id := ucast (load8 m (e + 3))\<rparr>
      else if load8 m e = 1 then
        a\<lparr>ioapic_id := ucast (load8 m (e + 2)), ioapic_addr := ucast (load32 m (e + 4))\<rparr>
      else if load8 m e = 5 then a\<lparr>lapic_addr := load64 m (e + 4)\<rparr>
      else a)"

lemma madt_print:
  assumes "\<forall>(fmt, args) \<in> set ls. no_string_arg fmt"
    and "\<And>c. g (s\<lparr>console := c\<rparr>) = s\<lparr>apic := a, console := c\<rparr>"
  shows "\<exists>out. ebind (kprintfs K ls s) (\<lambda>s. Inr (n, g s)) =
    Inr (n, s\<lparr>apic := a, console := console s @ out\<rparr>)"
proof -
  obtain out where "kprintfs K ls s = Inr (s\<lparr>console := console s @ out\<rparr>)"
    using kprintfs_total [OF assms(1)] by blast
  then show ?thesis using assms(2) by auto
qed

lemma madt_print_only:
  assumes "\<forall>(fmt, args) \<in> set ls. no_string_arg fmt"
  shows "\<exists>out. ebind (kprintfs K ls s) (\<lambda>s. Inr (n, s)) = Inr (n, s\<lparr>console := console s @ out\<rparr>)"
  using kprintfs_total [OF assms, of K s] by auto

lemma madt_entry_cases:
  "case madt_len (load8 (mem s) e) of
     None \<Rightarrow> madt_entry K e s = Inl (Panic ''[acpi] Unknown MADT type: %d\<newline>'')
   | Some len \<Rightarrow> \<exists>out. madt_entry K e s =
       Inr (len, s\<lparr>apic := madt_apic (mem s) e (apic s), console := console s @ out\<rparr>)"
proof (cases "madt_len (load8 (mem s) e)")
  case None
  then show ?thesis by (simp add: madt_len_def madt_entry_def Let_def split: if_splits)
next
  case (Some len)
  then consider "load8 (mem s) e = 0" | "load8 (mem s) e = 1" | "load8 (mem s) e = 2"
    | "load8 (mem s) e = 3" | "load8 (mem s) e = 4" | "load8 (mem s) e = 5" | "load8 (mem s) e = 9"
    by (auto simp: madt_len_def split: if_splits)
  then show ?thesis
    by cases (simp add: madt_len_def madt_entry_def Let_def madt_apic_def,
        ((rule madt_print; simp) | (rule madt_print_only; simp)))+
qed

lemma madt_apic_rest: "mem (s\<lparr>apic := a, console := c\<rparr>) = mem s"
  by simp

text \<open>
  C32. The walk over the interrupt-controller table always ends.  It panics exactly when the
  table holds an entry of unknown type, and otherwise records what the entries say in their
  order: a later entry of a kind overrides an earlier one, and memory is untouched.
\<close>

theorem madt_loop_records:
  "case madt_entries (mem s) e remain of
     None \<Rightarrow> madt_loop K e remain s = Inl (Panic ''[acpi] Unknown MADT type: %d\<newline>'')
   | Some es \<Rightarrow> \<exists>out. madt_loop K e remain s =
       Inr (s\<lparr>apic := fold (madt_apic (mem s)) es (apic s), console := console s @ out\<rparr>)"
proof (induction "nat remain" arbitrary: e remain s rule: less_induct)
  case less
  show ?case
  proof (cases "remain \<le> 0")
    case True
    then have E: "madt_entries (mem s) e remain = Some []" by (simp add: madt_entries.simps)
    have "madt_loop K e remain s = Inr (s\<lparr>apic := apic s, console := console s @ []\<rparr>)"
      using True by (simp add: madt_loop.simps)
    then show ?thesis unfolding E option.case fold_simps by blast
  next
    case False
    show ?thesis
    proof (cases "madt_len (load8 (mem s) e)")
      case None
      with False madt_entry_cases [of K e s] show ?thesis
        by (simp add: madt_entries.simps [of _ _ remain] madt_loop.simps [of _ _ remain])
    next
      case (Some len)
      let ?a = "madt_apic (mem s) e (apic s)"
      from Some madt_entry_cases [of K e s] obtain o1 where
        o1: "madt_entry K e s = Inr (len, s\<lparr>apic := ?a, console := console s @ o1\<rparr>)" by auto
      let ?s = "s\<lparr>apic := ?a, console := console s @ o1\<rparr>"
      have "0 < len" using madt_entry_len [OF o1] .
      with False have "nat (remain - int len) < nat remain" by simp
      note IH = less [OF this, where s = ?s and e = "e + of_nat len"]
      have L: "madt_loop K e remain s = madt_loop K (e + of_nat len) (remain - int len) ?s"
        using False o1 by (simp add: madt_loop.simps [of K e remain])
      have E: "madt_entries (mem s) e remain =
          map_option ((#) e) (madt_entries (mem s) (e + of_nat len) (remain - int len))"
        using False Some by (simp add: madt_entries.simps [of _ e remain])
      show ?thesis
      proof (cases "madt_entries (mem s) (e + of_nat len) (remain - int len)")
        case None
        with IH L E show ?thesis by simp
      next
        case (Some es)
        with IH obtain o2 where "madt_loop K (e + of_nat len) (remain - int len) ?s =
            Inr (s\<lparr>apic := fold (madt_apic (mem s)) es ?a, console := console s @ (o1 @ o2)\<rparr>)"
          by auto
        with L E Some show ?thesis unfolding E Some option.map option.case fold_simps L by blast
      qed
    qed
  qed
qed

end
