(* ===== verification/PciClass.thy ===== *)
theory PciClass
  imports Machine
begin

text \<open>
  The class names of \<^verbatim>\<open>pci_parse_class\<close> in \<^verbatim>\<open>pci.c\<close>, one definition per case of its outer
  switch: the calls of \<^verbatim>\<open>kprintf\<close> that the case makes for a subclass and a programming
  interface.
\<close>

type_synonym prints = "(string \<times> uint64 list) list"

definition pci_unclassified :: "uint8 \<Rightarrow> uint8 \<Rightarrow> prints" where
  "pci_unclassified subclass_id prog_if =
     [(''Unclassified: '', [])] @
     (if subclass_id = 0x0 then [(''Non-VGA-Compatible Device\<newline>'', [])]
      else if subclass_id = 0x1 then [(''VGA-Compatible Device\<newline>'', [])]
      else [(''Unknown Subclass: %x\<newline>'', [ucast subclass_id])])"

definition pci_storage :: "uint8 \<Rightarrow> uint8 \<Rightarrow> prints" where
  "pci_storage subclass_id prog_if =
     [(''Mass Storage Controller: '', [])] @
     (if subclass_id = 0x0 then [(''SCSI Bus Controller\<newline>'', [])]
      else if subclass_id = 0x1 then [(''IDE Controller\<newline>'', [])]
      else if subclass_id = 0x2 then [(''Floppy Disk Controller\<newline>'', [])]
      else if subclass_id = 0x3 then [(''IPI Bus Controller\<newline>'', [])]
      else if subclass_id = 0x4 then [(''RAID Controller\<newline>'', [])]
      else if subclass_id = 0x5 then [(''ATA Controller '', [])] @
           (if prog_if = 0x20 then [(''(Single DMA)\<newline>'', [])]
            else if prog_if = 0x30 then [(''(Chained DMA)\<newline>'', [])]
            else [(''(Unknown)\<newline>'', [])])
      else if subclass_id = 0x6 then [(''SATA Controller '', [])] @
           (if prog_if = 0 then [(''(Vendor Specific Interface)\<newline>'', [])]
            else if prog_if = 1 then [(''(AHCI 1.0)\<newline>'', [])]
            else if prog_if = 2 then [(''(Serial Storage Wire Interface)\<newline>'', [])]
            else [(''(Unknown)\<newline>'', [])])
      else if subclass_id = 0x7 then [(''Serial Attached SCSI Controller '', [])] @
           (if prog_if = 0 then [(''(SAS)\<newline>'', [])]
            else if prog_if = 1 then [(''(Serial Storage Bus)\<newline>'', [])]
            else [(''(Unknown)\<newline>'', [])])
      else if subclass_id = 0x8 then [(''Non-Volatile Memory Controller '', [])] @
           (if prog_if = 0 then [(''(NVMHCI)\<newline>'', [])]
            else if prog_if = 1 then [(''(NVM Express)\<newline>'', [])]
            else [(''(Unknown)\<newline>'', [])])
      else if subclass_id = 0x80 then [(''Other Mass Storage Controller\<newline>'', [])]
      else [(''Unknown Subclass: %x\<newline>'', [ucast subclass_id])])"

definition pci_network :: "uint8 \<Rightarrow> uint8 \<Rightarrow> prints" where
  "pci_network subclass_id prog_if =
     [(''Network Controller: '', [])] @
     (if subclass_id = 0x0 then [(''Ethernet Controller\<newline>'', [])]
      else if subclass_id = 0x1 then [(''Token Ring Controller\<newline>'', [])]
      else if subclass_id = 0x2 then [(''FDDI Controller\<newline>'', [])]
      else if subclass_id = 0x3 then [(''ATM Controller\<newline>'', [])]
      else if subclass_id = 0x4 then [(''ISDN Controller\<newline>'', [])]
      else if subclass_id = 0x5 then [(''WorldFip Controller\<newline>'', [])]
      else if subclass_id = 0x6 then [(''PICMG 2.14 Multi Computing\<newline>'', [])]
      else if subclass_id = 0x7 then [(''InfiniBand Controller\<newline>'', [])]
      else if subclass_id = 0x8 then [(''Fabric Controller\<newline>'', [])]
      else if subclass_id = 0x80 then [(''Other Network Controller\<newline>'', [])]
      else [(''Unknown Subclass: %x\<newline>'', [ucast subclass_id])])"

definition pci_display :: "uint8 \<Rightarrow> uint8 \<Rightarrow> prints" where
  "pci_display subclass_id prog_if =
     [(''Display Controller: '', [])] @
     (if subclass_id = 0x0 then [(''VGA-Compatible Controller '', [])] @
           (if prog_if = 0 then [(''(VGA)\<newline>'', [])]
            else if prog_if = 1 then [(''(8514)\<newline>'', [])]
            else [(''(Unknown)\<newline>'', [])])
      else if subclass_id = 0x1 then [(''XGA Controller\<newline>'', [])]
      else if subclass_id = 0x2 then [(''3D Controller\<newline>'', [])]
      else if subclass_id = 0x80 then [(''Other Display Controller\<newline>'', [])]
      else [(''Unknown Subclass: %x\<newline>'', [ucast subclass_id])])"

definition pci_multimedia :: "uint8 \<Rightarrow> uint8 \<Rightarrow> prints" where
  "pci_multimedia subclass_id prog_if =
     [(''Multimedia Controller: '', [])] @
     (if subclass_id = 0x0 then [(''Multimedia Video Controller\<newline>'', [])]
      else if subclass_id = 0x1 then [(''Multimedia Audio Controller\<newline>'', [])]
      else if subclass_id = 0x2 then [(''Computer Telephony Device\<newline>'', [])]
      else if subclass_id = 0x3 then [(''Audio Device\<newline>'', [])]
      else if subclass_id = 0x80 then [(''Other Multimedia Controller\<newline>'', [])]
      else [(''Unknown Subclass: %x\<newline>'', [ucast subclass_id])])"

definition pci_memory :: "uint8 \<Rightarrow> uint8 \<Rightarrow> prints" where
  "pci_memory subclass_id prog_if =
     [(''Memory Controller: '', [])] @
     (if subclass_id = 0x0 then [(''RAM Controller\<newline>'', [])]
      else if subclass_id = 0x1 then [(''Flash Controller\<newline>'', [])]
      else if subclass_id = 0x80 then [(''Other Memory Controller\<newline>'', [])]
      else [(''Unknown Subclass: %x\<newline>'', [ucast subclass_id])])"

definition pci_bridge :: "uint8 \<Rightarrow> uint8 \<Rightarrow> prints" where
  "pci_bridge subclass_id prog_if =
     [(''Bridge: '', [])] @
     (if subclass_id = 0x00 then [(''Host Bridge\<newline>'', [])]
      else if subclass_id = 0x01 then [(''ISA Bridge\<newline>'', [])]
      else if subclass_id = 0x02 then [(''EISA Bridge\<newline>'', [])]
      else if subclass_id = 0x03 then [(''MCA Bridge\<newline>'', [])]
      else if subclass_id = 0x04 then [(''PCI-to-PCI Bridge '', [])] @
           (if prog_if = 0 then [(''(Normal Decode)\<newline>'', [])]
            else if prog_if = 1 then [(''(Subtractive Decode)\<newline>'', [])]
            else [(''(Unknown Decode)\<newline>'', [])])
      else if subclass_id = 0x05 then [(''PCMCIA Bridge\<newline>'', [])]
      else if subclass_id = 0x06 then [(''NuBus Bridge\<newline>'', [])]
      else if subclass_id = 0x07 then [(''CardBus Bridge\<newline>'', [])]
      else if subclass_id = 0x08 then [(''RACEway Bridge '', [])] @
           (if prog_if = 0 then [(''(Transparent Mode)\<newline>'', [])]
            else if prog_if = 1 then [(''(Endpoint Mode)\<newline>'', [])]
            else [(''(Unknown Mode)\<newline>'', [])])
      else if subclass_id = 0x09 then [(''PCI-to-PCI Bridge'', [])] @
           (if prog_if = 0x40 then [(''(Semi-Transparent, Primary Bus towards Host)\<newline>'', [])]
            else if prog_if = 0x80 then [(''(Semi-Transparent, Secondary Bus towards Host)\<newline>'', [])]
            else [(''(Unknown Mode)\<newline>'', [])])
      else if subclass_id = 0x0A then [(''InfiniBand-to-PCI Host Bridge\<newline>'', [])]
      else if subclass_id = 0x80 then [(''Other Bridge Device\<newline>'', [])]
      else [(''Unknown Subclass: %x\<newline>'', [ucast subclass_id])])"

definition pci_simple_comm :: "uint8 \<Rightarrow> uint8 \<Rightarrow> prints" where
  "pci_simple_comm subclass_id prog_if =
     [(''Simple Communication Controller: '', [])] @
     (if subclass_id = 0x0 then [(''Serial Controller '', [])] @
           (if prog_if = 0 then [(''(8250-Compatible, Generic XT)\<newline>'', [])]
            else if prog_if = 1 then [(''(16450-Compatible)\<newline>'', [])]
            else if prog_if = 2 then [(''(16550-Compatible)\<newline>'', [])]
            else if prog_if = 3 then [(''(16650-Compatible)\<newline>'', [])]
            else if prog_if = 4 then [(''(16750-Compatible)\<newline>'', [])]
            else if prog_if = 5 then [(''(16850-Compatible)\<newline>'', [])]
            else if prog_if = 6 then [(''(16950-Compatible)\<newline>'', [])]
            else [(''(Unknown)\<newline>'', [])])
      else if subclass_id = 0x1 then [(''Parallel Controller '', [])] @
           (if prog_if = 0 then [(''(Standard Parallel Port)\<newline>'', [])]
            else if prog_if = 1 then [(''(Bi-Directional Parallel Port)\<newline>'', [])]
            else if prog_if = 2 then [(''(ECP 1.X Compliant Parallel Port)\<newline>'', [])]
            else if prog_if = 3 then [(''(IEEE 1284 Controller)\<newline>'', [])]
            else if prog_if = 0xFE then [(''(IEEE 1284 Target Device)\<newline>'', [])]
            else [(''(Unknown)\<newline>'', [])])
      else if subclass_id = 0x2 then [(''Multiport Serial Controller\<newline>'', [])]
      else if subclass_id = 0x3 then [(''Modem '', [])] @
           (if prog_if = 0 then [(''(Generic Modem)\<newline>'', [])]
            else if prog_if = 1 then [(''(Hayes 16450-Compatible Interface)\<newline>'', [])]
            else if prog_if = 2 then [(''(Hayes 16550-Compatible Interface)\<newline>'', [])]
            else if prog_if = 3 then [(''(Hayes 16650-Compatible Interface)\<newline>'', [])]
            else if prog_if = 4 then [(''(Hayes 16750-Compatible Interface)\<newline>'', [])]
            else [(''(Unknown)\<newline>'', [])])
      else if subclass_id = 0x4 then [(''IEEE 488.1/488.2 (GPIB) Controller\<newline>'', [])]
      else if subclass_id = 0x5 then [(''Smart Card\<newline>'', [])]
      else if subclass_id = 0x80 then [(''Other Communication Device\<newline>'', [])]
      else [(''Unknown Subclass: %x\<newline>'', [ucast subclass_id])])"

definition pci_base_system_peripheral :: "uint8 \<Rightarrow> uint8 \<Rightarrow> prints" where
  "pci_base_system_peripheral subclass_id prog_if =
     [(''Base System Peripheral: '', [])] @
     (if subclass_id = 0x0 then [(''Programmable Interrupt Controller '', [])] @
           (if prog_if = 0 then [(''(Generic 8259-Compatible)\<newline>'', [])]
            else if prog_if = 0x1 then [(''(ISA-Compatible)\<newline>'', [])]
            else if prog_if = 0x2 then [(''(EISA-Compatible)\<newline>'', [])]
            else if prog_if = 0x10 then [(''(I/O APIC Interrupt Controller)\<newline>'', [])]
            else if prog_if = 0x20 then [(''(I/O(x) APIC Interrupt Controller)\<newline>'', [])]
            else [(''(Unknown)\<newline>'', [])])
      else if subclass_id = 0x1 then [(''DMA Controller '', [])] @
           (if prog_if = 0 then [(''(Generic 8237-Compatible)\<newline>'', [])]
            else if prog_if = 1 then [(''(ISA-Compatible)\<newline>'', [])]
            else if prog_if = 2 then [(''(EISA-Compatible)\<newline>'', [])]
            else [(''(Unknown)\<newline>'', [])])
      else if subclass_id = 0x2 then [(''Timer '', [])] @
           (if prog_if = 0 then [(''(Generic 8254-Compatible)\<newline>'', [])]
            else if prog_if = 1 then [(''(ISA-Compatible)\<newline>'', [])]
            else if prog_if = 2 then [(''(EISA-Compatible)\<newline>'', [])]
            else if prog_if = 3 then [(''(HPET)\<newline>'', [])]
            else [(''(Unknown)\<newline>'', [])])
      else if subclass_id = 0x3 then [(''RTC Controller '', [])] @
           (if prog_if = 0 then [(''(Generic RTC)\<newline>'', [])]
            else if prog_if = 1 then [(''(ISA-Compatible)\<newline>'', [])]
            else [(''(Unknown)\<newline>'', [])])
      else if subclass_id = 0x4 then [(''PCI Hot-Plug Controller\<newline>'', [])]
      else if subclass_id = 0x5 then [(''SD Host Controller\<newline>'', [])]
      else if subclass_id = 0x6 then [(''IOMMU\<newline>'', [])]
      else if subclass_id = 0x80 then [(''Other System Peripheral\<newline>'', [])]
      else [(''Unknown Subclass: %x\<newline>'', [ucast subclass_id])])"

definition pci_input_device :: "uint8 \<Rightarrow> uint8 \<Rightarrow> prints" where
  "pci_input_device subclass_id prog_if =
     [(''Input Device: '', [])] @
     (if subclass_id = 0x0 then [(''Keyboard Controller\<newline>'', [])]
      else if subclass_id = 0x1 then [(''Digitizer Pen\<newline>'', [])]
      else if subclass_id = 0x2 then [(''Mouse Controller\<newline>'', [])]
      else if subclass_id = 0x3 then [(''Scanner Controller\<newline>'', [])]
      else if subclass_id = 0x4 then [(''Gameport Controller '', [])] @
           (if prog_if = 0x0 then [(''(Generic)\<newline>'', [])]
            else if prog_if = 0x10 then [(''(Extended)\<newline>'', [])]
            else [(''(Unknown)\<newline>'', [])])
      else if subclass_id = 0x80 then [(''Other Input Controller\<newline>'', [])]
      else [(''Unknown Subclass: %x\<newline>'', [ucast subclass_id])])"

definition pci_docking_station :: "uint8 \<Rightarrow> uint8 \<Rightarrow> prints" where
  "pci_docking_station subclass_id prog_if =
     [(''Docking Station: '', [])] @
     (if subclass_id = 0x0 then [(''Generic\<newline>'', [])]
      else if subclass_id = 0x80 then [(''Other\<newline>'', [])]
      else [(''Unknown Subclass: %x\<newline>'', [ucast subclass_id])])"

definition pci_processor :: "uint8 \<Rightarrow> uint8 \<Rightarrow> prints" where
  "pci_processor subclass_id prog_if =
     [(''Processor: '', [])] @
     (if subclass_id = 0x0 then [(''386\<newline>'', [])]
      else if subclass_id = 0x1 then [(''486\<newline>'', [])]
      else if subclass_id = 0x2 then [(''Pentium\<newline>'', [])]
      else if subclass_id = 0x3 then [(''Pentium Pro\<newline>'', [])]
      else if subclass_id = 0x10 then [(''Alpha\<newline>'', [])]
      else if subclass_id = 0x20 then [(''PowerPC\<newline>'', [])]
      else if subclass_id = 0x30 then [(''MIPS\<newline>'', [])]
      else if subclass_id = 0x40 then [(''Co-Processor\<newline>'', [])]
      else if subclass_id = 0x80 then [(''Other\<newline>'', [])]
      else [(''Unknown Subclass: %x\<newline>'', [ucast subclass_id])])"

definition pci_serial_bus :: "uint8 \<Rightarrow> uint8 \<Rightarrow> prints" where
  "pci_serial_bus subclass_id prog_if =
     [(''Serial Bus Controller: '', [])] @
     (if subclass_id = 0x0 then [(''FireWire (IEEE 1394) Controller '', [])] @
           (if prog_if = 0x0 then [(''(Generic)\<newline>'', [])]
            else if prog_if = 0x10 then [(''(OHCI)\<newline>'', [])]
            else [(''(Unknown)\<newline>'', [])])
      else if subclass_id = 0x1 then [(''ACCESS Bus Controller\<newline>'', [])]
      else if subclass_id = 0x2 then [(''SSA\<newline>'', [])]
      else if subclass_id = 0x3 then [(''USB Controller '', [])] @
           (if prog_if = 0x0 then [(''(UHCI)\<newline>'', [])]
            else if prog_if = 0x10 then [(''(OHCI)\<newline>'', [])]
            else if prog_if = 0x20 then [(''(EHCI, USB2)\<newline>'', [])]
            else if prog_if = 0x30 then [(''(XHCI, USB3)\<newline>'', [])]
            else if prog_if = 0x80 then [(''(Unspecified)\<newline>'', [])]
            else if prog_if = 0xFE then [(''(USB Device, Not a host controller)\<newline>'', [])]
            else [(''(Unknown)\<newline>'', [])])
      else if subclass_id = 0x4 then [(''Fibre Channel\<newline>'', [])]
      else if subclass_id = 0x5 then [(''SMBus Controller\<newline>'', [])]
      else if subclass_id = 0x6 then [(''InfiniBand Controller\<newline>'', [])]
      else if subclass_id = 0x7 then [(''IPMI Interface '', [])] @
           (if prog_if = 0 then [(''(SMIC)\<newline>'', [])]
            else if prog_if = 1 then [(''(Keyboard Controller Style)\<newline>'', [])]
            else if prog_if = 2 then [(''(Block Transfer)\<newline>'', [])]
            else [(''(Unknown)\<newline>'', [])])
      else if subclass_id = 0x8 then [(''SERCOS Interface (IEC 61491)\<newline>'', [])]
      else if subclass_id = 0x9 then [(''CANbus Controller\<newline>'', [])]
      else if subclass_id = 0x80 then [(''Other Bus Controller\<newline>'', [])]
      else [(''Unknown Subclass: %x\<newline>'', [ucast subclass_id])])"

definition pci_wireless :: "uint8 \<Rightarrow> uint8 \<Rightarrow> prints" where
  "pci_wireless subclass_id prog_if =
     [(''Wireless Controller: '', [])] @
     (if subclass_id = 0x0 then [(''iRDA Compatible Controller\<newline>'', [])]
      else if subclass_id = 0x1 then [(''Consumer IR Controller\<newline>'', [])]
      else if subclass_id = 0x10 then [(''RF Controller\<newline>'', [])]
      else if subclass_id = 0x11 then [(''Bluetooth Controller\<newline>'', [])]
      else if subclass_id = 0x12 then [(''Broadband Controller\<newline>'', [])]
      else if subclass_id = 0x20 then [(''Ethernet Controller (802.11a)\<newline>'', [])]
      else if subclass_id = 0x21 then [(''Ethernet Controller (802.11b)\<newline>'', [])]
      else if subclass_id = 0x80 then [(''Other Wireless Controller\<newline>'', [])]
      else [(''Unknown Subclass: %x\<newline>'', [ucast subclass_id])])"

definition pci_intelligent_io :: "uint8 \<Rightarrow> uint8 \<Rightarrow> prints" where
  "pci_intelligent_io subclass_id prog_if =
     [(''Intelligent I/O Controller\<newline>'', [])]"

definition pci_satellite_comm :: "uint8 \<Rightarrow> uint8 \<Rightarrow> prints" where
  "pci_satellite_comm subclass_id prog_if =
     [(''Satellite Communication Controller: '', [])] @
     (if subclass_id = 0x1 then [(''TV Controller\<newline>'', [])]
      else if subclass_id = 0x2 then [(''Audio Controller\<newline>'', [])]
      else if subclass_id = 0x3 then [(''Voice Controller\<newline>'', [])]
      else if subclass_id = 0x4 then [(''Data Controller\<newline>'', [])]
      else [(''Unknown Subclass: %x\<newline>'', [ucast subclass_id])])"

definition pci_encryption :: "uint8 \<Rightarrow> uint8 \<Rightarrow> prints" where
  "pci_encryption subclass_id prog_if =
     [(''Encryption Controller: '', [])] @
     (if subclass_id = 0x0 then [(''Network and Computing Encrpytion/Decryption\<newline>'', [])]
      else if subclass_id = 0x10 then [(''Entertainment Encryption/Decryption\<newline>'', [])]
      else if subclass_id = 0x80 then [(''Other Encryption/Decryption\<newline>'', [])]
      else [(''Unknown Subclass: %x\<newline>'', [ucast subclass_id])])"

definition pci_signal :: "uint8 \<Rightarrow> uint8 \<Rightarrow> prints" where
  "pci_signal subclass_id prog_if =
     [(''Signal Processing Controller: '', [])] @
     (if subclass_id = 0x0 then [(''DPIO Modules\<newline>'', [])]
      else if subclass_id = 0x1 then [(''Performance Counters\<newline>'', [])]
      else if subclass_id = 0x10 then [(''Communication Synchronizer\<newline>'', [])]
      else if subclass_id = 0x20 then [(''Signal Processing Management\<newline>'', [])]
      else if subclass_id = 0x80 then [(''Other Signal Processing Controller\<newline>'', [])]
      else [(''Unknown Subclass: %x\<newline>'', [ucast subclass_id])])"

definition pci_processing_accelerator :: "uint8 \<Rightarrow> uint8 \<Rightarrow> prints" where
  "pci_processing_accelerator subclass_id prog_if =
     [(''Processing Accelerator\<newline>'', [])]"

definition pci_non_essential :: "uint8 \<Rightarrow> uint8 \<Rightarrow> prints" where
  "pci_non_essential subclass_id prog_if =
     [(''Non-Essential Instrumentation\<newline>'', [])]"

definition pci_coprocessor :: "uint8 \<Rightarrow> uint8 \<Rightarrow> prints" where
  "pci_coprocessor subclass_id prog_if =
     [(''Co-Processor\<newline>'', [])]"

definition pci_unassigned :: "uint8 \<Rightarrow> uint8 \<Rightarrow> prints" where
  "pci_unassigned subclass_id prog_if =
     [(''Unassigned Class\<newline>'', [])]"

definition pci_class_default :: "uint8 \<Rightarrow> prints" where
  "pci_class_default class_id =
     [(''Unknown Class: %x\<newline>'', [ucast class_id])]"

text \<open>The outer switch.\<close>

definition pci_class_prints :: "uint8 \<Rightarrow> uint8 \<Rightarrow> uint8 \<Rightarrow> prints" where
  "pci_class_prints class_id subclass_id prog_if =
     (if class_id = 0x00 then pci_unclassified subclass_id prog_if
      else if class_id = 0x01 then pci_storage subclass_id prog_if
      else if class_id = 0x02 then pci_network subclass_id prog_if
      else if class_id = 0x03 then pci_display subclass_id prog_if
      else if class_id = 0x04 then pci_multimedia subclass_id prog_if
      else if class_id = 0x05 then pci_memory subclass_id prog_if
      else if class_id = 0x06 then pci_bridge subclass_id prog_if
      else if class_id = 0x07 then pci_simple_comm subclass_id prog_if
      else if class_id = 0x08 then pci_base_system_peripheral subclass_id prog_if
      else if class_id = 0x09 then pci_input_device subclass_id prog_if
      else if class_id = 0x0A then pci_docking_station subclass_id prog_if
      else if class_id = 0x0B then pci_processor subclass_id prog_if
      else if class_id = 0x0C then pci_serial_bus subclass_id prog_if
      else if class_id = 0x0D then pci_wireless subclass_id prog_if
      else if class_id = 0x0E then pci_intelligent_io subclass_id prog_if
      else if class_id = 0x0F then pci_satellite_comm subclass_id prog_if
      else if class_id = 0x10 then pci_encryption subclass_id prog_if
      else if class_id = 0x11 then pci_signal subclass_id prog_if
      else if class_id = 0x12 then pci_processing_accelerator subclass_id prog_if
      else if class_id = 0x13 then pci_non_essential subclass_id prog_if
      else if class_id = 0x40 then pci_coprocessor subclass_id prog_if
      else if class_id = 0xFF then pci_unassigned subclass_id prog_if
      else pci_class_default class_id)"

end
