(* ===== verification/Pci.thy ===== *)
theory Pci
  imports PciClass KList
begin

text \<open>
  Enumeration of the PCI bus, \<^verbatim>\<open>pci.c\<close>.  Configuration space is read through the address and
  data ports; a device found is recorded in a heap object of type \<^verbatim>\<open>struct pci_device\<close>, whose
  members are stores at their offsets.
\<close>

section \<open>Configuration space\<close>

definition PCI_CONFIG_ADDRESS :: uint16 where "PCI_CONFIG_ADDRESS = 0xCF8"
definition PCI_CONFIG_ENABLE :: uint32 where "PCI_CONFIG_ENABLE = push_bit 31 1"
definition PCI_CONFIG_DATA :: uint16 where "PCI_CONFIG_DATA = 0xCFC"

definition pci_config_address :: "uint32 \<Rightarrow> uint32 \<Rightarrow> uint32 \<Rightarrow> uint8 \<Rightarrow> uint32" where
  "pci_config_address bus slot func offset =
     PCI_CONFIG_ENABLE OR push_bit 16 bus OR push_bit 11 slot OR push_bit 8 func OR
       ucast (offset AND 0xFC)"

definition pci_config_read ::
    "klayout \<Rightarrow> uint32 \<Rightarrow> uint32 \<Rightarrow> uint32 \<Rightarrow> uint8 \<Rightarrow> kstate \<Rightarrow> uint32 \<times> kstate" where
  "pci_config_read K bus slot func offset s =
     k_inl K PCI_CONFIG_DATA
       (k_outl PCI_CONFIG_ADDRESS (pci_config_address bus slot func offset) s)"

definition pci_config_read16 ::
    "klayout \<Rightarrow> uint32 \<Rightarrow> uint32 \<Rightarrow> uint32 \<Rightarrow> uint8 \<Rightarrow> kstate \<Rightarrow> uint16 \<times> kstate" where
  "pci_config_read16 K bus slot func offset s =
     (let (v, s) = pci_config_read K bus slot func offset s in
      (ucast (drop_bit (unat ((offset AND 2) * 8)) v AND 0xFFFF), s))"

definition pci_config_read8 ::
    "klayout \<Rightarrow> uint32 \<Rightarrow> uint32 \<Rightarrow> uint32 \<Rightarrow> uint8 \<Rightarrow> kstate \<Rightarrow> uint8 \<times> kstate" where
  "pci_config_read8 K bus slot func offset s =
     (let (v, s) = pci_config_read K bus slot func offset s in
      (ucast (drop_bit (unat ((offset AND 3) * 8)) v AND 0xFF), s))"

section \<open>Reading a device\<close>

text \<open>
  A row \<open>(w, offset, field)\<close> reads the register of width \<open>w\<close> at \<open>offset\<close> into the member at byte
  \<open>field\<close> of the record.
\<close>

definition pci_read_field ::
    "klayout \<Rightarrow> uint32 \<Rightarrow> uint32 \<Rightarrow> uint32 \<Rightarrow> uint64 \<Rightarrow> nat \<times> uint8 \<times> uint64 \<Rightarrow> kstate \<Rightarrow> kstate" where
  "pci_read_field K bus slot func p row s =
     (case row of (w, offset, field) \<Rightarrow>
        if w = 8 then
          let (v, s) = pci_config_read8 K bus slot func offset s in
          s\<lparr>mem := store8 (mem s) (p + field) v\<rparr>
        else if w = 16 then
          let (v, s) = pci_config_read16 K bus slot func offset s in
          s\<lparr>mem := store16 (mem s) (p + field) v\<rparr>
        else
          let (v, s) = pci_config_read K bus slot func offset s in
          s\<lparr>mem := store32 (mem s) (p + field) v\<rparr>)"

definition pci_header_rows :: "(nat \<times> uint8 \<times> uint64) list" where
  "pci_header_rows =
     [(16, 0, 4),
      (16, 2, 6),
      (16, 4, 8),
      (16, 6, 10),
      (8, 8, 12),
      (8, 9, 13),
      (8, 10, 14),
      (8, 11, 15),
      (8, 12, 16),
      (8, 13, 17),
      (8, 14, 18),
      (8, 15, 19)]"

definition pci_table_rows :: "(nat \<times> uint8 \<times> uint64) list" where
  "pci_table_rows =
     [(32, 16, 20),
      (32, 20, 24),
      (32, 24, 28),
      (32, 28, 32),
      (32, 32, 36),
      (32, 36, 40),
      (32, 40, 44),
      (16, 44, 48),
      (16, 46, 50),
      (32, 48, 52),
      (8, 52, 56),
      (8, 60, 57),
      (8, 61, 58),
      (8, 62, 59),
      (8, 63, 60)]"

definition pci_read_header :: "klayout \<Rightarrow> uint32 \<Rightarrow> uint32 \<Rightarrow> uint32 \<Rightarrow> uint64 \<Rightarrow> kstate \<Rightarrow> kstate" where
  "pci_read_header K bus slot func p s =
     (let s = s\<lparr>mem := store8 (mem s) p (ucast bus)\<rparr>;
          s = s\<lparr>mem := store8 (mem s) (p + 1) (ucast slot)\<rparr>;
          s = s\<lparr>mem := store8 (mem s) (p + 2) (ucast func)\<rparr>
      in fold (pci_read_field K bus slot func p) pci_header_rows s)"

definition pci_read_table :: "klayout \<Rightarrow> uint64 \<Rightarrow> kstate \<Rightarrow> kstate" where
  "pci_read_table K p s =
     (let bus = load8 (mem s) p; slot = load8 (mem s) (p + 1); func = load8 (mem s) (p + 2) in
      fold (pci_read_field K (ucast bus) (ucast slot) (ucast func) p) pci_table_rows s)"

definition pci_parse_class :: "klayout \<Rightarrow> uint64 \<Rightarrow> kstate \<Rightarrow> kstate kres" where
  "pci_parse_class K p s =
     (let m = mem s in
      ebind (kprintf K ''[PCI %X:%X.%X] ''
               [ucast (load8 m p), ucast (load8 m (p + 1)), ucast (load8 m (p + 2))] s) (\<lambda>s.
      kprintfs K
        (pci_class_prints (load8 m (p + 15)) (load8 m (p + 14)) (load8 m (p + 13))) s))"

definition pci_dump :: "klayout \<Rightarrow> uint64 \<Rightarrow> kstate \<Rightarrow> kstate kres" where
  "pci_dump K p s =
     (let m = mem s in
      kprintfs K
        [(''  Vendor: %x\<newline>'', [ucast (load16 m (p + 4))]),
         (''  Device: %x\<newline>'', [ucast (load16 m (p + 6))]),
         (''  Type: %x\<newline>'', [ucast (load8 m (p + 18))]),
         (''  Status: %x\<newline>'', [ucast (load16 m (p + 10))]),
         (''  Command: %x\<newline>'', [ucast (load16 m (p + 8))]),
         (''  Class: %x\<newline>'', [ucast (load8 m (p + 15))]),
         (''  Subclass: %x\<newline>'', [ucast (load8 m (p + 14))]),
         (''  Prog IF: %x\<newline>'', [ucast (load8 m (p + 13))]),
         (''  Rev ID: %x\<newline>'', [ucast (load8 m (p + 12))]),
         (''  BIST: %x\<newline>'', [ucast (load8 m (p + 19))]),
         (''  Latency Timer: %x\<newline>'', [ucast (load8 m (p + 17))]),
         (''  Cache Line Size: %x\<newline>'', [ucast (load8 m (p + 16))]),
         (''  BAR0: %x\<newline>'', [ucast (load32 m (p + 20))]),
         (''  BAR1: %x\<newline>'', [ucast (load32 m (p + 24))]),
         (''  BAR2: %x\<newline>'', [ucast (load32 m (p + 28))]),
         (''  BAR3: %x\<newline>'', [ucast (load32 m (p + 32))]),
         (''  BAR4: %x\<newline>'', [ucast (load32 m (p + 36))]),
         (''  BAR5: %x\<newline>'', [ucast (load32 m (p + 40))]),
         (''  Cardbus CIS Pointer: %x\<newline>'', [ucast (load32 m (p + 44))]),
         (''  Subsystem Vendor ID: %x\<newline>'', [ucast (load16 m (p + 48))]),
         (''  Subsystem ID: %x\<newline>'', [ucast (load16 m (p + 50))]),
         (''  Expansion ROM Base: %x\<newline>'', [ucast (load32 m (p + 52))]),
         (''  Cap Pointer: %x\<newline>'', [ucast (load8 m (p + 56))]),
         (''  Interrupt Line: %x\<newline>'', [ucast (load8 m (p + 57))]),
         (''  Interrupt Pin: %x\<newline>'', [ucast (load8 m (p + 58))]),
         (''  Min Grant: %x\<newline>'', [ucast (load8 m (p + 59))]),
         (''  Max Latency: %x\<newline>'', [ucast (load8 m (p + 60))])] s)"

section \<open>The scan\<close>

definition sizeof_pci_device :: uint64 where "sizeof_pci_device = 64"

definition pci_found :: "klayout \<Rightarrow> uint32 \<Rightarrow> uint32 \<Rightarrow> uint32 \<Rightarrow> kstate \<Rightarrow> (uint64 \<times> kstate) kres" where
  "pci_found K bus slot func s =
     ebind (kmalloc K sizeof_pci_device s) (\<lambda>(p, s).
     ebind (list_push K (pci_devices_at K) p s) (\<lambda>s.
     let s = pci_read_header K bus slot func p s;
         s = pci_read_table K p s
     in
     ebind (pci_parse_class K p s) (\<lambda>s.
     ebind (pci_dump K p s) (\<lambda>s. Inr (p, s)))))"

primrec pci_scan_funcs :: "klayout \<Rightarrow> uint32 \<Rightarrow> uint32 \<Rightarrow> nat list \<Rightarrow> kstate \<Rightarrow> kstate kres" where
  "pci_scan_funcs K bus slot [] s = Inr s"
| "pci_scan_funcs K bus slot (f # fs) s =
     (let (v, s) = pci_config_read16 K bus slot (of_nat f) 0 s in
      if v = 0xFFFF then pci_scan_funcs K bus slot fs s
      else ebind (pci_found K bus slot (of_nat f) s) (\<lambda>(p, s). pci_scan_funcs K bus slot fs s))"

definition pci_scan_slot :: "klayout \<Rightarrow> uint32 \<Rightarrow> uint32 \<Rightarrow> kstate \<Rightarrow> kstate kres" where
  "pci_scan_slot K bus slot s =
     (let (v, s) = pci_config_read16 K bus slot 0 0 s in
      if v = 0xFFFF then Inr s
      else
        ebind (pci_found K bus slot 0 s) (\<lambda>(p, s).
        if load8 (mem s) (p + 18) AND 0x80 \<noteq> 0 then pci_scan_funcs K bus slot [1..<8] s else Inr s))"

primrec pci_scan_slots :: "klayout \<Rightarrow> (nat \<times> nat) list \<Rightarrow> kstate \<Rightarrow> kstate kres" where
  "pci_scan_slots K [] s = Inr s"
| "pci_scan_slots K (bs # bss) s =
     ebind (pci_scan_slot K (of_nat (fst bs)) (of_nat (snd bs)) s) (\<lambda>s. pci_scan_slots K bss s)"

definition pci_scan :: "klayout \<Rightarrow> kstate \<Rightarrow> kstate kres" where
  "pci_scan K s = pci_scan_slots K (List.product [0..<256] [0..<32]) s"

section \<open>The device record against configuration space\<close>

text \<open>
  What the documentation of the bus promises of the two ports: a read of the data port
  delivers the configuration register whose address was written to the address port just
  before.
\<close>

definition pci_config_device :: "device \<Rightarrow> (uint32 \<Rightarrow> uint32) \<Rightarrow> bool" where
  "pci_config_device D cfg \<longleftrightarrow> (\<forall>a tr. D (Out32 PCI_CONFIG_ADDRESS a # tr) PCI_CONFIG_DATA = cfg a)"

text \<open>Byte \<open>i\<close> of the configuration space of a function.\<close>

definition pci_byte :: "(uint32 \<Rightarrow> uint32) \<Rightarrow> uint32 \<Rightarrow> uint32 \<Rightarrow> uint32 \<Rightarrow> nat \<Rightarrow> uint8" where
  "pci_byte cfg bus slot func i =
     ucast (drop_bit (8 * (i mod 4)) (cfg (pci_config_address bus slot func (of_nat i))))"

lemma pci_config_read_value:
  assumes "pci_config_device (port_dev K) cfg"
  shows "\<exists>tr. pci_config_read K bus slot func offset s =
    (cfg (pci_config_address bus slot func offset), s\<lparr>io := tr\<rparr>)"
  using assms
  by (simp add: pci_config_read_def k_inl_def k_outl_def inl_def outl_def pci_config_device_def Let_def)
    blast

lemma pci_config_address_dword:
  assumes "a AND 0xFC = b AND 0xFC"
  shows "pci_config_address bus slot func a = pci_config_address bus slot func b"
  using assms by (simp add: pci_config_address_def)

text \<open>What one row leaves in memory.\<close>

definition row_ok :: "nat \<times> uint8 \<times> uint64 \<Rightarrow> bool" where
  "row_ok row = (case row of (w, offset, field) \<Rightarrow>
     (w = 8 \<and> unat ((offset AND 3) * 8) = 8 * (unat offset mod 4)) \<or>
     (w = 16 \<and> unat ((offset AND 2) * 8) = 8 * (unat offset mod 4) \<and> unat offset mod 4 < 3 \<and>
      (offset + 1) AND 0xFC = offset AND 0xFC))"

definition row_bytes :: "(nat \<Rightarrow> uint8) \<Rightarrow> nat \<times> uint8 \<times> uint64 \<Rightarrow> uint8 list" where
  "row_bytes cb row = (case row of (w, offset, field) \<Rightarrow>
     map cb [unat offset..<unat offset + w div 8])"

lemma pci_field_row:
  assumes dev: "pci_config_device (port_dev K) cfg" and ok: "row_ok row"
  shows "\<exists>tr. pci_read_field K bus slot func p row s =
    s\<lparr>io := tr, mem := store_bytes (mem s) (p + snd (snd row))
        (row_bytes (pci_byte cfg bus slot func) row)\<rparr>"
proof -
  obtain w offset f where row: "row = (w, offset, f)" by (cases row)
  let ?x = "cfg (pci_config_address bus slot func offset)"
  obtain tr where r: "pci_config_read K bus slot func offset s = (?x, s\<lparr>io := tr\<rparr>)"
    using pci_config_read_value [OF dev] by blast
  have b0: "pci_byte cfg bus slot func (unat offset) = ucast (drop_bit (8 * (unat offset mod 4)) ?x)"
    by (simp add: pci_byte_def)
  have m8: "(ucast (x AND 0xFF) :: uint8) = ucast x"
    and m16: "(ucast (ucast (x AND 0xFFFF) :: uint16) :: uint8) = ucast x"
    and d16: "(ucast (drop_bit 8 (ucast (x AND 0xFFFF) :: uint16)) :: uint8) = ucast (drop_bit 8 x)"
    for x :: uint32
  proof -
    have e: "(0xFF :: uint32) = mask 8" "(0xFFFF :: uint32) = mask 16"
      by (simp_all add: mask_eq_decr_exp)
    show "(ucast (x AND 0xFF) :: uint8) = ucast x"
      by (rule bit_word_eqI) (auto simp: e bit_simps)
    show "(ucast (ucast (x AND 0xFFFF) :: uint16) :: uint8) = ucast x"
      by (rule bit_word_eqI) (auto simp: e bit_simps)
    show "(ucast (drop_bit 8 (ucast (x AND 0xFFFF) :: uint16)) :: uint8) = ucast (drop_bit 8 x)"
      by (rule bit_word_eqI) (auto simp: e bit_simps)
  qed
  show ?thesis
  proof (cases "w = 8")
    case True
    with ok row have "unat ((offset AND 3) * 8) = 8 * (unat offset mod 4)"
      by (simp add: row_ok_def)
    with True row show ?thesis
      by (auto simp: pci_read_field_def pci_config_read8_def r row_bytes_def store8_def b0 m8
          Let_def)
  next
    case False
    with ok row have w: "w = 16" and sh: "unat ((offset AND 2) * 8) = 8 * (unat offset mod 4)"
      and lt: "unat offset mod 4 < 3" and fc: "(offset + 1) AND 0xFC = offset AND 0xFC"
      by (simp_all add: row_ok_def)
    from lt have "Suc (unat offset) mod 4 = Suc (unat offset mod 4)" by (simp add: mod_Suc)
    moreover from pci_config_address_dword [OF fc, of bus slot func]
    have "pci_config_address bus slot func (of_nat (Suc (unat offset))) =
        pci_config_address bus slot func offset" by (simp add: add.commute)
    ultimately have b1: "pci_byte cfg bus slot func (Suc (unat offset)) =
        ucast (drop_bit 8 (drop_bit (8 * (unat offset mod 4)) ?x))"
      by (simp only: pci_byte_def) (simp add: add.commute)
    have "row_bytes (pci_byte cfg bus slot func) row =
        [pci_byte cfg bus slot func (unat offset), pci_byte cfg bus slot func (Suc (unat offset))]"
      by (simp add: row_bytes_def row w upt_rec)
    with w row show ?thesis
      by (auto simp: pci_read_field_def pci_config_read16_def r sh store16_def le_bytes_word16
          b0 b1 m16 d16 Let_def)
  qed
qed

lemma pci_field_rows:
  assumes dev: "pci_config_device (port_dev K) cfg" and "\<forall>row \<in> set rows. row_ok row"
  shows "\<exists>tr. fold (pci_read_field K bus slot func p) rows s =
    s\<lparr>io := tr, mem := fold (\<lambda>row m. store_bytes m (p + snd (snd row))
        (row_bytes (pci_byte cfg bus slot func) row)) rows (mem s)\<rparr>"
  using assms(2)
proof (induction rows arbitrary: s)
  case Nil
  have "fold (pci_read_field K bus slot func p) [] s =
      s\<lparr>io := io s, mem := fold (\<lambda>row m. store_bytes m (p + snd (snd row))
        (row_bytes (pci_byte cfg bus slot func) row)) [] (mem s)\<rparr>" by simp
  then show ?case by blast
next
  case (Cons row rows)
  let ?st = "\<lambda>row m. store_bytes m (p + snd (snd row)) (row_bytes (pci_byte cfg bus slot func) row)"
  from Cons.prems have "row_ok row" by simp
  from pci_field_row [OF dev this] obtain tr1 where
    1: "pci_read_field K bus slot func p row s = s\<lparr>io := tr1, mem := ?st row (mem s)\<rparr>" by blast
  from Cons.prems have "\<forall>row \<in> set rows. row_ok row" by simp
  from Cons.IH [OF this] obtain tr2 where
    "fold (pci_read_field K bus slot func p) rows (s\<lparr>io := tr1, mem := ?st row (mem s)\<rparr>) =
       s\<lparr>io := tr1, mem := ?st row (mem s)\<rparr>\<lparr>io := tr2, mem := fold ?st rows
         (mem (s\<lparr>io := tr1, mem := ?st row (mem s)\<rparr>))\<rparr>" by blast
  then have "fold (pci_read_field K bus slot func p) (row # rows) s =
      s\<lparr>io := tr2, mem := fold ?st (row # rows) (mem s)\<rparr>" by (simp add: 1)
  then show ?case by blast
qed

text \<open>Rows whose members follow each other without gaps write one run of bytes.\<close>

fun rows_contiguous :: "uint64 \<Rightarrow> (nat \<times> uint8 \<times> uint64) list \<Rightarrow> bool" where
  "rows_contiguous a [] \<longleftrightarrow> True"
| "rows_contiguous a ((w, offset, field) # rows) \<longleftrightarrow>
     field = a \<and> rows_contiguous (a + of_nat (w div 8)) rows"

lemma rows_one_run:
  "rows_contiguous a rows \<Longrightarrow>
     fold (\<lambda>row m. store_bytes m (p + snd (snd row)) (row_bytes cb row)) rows m =
     store_bytes m (p + a) (concat (map (row_bytes cb) rows))"
proof (induction a rows arbitrary: m rule: rows_contiguous.induct)
  case (1 a)
  show ?case by simp
next
  case (2 a w offset field rows)
  have "length (row_bytes cb (w, offset, field)) = w div 8" by (simp add: row_bytes_def)
  with 2 show ?case by (simp add: store_bytes_append add.assoc)
qed

lemma header_rows_ok:
  "\<forall>row \<in> set pci_header_rows. row_ok row" "rows_contiguous 4 pci_header_rows"
  by (simp_all add: pci_header_rows_def row_ok_def)

lemma header_rows_bytes: "concat (map (row_bytes cb) pci_header_rows) = map cb [0..<16]"
  by (simp add: pci_header_rows_def row_bytes_def upt_rec) (simp add: numeral_eq_Suc)

lemma mem_io_update: "mem (s\<lparr>io := tr, mem := m\<rparr>) = m"
  by simp

lemma header_rows_mem:
  assumes "pci_config_device (port_dev K) cfg"
  shows "mem (fold (pci_read_field K bus slot func p) pci_header_rows s) =
    store_bytes (mem s) (p + 4) (map (pci_byte cfg bus slot func) [0..<16])"
  using pci_field_rows [OF assms header_rows_ok(1), of bus slot func p s]
  unfolding rows_one_run [OF header_rows_ok(2)] header_rows_bytes
  by (elim exE ssubst) (rule mem_io_update)

lemma disjointD: "A \<inter> B = {} \<Longrightarrow> x \<in> A \<Longrightarrow> x \<notin> B"
  by blast

lemma header_prefix_kept:
  assumes len: "length bs = 16" and c: "c = 0 \<or> c = 1 \<or> c = 2"
  shows "store_bytes m (p + 4) bs (p + c) = m (p + c)"
proof -
  have "1 \<le> unat (4 - c)" using c by (elim disjE) simp_all
  moreover have "16 \<le> unat (c - 4)" using c by (elim disjE) simp_all
  ultimately have "bytes_at (p + c) 1 \<inter> bytes_at (p + 4) 16 = {}"
    by (intro bytes_at_apart) (simp_all only: add_diff_cancel_left)
  moreover have "p + c \<in> bytes_at (p + c) 1" by (rule bytes_at_self) simp
  ultimately have "p + c \<notin> bytes_at (p + 4) (length bs)" unfolding len by (rule disjointD)
  then show ?thesis by (rule store_bytes_outside)
qed

lemma header_record:
  fixes m0 :: mem_t and p :: uint64 and b d f :: uint8
  assumes len: "length bs = 16"
  defines "m \<equiv> m0(p := b, p + 1 := d, p + 2 := f)"
  shows "load_bytes (store_bytes m (p + 4) bs) (p + 4) 16 = bs"
    "load8 (store_bytes m (p + 4) bs) p = b" "load8 (store_bytes m (p + 4) bs) (p + 1) = d"
    "load8 (store_bytes m (p + 4) bs) (p + 2) = f"
proof -
  show "load_bytes (store_bytes m (p + 4) bs) (p + 4) 16 = bs"
    by (rule load_store_bytes [of bs m "p + 4", unfolded len]) simp
  have "m p = b" "m (p + 1) = d" "m (p + 2) = f" by (simp_all add: m_def)
  then show "load8 (store_bytes m (p + 4) bs) p = b" "load8 (store_bytes m (p + 4) bs) (p + 1) = d"
    "load8 (store_bytes m (p + 4) bs) (p + 2) = f"
    using header_prefix_kept [OF len, of 0 m p] header_prefix_kept [OF len, of 1 m p]
      header_prefix_kept [OF len, of 2 m p]
    unfolding load8_def by simp_all
qed

lemma header_position:
  "mem (let s = s\<lparr>mem := store8 (mem s) p b\<rparr>; s = s\<lparr>mem := store8 (mem s) (p + 1) d\<rparr>
        in s\<lparr>mem := store8 (mem s) (p + 2) f\<rparr>) = (mem s)(p := b, p + 1 := d, p + 2 := f)"
  by (simp add: store8_def Let_def)

lemma header_run:
  assumes "pci_config_device (port_dev K) cfg"
  shows "mem (pci_read_header K bus slot func p s) =
    store_bytes ((mem s)(p := ucast bus, p + 1 := ucast slot, p + 2 := ucast func)) (p + 4)
      (map (pci_byte cfg bus slot func) [0..<16])"
  unfolding pci_read_header_def Let_def header_rows_mem [OF assms]
  by (rule arg_cong [OF header_position [unfolded Let_def]])

lemma header_bytes_length: "length (map (pci_byte cfg bus slot func) [0..<16]) = 16"
  by (simp only: length_map length_upt)

text \<open>
  On a bus whose ports behave as documented, the header of a device record is the device's
  position followed by the first sixteen bytes of its configuration space, byte for byte,
  whatever mix of 8-bit and 16-bit reads the driver uses for them.
\<close>

theorem pci_read_header_config:
  assumes "pci_config_device (port_dev K) cfg"
  shows "load_bytes (mem (pci_read_header K bus slot func p s)) (p + 4) 16 =
      map (pci_byte cfg bus slot func) [0..<16] \<and>
    load8 (mem (pci_read_header K bus slot func p s)) p = ucast bus \<and>
    load8 (mem (pci_read_header K bus slot func p s)) (p + 1) = ucast slot \<and>
    load8 (mem (pci_read_header K bus slot func p s)) (p + 2) = ucast func"
  unfolding header_run [OF assms]
  by (intro conjI header_record [OF header_bytes_length])

definition pci_demo :: klayout where
  "pci_demo = demo_layout\<lparr>port_dev := (\<lambda>tr port. case tr of Out32 p a # _ \<Rightarrow> a + 0x12345678 | _ \<Rightarrow> 0)\<rparr>"

theorem pci_read_header_config_witness:
  "load_bytes (mem (pci_read_header pci_demo 0 3 0 0x5000 demo_state)) (0x5000 + 4) 16 =
      map (pci_byte (\<lambda>a. a + 0x12345678) 0 3 0) [0..<16]"
proof -
  have "pci_config_device (port_dev pci_demo) (\<lambda>a. a + 0x12345678)"
    by (simp add: pci_config_device_def pci_demo_def)
  from pci_read_header_config [OF this, of 0 3 0 "0x5000" demo_state] show ?thesis by (rule conjunct1)
qed

end
