(* ===== verification/Kernel.thy ===== *)
theory Kernel
  imports Proc Trap Idt Acpi Pci
begin

text \<open>
  Start-up of the kernel, \<^verbatim>\<open>kernel.c\<close> and \<^verbatim>\<open>mm/init.c\<close>.
\<close>

definition mm_init :: "klayout \<Rightarrow> kstate \<Rightarrow> kstate kres" where
  "mm_init K s =
     ebind (cpuid K 0x80000008 CPUID_EAX s) (\<lambda>(eax, s).
     ebind (pm_init K eax s) (\<lambda>s.
     ebind (vm_init K s) (\<lambda>s.
     slab_init K s)))"

text \<open>
  \<^verbatim>\<open>kernel_main\<close> ends in a loop that only interrupts leave; the result is the state in which it
  spins.
\<close>

definition kernel_main ::
    "klayout \<Rightarrow> (uint64 \<Rightarrow> uint64 \<Rightarrow> kstate \<Rightarrow> kstate kres) \<Rightarrow> kstate \<Rightarrow> kstate kres" where
  "kernel_main K context_switch s =
     ebind (kprintf K ''Hello, Kernel!\<newline>'' [] s) (\<lambda>s.
     ebind (cpu_init K s) (\<lambda>s.
     ebind (acpi_init K (xsdp s) s) (\<lambda>s.
     ebind (mm_init K s) (\<lambda>s.
     ebind (idt_init K s) (\<lambda>s.
     ebind (apic_init K s) (\<lambda>s.
     ebind (pci_scan K s) (\<lambda>s.
     ebind (vfs_init K s) (\<lambda>s.
     ebind (syscall_init K s) (\<lambda>s.
     uinit K context_switch s)))))))))"

primrec clear_screen_loop :: "nat \<Rightarrow> uint64 \<Rightarrow> mem_t \<Rightarrow> mem_t" where
  "clear_screen_loop 0 p m = m"
| "clear_screen_loop (Suc n) p m = clear_screen_loop n (p + 4) (store_bytes m p [0xFF, 0xFF, 0xFF, 0x00])"

definition clear_screen :: "kstate \<Rightarrow> kstate" where
  "clear_screen s =
     s\<lparr>mem := clear_screen_loop ((unat (screen_size s) + 3) div 4) (screen_base s) (mem s)\<rparr>"

definition kernel_stub ::
    "klayout \<Rightarrow> (uint64 \<Rightarrow> uint64 \<Rightarrow> kstate \<Rightarrow> kstate kres) \<Rightarrow> uint64 \<Rightarrow> kstate \<Rightarrow> kstate kres" where
  "kernel_stub K context_switch bi s =
     (let m = mem s;
          s = s\<lparr>memtotal := load64 m bi, screen_base := load64 m (bi + 8),
                screen_size := load64 m (bi + 16), screen_hr := load32 m (bi + 24),
                screen_vr := load32 m (bi + 28), xsdp := load64 m (bi + 32)\<rparr>;
          (r, tr) = serial_init (port_dev K) (io s)
      in kernel_main K context_switch (s\<lparr>io := tr\<rparr>))"

end
