(* ===== verification/Boot.thy ===== *)
theory Boot
  imports Proc
begin

text \<open>
  The UEFI boot loader, \<^verbatim>\<open>boot/\<close>.  The firmware is not part of the program: its services are a
  record of functions over a firmware state of any type, which the loader's definitions take
  as an argument, and a service that fills a buffer delivers the bytes.  The loader's own
  state is the memory it fills, the text it has printed and the firmware state.
\<close>

section \<open>Firmware services\<close>

record 'e efi =
  LocateHandleBuffer :: "'e \<Rightarrow> uint64 \<times> uint64 list \<times> 'e"
  HandleProtocol :: "uint64 \<Rightarrow> 'e \<Rightarrow> uint64 \<times> uint64 \<times> 'e"
  OpenVolume :: "uint64 \<Rightarrow> 'e \<Rightarrow> uint64 \<times> uint64 \<times> 'e"
  Open :: "uint64 \<Rightarrow> string \<Rightarrow> 'e \<Rightarrow> uint64 \<times> uint64 \<times> 'e"
  Close :: "uint64 \<Rightarrow> 'e \<Rightarrow> 'e"
  Read :: "uint64 \<Rightarrow> uint64 \<Rightarrow> 'e \<Rightarrow> uint64 \<times> uint8 list \<times> 'e"
  SetPosition :: "uint64 \<Rightarrow> uint64 \<Rightarrow> 'e \<Rightarrow> uint64 \<times> 'e"
  GetMemoryMap :: "uint64 \<Rightarrow> 'e \<Rightarrow> uint64 \<times> uint8 list \<times> uint64 \<times> uint64 \<times> 'e"
  ExitBootServices :: "uint64 \<Rightarrow> 'e \<Rightarrow> uint64 \<times> 'e"
  ConfigurationTable :: uint64
  NumberOfTableEntries :: uint64
  FrameBufferBase :: uint64
  FrameBufferSize :: uint64
  HorizontalResolution :: uint32
  VerticalResolution :: uint32

text \<open>The addresses of the loader's buffers, and the number of steps granted to its loops.\<close>

record blayout =
  mmap_buf_at :: uint64
  ehdr_at :: uint64
  phdr_at :: uint64
  acpi2_guid_at :: uint64
  boot_fuel :: nat

record 'e bstate =
  bmem :: mem_t
  bout :: string
  fw :: 'e

section \<open>common.c\<close>

definition puts :: "string \<Rightarrow> 'e bstate \<Rightarrow> 'e bstate" where
  "puts str s = s\<lparr>bout := bout s @ str\<rparr>"

text \<open>\<^verbatim>\<open>printn\<close> of the loader prints the digits that \<^verbatim>\<open>printn\<close> of the kernel prints.\<close>

definition boot_printn :: "uint64 \<Rightarrow> uint64 \<Rightarrow> 'e bstate \<Rightarrow> 'e bstate kres" where
  "boot_printn n base s = ebind (printn n base) (\<lambda>out. Inr (puts out s))"

definition crlf :: string where "crlf = [CHR 0x0D, CHR 0x0A]"

definition put_param :: "string \<Rightarrow> uint64 \<Rightarrow> 'e bstate \<Rightarrow> 'e bstate kres" where
  "put_param str n s =
     ebind (boot_printn n 16 (puts '': 0x'' (puts str s))) (\<lambda>s. Inr (puts crlf s))"

definition warn :: "uint64 \<Rightarrow> string \<Rightarrow> 'e bstate \<Rightarrow> 'e bstate kres" where
  "warn status message s =
     (if status \<noteq> 0 then
        ebind (boot_printn status 16 (puts '': '' (puts message s))) (\<lambda>s. Inr (puts crlf s))
      else Inr s)"

definition efi_assert :: "uint64 \<Rightarrow> string \<Rightarrow> 'e bstate \<Rightarrow> 'e bstate kres" where
  "efi_assert status message s =
     ebind (warn status message s) (\<lambda>s. if status \<noteq> 0 then Inl Diverge else Inr s)"

definition boot_panic :: "string \<Rightarrow> 'e bstate \<Rightarrow> 'a kres" where
  "boot_panic message s = Inl (Panic message)"

section \<open>efi.c\<close>

text \<open>
  The loader keeps the system table, clears the screen and locates the graphics protocol; what
  it prints is the banner.
\<close>

definition efi_init :: "'e bstate \<Rightarrow> 'e bstate" where
  "efi_init s = puts (''UEFI Boot!'' @ crlf) s"

definition volume_name :: string where "volume_name = ''kernel.bin''"

primrec search_volumes ::
    "'e efi \<Rightarrow> string \<Rightarrow> nat \<Rightarrow> uint64 list \<Rightarrow> 'e bstate \<Rightarrow> (uint64 \<times> 'e bstate) kres" where
  "search_volumes E filename i [] s = Inr (NULL, s)"
| "search_volumes E filename i (h # hs) s =
     (let (status, sfsp, e) = HandleProtocol E h (fw s); s = s\<lparr>fw := e\<rparr> in
      if status \<noteq> 0 then
        ebind (warn status ''HandleProtocol@sfsp'' s) (\<lambda>s. search_volumes E filename (Suc i) hs s)
      else
        let (status, root, e) = OpenVolume E sfsp (fw s); s = s\<lparr>fw := e\<rparr> in
        if status \<noteq> 0 then
          ebind (warn status ''OpenVolume@sfsp'' s) (\<lambda>s. search_volumes E filename (Suc i) hs s)
        else
          let (status, file, e) = Open E root filename (fw s); s = s\<lparr>fw := e\<rparr> in
          if status = 0 then
            ebind (put_param ''[uefi] Find Kernel in Volume'' (of_nat i) s) (\<lambda>s. Inr (root, s))
          else search_volumes E filename (Suc i) hs s)"

definition search_volume_contains_file ::
    "'e efi \<Rightarrow> string \<Rightarrow> 'e bstate \<Rightarrow> (uint64 \<times> 'e bstate) kres" where
  "search_volume_contains_file E filename s =
     (let (status, handles, e) = LocateHandleBuffer E (fw s); s = s\<lparr>fw := e\<rparr> in
      ebind (efi_assert status ''LocateHandleBuffer'' s) (\<lambda>s.
      ebind (put_param ''[uefi] Number of volumes'' (of_nat (length handles)) s) (\<lambda>s.
      search_volumes E filename 0 handles s)))"

definition MMAP_SIZE :: uint64 where "MMAP_SIZE = 0x30000"

text \<open>\<^verbatim>\<open>EFI_MEMORY_DESCRIPTOR\<close>: \<^verbatim>\<open>PhysicalStart\<close> at byte 8, \<^verbatim>\<open>NumberOfPages\<close> at byte 24.\<close>

definition desc_end :: "mem_t \<Rightarrow> uint64 \<Rightarrow> uint64" where
  "desc_end m e = load64 m (e + 8) + load64 m (e + 24) * 0x1000"

primrec max_paddr :: "mem_t \<Rightarrow> uint64 \<Rightarrow> uint64 \<Rightarrow> nat list \<Rightarrow> uint64 \<Rightarrow> uint64" where
  "max_paddr m buf desc_size [] acc = acc"
| "max_paddr m buf desc_size (i # is) acc =
     (let paddr = desc_end m (buf + of_nat i * desc_size) in
      max_paddr m buf desc_size is (if paddr > acc then paddr else acc))"

definition get_total_memory_size ::
    "blayout \<Rightarrow> 'e efi \<Rightarrow> 'e bstate \<Rightarrow> (uint64 \<times> 'e bstate) kres" where
  "get_total_memory_size B E s =
     (let (status, buf, map_key, desc_size, e) = GetMemoryMap E MMAP_SIZE (fw s);
          s = s\<lparr>fw := e, bmem := store_bytes (bmem s) (mmap_buf_at B) buf\<rparr>
      in
      ebind (efi_assert status ''GetMemoryMap@get_total_memory_size'' s) (\<lambda>s.
      if desc_size = 0 then Inl DivByZero
      else
        let entry_count = of_nat (length buf) div desc_size in
        Inr (max_paddr (bmem s) (mmap_buf_at B) desc_size [0..<unat entry_count] 0, s)))"

text \<open>\<^verbatim>\<open>EFI_GUID\<close> is 16 bytes: a 32-bit, two 16-bit and eight 8-bit members.\<close>

primrec guid_data4 :: "mem_t \<Rightarrow> uint64 \<Rightarrow> uint64 \<Rightarrow> nat list \<Rightarrow> int" where
  "guid_data4 m g h [] = 0"
| "guid_data4 m g h (i # is) =
     (if load8 m (g + 8 + of_nat i) \<noteq> load8 m (h + 8 + of_nat i) then 1 else guid_data4 m g h is)"

definition test_guid :: "mem_t \<Rightarrow> uint64 \<Rightarrow> uint64 \<Rightarrow> int" where
  "test_guid m g h =
     (if load32 m g \<noteq> load32 m h then 1
      else if load16 m (g + 4) \<noteq> load16 m (h + 4) then 1
      else if load16 m (g + 6) \<noteq> load16 m (h + 6) then 1
      else guid_data4 m g h [0..<8])"

text \<open>An entry of the configuration table is a GUID and a pointer, 24 bytes.\<close>

primrec search_tables :: "mem_t \<Rightarrow> uint64 \<Rightarrow> uint64 \<Rightarrow> nat list \<Rightarrow> uint64" where
  "search_tables m table guid [] = 0"
| "search_tables m table guid (i # is) =
     (if test_guid m (table + 24 * of_nat i) guid = 0 then load64 m (table + 24 * of_nat i + 16)
      else search_tables m table guid is)"

definition search_xsdp :: "blayout \<Rightarrow> 'e efi \<Rightarrow> 'e bstate \<Rightarrow> uint64" where
  "search_xsdp B E s =
     search_tables (bmem s) (ConfigurationTable E) (acpi2_guid_at B)
       [0..<unat (NumberOfTableEntries E)]"

definition exit_boot_services :: "blayout \<Rightarrow> 'e efi \<Rightarrow> 'e bstate \<Rightarrow> 'e bstate kres" where
  "exit_boot_services B E s =
     (let (status, buf, map_key, desc_size, e) = GetMemoryMap E MMAP_SIZE (fw s);
          s = s\<lparr>fw := e, bmem := store_bytes (bmem s) (mmap_buf_at B) buf\<rparr>
      in
      ebind (efi_assert status ''GetMemoryMap@exit_boot_services'' s) (\<lambda>s.
      let (status, e) = ExitBootServices E map_key (fw s); s = s\<lparr>fw := e\<rparr> in
      efi_assert status ''ExitBootServices'' s))"

section \<open>main.c\<close>

definition ELF_MAGIC :: uint32 where "ELF_MAGIC = 0x464C457F"

definition e_magic :: "mem_t \<Rightarrow> uint64 \<Rightarrow> uint32" where "e_magic m h = load32 m h"

definition efi_read :: "'e efi \<Rightarrow> uint64 \<Rightarrow> uint64 \<Rightarrow> uint64 \<Rightarrow> string \<Rightarrow> 'e bstate \<Rightarrow> (uint64 \<times> 'e bstate) kres" where
  "efi_read E file sz dst msg s =
     (let (status, bytes, e) = Read E file sz (fw s);
          s = s\<lparr>fw := e, bmem := store_bytes (bmem s) dst bytes\<rparr>
      in ebind (efi_assert status msg s) (\<lambda>s. Inr (of_nat (length bytes), s)))"

definition efi_seek :: "'e efi \<Rightarrow> uint64 \<Rightarrow> uint64 \<Rightarrow> string \<Rightarrow> 'e bstate \<Rightarrow> 'e bstate kres" where
  "efi_seek E file pos msg s =
     (let (status, e) = SetPosition E file pos (fw s); s = s\<lparr>fw := e\<rparr> in
      efi_assert status msg s)"

text \<open>
  One loadable segment: the read updates \<^verbatim>\<open>p_filesz\<close> to the number of bytes delivered, and the
  rest of the segment is cleared.
\<close>

definition load_segment :: "blayout \<Rightarrow> 'e efi \<Rightarrow> uint64 \<Rightarrow> uint8 \<Rightarrow> 'e bstate \<Rightarrow> 'e bstate kres" where
  "load_segment B E file i s =
     (let ph = phdr_at B in
      ebind (efi_seek E file (p_offset (bmem s) ph) ''kernel->SetPosition(p_offset)'' s) (\<lambda>s.
      ebind (put_param ''[uefi]   Load Segment'' (ucast i) s) (\<lambda>s.
      ebind (put_param ''[uefi]     p_paddr'' (p_paddr (bmem s) ph) s) (\<lambda>s.
      ebind (put_param ''[uefi]     p_filesz'' (p_filesz (bmem s) ph) s) (\<lambda>s.
      ebind (put_param ''[uefi]     p_memsz'' (p_memsz (bmem s) ph) s) (\<lambda>s.
      ebind (efi_read E file (p_filesz (bmem s) ph) (p_paddr (bmem s) ph) ''kernel->Read(Segment)'' s) (\<lambda>(n, s).
      let s = s\<lparr>bmem := store64 (bmem s) (ph + 32) n\<rparr> in
      if p_filesz (bmem s) ph < p_memsz (bmem s) ph then
        Inr (s\<lparr>bmem := memset (bmem s) (p_paddr (bmem s) ph + p_filesz (bmem s) ph) 0
                 (p_memsz (bmem s) ph - p_filesz (bmem s) ph)\<rparr>)
      else Inr s)))))))"

text \<open>
  The loop counts in eight bits against a sixteen-bit number of headers.
\<close>

primrec load_loop ::
    "nat \<Rightarrow> blayout \<Rightarrow> 'e efi \<Rightarrow> uint64 \<Rightarrow> uint64 \<Rightarrow> uint8 \<Rightarrow> 'e bstate \<Rightarrow> 'e bstate kres" where
  "load_loop 0 B E file phdr_size i s = Inl OutOfFuel"
| "load_loop (Suc n) B E file phdr_size i s =
     (if (ucast i :: uint16) < e_phnum (bmem s) (ehdr_at B) then
        ebind (efi_seek E file (e_phoff (bmem s) (ehdr_at B) + phdr_size * ucast i)
                 ''kernel->SetPosition(e_phoff)'' s) (\<lambda>s.
        ebind (efi_read E file phdr_size (phdr_at B) ''kernel->Read(Phdr)'' s) (\<lambda>(phdr_size, s).
        ebind (if p_type (bmem s) (phdr_at B) \<noteq> ELF_PROG_LOAD then Inr s
               else load_segment B E file i s) (\<lambda>s.
        load_loop n B E file phdr_size (i + 1) s)))
      else Inr s)"

definition load_kernel ::
    "blayout \<Rightarrow> 'e efi \<Rightarrow> uint64 \<Rightarrow> string \<Rightarrow> 'e bstate \<Rightarrow> (uint64 \<times> 'e bstate) kres" where
  "load_kernel B E root filename s =
     (let (status, file, e) = Open E root filename (fw s); s = s\<lparr>fw := e\<rparr> in
      ebind (efi_assert status ''root->Open(kernel)'' s) (\<lambda>s.
      ebind (efi_read E file sizeof_Elf64_Ehdr (ehdr_at B) ''kernel->Read(Ehdr)'' s) (\<lambda>(n, s).
      if e_magic (bmem s) (ehdr_at B) \<noteq> ELF_MAGIC then boot_panic ''Invalid ELF Magic Number.'' s
      else
        ebind (load_loop (boot_fuel B) B E file sizeof_Elf64_Phdr 0 s) (\<lambda>s.
        let s = s\<lparr>fw := Close E root (Close E file (fw s))\<rparr> in
        Inr (e_entry (bmem s) (ehdr_at B), s)))))"

text \<open>\<^verbatim>\<open>BootInfo\<close> of \<^verbatim>\<open>include/boot/info.h\<close>, and the loader's main routine up to the jump.\<close>

record BootInfo =
  bi_memtotal :: uint64
  bi_screen_base :: uint64
  bi_screen_size :: uint64
  bi_screen_hr :: uint32
  bi_screen_vr :: uint32
  bi_xsdp :: uint64

definition efi_main :: "blayout \<Rightarrow> 'e efi \<Rightarrow> 'e bstate \<Rightarrow> (uint64 \<times> BootInfo \<times> 'e bstate) kres" where
  "efi_main B E s =
     (let s = efi_init s in
      ebind (search_volume_contains_file E volume_name s) (\<lambda>(root, s).
      if root = NULL then boot_panic ''No volume contains kernel.bin.'' s
      else
        ebind (load_kernel B E root volume_name s) (\<lambda>(entry, s).
        ebind (put_param ''[uefi] Kernel Entry'' entry s) (\<lambda>s.
        ebind (get_total_memory_size B E s) (\<lambda>(mt, s).
        ebind (put_param ''[uefi] Total Memory Size'' mt s) (\<lambda>s.
        let x = search_xsdp B E s;
            bi = \<lparr>bi_memtotal = mt, bi_screen_base = FrameBufferBase E,
                  bi_screen_size = FrameBufferSize E, bi_screen_hr = HorizontalResolution E,
                  bi_screen_vr = VerticalResolution E, bi_xsdp = x\<rparr>
        in
        ebind (put_param ''[uefi] RSDPv2 Address'' x s) (\<lambda>s.
        ebind (exit_boot_services B E s) (\<lambda>s. Inr (entry, bi, s)))))))))"

end
