(* ===== verification/BootLoad.thy ===== *)
theory BootLoad
  imports Boot
begin

text \<open>
  What the boot loader does with the kernel image and with the memory map: proofs about
  \<^verbatim>\<open>load_kernel\<close> and \<^verbatim>\<open>get_total_memory_size\<close> of \<^verbatim>\<open>boot/\<close>.  The kernel file is a list of bytes;
  viewed as a memory that starts at address 0, its ELF members are read with the accessors that
  the loader uses on its own buffers.
\<close>

section \<open>Printing\<close>

lemma puts_bmem [simp]: "bmem (puts str s) = bmem s" "fw (puts str s) = fw s"
  by (simp_all add: puts_def)

lemma boot_printn_16: "\<exists>out. boot_printn n 16 s = Inr (puts out s)"
proof -
  obtain out where "printn n 16 = Inr out" using printn_bases(2) by blast
  then show ?thesis by (auto simp: boot_printn_def)
qed

lemma puts_puts [simp]: "puts b (puts a s) = puts (a @ b) s"
  by (simp add: puts_def)

lemma put_param_prints: "\<exists>out. put_param str n s = Inr (puts out s)"
  using boot_printn_16 [of n "puts '': 0x'' (puts str s)"] by (auto simp: put_param_def)

lemma put_param_then: "\<exists>out. ebind (put_param str n s) f = f (puts out s)"
  using put_param_prints [of str n s] by auto

lemma efi_assert_ok [simp]: "efi_assert 0 msg s = Inr s"
  by (simp add: efi_assert_def warn_def)

lemma efi_assert_stops: "status \<noteq> 0 \<Longrightarrow> efi_assert status msg s = Inl Diverge"
  using boot_printn_16 [of status "puts '': '' (puts msg s)"]
  by (auto simp: efi_assert_def warn_def)

section \<open>Runs of bytes\<close>

definition mem_of :: "uint8 list \<Rightarrow> mem_t" where
  "mem_of bs = (\<lambda>a. if unat a < length bs then bs ! unat a else 0)"

lemma load_bytes_take: "k \<le> n \<Longrightarrow> take k (load_bytes m a n) = load_bytes m a k"
  by (rule nth_equalityI) (simp_all add: nth_load_bytes)

lemma load_bytes_drop:
  "k \<le> n \<Longrightarrow> drop k (load_bytes m a n) = load_bytes m (a + of_nat k) (n - k)"
  by (rule nth_equalityI) (simp_all add: nth_load_bytes add.assoc)

lemma load_bytes_sub:
  assumes "load_bytes m a n = load_bytes m' b n" and "i + k \<le> n"
  shows "load_bytes m (a + of_nat i) k = load_bytes m' (b + of_nat i) k"
proof -
  have "take k (drop i (load_bytes m a n)) = take k (drop i (load_bytes m' b n))"
    using assms(1) by simp
  with assms(2) show ?thesis by (simp add: load_bytes_drop load_bytes_take)
qed

lemma load_bytes_mem_of:
  assumes "unat p + n \<le> length bs" and "length bs < 18446744073709551616"
  shows "load_bytes (mem_of bs) p n = take n (drop (unat p) bs)"
proof (rule nth_equalityI)
  fix i assume "i < length (load_bytes (mem_of bs) p n)"
  then have i: "i < n" by simp
  with assms have "unat (p + of_nat i) = unat p + i" by (intro unat_add_no_wrap) simp
  with i assms show "load_bytes (mem_of bs) p n ! i = take n (drop (unat p) bs) ! i"
    by (simp add: nth_load_bytes mem_of_def)
qed (use assms in simp)

text \<open>The members of a header that lies in memory as it lies in the file.\<close>

lemma phdr_members:
  assumes "load_bytes m a 56 = load_bytes m' b 56"
  shows "p_type m a = p_type m' b" "p_offset m a = p_offset m' b" "p_paddr m a = p_paddr m' b"
    "p_filesz m a = p_filesz m' b" "p_memsz m a = p_memsz m' b"
  using load_bytes_sub [OF assms, of 0 4] load_bytes_sub [OF assms, of 8 8]
    load_bytes_sub [OF assms, of 24 8] load_bytes_sub [OF assms, of 32 8]
    load_bytes_sub [OF assms, of 40 8]
  by (simp_all add: p_type_def p_offset_def p_paddr_def p_filesz_def p_memsz_def load32_def load64_def)

lemma ehdr_members:
  assumes "load_bytes m a 64 = load_bytes m' b 64"
  shows "e_magic m a = e_magic m' b" "e_entry m a = e_entry m' b" "e_phoff m a = e_phoff m' b"
    "e_phnum m a = e_phnum m' b"
  using load_bytes_sub [OF assms, of 0 4] load_bytes_sub [OF assms, of 24 8]
    load_bytes_sub [OF assms, of 32 8] load_bytes_sub [OF assms, of 56 2]
  by (simp_all add: e_magic_def e_entry_def e_phoff_def e_phnum_def load32_def load64_def load16_def)

section \<open>The kernel image\<close>

text \<open>
  The firmware's file protocol on an open file: a position inside the file is accepted, and a
  read delivers the bytes from the position on, as many as were asked for or are left.
\<close>

definition efi_file :: "'e efi \<Rightarrow> uint64 \<Rightarrow> uint8 list \<Rightarrow> ('e \<Rightarrow> nat) \<Rightarrow> bool" where
  "efi_file E file content pos \<longleftrightarrow>
     (\<forall>p e. unat p \<le> length content \<longrightarrow> (\<exists>e'. SetPosition E file p e = (0, e') \<and> pos e' = unat p)) \<and>
     (\<forall>sz e. pos e \<le> length content \<longrightarrow>
        (\<exists>e'. Read E file sz e = (0, take (unat sz) (drop (pos e) content), e')))"

definition phdr_pos :: "uint8 list \<Rightarrow> nat \<Rightarrow> uint64" where
  "phdr_pos c i = e_phoff (mem_of c) 0 + 56 * of_nat i"

definition phdr_count :: "uint8 list \<Rightarrow> nat" where
  "phdr_count c = unat (e_phnum (mem_of c) 0)"

definition loadable :: "uint8 list \<Rightarrow> nat \<Rightarrow> bool" where
  "loadable c i \<longleftrightarrow> p_type (mem_of c) (phdr_pos c i) = ELF_PROG_LOAD"

definition seg_addr :: "uint8 list \<Rightarrow> nat \<Rightarrow> uint64" where
  "seg_addr c i = p_paddr (mem_of c) (phdr_pos c i)"

definition seg_offset :: "uint8 list \<Rightarrow> nat \<Rightarrow> uint64" where
  "seg_offset c i = p_offset (mem_of c) (phdr_pos c i)"

definition seg_filesz :: "uint8 list \<Rightarrow> nat \<Rightarrow> uint64" where
  "seg_filesz c i = p_filesz (mem_of c) (phdr_pos c i)"

definition seg_memsz :: "uint8 list \<Rightarrow> nat \<Rightarrow> uint64" where
  "seg_memsz c i = p_memsz (mem_of c) (phdr_pos c i)"

lemmas seg_defs = seg_addr_def seg_offset_def seg_filesz_def seg_memsz_def loadable_def

definition seg_bytes :: "uint8 list \<Rightarrow> nat \<Rightarrow> uint64 set" where
  "seg_bytes c i = (if loadable c i then bytes_at (seg_addr c i) (unat (seg_memsz c i)) else {})"

text \<open>What a segment holds when it is loaded: its bytes of the file, then zeroes.\<close>

definition seg_content :: "uint8 list \<Rightarrow> nat \<Rightarrow> uint8 list" where
  "seg_content c i =
     take (unat (seg_filesz c i)) (drop (unat (seg_offset c i)) c) @
     replicate (unat (seg_memsz c i) - unat (seg_filesz c i)) 0"

definition elf_image :: "uint8 list \<Rightarrow> bool" where
  "elf_image c \<longleftrightarrow>
     64 \<le> length c \<and> length c < 9223372036854775808 \<and> e_magic (mem_of c) 0 = ELF_MAGIC \<and>
     unat (e_phoff (mem_of c) 0) + 56 * phdr_count c \<le> length c \<and>
     (\<forall>i\<in>set [0..<phdr_count c]. loadable c i \<longrightarrow>
        unat (seg_offset c i) + unat (seg_filesz c i) \<le> length c \<and> seg_filesz c i \<le> seg_memsz c i)"

text \<open>The segments overlap neither each other nor the two headers that the loader keeps.\<close>

definition image_apart :: "blayout \<Rightarrow> uint8 list \<Rightarrow> bool" where
  "image_apart B c \<longleftrightarrow>
     bytes_at (ehdr_at B) 64 \<inter> bytes_at (phdr_at B) 56 = {} \<and>
     (\<forall>i\<in>set [0..<phdr_count c].
        seg_bytes c i \<inter> bytes_at (ehdr_at B) 64 = {} \<and> seg_bytes c i \<inter> bytes_at (phdr_at B) 56 = {} \<and>
        (\<forall>j\<in>set [0..<i]. seg_bytes c j \<inter> seg_bytes c i = {}))"

section \<open>One program header\<close>

lemma efi_seek_ok:
  assumes "efi_file E file c pos" and "unat p \<le> length c"
  shows "\<exists>e. efi_seek E file p msg s = Inr (s\<lparr>fw := e\<rparr>) \<and> pos e = unat p"
proof -
  from assms obtain e where "SetPosition E file p (fw s) = (0, e)" "pos e = unat p"
    unfolding efi_file_def by blast
  then show ?thesis by (intro exI [of _ e]) (simp add: efi_seek_def)
qed

lemma efi_read_ok:
  assumes "efi_file E file c pos" and "pos (fw s) + unat sz \<le> length c"
  shows "\<exists>e. efi_read E file sz dst msg s =
    Inr (sz, s\<lparr>fw := e, bmem := store_bytes (bmem s) dst (take (unat sz) (drop (pos (fw s)) c))\<rparr>)"
proof -
  from assms(2) have "pos (fw s) \<le> length c" by simp
  with assms(1) obtain e where "Read E file sz (fw s) = (0, take (unat sz) (drop (pos (fw s)) c), e)"
    unfolding efi_file_def by blast
  moreover from assms(2) have "length (take (unat sz) (drop (pos (fw s)) c)) = unat sz" by simp
  ultimately show ?thesis by (intro exI [of _ e]) (simp add: efi_read_def del: length_take)
qed

lemma load_store_take:
  assumes "unat p + n \<le> length c" and "length c < 9223372036854775808"
  shows "load_bytes (store_bytes m a (take n (drop (unat p) c))) a n = load_bytes (mem_of c) p n"
proof -
  have "length (take n (drop (unat p) c)) = n" using assms(1) by simp
  with load_store_bytes [of "take n (drop (unat p) c)" m a] assms
  show ?thesis by (simp add: load_bytes_mem_of)
qed


lemma store_bytes_loaded: "store_bytes m a (load_bytes m a n) = m"
  by (induction n arbitrary: a) simp_all

lemma store64_loaded: "store64 m a (load64 m a) = m"
proof -
  have "le_val (load_bytes m a 8) < 18446744073709551616"
    using le_val_less [of "load_bytes m a 8"] by simp
  then have "unat (load64 m a) = le_val (load_bytes m a 8)"
    by (simp add: load64_def unat_of_nat)
  then show ?thesis
    using le_bytes_val [of "load_bytes m a 8"] by (simp add: store64_def store_bytes_loaded)
qed

lemma unat_diff_of_nat:
  fixes n :: uint64
  assumes "k \<le> unat n"
  shows "unat (n - of_nat k) = unat n - k"
proof -
  have "k mod 18446744073709551616 = k"
    using assms unat_less_2p64 [of n] by (intro mod_less) linarith
  with assms show ?thesis by (simp add: unat_sub_if' unat_of_nat)
qed

text \<open>Bytes followed by zeroes, written in two steps.\<close>

lemma memset_after_store:
  assumes "length bs \<le> unat n"
  shows "load_bytes (memset (store_bytes m a bs) (a + of_nat (length bs)) 0 (n - of_nat (length bs))) a (unat n) =
    bs @ replicate (unat n - length bs) 0"
    (is "load_bytes ?m a _ = _")
proof (rule nth_equalityI)
  note len = unat_diff_of_nat [OF assms]
  fix i assume "i < length (load_bytes ?m a (unat n))"
  then have i: "i < unat n" by simp
  show "load_bytes ?m a (unat n) ! i = (bs @ replicate (unat n - length bs) 0) ! i"
  proof (cases "i < length bs")
    case True
    have "a + of_nat i \<notin> bytes_at (a + of_nat (length bs)) (unat n - length bs)"
    proof
      assume "a + of_nat i \<in> bytes_at (a + of_nat (length bs)) (unat n - length bs)"
      then obtain j where j: "j < unat n - length bs" "(of_nat i :: uint64) = of_nat (length bs + j)"
        by (auto simp: bytes_at_def)
      from j(1) have "length bs + j < 18446744073709551616" using unat_less_2p64 [of n] by linarith
      moreover have "i < 18446744073709551616" using i unat_less_2p64 [of n] by linarith
      ultimately have "i = length bs + j" using j(2) of_nat_inj_uint64 by blast
      with True show False by simp
    qed
    moreover have "store_bytes m a bs (a + of_nat i) = bs ! i"
      using nth_load_bytes [OF True, of "store_bytes m a bs" a] load_store_bytes [of bs m a] assms
        unat_less_2p64 [of n] by simp
    ultimately show ?thesis using i True by (simp add: nth_load_bytes memset_apply len nth_append)
  next
    case False
    then have "i - length bs < unat n - length bs" and "a + of_nat i = a + of_nat (length bs) + of_nat (i - length bs)"
      using i by (simp_all add: add.assoc flip: of_nat_add)
    then have "a + of_nat i \<in> bytes_at (a + of_nat (length bs)) (unat n - length bs)"
      unfolding bytes_at_def by blast
    then show ?thesis using i False by (simp add: nth_load_bytes memset_apply len nth_append)
  qed
qed (use assms in simp)

lemma memset_store_outside:
  assumes "length bs \<le> unat n" and "x \<notin> bytes_at a (unat n)"
  shows "memset (store_bytes m a bs) (a + of_nat (length bs)) 0 (n - of_nat (length bs)) x = m x"
proof -
  note len = unat_diff_of_nat [OF assms(1)]
  have "bytes_at (a + of_nat (length bs)) (unat n - length bs) \<subseteq> bytes_at a (unat n)"
    by (rule bytes_at_offset_subset) (use assms in simp)
  moreover have "bytes_at a (length bs) \<subseteq> bytes_at a (unat n)"
    by (rule bytes_at_mono) (rule assms(1))
  ultimately show ?thesis
    using assms(2) by (subst memset_apply) (auto simp: len intro: store_bytes_outside)
qed


lemma load_segment_loads:
  assumes fl: "efi_file E file c pos" and elf: "elf_image c" and i: "i < phdr_count c" "loadable c i"
    and ph: "load_bytes (bmem s) (phdr_at B) 56 = load_bytes (mem_of c) (phdr_pos c i) 56"
    and apart: "seg_bytes c i \<inter> bytes_at (phdr_at B) 56 = {}"
  shows "\<exists>s'. load_segment B E file w s = Inr s' \<and>
    load_bytes (bmem s') (seg_addr c i) (unat (seg_memsz c i)) = seg_content c i \<and>
    (\<forall>x. x \<notin> seg_bytes c i \<longrightarrow> bmem s' x = bmem s x)"
proof -
  let ?ph = "phdr_at B" and ?fs = "seg_filesz c i" and ?ms = "seg_memsz c i"
  let ?bs = "take (unat ?fs) (drop (unat (seg_offset c i)) c)"
  let ?m = "store_bytes (bmem s) (seg_addr c i) ?bs"
  from elf i have seg: "unat (seg_offset c i) + unat ?fs \<le> length c" "?fs \<le> ?ms"
    by (auto simp: elf_image_def)
  then have lbs: "length ?bs = unat ?fs" and fm: "unat ?fs \<le> unat ?ms"
    by (simp_all add: word_le_nat_alt)
  have sb: "seg_bytes c i = bytes_at (seg_addr c i) (unat ?ms)" using i by (simp add: seg_bytes_def)
  have run: "bytes_at (seg_addr c i) (length ?bs) \<subseteq> seg_bytes c i"
    unfolding sb lbs by (rule bytes_at_mono [OF fm])
  have mems: "p_offset (bmem s) ?ph = seg_offset c i" "p_paddr (bmem s) ?ph = seg_addr c i"
    "p_filesz (bmem s) ?ph = ?fs"
    using phdr_members [OF ph] by (simp_all add: seg_defs)
  have "load_bytes ?m ?ph 56 = load_bytes (mem_of c) (phdr_pos c i) 56"
    unfolding ph [symmetric] by (rule load_store_bytes_other) (use run apart in blast)
  from phdr_members [OF this]
  have mems': "p_paddr ?m ?ph = seg_addr c i" "p_filesz ?m ?ph = ?fs" "p_memsz ?m ?ph = ?ms"
    by (simp_all add: seg_defs)
  have same: "store64 ?m (?ph + 32) ?fs = ?m"
    using store64_loaded [of ?m "?ph + 32"] mems'(2) by (simp add: p_filesz_def)
  have off: "unat (seg_offset c i) \<le> length c" using seg(1) by simp
  from efi_seek_ok [OF fl off] obtain e1 where e1:
    "efi_seek E file (seg_offset c i) ''kernel->SetPosition(p_offset)'' s = Inr (s\<lparr>fw := e1\<rparr>)"
    "pos e1 = unat (seg_offset c i)" by blast
  obtain o1 where o1: "put_param ''[uefi]   Load Segment'' (ucast w) (s\<lparr>fw := e1\<rparr>) = Inr (puts o1 (s\<lparr>fw := e1\<rparr>))"
    using put_param_prints by blast
  obtain o2 where o2: "put_param ''[uefi]     p_paddr'' (seg_addr c i) (puts o1 (s\<lparr>fw := e1\<rparr>)) = Inr (puts o2 (s\<lparr>fw := e1\<rparr>))"
    using put_param_prints puts_puts by metis
  obtain o3 where o3: "put_param ''[uefi]     p_filesz'' ?fs (puts o2 (s\<lparr>fw := e1\<rparr>)) = Inr (puts o3 (s\<lparr>fw := e1\<rparr>))"
    using put_param_prints puts_puts by metis
  obtain o4 where o4: "put_param ''[uefi]     p_memsz'' (p_memsz (bmem s) ?ph) (puts o3 (s\<lparr>fw := e1\<rparr>)) = Inr (puts o4 (s\<lparr>fw := e1\<rparr>))"
    using put_param_prints puts_puts by metis
  let ?t = "puts o4 (s\<lparr>fw := e1\<rparr>)"
  have "pos (fw ?t) + unat ?fs \<le> length c" using e1 seg(1) by simp
  from efi_read_ok [OF fl this, of "seg_addr c i" "''kernel->Read(Segment)''"] obtain e2 where e2:
    "efi_read E file ?fs (seg_addr c i) ''kernel->Read(Segment)'' ?t = Inr (?fs, ?t\<lparr>fw := e2, bmem := ?m\<rparr>)"
    using e1 by auto
  let ?u = "?t\<lparr>fw := e2, bmem := ?m\<rparr>"
  have "load_segment B E file w s =
    (if ?fs < ?ms then Inr (?u\<lparr>bmem := memset ?m (seg_addr c i + ?fs) 0 (?ms - ?fs)\<rparr>) else Inr ?u)"
    unfolding load_segment_def Let_def by (simp add: mems mems' e1 o1 o2 o3 o4 e2 same)
  moreover have "?m = memset ?m (seg_addr c i + ?fs) 0 (?ms - ?fs)" if "\<not> ?fs < ?ms"
    using that seg(2) by (intro ext) (simp add: memset_apply)
  ultimately obtain s' where s': "load_segment B E file w s = Inr s'"
    "bmem s' = memset ?m (seg_addr c i + ?fs) 0 (?ms - ?fs)"
    by (cases "?fs < ?ms") auto
  have fs: "?fs = of_nat (length ?bs)" unfolding lbs by simp
  have "load_bytes (bmem s') (seg_addr c i) (unat ?ms) = seg_content c i"
    using memset_after_store [of ?bs ?ms "bmem s" "seg_addr c i"] lbs fm
    unfolding s'(2) seg_content_def by (simp flip: fs)
  moreover have "bmem s' x = bmem s x" if "x \<notin> seg_bytes c i" for x
    using memset_store_outside [of ?bs ?ms x "seg_addr c i" "bmem s"] lbs fm that
    unfolding s'(2) sb by (simp flip: fs)
  ultimately show ?thesis using s'(1) by blast
qed


section \<open>The loop over the program headers\<close>

lemma counter_16: "i < 256 \<Longrightarrow> unat (ucast (of_nat i :: uint8) :: uint16) = i"
  by (simp add: unsigned_ucast_eq take_bit_eq_mod unat_of_nat)

lemma counter_64: "i < 256 \<Longrightarrow> (ucast (of_nat i :: uint8) :: uint64) = of_nat i"
  by (simp add: word_unat_eq_iff unsigned_ucast_eq take_bit_eq_mod unat_of_nat)

lemma load_step:
  assumes fl: "efi_file E file c pos" and elf: "elf_image c" and apart: "image_apart B c"
    and i: "i < phdr_count c" and i256: "i < 256"
    and eh: "load_bytes (bmem s) (ehdr_at B) 64 = load_bytes (mem_of c) 0 64"
  shows "\<exists>s'. load_loop (Suc n) B E file 56 (of_nat i) s = load_loop n B E file 56 (of_nat (Suc i)) s' \<and>
    (loadable c i \<longrightarrow> load_bytes (bmem s') (seg_addr c i) (unat (seg_memsz c i)) = seg_content c i) \<and>
    (\<forall>x. x \<notin> bytes_at (phdr_at B) 56 \<union> seg_bytes c i \<longrightarrow> bmem s' x = bmem s x)"
proof -
  from elf have c: "length c < 9223372036854775808"
    "unat (e_phoff (mem_of c) 0) + 56 * phdr_count c \<le> length c"
    by (simp_all add: elf_image_def)
  have guard: "(ucast (of_nat i :: uint8) :: uint16) < e_phnum (bmem s) (ehdr_at B)"
    using i counter_16 [OF i256] by (simp add: word_less_nat_alt ehdr_members [OF eh] phdr_count_def)
  have pos: "e_phoff (bmem s) (ehdr_at B) + 56 * ucast (of_nat i :: uint8) = phdr_pos c i"
    by (simp add: ehdr_members [OF eh] phdr_pos_def counter_64 [OF i256])
  have upos: "unat (phdr_pos c i) = unat (e_phoff (mem_of c) 0) + 56 * i"
    using unat_add_no_wrap [of "e_phoff (mem_of c) 0" "56 * i"] i c by (simp add: phdr_pos_def)
  have inside: "unat (phdr_pos c i) + 56 \<le> length c" using i c(2) upos by linarith
  then have "unat (phdr_pos c i) \<le> length c" by simp
  from efi_seek_ok [OF fl this] obtain e1 where e1:
    "efi_seek E file (phdr_pos c i) ''kernel->SetPosition(e_phoff)'' s = Inr (s\<lparr>fw := e1\<rparr>)"
    "pos e1 = unat (phdr_pos c i)" by blast
  let ?bs = "take 56 (drop (unat (phdr_pos c i)) c)"
  let ?m = "store_bytes (bmem s) (phdr_at B) ?bs"
  have "pos (fw (s\<lparr>fw := e1\<rparr>)) + unat (56 :: uint64) \<le> length c" using e1 inside by simp
  from efi_read_ok [OF fl this, of "phdr_at B" "''kernel->Read(Phdr)''"] obtain e2 where e2:
    "efi_read E file 56 (phdr_at B) ''kernel->Read(Phdr)'' (s\<lparr>fw := e1\<rparr>) = Inr (56, s\<lparr>fw := e2, bmem := ?m\<rparr>)"
    using e1 by auto
  let ?u = "s\<lparr>fw := e2, bmem := ?m\<rparr>"
  have ph: "load_bytes (bmem ?u) (phdr_at B) 56 = load_bytes (mem_of c) (phdr_pos c i) 56"
    using load_store_take [OF inside c(1)] by simp
  have frame: "?m x = bmem s x" if "x \<notin> bytes_at (phdr_at B) 56" for x
    using that inside by (simp add: store_bytes_outside)
  have step: "load_loop (Suc n) B E file 56 (of_nat i) s =
    ebind (if loadable c i then load_segment B E file (of_nat i) ?u else Inr ?u)
      (\<lambda>s. load_loop n B E file 56 (of_nat (Suc i)) s)"
    using guard phdr_members(1) [OF ph] by (simp add: pos e1 e2 loadable_def add.commute)
  show ?thesis
  proof (cases "loadable c i")
    case True
    have "seg_bytes c i \<inter> bytes_at (phdr_at B) 56 = {}" using apart i by (simp add: image_apart_def)
    from load_segment_loads [OF fl elf i True ph this] obtain s' where
      "load_segment B E file (of_nat i) ?u = Inr s'"
      "load_bytes (bmem s') (seg_addr c i) (unat (seg_memsz c i)) = seg_content c i"
      "\<forall>x. x \<notin> seg_bytes c i \<longrightarrow> bmem s' x = ?m x" by auto
    with step True frame show ?thesis by (intro exI [of _ s']) simp
  next
    case False
    with step frame show ?thesis by (intro exI [of _ ?u]) simp
  qed
qed

lemma load_loop_loads:
  assumes fl: "efi_file E file c pos" and elf: "elf_image c" and apart: "image_apart B c"
    and c: "phdr_count c < 256" and i: "i \<le> phdr_count c" "phdr_count c - i < n"
    and eh: "load_bytes (bmem s) (ehdr_at B) 64 = load_bytes (mem_of c) 0 64"
  shows "\<exists>s'. load_loop n B E file 56 (of_nat i) s = Inr s' \<and>
    load_bytes (bmem s') (ehdr_at B) 64 = load_bytes (mem_of c) 0 64 \<and>
    (\<forall>k. i \<le> k \<and> k < phdr_count c \<and> loadable c k \<longrightarrow>
       load_bytes (bmem s') (seg_addr c k) (unat (seg_memsz c k)) = seg_content c k) \<and>
    (\<forall>x. x \<notin> bytes_at (phdr_at B) 56 \<union> (\<Union>k\<in>{i..<phdr_count c}. seg_bytes c k) \<longrightarrow> bmem s' x = bmem s x)"
  using i eh
proof (induction n arbitrary: i s)
  case 0
  then show ?case by simp
next
  case (Suc n)
  show ?case
  proof (cases "i = phdr_count c")
    case True
    then have "\<not> (ucast (of_nat i :: uint8) :: uint16) < e_phnum (bmem s) (ehdr_at B)"
      using counter_16 [of i] c by (simp add: word_less_nat_alt ehdr_members [OF Suc.prems(3)] phdr_count_def)
    with True Suc.prems(3) show ?thesis by auto
  next
    case False
    then have i: "i < phdr_count c" using Suc.prems by simp
    then have i256: "i < 256" using c by simp
    from load_step [OF fl elf apart i i256 Suc.prems(3), of n] obtain t where
      t: "load_loop (Suc n) B E file 56 (of_nat i) s = load_loop n B E file 56 (of_nat (Suc i)) t"
      "loadable c i \<longrightarrow> load_bytes (bmem t) (seg_addr c i) (unat (seg_memsz c i)) = seg_content c i"
      "\<forall>x. x \<notin> bytes_at (phdr_at B) 56 \<union> seg_bytes c i \<longrightarrow> bmem t x = bmem s x"
      by (elim exE conjE) (rule that)
    have ap: "bytes_at (ehdr_at B) 64 \<inter> bytes_at (phdr_at B) 56 = {}"
      "seg_bytes c i \<inter> bytes_at (ehdr_at B) 64 = {}" "seg_bytes c i \<inter> bytes_at (phdr_at B) 56 = {}"
      using apart i by (simp_all add: image_apart_def)
    have later: "seg_bytes c i \<inter> seg_bytes c k = {}" if "Suc i \<le> k" "k < phdr_count c" for k
      using apart that by (simp add: image_apart_def)
    have "load_bytes (bmem t) (ehdr_at B) 64 = load_bytes (bmem s) (ehdr_at B) 64"
      by (rule load_bytes_cong) (use t(3) ap in blast)
    with Suc.prems(3) have eh: "load_bytes (bmem t) (ehdr_at B) 64 = load_bytes (mem_of c) 0 64" by simp
    have "Suc i \<le> phdr_count c" "phdr_count c - Suc i < n" using i Suc.prems(2) by simp_all
    from Suc.IH [OF this eh] obtain s' where s':
      "load_loop n B E file 56 (of_nat (Suc i)) t = Inr s'"
      "load_bytes (bmem s') (ehdr_at B) 64 = load_bytes (mem_of c) 0 64"
      "\<forall>k. Suc i \<le> k \<and> k < phdr_count c \<and> loadable c k \<longrightarrow>
         load_bytes (bmem s') (seg_addr c k) (unat (seg_memsz c k)) = seg_content c k"
      "\<forall>x. x \<notin> bytes_at (phdr_at B) 56 \<union> (\<Union>k\<in>{Suc i..<phdr_count c}. seg_bytes c k) \<longrightarrow> bmem s' x = bmem t x"
      by (elim exE conjE) (rule that)
    have keep: "load_bytes (bmem s') (seg_addr c i) (unat (seg_memsz c i)) = seg_content c i" if l: "loadable c i"
    proof -
      have "load_bytes (bmem s') (seg_addr c i) (unat (seg_memsz c i)) =
        load_bytes (bmem t) (seg_addr c i) (unat (seg_memsz c i))"
      proof (rule load_bytes_cong)
        fix x assume "x \<in> bytes_at (seg_addr c i) (unat (seg_memsz c i))"
        with l have "x \<in> seg_bytes c i" by (simp add: seg_bytes_def)
        with ap(3) later have "x \<notin> bytes_at (phdr_at B) 56 \<union> (\<Union>k\<in>{Suc i..<phdr_count c}. seg_bytes c k)"
          by fastforce
        with s'(4) show "bmem s' x = bmem t x" by blast
      qed
      with t(2) l show ?thesis by simp
    qed
    have "\<forall>k. i \<le> k \<and> k < phdr_count c \<and> loadable c k \<longrightarrow>
       load_bytes (bmem s') (seg_addr c k) (unat (seg_memsz c k)) = seg_content c k"
      using s'(3) keep by (auto simp: le_less dest: Suc_leI)
    moreover have "\<forall>x. x \<notin> bytes_at (phdr_at B) 56 \<union> (\<Union>k\<in>{i..<phdr_count c}. seg_bytes c k) \<longrightarrow> bmem s' x = bmem s x"
      using s'(4) t(3) i by auto
    ultimately show ?thesis using t(1) s'(1,2) by metis
  qed
qed


lemma load_loop_spins:
  assumes fl: "efi_file E file c pos" and elf: "elf_image c" and apart: "image_apart B c"
    and c: "256 \<le> phdr_count c" and i: "i < 256"
    and eh: "load_bytes (bmem s) (ehdr_at B) 64 = load_bytes (mem_of c) 0 64"
  shows "load_loop n B E file 56 (of_nat i) s = Inl OutOfFuel"
  using i eh
proof (induction n arbitrary: i s)
  case 0
  then show ?case by simp
next
  case (Suc n)
  have i: "i < phdr_count c" using c Suc.prems(1) by simp
  from load_step [OF fl elf apart i Suc.prems, of n] obtain t where
    t: "load_loop (Suc n) B E file 56 (of_nat i) s = load_loop n B E file 56 (of_nat (Suc i)) t"
    "\<forall>x. x \<notin> bytes_at (phdr_at B) 56 \<union> seg_bytes c i \<longrightarrow> bmem t x = bmem s x"
    by (elim exE conjE) (rule that)
  have ap: "bytes_at (ehdr_at B) 64 \<inter> bytes_at (phdr_at B) 56 = {}"
    "seg_bytes c i \<inter> bytes_at (ehdr_at B) 64 = {}"
    using apart i by (simp_all add: image_apart_def)
  have "load_bytes (bmem t) (ehdr_at B) 64 = load_bytes (bmem s) (ehdr_at B) 64"
    by (rule load_bytes_cong) (use t(2) ap in blast)
  with Suc.prems(2) have eh: "load_bytes (bmem t) (ehdr_at B) 64 = load_bytes (mem_of c) 0 64" by simp
  have "(of_nat (Suc i) :: uint8) = of_nat (Suc i mod 256)"
    by (simp add: word_of_nat_eq_iff take_bit_eq_mod del: of_nat_Suc)
  with Suc.IH [of "Suc i mod 256" t, OF _ eh] t(1) show ?case by (simp del: of_nat_Suc load_loop.simps)
qed

section \<open>The whole kernel\<close>

lemma load_kernel_header:
  assumes opened: "Open E root filename (fw s) = (0, file, e)" "pos e = 0"
    and fl: "efi_file E file c pos" and elf: "elf_image c"
  obtains t where
    "load_kernel B E root filename s =
       ebind (load_loop (boot_fuel B) B E file 56 (of_nat 0) t) (\<lambda>s.
       let s = s\<lparr>fw := Close E root (Close E file (fw s))\<rparr> in Inr (e_entry (bmem s) (ehdr_at B), s))"
    "load_bytes (bmem t) (ehdr_at B) 64 = load_bytes (mem_of c) 0 64"
    "\<And>x. x \<notin> bytes_at (ehdr_at B) 64 \<Longrightarrow> bmem t x = bmem s x"
proof -
  from elf have c: "64 \<le> length c" "length c < 9223372036854775808" "e_magic (mem_of c) 0 = ELF_MAGIC"
    by (simp_all add: elf_image_def)
  let ?s = "s\<lparr>fw := e\<rparr>"
  let ?m = "store_bytes (bmem s) (ehdr_at B) (take 64 c)"
  have "pos (fw ?s) + unat (64 :: uint64) \<le> length c" using opened c by simp
  from efi_read_ok [OF fl this, of "ehdr_at B" "''kernel->Read(Ehdr)''"] obtain e2 where e2:
    "efi_read E file 64 (ehdr_at B) ''kernel->Read(Ehdr)'' ?s = Inr (64, s\<lparr>fw := e2, bmem := ?m\<rparr>)"
    using opened by auto
  let ?t = "s\<lparr>fw := e2, bmem := ?m\<rparr>"
  have eh: "load_bytes (bmem ?t) (ehdr_at B) 64 = load_bytes (mem_of c) 0 64"
    using load_store_take [of 0 64 c "bmem s" "ehdr_at B"] c by simp
  show ?thesis
  proof (rule that [OF _ eh])
    show "load_kernel B E root filename s =
       ebind (load_loop (boot_fuel B) B E file 56 (of_nat 0) ?t) (\<lambda>s.
       let s = s\<lparr>fw := Close E root (Close E file (fw s))\<rparr> in Inr (e_entry (bmem s) (ehdr_at B), s))"
      using ehdr_members(1) [OF eh] c(3)
      by (simp add: load_kernel_def opened e2 sizeof_Elf64_Ehdr_def sizeof_Elf64_Phdr_def)
    show "bmem ?t x = bmem s x" if "x \<notin> bytes_at (ehdr_at B) 64" for x
      using that c(1) by (simp add: store_bytes_outside)
  qed
qed

text \<open>
  C25.  Given a firmware whose file services deliver the bytes of the kernel file, a well-formed
  ELF image with fewer than 256 program headers, and segments that overlap neither each other nor
  the loader's two header buffers, \<^verbatim>\<open>load_kernel\<close> returns the entry point of the image; every
  loadable segment then lies at its physical address, its bytes of the file first and zeroes up to
  its size in memory, and nothing else in memory changes except the two buffers.
\<close>

theorem load_kernel_loads:
  assumes "Open E root filename (fw s) = (0, file, e)" and "pos e = 0"
    and "efi_file E file c pos" and "elf_image c" and "image_apart B c"
    and "phdr_count c < 256" and "phdr_count c < boot_fuel B"
  shows "\<exists>s'. load_kernel B E root filename s = Inr (e_entry (mem_of c) 0, s') \<and>
    (\<forall>k. k < phdr_count c \<and> loadable c k \<longrightarrow>
       load_bytes (bmem s') (seg_addr c k) (unat (seg_memsz c k)) = seg_content c k) \<and>
    (\<forall>x. x \<notin> bytes_at (ehdr_at B) 64 \<union> bytes_at (phdr_at B) 56 \<union> (\<Union>k\<in>{0..<phdr_count c}. seg_bytes c k) \<longrightarrow>
       bmem s' x = bmem s x)"
proof -
  from load_kernel_header [of E root filename s "file" e pos c B, OF assms(1-4)] obtain t where
    t: "load_kernel B E root filename s =
       ebind (load_loop (boot_fuel B) B E file 56 (of_nat 0) t) (\<lambda>s.
       let s = s\<lparr>fw := Close E root (Close E file (fw s))\<rparr> in Inr (e_entry (bmem s) (ehdr_at B), s))"
    "load_bytes (bmem t) (ehdr_at B) 64 = load_bytes (mem_of c) 0 64"
    "\<And>x. x \<notin> bytes_at (ehdr_at B) 64 \<Longrightarrow> bmem t x = bmem s x" by blast
  have "0 \<le> phdr_count c" "phdr_count c - 0 < boot_fuel B" using assms(7) by simp_all
  from load_loop_loads [OF assms(3-6) this t(2)] obtain u where
    u: "load_loop (boot_fuel B) B E file 56 (of_nat 0) t = Inr u"
    "load_bytes (bmem u) (ehdr_at B) 64 = load_bytes (mem_of c) 0 64"
    "\<forall>k. 0 \<le> k \<and> k < phdr_count c \<and> loadable c k \<longrightarrow>
       load_bytes (bmem u) (seg_addr c k) (unat (seg_memsz c k)) = seg_content c k"
    "\<forall>x. x \<notin> bytes_at (phdr_at B) 56 \<union> (\<Union>k\<in>{0..<phdr_count c}. seg_bytes c k) \<longrightarrow> bmem u x = bmem t x"
    by (elim exE conjE) (rule that)
  let ?v = "u\<lparr>fw := Close E root (Close E file (fw u))\<rparr>"
  have "load_kernel B E root filename s = Inr (e_entry (mem_of c) 0, ?v)"
    using t(1) u(1) ehdr_members(2) [OF u(2)] by (simp add: Let_def)
  with u(3,4) t(3) show ?thesis by (intro exI [of _ ?v]) simp
qed

text \<open>
  C39.  The loop counts the program headers in eight bits against a sixteen-bit number: with 256
  headers or more \<^verbatim>\<open>load_kernel\<close> never returns, whatever number of steps it is given.
\<close>

theorem load_kernel_spins:
  assumes "Open E root filename (fw s) = (0, file, e)" and "pos e = 0"
    and "efi_file E file c pos" and "elf_image c" and "image_apart B c"
    and "256 \<le> phdr_count c"
  shows "load_kernel B E root filename s = Inl OutOfFuel"
proof -
  from load_kernel_header [of E root filename s "file" e pos c B, OF assms(1-4)] obtain t where
    t: "load_kernel B E root filename s =
       ebind (load_loop (boot_fuel B) B E file 56 (of_nat 0) t) (\<lambda>s.
       let s = s\<lparr>fw := Close E root (Close E file (fw s))\<rparr> in Inr (e_entry (bmem s) (ehdr_at B), s))"
    "load_bytes (bmem t) (ehdr_at B) 64 = load_bytes (mem_of c) 0 64" by blast
  have "load_loop (boot_fuel B) B E file 56 (of_nat 0) t = Inl OutOfFuel"
    by (rule load_loop_spins [OF assms(3-6) _ t(2)]) simp
  with t(1) show ?thesis by (simp del: load_loop.simps)
qed


section \<open>An example image and firmware\<close>

definition demo_efi :: "uint8 list \<Rightarrow> nat efi" where
  "demo_efi c =
     \<lparr>LocateHandleBuffer = (\<lambda>e. (0, [1], e)), HandleProtocol = (\<lambda>h e. (0, 1, e)),
      OpenVolume = (\<lambda>p e. (0, 1, e)), Open = (\<lambda>r f e. (0, 2, 0)), Close = (\<lambda>f e. e),
      Read = (\<lambda>f sz e. (0, take (unat sz) (drop e c), min (length c) (e + unat sz))),
      SetPosition = (\<lambda>f p e. (0, unat p)),
      GetMemoryMap = (\<lambda>sz e. (0, [], 0, 48, e)), ExitBootServices = (\<lambda>k e. (0, e)),
      ConfigurationTable = 0, NumberOfTableEntries = 0, FrameBufferBase = 0, FrameBufferSize = 0,
      HorizontalResolution = 0, VerticalResolution = 0\<rparr>"

definition demo_blayout :: blayout where
  "demo_blayout = \<lparr>mmap_buf_at = 0x40000, ehdr_at = 0x1000, phdr_at = 0x1040, acpi2_guid_at = 0x2000,
     boot_fuel = 2\<rparr>"

definition demo_bstate :: "nat bstate" where
  "demo_bstate = \<lparr>bmem = (\<lambda>_. 0), bout = [], fw = 0\<rparr>"

definition demo_ehdr :: "nat \<Rightarrow> uint8 list" where
  "demo_ehdr n = [0x7F, 0x45, 0x4C, 0x46] @ replicate 20 0 @ le_bytes 8 0x100000 @ le_bytes 8 64 @
     replicate 16 0 @ le_bytes 2 n @ replicate 6 0"

definition demo_elf :: "uint8 list" where
  "demo_elf = demo_ehdr 1 @ le_bytes 4 1 @ le_bytes 4 5 @ le_bytes 8 120 @ le_bytes 8 0x100000 @
     le_bytes 8 0x100000 @ le_bytes 8 2 @ le_bytes 8 4 @ le_bytes 8 4096 @ [0xAA, 0xBB]"

definition demo_many :: "uint8 list" where
  "demo_many = demo_ehdr 256 @ replicate 14336 0"

lemma le_val_zeroes [simp]: "le_val (replicate n 0) = 0"
  by (induction n) simp_all

lemma demo_efi_file: "efi_file (demo_efi c) 2 c (\<lambda>e. e)"
  by (simp add: efi_file_def demo_efi_def)

lemma length_demo_ehdr [simp]: "length (demo_ehdr n) = 64"
  by (simp add: demo_ehdr_def)

lemma loads_mem_of:
  assumes "length c < 9223372036854775808"
  shows "unat p + 2 \<le> length c \<Longrightarrow> load16 (mem_of c) p = of_nat (le_val (take 2 (drop (unat p) c)))"
    and "unat p + 4 \<le> length c \<Longrightarrow> load32 (mem_of c) p = of_nat (le_val (take 4 (drop (unat p) c)))"
    and "unat p + 8 \<le> length c \<Longrightarrow> load64 (mem_of c) p = of_nat (le_val (take 8 (drop (unat p) c)))"
  using assms by (simp_all add: load16_def load32_def load64_def load_bytes_mem_of)

lemma demo_ehdr_fields:
  assumes "length rest < 4611686018427387904"
  shows "e_magic (mem_of (demo_ehdr n @ rest)) 0 = ELF_MAGIC"
    and "e_phoff (mem_of (demo_ehdr n @ rest)) 0 = 64"
    and "e_entry (mem_of (demo_ehdr n @ rest)) 0 = 0x100000"
    and "n < 65536 \<Longrightarrow> phdr_count (demo_ehdr n @ rest) = n"
  using assms
  by (simp_all add: loads_mem_of e_magic_def e_phoff_def e_entry_def e_phnum_def phdr_count_def ELF_MAGIC_def)
    (simp_all add: demo_ehdr_def take_Cons' le_val_bytes unat_of_nat)


lemma demo_elf_fields:
  "length demo_elf = 122" "phdr_count demo_elf = 1" "phdr_pos demo_elf 0 = 64" "loadable demo_elf 0"
  "seg_addr demo_elf 0 = 0x100000" "seg_offset demo_elf 0 = 120" "seg_filesz demo_elf 0 = 2"
  "seg_memsz demo_elf 0 = 4" "e_entry (mem_of demo_elf) 0 = 0x100000"
proof -
  show len: "length demo_elf = 122" by (simp add: demo_elf_def)
  show "phdr_count demo_elf = 1" "e_entry (mem_of demo_elf) 0 = 0x100000" and p: "phdr_pos demo_elf 0 = 64"
    unfolding demo_elf_def phdr_pos_def by (simp_all add: demo_ehdr_fields)
  show "loadable demo_elf 0"
    "seg_addr demo_elf 0 = 0x100000" "seg_offset demo_elf 0 = 120" "seg_filesz demo_elf 0 = 2"
    "seg_memsz demo_elf 0 = 4"
    by (simp_all add: seg_defs p p_type_def p_paddr_def p_offset_def p_filesz_def p_memsz_def loads_mem_of len
          ELF_PROG_LOAD_def)
      (simp_all add: demo_elf_def le_val_bytes)
qed

theorem load_kernel_loads_witness:
  "\<exists>s'. load_kernel demo_blayout (demo_efi demo_elf) 1 ''kernel.bin'' demo_bstate = Inr (0x100000, s') \<and>
    load_bytes (bmem s') 0x100000 4 = [0xAA, 0xBB, 0, 0]"
proof -
  have elf: "elf_image demo_elf"
    using demo_ehdr_fields(1) [of "drop 64 demo_elf" 1] demo_ehdr_fields(2) [of "drop 64 demo_elf" 1]
    by (simp add: elf_image_def demo_elf_fields) (simp add: demo_elf_def)
  have "seg_bytes demo_elf 0 = bytes_at 0x100000 4" by (simp add: seg_bytes_def demo_elf_fields)
  then have apart: "image_apart demo_blayout demo_elf"
    by (simp add: image_apart_def demo_elf_fields demo_blayout_def bytes_at_disjointI)
  have "\<exists>s'. load_kernel demo_blayout (demo_efi demo_elf) 1 ''kernel.bin'' demo_bstate =
      Inr (e_entry (mem_of demo_elf) 0, s') \<and>
    (\<forall>k. k < phdr_count demo_elf \<and> loadable demo_elf k \<longrightarrow>
       load_bytes (bmem s') (seg_addr demo_elf k) (unat (seg_memsz demo_elf k)) = seg_content demo_elf k) \<and>
    (\<forall>x. x \<notin> bytes_at (ehdr_at demo_blayout) 64 \<union> bytes_at (phdr_at demo_blayout) 56 \<union>
       (\<Union>k\<in>{0..<phdr_count demo_elf}. seg_bytes demo_elf k) \<longrightarrow> bmem s' x = bmem demo_bstate x)"
    by (rule load_kernel_loads [OF _ _ demo_efi_file elf apart, where e = 0])
      (simp_all add: demo_elf_fields, simp_all add: demo_efi_def demo_blayout_def)
  moreover have "seg_content demo_elf 0 = [0xAA, 0xBB, 0, 0]"
  proof -
    have "drop 120 demo_elf = [0xAA, 0xBB]" by (simp add: demo_elf_def)
    moreover have "replicate 2 (0 :: uint8) = [0, 0]" by (simp add: numeral_2_eq_2)
    ultimately show ?thesis by (simp add: seg_content_def demo_elf_fields)
  qed
  ultimately show ?thesis by (auto simp: demo_elf_fields)
qed

lemma demo_many_fields: "length demo_many = 14400" "phdr_count demo_many = 256" "phdr_pos demo_many i = 64 + 56 * of_nat i"
  by (simp_all add: demo_many_def phdr_pos_def demo_ehdr_fields)

lemma demo_many_unloadable: "i < 256 \<Longrightarrow> \<not> loadable demo_many i"
proof -
  assume i: "i < 256"
  then have u: "unat (64 + 56 * of_nat i :: uint64) = 64 + 56 * i"
    using unat_add_no_wrap [of 64 "56 * i"] by simp
  have "take 4 (drop (64 + 56 * i) demo_many) = replicate 4 0"
    using i by (simp add: demo_many_def min_def)
  then show ?thesis
    using i by (simp add: loadable_def p_type_def demo_many_fields loads_mem_of u ELF_PROG_LOAD_def)
qed

theorem load_kernel_spins_witness:
  "load_kernel demo_blayout (demo_efi demo_many) 1 ''kernel.bin'' demo_bstate = Inl OutOfFuel"
proof (rule load_kernel_spins [OF _ _ demo_efi_file, where e = 0])
  show "elf_image demo_many"
    by (simp add: elf_image_def demo_many_fields demo_many_unloadable)
      (simp add: demo_many_def demo_ehdr_fields)
  show "image_apart demo_blayout demo_many"
    by (simp add: image_apart_def demo_many_fields seg_bytes_def demo_many_unloadable demo_blayout_def bytes_at_disjointI)
qed (simp_all add: demo_many_fields, simp add: demo_efi_def)


section \<open>The amount of memory\<close>

lemma max_paddr_Max:
  "max_paddr m buf dsz is acc = Max (insert acc ((\<lambda>i. desc_end m (buf + of_nat i * dsz)) ` set is))"
proof (induction "is" arbitrary: acc)
  case Nil
  then show ?case by simp
next
  case (Cons i "is")
  let ?f = "\<lambda>i. desc_end m (buf + of_nat i * dsz)"
  have "max_paddr m buf dsz (i # is) acc = Max (insert (max (?f i) acc) (?f ` set is))"
    using Cons.IH by (simp add: Let_def max_def)
  also have "\<dots> = Max (insert acc (insert (?f i) (?f ` set is)))"
    by (cases "set is = {}") (simp_all add: max.commute max.left_commute max.assoc)
  finally show ?case by simp
qed

lemma desc_end_buffer:
  assumes "length buf \<le> 0x30000" and "40 \<le> unat dsz" and "i < length buf div unat dsz"
  shows "desc_end (store_bytes m a buf) (a + of_nat i * dsz) = desc_end (mem_of buf) (of_nat i * dsz)"
proof -
  have "Suc i * unat dsz \<le> length buf div unat dsz * unat dsz"
    by (rule mult_le_mono1) (use assms in simp)
  also have "\<dots> \<le> length buf" by simp
  finally have le: "i * unat dsz + 40 \<le> length buf" using assms(2) by simp
  define k where "k = i * unat dsz"
  have w: "of_nat i * dsz = (of_nat k :: uint64)" by (simp add: k_def)
  have "load_bytes (store_bytes m a buf) a (length buf) = load_bytes (mem_of buf) 0 (length buf)"
    using load_store_bytes [of buf m a] load_bytes_mem_of [of 0 "length buf" buf] assms(1) by simp
  from load_bytes_sub [OF this, of "k + 8" 8] load_bytes_sub [OF this, of "k + 24" 8] le [folded k_def]
  show ?thesis unfolding desc_end_def load64_def w by (simp add: add.assoc)
qed

text \<open>
  \<^verbatim>\<open>get_total_memory_size\<close> hangs when the firmware reports an error, divides by zero when the
  descriptor size is 0, and otherwise returns the largest end of a descriptor of the memory map
  (0 for an empty map), where the descriptors are the complete ones in the buffer; it changes
  memory only in that buffer.
\<close>

theorem get_total_memory_size_max:
  assumes "GetMemoryMap E MMAP_SIZE (fw s) = (status, buf, map_key, dsz, e)"
    and "length buf \<le> 0x30000" and "dsz = 0 \<or> 40 \<le> dsz"
  shows "get_total_memory_size B E s =
    (if status \<noteq> 0 then Inl Diverge
     else if dsz = 0 then Inl DivByZero
     else Inr (Max (insert 0 ((\<lambda>i. desc_end (mem_of buf) (of_nat i * dsz)) ` {..<length buf div unat dsz})),
            s\<lparr>fw := e, bmem := store_bytes (bmem s) (mmap_buf_at B) buf\<rparr>))"
proof -
  consider "status \<noteq> 0" | "status = 0" "dsz = 0" | "status = 0" "dsz \<noteq> 0" "40 \<le> unat dsz"
    using assms(3) by (auto simp: word_le_nat_alt)
  then show ?thesis
  proof cases
    case 1
    then show ?thesis by (simp add: get_total_memory_size_def assms(1) efi_assert_stops)
  next
    case 2
    then show ?thesis by (simp add: get_total_memory_size_def assms(1))
  next
    case 3
    have "unat (of_nat (length buf) div dsz) = length buf div unat dsz"
      using assms(2) by (simp add: unat_div unat_of_nat)
    moreover have "(\<lambda>i. desc_end (store_bytes (bmem s) (mmap_buf_at B) buf) (mmap_buf_at B + of_nat i * dsz)) `
        {..<length buf div unat dsz} =
      (\<lambda>i. desc_end (mem_of buf) (of_nat i * dsz)) ` {..<length buf div unat dsz}"
      using desc_end_buffer [OF assms(2) 3(3)] by (intro image_cong) simp_all
    ultimately show ?thesis
      using 3 by (simp add: get_total_memory_size_def assms(1) max_paddr_Max atLeast0LessThan)
  qed
qed

definition demo_mmap :: "uint8 list" where
  "demo_mmap = replicate 24 0 @ le_bytes 8 3 @ replicate 8 0 @ replicate 8 0 @
     le_bytes 8 0x100000 @ replicate 8 0 @ le_bytes 8 16 @ replicate 8 0"

theorem get_total_memory_size_max_witness:
  "get_total_memory_size demo_blayout
     ((demo_efi [])\<lparr>GetMemoryMap := \<lambda>sz e. (0, demo_mmap, 0, 40, e)\<rparr>) demo_bstate =
   Inr (0x110000, demo_bstate\<lparr>fw := 0, bmem := store_bytes (\<lambda>_. 0) 0x40000 demo_mmap\<rparr>)"
proof -
  have len: "length demo_mmap = 80" by (simp add: demo_mmap_def)
  have "desc_end (mem_of demo_mmap) 0 = 0x3000" "desc_end (mem_of demo_mmap) 40 = 0x110000"
    by (simp_all add: desc_end_def loads_mem_of len) (simp_all add: demo_mmap_def le_val_bytes)
  moreover have "{..<2 :: nat} = {0, 1}" by auto
  moreover have g: "GetMemoryMap ((demo_efi [])\<lparr>GetMemoryMap := \<lambda>sz e. (0, demo_mmap, 0, 40, e)\<rparr>)
      MMAP_SIZE (fw demo_bstate) = (0, demo_mmap, 0, 40, 0)"
    by (simp add: demo_bstate_def)
  ultimately show ?thesis
    using get_total_memory_size_max [OF g, of demo_blayout] by (simp add: len) (simp add: demo_bstate_def demo_blayout_def)
qed

end
