(* ===== verification/PageTables.thy ===== *)
theory PageTables
  imports VirtMem
begin

text \<open>
  The page tables of \<^verbatim>\<open>arch/x86/vm.c\<close> as a tree: which table serves an address at which level, when
  the tables are apart from each other and from free memory, and what a table that grows keeps.
  The processor's own translation is the reference.
\<close>

definition pt_idx :: "nat \<Rightarrow> uint64 \<Rightarrow> uint64" where
  "pt_idx d va = drop_bit (39 - 9 * d) va AND 0x1FF"

definition pt_entry :: "uint64 \<Rightarrow> nat \<Rightarrow> uint64 \<Rightarrow> uint64" where
  "pt_entry t d va = pte_at t (pt_idx d va)"

definition descends :: "nat \<Rightarrow> pte_t \<Rightarrow> bool" where
  "descends d e \<longleftrightarrow> e AND PG_P \<noteq> 0 \<and> d < 3 \<and> \<not> (d = 2 \<and> e AND PG_PS \<noteq> 0)"

primrec tab :: "mem_t \<Rightarrow> uint64 \<Rightarrow> uint64 \<Rightarrow> nat \<Rightarrow> uint64 option" where
  "tab m r va 0 = Some r"
| "tab m r va (Suc d) =
     (case tab m r va d of None \<Rightarrow> None
      | Some t \<Rightarrow> let e = load64 m (pt_entry t d va) in
          if descends d e then Some (pte_frame e) else None)"

lemma pt_idx_macros:
  "pt_idx 0 = PML4_IDX" "pt_idx (Suc 0) = PDPT_IDX" "pt_idx 2 = PD_IDX" "pt_idx 3 = PT_IDX"
  by (simp_all add: fun_eq_iff pt_idx_def PML4_IDX_def PDPT_IDX_def PD_IDX_def PT_IDX_def)

lemma pt_idx_less: "unat (pt_idx d va) < 512"
proof -
  have "unat (pt_idx d va) = unat (take_bit 9 (drop_bit (39 - 9 * d) va))"
    by (simp add: pt_idx_def take_bit_eq_mask mask_numeral)
  also have "\<dots> = take_bit 9 (unat (drop_bit (39 - 9 * d) va))" by (rule unsigned_take_bit_eq)
  also have "\<dots> < 2 ^ 9" by (rule take_bit_nat_less_exp)
  finally show ?thesis by simp
qed

lemma PG_vals: "PG_P = 1" "PG_RW = 2" "PG_US = 4" "PG_PS = 128"
  by (simp_all add: PG_P_def PG_RW_def PG_US_def PG_PS_def)

lemma present_bit: "e AND PG_P \<noteq> 0 \<longleftrightarrow> bit e 0"
  by (simp add: PG_P_def and_one_eq bit_0 odd_iff_mod_2_eq_one)

lemma bit_aligned:
  assumes "4096 dvd unat (a :: uint64)" and "bit a i"
  shows "12 \<le> i"
proof (rule ccontr)
  assume "\<not> 12 \<le> i"
  with assms(2) have "bit (take_bit 12 (unat a)) i" by (simp add: bit_take_bit_iff bit_unsigned_iff)
  moreover have "take_bit 12 (unat a) = 0" using assms(1) by (simp add: take_bit_eq_mod dvd_eq_mod_eq_0)
  ultimately show False by simp
qed

text \<open>Physical addresses have at most 52 bits.\<close>

abbreviation phys_limit :: nat where
  "phys_limit \<equiv> 4503599627370496"

lemma bit_small:
  assumes "unat (a :: uint64) < phys_limit" and "bit a i"
  shows "i < 52"
proof -
  have "bit (take_bit 52 (unat a)) i"
    using assms by (simp add: bit_unsigned_iff take_bit_nat_eq_self)
  then show ?thesis by (simp add: bit_take_bit_iff)
qed

lemma pte_frame_mask: "0xFFFFFFFFFF000 = (mask 52 AND NOT (mask 12) :: uint64)"
  by (simp add: mask_numeral)

lemma bit_pte_frame: "bit (pte_frame e) i \<longleftrightarrow> 12 \<le> i \<and> i < 52 \<and> bit e i"
  unfolding pte_frame_def pte_frame_mask by (auto simp: bit_simps)

lemma bit_pte_table: "bit (pte_table e) i \<longleftrightarrow> 12 \<le> i \<and> bit e i"
  unfolding pte_table_def BIT64_MASK_eq by (auto simp: bit_simps dest: bit_imp_le_length)

lemma pte_table_frame: "unat e < phys_limit \<Longrightarrow> pte_table e = pte_frame e"
  by (rule bit_eqI) (auto simp: bit_pte_frame bit_pte_table dest: bit_small)

lemma pte_frame_small: "pte_frame (page OR flag) = page"
  if "4096 dvd unat page" "unat page < phys_limit" "\<And>i. bit flag i \<Longrightarrow> i < 12"
proof (rule bit_eqI)
  show "bit (pte_frame (page OR flag)) i = bit page i" for i
    using that(3) [of i] bit_small [OF that(2), of i] bit_aligned [OF that(1), of i]
    by (auto simp: bit_pte_frame bit_simps)
qed

text \<open>The entries of tables on page boundaries do not overlap.\<close>

definition table_ok :: "pm_abs \<Rightarrow> uint64 \<Rightarrow> bool" where
  "table_ok A t \<longleftrightarrow> t \<noteq> 0 \<and> 4096 dvd unat t \<and> unat t + 4096 \<le> phys_limit \<and>
     (\<forall>x. in_block 4096 t x \<longrightarrow> cover A x = 0)"

lemma unat_pt_entry:
  assumes "table_ok A t"
  shows "unat (pt_entry t d va) = unat t + 8 * unat (pt_idx d va)"
proof -
  have "pt_entry t d va = t + of_nat (8 * unat (pt_idx d va))" by (simp add: pt_entry_def pte_at_def)
  moreover have "unat t + 8 * unat (pt_idx d va) < 18446744073709551616"
    using assms pt_idx_less [of d va] by (simp add: table_ok_def)
  ultimately show ?thesis by (simp only: unat_add_no_wrap)
qed

lemma pt_entry_bytes:
  assumes "table_ok A t" and "x \<in> bytes_at (pt_entry t d va) 8"
  shows "in_block 4096 t (unat x)"
proof -
  have "unat (pt_entry t d va) + 8 \<le> 18446744073709551616"
    using assms(1) pt_idx_less [of d va] by (simp add: unat_pt_entry [OF assms(1)] table_ok_def)
  then show ?thesis
    using assms(2) unat_pt_entry [OF assms(1), of d va] pt_idx_less [of d va]
    by (simp add: bytes_at_interval in_block_def)
qed

lemma page_offset_unique:
  fixes k k' i j :: nat
  assumes "4096 * k + 8 * i = 4096 * k' + 8 * j" and "i < 512" and "j < 512"
  shows "k = k'" "i = j"
proof -
  show "k = k'" by (rule linorder_cases [of k k']) (use assms in linarith)+
  with assms(1) show "i = j" by simp
qed

lemma page_offset_apart:
  fixes k k' i j :: nat
  assumes "4096 * k + 8 * i \<noteq> 4096 * k' + 8 * j"
  shows "4096 * k + 8 * i + 8 \<le> 4096 * k' + 8 * j \<or> 4096 * k' + 8 * j + 8 \<le> 4096 * k + 8 * i"
proof -
  have "512 * k + i \<noteq> 512 * k' + j" using assms by auto
  then have "512 * k + i < 512 * k' + j \<or> 512 * k' + j < 512 * k + i" by linarith
  then show ?thesis by linarith
qed

lemma pt_entry_inject:
  assumes "table_ok A t" and "table_ok A' t'" and "pt_entry t d va = pt_entry t' d' va'"
  shows "t = t' \<and> pt_idx d va = pt_idx d' va'"
proof -
  let ?i = "unat (pt_idx d va)" and ?j = "unat (pt_idx d' va')"
  have eq: "unat t + 8 * ?i = unat t' + 8 * ?j"
    using assms(3) unat_pt_entry [OF assms(1), of d va] unat_pt_entry [OF assms(2), of d' va'] by simp
  have d: "4096 dvd unat t" "4096 dvd unat t'" using assms by (simp_all add: table_ok_def)
  then obtain k k' where k: "unat t = 4096 * k" "unat t' = 4096 * k'" by (auto elim!: dvdE)
  have "?i < 512" "?j < 512" by (rule pt_idx_less)+
  with eq have "k = k'" "?i = ?j" unfolding k by (rule page_offset_unique)+
  with k have "unat t = unat t'" "?i = ?j" by simp_all
  then show ?thesis by (simp add: word_unat_eq_iff)
qed

lemma pt_entry_apart:
  assumes "table_ok A t" and "table_ok A' t'" and "pt_entry t d va \<noteq> pt_entry t' d' va'"
  shows "bytes_at (pt_entry t d va) 8 \<inter> bytes_at (pt_entry t' d' va') 8 = {}"
proof (rule bytes_at_disjointI)
  let ?p = "unat (pt_entry t d va)" and ?q = "unat (pt_entry t' d' va')"
  have "4096 dvd unat t" "4096 dvd unat t'" using assms by (simp_all add: table_ok_def)
  then obtain k k' where k: "unat t = 4096 * k" "unat t' = 4096 * k'" by (auto elim!: dvdE)
  have "?p \<noteq> ?q" using assms(3) by (simp add: word_unat_eq_iff)
  then show "?p + 8 \<le> ?q \<or> ?q + 8 \<le> ?p"
    unfolding unat_pt_entry [OF assms(1)] unat_pt_entry [OF assms(2)] k by (rule page_offset_apart)
  show "?p + 8 \<le> 18446744073709551616" "?q + 8 \<le> 18446744073709551616"
    using assms(1,2) pt_idx_less [of d va] pt_idx_less [of d' va']
    by (simp_all add: unat_pt_entry [OF assms(1)] unat_pt_entry [OF assms(2)] table_ok_def)
qed

lemma tab_less: "tab m r va d = Some t \<Longrightarrow> d < 4"
  by (cases d) (auto simp: descends_def Let_def split: option.splits if_splits)

definition same_path :: "nat \<Rightarrow> uint64 \<Rightarrow> uint64 \<Rightarrow> bool" where
  "same_path d va va' \<longleftrightarrow> (\<forall>j<d. pt_idx j va = pt_idx j va')"

lemma tab_same_path: "same_path d va va' \<Longrightarrow> tab m r va d = tab m r va' d"
  by (induction d) (auto simp: same_path_def pt_entry_def split: option.splits)

text \<open>
  A sound tree of tables: every table reached from the root lies on a page of its own outside
  the free lists, no entry uses the bits above the physical address, and no table is reached
  along two paths.
\<close>

definition vm_ok :: "mem_t \<Rightarrow> uint64 \<Rightarrow> pm_abs \<Rightarrow> bool" where
  "vm_ok m r A \<longleftrightarrow>
     (\<forall>va d t. tab m r va d = Some t \<longrightarrow> table_ok A t \<and>
        (load64 m (pt_entry t d va) AND PG_P \<noteq> 0 \<longrightarrow> unat (load64 m (pt_entry t d va)) < phys_limit)) \<and>
     (\<forall>va va' d d' t. tab m r va d = Some t \<longrightarrow> tab m r va' d' = Some t \<longrightarrow>
        d = d' \<and> same_path d va va')"

lemma vm_okD:
  assumes "vm_ok m r A" and "tab m r va d = Some t"
  shows "table_ok A t"
    and "load64 m (pt_entry t d va) AND PG_P \<noteq> 0 \<Longrightarrow> unat (load64 m (pt_entry t d va)) < phys_limit"
    and "tab m r va' d' = Some t \<Longrightarrow> d = d' \<and> same_path d va va'"
  using assms unfolding vm_ok_def by blast+

text \<open>Filling an absent entry with a leaf, or with a fresh table whose entries are all absent.\<close>

lemma tab_leaf:
  assumes at: "tab m r va d = Some t" and ok: "vm_ok m r A"
    and absent: "load64 m (pt_entry t d va) AND PG_P = 0"
    and new: "\<not> descends d (load64 m' (pt_entry t d va))"
    and frame: "\<And>va' d' t'. tab m r va' d' = Some t' \<Longrightarrow> pt_entry t' d' va' \<noteq> pt_entry t d va \<Longrightarrow>
      load64 m' (pt_entry t' d' va') = load64 m (pt_entry t' d' va')"
  shows "tab m' r va' d' = tab m r va' d'"
proof (induction d')
  case (Suc d')
  show ?case
  proof (cases "tab m r va' d'")
    case (Some t')
    show ?thesis
    proof (cases "pt_entry t' d' va' = pt_entry t d va")
      case True
      then have "t' = t" using pt_entry_inject vm_okD(1) [OF ok] at Some by blast
      then have "d' = d" using vm_okD(3) [OF ok at] Some by blast
      moreover have "\<not> descends d (load64 m (pt_entry t d va))" using absent by (simp add: descends_def)
      ultimately show ?thesis using Suc Some True \<open>t' = t\<close> new by simp
    next
      case False
      from frame [OF Some this] Suc Some show ?thesis by simp
    qed
  qed (use Suc in simp)
qed simp

lemma tab_extend:
  assumes at: "tab m r va d = Some t" and ok: "vm_ok m r A"
    and absent: "load64 m (pt_entry t d va) AND PG_P = 0"
    and new: "descends d (load64 m' (pt_entry t d va))" "pte_frame (load64 m' (pt_entry t d va)) = page"
    and zero: "\<And>va' d'. load64 m' (pt_entry page d' va') = 0"
    and frame: "\<And>va' d' t'. tab m r va' d' = Some t' \<Longrightarrow> pt_entry t' d' va' \<noteq> pt_entry t d va \<Longrightarrow>
      load64 m' (pt_entry t' d' va') = load64 m (pt_entry t' d' va')"
  shows "tab m' r va' d' =
    (if d < d' \<and> tab m r va' d = Some t \<and> pt_idx d va' = pt_idx d va
     then if d' = Suc d then Some page else None else tab m r va' d')"
proof (induction d')
  case 0
  show ?case by simp
next
  case (Suc d')
  show ?case
  proof (cases "d \<le> d' \<and> tab m r va' d = Some t \<and> pt_idx d va' = pt_idx d va")
    case True
    then have e: "pt_entry t d va' = pt_entry t d va" by (simp add: pt_entry_def)
    show ?thesis
    proof (cases "d' = d")
      case True
      with \<open>d \<le> d' \<and> _\<close> Suc e new show ?thesis by simp
    next
      case False
      with True Suc zero [of d' va'] show ?thesis by (auto simp: descends_def)
    qed
  next
    case False
    then have same: "tab m' r va' d' = tab m r va' d'" using Suc by auto
    show ?thesis
    proof (cases "tab m r va' d'")
      case None
      with same False show ?thesis by simp
    next
      case (Some t')
      have "pt_entry t' d' va' \<noteq> pt_entry t d va"
      proof
        assume e: "pt_entry t' d' va' = pt_entry t d va"
        then have "t' = t" and i: "pt_idx d' va' = pt_idx d va"
          using pt_entry_inject vm_okD(1) [OF ok] at Some by blast+
        then have "d = d'" using vm_okD(3) [OF ok at] Some by blast
        with False Some \<open>t' = t\<close> i show False by simp
      qed
      from frame [OF Some this] Some same False show ?thesis by auto
    qed
  qed
qed


section \<open>Translation through the tree\<close>

definition vm_leaf :: "mem_t \<Rightarrow> uint64 \<Rightarrow> uint64 \<Rightarrow> (nat \<times> uint64) option" where
  "vm_leaf m r va =
     (case tab m r va 2 of None \<Rightarrow> None
      | Some t \<Rightarrow>
          let p = pt_entry t 2 va; e = load64 m p in
          if e AND PG_P = 0 then None
          else if e AND PG_PS \<noteq> 0 then Some (2, p)
          else
            let q = pt_entry (pte_frame e) 3 va in
            if load64 m q AND PG_P = 0 then None else Some (3, q))"

definition leaf_addr :: "nat \<Rightarrow> pte_t \<Rightarrow> uint64 \<Rightarrow> uint64" where
  "leaf_addr d e va =
     (if d = 2 then pte_frame e AND NOT 0x1FFFFF OR va AND 0x1FFFFF
      else pte_frame e OR va AND 0xFFF)"

lemma translate_leaf:
  "translate m r va = map_option (\<lambda>(d, p). leaf_addr d (load64 m p) va) (vm_leaf m (pte_frame r) va)"
  by (simp add: translate_def vm_leaf_def leaf_addr_def numeral_2_eq_2 Let_def descends_def
      pt_entry_def pt_idx_macros [unfolded numeral_2_eq_2])

lemma tab_3:
  "tab m r va 3 = (case tab m r va 2 of None \<Rightarrow> None
     | Some t \<Rightarrow> let e = load64 m (pt_entry t 2 va) in
         if descends 2 e then Some (pte_frame e) else None)"
proof -
  have "3 = Suc 2" by simp
  then show ?thesis by (simp only: tab.simps)
qed

lemma vm_leafD:
  assumes "vm_leaf m r va = Some (d, p)"
  obtains t where "tab m r va d = Some t" and "p = pt_entry t d va" and "load64 m p AND PG_P \<noteq> 0"
    and "\<not> descends d (load64 m p)"
proof -
  from assms obtain t where t: "tab m r va 2 = Some t" "load64 m (pt_entry t 2 va) AND PG_P \<noteq> 0"
    by (auto simp: vm_leaf_def Let_def split: option.splits if_splits)
  show thesis
  proof (cases "load64 m (pt_entry t 2 va) AND PG_PS = 0")
    case False
    with assms t that show thesis by (auto simp: vm_leaf_def Let_def descends_def)
  next
    case True
    with t have "tab m r va 3 = Some (pte_frame (load64 m (pt_entry t 2 va)))"
      by (simp add: tab_3 descends_def)
    with assms t True that show thesis
      by (auto simp: vm_leaf_def Let_def descends_def split: if_splits)
  qed
qed

lemma vm_leafI:
  assumes "tab m r va d = Some t" and "load64 m (pt_entry t d va) AND PG_P \<noteq> 0"
    and "\<not> descends d (load64 m (pt_entry t d va))" 
  shows "vm_leaf m r va = Some (d, pt_entry t d va)"
proof -
  have "d = 2 \<or> d = 3" using assms(2,3) tab_less [OF assms(1)] by (auto simp: descends_def)
  then show ?thesis
  proof
    assume d: "d = 2"
    with assms show ?thesis by (simp add: vm_leaf_def Let_def descends_def)
  next
    assume d: "d = 3"
    with assms(1) obtain t2 where "tab m r va 2 = Some t2" "descends 2 (load64 m (pt_entry t2 2 va))"
      "t = pte_frame (load64 m (pt_entry t2 2 va))"
      by (auto simp: tab_3 Let_def split: option.splits if_splits)
    with assms(2) d show ?thesis by (simp add: vm_leaf_def Let_def descends_def)
  qed
qed

text \<open>A path that leads beyond an entry has found it present.\<close>

lemma tab_beyond: "tab m r va d' = Some t' \<Longrightarrow> d < d' \<Longrightarrow>
    \<exists>t. tab m r va d = Some t \<and> descends d (load64 m (pt_entry t d va))"
proof (induction d' arbitrary: t')
  case (Suc d')
  then obtain t1 where t1: "tab m r va d' = Some t1" "descends d' (load64 m (pt_entry t1 d' va))"
    by (auto simp: Let_def split: option.splits if_splits)
  show ?case
  proof (cases "d = d'")
    case False
    with Suc.prems(2) have "d < d'" by simp
    with Suc.IH [OF t1(1)] show ?thesis by blast
  qed (use t1 in blast)
qed simp

section \<open>Growing the tree\<close>

definition vm_bytes :: "mem_t \<Rightarrow> uint64 \<Rightarrow> nat set" where
  "vm_bytes m r = {x. \<exists>va d t. tab m r va d = Some t \<and> in_block 4096 t x}"

definition vm_inv :: "klayout \<Rightarrow> kstate \<Rightarrow> pm_abs \<Rightarrow> bool" where
  "vm_inv K s A \<longleftrightarrow> pm_rel K s A \<and> pm_aligned A \<and> vm_ok (mem s) (pgdir s) A \<and>
     unat (memtotal s) \<le> phys_limit"

definition vm_grows :: "klayout \<Rightarrow> kstate \<Rightarrow> pm_abs \<Rightarrow> kstate \<Rightarrow> pm_abs \<Rightarrow> bool" where
  "vm_grows K s A s' A' \<longleftrightarrow> vm_inv K s' A' \<and>
     s' = s\<lparr>mem := mem s', pmmap := pmmap s'\<rparr> \<and>
     (\<forall>va d p. vm_leaf (mem s) (pgdir s) va = Some (d, p) \<longrightarrow>
        vm_leaf (mem s') (pgdir s) va = Some (d, p) \<and> load64 (mem s') p = load64 (mem s) p) \<and>
     (\<forall>x. cover A' x \<le> cover A x) \<and> blocks_kept A A' \<and>
     (\<forall>x \<in> vm_bytes (mem s') (pgdir s). x \<in> vm_bytes (mem s) (pgdir s) \<or> cover A x = 1) \<and>
     (\<forall>x. cover A (unat x) = 0 \<longrightarrow> unat x \<notin> vm_bytes (mem s) (pgdir s) \<longrightarrow> mem s' x = mem s x)"

lemma vm_inv_root: "vm_inv K s A \<Longrightarrow> table_ok A (pgdir s)"
  using vm_okD(1) [of "mem s" "pgdir s" A undefined 0] by (simp add: vm_inv_def)

lemma vm_grows_same: "vm_grows K s A s' A' \<Longrightarrow> pgdir s' = pgdir s \<and> memtotal s' = memtotal s"
  unfolding vm_grows_def by (elim conjE) (erule ssubst, simp)

lemma vm_grows_refl: "vm_inv K s A \<Longrightarrow> vm_grows K s A s A"
  by (simp add: vm_grows_def)

lemma vm_grows_trans:
  assumes 1: "vm_grows K s A s1 A1" and 2: "vm_grows K s1 A1 s2 A2" and "pm_rel K s A"
  shows "vm_grows K s A s2 A2"
proof -
  have r: "pgdir s1 = pgdir s" using vm_grows_same [OF 1] by simp
  have c: "cover A1 x \<le> cover A x" "cover A x \<le> 1" for x
    using 1 assms(3) by (simp_all add: vm_grows_def pm_rel_def)
  have "s2 = s\<lparr>mem := mem s2, pmmap := pmmap s2\<rparr>"
    using 1 2 unfolding vm_grows_def by (blast intro: pm_same_trans)
  moreover have "blocks_kept A A2"
    using 1 2 unfolding vm_grows_def by (blast intro: blocks_kept_trans)
  moreover have "cover A2 x \<le> cover A x" for x
    using 2 c [of x] unfolding vm_grows_def by (meson order_trans)
  moreover have "x \<in> vm_bytes (mem s) (pgdir s) \<or> cover A x = 1" if "x \<in> vm_bytes (mem s2) (pgdir s)" for x
  proof -
    have "x \<in> vm_bytes (mem s1) (pgdir s) \<or> cover A1 x = 1" using 2 that r unfolding vm_grows_def by metis
    with 1 c [of x] show ?thesis unfolding vm_grows_def by (metis le_antisym)
  qed
  moreover have "mem s2 x = mem s x"
    if "cover A (unat x) = 0" "unat x \<notin> vm_bytes (mem s) (pgdir s)" for x
  proof -
    have "cover A1 (unat x) = 0" using c [of "unat x"] that by simp
    moreover have "unat x \<notin> vm_bytes (mem s1) (pgdir s)" using 1 that unfolding vm_grows_def by auto
    ultimately have "mem s2 x = mem s1 x" using 2 r unfolding vm_grows_def by metis
    with 1 that show ?thesis unfolding vm_grows_def by metis
  qed
  moreover have "vm_leaf (mem s2) (pgdir s) va = Some (d, p) \<and> load64 (mem s2) p = load64 (mem s) p"
    if "vm_leaf (mem s) (pgdir s) va = Some (d, p)" for va d p
  proof -
    have "vm_leaf (mem s1) (pgdir s) va = Some (d, p) \<and> load64 (mem s1) p = load64 (mem s) p"
      using 1 that unfolding vm_grows_def by blast
    with 2 r show ?thesis unfolding vm_grows_def by metis
  qed
  ultimately show ?thesis using 2 unfolding vm_grows_def by blast
qed


text \<open>Filling one entry.  A new table has to be a fresh page of zeros.\<close>

lemma load64_zeros: "(\<And>x. x \<in> bytes_at a 8 \<Longrightarrow> m x = 0) \<Longrightarrow> load64 m a = 0"
  using quad_cell.load_local [of a m "\<lambda>_. 0"] by simp

definition fresh_table :: "kstate \<Rightarrow> pm_abs \<Rightarrow> uint64 \<Rightarrow> bool" where
  "fresh_table s A page \<longleftrightarrow> table_ok A page \<and> (\<forall>x. in_block 4096 page (unat x) \<longrightarrow> mem s x = 0) \<and>
     (\<forall>x. in_block 4096 page x \<longrightarrow> x \<notin> vm_bytes (mem s) (pgdir s))"

lemma in_block_self: "0 < n \<Longrightarrow> in_block n a (unat a)"
  by (simp add: in_block_def)

lemma entry_in_tree:
  assumes "vm_ok m r A" and "tab m r va d = Some t" and "x \<in> bytes_at (pt_entry t d va) 8"
  shows "unat x \<in> vm_bytes m r"
  using pt_entry_bytes [OF vm_okD(1) [OF assms(1,2)] assms(3)] assms(2) by (auto simp: vm_bytes_def)

lemma set_entry_loads:
  assumes ok: "vm_ok (mem s) (pgdir s) A" and at: "tab (mem s) (pgdir s) va d = Some t"
  shows "load64 (store64 (mem s) (pt_entry t d va) e) (pt_entry t d va) = e"
    and "tab (mem s) (pgdir s) va' d' = Some t' \<Longrightarrow> pt_entry t' d' va' \<noteq> pt_entry t d va \<Longrightarrow>
      load64 (store64 (mem s) (pt_entry t d va) e) (pt_entry t' d' va') =
      load64 (mem s) (pt_entry t' d' va')"
    and "fresh_table s A page \<Longrightarrow>
      load64 (store64 (mem s) (pt_entry t d va) e) (pt_entry page d' va') = 0"
proof -
  let ?p = "pt_entry t d va"
  show "load64 (store64 (mem s) ?p e) ?p = e" by simp
  show "load64 (store64 (mem s) ?p e) (pt_entry t' d' va') = load64 (mem s) (pt_entry t' d' va')"
    if "tab (mem s) (pgdir s) va' d' = Some t'" "pt_entry t' d' va' \<noteq> ?p"
    by (rule quad_cell.load_store_other, rule pt_entry_apart [OF vm_okD(1) [OF ok at] vm_okD(1) [OF ok that(1)]])
      (use that(2) in simp)
  assume fresh: "fresh_table s A page"
  show "load64 (store64 (mem s) ?p e) (pt_entry page d' va') = 0"
  proof (rule load64_zeros)
    fix x assume x: "x \<in> bytes_at (pt_entry page d' va') 8"
    have b: "in_block 4096 page (unat x)"
      by (rule pt_entry_bytes [OF _ x, of A]) (use fresh in \<open>simp add: fresh_table_def\<close>)
    then have "x \<notin> bytes_at ?p 8" using entry_in_tree [OF ok at] fresh unfolding fresh_table_def by blast
    then have "store64 (mem s) ?p e x = mem s x" by (rule quad_cell.store_outside)
    with b fresh show "store64 (mem s) ?p e x = 0" by (simp add: fresh_table_def)
  qed
qed

lemma set_entry_tab:
  fixes s :: kstate and va e
  assumes ok: "vm_ok (mem s) (pgdir s) A" and at: "tab (mem s) (pgdir s) va d = Some t"
    and absent: "load64 (mem s) (pt_entry t d va) AND PG_P = 0"
    and fresh: "descends d e \<Longrightarrow> fresh_table s A (pte_frame e)"
  shows "tab (store64 (mem s) (pt_entry t d va) e) (pgdir s) va' d' =
      (if descends d e \<and> d < d' \<and> tab (mem s) (pgdir s) va' d = Some t \<and> pt_idx d va' = pt_idx d va
       then if d' = Suc d then Some (pte_frame e) else None else tab (mem s) (pgdir s) va' d')"
proof (cases "descends d e")
  case True
  with tab_extend [OF at ok absent, of "store64 (mem s) (pt_entry t d va) e" "pte_frame e"]
    set_entry_loads [OF ok at] fresh [OF True] show ?thesis by simp
next
  case False
  with tab_leaf [OF at ok absent, of "store64 (mem s) (pt_entry t d va) e"]
    set_entry_loads [OF ok at] show ?thesis by simp
qed

lemma set_entry_ok:
  fixes s :: kstate and va e
  assumes ok: "vm_ok (mem s) (pgdir s) A" and at: "tab (mem s) (pgdir s) va d = Some t"
    and absent: "load64 (mem s) (pt_entry t d va) AND PG_P = 0" and e: "unat e < phys_limit"
    and fresh: "descends d e \<Longrightarrow> fresh_table s A (pte_frame e)"
  shows "vm_ok (store64 (mem s) (pt_entry t d va) e) (pgdir s) A"
proof -
  let ?m = "mem s" and ?r = "pgdir s" and ?m' = "store64 (mem s) (pt_entry t d va) e"
  define new where "new va' d' \<longleftrightarrow> descends d e \<and> d' = Suc d \<and> tab ?m ?r va' d = Some t \<and>
      pt_idx d va' = pt_idx d va" for va' d'
  have cases: "new va' d' \<and> t' = pte_frame e \<or> tab ?m ?r va' d' = Some t'"
    if "tab ?m' ?r va' d' = Some t'" for va' d' t'
    using that unfolding set_entry_tab [OF ok at absent fresh, simplified] new_def by (auto split: if_splits)
  have apart: False if "tab ?m ?r va' d' = Some (pte_frame e)" "new va'' d''" for va' d' va'' d''
    using that fresh in_block_self [of 4096 "pte_frame e"]
    unfolding new_def fresh_table_def vm_bytes_def by fastforce
  show ?thesis
    unfolding vm_ok_def
  proof (intro conjI allI impI)
    fix va' d' t' assume t': "tab ?m' ?r va' d' = Some t'"
    show "table_ok A t'"
      using cases [OF t'] fresh vm_okD(1) [OF ok] by (auto simp: new_def fresh_table_def)
    assume pr: "load64 ?m' (pt_entry t' d' va') AND PG_P \<noteq> 0"
    then have "\<not> (new va' d' \<and> t' = pte_frame e)"
      using set_entry_loads(3) [OF ok at fresh] by (auto simp: new_def)
    then have old: "tab ?m ?r va' d' = Some t'" using cases [OF t'] by blast
    show "unat (load64 ?m' (pt_entry t' d' va')) < phys_limit"
      using e pr set_entry_loads(2) [OF ok at old, of e] vm_okD(2) [OF ok old]
      by (cases "pt_entry t' d' va' = pt_entry t d va") simp_all
  next
    fix va1 va2 d1 d2 t'
    assume "tab ?m' ?r va1 d1 = Some t'" "tab ?m' ?r va2 d2 = Some t'"
    from cases [OF this(1)] cases [OF this(2)]
    consider "new va1 d1" "new va2 d2" | "tab ?m ?r va1 d1 = Some t'" "tab ?m ?r va2 d2 = Some t'"
      using apart by blast
    then have "d1 = d2 \<and> same_path d1 va1 va2"
    proof cases
      case 1
      then have "same_path d va1 va2" using vm_okD(3) [OF ok] unfolding new_def by blast
      with 1 show ?thesis by (auto simp: new_def same_path_def less_Suc_eq)
    next
      case 2
      then show ?thesis using vm_okD(3) [OF ok] by blast
    qed
    then show "d1 = d2" "same_path d1 va1 va2" by blast+
  qed
qed

lemma set_entry_leaf:
  assumes ok: "vm_ok (mem s) (pgdir s) A" and at: "tab (mem s) (pgdir s) va d = Some t"
    and absent: "load64 (mem s) (pt_entry t d va) AND PG_P = 0"
    and fresh: "descends d e \<Longrightarrow> fresh_table s A (pte_frame e)"
    and leaf: "vm_leaf (mem s) (pgdir s) va' = Some (d', p)"
  shows "vm_leaf (store64 (mem s) (pt_entry t d va) e) (pgdir s) va' = Some (d', p) \<and>
    load64 (store64 (mem s) (pt_entry t d va) e) p = load64 (mem s) p"
proof -
  let ?m' = "store64 (mem s) (pt_entry t d va) e"
  from vm_leafD [OF leaf] obtain t' where t': "tab (mem s) (pgdir s) va' d' = Some t'"
    "p = pt_entry t' d' va'" "load64 (mem s) p AND PG_P \<noteq> 0" "\<not> descends d' (load64 (mem s) p)" by blast
  have "p \<noteq> pt_entry t d va" using t'(3) absent by auto
  then have l: "load64 ?m' p = load64 (mem s) p" using set_entry_loads(2) [OF ok at t'(1)] t'(2) by simp
  have "\<not> (d < d' \<and> tab (mem s) (pgdir s) va' d = Some t \<and> pt_idx d va' = pt_idx d va)"
  proof
    assume c: "d < d' \<and> tab (mem s) (pgdir s) va' d = Some t \<and> pt_idx d va' = pt_idx d va"
    then have "descends d (load64 (mem s) (pt_entry t d va))"
      using tab_beyond [OF t'(1), of d] by (auto simp: pt_entry_def)
    with absent show False by (simp add: descends_def)
  qed
  then have "tab ?m' (pgdir s) va' d' = Some t'"
    using t'(1) unfolding set_entry_tab [OF ok at absent fresh, simplified] by auto
  from vm_leafI [OF this] t' l show ?thesis by simp
qed

text \<open>Which leaves there are afterwards: the old ones, and the new one if the entry is a leaf.\<close>

lemma set_entry_leaf_eq:
  assumes ok: "vm_ok (mem s) (pgdir s) A" and at: "tab (mem s) (pgdir s) va d = Some t"
    and absent: "load64 (mem s) (pt_entry t d va) AND PG_P = 0"
    and fresh: "descends d e \<Longrightarrow> fresh_table s A (pte_frame e)" and pr: "e AND PG_P \<noteq> 0"
  shows "vm_leaf (store64 (mem s) (pt_entry t d va) e) (pgdir s) va' =
    (if \<not> descends d e \<and> tab (mem s) (pgdir s) va' d = Some t \<and> pt_idx d va' = pt_idx d va
     then Some (d, pt_entry t d va) else vm_leaf (mem s) (pgdir s) va')"
proof -
  let ?m' = "store64 (mem s) (pt_entry t d va) e"
  have tab': "tab ?m' (pgdir s) va' d' =
      (if descends d e \<and> d < d' \<and> tab (mem s) (pgdir s) va' d = Some t \<and> pt_idx d va' = pt_idx d va
       then if d' = Suc d then Some (pte_frame e) else None else tab (mem s) (pgdir s) va' d')" for d'
    by (rule set_entry_tab [OF ok at absent fresh])
  show ?thesis
  proof (cases "\<not> descends d e \<and> tab (mem s) (pgdir s) va' d = Some t \<and> pt_idx d va' = pt_idx d va")
    case True
    then have "pt_entry t d va' = pt_entry t d va" by (simp add: pt_entry_def)
    with True pr tab' [of d] vm_leafI [of ?m' "pgdir s" va' d t] show ?thesis by simp
  next
    case False
    have "vm_leaf ?m' (pgdir s) va' = None" if none: "vm_leaf (mem s) (pgdir s) va' = None"
    proof (rule ccontr)
      assume "vm_leaf ?m' (pgdir s) va' \<noteq> None"
      then obtain d' q where "vm_leaf ?m' (pgdir s) va' = Some (d', q)" by auto
      then obtain t' where t': "tab ?m' (pgdir s) va' d' = Some t'" "q = pt_entry t' d' va'"
        "load64 ?m' q AND PG_P \<noteq> 0" "\<not> descends d' (load64 ?m' q)" by (rule vm_leafD)
      have old: "tab (mem s) (pgdir s) va' d' = Some t'"
      proof (rule ccontr)
        assume "tab (mem s) (pgdir s) va' d' \<noteq> Some t'"
        with t'(1) have "descends d e" "t' = pte_frame e" unfolding tab' by (auto split: if_splits)
        with set_entry_loads(3) [OF ok at fresh] t'(2,3) show False by simp
      qed
      show False
      proof (cases "q = pt_entry t d va")
        case True
        with t'(2) have "pt_entry t' d' va' = pt_entry t d va" by simp
        from pt_entry_inject [OF vm_okD(1) [OF ok old] vm_okD(1) [OF ok at] this]
        have "t' = t" "pt_idx d' va' = pt_idx d va" by simp_all
        moreover from this have "d = d'" using vm_okD(3) [OF ok at] old by blast
        ultimately show False using False old True t'(4) by simp
      next
        case False
        with set_entry_loads(2) [OF ok at old] t' have "load64 ?m' q = load64 (mem s) q" by simp
        with vm_leafI [OF old] t' none show False by simp
      qed
    qed
    then show ?thesis
      using False set_entry_leaf [OF ok at absent fresh, of va']
      by (cases "vm_leaf (mem s) (pgdir s) va'") auto
  qed
qed

lemma set_entry_grows:
  fixes s :: kstate and va e
  assumes inv: "vm_inv K s A" and at: "tab (mem s) (pgdir s) va d = Some t"
    and absent: "load64 (mem s) (pt_entry t d va) AND PG_P = 0" and e: "unat e < phys_limit"
    and fresh: "descends d e \<Longrightarrow> fresh_table s A (pte_frame e)"
  defines "s' \<equiv> set_pte (pt_entry t d va) e s"
  shows "vm_inv K s' A" 
    and "cover A (unat x) = 0 \<Longrightarrow> unat x \<notin> vm_bytes (mem s) (pgdir s) \<Longrightarrow> mem s' x = mem s x"
    and "y \<in> vm_bytes (mem s') (pgdir s) \<Longrightarrow> y \<in> vm_bytes (mem s) (pgdir s) \<or>
      (descends d e \<and> in_block 4096 (pte_frame e) y)"
proof -
  have ok: "vm_ok (mem s) (pgdir s) A" and rel: "pm_rel K s A" using inv by (simp_all add: vm_inv_def)
  have m': "mem s' = store64 (mem s) (pt_entry t d va) e" "pgdir s' = pgdir s" "memtotal s' = memtotal s"
    "pmmap s' = pmmap s"
    by (simp_all add: s'_def set_pte_def)
  have out: "mem s' x = mem s x" if "unat x \<notin> vm_bytes (mem s) (pgdir s)" for x
    unfolding m' by (rule quad_cell.store_outside) (use that entry_in_tree [OF ok at] in blast)
  then show "unat x \<notin> vm_bytes (mem s) (pgdir s) \<Longrightarrow> mem s' x = mem s x" .
  have "cover A z = 0" if "z \<in> vm_bytes (mem s) (pgdir s)" for z
    using that vm_okD(1) [OF ok] unfolding vm_bytes_def table_ok_def by blast
  then have "pm_rel K s' A"
    using pm_rel_frame [OF rel] out m' by (metis One_nat_def less_numeral_extra(1) zero_neq_one)
  then show "vm_inv K s' A"
    using inv set_entry_ok [OF ok at absent e fresh] m' by (simp add: vm_inv_def)
  assume "y \<in> vm_bytes (mem s') (pgdir s)"
  then obtain va' d' t' where "tab (mem s') (pgdir s) va' d' = Some t'" "in_block 4096 t' y"
    by (auto simp: vm_bytes_def)
  then show "y \<in> vm_bytes (mem s) (pgdir s) \<or> (descends d e \<and> in_block 4096 (pte_frame e) y)"
    unfolding m' set_entry_tab [OF ok at absent fresh, simplified] vm_bytes_def
    by (auto split: if_splits)
qed

text \<open>Memory in use is what the tree depends on.\<close>

lemma tab_frame:
  assumes ok: "vm_ok m r A" and same: "\<And>x. cover A (unat x) = 0 \<Longrightarrow> m' x = m x"
  shows tab_frame_tab: "tab m' r va d = tab m r va d"
    and tab_frame_load: "tab m r va d = Some t \<Longrightarrow> load64 m' (pt_entry t d va) = load64 m (pt_entry t d va)"
proof -
  have l: "load64 m' (pt_entry t d va) = load64 m (pt_entry t d va)" if "tab m r va d = Some t" for va d t
  proof (rule quad_cell.load_local)
    fix x assume "x \<in> bytes_at (pt_entry t d va) 8"
    then have "cover A (unat x) = 0"
      using pt_entry_bytes [OF vm_okD(1) [OF ok that]] vm_okD(1) [OF ok that] by (simp add: table_ok_def)
    then show "m' x = m x" by (rule same)
  qed
  then show "load64 m' (pt_entry t d va) = load64 m (pt_entry t d va)" if "tab m r va d = Some t"
    using that .
  show "tab m' r va d = tab m r va d"
  proof (induction d)
    case (Suc d)
    then show ?case by (cases "tab m r va d") (simp_all add: l)
  qed simp
qed

lemma vm_ok_frame:
  assumes ok: "vm_ok m r A" and same: "\<And>x. cover A (unat x) = 0 \<Longrightarrow> m' x = m x"
    and le: "\<And>x. cover A' x \<le> cover A x"
  shows "vm_ok m' r A'"
proof -
  have tab: "tab m' r va d = tab m r va d" for va d by (rule tab_frame_tab [OF ok same])
  have l: "tab m r va d = Some t \<Longrightarrow> load64 m' (pt_entry t d va) = load64 m (pt_entry t d va)" for va d t
    by (rule tab_frame_load [OF ok same])
  have "table_ok A' t" if "table_ok A t" for t
    using that le unfolding table_ok_def by (metis le_zero_eq)
  then show ?thesis
    unfolding vm_ok_def tab using vm_okD [OF ok] l by (intro conjI allI impI) (blast | force)+
qed

lemma vm_leaf_frame:
  assumes ok: "vm_ok m r A" and same: "\<And>x. cover A (unat x) = 0 \<Longrightarrow> m' x = m x"
    and leaf: "vm_leaf m r va = Some (d, p)"
  shows "vm_leaf m' r va = Some (d, p) \<and> load64 m' p = load64 m p"
proof -
  obtain t where t: "tab m r va d = Some t" "p = pt_entry t d va" "load64 m p AND PG_P \<noteq> 0"
    "\<not> descends d (load64 m p)" using vm_leafD [OF leaf] by blast
  then have "load64 m' p = load64 m p" using tab_frame_load [OF ok same] by simp
  moreover have "tab m' r va d = Some t" using t tab_frame_tab [OF ok same] by simp
  ultimately show ?thesis using t vm_leafI [of m' r va d t] by simp
qed

lemma vm_leaf_frame_eq:
  assumes ok: "vm_ok m r A" and same: "\<And>x. cover A (unat x) = 0 \<Longrightarrow> m' x = m x"
  shows "vm_leaf m' r va = vm_leaf m r va"
proof (cases "vm_leaf m r va")
  case None
  have "vm_leaf m' r va = None"
  proof (rule ccontr)
    assume "vm_leaf m' r va \<noteq> None"
    then obtain d p where "vm_leaf m' r va = Some (d, p)" by auto
    then obtain t where t: "tab m' r va d = Some t" "p = pt_entry t d va" "load64 m' p AND PG_P \<noteq> 0"
      "\<not> descends d (load64 m' p)" by (rule vm_leafD)
    then have at: "tab m r va d = Some t" using tab_frame_tab [OF ok same] by simp
    with t vm_leafI [OF at] tab_frame_load [OF ok same at] None show False by simp
  qed
  with None show ?thesis by simp
next
  case (Some dp)
  then show ?thesis using vm_leaf_frame [OF ok same] by (cases dp) simp
qed

lemma granted_grows:
  assumes inv: "vm_inv K s A" and g: "pm_granted K 4096 s A page A1 s1" and al: "pm_aligned A1"
    and pal: "4096 dvd unat page" and kept: "blocks_kept A A1"
  shows "vm_grows K s A s1 A1" "fresh_table s1 A1 page"
proof -
  have ok: "vm_ok (mem s) (pgdir s) A" using inv by (simp add: vm_inv_def)
  have cov: "cover A1 x + of_bool (in_block 4096 page x) = cover A x" "cover A x \<le> 1" for x
    using g by (simp_all add: pm_granted_def)
  then have le: "cover A1 x \<le> cover A x" for x by (metis le_add1)
  have same: "mem s1 x = mem s x" if "cover A (unat x) = 0" for x using g that by (simp add: pm_granted_def)
  have st: "s1 = s\<lparr>mem := mem s1, pmmap := pmmap s1\<rparr>" using g by (simp add: pm_granted_def)
  have r: "pgdir s1 = pgdir s" "memtotal s1 = memtotal s" by (subst st, simp)+
  have "tab (mem s1) (pgdir s) va d = tab (mem s) (pgdir s) va d" for va d
    by (rule tab_frame_tab [OF ok same])
  then have bytes: "vm_bytes (mem s1) (pgdir s) = vm_bytes (mem s) (pgdir s)"
    unfolding vm_bytes_def by simp
  have inv1: "vm_inv K s1 A1"
    using inv g al r vm_ok_frame [OF ok same le] by (simp add: vm_inv_def pm_granted_def)
  show "vm_grows K s A s1 A1"
    unfolding vm_grows_def bytes
    using inv1 st le same kept vm_leaf_frame [OF ok same] by blast
  have "x \<notin> vm_bytes (mem s) (pgdir s)" if "in_block 4096 page x" for x
    using that cov(1) [of x] vm_okD(1) [OF ok] unfolding vm_bytes_def table_ok_def by fastforce
  moreover have "table_ok A1 page"
    unfolding table_ok_def
  proof (intro conjI allI impI)
    show "page \<noteq> 0" "unat page + 4096 \<le> phys_limit"
      using g inv by (auto simp: pm_granted_def block_ok_def vm_inv_def)
    show "cover A1 x = 0" if "in_block 4096 page x" for x using cov [of x] that by simp
  qed (rule pal)
  ultimately show "fresh_table s1 A1 page"
    using g r bytes by (auto simp: fresh_table_def pm_granted_def)
qed

lemma leaf_grows:
  assumes inv: "vm_inv K s A" and at: "tab (mem s) (pgdir s) va d = Some t"
    and absent: "load64 (mem s) (pt_entry t d va) AND PG_P = 0"
    and e: "unat e < phys_limit" "\<not> descends d e"
  shows "vm_grows K s A (set_pte (pt_entry t d va) e s) A"
proof -
  have ok: "vm_ok (mem s) (pgdir s) A" using inv by (simp add: vm_inv_def)
  have nf: "descends d e \<Longrightarrow> fresh_table s A (pte_frame e)" using e(2) by simp
  let ?s' = "set_pte (pt_entry t d va) e s"
  have m': "mem ?s' = store64 (mem s) (pt_entry t d va) e" "?s' = s\<lparr>mem := mem ?s', pmmap := pmmap ?s'\<rparr>"
    by (simp_all add: set_pte_def)
  show ?thesis
    unfolding vm_grows_def
    using set_entry_grows [OF inv at absent e(1) nf] set_entry_leaf [OF ok at absent nf] m' e(2) by auto
qed

lemma or_flag_small:
  assumes "unat page < phys_limit" and "\<And>i. bit flag i \<Longrightarrow> i < 12"
  shows "unat (page OR flag :: uint64) < phys_limit"
proof -
  have "bit (take_bit 52 (page OR flag)) i = bit (page OR flag) i" for i
    using bit_small [OF assms(1), of i] assms(2) [of i] by (auto simp: bit_take_bit_iff bit_or_iff)
  then have "take_bit 52 (page OR flag) = page OR flag" by (rule bit_eqI)
  then have "unat (page OR flag) = take_bit 52 (unat (page OR flag))" by (metis unsigned_take_bit_eq)
  then show ?thesis using take_bit_nat_less_exp [of 52 "unat (page OR flag)"] by simp
qed

lemma table_grows:
  assumes inv: "vm_inv K s A" and at: "tab (mem s) (pgdir s) va d = Some t"
    and absent: "load64 (mem s) (pt_entry t d va) AND PG_P = 0"
    and g: "pm_granted K 4096 s A page A1 s1" and al: "pm_aligned A1" and pal: "4096 dvd unat page"
    and kept: "blocks_kept A A1" and flag: "bit flag 0" "\<And>i. bit flag i \<Longrightarrow> i < 12"
  defines "s' \<equiv> set_pte (pt_entry t d va) (page OR flag) s1"
  shows "vm_grows K s A s' A1" and "load64 (mem s') (pt_entry t d va) = page OR flag"
    and "pte_frame (page OR flag) = page" and "(page OR flag) AND PG_P \<noteq> 0"
    and "\<And>x. in_block 4096 page (unat x) \<Longrightarrow> mem s' x = 0"
    and "\<And>va' d'. tab (mem s') (pgdir s) va' d' = (if descends d (page OR flag) \<and> d < d' \<and>
        tab (mem s) (pgdir s) va' d = Some t \<and> pt_idx d va' = pt_idx d va
       then if d' = Suc d then Some page else None else tab (mem s) (pgdir s) va' d')"
proof -
  let ?p = "pt_entry t d va" and ?e = "page OR flag"
  have ok: "vm_ok (mem s) (pgdir s) A" using inv by (simp add: vm_inv_def)
  note gr = granted_grows [OF inv g al pal kept]
  have inv1: "vm_inv K s1 A1" using gr(1) by (simp add: vm_grows_def)
  then have ok1: "vm_ok (mem s1) (pgdir s1) A1" by (simp add: vm_inv_def)
  have r: "pgdir s1 = pgdir s" using vm_grows_same [OF gr(1)] by simp
  have same: "mem s1 x = mem s x" if "cover A (unat x) = 0" for x using g that by (simp add: pm_granted_def)
  have tab1: "tab (mem s1) (pgdir s1) va' d' = tab (mem s) (pgdir s) va' d'" for va' d'
    unfolding r by (rule tab_frame_tab [OF ok same])
  have at1: "tab (mem s1) (pgdir s1) va d = Some t" using at by (simp add: tab1)
  have absent1: "load64 (mem s1) ?p AND PG_P = 0" using absent tab_frame_load [OF ok same at] by simp
  have page: "table_ok A1 page" using gr(2) by (simp add: fresh_table_def)
  have small: "unat page < phys_limit" using page by (simp add: table_ok_def)
  show fr: "pte_frame ?e = page" by (rule pte_frame_small [OF pal small flag(2)])
  have "bit ?e 0" using flag(1) by (simp add: bit_simps)
  then show pr: "?e AND PG_P \<noteq> 0" by (simp only: present_bit)
  have esmall: "unat ?e < phys_limit" by (rule or_flag_small [OF small flag(2)])
  have fresh: "descends d ?e \<Longrightarrow> fresh_table s1 A1 (pte_frame ?e)" using gr(2) fr by simp
  have m': "mem s' = store64 (mem s1) ?p ?e" by (simp add: s'_def set_pte_def)
  have st1: "s' = s1\<lparr>mem := mem s', pmmap := pmmap s'\<rparr>" by (simp add: s'_def set_pte_def)
  show "load64 (mem s') ?p = ?e" unfolding m' by simp
  show "tab (mem s') (pgdir s) va' d' = (if descends d ?e \<and> d < d' \<and>
        tab (mem s) (pgdir s) va' d = Some t \<and> pt_idx d va' = pt_idx d va
       then if d' = Suc d then Some page else None else tab (mem s) (pgdir s) va' d')" for va' d'
  proof -
    have "tab (mem s') (pgdir s1) va' d' = (if descends d ?e \<and> d < d' \<and>
        tab (mem s1) (pgdir s1) va' d = Some t \<and> pt_idx d va' = pt_idx d va
       then if d' = Suc d then Some (pte_frame ?e) else None else tab (mem s1) (pgdir s1) va' d')"
      unfolding m' by (rule set_entry_tab [OF ok1 at1 absent1 fresh])
    then show ?thesis unfolding fr tab1 unfolding r .
  qed
  show "mem s' x = 0" if "in_block 4096 page (unat x)" for x
  proof -
    have "x \<notin> bytes_at ?p 8" using entry_in_tree [OF ok1 at1] gr(2) that unfolding fresh_table_def by blast
    then have "mem s' x = mem s1 x" unfolding m' by (rule quad_cell.store_outside)
    with gr(2) that show ?thesis by (simp add: fresh_table_def)
  qed
  have cov: "cover A x = 1" if "in_block 4096 page x" for x
  proof -
    have "cover A1 x + 1 = cover A x" "cover A x \<le> 1"
      using g that by (auto simp: pm_granted_def dest!: spec [of _ x])
    then show ?thesis by simp
  qed
  note grow2 = set_entry_grows [OF inv1 at1 absent1 esmall fresh]
  have leaf2: "vm_leaf (mem s') (pgdir s) va' = Some (d', q) \<and> load64 (mem s') q = load64 (mem s) q"
    if "vm_leaf (mem s) (pgdir s) va' = Some (d', q)" for va' d' q
  proof -
    have "vm_leaf (mem s1) (pgdir s1) va' = Some (d', q) \<and> load64 (mem s1) q = load64 (mem s) q"
      unfolding r by (rule vm_leaf_frame [OF ok same that])
    with set_entry_leaf [OF ok1 at1 absent1 fresh, of va' d' q] show ?thesis unfolding m' r by simp
  qed
  have same2: "mem s' x = mem s x" if "cover A (unat x) = 0" "unat x \<notin> vm_bytes (mem s) (pgdir s)" for x
  proof -
    have "unat x \<notin> vm_bytes (mem s1) (pgdir s1)" using that(2) unfolding vm_bytes_def tab1 .
    moreover have "cover A1 (unat x) = 0" using gr(1) that(1) unfolding vm_grows_def by (metis le_zero_eq)
    ultimately show ?thesis using grow2(2) [of x] same [OF that(1)] by (simp add: s'_def)
  qed
  have bytes2: "y \<in> vm_bytes (mem s) (pgdir s) \<or> cover A y = 1" if "y \<in> vm_bytes (mem s') (pgdir s)" for y
  proof -
    have "vm_bytes (mem s1) (pgdir s1) = vm_bytes (mem s) (pgdir s)" unfolding vm_bytes_def tab1 ..
    then show ?thesis using grow2(3) [of y] that cov [of y] fr r by (auto simp: s'_def)
  qed
  have st: "s' = s\<lparr>mem := mem s', pmmap := pmmap s'\<rparr>"
    using gr(1) st1 unfolding vm_grows_def by (blast intro: pm_same_trans)
  have inv2: "vm_inv K s' A1" unfolding s'_def by (rule grow2(1))
  have le: "cover A1 x \<le> cover A x" for x using gr(1) unfolding vm_grows_def by blast
  show "vm_grows K s A s' A1"
    unfolding vm_grows_def using leaf2 same2 bytes2 by (intro conjI inv2 st allI ballI impI le kept) blast+
qed

end
