(* ===== verification/VmWalk.thy ===== *)
theory VmWalk
  imports PageTables
begin

text \<open>
  The walk of \<^verbatim>\<open>arch/x86/vm.c\<close> over the tree of page tables: without creation it finds what the
  processor finds; with creation it adds a mapping and disturbs none; at start-up it maps the
  first 4 GiB to themselves; and the page-fault handler makes the faulting address accessible.
\<close>

section \<open>The walk\<close>

lemma bit_ROUNDDOWN_KiB: "bit (ROUNDDOWN a (KiB 4)) i \<longleftrightarrow> 12 \<le> i \<and> bit a i"
  and bit_ROUNDDOWN_MiB: "bit (ROUNDDOWN a (MiB 2)) i \<longleftrightarrow> 21 \<le> i \<and> bit a i"
proof -
  have "KiB 4 = push_bit 12 1" "MiB 2 = push_bit 21 1" by (simp_all add: KiB_def MiB_def)
  then show "bit (ROUNDDOWN a (KiB 4)) i \<longleftrightarrow> 12 \<le> i \<and> bit a i"
    and "bit (ROUNDDOWN a (MiB 2)) i \<longleftrightarrow> 21 \<le> i \<and> bit a i"
    by (simp_all only: bit_ROUNDDOWN_pow2) (auto simp: bit_simps dest: bit_imp_le_length)
qed

lemma ROUNDDOWN_aligned: "4096 dvd unat a \<Longrightarrow> ROUNDDOWN a (KiB 4) = a"
  by (rule bit_eqI) (auto simp: bit_ROUNDDOWN_KiB dest: bit_aligned)

lemma table_frame: "table_ok A t \<Longrightarrow> pte_frame t = t"
  using pte_frame_small [of t 0] by (simp add: table_ok_def)

lemma pt_entry_not_NULL: "table_ok A t \<Longrightarrow> pt_entry t d va \<noteq> NULL"
  using unat_pt_entry [of A t d va] by (auto simp: table_ok_def word_unat_eq_iff)

lemma tab_next:
  assumes ok: "vm_ok m r A" and at: "tab m r va d = Some t"
    and e: "descends d (load64 m (pt_entry t d va))"
  shows "tab m r va (Suc d) = Some (pte_table (load64 m (pt_entry t d va)))"
  using at e pte_table_frame [OF vm_okD(2) [OF ok at]] by (simp add: descends_def)

lemma walk_finds_leaf:
  assumes inv: "vm_inv K s A"
  shows "walk_pgdir K va False large s =
    Inr (case vm_leaf (mem s) (pgdir s) va of None \<Rightarrow> NULL | Some (d, p) \<Rightarrow> p, s)"
proof -
  let ?m = "mem s" and ?r = "pgdir s"
  have ok: "vm_ok ?m ?r A" using inv by (simp add: vm_inv_def)
  have root: "ROUNDDOWN ?r (KiB 4) = ?r"
    using vm_inv_root [OF inv] by (simp add: table_ok_def ROUNDDOWN_aligned)
  define p0 where "p0 = pt_entry ?r 0 va"
  define p1 where "p1 = pt_entry (pte_table (load64 ?m p0)) (Suc 0) va"
  define p2 where "p2 = pt_entry (pte_table (load64 ?m p1)) 2 va"
  define p3 where "p3 = pt_entry (pte_table (load64 ?m p2)) 3 va"
  have walk: "walk_pgdir K va False large s =
      Inr (if load64 ?m p0 AND PG_P = 0 \<or> load64 ?m p1 AND PG_P = 0 \<or> load64 ?m p2 AND PG_P = 0 then NULL
           else if load64 ?m p2 AND PG_PS \<noteq> 0 then p2
           else if load64 ?m p3 AND PG_P = 0 then NULL else p3, s)"
    by (simp add: walk_pgdir_def walk_level_def root Let_def p0_def p1_def p2_def p3_def pt_entry_def pt_idx_macros)
  show ?thesis
  proof (cases "load64 ?m p0 AND PG_P = 0")
    case True
    then have "tab ?m ?r va 2 = None" by (simp add: numeral_2_eq_2 descends_def p0_def)
    with True show ?thesis by (simp add: walk vm_leaf_def)
  next
    case p0: False
    then have t1: "tab ?m ?r va (Suc 0) = Some (pte_table (load64 ?m p0))"
      using tab_next [OF ok, of va 0 ?r] by (simp add: descends_def p0_def)
    show ?thesis
    proof (cases "load64 ?m p1 AND PG_P = 0")
      case True
      then have "tab ?m ?r va 2 = None" using t1 by (simp add: numeral_2_eq_2 descends_def p1_def del: tab.simps(2)) (simp add: descends_def)
      with True show ?thesis by (simp add: walk vm_leaf_def)
    next
      case p1: False
      then have t2: "tab ?m ?r va 2 = Some (pte_table (load64 ?m p1))"
        using tab_next [OF ok t1] by (simp add: descends_def p1_def numeral_2_eq_2)
      show ?thesis
      proof (cases "load64 ?m p2 AND PG_P = 0")
        case True
        with t2 show ?thesis by (simp add: walk vm_leaf_def p2_def Let_def)
      next
        case p2: False
        then have "pte_table (load64 ?m p2) = pte_frame (load64 ?m p2)"
          using pte_table_frame [OF vm_okD(2) [OF ok t2]] by (simp add: p2_def)
        with p0 p1 p2 t2 show ?thesis
          by (simp add: walk vm_leaf_def Let_def p3_def p2_def [symmetric])
      qed
    qed
  qed
qed

text \<open>One level of the creating walk: the entry is there, or is filled with a fresh table.\<close>

definition pt_flag :: "uint64 \<Rightarrow> bool" where
  "pt_flag flag \<longleftrightarrow> flag AND PG_P \<noteq> 0 \<and> flag AND PG_PS = 0 \<and> take_bit 12 flag = flag"

lemma bit_PG_PS: "bit PG_PS i \<longleftrightarrow> i = 7"
  unfolding PG_PS_def by (auto simp only: bit_push_bit_iff bit_1_iff) simp_all

lemma large_bit: "e AND PG_PS \<noteq> 0 \<longleftrightarrow> bit e 7"
proof -
  have "bit (e AND PG_PS) i \<longleftrightarrow> i = 7 \<and> bit e 7" for i
    by (auto simp: bit_and_iff bit_PG_PS)
  then show ?thesis by (metis bit_eqI bit_0_eq bot_apply bot_bool_def)
qed

lemma bit_pt_flag:
  assumes "pt_flag flag"
  shows "bit flag 0" and "\<not> bit flag 7" and "bit flag i \<Longrightarrow> i < 12"
proof -
  show "bit flag 0" using assms by (simp only: pt_flag_def present_bit)
  show "\<not> bit flag 7" using assms large_bit by (simp only: pt_flag_def) blast
  show "i < 12" if "bit flag i" using assms that by (metis pt_flag_def bit_take_bit_iff)
qed

lemma table_descends:
  assumes "pt_flag flag" and "4096 dvd unat page" and "d < 3"
  shows "descends d (page OR flag)"
proof -
  have "\<not> bit page 7" using bit_aligned [OF assms(2), of 7] by auto
  then have "\<not> bit (page OR flag) 7" "bit (page OR flag) 0"
    using bit_pt_flag [OF assms(1)] by (simp_all add: bit_or_iff)
  then show ?thesis using assms(3) present_bit large_bit by (auto simp: descends_def)
qed

lemma new_table:
  assumes inv: "vm_inv K s A" and at: "tab (mem s) (pgdir s) va d = Some t" and d: "d < 3"
    and absent: "load64 (mem s) (pt_entry t d va) AND PG_P = 0" and flag: "pt_flag flag"
    and pages: "0 < pm_pages A"
  obtains page s1 A' where "pmalloc K PM_4K s = Inr (page, s1)"
    and "vm_grows K s A (set_pte (pt_entry t d va) (page OR flag) s1) A'"
    and "descends d (page OR flag)"
    and "load64 (mem (set_pte (pt_entry t d va) (page OR flag) s1)) (pt_entry t d va) = page OR flag"
    and "tab (mem (set_pte (pt_entry t d va) (page OR flag) s1)) (pgdir s) va d = Some t"
    and "\<And>va'. vm_leaf (mem (set_pte (pt_entry t d va) (page OR flag) s1)) (pgdir s) va' =
      vm_leaf (mem s) (pgdir s) va'"
    and "pm_pages A = Suc (pm_pages A')"
    and "\<And>va'. d < 2 \<Longrightarrow> tab (mem (set_pte (pt_entry t d va) (page OR flag) s1)) (pgdir s) va' 3 =
      tab (mem s) (pgdir s) va' 3"
proof -
  obtain page A' s1 where g: "pmalloc K PM_4K s = Inr (page, s1)" "pm_granted K 4096 s A page A' s1"
    "pm_aligned A'" "4096 dvd unat page" "pm_pages A = Suc (pm_pages A')" "blocks_kept A A'"
    using page_grant [OF _ _ pages] inv unfolding vm_inv_def by metis
  let ?s' = "set_pte (pt_entry t d va) (page OR flag) s1"
  note gr = table_grows [OF inv at absent g(2,3,4,6) bit_pt_flag(1,3) [OF flag]]
  note ds = table_descends [OF flag g(4) d]
  have "tab (mem ?s') (pgdir s) va d = Some t" using gr(6) [of va d] at by simp
  moreover have "tab (mem ?s') (pgdir s) va' 3 = tab (mem s) (pgdir s) va' 3" if d2: "d < 2" for va'
  proof (cases "tab (mem s) (pgdir s) va' d = Some t \<and> pt_idx d va' = pt_idx d va")
    case True
    have "tab (mem s) (pgdir s) va' 3 = None"
    proof (rule ccontr)
      assume "tab (mem s) (pgdir s) va' 3 \<noteq> None"
      then obtain t3 where "tab (mem s) (pgdir s) va' 3 = Some t3" by auto
      from tab_beyond [OF this d] True absent show False by (auto simp: descends_def pt_entry_def)
    qed
    with True gr(6) [of va' 3] ds d2 d show ?thesis by simp
  qed (use gr(6) [of va' 3] in auto)
  moreover have "vm_leaf (mem ?s') (pgdir s) va' = vm_leaf (mem s) (pgdir s) va'" for va'
  proof -
    have ok: "vm_ok (mem s) (pgdir s) A" using inv by (simp add: vm_inv_def)
    note g1 = granted_grows [OF inv g(2,3,4,6)]
    have r: "pgdir s1 = pgdir s" using vm_grows_same [OF g1(1)] by simp
    have ok1: "vm_ok (mem s1) (pgdir s1) A'" using g1(1) by (simp add: vm_grows_def vm_inv_def)
    have same: "mem s1 x = mem s x" if "cover A (unat x) = 0" for x using g(2) that by (simp add: pm_granted_def)
    have tab1: "tab (mem s1) (pgdir s1) va d = Some t"
      unfolding r using at tab_frame_tab [OF ok same] by simp
    have abs1: "load64 (mem s1) (pt_entry t d va) AND PG_P = 0"
      using absent tab_frame_load [OF ok same at] by simp
    have "vm_leaf (mem ?s') (pgdir s1) va' = vm_leaf (mem s1) (pgdir s1) va'"
      using set_entry_leaf_eq [OF ok1 tab1 abs1 _ gr(4)] g1(2) gr(3) ds by (simp add: set_pte_def)
    also have "\<dots> = vm_leaf (mem s) (pgdir s) va'"
      unfolding r by (rule vm_leaf_frame_eq [OF ok same])
    finally show ?thesis unfolding r .
  qed
  ultimately show thesis using that [OF g(1) gr(1) ds gr(2) _ _ g(5)] by blast
qed

lemma same_path_entry:
  assumes ok: "vm_ok m r A" and at: "tab m r va d = Some t"
  shows "tab m r va' d = Some t \<and> pt_idx d va' = pt_idx d va \<longleftrightarrow> same_path (Suc d) va va'"
proof -
  have "tab m r va' d = Some t \<longleftrightarrow> same_path d va va'"
    using vm_okD(3) [OF ok at, of va' d] tab_same_path [of d va va' m r] at by auto
  then show ?thesis by (auto simp: same_path_def less_Suc_eq)
qed

lemma new_leaf:
  assumes inv: "vm_inv K s A" and at: "tab (mem s) (pgdir s) va d = Some t"
    and absent: "load64 (mem s) (pt_entry t d va) AND PG_P = 0"
    and e: "unat e < phys_limit" "e AND PG_P \<noteq> 0" "\<not> descends d e"
  shows "vm_grows K s A (set_pte (pt_entry t d va) e s) A"
    and "vm_leaf (mem (set_pte (pt_entry t d va) e s)) (pgdir s) va' =
      (if same_path (Suc d) va va' then Some (d, pt_entry t d va) else vm_leaf (mem s) (pgdir s) va')"
    and "load64 (mem (set_pte (pt_entry t d va) e s)) (pt_entry t d va) = e"
proof -
  have ok: "vm_ok (mem s) (pgdir s) A" using inv by (simp add: vm_inv_def)
  show "vm_grows K s A (set_pte (pt_entry t d va) e s) A" by (rule leaf_grows [OF inv at absent e(1,3)])
  show "vm_leaf (mem (set_pte (pt_entry t d va) e s)) (pgdir s) va' =
      (if same_path (Suc d) va va' then Some (d, pt_entry t d va) else vm_leaf (mem s) (pgdir s) va')"
    using set_entry_leaf_eq [OF ok at absent _ e(2), of va'] e(3) same_path_entry [OF ok at, of va']
    by (simp add: set_pte_def)
  show "load64 (mem (set_pte (pt_entry t d va) e s)) (pt_entry t d va) = e" by (simp add: set_pte_def)
qed

lemma new_user_leaf:
  assumes inv: "vm_inv K s A" and at: "tab (mem s) (pgdir s) va d = Some t"
    and absent: "load64 (mem s) (pt_entry t d va) AND PG_P = 0"
    and flag: "bit flag 0" "\<And>i. bit flag i \<Longrightarrow> i < 12" and leaf: "d = 3 \<or> d = 2 \<and> bit flag 7"
    and pages: "0 < pm_pages A"
  obtains page s1 A' where "pmalloc K PM_4K s = Inr (page, s1)"
    and "vm_grows K s A (set_pte (pt_entry t d va) (page OR flag) s1) A'"
    and "load64 (mem (set_pte (pt_entry t d va) (page OR flag) s1)) (pt_entry t d va) = page OR flag"
    and "\<And>va'. vm_leaf (mem (set_pte (pt_entry t d va) (page OR flag) s1)) (pgdir s) va' =
      (if same_path (Suc d) va va' then Some (d, pt_entry t d va) else vm_leaf (mem s) (pgdir s) va')"
    and "pm_pages A = Suc (pm_pages A')" and "pte_frame (page OR flag) = page"
    and "(page OR flag) AND PG_P \<noteq> 0" and "table_ok A' page"
    and "\<And>x. in_block 4096 page (unat x) \<Longrightarrow>
      mem (set_pte (pt_entry t d va) (page OR flag) s1) x = 0"
    and "\<And>x. in_block 4096 page x \<Longrightarrow> cover A x = 1"
    and "\<And>x. in_block 4096 page x \<Longrightarrow> x \<notin> vm_bytes (mem (set_pte (pt_entry t d va) (page OR flag) s1)) (pgdir s)"
proof -
  obtain page A' s1 where g: "pmalloc K PM_4K s = Inr (page, s1)" "pm_granted K 4096 s A page A' s1"
    "pm_aligned A'" "4096 dvd unat page" "pm_pages A = Suc (pm_pages A')" "blocks_kept A A'"
    using page_grant [OF _ _ pages] inv unfolding vm_inv_def by metis
  let ?s' = "set_pte (pt_entry t d va) (page OR flag) s1"
  note gr = table_grows [OF inv at absent g(2,3,4,6) flag]
  note g1 = granted_grows [OF inv g(2,3,4,6)]
  have ok: "vm_ok (mem s) (pgdir s) A" using inv by (simp add: vm_inv_def)
  have r: "pgdir s1 = pgdir s" using vm_grows_same [OF g1(1)] by simp
  have inv1: "vm_inv K s1 A'" using g1(1) by (simp add: vm_grows_def)
  then have ok1: "vm_ok (mem s1) (pgdir s1) A'" by (simp add: vm_inv_def)
  have same: "mem s1 x = mem s x" if "cover A (unat x) = 0" for x using g(2) that by (simp add: pm_granted_def)
  have at1: "tab (mem s1) (pgdir s1) va d = Some t" unfolding r using at tab_frame_tab [OF ok same] by simp
  have abs1: "load64 (mem s1) (pt_entry t d va) AND PG_P = 0"
    using absent tab_frame_load [OF ok same at] by simp
  have tok: "table_ok A' page" using g1(2) by (simp add: fresh_table_def)
  then have small: "unat (page OR flag) < phys_limit"
    by (intro or_flag_small flag) (auto simp: table_ok_def)
  have nd: "\<not> descends d (page OR flag)"
    using leaf large_bit [of "page OR flag"] by (auto simp: descends_def bit_or_iff)
  have "vm_leaf (mem ?s') (pgdir s) va' =
      (if same_path (Suc d) va va' then Some (d, pt_entry t d va) else vm_leaf (mem s) (pgdir s) va')" for va'
    using new_leaf(2) [OF inv1 at1 abs1 small gr(4) nd, of va'] vm_leaf_frame_eq [OF ok same, of va']
    unfolding r by simp
  moreover have "cover A x = 1" if "in_block 4096 page x" for x
  proof -
    have "cover A' x + 1 = cover A x" "cover A x \<le> 1"
      using g(2) that by (auto simp: pm_granted_def dest!: spec [of _ x])
    then show ?thesis by simp
  qed
  moreover have "x \<notin> vm_bytes (mem ?s') (pgdir s)" if "in_block 4096 page x" for x
  proof -
    have "tab (mem ?s') (pgdir s) va' d' = tab (mem s1) (pgdir s1) va' d'" for va' d'
      using gr(6) [of va' d'] nd tab_frame_tab [OF ok same, of va' d'] unfolding r by simp
    then have "vm_bytes (mem ?s') (pgdir s) = vm_bytes (mem s1) (pgdir s1)" by (simp add: vm_bytes_def)
    with g1(2) that show ?thesis by (simp add: fresh_table_def)
  qed
  ultimately show thesis using that [OF g(1) gr(1,2) _ g(5) gr(3,4) tok gr(5)] by blast
qed

lemma walk_level_ok:
  assumes inv: "vm_inv K s A" and at: "tab (mem s) (pgdir s) va d = Some t" and d: "d < 2"
    and flag: "pt_flag flag" and pages: "0 < pm_pages A \<or> load64 (mem s) (pt_entry t d va) AND PG_P \<noteq> 0"
  obtains s' A' where "walk_level K True (pt_entry t d va) flag s = Inr (True, s')"
    and "vm_grows K s A s' A'"
    and "tab (mem s') (pgdir s) va (Suc d) = Some (pte_table (load64 (mem s') (pt_entry t d va)))"
    and "\<And>va'. vm_leaf (mem s') (pgdir s) va' = vm_leaf (mem s) (pgdir s) va'"
    and "pm_pages A \<le> Suc (pm_pages A')"
    and "load64 (mem s) (pt_entry t d va) AND PG_P \<noteq> 0 \<Longrightarrow> s' = s \<and> A' = A"
    and "\<And>va'. tab (mem s') (pgdir s) va' 3 = tab (mem s) (pgdir s) va' 3"
proof (cases "load64 (mem s) (pt_entry t d va) AND PG_P = 0")
  case True
  with pages have pages: "0 < pm_pages A" by simp
  have d3: "d < 3" using d by simp
  show thesis
  proof (rule new_table [OF inv at d3 True flag pages])
    fix page s1 A'
    let ?s' = "set_pte (pt_entry t d va) (page OR flag) s1"
    assume al: "pmalloc K PM_4K s = Inr (page, s1)" and gr: "vm_grows K s A ?s' A'"
      and ds: "descends d (page OR flag)" and ld: "load64 (mem ?s') (pt_entry t d va) = page OR flag"
      and at1: "tab (mem ?s') (pgdir s) va d = Some t"
      and lf: "\<And>va'. vm_leaf (mem ?s') (pgdir s) va' = vm_leaf (mem s) (pgdir s) va'"
      and pg: "pm_pages A = Suc (pm_pages A')"
      and t3: "\<And>va'. d < 2 \<Longrightarrow> tab (mem ?s') (pgdir s) va' 3 = tab (mem s) (pgdir s) va' 3"
    have ok: "vm_ok (mem ?s') (pgdir s) A'"
      using gr vm_grows_same [OF gr] by (simp add: vm_grows_def vm_inv_def)
    have "tab (mem ?s') (pgdir s) va (Suc d) = Some (pte_table (load64 (mem ?s') (pt_entry t d va)))"
      by (rule tab_next [OF ok at1]) (simp add: ds ld)
    moreover have "walk_level K True (pt_entry t d va) flag s = Inr (True, ?s')"
      using True al by (simp add: walk_level_def)
    ultimately show thesis using that [of ?s' A'] gr lf pg True t3 [OF d] by simp
  qed
next
  case False
  have ok: "vm_ok (mem s) (pgdir s) A" using inv by (simp add: vm_inv_def)
  have "tab (mem s) (pgdir s) va (Suc d) = Some (pte_table (load64 (mem s) (pt_entry t d va)))"
    by (rule tab_next [OF ok at]) (use False d in \<open>simp add: descends_def\<close>)
  with False show thesis
    using that [of s A] vm_grows_refl [OF inv] by (simp add: walk_level_def)
qed

text \<open>What a creating walk promises for the address it is given.\<close>

definition vm_mapped ::
  "klayout \<Rightarrow> kstate \<Rightarrow> pm_abs \<Rightarrow> uint64 \<Rightarrow> nat \<Rightarrow> uint64 \<Rightarrow> kstate \<Rightarrow> pm_abs \<Rightarrow> bool" where
  "vm_mapped K s A va d p s' A' \<longleftrightarrow> vm_grows K s A s' A' \<and>
     vm_leaf (mem s') (pgdir s) va = Some (d, p) \<and>
     (\<forall>va'. vm_leaf (mem s') (pgdir s) va' =
        (if vm_leaf (mem s) (pgdir s) va = None \<and> same_path (Suc d) va va' then Some (d, p)
         else vm_leaf (mem s) (pgdir s) va')) \<and>
     (vm_leaf (mem s) (pgdir s) va = None \<longrightarrow>
        (if va < USER_ADDR_START then leaf_addr d (load64 (mem s') p) va = va
         else \<exists>page. pte_frame (load64 (mem s') p) = page \<and> table_ok A' page \<and>
           (\<forall>x. in_block 4096 page (unat x) \<longrightarrow> mem s' x = 0) \<and>
           (\<forall>x. in_block 4096 page x \<longrightarrow> cover A x = 1) \<and>
           (\<forall>x. in_block 4096 page x \<longrightarrow> x \<notin> vm_bytes (mem s') (pgdir s))))"

lemma vm_mapped_after:
  assumes g: "vm_grows K s A s1 A1" and rel: "pm_rel K s A"
    and same: "\<And>va'. vm_leaf (mem s1) (pgdir s) va' = vm_leaf (mem s) (pgdir s) va'"
    and m: "vm_mapped K s1 A1 va d p s' A'"
  shows "vm_mapped K s A va d p s' A'"
proof -
  have r: "pgdir s1 = pgdir s" using vm_grows_same [OF g] by simp
  have "cover A x = 1" if "cover A1 x = 1" for x
    using g rel that unfolding vm_grows_def pm_rel_def by (metis le_antisym)
  moreover have "vm_grows K s A s' A'"
    using vm_grows_trans [OF g _ rel] m by (simp add: vm_mapped_def)
  ultimately show ?thesis using m unfolding vm_mapped_def r same by (auto split: if_splits)
qed

lemma vm_mapped_present:
  assumes inv: "vm_inv K s A" and "vm_leaf (mem s) (pgdir s) va = Some (d, p)"
  shows "vm_mapped K s A va d p s A"
  using assms vm_grows_refl [OF inv] by (simp add: vm_mapped_def)

lemma leaf_none:
  assumes "tab m r va d = Some t" and "load64 m (pt_entry t d va) AND PG_P = 0"
  shows "vm_leaf m r va = None"
proof (rule ccontr)
  assume "vm_leaf m r va \<noteq> None"
  then obtain d' p where "vm_leaf m r va = Some (d', p)" by auto
  then obtain t' where t': "tab m r va d' = Some t'" "p = pt_entry t' d' va"
    "load64 m p AND PG_P \<noteq> 0" "\<not> descends d' (load64 m p)" by (rule vm_leafD)
  consider "d < d'" | "d' < d" | "d = d'" by linarith
  then show False
  proof cases
    case 1
    from tab_beyond [OF t'(1) 1] assms show False by (auto simp: descends_def)
  next
    case 2
    from tab_beyond [OF assms(1) 2] t' show False by auto
  qed (use assms t' in auto)
qed

text \<open>Kernel addresses are mapped to themselves.\<close>

lemma kernel_small: "va < USER_ADDR_START \<Longrightarrow> unat va < phys_limit"
  by (simp add: USER_ADDR_START_def word_less_nat_alt)

lemma low_mask: "(0xFFF :: uint64) = mask 12" "(0x1FFFFF :: uint64) = mask 21"
  by (simp_all add: mask_numeral)

lemma identity_small:
  assumes va: "va < USER_ADDR_START" and flag: "pt_flag flag"
  shows "leaf_addr 3 (ROUNDDOWN va (KiB 4) OR flag) va = va"
proof (rule bit_eqI)
  fix i
  show "bit (leaf_addr 3 (ROUNDDOWN va (KiB 4) OR flag) va) i = bit va i"
    using bit_small [OF kernel_small [OF va], of i] bit_pt_flag(3) [OF flag, of i]
    by (auto simp: leaf_addr_def low_mask bit_or_iff bit_and_iff bit_mask_iff bit_pte_frame bit_ROUNDDOWN_KiB)
qed

lemma identity_large:
  assumes va: "va < USER_ADDR_START" and flag: "pt_flag flag"
  shows "leaf_addr 2 (ROUNDDOWN va (MiB 2) OR flag OR PG_PS) va = va"
proof (rule bit_eqI)
  fix i
  show "bit (leaf_addr 2 (ROUNDDOWN va (MiB 2) OR flag OR PG_PS) va) i = bit va i"
    using bit_small [OF kernel_small [OF va], of i] bit_pt_flag(3) [OF flag, of i]
    by (auto simp: leaf_addr_def low_mask bit_or_iff bit_and_iff bit_not_iff bit_mask_iff bit_pte_frame
        bit_ROUNDDOWN_MiB bit_PG_PS dest: bit_imp_le_length)
qed

lemma rounded_small:
  assumes "va < USER_ADDR_START"
  shows "unat (ROUNDDOWN va n) < phys_limit"
proof -
  have "ROUNDDOWN va n \<le> va" by (simp add: ROUNDDOWN_def word_and_le2)
  with kernel_small [OF assms] show ?thesis by (simp add: word_le_nat_alt)
qed

text \<open>The last level, and the level of the page directory, of a creating walk.\<close>

definition walk_pt :: "klayout \<Rightarrow> uint64 \<Rightarrow> uint64 \<Rightarrow> uint64 \<Rightarrow> kstate \<Rightarrow> (uint64 \<times> kstate) kres" where
  "walk_pt K va flag pte s =
     ebind
       (if load64 (mem s) pte AND PG_P = 0 then
          (if va < USER_ADDR_START then
             Inr (True, set_pte pte (ROUNDDOWN va (KiB 4) OR flag) s)
           else
             ebind (pmalloc K PM_4K s) (\<lambda>(page, s). Inr (True, set_pte pte (page OR flag) s)))
        else Inr (True, s)) (\<lambda>(ok, s). if \<not> ok then Inr (NULL, s) else Inr (pte, s))"

definition walk_pd :: "klayout \<Rightarrow> uint64 \<Rightarrow> bool \<Rightarrow> uint64 \<Rightarrow> uint64 \<Rightarrow> kstate \<Rightarrow> (uint64 \<times> kstate) kres" where
  "walk_pd K va large flag pde s =
     ebind
       (if load64 (mem s) pde AND PG_P = 0 then
          (if large then
             (if va < USER_ADDR_START then
                Inr (True, set_pte pde (ROUNDDOWN va (MiB 2) OR flag OR PG_PS) s)
              else
                ebind (pmalloc K PM_4K s) (\<lambda>(page, s).
                Inr (True, set_pte pde (page OR flag OR PG_PS) s)))
           else
             ebind (pmalloc K PM_4K s) (\<lambda>(page, s).
             Inr (True, set_pte pde (page OR flag) s)))
        else Inr (True, s)) (\<lambda>(ok, s).
     if \<not> ok then Inr (NULL, s)
     else if load64 (mem s) pde AND PG_PS \<noteq> 0 then Inr (pde, s)
     else walk_pt K va flag (pt_entry (pte_table (load64 (mem s) pde)) 3 va) s)"

lemma walk_pgdir_levels:
  assumes "walk_level K True p0 (PG_P OR PG_RW OR (if va \<ge> USER_ADDR_START then PG_US else 0)) s = Inr (True, s1)"
    and "walk_level K True p1 (PG_P OR PG_RW OR (if va \<ge> USER_ADDR_START then PG_US else 0)) s1 = Inr (True, s2)"
    and "p0 = pt_entry (ROUNDDOWN (pgdir s) (KiB 4)) 0 va"
    and "p1 = pt_entry (pte_table (load64 (mem s1) p0)) (Suc 0) va"
  shows "walk_pgdir K va True large s =
    walk_pd K va large (PG_P OR PG_RW OR (if va \<ge> USER_ADDR_START then PG_US else 0))
      (pt_entry (pte_table (load64 (mem s2) p1)) 2 va) s2"
proof -
  have "(PG_P OR PG_RW OR (if va \<ge> USER_ADDR_START then PG_US else 0)) =
      (if va \<ge> USER_ADDR_START then PG_P OR PG_RW OR PG_US else PG_P OR PG_RW)"
    by (simp add: or.assoc)
  then show ?thesis
    using assms unfolding walk_pgdir_def walk_pd_def walk_pt_def pt_entry_def pt_idx_macros Let_def
    by (simp add: or.assoc cong: if_cong)
qed

lemma walk_flag: "pt_flag (PG_P OR PG_RW OR (if va \<ge> USER_ADDR_START then PG_US else 0))"
  by (simp add: pt_flag_def PG_vals)

lemma walk_pt_ok:
  assumes inv: "vm_inv K s A" and at: "tab (mem s) (pgdir s) va 3 = Some t"
    and flag: "pt_flag flag" and pages: "0 < pm_pages A"
  obtains s' A' where "walk_pt K va flag (pt_entry t 3 va) s = Inr (pt_entry t 3 va, s')"
    and "vm_mapped K s A va 3 (pt_entry t 3 va) s' A'" and "pm_pages A \<le> Suc (pm_pages A')"
proof (cases "load64 (mem s) (pt_entry t 3 va) AND PG_P = 0")
  case absent: True
  then have none: "vm_leaf (mem s) (pgdir s) va = None" by (rule leaf_none [OF at])
  have sp: "same_path (Suc 3) va va" by (simp add: same_path_def)
  show thesis
  proof (cases "va < USER_ADDR_START")
    case True
    let ?e = "ROUNDDOWN va (KiB 4) OR flag"
    have "bit ?e 0" using bit_pt_flag(1) [OF flag] by (simp add: bit_or_iff)
    then have pr: "?e AND PG_P \<noteq> 0" by (simp only: present_bit)
    have small: "unat ?e < phys_limit" by (rule or_flag_small [OF rounded_small [OF True] bit_pt_flag(3) [OF flag]])
    have nd: "\<not> descends 3 ?e" by (simp add: descends_def)
    note nl = new_leaf [OF inv at absent small pr nd]
    have "vm_mapped K s A va 3 (pt_entry t 3 va) (set_pte (pt_entry t 3 va) ?e s) A"
      unfolding vm_mapped_def nl(2,3) using nl(1) none sp True identity_small [OF True flag] by simp
    moreover have "walk_pt K va flag (pt_entry t 3 va) s = Inr (pt_entry t 3 va, set_pte (pt_entry t 3 va) ?e s)"
      using absent True by (simp add: walk_pt_def)
    ultimately show thesis using that by simp
  next
    case False
    have leaf3: "(3 :: nat) = 3 \<or> (3 :: nat) = 2 \<and> bit flag 7" by simp
    show thesis
    proof (rule new_user_leaf [OF inv at absent bit_pt_flag(1,3) [OF flag] leaf3 pages])
      fix page s1 A'
      let ?s' = "set_pte (pt_entry t 3 va) (page OR flag) s1"
      assume al: "pmalloc K PM_4K s = Inr (page, s1)" and gr: "vm_grows K s A ?s' A'"
        and ld: "load64 (mem ?s') (pt_entry t 3 va) = page OR flag"
        and lf: "\<And>va'. vm_leaf (mem ?s') (pgdir s) va' =
          (if same_path (Suc 3) va va' then Some (3, pt_entry t 3 va) else vm_leaf (mem s) (pgdir s) va')"
        and pg: "pm_pages A = Suc (pm_pages A')" and fr: "pte_frame (page OR flag) = page"
        and tok: "table_ok A' page" and z: "\<And>x. in_block 4096 page (unat x) \<Longrightarrow> mem ?s' x = 0"
        and cv: "\<And>x. in_block 4096 page x \<Longrightarrow> cover A x = 1"
        and nb: "\<And>x. in_block 4096 page x \<Longrightarrow> x \<notin> vm_bytes (mem ?s') (pgdir s)"
      have "vm_mapped K s A va 3 (pt_entry t 3 va) ?s' A'"
        unfolding vm_mapped_def ld fr lf using gr none sp tok z cv nb False by simp
      moreover have "walk_pt K va flag (pt_entry t 3 va) s = Inr (pt_entry t 3 va, ?s')"
        using al absent False by (simp add: walk_pt_def)
      ultimately show thesis using that pg by simp
    qed
  qed
next
  case False
  have "vm_leaf (mem s) (pgdir s) va = Some (3, pt_entry t 3 va)"
    by (rule vm_leafI [OF at False]) (simp add: descends_def)
  from that [OF _ vm_mapped_present [OF inv this]] False show thesis by (simp add: walk_pt_def)
qed

text \<open>The new entry of the page directory: a large page, or a table and then the last level.\<close>

lemma walk_pd_large:
  assumes inv: "vm_inv K s A" and at: "tab (mem s) (pgdir s) va 2 = Some t"
    and absent: "load64 (mem s) (pt_entry t 2 va) AND PG_P = 0"
    and flag: "pt_flag flag" and pages: "va < USER_ADDR_START \<or> 0 < pm_pages A"
  obtains s' A' where "walk_pd K va True flag (pt_entry t 2 va) s = Inr (pt_entry t 2 va, s')"
    and "vm_mapped K s A va 2 (pt_entry t 2 va) s' A'" and "pm_pages A \<le> Suc (pm_pages A')"
    and "va < USER_ADDR_START \<Longrightarrow>
      A' = A \<and> (\<forall>va'. tab (mem s') (pgdir s) va' 3 = tab (mem s) (pgdir s) va' 3)"
proof -
  have ok: "vm_ok (mem s) (pgdir s) A" using inv by (simp add: vm_inv_def)
  have none: "vm_leaf (mem s) (pgdir s) va = None" by (rule leaf_none [OF at absent])
  have sp: "same_path (Suc 2) va va" by (simp add: same_path_def)
  have big: "bit (flag OR PG_PS) 0" "bit (flag OR PG_PS) 7" "\<And>i. bit (flag OR PG_PS) i \<Longrightarrow> i < 12"
    using bit_pt_flag [OF flag] by (auto simp: bit_or_iff bit_PG_PS)
  show thesis
  proof (cases "va < USER_ADDR_START")
    case True
    let ?e = "ROUNDDOWN va (MiB 2) OR flag OR PG_PS"
    let ?s' = "set_pte (pt_entry t 2 va) ?e s"
    have b: "bit ?e 0" "bit ?e 7" using big by (simp_all add: bit_or_iff)
    have pr: "?e AND PG_P \<noteq> 0" using b(1) by (simp only: present_bit)
    have lg: "?e AND PG_PS \<noteq> 0" using b(2) large_bit by blast
    have small: "unat ?e < phys_limit" unfolding or.assoc by (rule or_flag_small [OF rounded_small [OF True] big(3)])
    have nd: "\<not> descends 2 ?e" using lg by (simp add: descends_def)
    note nl = new_leaf [OF inv at absent small pr nd]
    have "vm_mapped K s A va 2 (pt_entry t 2 va) ?s' A"
      unfolding vm_mapped_def nl(2,3) using nl(1) none sp True identity_large [OF True flag] by simp
    moreover have "walk_pd K va True flag (pt_entry t 2 va) s = Inr (pt_entry t 2 va, ?s')"
      using absent True nl(3) lg by (simp add: walk_pd_def)
    moreover have "tab (mem ?s') (pgdir s) va' 3 = tab (mem s) (pgdir s) va' 3" for va'
      using set_entry_tab [OF ok at absent, of ?e va' 3] nd by (simp add: set_pte_def)
    ultimately show thesis using that [of ?s' A] by simp
  next
    case False
    with pages have pages: "0 < pm_pages A" by simp
    have leaf2: "(2 :: nat) = 3 \<or> (2 :: nat) = 2 \<and> bit (flag OR PG_PS) 7" using big by simp
    show thesis
    proof (rule new_user_leaf [OF inv at absent big(1,3) leaf2 pages])
      fix page s1 A'
      let ?s' = "set_pte (pt_entry t 2 va) (page OR (flag OR PG_PS)) s1"
      assume al: "pmalloc K PM_4K s = Inr (page, s1)" and gr: "vm_grows K s A ?s' A'"
        and ld: "load64 (mem ?s') (pt_entry t 2 va) = page OR (flag OR PG_PS)"
        and lf: "\<And>va'. vm_leaf (mem ?s') (pgdir s) va' =
          (if same_path (Suc 2) va va' then Some (2, pt_entry t 2 va) else vm_leaf (mem s) (pgdir s) va')"
        and pg: "pm_pages A = Suc (pm_pages A')" and fr: "pte_frame (page OR (flag OR PG_PS)) = page"
        and tok: "table_ok A' page" and z: "\<And>x. in_block 4096 page (unat x) \<Longrightarrow> mem ?s' x = 0"
        and cv: "\<And>x. in_block 4096 page x \<Longrightarrow> cover A x = 1"
        and nb: "\<And>x. in_block 4096 page x \<Longrightarrow> x \<notin> vm_bytes (mem ?s') (pgdir s)"
      have "vm_mapped K s A va 2 (pt_entry t 2 va) ?s' A'"
        unfolding vm_mapped_def ld fr lf using gr none sp tok z cv nb False by simp
      moreover have "bit (page OR (flag OR PG_PS)) 7" using big(2) by (simp add: bit_or_iff)
      then have "(page OR (flag OR PG_PS)) AND PG_PS \<noteq> 0" using large_bit by blast
      then have "walk_pd K va True flag (pt_entry t 2 va) s = Inr (pt_entry t 2 va, ?s')"
        using al absent False ld by (simp add: walk_pd_def or.assoc)
      ultimately show thesis using that False pg by simp
    qed
  qed
qed

lemma walk_pd_ok:
  assumes inv: "vm_inv K s A" and at: "tab (mem s) (pgdir s) va 2 = Some t"
    and flag: "pt_flag flag" and pages: "2 \<le> pm_pages A"
  obtains p d s' A' where "walk_pd K va large flag (pt_entry t 2 va) s = Inr (p, s')"
    and "vm_mapped K s A va d p s' A'" and "pm_pages A \<le> 2 + pm_pages A'"
    and "large \<or> d = 3 \<or> vm_leaf (mem s) (pgdir s) va \<noteq> None"
proof -
  have rel: "pm_rel K s A" and ok: "vm_ok (mem s) (pgdir s) A" using inv by (simp_all add: vm_inv_def)
  let ?p = "pt_entry t 2 va"
  show thesis
  proof (cases "load64 (mem s) ?p AND PG_P = 0")
    case absent: True
    show thesis
    proof (cases large)
      case True
      have "va < USER_ADDR_START \<or> 0 < pm_pages A" using pages by auto
      from walk_pd_large [OF inv at absent flag this] obtain s' A' where
        "walk_pd K va True flag ?p s = Inr (?p, s')" "vm_mapped K s A va 2 ?p s' A'"
        "pm_pages A \<le> Suc (pm_pages A')" by metis
      with that True show thesis by simp
    next
      case False
      have d3: "(2 :: nat) < 3" and pos: "0 < pm_pages A" using pages by simp_all
      show thesis
      proof (rule new_table [OF inv at d3 absent flag pos])
        fix page s1 A1
        let ?s = "set_pte ?p (page OR flag) s1"
        assume al: "pmalloc K PM_4K s = Inr (page, s1)" and gr: "vm_grows K s A ?s A1"
          and ds: "descends 2 (page OR flag)" and ld: "load64 (mem ?s) ?p = page OR flag"
          and at1: "tab (mem ?s) (pgdir s) va 2 = Some t"
          and lf: "\<And>va'. vm_leaf (mem ?s) (pgdir s) va' = vm_leaf (mem s) (pgdir s) va'"
          and pg: "pm_pages A = Suc (pm_pages A1)"
        have r: "pgdir ?s = pgdir s" using vm_grows_same [OF gr] by simp
        have inv1: "vm_inv K ?s A1" using gr by (simp add: vm_grows_def)
        then have ok1: "vm_ok (mem ?s) (pgdir ?s) A1" by (simp add: vm_inv_def)
        have "tab (mem ?s) (pgdir ?s) va (Suc 2) = Some (pte_table (load64 (mem ?s) ?p))"
          using tab_next [OF ok1, of va 2 t] at1 ds ld unfolding r by simp
        then have at3: "tab (mem ?s) (pgdir ?s) va 3 = Some (pte_table (page OR flag))"
          unfolding ld by simp
        have "0 < pm_pages A1" using pg pages by simp
        from walk_pt_ok [OF inv1 at3 flag this] obtain s' A' where
          w: "walk_pt K va flag (pt_entry (pte_table (page OR flag)) 3 va) ?s =
            Inr (pt_entry (pte_table (page OR flag)) 3 va, s')"
          and m: "vm_mapped K ?s A1 va 3 (pt_entry (pte_table (page OR flag)) 3 va) s' A'"
          and pg': "pm_pages A1 \<le> Suc (pm_pages A')" by blast
        have "(page OR flag) AND PG_PS = 0" using ds by (simp add: descends_def)
        then have "walk_pd K va large flag ?p s = Inr (pt_entry (pte_table (page OR flag)) 3 va, s')"
          using al absent False ld w by (simp add: walk_pd_def)
        with that vm_mapped_after [OF gr rel lf m] pg pg' show thesis by simp
      qed
    qed
  next
    case present: False
    show thesis
    proof (cases "load64 (mem s) ?p AND PG_PS = 0")
      case True
      then have ds: "descends 2 (load64 (mem s) ?p)" using present by (simp add: descends_def)
      have at3: "tab (mem s) (pgdir s) va 3 = Some (pte_table (load64 (mem s) ?p))"
        using tab_next [OF ok at ds] by simp
      have "0 < pm_pages A" using pages by simp
      from walk_pt_ok [OF inv at3 flag this] obtain s' A' where
        "walk_pt K va flag (pt_entry (pte_table (load64 (mem s) ?p)) 3 va) s =
          Inr (pt_entry (pte_table (load64 (mem s) ?p)) 3 va, s')"
        "vm_mapped K s A va 3 (pt_entry (pte_table (load64 (mem s) ?p)) 3 va) s' A'"
        "pm_pages A \<le> Suc (pm_pages A')" by blast
      with that present True show thesis by (simp add: walk_pd_def)
    next
      case False
      have "vm_leaf (mem s) (pgdir s) va = Some (2, ?p)"
        by (rule vm_leafI [OF at present]) (use False in \<open>simp add: descends_def\<close>)
      with that [OF _ vm_mapped_present [OF inv this]] present False show thesis
        by (simp add: walk_pd_def)
    qed
  qed
qed

text \<open>The whole walk.\<close>

lemma walk_upper_levels:
  fixes va large
  defines "flag \<equiv> PG_P OR PG_RW OR (if va \<ge> USER_ADDR_START then PG_US else 0)"
  assumes inv: "vm_inv K s A" and pages: "2 \<le> pm_pages A \<or> tab (mem s) (pgdir s) va 2 \<noteq> None"
  obtains t s2 A2 where "walk_pgdir K va True large s = walk_pd K va large flag (pt_entry t 2 va) s2"
    and "vm_grows K s A s2 A2" and "tab (mem s2) (pgdir s) va 2 = Some t"
    and "\<And>va'. vm_leaf (mem s2) (pgdir s) va' = vm_leaf (mem s) (pgdir s) va'"
    and "pm_pages A \<le> 2 + pm_pages A2" and "tab (mem s) (pgdir s) va 2 \<noteq> None \<Longrightarrow> A2 = A"
    and "\<And>va'. tab (mem s2) (pgdir s) va' 3 = tab (mem s) (pgdir s) va' 3"
proof -
  have rel: "pm_rel K s A" using inv by (simp add: vm_inv_def)
  have flag: "pt_flag flag" unfolding flag_def by (rule walk_flag)
  let ?p0 = "pt_entry (pgdir s) 0 va"
  have root: "ROUNDDOWN (pgdir s) (KiB 4) = pgdir s"
    using vm_inv_root [OF inv] by (simp add: table_ok_def ROUNDDOWN_aligned)
  have at0: "tab (mem s) (pgdir s) va 0 = Some (pgdir s)" by simp
  have there: "load64 (mem s) ?p0 AND PG_P \<noteq> 0" if t2: "tab (mem s) (pgdir s) va 2 \<noteq> None"
    using t2 tab_beyond [of "mem s" "pgdir s" va 2 _ 0] by (auto simp: descends_def)
  have z2: "(0 :: nat) < 2" and o2: "(Suc 0) < 2" by simp_all
  have pg0: "0 < pm_pages A \<or> load64 (mem s) ?p0 AND PG_P \<noteq> 0" using pages there by auto
  obtain s1 A1 where l0: "walk_level K True ?p0 flag s = Inr (True, s1)" "vm_grows K s A s1 A1"
    "tab (mem s1) (pgdir s) va (Suc 0) = Some (pte_table (load64 (mem s1) ?p0))"
    "\<And>va'. vm_leaf (mem s1) (pgdir s) va' = vm_leaf (mem s) (pgdir s) va'"
    "pm_pages A \<le> Suc (pm_pages A1)" "load64 (mem s) ?p0 AND PG_P \<noteq> 0 \<Longrightarrow> s1 = s \<and> A1 = A"
    "\<And>va'. tab (mem s1) (pgdir s) va' 3 = tab (mem s) (pgdir s) va' 3"
    by (rule walk_level_ok [OF inv at0 z2 flag pg0]) blast
  have r: "pgdir s1 = pgdir s" using vm_grows_same [OF l0(2)] by simp
  have inv1: "vm_inv K s1 A1" using l0(2) by (simp add: vm_grows_def)
  let ?p1 = "pt_entry (pte_table (load64 (mem s1) ?p0)) (Suc 0) va"
  have at1: "tab (mem s1) (pgdir s1) va (Suc 0) = Some (pte_table (load64 (mem s1) ?p0))"
    using l0(3) unfolding r .
  have there1: "load64 (mem s1) ?p1 AND PG_P \<noteq> 0 \<and> s1 = s \<and> A1 = A"
    if t2: "tab (mem s) (pgdir s) va 2 \<noteq> None"
  proof -
    from t2 obtain t where t: "tab (mem s) (pgdir s) va 2 = Some t" by auto
    have s1: "s1 = s \<and> A1 = A" using l0(6) there t2 by blast
    from tab_beyond [OF t, of "Suc 0"] at1 s1 show ?thesis by (auto simp: descends_def)
  qed
  have pg1: "0 < pm_pages A1 \<or> load64 (mem s1) ?p1 AND PG_P \<noteq> 0" using pages there1 l0(5) by auto
  obtain s2 A2 where l1: "walk_level K True ?p1 flag s1 = Inr (True, s2)" "vm_grows K s1 A1 s2 A2"
    "tab (mem s2) (pgdir s1) va (Suc (Suc 0)) = Some (pte_table (load64 (mem s2) ?p1))"
    "\<And>va'. vm_leaf (mem s2) (pgdir s1) va' = vm_leaf (mem s1) (pgdir s1) va'"
    "pm_pages A1 \<le> Suc (pm_pages A2)" "load64 (mem s1) ?p1 AND PG_P \<noteq> 0 \<Longrightarrow> s2 = s1 \<and> A2 = A1"
    "\<And>va'. tab (mem s2) (pgdir s1) va' 3 = tab (mem s1) (pgdir s1) va' 3"
    by (rule walk_level_ok [OF inv1 at1 o2 flag pg1]) blast
  show thesis
  proof (rule that)
    show "walk_pgdir K va True large s =
        walk_pd K va large flag (pt_entry (pte_table (load64 (mem s2) ?p1)) 2 va) s2"
      unfolding flag_def
      by (rule walk_pgdir_levels [OF l0(1) [unfolded flag_def] l1(1) [unfolded flag_def]])
        (simp_all add: root)
    show "vm_grows K s A s2 A2" by (rule vm_grows_trans [OF l0(2) l1(2) rel])
    show "tab (mem s2) (pgdir s) va 2 = Some (pte_table (load64 (mem s2) ?p1))"
      using l1(3) unfolding r numeral_2_eq_2 .
    show "vm_leaf (mem s2) (pgdir s) va' = vm_leaf (mem s) (pgdir s) va'" for va'
      using l0(4) l1(4) unfolding r by simp
    show "pm_pages A \<le> 2 + pm_pages A2" using l0(5) l1(5) by simp
    show "A2 = A" if "tab (mem s) (pgdir s) va 2 \<noteq> None" using there1 [OF that] l1(6) by blast
    show "tab (mem s2) (pgdir s) va' 3 = tab (mem s) (pgdir s) va' 3" for va'
      using l0(7) l1(7) unfolding r by simp
  qed
qed

lemma walk_creates:
  assumes inv: "vm_inv K s A" and pages: "4 \<le> pm_pages A"
  obtains p d s' A' where "walk_pgdir K va True large s = Inr (p, s')"
    and "vm_mapped K s A va d p s' A'" and "pm_pages A \<le> 4 + pm_pages A'"
    and "large \<or> d = 3 \<or> vm_leaf (mem s) (pgdir s) va \<noteq> None"
proof -
  have rel: "pm_rel K s A" using inv by (simp add: vm_inv_def)
  have pg: "2 \<le> pm_pages A \<or> tab (mem s) (pgdir s) va 2 \<noteq> None" using pages by simp
  show thesis
  proof (rule walk_upper_levels [OF inv pg, of large])
    fix t s2 A2
    let ?flag = "PG_P OR PG_RW OR (if va \<ge> USER_ADDR_START then PG_US else 0)"
    assume w: "walk_pgdir K va True large s = walk_pd K va large ?flag (pt_entry t 2 va) s2"
      and gr: "vm_grows K s A s2 A2" and at: "tab (mem s2) (pgdir s) va 2 = Some t"
      and lf: "\<And>va'. vm_leaf (mem s2) (pgdir s) va' = vm_leaf (mem s) (pgdir s) va'"
      and pg2: "pm_pages A \<le> 2 + pm_pages A2"
    have inv2: "vm_inv K s2 A2" using gr by (simp add: vm_grows_def)
    have at2: "tab (mem s2) (pgdir s2) va 2 = Some t" using at vm_grows_same [OF gr] by simp
    have "2 \<le> pm_pages A2" using pages pg2 by simp
    from walk_pd_ok [OF inv2 at2 walk_flag this] obtain p d s' A' where
      "walk_pd K va large ?flag (pt_entry t 2 va) s2 = Inr (p, s')"
      and m: "vm_mapped K s2 A2 va d p s' A'" and "pm_pages A2 \<le> 2 + pm_pages A'"
      and "large \<or> d = 3 \<or> vm_leaf (mem s2) (pgdir s2) va \<noteq> None" by metis
    moreover have "vm_leaf (mem s2) (pgdir s2) va = vm_leaf (mem s) (pgdir s) va"
      using lf vm_grows_same [OF gr] by simp
    ultimately show thesis using that w vm_mapped_after [OF gr rel lf m] pg2 by simp
  qed
qed

section \<open>Start-up\<close>

lemma walk_kernel_large:
  assumes inv: "vm_inv K s A" and va: "va < USER_ADDR_START" and flat: "tab (mem s) (pgdir s) va 3 = None"
    and pages: "2 \<le> pm_pages A \<or> tab (mem s) (pgdir s) va 2 \<noteq> None"
  obtains p s' A' where "walk_pgdir K va True True s = Inr (p, s')" and "vm_mapped K s A va 2 p s' A'"
    and "pm_pages A \<le> 2 + pm_pages A'" and "tab (mem s) (pgdir s) va 2 \<noteq> None \<Longrightarrow> A' = A"
    and "\<And>va'. tab (mem s') (pgdir s) va' 3 = tab (mem s) (pgdir s) va' 3"
proof -
  have rel: "pm_rel K s A" using inv by (simp add: vm_inv_def)
  show thesis
  proof (rule walk_upper_levels [OF inv pages, of True])
    fix t s2 A2
    let ?flag = "PG_P OR PG_RW OR (if va \<ge> USER_ADDR_START then PG_US else 0)"
    assume w: "walk_pgdir K va True True s = walk_pd K va True ?flag (pt_entry t 2 va) s2"
      and gr: "vm_grows K s A s2 A2" and at: "tab (mem s2) (pgdir s) va 2 = Some t"
      and lf: "\<And>va'. vm_leaf (mem s2) (pgdir s) va' = vm_leaf (mem s) (pgdir s) va'"
      and pg2: "pm_pages A \<le> 2 + pm_pages A2"
      and same: "tab (mem s) (pgdir s) va 2 \<noteq> None \<Longrightarrow> A2 = A"
      and t3: "\<And>va'. tab (mem s2) (pgdir s) va' 3 = tab (mem s) (pgdir s) va' 3"
    have inv2: "vm_inv K s2 A2" using gr by (simp add: vm_grows_def)
    have r: "pgdir s2 = pgdir s" using vm_grows_same [OF gr] by simp
    have at2: "tab (mem s2) (pgdir s2) va 2 = Some t" using at r by simp
    show thesis
    proof (cases "load64 (mem s2) (pt_entry t 2 va) AND PG_P = 0")
      case True
      show thesis
      proof (rule walk_pd_large [OF inv2 at2 True walk_flag disjI1 [OF va]])
        fix s' A'
        assume "walk_pd K va True ?flag (pt_entry t 2 va) s2 = Inr (pt_entry t 2 va, s')"
          and m: "vm_mapped K s2 A2 va 2 (pt_entry t 2 va) s' A'"
          and "va < USER_ADDR_START \<Longrightarrow>
            A' = A2 \<and> (\<forall>va'. tab (mem s') (pgdir s2) va' 3 = tab (mem s2) (pgdir s2) va' 3)"
        with that w vm_mapped_after [OF gr rel lf m] va pg2 same t3 r show thesis by simp
      qed
    next
      case False
      have "load64 (mem s2) (pt_entry t 2 va) AND PG_PS \<noteq> 0"
        using False at t3 [of va] flat by (auto simp: tab_3 descends_def Let_def split: if_splits)
      moreover have "vm_leaf (mem s2) (pgdir s2) va = Some (2, pt_entry t 2 va)"
        by (rule vm_leafI [OF at2 False]) (use calculation in \<open>simp add: descends_def\<close>)
      ultimately show thesis
        using that [OF _ vm_mapped_after [OF gr rel lf vm_mapped_present [OF inv2]]] w False pg2 same t3
        by (simp add: walk_pd_def)
    qed
  qed
qed

lemma vm_leaf_tab2:
  assumes "vm_leaf m r va = Some (d, p)"
  shows "tab m r va 2 \<noteq> None"
  using assms by (auto simp: vm_leaf_def split: option.splits)

text \<open>The user half of the address space, up to the canonical limit.\<close>

definition user_va :: "uint64 \<Rightarrow> bool" where
  "user_va va \<longleftrightarrow> USER_ADDR_START \<le> va \<and> va < 0x800000000000"

text \<open>A tree in which every mapping is a large page that maps to itself, and no user address is mapped.\<close>

definition vm_flat :: "kstate \<Rightarrow> bool" where
  "vm_flat s \<longleftrightarrow> (\<forall>va. tab (mem s) (pgdir s) va 3 = None) \<and>
     (\<forall>va d p. vm_leaf (mem s) (pgdir s) va = Some (d, p) \<longrightarrow> va < USER_ADDR_START \<longrightarrow>
        leaf_addr d (load64 (mem s) p) va = va) \<and>
     (\<forall>va. user_va va \<longrightarrow> vm_leaf (mem s) (pgdir s) va = None)"

lemma same_path_mono: "d \<le> d' \<Longrightarrow> same_path d' va va' \<Longrightarrow> same_path d va va'"
  by (auto simp: same_path_def)

lemma bit_pt_idx: "bit (pt_idx d w) n \<longleftrightarrow> n < 9 \<and> bit w (39 - 9 * d + n)"
proof -
  have m9: "(0x1FF :: uint64) = mask 9" by (simp add: mask_numeral)
  show ?thesis unfolding pt_idx_def m9 by (auto simp: bit_and_iff bit_mask_iff bit_drop_bit_eq)
qed

lemma same_path_bits:
  assumes "same_path 3 va va'" and "21 \<le> i" and "i < 48"
  shows "bit va i = bit va' i"
proof -
  have eq: "bit va (39 - 9 * d + n) = bit va' (39 - 9 * d + n)" if "d < 3" "n < 9" for d n
    using assms(1) that bit_pt_idx [of d va n] bit_pt_idx [of d va' n] by (auto simp: same_path_def)
  have "i = 39 - 9 * 0 + (i - 39) \<and> i - 39 < 9 \<or> i = 39 - 9 * 1 + (i - 30) \<and> i - 30 < 9 \<or>
      i = 39 - 9 * 2 + (i - 21) \<and> i - 21 < 9" using assms(2,3) by linarith
  then show ?thesis using eq [of 0 "i - 39"] eq [of 1 "i - 30"] eq [of 2 "i - 21"] by auto
qed

lemma bit_below: "bit w i \<Longrightarrow> unat (w :: uint64) < 2 ^ k \<Longrightarrow> i < k"
proof -
  assume b: "bit w i" and "unat w < 2 ^ k"
  then have "take_bit k (unat w) = unat w" by (intro take_bit_nat_eq_self)
  moreover have "bit (unat w) i" using b by (simp add: bit_unsigned_iff)
  ultimately have "bit (take_bit k (unat w)) i" by simp
  then show ?thesis by (simp add: bit_take_bit_iff)
qed

lemma low_user_apart:
  assumes low: "va < USER_ADDR_START" and user: "user_va va'"
  shows "\<not> same_path 3 va va'"
proof
  assume sp: "same_path 3 va va'"
  have l: "unat va < 2 ^ 40" and u: "unat va' < 2 ^ 47" "2 ^ 40 \<le> unat va'"
    using low user by (simp_all add: user_va_def USER_ADDR_START_def word_less_nat_alt word_le_nat_alt)
  have "bit (take_bit 40 va') i = bit va' i" for i
    using bit_below [OF _ l, of i] bit_below [OF _ u(1), of i] same_path_bits [OF sp, of i]
    by (cases "i < 40") (auto simp: bit_take_bit_iff)
  then have "take_bit 40 va' = va'" by (intro bit_eqI) simp
  then have "take_bit 40 (unat va') = unat va'" by (metis unsigned_take_bit_eq)
  then have "unat va' < 2 ^ 40" using take_bit_nat_less_exp [of 40 "unat va'"] by simp
  with u(2) show False by simp
qed

lemma leaf_addr_region:
  assumes id: "leaf_addr 2 e va = va" and sp: "same_path 3 va va'"
    and va: "va < USER_ADDR_START" "va' < USER_ADDR_START"
  shows "leaf_addr 2 e va' = va'"
proof (rule bit_eqI)
  fix i
  have la: "bit (leaf_addr 2 e w) i \<longleftrightarrow> 21 \<le> i \<and> bit (pte_frame e) i \<or> i < 21 \<and> bit w i" for w
    by (auto simp: leaf_addr_def low_mask bit_or_iff bit_and_iff bit_not_iff bit_mask_iff
        dest: bit_imp_le_length)
  have big: "i < 40" if "bit w i" "w < USER_ADDR_START" for w
  proof -
    have "bit (take_bit 40 (unat w)) i"
      using that by (simp add: bit_unsigned_iff take_bit_nat_eq_self USER_ADDR_START_def word_less_nat_alt)
    then show ?thesis by (simp add: bit_take_bit_iff)
  qed
  show "bit (leaf_addr 2 e va') i = bit va' i"
    using la [of va'] la [of va] id same_path_bits [OF sp, of i] big [OF _ va(1)] big [OF _ va(2)]
    by (cases "21 \<le> i"; cases "i < 48") auto
qed

lemma vm_flat_step:
  assumes flat: "vm_flat s" and m: "vm_mapped K s A va 2 p s' A'" and va: "va < USER_ADDR_START"
    and t3: "\<And>va'. tab (mem s') (pgdir s) va' 3 = tab (mem s) (pgdir s) va' 3"
  shows "vm_flat s'"
proof -
  have gr: "vm_grows K s A s' A'" using m by (simp add: vm_mapped_def)
  have r: "pgdir s' = pgdir s" using vm_grows_same [OF gr] by simp
  have "leaf_addr d (load64 (mem s') q) va' = va'"
    if lf: "vm_leaf (mem s') (pgdir s) va' = Some (d, q)" and va': "va' < USER_ADDR_START" for va' d q
  proof (cases "vm_leaf (mem s) (pgdir s) va = None \<and> same_path (Suc 2) va va'")
    case True
    then have dq: "d = 2" "q = p" using m lf by (simp_all add: vm_mapped_def)
    have "leaf_addr 2 (load64 (mem s') p) va = va" using m True va by (simp add: vm_mapped_def)
    then show ?thesis unfolding dq using leaf_addr_region True va va' by simp
  next
    case False
    then have old: "vm_leaf (mem s) (pgdir s) va' = Some (d, q)" using m lf unfolding vm_mapped_def by metis
    then have "load64 (mem s') q = load64 (mem s) q" using gr unfolding vm_grows_def by blast
    with flat old va' show ?thesis by (simp add: vm_flat_def)
  qed
  moreover have "vm_leaf (mem s') (pgdir s) va' = None" if "user_va va'" for va'
  proof -
    have "\<not> same_path (Suc 2) va va'" using low_user_apart [OF va that] by simp
    then have "vm_leaf (mem s') (pgdir s) va' = vm_leaf (mem s) (pgdir s) va'" using m unfolding vm_mapped_def by metis
    with flat that show ?thesis by (simp add: vm_flat_def)
  qed
  ultimately show ?thesis using flat t3 unfolding vm_flat_def r by simp
qed

text \<open>A stretch of the loop that stays below one entry of the second level costs two pages at most.\<close>

lemma vm_map_stretch:
  assumes "vm_inv K s A" and "vm_flat s" and "\<forall>va \<in> set vas. va < USER_ADDR_START"
    and "\<forall>va \<in> set vas. same_path 2 va0 va"
    and "2 \<le> pm_pages A \<or> tab (mem s) (pgdir s) va0 2 \<noteq> None"
  shows "\<exists>s' A'. vm_map_loop K vas s = Inr s' \<and> vm_grows K s A s' A' \<and> vm_flat s' \<and>
    (\<forall>va \<in> set vas. \<forall>va'. same_path 3 va va' \<longrightarrow> vm_leaf (mem s') (pgdir s) va' \<noteq> None) \<and>
    pm_pages A \<le> 2 + pm_pages A' \<and> (tab (mem s) (pgdir s) va0 2 \<noteq> None \<longrightarrow> A' = A)"
  using assms
proof (induction vas arbitrary: s A)
  case Nil
  with vm_grows_refl [of K s A] show ?case by auto
next
  case (Cons va vas)
  from Cons.prems have inv: "vm_inv K s A" and flat: "vm_flat s" and va: "va < USER_ADDR_START"
    and sp: "same_path 2 va0 va" and rel: "pm_rel K s A" by (simp_all add: vm_inv_def)
  have tab0: "tab m r va 2 = tab m r va0 2" for m r using tab_same_path [OF sp] by simp
  have pages: "2 \<le> pm_pages A \<or> tab (mem s) (pgdir s) va 2 \<noteq> None" using Cons.prems(5) by (simp add: tab0)
  have t3: "tab (mem s) (pgdir s) va 3 = None" using flat by (simp add: vm_flat_def)
  obtain p s1 A1 where w: "walk_pgdir K va True True s = Inr (p, s1)" "vm_mapped K s A va 2 p s1 A1"
    "pm_pages A \<le> 2 + pm_pages A1" "tab (mem s) (pgdir s) va 2 \<noteq> None \<Longrightarrow> A1 = A"
    "\<And>va'. tab (mem s1) (pgdir s) va' 3 = tab (mem s) (pgdir s) va' 3"
    by (rule walk_kernel_large [OF inv va t3 pages]) blast
  have gr1: "vm_grows K s A s1 A1" and lf1: "vm_leaf (mem s1) (pgdir s) va = Some (2, p)"
    using w(2) unfolding vm_mapped_def by blast+
  have r: "pgdir s1 = pgdir s" using vm_grows_same [OF gr1] by simp
  have inv1: "vm_inv K s1 A1" using gr1 by (simp add: vm_grows_def)
  have flat1: "vm_flat s1" by (rule vm_flat_step [OF flat w(2) va w(5)])
  have pd1: "tab (mem s1) (pgdir s1) va0 2 \<noteq> None" using vm_leaf_tab2 [OF lf1] unfolding r tab0 .
  have "\<forall>va \<in> set vas. va < USER_ADDR_START" "\<forall>va \<in> set vas. same_path 2 va0 va"
    using Cons.prems by simp_all
  from Cons.IH [OF inv1 flat1 this disjI2 [OF pd1]] obtain s' where
    l: "vm_map_loop K vas s1 = Inr s'" "vm_grows K s1 A1 s' A1" "vm_flat s'"
    "\<And>va va'. va \<in> set vas \<Longrightarrow> same_path 3 va va' \<Longrightarrow> vm_leaf (mem s') (pgdir s1) va' \<noteq> None"
    using pd1 by blast
  have "p \<noteq> NULL"
  proof -
    from lf1 obtain t where t: "tab (mem s1) (pgdir s) va 2 = Some t" "p = pt_entry t 2 va" by (rule vm_leafD)
    have "vm_ok (mem s1) (pgdir s) A1" using inv1 r by (simp add: vm_inv_def)
    from pt_entry_not_NULL [OF vm_okD(1) [OF this t(1)]] t(2) show ?thesis by simp
  qed
  moreover have "vm_leaf (mem s') (pgdir s) va' \<noteq> None" if "same_path 3 va va'" for va'
  proof -
    have "vm_leaf (mem s1) (pgdir s) va' \<noteq> None"
    proof (cases "vm_leaf (mem s) (pgdir s) va")
      case None
      with w(2) that show ?thesis by (simp add: vm_mapped_def)
    next
      case (Some dp)
      have "vm_leaf (mem s) (pgdir s) va = Some (2, p)"
        using w(2) Some unfolding vm_mapped_def by (metis option.distinct(1))
      then obtain t where t: "tab (mem s) (pgdir s) va 2 = Some t" "p = pt_entry t 2 va"
        "load64 (mem s) p AND PG_P \<noteq> 0" "\<not> descends 2 (load64 (mem s) p)" by (rule vm_leafD)
      have "same_path 2 va va'" "pt_idx 2 va' = pt_idx 2 va" using that by (simp_all add: same_path_def)
      then have "tab (mem s) (pgdir s) va' 2 = Some t" "p = pt_entry t 2 va'"
        using t tab_same_path [of 2 va va'] by (simp_all add: pt_entry_def)
      with t vm_leafI [of "mem s" "pgdir s" va' 2 t] have "vm_leaf (mem s) (pgdir s) va' = Some (2, p)"
        by simp
      with gr1 show ?thesis unfolding vm_grows_def by (metis option.distinct(1))
    qed
    then obtain d q where "vm_leaf (mem s1) (pgdir s1) va' = Some (d, q)" unfolding r by auto
    with l(2) r show ?thesis unfolding vm_grows_def by (metis option.distinct(1))
  qed
  moreover have "vm_grows K s A s' A1" by (rule vm_grows_trans [OF gr1 l(2) rel])
  ultimately show ?case
    using w(1,3,4) l(1,3,4) tab0 unfolding r
    by (intro exI [of _ s'] exI [of _ A1]) auto
qed

lemma vm_map_loop_append:
  "vm_map_loop K (xs @ ys) s = ebind (vm_map_loop K xs s) (vm_map_loop K ys)"
  by (induction xs arbitrary: s) (auto simp: ebind_assoc intro!: ebind_cong split: prod.splits)

lemma same_pathI:
  assumes "d \<le> 4" and "\<And>i. 48 - 9 * d \<le> i \<Longrightarrow> bit va i = bit va' i"
  shows "same_path d va va'"
proof -
  have "bit (pt_idx j va) n = bit (pt_idx j va') n" if "j < d" for j n
    using assms(2) [of "39 - 9 * j + n"] that assms(1) by (auto simp: bit_pt_idx)
  then show ?thesis unfolding same_path_def by (blast intro: bit_eqI)
qed

lemma large_bits: "bit (of_nat n * MiB 2) i \<longleftrightarrow> 21 \<le> i \<and> i < 64 \<and> bit n (i - 21)"
proof -
  have "of_nat n * MiB 2 = push_bit 21 (of_nat n :: uint64)" by (simp add: MiB_def push_bit_eq_mult)
  then show ?thesis by (auto simp: bit_push_bit_iff bit_of_nat_iff dest: bit_imp_le_length)
qed

lemma region_of:
  fixes va :: uint64
  shows "same_path 3 (of_nat (unat va div 2097152) * MiB 2) va"
proof (rule same_pathI)
  fix i :: nat assume i: "48 - 9 * 3 \<le> i"
  have "unat va div 2097152 = drop_bit 21 (unat va)" by (simp add: drop_bit_eq_div)
  then show "bit (of_nat (unat va div 2097152) * MiB 2) i = bit va i"
    using i by (auto simp: large_bits bit_drop_bit_eq bit_unsigned_iff dest: bit_imp_le_length)
qed simp

lemma stretch_path:
  assumes "n div 512 = k div 512"
  shows "same_path 2 (of_nat n * MiB 2) (of_nat k * MiB 2)"
proof (rule same_pathI)
  fix i :: nat assume i: "48 - 9 * 2 \<le> i"
  have "drop_bit 9 n = drop_bit 9 k" using assms by (simp add: drop_bit_eq_div)
  then have "bit n (9 + j) = bit k (9 + j)" for j by (metis bit_drop_bit_eq comp_apply)
  from this [of "i - 30"] i have "bit n (i - 21) = bit k (i - 21)" by simp
  then show "bit (of_nat n * MiB 2) i = bit (of_nat k * MiB 2) i" by (simp add: large_bits)
qed simp

text \<open>One gigabyte, and the whole range.\<close>

definition gigabyte :: "nat \<Rightarrow> uint64 list" where
  "gigabyte c = map (\<lambda>i. of_nat i * MiB 2) [512 * c..<512 * Suc c]"

lemma below_4G: "i < 2048 \<Longrightarrow> of_nat i * MiB 2 < USER_ADDR_START"
proof -
  assume "i < 2048"
  then have "unat (of_nat (i * 2097152) :: uint64) = i * 2097152" by (intro unat_of_nat_small) simp
  then have "unat (of_nat i * MiB 2) = i * 2097152" by (simp add: MiB_def mult.commute)
  with \<open>i < 2048\<close> show ?thesis by (simp add: word_less_nat_alt USER_ADDR_START_def)
qed

lemma gigabyte_path: "va \<in> set (gigabyte c) \<Longrightarrow> same_path 2 (of_nat (512 * c) * MiB 2) va"
  by (auto simp: gigabyte_def simp del: of_nat_mult intro!: stretch_path)

lemma vm_map_gigabytes:
  assumes "n \<le> 4" and "vm_inv K s A" and "vm_flat s" and "2 * n \<le> pm_pages A"
  shows "\<exists>s' A'. vm_map_loop K (concat (map gigabyte [0..<n])) s = Inr s' \<and> vm_grows K s A s' A' \<and>
    vm_flat s' \<and> pm_pages A \<le> 2 * n + pm_pages A' \<and>
    (\<forall>i<512 * n. \<forall>va'. same_path 3 (of_nat i * MiB 2) va' \<longrightarrow> vm_leaf (mem s') (pgdir s) va' \<noteq> None)"
  using assms
proof (induction n)
  case 0
  then show ?case using vm_grows_refl [of K s A] by auto
next
  case (Suc n)
  then obtain s1 A1 where 1: "vm_map_loop K (concat (map gigabyte [0..<n])) s = Inr s1"
    "vm_grows K s A s1 A1" "vm_flat s1" "pm_pages A \<le> 2 * n + pm_pages A1"
    "\<And>i va'. i < 512 * n \<Longrightarrow> same_path 3 (of_nat i * MiB 2) va' \<Longrightarrow> vm_leaf (mem s1) (pgdir s) va' \<noteq> None"
    by auto
  have r: "pgdir s1 = pgdir s" using vm_grows_same [OF 1(2)] by simp
  have inv1: "vm_inv K s1 A1" using 1(2) by (simp add: vm_grows_def)
  have low: "\<forall>va \<in> set (gigabyte n). va < USER_ADDR_START"
    using below_4G Suc.prems(1) by (auto simp: gigabyte_def)
  have path: "\<forall>va \<in> set (gigabyte n). same_path 2 (of_nat (512 * n) * MiB 2) va"
    using gigabyte_path by blast
  have pg: "2 \<le> pm_pages A1" using 1(4) Suc.prems(4) by simp
  from vm_map_stretch [OF inv1 1(3) low path disjI1 [OF pg]] obtain s2 A2 where
    2: "vm_map_loop K (gigabyte n) s1 = Inr s2" "vm_grows K s1 A1 s2 A2" "vm_flat s2"
    "\<And>va va'. va \<in> set (gigabyte n) \<Longrightarrow> same_path 3 va va' \<Longrightarrow> vm_leaf (mem s2) (pgdir s) va' \<noteq> None"
    "pm_pages A1 \<le> 2 + pm_pages A2" unfolding r by blast
  have "vm_leaf (mem s2) (pgdir s) va' \<noteq> None"
    if i: "i < 512 * Suc n" and sp: "same_path 3 (of_nat i * MiB 2) va'" for i va'
  proof (cases "i < 512 * n")
    case True
    from 1(5) [OF this sp] obtain d q where "vm_leaf (mem s1) (pgdir s) va' = Some (d, q)" by auto
    with 2(2) r show ?thesis unfolding vm_grows_def by (metis option.distinct(1))
  next
    case False
    with i have "of_nat i * MiB 2 \<in> set (gigabyte n)" by (auto simp: gigabyte_def)
    from 2(4) [OF this sp] show ?thesis .
  qed
  moreover have "vm_map_loop K (concat (map gigabyte [0..<Suc n])) s = Inr s2"
    using 1(1) 2(1) by (simp add: vm_map_loop_append)
  moreover have "vm_grows K s A s2 A2"
    using vm_grows_trans [OF 1(2) 2(2)] Suc.prems(2) by (simp add: vm_inv_def)
  ultimately show ?case using 1(4) 2(3,5) by (intro exI [of _ s2] exI [of _ A2]) auto
qed

lemma fresh_root:
  assumes rel: "pm_rel K s A" and al: "pm_aligned A" and pages: "0 < pm_pages A"
    and mt: "unat (memtotal s) \<le> phys_limit"
  obtains page s1 A1 where "pmalloc K PM_4K s = Inr (page, s1)" and "vm_inv K (s1\<lparr>pgdir := page\<rparr>) A1"
    and "vm_flat (s1\<lparr>pgdir := page\<rparr>)" and "pm_granted K 4096 s A page A1 s1"
    and "pm_pages A = Suc (pm_pages A1)" and "blocks_kept A A1"
    and "\<And>x. x \<in> vm_bytes (mem s1) page \<Longrightarrow> cover A x = 1"
proof -
  obtain page A1 s1 where g: "pmalloc K PM_4K s = Inr (page, s1)" "pm_granted K 4096 s A page A1 s1"
    "pm_aligned A1" "4096 dvd unat page" "pm_pages A = Suc (pm_pages A1)" "blocks_kept A A1"
    using page_grant [OF rel al pages] by metis
  have cov: "cover A1 x + of_bool (in_block 4096 page x) = cover A x" "cover A x \<le> 1" for x
    using g(2) by (simp_all add: pm_granted_def)
  have z: "mem s1 x = 0" if "in_block 4096 page (unat x)" for x using g(2) that by (simp add: pm_granted_def)
  have st: "s1 = s\<lparr>mem := mem s1, pmmap := pmmap s1\<rparr>" using g(2) by (simp add: pm_granted_def)
  have mt1: "memtotal s1 = memtotal s" by (subst st) simp
  have tok: "table_ok A1 page"
    unfolding table_ok_def
  proof (intro conjI allI impI)
    show "page \<noteq> 0" "unat page + 4096 \<le> phys_limit"
      using g(2) mt by (auto simp: pm_granted_def block_ok_def)
    show "cover A1 x = 0" if "in_block 4096 page x" for x using cov [of x] that by simp
  qed (rule g(4))
  have e0: "load64 (mem s1) (pt_entry page d va) = 0" for d va
    using pt_entry_bytes [OF tok] z by (intro load64_zeros) blast
  have only: "tab (mem s1) page va d = Some t \<longleftrightarrow> d = 0 \<and> t = page" for va d t
    using tab_beyond [of "mem s1" page va d t 0] e0 [of 0 va] by (cases d) (auto simp: descends_def)
  have ok: "vm_ok (mem s1) page A1" using only tok e0 by (auto simp: vm_ok_def same_path_def)
  have "pm_rel K (s1\<lparr>pgdir := page\<rparr>) A1"
    by (rule pm_rel_frame [of K s1 A1]) (use g(2) in \<open>simp_all add: pm_granted_def\<close>)
  then have inv: "vm_inv K (s1\<lparr>pgdir := page\<rparr>) A1" using ok g(3) mt mt1 by (simp add: vm_inv_def)
  have t3: "tab (mem s1) page va 3 = None" for va
    using only [of va 3] by (cases "tab (mem s1) page va 3") auto
  have lf: "vm_leaf (mem s1) page va = None" for va
    by (rule leaf_none [of _ _ _ 0 page]) (simp_all add: e0)
  have fl: "vm_flat (s1\<lparr>pgdir := page\<rparr>)" using t3 lf by (simp add: vm_flat_def)
  have "cover A x = 1" if "x \<in> vm_bytes (mem s1) page" for x
    using that only cov [of x] by (auto simp: vm_bytes_def)
  with that [OF g(1) inv fl g(2,5,6)] show thesis by blast
qed

lemma map_range: "map (\<lambda>i. of_nat i * MiB 2) [0..<unat (GiB 4 div MiB 2)] = concat (map gigabyte [0..<4])"
proof -
  have n: "unat (GiB 4 div MiB 2) = 2048" by (simp add: GiB_def MiB_def)
  have up: "[0..<4] = [0, 1, 2, Suc 2]" by (simp add: upt_rec)
  have "[0..<2048] = [0..<512] @ [512..<1024] @ [1024..<1536] @ [1536..<2048]"
    using upt_add_eq_append [of 0 512 512] upt_add_eq_append [of 0 1024 512]
      upt_add_eq_append [of 0 1536 512] by simp
  then show ?thesis unfolding n up by (simp add: gigabyte_def del: upt_rec_numeral)
qed

section \<open>Properties\<close>

text \<open>
  C3. A walk that may not create anything changes nothing and agrees with the processor: it
  returns \<^verbatim>\<open>NULL\<close> exactly when the processor finds no translation, and otherwise the address of
  the very entry from which the processor forms the physical address.
\<close>

theorem walk_agrees_with_processor:
  assumes "vm_inv K s A"
  shows "\<exists>p. walk_pgdir K va False large s = Inr (p, s) \<and>
    (if p = NULL then translate (mem s) (pgdir s) va = None
     else \<exists>d \<in> {2, 3}. translate (mem s) (pgdir s) va = Some (leaf_addr d (load64 (mem s) p) va))"
proof -
  have ok: "vm_ok (mem s) (pgdir s) A" using assms by (simp add: vm_inv_def)
  have fr: "pte_frame (pgdir s) = pgdir s" by (rule table_frame [OF vm_inv_root [OF assms]])
  show ?thesis
  proof (cases "vm_leaf (mem s) (pgdir s) va")
    case None
    with walk_finds_leaf [OF assms] show ?thesis by (simp add: translate_leaf fr)
  next
    case (Some dp)
    obtain d p where dp: "dp = (d, p)" by (cases dp)
    from Some dp obtain t where t: "tab (mem s) (pgdir s) va d = Some t" "p = pt_entry t d va"
      "load64 (mem s) p AND PG_P \<noteq> 0" "\<not> descends d (load64 (mem s) p)" by (auto elim: vm_leafD)
    have "p \<noteq> NULL" using pt_entry_not_NULL [OF vm_okD(1) [OF ok t(1)]] t(2) by simp
    moreover have "d \<in> {2, 3}" using tab_less [OF t(1)] t(3,4) by (auto simp: descends_def)
    ultimately show ?thesis using walk_finds_leaf [OF assms] Some dp by (auto simp: translate_leaf fr)
  qed
qed

lemma vm_init_spec:
  assumes rel: "pm_rel K s A" and al: "pm_aligned A" and pages: "9 \<le> pm_pages A"
    and mt: "unat (memtotal s) \<le> phys_limit"
  shows "\<exists>s' A'. vm_init K s = Inr s' \<and> vm_inv K s' A' \<and> cr3 s' = pgdir s' \<and>
    pm_pages A \<le> 9 + pm_pages A' \<and>
    (\<forall>va < 0x100000000. translate (mem s') (cr3 s') va = Some va) \<and>
    (\<forall>x. cover A (unat x) = 0 \<longrightarrow> mem s' x = mem s x) \<and>
    blocks_kept A A' \<and> (\<forall>x. cover A' x \<le> cover A x) \<and>
    (\<forall>x \<in> vm_bytes (mem s') (pgdir s'). cover A x = 1) \<and> memtotal s' = memtotal s \<and>
    (\<forall>va. user_va va \<longrightarrow> vm_leaf (mem s') (pgdir s') va = None)"
proof -
  have pos: "0 < pm_pages A" using pages by simp
  obtain page s1 A1 where g: "pmalloc K PM_4K s = Inr (page, s1)" "vm_inv K (s1\<lparr>pgdir := page\<rparr>) A1"
    "vm_flat (s1\<lparr>pgdir := page\<rparr>)" "pm_granted K 4096 s A page A1 s1" "pm_pages A = Suc (pm_pages A1)"
    "blocks_kept A A1" "\<And>x. x \<in> vm_bytes (mem s1) page \<Longrightarrow> cover A x = 1"
    by (rule fresh_root [OF rel al pos mt]) blast
  let ?s1 = "s1\<lparr>pgdir := page\<rparr>"
  have four: "(4 :: nat) \<le> 4" "2 * 4 \<le> pm_pages A1" using g(5) pages by simp_all
  from vm_map_gigabytes [OF four(1) g(2,3) four(2)] obtain s2 A2 where
    l: "vm_map_loop K (concat (map gigabyte [0..<4])) ?s1 = Inr s2" "vm_grows K ?s1 A1 s2 A2" "vm_flat s2"
    "pm_pages A1 \<le> 8 + pm_pages A2"
    "\<And>i va'. i < 2048 \<Longrightarrow> same_path 3 (of_nat i * MiB 2) va' \<Longrightarrow> vm_leaf (mem s2) (pgdir ?s1) va' \<noteq> None"
    by auto
  obtain out where k: "kprintf K ''[vm] Mapped 0 - %d MiB\<newline>'' [GiB 4 div MiB 1] s2 = Inr (s2\<lparr>console := out\<rparr>)"
    using kprintf_total [of "''[vm] Mapped 0 - %d MiB\<newline>''" K "[GiB 4 div MiB 1]" s2] by auto
  let ?s' = "s2\<lparr>console := out, cr3 := pgdir s2\<rparr>"
  have run: "vm_init K s = Inr ?s'"
    using g(1) l(1) k by (simp add: vm_init_def map_range del: upt_rec_numeral)
  have r: "pgdir s2 = page" using vm_grows_same [OF l(2)] by simp
  have inv2: "vm_inv K s2 A2" using l(2) by (simp add: vm_grows_def)
  have fr: "pte_frame page = page" using table_frame [OF vm_inv_root [OF inv2]] r by simp
  have id: "translate (mem s2) page va = Some va" if "va < 0x100000000" for va
  proof -
    have "unat va div 2097152 < 2048" using that by (simp add: word_less_nat_alt less_mult_imp_div_less)
    from l(5) [OF this region_of] obtain d p where lf: "vm_leaf (mem s2) page va = Some (d, p)" by auto
    have "va < USER_ADDR_START" using that by (simp add: USER_ADDR_START_def word_less_nat_alt)
    with l(3) lf r have "leaf_addr d (load64 (mem s2) p) va = va" by (simp add: vm_flat_def)
    with lf show ?thesis by (simp add: translate_leaf fr)
  qed
  have same: "mem s2 x = mem s x" if x: "cover A (unat x) = 0" for x
  proof -
    have "cover A1 (unat x) + of_bool (in_block 4096 page (unat x)) = cover A (unat x)"
      using g(4) by (simp add: pm_granted_def)
    with x have "cover A1 (unat x) = 0" by simp
    moreover have "unat x \<notin> vm_bytes (mem s1) page" using g(7) [of "unat x"] x by auto
    ultimately have "mem s2 x = mem ?s1 x" using l(2) unfolding vm_grows_def by simp
    also have "\<dots> = mem s x" using g(4) x by (simp add: pm_granted_def)
    finally show ?thesis .
  qed
  have "pm_rel K ?s' A2"
    by (rule pm_rel_frame [of K s2 A2]) (use inv2 in \<open>simp_all add: vm_inv_def\<close>)
  then have "vm_inv K ?s' A2" using inv2 by (simp add: vm_inv_def)
  moreover have "blocks_kept A A2"
    using g(6) l(2) unfolding vm_grows_def by (blast intro: blocks_kept_trans)
  moreover have c1: "cover A1 x \<le> cover A x" "cover A x \<le> 1" for x
    using g(4) unfolding pm_granted_def by (metis le_add1, blast)
  then have "cover A2 x \<le> cover A x" for x using l(2) unfolding vm_grows_def by (meson order_trans)
  moreover have "cover A x = 1" if "x \<in> vm_bytes (mem s2) page" for x
  proof -
    have "x \<in> vm_bytes (mem s1) page \<or> cover A1 x = 1" using l(2) that unfolding vm_grows_def by simp
    with g(7) [of x] c1 [of x] show ?thesis by auto
  qed
  moreover have "memtotal s2 = memtotal s"
  proof -
    have st: "s1 = s\<lparr>mem := mem s1, pmmap := pmmap s1\<rparr>" using g(4) by (simp add: pm_granted_def)
    have "memtotal s1 = memtotal s" by (subst st) simp
    then show ?thesis using vm_grows_same [OF l(2)] by simp
  qed
  moreover have "\<forall>va. user_va va \<longrightarrow> vm_leaf (mem s2) page va = None"
    using l(3) r by (simp add: vm_flat_def)
  ultimately show ?thesis
    using run id same r g(5) l(4) by (intro exI [of _ ?s'] exI [of _ A2]) simp
qed

text \<open>
  C23. Start-up.  With nine free pages below the limit of physical addresses, \<^verbatim>\<open>vm_init\<close> returns
  with a sound tree of tables, loaded in the processor, that maps every address below 4 GiB to
  itself; memory that was in use is as before.
\<close>

theorem vm_init_identity:
  assumes rel: "pm_rel K s A" and al: "pm_aligned A" and pages: "9 \<le> pm_pages A"
    and mt: "unat (memtotal s) \<le> phys_limit"
  shows "\<exists>s' A'. vm_init K s = Inr s' \<and> vm_inv K s' A' \<and> cr3 s' = pgdir s' \<and>
    pm_pages A \<le> 9 + pm_pages A' \<and>
    (\<forall>va < 0x100000000. translate (mem s') (cr3 s') va = Some va) \<and>
    (\<forall>x. cover A (unat x) = 0 \<longrightarrow> mem s' x = mem s x)"
  using vm_init_spec [OF assms] by blast

lemma demo_aligned: "pm_aligned [[], [], [0x4000000]]" "pm_pages [[], [], [0x4000000]] = 16384"
  by (auto simp: pm_aligned_def pm_pages_def elim!: pm_idx_cases)

theorem vm_init_identity_witness:
  "\<exists>s'. vm_init demo_layout demo_state = Inr s' \<and> translate (mem s') (cr3 s') 0xFEE00000 = Some 0xFEE00000"
proof -
  have "9 \<le> pm_pages [[], [], [0x4000000]]" "unat (memtotal demo_state) \<le> phys_limit"
    by (simp_all add: demo_aligned demo_state_def)
  from vm_init_identity [OF demo_pm_rel demo_aligned(1) this] show ?thesis by auto
qed

lemma demo_vm:
  obtains s A where "vm_inv demo_layout s A" and "cr3 s = pgdir s" and "4 \<le> pm_pages A"
    and "translate (mem s) (pgdir s) 0x12345678 = Some 0x12345678"
proof -
  have "9 \<le> pm_pages [[], [], [0x4000000]]" "unat (memtotal demo_state) \<le> phys_limit"
    by (simp_all add: demo_aligned demo_state_def)
  note pre = demo_pm_rel demo_aligned(1) this
  have pos: "0 < pm_pages [[], [], [0x4000000]]" using pre(3) by simp
  obtain page s1 A1 where g: "vm_inv demo_layout (s1\<lparr>pgdir := page\<rparr>) A1" "vm_flat (s1\<lparr>pgdir := page\<rparr>)"
    "pm_pages [[], [], [0x4000000]] = Suc (pm_pages A1)"
    by (rule fresh_root [OF pre(1,2) pos pre(4)]) blast
  let ?s = "s1\<lparr>pgdir := page\<rparr>" and ?va = "0x12345678 :: uint64"
  have va: "?va < USER_ADDR_START" by (simp add: USER_ADDR_START_def)
  have t3: "tab (mem ?s) (pgdir ?s) ?va 3 = None" using g(2) by (simp add: vm_flat_def)
  have pg: "2 \<le> pm_pages A1 \<or> tab (mem ?s) (pgdir ?s) ?va 2 \<noteq> None"
    using g(3) by (simp add: demo_aligned)
  obtain p s2 A2 where w: "vm_mapped demo_layout ?s A1 ?va 2 p s2 A2" "pm_pages A1 \<le> 2 + pm_pages A2"
    "\<And>va'. tab (mem s2) (pgdir ?s) va' 3 = tab (mem ?s) (pgdir ?s) va' 3"
    by (rule walk_kernel_large [OF g(1) va t3 pg]) blast
  have gr: "vm_grows demo_layout ?s A1 s2 A2" and lf: "vm_leaf (mem s2) (pgdir ?s) ?va = Some (2, p)"
    using w(1) unfolding vm_mapped_def by blast+
  have r: "pgdir s2 = page" using vm_grows_same [OF gr] by simp
  have inv2: "vm_inv demo_layout s2 A2" using gr by (simp add: vm_grows_def)
  have fr: "pte_frame page = page" using table_frame [OF vm_inv_root [OF inv2]] r by simp
  have "leaf_addr 2 (load64 (mem s2) p) ?va = ?va"
    using vm_flat_step [OF g(2) w(1) va w(3)] lf r va by (simp add: vm_flat_def)
  with lf have tr: "translate (mem s2) page ?va = Some ?va" by (simp add: translate_leaf fr)
  have "pm_rel demo_layout (s2\<lparr>cr3 := page\<rparr>) A2"
    by (rule pm_rel_frame [of demo_layout s2 A2]) (use inv2 in \<open>simp_all add: vm_inv_def\<close>)
  then have "vm_inv demo_layout (s2\<lparr>cr3 := page\<rparr>) A2" using inv2 by (simp add: vm_inv_def)
  with that [of "s2\<lparr>cr3 := page\<rparr>" A2] tr r w(2) g(3) show thesis by (simp add: demo_aligned)
qed

theorem walk_agrees_with_processor_witness:
  "\<exists>s p. walk_pgdir demo_layout 0x12345678 False False s = Inr (p, s) \<and> p \<noteq> NULL"
proof -
  obtain s A where "vm_inv demo_layout s A" "translate (mem s) (pgdir s) 0x12345678 = Some 0x12345678"
    by (rule demo_vm) blast
  with walk_agrees_with_processor [OF this(1), of "0x12345678" False] show ?thesis by (metis option.distinct(1))
qed

text \<open>
  C24. A creating walk with four pages left returns the entry of the address.  Afterwards the
  address is mapped: to itself if it lies in the kernel's half and was not mapped before.  No
  other translation changes, none outside the 2 MiB around the address appears, and memory
  that is neither free nor a page table is as before.
\<close>

theorem walk_creates_mapping:
  assumes inv: "vm_inv K s A" and pages: "4 \<le> pm_pages A"
  shows "\<exists>p s' A'. walk_pgdir K va True large s = Inr (p, s') \<and> p \<noteq> NULL \<and> vm_inv K s' A' \<and>
    pgdir s' = pgdir s \<and> translate (mem s') (pgdir s) va \<noteq> None \<and>
    (va < USER_ADDR_START \<and> translate (mem s) (pgdir s) va = None \<longrightarrow>
       translate (mem s') (pgdir s) va = Some va) \<and>
    (\<forall>va' pa. translate (mem s) (pgdir s) va' = Some pa \<longrightarrow> translate (mem s') (pgdir s) va' = Some pa) \<and>
    (\<forall>va'. \<not> same_path 3 va va' \<longrightarrow>
       translate (mem s') (pgdir s) va' = translate (mem s) (pgdir s) va') \<and>
    (\<forall>x. cover A (unat x) = 0 \<and> unat x \<notin> vm_bytes (mem s) (pgdir s) \<longrightarrow> mem s' x = mem s x)"
proof -
  obtain p d s' A' where w: "walk_pgdir K va True large s = Inr (p, s')"
    and m: "vm_mapped K s A va d p s' A'" by (rule walk_creates [OF inv pages]) blast
  have gr: "vm_grows K s A s' A'" and lf: "vm_leaf (mem s') (pgdir s) va = Some (d, p)"
    using m unfolding vm_mapped_def by blast+
  have r: "pgdir s' = pgdir s" using vm_grows_same [OF gr] by simp
  have inv': "vm_inv K s' A'" using gr by (simp add: vm_grows_def)
  then have ok': "vm_ok (mem s') (pgdir s) A'" using r by (simp add: vm_inv_def)
  have tr: "translate m (pgdir s) va =
      map_option (\<lambda>(d, p). leaf_addr d (load64 m p) va) (vm_leaf m (pgdir s) va)" for m va
    unfolding translate_leaf table_frame [OF vm_inv_root [OF inv]] ..
  from lf obtain t where t: "tab (mem s') (pgdir s) va d = Some t" "p = pt_entry t d va"
    "load64 (mem s') p AND PG_P \<noteq> 0" "\<not> descends d (load64 (mem s') p)" by (rule vm_leafD)
  have d2: "2 \<le> d" using tab_less [OF t(1)] t(3,4) by (auto simp: descends_def)
  have "p \<noteq> NULL" using pt_entry_not_NULL [OF vm_okD(1) [OF ok' t(1)]] t(2) by simp
  moreover have keep: "translate (mem s') (pgdir s) va' = Some pa"
    if "translate (mem s) (pgdir s) va' = Some pa" for va' pa
    using that gr unfolding tr vm_grows_def by fastforce
  moreover have "translate (mem s') (pgdir s) va' = translate (mem s) (pgdir s) va'"
    if "\<not> same_path 3 va va'" for va'
  proof -
    have "\<not> same_path (Suc d) va va'" using that d2 same_path_mono [of 3 "Suc d" va va'] by auto
    then have "vm_leaf (mem s') (pgdir s) va' = vm_leaf (mem s) (pgdir s) va'"
      using m by (simp add: vm_mapped_def)
    with keep [of va'] show ?thesis unfolding tr by (cases "vm_leaf (mem s) (pgdir s) va'") auto
  qed
  moreover have "translate (mem s') (pgdir s) va = Some va"
    if "va < USER_ADDR_START" "translate (mem s) (pgdir s) va = None"
    using m that lf unfolding tr vm_mapped_def by auto
  moreover have "translate (mem s') (pgdir s) va \<noteq> None" using lf by (simp add: tr)
  moreover have "\<forall>x. cover A (unat x) = 0 \<and> unat x \<notin> vm_bytes (mem s) (pgdir s) \<longrightarrow> mem s' x = mem s x"
    using gr unfolding vm_grows_def by blast
  ultimately show ?thesis
    using w inv' r by (intro exI [of _ p] exI [of _ s'] exI [of _ A'] conjI) (blast | simp)+
qed

theorem walk_creates_mapping_witness:
  "\<exists>s p s'. walk_pgdir demo_layout 0x12345678 True False s = Inr (p, s') \<and>
     translate (mem s') (pgdir s) 0x12345678 = Some 0x12345678"
proof -
  obtain s A where s: "vm_inv demo_layout s A" "4 \<le> pm_pages A"
    "translate (mem s) (pgdir s) 0x12345678 = Some 0x12345678" by (rule demo_vm) blast
  with walk_creates_mapping [OF s(1,2), of "0x12345678" False] show ?thesis by blast
qed

lemma page_offset_in:
  assumes "4096 dvd unat page" and "unat page + 4096 \<le> phys_limit"
  shows "in_block 4096 page (unat (page OR va AND 0xFFF))"
proof -
  have "\<not> bit page i \<or> \<not> bit (va AND 0xFFF) i" for i
    using bit_aligned [OF assms(1), of i] by (auto simp: low_mask bit_and_iff bit_mask_iff)
  then have "page AND (va AND 0xFFF) = 0" by (intro bit_eqI) (auto simp: bit_and_iff)
  then have eq: "page OR (va AND 0xFFF) = page + (va AND 0xFFF)"
    by (simp add: disjunctive_add_eq_or)
  have "va AND 0xFFF = take_bit 12 va" by (simp add: low_mask take_bit_eq_mask)
  then have "unat (va AND 0xFFF) = take_bit 12 (unat va)" by (simp only: unsigned_take_bit_eq)
  then have small: "unat (va AND 0xFFF) < 4096" using take_bit_nat_less_exp [of 12 "unat va"] by simp
  have "unat (page + (va AND 0xFFF)) = unat page + unat (va AND 0xFFF)"
    by (rule unat_plus_simple [THEN iffD1, OF no_olen_add_nat [THEN iffD2]]) (use assms(2) small in simp)
  with eq small show ?thesis by (simp add: in_block_def)
qed

text \<open>The fault that a first access to a user address takes, with all that the walk promises.\<close>

lemma user_fault:
  assumes inv: "vm_inv K s A" and cr: "cr3 s = pgdir s" and pages: "4 \<le> pm_pages A"
    and va: "USER_ADDR_START \<le> va" and none: "vm_leaf (mem s) (pgdir s) va = None"
  obtains p s' A' out where "user_addr K va s = Inr (leaf_addr 3 (load64 (mem s') p) va, s')"
    and "vm_mapped K (s\<lparr>cr2 := va, console := out\<rparr>) A va 3 p s' A'" and "pm_pages A \<le> 4 + pm_pages A'"
    and "cr3 s' = pgdir s" and "pgdir s' = pgdir s"
proof -
  obtain out where k: "kprintf K ''#PF: CR2 = %x\<newline>'' [va] (s\<lparr>cr2 := va\<rparr>) = Inr (s\<lparr>cr2 := va, console := out\<rparr>)"
    using kprintf_total [of "''#PF: CR2 = %x\<newline>''" K "[va]" "s\<lparr>cr2 := va\<rparr>"] by auto
  let ?s = "s\<lparr>cr2 := va, console := out\<rparr>"
  have "pm_rel K ?s A" by (rule pm_rel_frame [of K s A]) (use inv in \<open>simp_all add: vm_inv_def\<close>)
  then have inv1: "vm_inv K ?s A" using inv by (simp add: vm_inv_def)
  obtain p d s' A' where w: "walk_pgdir K va True False ?s = Inr (p, s')"
    and m: "vm_mapped K ?s A va d p s' A'" and d: "False \<or> d = 3 \<or> vm_leaf (mem ?s) (pgdir ?s) va \<noteq> None"
    and pg: "pm_pages A \<le> 4 + pm_pages A'"
    by (rule walk_creates [OF inv1 pages]) blast
  have d3: "d = 3" using d none by simp
  have gr: "vm_grows K ?s A s' A'" and lf: "vm_leaf (mem s') (pgdir ?s) va = Some (3, p)"
    using m unfolding vm_mapped_def d3 by blast+
  have lf: "vm_leaf (mem s') (pgdir s) va = Some (3, p)" using lf by simp
  have r: "pgdir s' = pgdir s" using vm_grows_same [OF gr] by simp
  have c3: "cr3 s' = pgdir s"
    using gr cr unfolding vm_grows_def by (elim conjE) (erule ssubst, simp)
  have "vm_ok (mem s') (pgdir s) A'" using gr r by (simp add: vm_grows_def vm_inv_def)
  moreover obtain t where t: "tab (mem s') (pgdir s) va 3 = Some t" "p = pt_entry t 3 va"
    using lf by (rule vm_leafD)
  ultimately have pn: "p \<noteq> NULL" using pt_entry_not_NULL [OF vm_okD(1), of "mem s'" "pgdir s" A' va 3 t 3 va] by simp
  have fr: "pte_frame (pgdir s) = pgdir s" by (rule table_frame [OF vm_inv_root [OF inv]])
  have "page_fault K (s\<lparr>cr2 := va\<rparr>) = Inr s'" using k w pn by (simp add: page_fault_def)
  then have "user_addr K va s = Inr (leaf_addr 3 (load64 (mem s') p) va, s')"
    using va none lf c3 cr fr by (simp add: user_addr_def not_less [symmetric] translate_leaf)
  with that m pg c3 r d3 show thesis by blast
qed

text \<open>
  C22. Demand paging.  An access to an unmapped user address succeeds after one page fault, as
  long as four pages are left: the handler maps the address to a page that was free, is free
  no longer, and reads as zero; every other translation stays, and memory that is neither free
  nor a page table is as before.
\<close>

theorem page_fault_maps_zero_page:
  assumes inv: "vm_inv K s A" and cr: "cr3 s = pgdir s" and pages: "4 \<le> pm_pages A"
    and va: "USER_ADDR_START \<le> va" and unmapped: "translate (mem s) (cr3 s) va = None"
  shows "\<exists>pa s' A'. user_addr K va s = Inr (pa, s') \<and> vm_inv K s' A' \<and> cr3 s' = cr3 s \<and>
    translate (mem s') (cr3 s') va = Some pa \<and>
    mem s' pa = 0 \<and> cover A (unat pa) = 1 \<and> cover A' (unat pa) = 0 \<and>
    (\<forall>va' pa'. translate (mem s) (cr3 s) va' = Some pa' \<longrightarrow> translate (mem s') (cr3 s') va' = Some pa') \<and>
    (\<forall>x. cover A (unat x) = 0 \<and> unat x \<notin> vm_bytes (mem s) (cr3 s) \<longrightarrow> mem s' x = mem s x)"
proof -
  have tr: "translate m (pgdir s) va =
      map_option (\<lambda>(d, p). leaf_addr d (load64 m p) va) (vm_leaf m (pgdir s) va)" for m va
    unfolding translate_leaf table_frame [OF vm_inv_root [OF inv]] ..
  have none: "vm_leaf (mem s) (pgdir s) va = None" using unmapped by (simp add: cr tr)
  obtain p s' A' out where run: "user_addr K va s = Inr (leaf_addr 3 (load64 (mem s') p) va, s')"
    and m: "vm_mapped K (s\<lparr>cr2 := va, console := out\<rparr>) A va 3 p s' A'" and c3: "cr3 s' = pgdir s" "pgdir s' = pgdir s"
    by (rule user_fault [OF inv cr pages va none]) blast
  let ?s = "s\<lparr>cr2 := va, console := out\<rparr>"
  let ?page = "pte_frame (load64 (mem s') p)" and ?pa = "leaf_addr 3 (load64 (mem s') p) va"
  have gr: "vm_grows K ?s A s' A'" and "vm_leaf (mem s') (pgdir ?s) va = Some (3, p)"
    using m unfolding vm_mapped_def by blast+
  then have lf: "vm_leaf (mem s') (pgdir s) va = Some (3, p)" by simp
  have inv': "vm_inv K s' A'" using gr by (simp add: vm_grows_def)
  have pg: "table_ok A' ?page" "\<And>x. in_block 4096 ?page (unat x) \<Longrightarrow> mem s' x = 0"
    "\<And>x. in_block 4096 ?page x \<Longrightarrow> cover A x = 1"
    using m none va unfolding vm_mapped_def by (simp_all add: not_less [symmetric])
  have inb: "in_block 4096 ?page (unat ?pa)"
    using page_offset_in [of ?page va] pg(1) by (simp add: table_ok_def leaf_addr_def)
  have tr': "translate (mem s') (pgdir s) va = Some ?pa" using lf by (simp add: tr)
  have keep: "translate (mem s') (pgdir s) va' = Some pa'"
    if "translate (mem s) (pgdir s) va' = Some pa'" for va' pa'
    using that gr unfolding tr vm_grows_def by fastforce
  have same: "\<forall>x. cover A (unat x) = 0 \<and> unat x \<notin> vm_bytes (mem s) (pgdir s) \<longrightarrow> mem s' x = mem s x"
    using gr unfolding vm_grows_def by simp
  have "cover A' (unat ?pa) = 0" using pg(1) inb by (simp add: table_ok_def)
  with run inv' c3 cr tr' pg(2,3) inb keep same show ?thesis
    unfolding cr by (intro exI [of _ ?pa] exI [of _ s'] exI [of _ A']) simp
qed

theorem page_fault_maps_zero_page_witness:
  "\<exists>s pa s'. vload8 demo_layout USER_ADDR_START s = Inr (0, s') \<and>
     translate (mem s') (cr3 s') USER_ADDR_START = Some pa"
proof -
  have "9 \<le> pm_pages [[], [], [0x4000000]]" "unat (memtotal demo_state) \<le> phys_limit"
    by (simp_all add: demo_aligned demo_state_def)
  note pre = demo_pm_rel demo_aligned(1) this
  have pos: "0 < pm_pages [[], [], [0x4000000]]" using pre(3) by simp
  obtain page s1 A1 where g: "vm_inv demo_layout (s1\<lparr>pgdir := page\<rparr>) A1" "vm_flat (s1\<lparr>pgdir := page\<rparr>)"
    "pm_granted demo_layout 4096 demo_state [[], [], [0x4000000]] page A1 s1"
    "pm_pages [[], [], [0x4000000]] = Suc (pm_pages A1)"
    by (rule fresh_root [OF pre(1,2) pos pre(4)]) blast
  let ?s = "s1\<lparr>pgdir := page, cr3 := page\<rparr>"
  have "pm_rel demo_layout ?s A1"
    by (rule pm_rel_frame [of demo_layout "s1\<lparr>pgdir := page\<rparr>" A1]) (use g(1) in \<open>simp_all add: vm_inv_def\<close>)
  then have inv: "vm_inv demo_layout ?s A1" using g(1) by (simp add: vm_inv_def)
  have tok: "table_ok A1 page" using vm_inv_root [OF inv] by simp
  have "mem s1 x = 0" if "in_block 4096 page (unat x)" for x using g(3) that by (simp add: pm_granted_def)
  then have "load64 (mem s1) (pt_entry page 0 USER_ADDR_START) = 0"
    using pt_entry_bytes [OF tok] by (intro load64_zeros) blast
  then have "vm_leaf (mem s1) page USER_ADDR_START = None"
    by (intro leaf_none [of _ _ _ 0 page]) simp_all
  then have "translate (mem ?s) (cr3 ?s) USER_ADDR_START = None"
    by (simp add: translate_leaf table_frame [OF tok])
  moreover have "4 \<le> pm_pages A1" using g(4) by (simp add: demo_aligned)
  moreover have "cr3 ?s = pgdir ?s" "USER_ADDR_START \<le> USER_ADDR_START" by simp_all
  ultimately obtain pa s' where "user_addr demo_layout USER_ADDR_START ?s = Inr (pa, s')"
    "translate (mem s') (cr3 s') USER_ADDR_START = Some pa" "mem s' pa = 0"
    using page_fault_maps_zero_page [OF inv, of USER_ADDR_START] by metis
  then have "vload8 demo_layout USER_ADDR_START ?s = Inr (0, s') \<and>
      translate (mem s') (cr3 s') USER_ADDR_START = Some pa"
    by (simp add: vload8_def load8_def)
  then show ?thesis by blast
qed

end
