(* ===== verification/Heap.thy ===== *)
theory Heap
  imports Slab Pages
begin

text \<open>
  What the kernel heap of \<^verbatim>\<open>mm/slab.c\<close> keeps.  The abstract heap lists the slabs of the fourteen
  size classes; the relation ties them to the records in memory and says where pages and
  records may lie.
\<close>

section \<open>The abstract heap\<close>

definition slot_sz :: "nat \<Rightarrow> nat" where
  "slot_sz i = 64 * 2 ^ i"

definition page_sz :: "nat \<Rightarrow> nat" where
  "page_sz i = (if 6 < i then 524288 else 4096)"

definition slots :: "nat \<Rightarrow> nat" where
  "slots i = page_sz i div slot_sz i"

record slab =
  sl_entry :: uint64
  sl_page :: uint64
  sl_bits :: uint64

type_synonym heap_abs = "slab list list"

definition slab_in :: "heap_abs \<Rightarrow> nat \<Rightarrow> slab \<Rightarrow> bool" where
  "slab_in H i r \<longleftrightarrow> i < 14 \<and> r \<in> set (H ! i)"

definition slot :: "nat \<Rightarrow> slab \<Rightarrow> nat \<Rightarrow> uint64" where
  "slot i r k = sl_page r + of_nat (k * slot_sz i)"

text \<open>A record is an element of the static array, or in the first slot of its own page (64-byte
  class), or a 64-byte object of its own (larger classes).\<close>

definition entry_ok :: "klayout \<Rightarrow> heap_abs \<Rightarrow> nat \<Rightarrow> slab \<Rightarrow> bool" where
  "entry_ok K H i r \<longleftrightarrow> sl_entry r = slab_head K i \<or>
     (\<exists>r0 k. slab_in H 0 r0 \<and> bit (sl_bits r0) k \<and> sl_entry r = slot 0 r0 k \<and> (i = 0 \<longrightarrow> r0 = r \<and> k = 0))"

definition page_ok :: "klayout \<Rightarrow> uint64 \<Rightarrow> pm_abs \<Rightarrow> nat \<Rightarrow> uint64 \<Rightarrow> bool" where
  "page_ok K mt A i p \<longleftrightarrow> block_ok K mt (page_sz i) p \<and> 4096 dvd unat p \<and>
     (\<forall>x. in_block (page_sz i) p x \<longrightarrow> cover A x = 0)"

definition slab_ok :: "klayout \<Rightarrow> kstate \<Rightarrow> pm_abs \<Rightarrow> heap_abs \<Rightarrow> nat \<Rightarrow> slab \<Rightarrow> bool" where
  "slab_ok K s A H i r \<longleftrightarrow>
     slab_address (mem s) (sl_entry r) = sl_page r \<and> slab_bitmap (mem s) (sl_entry r) = sl_bits r \<and>
     (\<forall>k. bit (sl_bits r) k \<longrightarrow> k < slots i) \<and> page_ok K (memtotal s) A i (sl_page r) \<and> entry_ok K H i r"

definition heap_layout :: "klayout \<Rightarrow> bool" where
  "heap_layout K \<longleftrightarrow> slabs_at K \<noteq> 0 \<and> unat (slabs_at K) + 336 \<le> unat (kernel_end K)"

definition heap_rel :: "klayout \<Rightarrow> kstate \<Rightarrow> pm_abs \<Rightarrow> heap_abs \<Rightarrow> bool" where
  "heap_rel K s A H \<longleftrightarrow> pm_rel K s A \<and> pm_aligned A \<and> heap_layout K \<and> length H = 14 \<and>
     (\<forall>i<14. chain (slab_next (mem s)) (slab_head K i) (map sl_entry (H ! i))) \<and>
     (\<forall>i r. slab_in H i r \<longrightarrow> slab_ok K s A H i r) \<and>
     (\<forall>i r i' r'. slab_in H i r \<longrightarrow> slab_in H i' r' \<longrightarrow> (i, r) \<noteq> (i', r') \<longrightarrow>
        sl_entry r \<noteq> sl_entry r' \<and> (\<forall>x. \<not> (in_block (page_sz i) (sl_page r) x \<and> in_block (page_sz i') (sl_page r') x)))"

section \<open>Slots\<close>

lemma class_cases:
  assumes "i < (14 :: nat)"
  obtains "i = 0" | "i = 1" | "i = 2" | "i = 3" | "i = 4" | "i = 5" | "i = 6" | "i = 7" | "i = 8"
    | "i = 9" | "i = 10" | "i = 11" | "i = 12" | "i = 13"
proof -
  have "i = 0 \<or> i = 1 \<or> i = 2 \<or> i = 3 \<or> i = 4 \<or> i = 5 \<or> i = 6 \<or> i = 7 \<or> i = 8 \<or> i = 9 \<or>
      i = 10 \<or> i = 11 \<or> i = 12 \<or> i = 13" using assms by presburger
  then show thesis using that by blast
qed

lemma slots_mult: "i < 14 \<Longrightarrow> slots i * slot_sz i = page_sz i"
  by (erule class_cases) (simp_all add: slots_def slot_sz_def page_sz_def)

lemma slots_bounds: "i < 14 \<Longrightarrow> 0 < slots i \<and> slots i \<le> 64"
  by (erule class_cases) (simp_all add: slots_def slot_sz_def page_sz_def)

lemma slot_sz_bounds: "i < 14 \<Longrightarrow> 64 \<le> slot_sz i \<and> slot_sz i \<le> page_sz i \<and> page_sz i \<le> 524288"
  by (erule class_cases) (simp_all add: slot_sz_def page_sz_def)

lemma slot_class0 [simp]: "slot_sz 0 = 64" "page_sz 0 = 4096" "slots 0 = 64"
  by (simp_all add: slot_sz_def page_sz_def slots_def)

lemma slot_fits: "i < 14 \<Longrightarrow> k < slots i \<Longrightarrow> k * slot_sz i + slot_sz i \<le> page_sz i"
  using mult_le_mono1 [of "Suc k" "slots i" "slot_sz i"] slots_mult [of i] by simp

lemma unat_slot:
  assumes "block_ok K mt (page_sz i) (sl_page r)" and "i < 14" and "k < slots i"
  shows "unat (slot i r k) = unat (sl_page r) + k * slot_sz i"
  unfolding slot_def using block_ok_no_wrap [OF assms(1)] slot_fits [OF assms(2,3)] slot_sz_bounds [OF assms(2)]
  by (intro unat_add_no_wrap) linarith

lemma slot_in_page:
  assumes "block_ok K mt (page_sz i) (sl_page r)" and "i < 14" and "k < slots i"
    and "in_block (slot_sz i) (slot i r k) x"
  shows "in_block (page_sz i) (sl_page r) x"
  using assms(4) unat_slot [OF assms(1-3)] slot_fits [OF assms(2,3)] by (auto simp: in_block_def)

lemma slots_apart:
  assumes "block_ok K mt (page_sz i) (sl_page r)" and "i < 14" and "k < slots i" "l < slots i" "k \<noteq> l"
  shows "\<not> (in_block (slot_sz i) (slot i r k) x \<and> in_block (slot_sz i) (slot i r l) x)"
proof -
  have "k * slot_sz i + slot_sz i \<le> l * slot_sz i \<or> l * slot_sz i + slot_sz i \<le> k * slot_sz i"
    using assms(5) mult_le_mono1 [of "Suc k" l "slot_sz i"] mult_le_mono1 [of "Suc l" k "slot_sz i"]
    by (cases "k < l") auto
  then show ?thesis
    using unat_slot [OF assms(1,2,3)] unat_slot [OF assms(1,2,4)] by (auto simp: in_block_def)
qed

lemma in_block_sub: "in_block m a x \<Longrightarrow> m \<le> n \<Longrightarrow> in_block n a x"
  by (simp add: in_block_def)

section \<open>What the relation says\<close>

lemma heap_relD:
  assumes "heap_rel K s A H"
  shows "pm_rel K s A" and "pm_aligned A" and "heap_layout K" and "length H = 14"
    and "i < 14 \<Longrightarrow> chain (slab_next (mem s)) (slab_head K i) (map sl_entry (H ! i))"
    and "slab_in H i r \<Longrightarrow> slab_ok K s A H i r"
    and "slab_in H i r \<Longrightarrow> slab_in H i' r' \<Longrightarrow> (i, r) \<noteq> (i', r') \<Longrightarrow> sl_entry r \<noteq> sl_entry r'"
    and "slab_in H i r \<Longrightarrow> slab_in H i' r' \<Longrightarrow> (i, r) \<noteq> (i', r') \<Longrightarrow>
      \<not> (in_block (page_sz i) (sl_page r) x \<and> in_block (page_sz i') (sl_page r') x)"
  using assms unfolding heap_rel_def by blast+

lemma slab_okD:
  assumes "slab_ok K s A H i r"
  shows "slab_address (mem s) (sl_entry r) = sl_page r" and "slab_bitmap (mem s) (sl_entry r) = sl_bits r"
    and "bit (sl_bits r) k \<Longrightarrow> k < slots i" and "block_ok K (memtotal s) (page_sz i) (sl_page r)"
    and "4096 dvd unat (sl_page r)" and "in_block (page_sz i) (sl_page r) x \<Longrightarrow> cover A x = 0"
    and "entry_ok K H i r"
  using assms unfolding slab_ok_def page_ok_def by blast+

lemma unat_slab_head:
  assumes "heap_layout K" and "i < 14"
  shows "unat (slab_head K i) = unat (slabs_at K) + 24 * i" "unat (slab_head K i) + 24 \<le> unat (kernel_end K)"
proof -
  have "slab_head K i = slabs_at K + of_nat (24 * i)" by (simp add: slab_head_def)
  moreover have "unat (slabs_at K) + 24 * i < 18446744073709551616"
    using assms unat_less_2p64 [of "kernel_end K"] unfolding heap_layout_def by linarith
  ultimately show "unat (slab_head K i) = unat (slabs_at K) + 24 * i" by (simp only: unat_add_no_wrap)
  then show "unat (slab_head K i) + 24 \<le> unat (kernel_end K)" using assms by (simp add: heap_layout_def)
qed

text \<open>Every record is either static or inside a 64-byte slot that is in use.\<close>

lemma entry_place:
  assumes rel: "heap_rel K s A H" and r: "slab_in H i r"
  obtains "sl_entry r = slab_head K i" "unat (sl_entry r) + 24 \<le> unat (kernel_end K)"
  | r0 k where "slab_in H 0 r0" "bit (sl_bits r0) k" "sl_entry r = slot 0 r0 k"
      "\<And>x. in_block 24 (sl_entry r) x \<Longrightarrow> in_block 64 (slot 0 r0 k) x"
      "\<And>x. in_block 64 (slot 0 r0 k) x \<Longrightarrow> in_block 4096 (sl_page r0) x"
      "i = 0 \<Longrightarrow> r0 = r \<and> k = 0"
proof -
  have i: "i < 14" using r by (simp add: slab_in_def)
  from slab_okD(7) [OF heap_relD(6) [OF rel r]] consider "sl_entry r = slab_head K i"
    | r0 k where "slab_in H 0 r0" "bit (sl_bits r0) k" "sl_entry r = slot 0 r0 k" "i = 0 \<longrightarrow> r0 = r \<and> k = 0"
    unfolding entry_ok_def by blast
  then show thesis
  proof cases
    case 1
    with that(1) unat_slab_head(2) [OF heap_relD(3) [OF rel] i] show thesis by simp
  next
    case (2 r0 k)
    note ok = heap_relD(6) [OF rel 2(1)]
    have "in_block 4096 (sl_page r0) x" if "in_block 64 (slot 0 r0 k) x" for x
      using slot_in_page [OF slab_okD(4) [OF ok] _ slab_okD(3) [OF ok 2(2)]] that by simp
    moreover have "in_block 64 (slot 0 r0 k) x" if "in_block 24 (sl_entry r) x" for x
      using that 2(3) by (simp add: in_block_def)
    ultimately show thesis using that(2) [OF 2(1-3)] 2(4) by blast
  qed
qed

lemma page_above_kernel:
  assumes "block_ok K mt n p" and "in_block n p x"
  shows "unat (kernel_end K) \<le> x"
  using assms by (simp add: block_ok_def in_block_def word_le_nat_alt)

lemma slots_of_pages_apart:
  assumes rel: "heap_rel K s A H" and r: "slab_in H i r" "slab_in H i' r'"
    and k: "k < slots i" "k' < slots i'" and ne: "(i, r, k) \<noteq> (i', r', k')"
  shows "\<not> (in_block (slot_sz i) (slot i r k) x \<and> in_block (slot_sz i') (slot i' r' k') x)"
proof (cases "(i, r) = (i', r')")
  case True
  with ne slots_apart [OF slab_okD(4) [OF heap_relD(6) [OF rel r(1)]] _ k(1), of k' x] k r(1) show ?thesis
    by (auto simp: slab_in_def)
next
  case False
  have "in_block (page_sz i) (sl_page r) x" if "in_block (slot_sz i) (slot i r k) x"
    using slot_in_page [OF slab_okD(4) [OF heap_relD(6) [OF rel r(1)]] _ k(1) that] r(1) by (simp add: slab_in_def)
  moreover have "in_block (page_sz i') (sl_page r') x" if "in_block (slot_sz i') (slot i' r' k') x"
    using slot_in_page [OF slab_okD(4) [OF heap_relD(6) [OF rel r(2)]] _ k(2) that] r(2) by (simp add: slab_in_def)
  ultimately show ?thesis using heap_relD(8) [OF rel r False] by blast
qed

lemma entries_apart:
  assumes rel: "heap_rel K s A H" and r: "slab_in H i r" "slab_in H i' r'" and ne: "(i, r) \<noteq> (i', r')"
  shows "\<not> (in_block 24 (sl_entry r) x \<and> in_block 24 (sl_entry r') x)"
proof -
  have nee: "sl_entry r \<noteq> sl_entry r'" by (rule heap_relD(7) [OF rel r ne])
  have inner: "unat (kernel_end K) \<le> x" if "slab_in H 0 r0" "in_block 4096 (sl_page r0) x" for r0
    using page_above_kernel [OF slab_okD(4) [OF heap_relD(6) [OF rel that(1)]]] that(2) by simp
  show ?thesis
  proof (rule entry_place [OF rel r(1)])
    assume e: "sl_entry r = slab_head K i" "unat (sl_entry r) + 24 \<le> unat (kernel_end K)"
    show ?thesis
    proof (rule entry_place [OF rel r(2)])
      assume e': "sl_entry r' = slab_head K i'" "unat (sl_entry r') + 24 \<le> unat (kernel_end K)"
      have u: "unat (sl_entry r) = unat (slabs_at K) + 24 * i" "unat (sl_entry r') = unat (slabs_at K) + 24 * i'"
        unfolding e(1) e'(1) using unat_slab_head(1) [OF heap_relD(3) [OF rel]] r by (auto simp: slab_in_def)
      have "i \<noteq> i'" using nee e(1) e'(1) by auto
      then have "24 * i + 24 \<le> 24 * i' \<or> 24 * i' + 24 \<le> 24 * i" by linarith
      then show ?thesis unfolding in_block_def u by linarith
    next
      fix r0 k
      assume "slab_in H 0 r0" "\<And>x. in_block 24 (sl_entry r') x \<Longrightarrow> in_block 64 (slot 0 r0 k) x"
        "\<And>x. in_block 64 (slot 0 r0 k) x \<Longrightarrow> in_block 4096 (sl_page r0) x"
      with inner e(2) show ?thesis by (force simp: in_block_def [of 24 "sl_entry r"])
    qed
  next
    fix r0 k
    assume e: "slab_in H 0 r0" "bit (sl_bits r0) k" "sl_entry r = slot 0 r0 k"
      "\<And>x. in_block 24 (sl_entry r) x \<Longrightarrow> in_block 64 (slot 0 r0 k) x"
      "\<And>x. in_block 64 (slot 0 r0 k) x \<Longrightarrow> in_block 4096 (sl_page r0) x"
    show ?thesis
    proof (rule entry_place [OF rel r(2)])
      assume e': "unat (sl_entry r') + 24 \<le> unat (kernel_end K)"
      with inner e show ?thesis by (force simp: in_block_def [of 24 "sl_entry r'"])
    next
      fix r1 l
      assume e': "slab_in H 0 r1" "bit (sl_bits r1) l" "sl_entry r' = slot 0 r1 l"
        "\<And>x. in_block 24 (sl_entry r') x \<Longrightarrow> in_block 64 (slot 0 r1 l) x"
      have "(0, r0, k) \<noteq> (0, r1, l)" using nee e(3) e'(3) by auto
      from slots_of_pages_apart [OF rel e(1) e'(1) _ _ this, of x]
        slab_okD(3) [OF heap_relD(6) [OF rel e(1)] e(2)] slab_okD(3) [OF heap_relD(6) [OF rel e'(1)] e'(2)]
        e(4) e'(4)
      show ?thesis by auto
    qed
  qed
qed

lemma entry_no_wrap:
  assumes rel: "heap_rel K s A H" and r: "slab_in H i r"
  shows "unat (sl_entry r) + 24 < 18446744073709551616"
proof (rule entry_place [OF rel r])
  assume "unat (sl_entry r) + 24 \<le> unat (kernel_end K)"
  then show ?thesis using unat_less_2p64 [of "kernel_end K"] by linarith
next
  fix r0 k
  assume e: "slab_in H 0 r0" "bit (sl_bits r0) k" "sl_entry r = slot 0 r0 k"
  note ok = heap_relD(6) [OF rel e(1)]
  have "k < 64" using slab_okD(3) [OF ok e(2)] by simp
  then show ?thesis
    using unat_slot [OF slab_okD(4) [OF ok] _ slab_okD(3) [OF ok e(2)]] block_ok_no_wrap [OF slab_okD(4) [OF ok]]
    unfolding e(3) by simp
qed

lemma entry_bytes:
  assumes rel: "heap_rel K s A H" and r: "slab_in H i r"
  shows "x \<in> bytes_at (sl_entry r) 24 \<longleftrightarrow> in_block 24 (sl_entry r) (unat x)"
  using bytes_at_in_block [of "sl_entry r" 24] entry_no_wrap [OF rel r] by auto

lemma entry_uncovered:
  assumes rel: "heap_rel K s A H" and r: "slab_in H i r" and x: "in_block 24 (sl_entry r) x"
  shows "cover A x = 0"
proof (rule entry_place [OF rel r])
  assume "unat (sl_entry r) + 24 \<le> unat (kernel_end K)"
  with x cover_below_kernel [OF heap_relD(1) [OF rel]] show ?thesis by (simp add: in_block_def)
next
  fix r0 k
  assume "slab_in H 0 r0" "\<And>x. in_block 24 (sl_entry r) x \<Longrightarrow> in_block 64 (slot 0 r0 k) x"
    "\<And>x. in_block 64 (slot 0 r0 k) x \<Longrightarrow> in_block 4096 (sl_page r0) x"
  with x slab_okD(6) [OF heap_relD(6) [OF rel]] show ?thesis by force
qed

section \<open>The fields of a record\<close>

lemma field_bytes: "bytes_at e 8 \<subseteq> bytes_at e 24" "bytes_at (e + 8) 8 \<subseteq> bytes_at e 24"
  "bytes_at (e + 16) 8 \<subseteq> bytes_at e 24"
  using bytes_at_offset_subset [of 0 8 24 e] bytes_at_offset_subset [of 8 8 24 e]
    bytes_at_offset_subset [of 16 8 24 e] by simp_all

lemma fields_cong:
  assumes "\<And>x. x \<in> bytes_at e 24 \<Longrightarrow> m' x = m x"
  shows "slab_address m' e = slab_address m e" "slab_bitmap m' e = slab_bitmap m e" "slab_next m' e = slab_next m e"
  using assms field_bytes [of e] unfolding slab_address_def slab_bitmap_def slab_next_def
  by (auto intro!: quad_cell.load_local)

lemma fields_set:
  "slab_address (store64 m e v) e = v" "slab_bitmap (store64 m e v) e = slab_bitmap m e"
  "slab_next (store64 m e v) e = slab_next m e"
  "slab_address (store64 m (e + 8) v) e = slab_address m e" "slab_bitmap (store64 m (e + 8) v) e = v"
  "slab_next (store64 m (e + 8) v) e = slab_next m e"
  "slab_address (store64 m (e + 16) v) e = slab_address m e"
  "slab_bitmap (store64 m (e + 16) v) e = slab_bitmap m e" "slab_next (store64 m (e + 16) v) e = v"
  unfolding slab_address_def slab_bitmap_def slab_next_def by (simp_all add: quad_apart)

text \<open>Stores inside one record leave everything outside its 24 bytes alone.\<close>

lemma store_in_record:
  assumes "a = e \<or> a = e + 8 \<or> a = e + 16" and "x \<notin> bytes_at e 24"
  shows "store64 m a v x = m x"
  using assms field_bytes [of e] by (intro quad_cell.store_outside) blast

lemma heap_frame:
  assumes rel: "heap_rel K s A H" and same: "pmmap s' = pmmap s" "memtotal s' = memtotal s"
    and free: "\<And>x. cover A (unat x) \<noteq> 0 \<Longrightarrow> mem s' x = mem s x"
    and recs: "\<And>i r x. slab_in H i r \<Longrightarrow> in_block 24 (sl_entry r) (unat x) \<Longrightarrow> mem s' x = mem s x"
  shows "heap_rel K s' A H"
proof -
  have f: "slab_address (mem s') (sl_entry r) = slab_address (mem s) (sl_entry r)"
    "slab_bitmap (mem s') (sl_entry r) = slab_bitmap (mem s) (sl_entry r)"
    "slab_next (mem s') (sl_entry r) = slab_next (mem s) (sl_entry r)" if "slab_in H i r" for i r
    using that recs entry_bytes [OF rel that] by (auto intro!: fields_cong)
  have "chain (slab_next (mem s')) p (map sl_entry (H ! i)) \<longleftrightarrow> chain (slab_next (mem s)) p (map sl_entry (H ! i))"
    if "i < 14" for i p
    by (rule chain_cong) (use that f(3) in \<open>auto simp: slab_in_def\<close>)
  moreover have "slab_ok K s' A H i r" if "slab_in H i r" for i r
    using heap_relD(6) [OF rel that] f [OF that] same by (simp add: slab_ok_def)
  ultimately show ?thesis
    using rel pm_rel_frame [OF heap_relD(1) [OF rel] same free] unfolding heap_rel_def by blast
qed

text \<open>Taking a page from the allocator below leaves the heap as it is.\<close>

lemma heap_granted:
  assumes rel: "heap_rel K s A H" and g: "pm_granted K n s A p A' s'" and al: "pm_aligned A'"
  shows "heap_rel K s' A' H"
proof -
  have st: "s' = s\<lparr>mem := mem s', pmmap := pmmap s'\<rparr>" using g by (simp add: pm_granted_def)
  have mt: "memtotal s' = memtotal s" by (subst st) simp
  have "cover A' x + of_bool (in_block n p x) = cover A x" for x using g by (simp add: pm_granted_def)
  then have le: "cover A' x \<le> cover A x" for x by (metis le_add1)
  have same: "mem s' x = mem s x" if "cover A (unat x) = 0" for x using g that by (simp add: pm_granted_def)
  have f: "slab_address (mem s') (sl_entry r) = slab_address (mem s) (sl_entry r)"
    "slab_bitmap (mem s') (sl_entry r) = slab_bitmap (mem s) (sl_entry r)"
    "slab_next (mem s') (sl_entry r) = slab_next (mem s) (sl_entry r)" if "slab_in H i r" for i r
    using that same entry_bytes [OF rel that] entry_uncovered [OF rel that] by (auto intro!: fields_cong)
  have "chain (slab_next (mem s')) q (map sl_entry (H ! i)) \<longleftrightarrow> chain (slab_next (mem s)) q (map sl_entry (H ! i))"
    if "i < 14" for i q
    by (rule chain_cong) (use that f(3) in \<open>auto simp: slab_in_def\<close>)
  moreover have "slab_ok K s' A' H i r" if "slab_in H i r" for i r
    using heap_relD(6) [OF rel that] f [OF that] mt le unfolding slab_ok_def page_ok_def by (metis le_zero_eq)
  ultimately show ?thesis
    using rel g al unfolding heap_rel_def pm_granted_def by blast
qed

section \<open>Changing a bitmap\<close>

definition upd_slab :: "heap_abs \<Rightarrow> nat \<Rightarrow> slab \<Rightarrow> slab \<Rightarrow> heap_abs" where
  "upd_slab H i r r' = H[i := map (\<lambda>q. if q = r then r' else q) (H ! i)]"

lemma slab_in_upd:
  assumes "length H = 14" and "slab_in H i r"
  shows "slab_in (upd_slab H i r r') j q \<longleftrightarrow> j = i \<and> q = r' \<or> slab_in H j q \<and> (j, q) \<noteq> (i, r)"
  using assms by (auto simp: slab_in_def upd_slab_def split: if_splits)

lemma slab_in_updE:
  assumes "length H = 14" and "slab_in H i r" and "slab_in (upd_slab H i r (r\<lparr>sl_bits := b\<rparr>)) j q"
  obtains q0 where "slab_in H j q0" and "sl_entry q0 = sl_entry q" and "sl_page q0 = sl_page q"
    and "q0 = r \<and> j = i \<and> q = r\<lparr>sl_bits := b\<rparr> \<or> q0 = q \<and> (j, q) \<noteq> (i, r)"
proof (cases "j = i \<and> q = r\<lparr>sl_bits := b\<rparr>")
  case True
  with that [of r] assms(2) show thesis by simp
next
  case False
  with assms(3) have "slab_in H j q" "(j, q) \<noteq> (i, r)" by (simp_all add: slab_in_upd [OF assms(1,2)])
  with that [of q] show thesis by simp
qed

lemma upd_slab_entries:
  assumes "sl_entry r' = sl_entry r" and "length H = 14"
  shows "map sl_entry (upd_slab H i r r' ! j) = map sl_entry (H ! j)" "length (upd_slab H i r r') = 14"
proof -
  have "map sl_entry (map (\<lambda>q. if q = r then r' else q) qs) = map sl_entry qs" for qs
    using assms(1) by (induction qs) simp_all
  then show "map sl_entry (upd_slab H i r r' ! j) = map sl_entry (H ! j)"
    by (cases "i < length H"; cases "j = i") (simp_all add: upd_slab_def list_update_beyond)
  show "length (upd_slab H i r r') = 14" using assms(2) by (simp add: upd_slab_def)
qed

lemma slot_bits [simp]: "slot i (r\<lparr>sl_bits := b\<rparr>) k = slot i r k"
  by (simp add: slot_def)

lemma entry_ok_upd:
  assumes len: "length H = 14" and r: "slab_in H i r" and e: "entry_ok K H j q" and q: "slab_in H j q"
    and keep: "\<And>k. i = 0 \<Longrightarrow> bit (sl_bits r) k \<Longrightarrow> \<not> bit b k \<Longrightarrow> sl_entry q \<noteq> slot 0 r k"
  shows "entry_ok K (upd_slab H i r (r\<lparr>sl_bits := b\<rparr>)) j (if (j, q) = (i, r) then r\<lparr>sl_bits := b\<rparr> else q)"
proof (cases "sl_entry q = slab_head K j")
  case True
  then show ?thesis by (auto simp: entry_ok_def)
next
  case False
  with e obtain r0 k where r0: "slab_in H 0 r0" "bit (sl_bits r0) k" "sl_entry q = slot 0 r0 k"
    "j = 0 \<longrightarrow> r0 = q \<and> k = 0" by (auto simp: entry_ok_def)
  let ?r' = "r\<lparr>sl_bits := b\<rparr>" and ?q = "if (j, q) = (i, r) then r\<lparr>sl_bits := b\<rparr> else q"
  have eq: "sl_entry ?q = sl_entry q" by auto
  show ?thesis
  proof (cases "(0, r0) = (i, r)")
    case True
    then have i0: "i = 0" and rr: "r0 = r" by simp_all
    have "bit b k" using keep [OF i0, of k] r0(2,3) rr by blast
    moreover have "slab_in (upd_slab H i r ?r') 0 ?r'" using slab_in_upd [OF len r] i0 by blast
    moreover have "j = 0 \<longrightarrow> ?r' = ?q \<and> k = 0" using r0(4) i0 rr by auto
    ultimately show ?thesis
      unfolding entry_ok_def eq using r0(3) rr by (intro disjI2 exI [of _ ?r'] exI [of _ k]) simp
  next
    case ne: False
    with r0(1) have "slab_in (upd_slab H i r ?r') 0 r0" by (simp add: slab_in_upd [OF len r])
    moreover have "j = 0 \<longrightarrow> r0 = ?q \<and> k = 0" using r0(4) ne by auto
    ultimately show ?thesis
      unfolding entry_ok_def eq using r0(2,3) by blast
  qed
qed

lemma heap_set_bits:
  assumes rel: "heap_rel K s A H" and r: "slab_in H i r" and b: "\<And>k. bit b k \<Longrightarrow> k < slots i"
    and keep: "\<And>k j q. i = 0 \<Longrightarrow> bit (sl_bits r) k \<Longrightarrow> \<not> bit b k \<Longrightarrow> slab_in H j q \<Longrightarrow> sl_entry q \<noteq> slot 0 r k"
  shows "heap_rel K (set_slab_bitmap (sl_entry r) b s) A (upd_slab H i r (r\<lparr>sl_bits := b\<rparr>))"
proof -
  let ?s = "set_slab_bitmap (sl_entry r) b s" and ?r = "r\<lparr>sl_bits := b\<rparr>"
  let ?H = "upd_slab H i r ?r"
  have len: "length H = 14" by (rule heap_relD(4) [OF rel])
  have st: "mem ?s = store64 (mem s) (sl_entry r + 8) b" "pmmap ?s = pmmap s" "memtotal ?s = memtotal s"
    by (simp_all add: set_slab_bitmap_def)
  have out: "mem ?s x = mem s x" if "\<not> in_block 24 (sl_entry r) (unat x)" for x
    unfolding st by (rule store_in_record [of _ "sl_entry r"]) (use that entry_bytes [OF rel r] in simp_all)
  have other: "slab_address (mem ?s) (sl_entry q) = slab_address (mem s) (sl_entry q)"
    "slab_bitmap (mem ?s) (sl_entry q) = slab_bitmap (mem s) (sl_entry q)"
    "slab_next (mem ?s) (sl_entry q) = slab_next (mem s) (sl_entry q)"
    if "slab_in H j q" "(j, q) \<noteq> (i, r)" for j q
    using that entries_apart [OF rel that(1) r that(2)] entry_bytes [OF rel that(1)] out
    by (auto intro!: fields_cong)
  have self: "slab_address (mem ?s) (sl_entry r) = slab_address (mem s) (sl_entry r)"
    "slab_bitmap (mem ?s) (sl_entry r) = b" "slab_next (mem ?s) (sl_entry r) = slab_next (mem s) (sl_entry r)"
    unfolding st by (simp_all add: fields_set)
  have nx: "slab_next (mem ?s) (sl_entry q) = slab_next (mem s) (sl_entry q)" if "slab_in H j q" for j q
    using that other(3) self(3) by (cases "(j, q) = (i, r)") auto
  have "mem ?s x = mem s x" if "cover A (unat x) \<noteq> 0" for x
    by (rule out) (use that entry_uncovered [OF rel r, of "unat x"] in auto)
  then have "pm_rel K ?s A" by (rule pm_rel_frame [OF heap_relD(1) [OF rel] st(2,3)])
  moreover have "chain (slab_next (mem ?s)) (slab_head K j) (map sl_entry (?H ! j))" if "j < 14" for j
  proof -
    have "chain (slab_next (mem ?s)) (slab_head K j) (map sl_entry (H ! j)) \<longleftrightarrow>
        chain (slab_next (mem s)) (slab_head K j) (map sl_entry (H ! j))"
      by (rule chain_cong) (use that nx in \<open>auto simp: slab_in_def\<close>)
    with heap_relD(5) [OF rel that] show ?thesis using upd_slab_entries(1) [of ?r r H i j] len by simp
  qed
  moreover have "slab_ok K ?s A ?H j q" if q: "slab_in ?H j q" for j q
  proof (cases "j = i \<and> q = ?r")
    case True
    have "entry_ok K ?H i ?r"
      using entry_ok_upd [OF len r slab_okD(7) [OF heap_relD(6) [OF rel r]] r keep [OF _ _ _ r]] by simp
    with True heap_relD(6) [OF rel r] self b show ?thesis unfolding slab_ok_def st(3) by simp
  next
    case False
    with q have q': "slab_in H j q" "(j, q) \<noteq> (i, r)" by (auto simp: slab_in_upd [OF len r])
    have k: "sl_entry q \<noteq> slot 0 r k" if "i = 0" "bit (sl_bits r) k" "\<not> bit b k" for k
      by (rule keep [OF that q'(1)])
    have "entry_ok K ?H j (if (j, q) = (i, r) then ?r else q)"
      by (rule entry_ok_upd [OF len r slab_okD(7) [OF heap_relD(6) [OF rel q'(1)]] q'(1)]) (rule k)
    then have "entry_ok K ?H j q" by (simp only: q'(2) if_False)
    with heap_relD(6) [OF rel q'(1)] other [OF q'] show ?thesis unfolding slab_ok_def st(3) by simp
  qed
  moreover have "sl_entry q \<noteq> sl_entry q' \<and>
      (\<forall>x. \<not> (in_block (page_sz j) (sl_page q) x \<and> in_block (page_sz j') (sl_page q') x))"
    if q: "slab_in ?H j q" "slab_in ?H j' q'" "(j, q) \<noteq> (j', q')" for j q j' q'
  proof -
    obtain o1 where o1: "slab_in H j o1" "sl_entry o1 = sl_entry q" "sl_page o1 = sl_page q"
        "o1 = r \<and> j = i \<and> q = ?r \<or> o1 = q \<and> (j, q) \<noteq> (i, r)" by (rule slab_in_updE [OF len r q(1)])
    obtain o2 where o2: "slab_in H j' o2" "sl_entry o2 = sl_entry q'" "sl_page o2 = sl_page q'"
        "o2 = r \<and> j' = i \<and> q' = ?r \<or> o2 = q' \<and> (j', q') \<noteq> (i, r)" by (rule slab_in_updE [OF len r q(2)])
    have "(j, o1) \<noteq> (j', o2)" using q(3) o1(4) o2(4) by auto
    from heap_relD(7,8) [OF rel o1(1) o2(1) this] show ?thesis unfolding o1(2,3) o2(2,3) by blast
  qed
  moreover have "length ?H = 14" using upd_slab_entries(2) [of ?r r H i] len by simp
  ultimately show ?thesis
    using heap_relD(2,3) [OF rel] unfolding heap_rel_def by blast
qed

section \<open>The search for a free slot\<close>

definition slot_free :: "nat \<Rightarrow> slab \<Rightarrow> nat option" where
  "slot_free i r = first_free (sl_bits r) (slots i)"

lemma bit_test: "bitmap AND 2 ^ k = 0 \<longleftrightarrow> \<not> (k < 64 \<and> bit bitmap k)" for bitmap :: uint64
proof -
  have "bit (bitmap AND 2 ^ k) n \<longleftrightarrow> n = k \<and> k < 64 \<and> bit bitmap k" for n
    by (auto simp: bit_and_iff bit_exp_iff dest: bit_imp_le_length)
  then show ?thesis by (metis bit_eqI bit_0_eq bot_apply bot_bool_def)
qed

lemma slot_free_Some:
  assumes "slot_free i r = Some k" and "i < 14"
  shows "k < slots i" "\<not> bit (sl_bits r) k"
proof -
  from assms(1) have k: "k < slots i" "sl_bits r AND 2 ^ k = 0"
    by (auto simp: slot_free_def first_free_def find_Some_iff)
  then show "k < slots i" by simp
  from k slots_bounds [OF assms(2)] show "\<not> bit (sl_bits r) k" by (auto simp: bit_test)
qed

lemma slot_free_None:
  assumes "slot_free i r = None" and "k < slots i"
  shows "bit (sl_bits r) k"
  using assms by (auto simp: slot_free_def first_free_def find_None_iff bit_test)

lemma full_bitmap: "i < 14 \<Longrightarrow> sl_bits r = 0xFFFFFFFFFFFFFFFF \<Longrightarrow> slot_free i r = None"
proof (rule ccontr)
  assume i: "i < 14" and full: "sl_bits r = 0xFFFFFFFFFFFFFFFF" and "slot_free i r \<noteq> None"
  then obtain k where k: "slot_free i r = Some k" by auto
  have "sl_bits r = - 1" unfolding full by simp
  then have "bit (sl_bits r) k"
    using slot_free_Some(1) [OF k i] slots_bounds [OF i] by (simp add: bit_minus_1_iff)
  with slot_free_Some(2) [OF k i] show False by simp
qed

lemma find_free_loop_spec:
  assumes "chain (slab_next (mem s)) e (map sl_entry rs)" and "length rs < fuel" and i: "i < 14"
    and "\<And>r. r \<in> set rs \<Longrightarrow> slab_bitmap (mem s) (sl_entry r) = sl_bits r \<and> slab_address (mem s) (sl_entry r) = sl_page r"
  shows "find_free_loop fuel (of_nat (slot_sz i)) (of_nat (slots i)) e s =
    (case find (\<lambda>r. slot_free i r \<noteq> None) rs of
       None \<Rightarrow> Inr (NULL, s)
     | Some r \<Rightarrow> let k = the (slot_free i r) in
         Inr (slot i r k, set_slab_bitmap (sl_entry r) (sl_bits r OR push_bit k 1) s))"
  using assms(1,2,4)
proof (induction rs arbitrary: e fuel)
  case Nil
  then obtain f where "fuel = Suc f" by (cases fuel) auto
  with Nil show ?case by simp
next
  case (Cons r rs)
  then obtain f where f: "fuel = Suc f" "length rs < f" by (cases fuel) auto
  from Cons.prems have e: "e = sl_entry r" "e \<noteq> NULL" "chain (slab_next (mem s)) (slab_next (mem s) e) (map sl_entry rs)"
    by auto
  have b: "slab_bitmap (mem s) e = sl_bits r" "slab_address (mem s) e = sl_page r" using Cons.prems(3) e by auto
  have pages: "unat (of_nat (slots i) :: uint64) = slots i"
    using slots_bounds [OF i] by (intro unat_of_nat_small) linarith
  have ff: "(if sl_bits r \<noteq> 0xFFFFFFFFFFFFFFFF then first_free (sl_bits r) (slots i) else None) = slot_free i r"
    using full_bitmap [OF i, of r] by (simp add: slot_free_def)
  have keep: "slab_address (mem (set_slab_bitmap e v s)) e = sl_page r" for v
    using b by (simp add: set_slab_bitmap_def fields_set)
  show ?case
  proof (cases "slot_free i r")
    case None
    with Cons.IH [OF e(3) f(2)] Cons.prems(3) have
      "find_free_loop f (of_nat (slot_sz i)) (of_nat (slots i)) (slab_next (mem s) e) s =
        (case find (\<lambda>r. slot_free i r \<noteq> None) (r # rs) of None \<Rightarrow> Inr (NULL, s)
         | Some r \<Rightarrow> let k = the (slot_free i r) in
             Inr (slot i r k, set_slab_bitmap (sl_entry r) (sl_bits r OR push_bit k 1) s))" by simp
    with None e(2) show ?thesis unfolding f(1) by (simp only: find_free_loop.simps b pages Let_def ff) simp
  next
    case (Some k)
    with e(2) keep show ?thesis
      unfolding f(1) by (simp only: find_free_loop.simps b pages Let_def ff) (simp add: slot_def e(1) [symmetric])
  qed
qed

lemma slab_last_spec:
  assumes "chain (slab_next m) e (map sl_entry (rs @ [r]))" and "length rs < fuel"
  shows "slab_last fuel m e = Inr (sl_entry r)"
  using assms
proof (induction rs arbitrary: e fuel)
  case Nil
  then obtain f where "fuel = Suc f" by (cases fuel) auto
  with Nil show ?case by auto
next
  case (Cons q rs)
  then obtain f where f: "fuel = Suc f" "length rs < f" by (cases fuel) auto
  from Cons.prems have e: "chain (slab_next m) (slab_next m e) (map sl_entry (rs @ [r]))" by auto
  have "slab_next m e \<noteq> NULL" using e by (cases rs) auto
  with Cons.IH [OF e f(2)] f(1) show ?case by simp
qed

text \<open>The chains are shorter than the number of pages of memory, so the search loops have steps enough.\<close>

definition fuel_ok :: "klayout \<Rightarrow> kstate \<Rightarrow> bool" where
  "fuel_ok K s \<longleftrightarrow> unat (memtotal s) div 4096 < loop_fuel K"

lemma disjoint_pages_bound:
  assumes "\<And>r. r \<in> set rs \<Longrightarrow> unat (sl_page r) + n \<le> M" and "0 < n"
    and "distinct rs" and "\<And>r r' x. r \<in> set rs \<Longrightarrow> r' \<in> set rs \<Longrightarrow> r \<noteq> r' \<Longrightarrow>
      \<not> (in_block n (sl_page r) x \<and> in_block n (sl_page r') x)"
  shows "length rs * n \<le> M"
proof -
  let ?B = "\<lambda>r. {unat (sl_page r)..<unat (sl_page r) + n}"
  have "?B r \<inter> ?B r' = {}" if "r \<in> set rs" "r' \<in> set rs" "r \<noteq> r'" for r r'
  proof (rule equals0I)
    fix x assume "x \<in> ?B r \<inter> ?B r'"
    with assms(4) [OF that, of x] show False by (simp add: in_block_def)
  qed
  then have "card (\<Union> (?B ` set rs)) = (\<Sum>r \<in> set rs. card (?B r))"
    by (intro card_UN_disjoint) simp_all
  also have "\<dots> = length rs * n" using assms(3) by (simp add: distinct_card)
  finally have "length rs * n = card (\<Union> (?B ` set rs))" by simp
  also have "\<dots> \<le> card {..<M}" by (rule card_mono) (use assms(1) in force)+
  finally show ?thesis by simp
qed

lemma chain_length:
  assumes rel: "heap_rel K s A H" and i: "i < 14" and f: "fuel_ok K s"
  shows "length (H ! i) < loop_fuel K"
proof -
  have in_H: "slab_in H i r" if "r \<in> set (H ! i)" for r using that i by (simp add: slab_in_def)
  have "length (H ! i) * page_sz i \<le> unat (memtotal s)"
  proof (rule disjoint_pages_bound)
    show "unat (sl_page r) + page_sz i \<le> unat (memtotal s)" if "r \<in> set (H ! i)" for r
      using slab_okD(4) [OF heap_relD(6) [OF rel in_H [OF that]]] by (simp add: block_ok_def)
    show "0 < page_sz i" by (simp add: page_sz_def)
    have "distinct (map sl_entry (H ! i))" by (rule chain_distinct [OF heap_relD(5) [OF rel i]])
    then show "distinct (H ! i)" by (simp add: distinct_map)
    show "\<not> (in_block (page_sz i) (sl_page r) x \<and> in_block (page_sz i) (sl_page r') x)"
      if "r \<in> set (H ! i)" "r' \<in> set (H ! i)" "r \<noteq> r'" for r r' x
      using heap_relD(8) [OF rel in_H in_H] that by blast
  qed
  then have "length (H ! i) * 4096 \<le> unat (memtotal s)"
    using mult_le_mono2 [of 4096 "page_sz i" "length (H ! i)"] by (simp add: page_sz_def split: if_splits)
  then have "length (H ! i) \<le> unat (memtotal s) div 4096" by (simp add: less_eq_div_iff_mult_less_eq)
  with f show ?thesis by (simp add: fuel_ok_def)
qed

lemma heap_nonempty:
  assumes rel: "heap_rel K s A H" and i: "i < 14"
  obtains rs r where "H ! i = rs @ [r]"
proof -
  have "slab_head K i \<noteq> NULL"
    using unat_slab_head(1) [OF heap_relD(3) [OF rel] i] heap_relD(3) [OF rel]
    by (auto simp: heap_layout_def word_unat_eq_iff)
  with heap_relD(5) [OF rel i] have "H ! i \<noteq> []" by (cases "H ! i") auto
  then show thesis using that by (metis append_butlast_last_id)
qed

text \<open>The search of a class.\<close>

lemma class_words:
  assumes "i < 14"
  shows "push_bit i SLAB_MIN_SIZE = of_nat (slot_sz i)"
    and "(if push_bit i SLAB_MIN_SIZE > KiB 4 then PM_512K div push_bit i SLAB_MIN_SIZE
       else PM_4K div push_bit i SLAB_MIN_SIZE) = of_nat (slots i)"
  using assms
  by (elim class_cases; simp add: SLAB_MIN_SIZE_def slot_sz_def slots_def page_sz_def KiB_def PM_values)+

lemma find_free_slab_spec:
  assumes rel: "heap_rel K s A H" and i: "i < 14" and f: "fuel_ok K s"
  shows "find_free_slab K i s =
    (case find (\<lambda>r. slot_free i r \<noteq> None) (H ! i) of
       None \<Rightarrow> Inr (NULL, s)
     | Some r \<Rightarrow> let k = the (slot_free i r) in
         Inr (slot i r k, set_slab_bitmap (sl_entry r) (sl_bits r OR push_bit k 1) s))"
proof -
  have "find_free_slab K i s = find_free_loop (loop_fuel K) (of_nat (slot_sz i)) (of_nat (slots i)) (slab_head K i) s"
    unfolding find_free_slab_def Let_def class_words(2) [OF i]
    unfolding class_words(1) [OF i] using i by (simp add: SLAB_NUM_def)
  also have "\<dots> = (case find (\<lambda>r. slot_free i r \<noteq> None) (H ! i) of
       None \<Rightarrow> Inr (NULL, s)
     | Some r \<Rightarrow> let k = the (slot_free i r) in
         Inr (slot i r k, set_slab_bitmap (sl_entry r) (sl_bits r OR push_bit k 1) s))"
    by (rule find_free_loop_spec [OF heap_relD(5) [OF rel i] chain_length [OF rel i f] i])
      (use slab_okD(1,2) [OF heap_relD(6) [OF rel]] i in \<open>auto simp: slab_in_def\<close>)
  finally show ?thesis .
qed

section \<open>Linking a new record\<close>

text \<open>
  A new slab needs a record outside every record and every free block, and a page outside every
  page.  Its link is the end of the chain, and the last record of the class is made to point to it.
\<close>

definition add_slab :: "heap_abs \<Rightarrow> nat \<Rightarrow> slab \<Rightarrow> heap_abs" where
  "add_slab H i r = H[i := H ! i @ [r]]"

lemma slab_in_add:
  assumes "length H = 14" and "i < 14"
  shows "slab_in (add_slab H i r) j q \<longleftrightarrow> j = i \<and> q = r \<or> slab_in H j q"
  using assms by (auto simp: slab_in_def add_slab_def split: if_splits)

lemma entry_ok_add: "length H = 14 \<Longrightarrow> i < 14 \<Longrightarrow> entry_ok K H j q \<Longrightarrow> entry_ok K (add_slab H i r) j q"
  unfolding entry_ok_def by (auto simp: slab_in_add)

lemma heap_link:
  assumes rel: "heap_rel K s A H" and i: "i < 14"
    and new: "slab_address (mem s) (sl_entry r) = sl_page r" "slab_bitmap (mem s) (sl_entry r) = sl_bits r"
      "slab_next (mem s) (sl_entry r) = NULL" "sl_entry r \<noteq> NULL"
    and bits: "\<And>k. bit (sl_bits r) k \<Longrightarrow> k < slots i"
    and page: "page_ok K (memtotal s) A i (sl_page r)"
    and place: "entry_ok K (add_slab H i r) i r" "unat (sl_entry r) + 24 < 18446744073709551616"
    and recs: "\<And>j q x. slab_in H j q \<Longrightarrow> \<not> (in_block 24 (sl_entry r) x \<and> in_block 24 (sl_entry q) x)"
    and pages: "\<And>j q x. slab_in H j q \<Longrightarrow> \<not> (in_block (page_sz i) (sl_page r) x \<and> in_block (page_sz j) (sl_page q) x)"
    and last: "H ! i = rs @ [l]"
  shows "heap_rel K (set_slab_next (sl_entry l) (sl_entry r) s) A (add_slab H i r)"
proof -
  let ?s = "set_slab_next (sl_entry l) (sl_entry r) s" and ?H = "add_slab H i r"
  have len: "length H = 14" by (rule heap_relD(4) [OF rel])
  have l: "slab_in H i l" using last i by (simp add: slab_in_def)
  have st: "mem ?s = store64 (mem s) (sl_entry l + 16) (sl_entry r)" "pmmap ?s = pmmap s" "memtotal ?s = memtotal s"
    by (simp_all add: set_slab_next_def)
  have out: "mem ?s x = mem s x" if "\<not> in_block 24 (sl_entry l) (unat x)" for x
    unfolding st by (rule store_in_record [of _ "sl_entry l"]) (use that entry_bytes [OF rel l] in simp_all)
  have rb: "x \<in> bytes_at (sl_entry r) 24 \<longleftrightarrow> in_block 24 (sl_entry r) (unat x)" for x
    using bytes_at_in_block [of "sl_entry r" 24] place(2) by simp
  have newf: "slab_address (mem ?s) (sl_entry r) = sl_page r" "slab_bitmap (mem ?s) (sl_entry r) = sl_bits r"
    "slab_next (mem ?s) (sl_entry r) = NULL"
    using new(1-3) fields_cong [of "sl_entry r" "mem ?s" "mem s"] out recs [OF l] rb by auto
  have selff: "slab_address (mem ?s) (sl_entry l) = slab_address (mem s) (sl_entry l)"
    "slab_bitmap (mem ?s) (sl_entry l) = slab_bitmap (mem s) (sl_entry l)" "slab_next (mem ?s) (sl_entry l) = sl_entry r"
    unfolding st by (simp_all add: fields_set)
  have other: "slab_address (mem ?s) (sl_entry q) = slab_address (mem s) (sl_entry q)"
    "slab_bitmap (mem ?s) (sl_entry q) = slab_bitmap (mem s) (sl_entry q)"
    "slab_next (mem ?s) (sl_entry q) = slab_next (mem s) (sl_entry q)"
    if "slab_in H j q" "(j, q) \<noteq> (i, l)" for j q
    using that entries_apart [OF rel that(1) l that(2)] entry_bytes [OF rel that(1)] out
    by (auto intro!: fields_cong)
  have ab: "slab_address (mem ?s) (sl_entry q) = sl_page q" "slab_bitmap (mem ?s) (sl_entry q) = sl_bits q"
    if "slab_in H j q" for j q
    using slab_okD(1,2) [OF heap_relD(6) [OF rel that]] other(1,2) [OF that] selff(1,2)
    by (cases "(j, q) = (i, l)"; simp)+
  have ne: "sl_entry r \<noteq> sl_entry q" if "slab_in H j q" for j q
    using recs [OF that, of "unat (sl_entry q)"] by (auto simp: in_block_def)
  have "mem ?s x = mem s x" if "cover A (unat x) \<noteq> 0" for x
    by (rule out) (use that entry_uncovered [OF rel l, of "unat x"] in auto)
  then have pm: "pm_rel K ?s A" by (rule pm_rel_frame [OF heap_relD(1) [OF rel] st(2,3)])
  have ch: "chain (slab_next (mem ?s)) (slab_head K j) (map sl_entry (?H ! j))" if j: "j < 14" for j
  proof (cases "j = i")
    case True
    have "sl_entry r \<noteq> sl_entry q" if "q \<in> set (rs @ [l])" for q
      using ne [of i q] that last i by (simp add: slab_in_def)
    then have "sl_entry r \<notin> set (map sl_entry rs @ [sl_entry l])" by auto
    then have "chain ((slab_next (mem s))(sl_entry l := sl_entry r, sl_entry r := NULL)) (slab_head K i)
        (map sl_entry rs @ [sl_entry l, sl_entry r])"
      by (intro chain_snoc new(4)) (use heap_relD(5) [OF rel i] last in simp)
    moreover have "chain ((slab_next (mem s))(sl_entry l := sl_entry r, sl_entry r := NULL)) (slab_head K i)
        (map sl_entry rs @ [sl_entry l, sl_entry r]) \<longleftrightarrow>
      chain (slab_next (mem ?s)) (slab_head K i) (map sl_entry rs @ [sl_entry l, sl_entry r])"
    proof (rule chain_cong)
      have d: "distinct (map sl_entry (rs @ [l]))" using chain_distinct [OF heap_relD(5) [OF rel i]] last by simp
      have nel: "sl_entry q \<noteq> sl_entry l" if "q \<in> set rs" for q using d imageI [OF that, of sl_entry] by auto
      have rs: "slab_next (mem ?s) (sl_entry q) = slab_next (mem s) (sl_entry q)" "sl_entry q \<noteq> sl_entry l"
        "sl_entry r \<noteq> sl_entry q" if "q \<in> set rs" for q
        using that last i nel [OF that] other(3) [of i q] ne [of i q] by (auto simp: slab_in_def)
      show "((slab_next (mem s))(sl_entry l := sl_entry r, sl_entry r := NULL)) a = slab_next (mem ?s) a"
        if "a \<in> set (map sl_entry rs @ [sl_entry l, sl_entry r])" for a
        using that rs selff(3) newf(3) ne [OF l] by auto
    qed
    ultimately show ?thesis using True last len i by (simp add: add_slab_def)
  next
    case False
    have "chain (slab_next (mem ?s)) (slab_head K j) (map sl_entry (H ! j)) \<longleftrightarrow>
        chain (slab_next (mem s)) (slab_head K j) (map sl_entry (H ! j))"
      by (rule chain_cong) (use j False other(3) in \<open>auto simp: slab_in_def\<close>)
    with heap_relD(5) [OF rel j] False show ?thesis by (simp add: add_slab_def)
  qed
  have ok: "slab_ok K ?s A ?H j q" if q: "slab_in ?H j q" for j q
  proof (cases "j = i \<and> q = r")
    case True
    with newf bits page place(1) show ?thesis unfolding slab_ok_def st(3) by simp
  next
    case False
    with q have q': "slab_in H j q" by (auto simp: slab_in_add [OF len i])
    have "entry_ok K ?H j q" by (rule entry_ok_add [OF len i slab_okD(7) [OF heap_relD(6) [OF rel q']]])
    with heap_relD(6) [OF rel q'] ab [OF q'] show ?thesis unfolding slab_ok_def st(3) by simp
  qed
  have sep: "sl_entry q \<noteq> sl_entry q' \<and>
      (\<forall>x. \<not> (in_block (page_sz j) (sl_page q) x \<and> in_block (page_sz j') (sl_page q') x))"
    if q: "slab_in ?H j q" "slab_in ?H j' q'" "(j, q) \<noteq> (j', q')" for j q j' q'
  proof -
    consider "slab_in H j q" "slab_in H j' q'" | "j = i" "q = r" "slab_in H j' q'" | "slab_in H j q" "j' = i" "q' = r"
      using q by (auto simp: slab_in_add [OF len i])
    then show ?thesis
    proof cases
      case 1
      from heap_relD(7,8) [OF rel 1 q(3)] show ?thesis by blast
    next
      case 2
      with ne pages show ?thesis by blast
    next
      case 3
      with ne [OF 3(1)] pages [OF 3(1)] show ?thesis by auto
    qed
  qed
  have "length ?H = 14" using len by (simp add: add_slab_def)
  with pm heap_relD(2,3) [OF rel] ch ok sep show ?thesis unfolding heap_rel_def by blast
qed

end
