(* ===== verification/HeapAlloc.thy ===== *)
theory HeapAlloc
  imports Heap
begin

text \<open>
  \<^verbatim>\<open>kmalloc\<close> on the abstract heap: what it grants, and what it leaves alone.
\<close>

section \<open>Live objects\<close>

definition entries :: "heap_abs \<Rightarrow> uint64 set" where
  "entries H = {e. \<exists>i r. slab_in H i r \<and> e = sl_entry r}"

definition live :: "heap_abs \<Rightarrow> (uint64 \<times> nat) set" where
  "live H = {(a, n). \<exists>i r k. slab_in H i r \<and> bit (sl_bits r) k \<and> a = slot i r k \<and> n = slot_sz i \<and> a \<notin> entries H}"

definition heap_bytes :: "klayout \<Rightarrow> heap_abs \<Rightarrow> nat set" where
  "heap_bytes K H = {x. in_block 336 (slabs_at K) x \<or>
     (\<exists>i r. slab_in H i r \<and> in_block (page_sz i) (sl_page r) x)}"

text \<open>
  The step from one heap to the next that a request may make: the objects in \<open>L\<close> keep their contents, and
  memory that is neither free nor the heap's keeps its contents as well.
\<close>

definition heap_step :: "klayout \<Rightarrow> (uint64 \<times> nat) set \<Rightarrow> kstate \<Rightarrow> pm_abs \<Rightarrow> heap_abs \<Rightarrow> kstate \<Rightarrow> pm_abs \<Rightarrow> heap_abs \<Rightarrow> bool" where
  "heap_step K L s A H s' A' H' \<longleftrightarrow> heap_rel K s' A' H' \<and> s' = s\<lparr>mem := mem s', pmmap := pmmap s'\<rparr> \<and>
     (\<forall>x. cover A' x \<le> cover A x) \<and>
     (\<forall>x \<in> heap_bytes K H'. x \<in> heap_bytes K H \<or> cover A x = 1) \<and>
     (\<forall>x. cover A (unat x) = 0 \<longrightarrow> unat x \<notin> heap_bytes K H \<longrightarrow> mem s' x = mem s x) \<and>
     (\<forall>a n x. (a, n) \<in> L \<longrightarrow> in_block n a (unat x) \<longrightarrow> mem s' x = mem s x)"

definition heap_grant ::
  "klayout \<Rightarrow> kstate \<Rightarrow> pm_abs \<Rightarrow> heap_abs \<Rightarrow> uint64 \<Rightarrow> nat \<Rightarrow> kstate \<Rightarrow> pm_abs \<Rightarrow> heap_abs \<Rightarrow> bool" where
  "heap_grant K s A H a n s' A' H' \<longleftrightarrow> heap_step K (live H) s A H s' A' H' \<and> live H' = insert (a, n) (live H) \<and>
     a \<noteq> NULL \<and> kernel_end K \<le> a \<and> unat a + n < 18446744073709551616 \<and>
     (\<forall>x. in_block n a (unat x) \<longrightarrow> mem s' x = 0) \<and>
     (\<forall>a' n' x. (a', n') \<in> live H \<longrightarrow> \<not> (in_block n a x \<and> in_block n' a' x))"

lemma slot_not_entry:
  assumes rel: "heap_rel K s A H" and r: "slab_in H i r" and k: "k < slots i" and free: "\<not> bit (sl_bits r) k"
    and q: "slab_in H j q" and x: "in_block (slot_sz i) (slot i r k) x"
  shows "\<not> in_block 24 (sl_entry q) x"
proof (rule entry_place [OF rel q])
  assume "unat (sl_entry q) + 24 \<le> unat (kernel_end K)"
  moreover have "unat (kernel_end K) \<le> x"
    using page_above_kernel [OF slab_okD(4) [OF heap_relD(6) [OF rel r]]]
      slot_in_page [OF slab_okD(4) [OF heap_relD(6) [OF rel r]] _ k x] r by (simp add: slab_in_def)
  ultimately show ?thesis by (simp add: in_block_def)
next
  fix r0 l
  assume e: "slab_in H 0 r0" "bit (sl_bits r0) l" "\<And>x. in_block 24 (sl_entry q) x \<Longrightarrow> in_block 64 (slot 0 r0 l) x"
  have "(i, r, k) \<noteq> (0, r0, l)" using free e(2) by auto
  from slots_of_pages_apart [OF rel r e(1) k _ this, of x] slab_okD(3) [OF heap_relD(6) [OF rel e(1)] e(2)] x e(3)
  show ?thesis by auto
qed

lemma slot_start: "in_block (slot_sz i) (slot i r k) (unat (slot i r k))"
  by (simp add: in_block_def slot_sz_def)

lemma entries_upd:
  "length H = 14 \<Longrightarrow> slab_in H i r \<Longrightarrow> entries (upd_slab H i r (r\<lparr>sl_bits := b\<rparr>)) = entries H"
  unfolding entries_def by (auto simp: slab_in_upd) (metis slab.select_convs(1) slab.surjective slab.update_convs(3))+

lemma liveI: "slab_in H i r \<Longrightarrow> bit (sl_bits r) k \<Longrightarrow> slot i r k \<notin> entries H \<Longrightarrow> (slot i r k, slot_sz i) \<in> live H"
  by (auto simp: live_def)

lemma liveE:
  assumes "(a, n) \<in> live H"
  obtains i r k where "slab_in H i r" and "bit (sl_bits r) k" and "a = slot i r k" and "n = slot_sz i"
    and "slot i r k \<notin> entries H"
  using assms by (auto simp: live_def)

lemma live_upd:
  assumes len: "length H = 14" and r: "slab_in H i r" and b: "\<And>l. bit b l \<longleftrightarrow> l = k \<or> bit (sl_bits r) l"
    and new: "slot i r k \<notin> entries H"
  shows "live (upd_slab H i r (r\<lparr>sl_bits := b\<rparr>)) = insert (slot i r k, slot_sz i) (live H)"
proof (rule set_eqI, rule iffI)
  fix an assume "an \<in> live (upd_slab H i r (r\<lparr>sl_bits := b\<rparr>))"
  then obtain j q l where q: "slab_in (upd_slab H i r (r\<lparr>sl_bits := b\<rparr>)) j q" "bit (sl_bits q) l"
    "an = (slot j q l, slot_sz j)" "slot j q l \<notin> entries H"
    by (auto simp: live_def entries_upd [OF len r])
  show "an \<in> insert (slot i r k, slot_sz i) (live H)"
  proof (cases "j = i \<and> q = r\<lparr>sl_bits := b\<rparr>")
    case True
    with q b have "l = k \<or> bit (sl_bits r) l" by simp
    with True q r show ?thesis by (auto simp: live_def)
  next
    case False
    with q(1) have "slab_in H j q" by (auto simp: slab_in_upd [OF len r])
    with q show ?thesis by (auto simp: live_def)
  qed
next
  fix an assume an: "an \<in> insert (slot i r k, slot_sz i) (live H)"
  let ?r = "r\<lparr>sl_bits := b\<rparr>"
  have in': "slab_in (upd_slab H i r ?r) i ?r" using slab_in_upd [OF len r] by blast
  show "an \<in> live (upd_slab H i r ?r)"
  proof (cases "an = (slot i r k, slot_sz i)")
    case True
    have "bit (sl_bits ?r) k" using b by simp
    from liveI [OF in' this] True new show ?thesis by (simp add: entries_upd [OF len r])
  next
    case False
    with an obtain j q l where q: "slab_in H j q" "bit (sl_bits q) l" "an = (slot j q l, slot_sz j)" "slot j q l \<notin> entries H"
      by (auto simp: live_def)
    show ?thesis
    proof (cases "(j, q) = (i, r)")
      case True
      then have "bit (sl_bits ?r) l" using q(2) b by simp
      from liveI [OF in' this] True q show ?thesis by (simp add: entries_upd [OF len r])
    next
      case False
      with q(1) have "slab_in (upd_slab H i r ?r) j q" using slab_in_upd [OF len r] by blast
      from liveI [OF this q(2)] q show ?thesis by (simp add: entries_upd [OF len r])
    qed
  qed
qed

section \<open>A free slot\<close>

lemma memset_slot:
  assumes "block_ok K mt (page_sz i) (sl_page r)" and "i < 14" and "k < slots i"
  shows "memset m (slot i r k) 0 (of_nat (slot_sz i)) x = (if in_block (slot_sz i) (slot i r k) (unat x) then 0 else m x)"
proof -
  have "unat (of_nat (slot_sz i) :: uint64) = slot_sz i"
    using slot_sz_bounds [OF assms(2)] by (intro unat_of_nat_small) linarith
  moreover have "unat (slot i r k) + slot_sz i \<le> 18446744073709551616"
    using unat_slot [OF assms] slot_fits [OF assms(2,3)] block_ok_no_wrap [OF assms(1)] by linarith
  ultimately show ?thesis by (simp add: memset_apply bytes_at_in_block)
qed

lemma record_in_heap:
  assumes rel: "heap_rel K s A H" and r: "slab_in H i r" and x: "in_block 24 (sl_entry r) x"
  shows "x \<in> heap_bytes K H"
proof (rule entry_place [OF rel r])
  assume e: "sl_entry r = slab_head K i"
  have i: "i < 14" using r by (simp add: slab_in_def)
  from x have "unat (slabs_at K) + 24 * i \<le> x \<and> x < unat (slabs_at K) + 24 * i + 24"
    unfolding e in_block_def unat_slab_head(1) [OF heap_relD(3) [OF rel] i] .
  then show ?thesis using i by (simp add: heap_bytes_def in_block_def)
next
  fix r0 k
  assume "slab_in H 0 r0" "\<And>x. in_block 24 (sl_entry r) x \<Longrightarrow> in_block 64 (slot 0 r0 k) x"
    "\<And>x. in_block 64 (slot 0 r0 k) x \<Longrightarrow> in_block 4096 (sl_page r0) x"
  with x show ?thesis by (force simp: heap_bytes_def)
qed

lemma live_not_record:
  assumes rel: "heap_rel K s A H" and l: "(a, n) \<in> live H" and q: "slab_in H j q" and x: "in_block n a x"
  shows "\<not> in_block 24 (sl_entry q) x"
proof -
  from l obtain i r k where r: "slab_in H i r" "bit (sl_bits r) k" "a = slot i r k" "n = slot_sz i" "slot i r k \<notin> entries H"
    by (rule liveE)
  note ok = heap_relD(6) [OF rel r(1)]
  show ?thesis
  proof (rule entry_place [OF rel q])
    assume "unat (sl_entry q) + 24 \<le> unat (kernel_end K)"
    moreover have "unat (kernel_end K) \<le> x"
      using page_above_kernel [OF slab_okD(4) [OF ok]] slot_in_page [OF slab_okD(4) [OF ok] _ slab_okD(3) [OF ok r(2)]]
        x r by (simp add: slab_in_def)
    ultimately show ?thesis by (simp add: in_block_def)
  next
    fix r0 l
    assume e: "slab_in H 0 r0" "bit (sl_bits r0) l" "sl_entry q = slot 0 r0 l"
      "\<And>x. in_block 24 (sl_entry q) x \<Longrightarrow> in_block 64 (slot 0 r0 l) x"
    have "slot i r k \<noteq> sl_entry q" using r(5) q by (auto simp: entries_def)
    then have "(i, r, k) \<noteq> (0, r0, l)" using e(3) by auto
    from slots_of_pages_apart [OF rel r(1) e(1) slab_okD(3) [OF ok r(2)] _ this, of x]
      slab_okD(3) [OF heap_relD(6) [OF rel e(1)] e(2)] x e(4) r
    show ?thesis by auto
  qed
qed

lemma live_uncovered:
  assumes rel: "heap_rel K s A H" and l: "(a, n) \<in> live H" and x: "in_block n a x"
  shows "cover A x = 0" and "x \<in> heap_bytes K H"
proof -
  from l obtain i r k where r: "slab_in H i r" "bit (sl_bits r) k" "a = slot i r k" "n = slot_sz i" by (rule liveE)
  note ok = heap_relD(6) [OF rel r(1)]
  have "in_block (page_sz i) (sl_page r) x"
    using slot_in_page [OF slab_okD(4) [OF ok] _ slab_okD(3) [OF ok r(2)]] x r by (simp add: slab_in_def)
  then show "cover A x = 0" "x \<in> heap_bytes K H" using slab_okD(6) [OF ok] r(1) by (auto simp: heap_bytes_def)
qed

lemma heap_bytes_upd:
  assumes len: "length H = 14" and r: "slab_in H i r"
  shows "heap_bytes K (upd_slab H i r (r\<lparr>sl_bits := b\<rparr>)) = heap_bytes K H"
proof (rule set_eqI, rule iffI)
  fix x assume x: "x \<in> heap_bytes K (upd_slab H i r (r\<lparr>sl_bits := b\<rparr>))"
  have "x \<in> heap_bytes K H" if q: "slab_in (upd_slab H i r (r\<lparr>sl_bits := b\<rparr>)) j q"
    "in_block (page_sz j) (sl_page q) x" for j q
  proof -
    obtain q0 where "slab_in H j q0" "sl_page q0 = sl_page q" by (rule slab_in_updE [OF len r q(1)])
    with q(2) show ?thesis by (force simp: heap_bytes_def)
  qed
  with x show "x \<in> heap_bytes K H" unfolding heap_bytes_def by blast
next
  fix x assume x: "x \<in> heap_bytes K H"
  have "\<exists>j' q'. slab_in (upd_slab H i r (r\<lparr>sl_bits := b\<rparr>)) j' q' \<and> in_block (page_sz j') (sl_page q') x"
    if q: "slab_in H j q" "in_block (page_sz j) (sl_page q) x" for j q
  proof (cases "(j, q) = (i, r)")
    case True
    moreover have "slab_in (upd_slab H i r (r\<lparr>sl_bits := b\<rparr>)) i (r\<lparr>sl_bits := b\<rparr>)" using slab_in_upd [OF len r] by blast
    ultimately show ?thesis using q(2) by (intro exI [of _ i] exI [of _ "r\<lparr>sl_bits := b\<rparr>"]) simp
  next
    case False
    with q(1) have "slab_in (upd_slab H i r (r\<lparr>sl_bits := b\<rparr>)) j q" using slab_in_upd [OF len r] by blast
    with q(2) show ?thesis by blast
  qed
  with x show "x \<in> heap_bytes K (upd_slab H i r (r\<lparr>sl_bits := b\<rparr>))" unfolding heap_bytes_def by blast
qed

lemma slot_grant:
  assumes rel: "heap_rel K s A H" and r: "slab_in H i r" and fk: "slot_free i r = Some k"
  defines "b \<equiv> sl_bits r OR push_bit k 1"
  defines "s1 \<equiv> set_slab_bitmap (sl_entry r) b s"
  defines "s2 \<equiv> s1\<lparr>mem := memset (mem s1) (slot i r k) 0 (of_nat (slot_sz i))\<rparr>"
  shows "heap_grant K s A H (slot i r k) (slot_sz i) s2 A (upd_slab H i r (r\<lparr>sl_bits := b\<rparr>))"
proof -
  let ?a = "slot i r k" and ?n = "slot_sz i" and ?H = "upd_slab H i r (r\<lparr>sl_bits := b\<rparr>)"
  have i: "i < 14" using r by (simp add: slab_in_def)
  have len: "length H = 14" by (rule heap_relD(4) [OF rel])
  note k = slot_free_Some [OF fk i]
  note ok = heap_relD(6) [OF rel r]
  have k64: "k < 64" using k(1) slots_bounds [OF i] by linarith
  have bb: "bit b l \<longleftrightarrow> l = k \<or> bit (sl_bits r) l" for l
    using k64 unfolding b_def by (auto simp: bit_or_iff bit_exp_iff dest: bit_imp_le_length)
  have new: "?a \<notin> entries H"
    using slot_not_entry [OF rel r k _ slot_start] by (force simp: entries_def in_block_def)
  have rel1: "heap_rel K s1 A ?H"
    unfolding s1_def by (rule heap_set_bits [OF rel r]) (use bb k(1) slab_okD(3) [OF ok] in auto)
  have m2: "mem s2 x = (if in_block ?n ?a (unat x) then 0 else mem s1 x)" for x
    unfolding s2_def using memset_slot [OF slab_okD(4) [OF ok] i k(1)] by simp
  have m1: "mem s1 x = mem s x" if "\<not> in_block 24 (sl_entry r) (unat x)" for x
  proof -
    have "mem s1 = store64 (mem s) (sl_entry r + 8) b" by (simp add: s1_def set_slab_bitmap_def)
    moreover have "x \<notin> bytes_at (sl_entry r) 24" using that entry_bytes [OF rel r] by simp
    ultimately show ?thesis using store_in_record [of _ "sl_entry r" x] by simp
  qed
  have inpage: "in_block (page_sz i) (sl_page r) x" if "in_block ?n ?a x" for x
    by (rule slot_in_page [OF slab_okD(4) [OF ok] i k(1) that])
  have same: "s2 = s\<lparr>mem := mem s2, pmmap := pmmap s2\<rparr>" by (simp add: s2_def s1_def set_slab_bitmap_def)
  have "heap_rel K s2 A ?H"
  proof (rule heap_frame [OF rel1])
    show "mem s2 x = mem s1 x" if "cover A (unat x) \<noteq> 0" for x
      using that m2 inpage slab_okD(6) [OF ok] by auto
    show "mem s2 x = mem s1 x" if q: "slab_in ?H j q" and x: "in_block 24 (sl_entry q) (unat x)" for j q x
    proof -
      obtain q0 where q0: "slab_in H j q0" "sl_entry q0 = sl_entry q" by (rule slab_in_updE [OF len r q])
      with slot_not_entry [OF rel r k q0(1)] x show ?thesis by (auto simp: m2)
    qed
  qed (simp_all add: s2_def)
  moreover have "mem s2 x = mem s x" if "cover A (unat x) = 0" "unat x \<notin> heap_bytes K H" for x
    using m2 [of x] m1 [of x] inpage record_in_heap [OF rel r] that r by (auto simp: heap_bytes_def)
  moreover have apart: "\<not> (in_block ?n ?a x \<and> in_block n' a' x)" if "(a', n') \<in> live H" for a' n' x
  proof -
    from that obtain j q l where q: "slab_in H j q" "bit (sl_bits q) l" "a' = slot j q l" "n' = slot_sz j" by (rule liveE)
    have "(i, r, k) \<noteq> (j, q, l)" using k(2) q(2) by auto
    from slots_of_pages_apart [OF rel r q(1) k(1) slab_okD(3) [OF heap_relD(6) [OF rel q(1)] q(2)] this] q show ?thesis by simp
  qed
  moreover have "mem s2 x = mem s x" if "(a', n') \<in> live H" "in_block n' a' (unat x)" for a' n' x
    using m2 [of x] m1 [of x] apart [OF that(1)] that live_not_record [OF rel that(1) r] by auto
  ultimately have step: "heap_step K (live H) s A H s2 A ?H"
    unfolding heap_step_def heap_bytes_upd [OF len r] using same by blast
  have u: "unat ?a = unat (sl_page r) + k * ?n" by (rule unat_slot [OF slab_okD(4) [OF ok] i k(1)])
  have fits: "k * ?n + ?n \<le> page_sz i" by (rule slot_fits [OF i k(1)])
  have bo: "unat (kernel_end K) \<le> unat (sl_page r)" "sl_page r \<noteq> 0" "unat (sl_page r) + page_sz i < 18446744073709551616"
    using slab_okD(4) [OF ok] block_ok_no_wrap [OF slab_okD(4) [OF ok]] by (simp_all add: block_ok_def word_le_nat_alt)
  have "?a \<noteq> NULL" using u bo(2) by (auto simp: word_unat_eq_iff)
  moreover have "kernel_end K \<le> ?a" "unat ?a + ?n < 18446744073709551616"
    using u bo fits by (simp_all add: word_le_nat_alt)
  ultimately show ?thesis
    unfolding heap_grant_def using step live_upd [OF len r bb new] apart m2 by simp
qed

section \<open>A new slab\<close>

lemma entries_add: "length H = 14 \<Longrightarrow> i < 14 \<Longrightarrow> entries (add_slab H i r) = insert (sl_entry r) (entries H)"
  unfolding entries_def by (auto simp: slab_in_add)

lemma heap_bytes_add:
  "length H = 14 \<Longrightarrow> i < 14 \<Longrightarrow>
    x \<in> heap_bytes K (add_slab H i r) \<longleftrightarrow> x \<in> heap_bytes K H \<or> in_block (page_sz i) (sl_page r) x"
  unfolding heap_bytes_def by (auto simp: slab_in_add)

lemma live_add:
  assumes "length H = 14" and "i < 14"
  shows "live (add_slab H i r) =
    {(a, n). \<exists>k. bit (sl_bits r) k \<and> a = slot i r k \<and> n = slot_sz i \<and> a \<notin> insert (sl_entry r) (entries H)} \<union>
    {(a, n) \<in> live H. a \<noteq> sl_entry r}"
  unfolding live_def entries_add [OF assms] by (auto simp: slab_in_add [OF assms])

lemma new_slab:
  assumes rel: "heap_rel K s A H" and i: "i < 14" and last: "H ! i = rs @ [l]"
    and e: "e \<noteq> NULL" "unat e + 24 < 18446744073709551616" "slab_next (mem s) e = NULL"
    and unc0: "\<forall>x. in_block 24 e x \<longrightarrow> cover A x = 0"
    and recs0: "\<forall>j q x. slab_in H j q \<longrightarrow> \<not> (in_block 24 e x \<and> in_block 24 (sl_entry q) x)"
    and page: "page_ok K (memtotal s) A i p"
    and pages0: "\<forall>j q x. slab_in H j q \<longrightarrow> \<not> (in_block (page_sz i) p x \<and> in_block (page_sz j) (sl_page q) x)"
    and bits0: "\<forall>k. bit b k \<longrightarrow> k < slots i"
  defines "r \<equiv> \<lparr>sl_entry = e, sl_page = p, sl_bits = b\<rparr>"
  assumes place: "entry_ok K (add_slab H i r) i r"
  defines "s' \<equiv> set_slab_next (sl_entry l) e (set_slab_bitmap e b (set_slab_address e p s))"
  shows "heap_rel K s' A (add_slab H i r)"
    and "\<not> in_block 24 e (unat x) \<Longrightarrow> \<not> in_block 24 (sl_entry l) (unat x) \<Longrightarrow> mem s' x = mem s x"
    and "s' = s\<lparr>mem := mem s', pmmap := pmmap s'\<rparr>" and "slab_address (mem s') e = p"
proof -
  let ?s = "set_slab_bitmap e b (set_slab_address e p s)"
  note unc = unc0 [rule_format] and recs = recs0 [rule_format] and pages = pages0 [rule_format]
    and bits = bits0 [rule_format]
  have st: "mem ?s = store64 (store64 (mem s) e p) (e + 8) b" "pmmap ?s = pmmap s" "memtotal ?s = memtotal s"
    by (simp_all add: set_slab_bitmap_def set_slab_address_def)
  have eb: "y \<in> bytes_at e 24 \<longleftrightarrow> in_block 24 e (unat y)" for y
    using bytes_at_in_block [of e 24] e(2) by simp
  have out: "mem ?s y = mem s y" if "\<not> in_block 24 e (unat y)" for y
    using that eb [of y] store_in_record [of _ e y] unfolding st by simp
  have f: "slab_address (mem ?s) e = p" "slab_bitmap (mem ?s) e = b" "slab_next (mem ?s) e = NULL"
    unfolding st using e(3) by (simp_all add: fields_set)
  have rel1: "heap_rel K ?s A H"
  proof (rule heap_frame [OF rel st(2,3)])
    show "mem ?s y = mem s y" if "cover A (unat y) \<noteq> 0" for y
      by (rule out) (use that unc [of "unat y"] in auto)
    show "mem ?s y = mem s y" if "slab_in H j q" "in_block 24 (sl_entry q) (unat y)" for j q y
      by (rule out) (use that(2) recs [OF that(1), of "unat y"] in auto)
  qed
  have "heap_rel K (set_slab_next (sl_entry l) (sl_entry r) ?s) A (add_slab H i r)"
    by (rule heap_link [OF rel1 i _ _ _ _ _ _ place _ _ _ last])
      (use f e bits page pages recs in \<open>simp_all add: r_def st(3)\<close>)
  then show "heap_rel K s' A (add_slab H i r)" by (simp add: s'_def r_def)
  have l: "slab_in H i l" using last i by (simp add: slab_in_def)
  have m': "mem s' = store64 (mem ?s) (sl_entry l + 16) e" by (simp add: s'_def set_slab_next_def)
  show "mem s' x = mem s x" if x: "\<not> in_block 24 e (unat x)" "\<not> in_block 24 (sl_entry l) (unat x)"
  proof -
    have "x \<notin> bytes_at (sl_entry l) 24" using x(2) entry_bytes [OF rel l] by simp
    then have "mem s' x = mem ?s x" unfolding m' using store_in_record [of _ "sl_entry l" x] by simp
    with out [OF x(1)] show ?thesis by simp
  qed
  show "s' = s\<lparr>mem := mem s', pmmap := pmmap s'\<rparr>"
    by (simp add: s'_def set_slab_next_def set_slab_bitmap_def set_slab_address_def)
  have "slab_address (mem s') e = slab_address (mem ?s) e"
    unfolding m' by (rule fields_cong(1)) (use recs [OF l] eb entry_bytes [OF rel l] in \<open>auto intro!: store_in_record [of _ "sl_entry l"]\<close>)
  with f show "slab_address (mem s') e = p" by simp
qed

text \<open>A block from the allocator below, for a slab of class \<open>i\<close>.\<close>

lemma granted_page:
  assumes rel: "heap_rel K s A H" and g: "pm_granted K (page_sz i) s A p A' s'" and al: "pm_aligned A'"
    and pal: "4096 dvd unat p"
  shows "heap_rel K s' A' H" and "page_ok K (memtotal s') A' i p" and "memtotal s' = memtotal s"
    and "slab_in H j q \<Longrightarrow> \<not> (in_block (page_sz i) p x \<and> in_block (page_sz j) (sl_page q) x)"
    and "slab_in H j q \<Longrightarrow> \<not> (in_block (page_sz i) p x \<and> in_block 24 (sl_entry q) x)"
    and "in_block (page_sz i) p x \<Longrightarrow> cover A x = 1" and "cover A' x \<le> cover A x"
    and "in_block (page_sz i) p x \<Longrightarrow> x \<notin> heap_bytes K H"
proof -
  have st: "s' = s\<lparr>mem := mem s', pmmap := pmmap s'\<rparr>" using g by (simp add: pm_granted_def)
  show mt: "memtotal s' = memtotal s" by (subst st) simp
  show "heap_rel K s' A' H" by (rule heap_granted [OF rel g al])
  have cov: "cover A' x + of_bool (in_block (page_sz i) p x) = cover A x" "cover A x \<le> 1" for x
    using g by (simp_all add: pm_granted_def)
  then show le: "cover A' x \<le> cover A x" for x by (metis le_add1)
  show one: "cover A x = 1" if "in_block (page_sz i) p x" for x using cov [of x] that by simp
  show "page_ok K (memtotal s') A' i p"
  proof -
    have "block_ok K (memtotal s) (page_sz i) p" using g by (simp add: pm_granted_def)
    moreover have "cover A' y = 0" if "in_block (page_sz i) p y" for y using cov [of y] that by simp
    ultimately show ?thesis using pal by (simp add: page_ok_def mt)
  qed
  show pg: "\<not> (in_block (page_sz i) p x \<and> in_block (page_sz j) (sl_page q) x)" if "slab_in H j q" for j q x
    using slab_okD(6) [OF heap_relD(6) [OF rel that]] one by force
  show "\<not> (in_block (page_sz i) p x \<and> in_block 24 (sl_entry q) x)" if "slab_in H j q" for j q x
    using entry_uncovered [OF rel that] one by force
  show "x \<notin> heap_bytes K H" if x: "in_block (page_sz i) p x"
  proof -
    have "cover A y = 0" if "in_block 336 (slabs_at K) y" for y
      using cover_below_kernel [OF heap_relD(1) [OF rel], of y] that heap_relD(3) [OF rel]
      by (simp add: heap_layout_def in_block_def)
    then show ?thesis using one [OF x] pg x unfolding heap_bytes_def by force
  qed
qed

lemma zero_fields:
  assumes "\<And>x. x \<in> bytes_at e 24 \<Longrightarrow> m x = 0"
  shows "slab_next m e = 0"
proof -
  have "slab_next m e = slab_next (\<lambda>_. 0) e" by (rule fields_cong(3)) (use assms in simp)
  then show ?thesis by (simp add: slab_next_def)
qed

lemma heap_record_in:
  assumes "heap_rel K s A H" and "slab_in H i r" and "(a, n) \<in> live H" and "in_block n a x"
  shows "\<not> in_block 24 (sl_entry r) x"
  using live_not_record [OF assms(1,3,2,4)] .

lemma slab64_grant:
  assumes rel: "heap_rel K s A H" and last: "H ! 0 = rs @ [l]"
    and g: "pm_granted K 4096 s A p A1 s1" and al: "pm_aligned A1" and pal: "4096 dvd unat p"
  defines "s' \<equiv> set_slab_next (sl_entry l) p (set_slab_bitmap p 3 (set_slab_address p p s1))"
  defines "r \<equiv> \<lparr>sl_entry = p, sl_page = p, sl_bits = 3\<rparr>"
  shows "heap_grant K s A H (p + 64) 64 s' A1 (add_slab H 0 r)" and "slab_address (mem s') p = p"
proof -
  let ?H = "add_slab H 0 r"
  have g0: "pm_granted K (page_sz 0) s A p A1 s1" using g by simp
  note gp = granted_page [OF rel g0 al pal]
  have len: "length H = 14" by (rule heap_relD(4) [OF rel])
  have z14: "(0 :: nat) < 14" by simp
  have bo: "block_ok K (memtotal s) 4096 p" using g by (simp add: pm_granted_def)
  have nw: "unat p + 4096 < 18446744073709551616" and p0: "p \<noteq> NULL"
    using block_ok_no_wrap [OF bo] bo by (simp_all add: block_ok_def)
  have z: "mem s1 x = 0" if "in_block 4096 p (unat x)" for x using g that by (simp add: pm_granted_def)
  have inpg: "in_block 4096 p x" if "in_block 24 p x" for x using that by (simp add: in_block_def)
  have b3: "bit (3 :: uint64) k \<longleftrightarrow> k = 0 \<or> k = 1" for k
  proof -
    have m: "(3 :: uint64) = mask 2" by (simp add: mask_numeral)
    show ?thesis unfolding m by (auto simp: bit_mask_iff)
  qed
  have nx: "slab_next (mem s1) p = NULL"
    using z inpg bytes_at_in_block [of p 24] nw by (intro zero_fields) simp
  have s01: "slot 0 r 0 = p" "slot 0 r 1 = p + 64" by (simp_all add: slot_def r_def)
  have rin: "slab_in ?H 0 r" by (simp add: slab_in_add [OF len z14])
  have place: "entry_ok K ?H 0 r"
    unfolding entry_ok_def using rin s01 b3 by (intro disjI2 exI [of _ r] exI [of _ 0]) (simp add: r_def)
  have unc: "\<forall>x. in_block 24 p x \<longrightarrow> cover A1 x = 0" using gp(2) inpg by (simp add: page_ok_def)
  have recs: "\<forall>j q x. slab_in H j q \<longrightarrow> \<not> (in_block 24 p x \<and> in_block 24 (sl_entry q) x)"
    using gp(5) inpg by fastforce
  have bits: "\<forall>k. bit (3 :: uint64) k \<longrightarrow> k < slots 0" using b3 by auto
  have pg: "\<forall>j q x. slab_in H j q \<longrightarrow> \<not> (in_block (page_sz 0) p x \<and> in_block (page_sz j) (sl_page q) x)"
    using gp(4) by blast
  have nw24: "unat p + 24 < 18446744073709551616" using nw by simp
  note ns = new_slab [OF gp(1) z14 last p0 nw24 nx unc recs gp(2) pg bits place [unfolded r_def], folded r_def s'_def]
  show "slab_address (mem s') p = p" by (rule ns(4))
  have l: "slab_in H 0 l" using last by (simp add: slab_in_def)
  have same1: "mem s1 x = mem s x" if "cover A (unat x) = 0" for x using g that by (simp add: pm_granted_def)
  have same: "mem s' x = mem s x" if "cover A (unat x) = 0" "\<not> in_block 24 (sl_entry l) (unat x)" for x
  proof -
    have "\<not> in_block 24 p (unat x)" using gp(6) [of "unat x"] inpg [of "unat x"] that(1) by auto
    from ns(2) [OF this that(2)] same1 [OF that(1)] show ?thesis by simp
  qed
  have st: "s' = s\<lparr>mem := mem s', pmmap := pmmap s'\<rparr>"
    by (rule pm_same_trans [OF _ ns(3)]) (use g in \<open>simp add: pm_granted_def\<close>)
  have step: "heap_step K (live H) s A H s' A1 ?H"
    unfolding heap_step_def
  proof (intro conjI ballI allI impI)
    show "heap_rel K s' A1 ?H" by (rule ns(1))
    show "s' = s\<lparr>mem := mem s', pmmap := pmmap s'\<rparr>" by (rule st)
    show "cover A1 x \<le> cover A x" for x by (rule gp(7))
    show "x \<in> heap_bytes K H \<or> cover A x = 1" if "x \<in> heap_bytes K ?H" for x
      using that gp(6) [of x] by (auto simp: heap_bytes_add [OF len z14] r_def)
    show "mem s' x = mem s x" if "cover A (unat x) = 0" "unat x \<notin> heap_bytes K H" for x
      by (rule same [OF that(1)]) (use record_in_heap [OF rel l] that(2) in auto)
    show "mem s' x = mem s x" if "(a, n) \<in> live H" "in_block n a (unat x)" for a n x
      by (rule same [OF live_uncovered(1) [OF rel that] heap_record_in [OF rel l that]])
  qed
  have ne: "a \<noteq> p" if "(a, n) \<in> live H" for a n
  proof -
    from that obtain i q k where q: "slab_in H i q" "bit (sl_bits q) k" "a = slot i q k" "n = slot_sz i" by (rule liveE)
    then have "in_block n a (unat a)" using slot_start by simp
    with live_uncovered(1) [OF rel that] gp(6) [of "unat a"] show ?thesis by (auto simp: in_block_def)
  qed
  have "unat (p + of_nat 64) = unat p + 64" by (rule unat_add_no_wrap) (use nw in simp)
  then have u64: "unat (p + 64) = unat p + 64" by simp
  have fresh64: "in_block 4096 p x" if "in_block 64 (p + 64) x" for x
    using that u64 by (simp add: in_block_def)
  have notent: "p + 64 \<notin> entries H"
  proof
    assume "p + 64 \<in> entries H"
    then obtain j q where q: "slab_in H j q" "p + 64 = sl_entry q" by (auto simp: entries_def)
    have "in_block 24 (sl_entry q) (unat p + 64)" "in_block 4096 p (unat p + 64)"
      using u64 q(2) by (auto simp: in_block_def)
    with gp(5) [OF q(1), of "unat p + 64"] show False by simp
  qed
  have "live ?H = insert (p + 64, 64) (live H)"
    unfolding live_add [OF len z14] using ne notent b3 s01 u64 p0
    by (auto simp: r_def slot_def)
  moreover have "mem s' x = 0" if "in_block 64 (p + 64) (unat x)" for x
  proof -
    have "\<not> in_block 24 p (unat x)" using that u64 by (simp add: in_block_def)
    moreover have "\<not> in_block 24 (sl_entry l) (unat x)"
      using gp(5) [OF l, of "unat x"] fresh64 [OF that] by auto
    ultimately show ?thesis using ns(2) [of x] z [OF fresh64 [OF that]] by simp
  qed
  moreover have "\<not> (in_block 64 (p + 64) x \<and> in_block n' a' x)" if "(a', n') \<in> live H" for a' n' x
    using live_uncovered(1) [OF rel that, of x] gp(6) [of x] fresh64 [of x] by auto
  moreover have "p + 64 \<noteq> NULL" using u64 by (auto simp: word_unat_eq_iff)
  moreover have "kernel_end K \<le> p + 64" using bo u64 by (simp add: block_ok_def word_le_nat_alt)
  ultimately show "heap_grant K s A H (p + 64) 64 s' A1 ?H"
    unfolding heap_grant_def using step u64 nw by simp
qed

lemma heap_step_trans:
  assumes 1: "heap_step K L s A H s1 A1 H1" and 2: "heap_step K L s1 A1 H1 s2 A2 H2" and rel: "pm_rel K s A"
  shows "heap_step K L s A H s2 A2 H2"
proof -
  have c: "cover A1 x \<le> cover A x" "cover A x \<le> 1" for x
    using 1 rel by (simp_all add: heap_step_def pm_rel_def)
  show ?thesis
    unfolding heap_step_def
  proof (intro conjI ballI allI impI)
    show "heap_rel K s2 A2 H2" using 2 by (simp add: heap_step_def)
    show "s2 = s\<lparr>mem := mem s2, pmmap := pmmap s2\<rparr>"
      using 1 2 unfolding heap_step_def by (blast intro: pm_same_trans)
    show "cover A2 x \<le> cover A x" for x using 2 c [of x] unfolding heap_step_def by (meson order_trans)
    show "x \<in> heap_bytes K H \<or> cover A x = 1" if "x \<in> heap_bytes K H2" for x
    proof -
      have "x \<in> heap_bytes K H1 \<or> cover A1 x = 1" using 2 that unfolding heap_step_def by blast
      with 1 c [of x] show ?thesis unfolding heap_step_def by (metis le_antisym)
    qed
    show "mem s2 x = mem s x" if x: "cover A (unat x) = 0" "unat x \<notin> heap_bytes K H" for x
    proof -
      have "cover A1 (unat x) = 0" using c [of "unat x"] x by simp
      moreover have "unat x \<notin> heap_bytes K H1" using 1 x unfolding heap_step_def by auto
      ultimately have "mem s2 x = mem s1 x" using 2 unfolding heap_step_def by metis
      with 1 x show ?thesis unfolding heap_step_def by metis
    qed
    show "mem s2 x = mem s x" if "(a, n) \<in> L" "in_block n a (unat x)" for a n x
      using 1 2 that unfolding heap_step_def by metis
  qed
qed

lemma slot_sz_inj: "slot_sz i = slot_sz j \<Longrightarrow> i = j"
  by (simp add: slot_sz_def)

lemma slab_grant:
  assumes rel: "heap_rel K s A H" and i: "0 < i" "i < 14" and last: "H1 ! i = rs @ [l]"
    and h: "heap_grant K s A H e 64 s1 A1 H1"
    and g: "pm_granted K (page_sz i) s1 A1 p A2 s2" and al: "pm_aligned A2" and pal: "4096 dvd unat p"
  defines "s' \<equiv> set_slab_next (sl_entry l) e (set_slab_bitmap e 1 (set_slab_address e p s2))"
  defines "r \<equiv> \<lparr>sl_entry = e, sl_page = p, sl_bits = 1\<rparr>"
  shows "heap_grant K s A H p (slot_sz i) s' A2 (add_slab H1 i r)" and "slab_address (mem s') e = p"
proof -
  let ?H = "add_slab H1 i r"
  have step1: "heap_step K (live H) s A H s1 A1 H1" and live1: "live H1 = insert (e, 64) (live H)"
    and e0: "e \<noteq> NULL" "unat e + 64 < 18446744073709551616"
    and ez: "\<And>x. in_block 64 e (unat x) \<Longrightarrow> mem s1 x = 0"
    and ea: "\<And>a' n' x. (a', n') \<in> live H \<Longrightarrow> \<not> (in_block 64 e x \<and> in_block n' a' x)"
    using h unfolding heap_grant_def by blast+
  have rel1: "heap_rel K s1 A1 H1" using step1 by (simp add: heap_step_def)
  note gp = granted_page [OF rel1 g al pal]
  have len: "length H1 = 14" by (rule heap_relD(4) [OF rel1])
  have el: "(e, 64) \<in> live H1" using live1 by simp
  have e24: "in_block 64 e x" if "in_block 24 e x" for x using that by (simp add: in_block_def)
  have same1: "mem s2 x = mem s1 x" if "cover A1 (unat x) = 0" for x using g that by (simp add: pm_granted_def)
  have b1: "bit (1 :: uint64) k \<longleftrightarrow> k = 0" for k by (simp add: bit_1_iff)
  have eu: "cover A1 x = 0" if "in_block 24 e x" for x using live_uncovered(1) [OF rel1 el] e24 [OF that] by simp
  have nx: "slab_next (mem s2) e = NULL"
  proof (rule zero_fields)
    fix x assume "x \<in> bytes_at e 24"
    then have "in_block 24 e (unat x)" using bytes_at_in_block [of e 24] e0(2) by simp
    then show "mem s2 x = 0" using same1 eu ez e24 by simp
  qed
  from el obtain i0 r0 k0 where r0: "slab_in H1 i0 r0" "bit (sl_bits r0) k0" "e = slot i0 r0 k0" "64 = slot_sz i0"
    by (rule liveE)
  have i0: "i0 = 0" using slot_sz_inj [of i0 0] r0(4) by simp
  have place: "entry_ok K ?H i r"
    unfolding entry_ok_def using r0 i0 i(1)
    by (intro disjI2 exI [of _ r0] exI [of _ k0]) (simp add: slab_in_add [OF len i(2)] r_def)
  have unc: "\<forall>x. in_block 24 e x \<longrightarrow> cover A2 x = 0" using gp(7) eu by (metis le_zero_eq)
  have recs: "\<forall>j q x. slab_in H1 j q \<longrightarrow> \<not> (in_block 24 e x \<and> in_block 24 (sl_entry q) x)"
    using live_not_record [OF rel1 el] e24 by blast
  have bits: "\<forall>k. bit (1 :: uint64) k \<longrightarrow> k < slots i" using slots_bounds [OF i(2)] b1 by simp
  have pg: "\<forall>j q x. slab_in H1 j q \<longrightarrow> \<not> (in_block (page_sz i) p x \<and> in_block (page_sz j) (sl_page q) x)"
    using gp(4) by blast
  have nw24: "unat e + 24 < 18446744073709551616" using e0 by simp
  note ns = new_slab [OF gp(1) i(2) last e0(1) nw24 nx unc recs gp(2) pg bits place [unfolded r_def], folded r_def s'_def]
  show "slab_address (mem s') e = p" by (rule ns(4))
  have l: "slab_in H1 i l" using last i by (simp add: slab_in_def)
  have same: "mem s' x = mem s1 x"
    if "cover A1 (unat x) = 0" "\<not> in_block 24 e (unat x)" "\<not> in_block 24 (sl_entry l) (unat x)" for x
    using ns(2) [OF that(2,3)] same1 [OF that(1)] by simp
  have step2: "heap_step K (live H) s1 A1 H1 s' A2 ?H"
    unfolding heap_step_def
  proof (intro conjI ballI allI impI)
    show "heap_rel K s' A2 ?H" by (rule ns(1))
    show "s' = s1\<lparr>mem := mem s', pmmap := pmmap s'\<rparr>"
      by (rule pm_same_trans [OF _ ns(3)]) (use g in \<open>simp add: pm_granted_def\<close>)
    show "cover A2 x \<le> cover A1 x" for x by (rule gp(7))
    show "x \<in> heap_bytes K H1 \<or> cover A1 x = 1" if "x \<in> heap_bytes K ?H" for x
      using that gp(6) [of x] by (auto simp: heap_bytes_add [OF len i(2)] r_def)
    show "mem s' x = mem s1 x" if "cover A1 (unat x) = 0" "unat x \<notin> heap_bytes K H1" for x
      by (rule same [OF that(1)])
        (use record_in_heap [OF rel1 l] live_uncovered(2) [OF rel1 el] e24 that(2) in auto)
    show "mem s' x = mem s1 x" if x: "(a, n) \<in> live H" "in_block n a (unat x)" for a n x
    proof (rule same)
      have a1: "(a, n) \<in> live H1" using x(1) live1 by simp
      show "cover A1 (unat x) = 0" by (rule live_uncovered(1) [OF rel1 a1 x(2)])
      show "\<not> in_block 24 e (unat x)" using ea [OF x(1), of "unat x"] x(2) e24 by auto
      show "\<not> in_block 24 (sl_entry l) (unat x)" by (rule heap_record_in [OF rel1 l a1 x(2)])
    qed
  qed
  have step: "heap_step K (live H) s A H s' A2 ?H"
    by (rule heap_step_trans [OF step1 step2 heap_relD(1) [OF rel]])
  have bo: "block_ok K (memtotal s1) (page_sz i) p" using g by (simp add: pm_granted_def)
  note ssz = slot_sz_bounds [OF i(2)]
  have pin: "in_block (page_sz i) p x" if "in_block (slot_sz i) p x" for x
    using that ssz by (simp add: in_block_def)
  have fresh: "\<not> (in_block (slot_sz i) p x \<and> in_block n' a' x)" if "(a', n') \<in> live H1" for a' n' x
    using live_uncovered(1) [OF rel1 that, of x] gp(6) [of x] pin [of x] by auto
  have self: "in_block (slot_sz i) p (unat p)" using ssz by (simp add: in_block_def)
  have notent: "p \<notin> entries H1"
  proof
    assume "p \<in> entries H1"
    then obtain j q where "slab_in H1 j q" "p = sl_entry q" by (auto simp: entries_def)
    with gp(5) [of j q "unat p"] pin [OF self] show False by (simp add: in_block_def)
  qed
  have pe: "p \<noteq> e"
    using fresh [OF el, of "unat e"] self by (auto simp: in_block_def)
  have ne: "a \<noteq> e" if "(a, n) \<in> live H" for a n
  proof -
    from that obtain j q k where "a = slot j q k" "n = slot_sz j" by (rule liveE)
    then have "in_block n a (unat a)" using slot_start by simp
    with ea [OF that, of "unat a"] show ?thesis by (auto simp: in_block_def)
  qed
  have "live ?H = insert (p, slot_sz i) (live H)"
    unfolding live_add [OF len i(2)] live1 using ne notent pe
    by (auto simp: r_def slot_def b1)
  moreover have "mem s' x = 0" if "in_block (slot_sz i) p (unat x)" for x
  proof -
    have "\<not> in_block 24 e (unat x)" using fresh [OF el, of "unat x"] that e24 by auto
    moreover have "\<not> in_block 24 (sl_entry l) (unat x)" using gp(5) [OF l, of "unat x"] pin [OF that] by auto
    ultimately have "mem s' x = mem s2 x" by (rule ns(2))
    also have "\<dots> = 0" using g pin [OF that] by (simp add: pm_granted_def)
    finally show ?thesis .
  qed
  moreover have "p \<noteq> NULL" "kernel_end K \<le> p" using bo by (simp_all add: block_ok_def)
  moreover have "unat p + slot_sz i < 18446744073709551616" using block_ok_no_wrap [OF bo] ssz by linarith
  ultimately show "heap_grant K s A H p (slot_sz i) s' A2 ?H"
    unfolding heap_grant_def using step fresh live1 by auto
qed

section \<open>The requests\<close>

lemma none_left: "pm_take n A = None \<Longrightarrow> n < 2 \<Longrightarrow> big_left A = 0"
proof -
  assume "pm_take n A = None" "n < 2"
  then have "A ! 1 = []" "A ! 2 = []" by (simp_all add: pm_take_none)
  then show ?thesis by (simp add: big_left_def)
qed

lemma pm_block:
  assumes rel: "heap_rel K s A H" and i: "i < 3"
  obtains "pmalloc K (pm_size i) s = Inl (Panic ''pmalloc: out of memory'')" "pm_take i A = None"
  | a A' s' where "pmalloc K (pm_size i) s = Inr (a, s')" "pm_granted K (pm_sz i) s A a A' s'"
      "pm_aligned A'" "4096 dvd unat a" "pm_take i A = Some (a, A')"
proof (cases "pm_take i A")
  case None
  with pmalloc_take [OF heap_relD(1) [OF rel] i] that(1) show thesis by simp
next
  case (Some r)
  obtain a A' where r: "r = (a, A')" by (cases r)
  have len: "length A = 3" using heap_relD(1) [OF rel] by (simp add: pm_rel_def)
  from pmalloc_take [OF heap_relD(1) [OF rel] i] Some r obtain s' where
    "pmalloc K (pm_size i) s = Inr (a, s')" "pm_granted K (pm_sz i) s A a A' s'" by auto
  with that(2) Some r pm_take_aligned [OF _ heap_relD(2) [OF rel] i len, of a A'] show thesis by simp
qed

lemma find_slot:
  assumes rel: "heap_rel K s A H" and i: "i < 14" and f: "fuel_ok K s"
  obtains "find_free_slab K i s = Inr (NULL, s)"
  | a s1 H' where "find_free_slab K i s = Inr (a, s1)" "a \<noteq> NULL"
      "heap_grant K s A H a (slot_sz i) (s1\<lparr>mem := memset (mem s1) a 0 (of_nat (slot_sz i))\<rparr>) A H'"
      "\<And>j. j \<noteq> i \<Longrightarrow> H' ! j = H ! j"
proof (cases "find (\<lambda>r. slot_free i r \<noteq> None) (H ! i)")
  case None
  with find_free_slab_spec [OF rel i f] that(1) show thesis by simp
next
  case (Some r)
  then have "r \<in> set (H ! i)" "slot_free i r \<noteq> None" by (auto simp: find_Some_iff)
  then obtain k where r: "slab_in H i r" and k: "slot_free i r = Some k" using i by (auto simp: slab_in_def)
  have ff: "find_free_slab K i s =
      Inr (slot i r k, set_slab_bitmap (sl_entry r) (sl_bits r OR push_bit k 1) s)"
    using find_free_slab_spec [OF rel i f] Some k by (simp add: Let_def)
  note g = slot_grant [OF rel r k]
  have "slot i r k \<noteq> NULL" using g by (simp add: heap_grant_def)
  moreover have "upd_slab H i r q ! j = H ! j" if "j \<noteq> i" for j q using that by (simp add: upd_slab_def)
  ultimately show thesis by (rule that(2) [OF ff _ g])
qed

lemma last_record:
  assumes rel: "heap_rel K s A H" and i: "i < 14" and f: "fuel_ok K s"
  obtains rs l where "H ! i = rs @ [l]" and "slab_last (loop_fuel K) (mem s) (slab_head K i) = Inr (sl_entry l)"
proof -
  obtain rs l where l: "H ! i = rs @ [l]" by (rule heap_nonempty [OF rel i])
  have "length rs < loop_fuel K" using chain_length [OF rel i f] l by simp
  with that l heap_relD(5) [OF rel i] slab_last_spec [of "mem s" "slab_head K i" rs l] show thesis by simp
qed

lemma kmalloc64_spec:
  assumes rel: "heap_rel K s A H" and f: "fuel_ok K s"
  obtains "kmalloc64 K s = Inl (Panic ''pmalloc: out of memory'')" "big_left A = 0"
  | a s' A' H' where "kmalloc64 K s = Inr (a, s')" "heap_grant K s A H a 64 s' A' H'"
      "\<And>j. j \<noteq> 0 \<Longrightarrow> H' ! j = H ! j" "big_left A \<le> Suc (big_left A')"
proof (rule find_slot [OF rel _ f, of 0])
  show "(0 :: nat) < 14" by simp
next
  fix a s1 H'
  assume ff: "find_free_slab K 0 s = Inr (a, s1)" "a \<noteq> NULL"
    and g: "heap_grant K s A H a (slot_sz 0) (s1\<lparr>mem := memset (mem s1) a 0 (of_nat (slot_sz 0))\<rparr>) A H'"
    and keep: "\<And>j. j \<noteq> 0 \<Longrightarrow> H' ! j = H ! j"
  have "kmalloc64 K s = Inr (a, s1\<lparr>mem := memset (mem s1) a 0 64\<rparr>)"
    using ff by (simp add: kmalloc64_def SLAB_64_def)
  with that(2) g keep show thesis by simp
next
  assume ff: "find_free_slab K 0 s = Inr (NULL, s)"
  have z: "(0 :: nat) < 14" "(0 :: nat) < 3" by simp_all
  obtain rs l where l: "H ! 0 = rs @ [l]" "slab_last (loop_fuel K) (mem s) (slab_head K 0) = Inr (sl_entry l)"
    by (rule last_record [OF rel z(1) f])
  have k: "kmalloc64 K s = ebind (pmalloc K PM_4K s) (\<lambda>(new, s).
      let s = set_slab_next (sl_entry l) new (set_slab_bitmap new 3 (set_slab_address new new s))
      in Inr (slab_address (mem s) new + 64, s))"
    using ff l(2) by (simp add: kmalloc64_def SLAB_64_def Let_def)
  show thesis
  proof (rule pm_block [OF rel z(2)])
    assume "pmalloc K (pm_size 0) s = Inl (Panic ''pmalloc: out of memory'')" "pm_take 0 A = None"
    with that(1) k none_left show thesis by (simp add: pm_size_def)
  next
    fix p A1 s1
    assume p: "pmalloc K (pm_size 0) s = Inr (p, s1)" "pm_granted K (pm_sz 0) s A p A1 s1"
      "pm_aligned A1" "4096 dvd unat p" "pm_take 0 A = Some (p, A1)"
    have g: "pm_granted K 4096 s A p A1 s1" using p(2) by simp
    have len: "length A = 3" using heap_relD(1) [OF rel] by (simp add: pm_rel_def)
    note sg = slab64_grant [OF rel l(1) g p(3,4)]
    show thesis
    proof (rule that(2))
      show "kmalloc64 K s = Inr (p + 64, set_slab_next (sl_entry l) p (set_slab_bitmap p 3 (set_slab_address p p s1)))"
        using k p(1) sg(2) by (simp add: pm_size_def)
      show "heap_grant K s A H (p + 64) 64 (set_slab_next (sl_entry l) p (set_slab_bitmap p 3 (set_slab_address p p s1)))
          A1 (add_slab H 0 \<lparr>sl_entry = p, sl_page = p, sl_bits = 3\<rparr>)" by (rule sg(1))
      show "add_slab H 0 q ! j = H ! j" if "j \<noteq> 0" for j q using that by (simp add: add_slab_def)
      show "big_left A \<le> Suc (big_left A1)" by (rule pm_take_big_left [OF p(5) _ len]) simp
    qed
  qed
qed

lemma size_class:
  assumes "size_to_slab_idx sz = Inr i"
  shows "i < 14" "unat sz \<le> slot_sz i"
  using assms unfolding size_to_slab_idx_def
  by (auto simp: slot_sz_def KiB_def word_le_nat_alt split: if_splits)

lemma size_class_some: "sz \<le> 524288 \<Longrightarrow> \<exists>i. size_to_slab_idx sz = Inr i"
  by (simp add: size_to_slab_idx_def KiB_def)

lemma size_class_pos: "64 < sz \<Longrightarrow> size_to_slab_idx sz = Inr i \<Longrightarrow> 0 < i"
  unfolding size_to_slab_idx_def by (auto split: if_splits)

lemma class_block:
  assumes "i < 14"
  obtains n where "n < 2" and "(if i > SLAB_4K then pmalloc K PM_512K s else pmalloc K PM_4K s) = pmalloc K (pm_size n) s"
    and "pm_sz n = page_sz i"
proof (cases "6 < i")
  case True
  with that [of 1] show thesis by (simp add: SLAB_4K_def pm_size_def page_sz_def)
next
  case False
  with that [of 0] show thesis by (simp add: SLAB_4K_def pm_size_def page_sz_def)
qed

lemma kmalloc_new_slab:
  assumes rel: "heap_rel K s A H" and f: "fuel_ok K s" and big: "\<not> sz \<le> 64" and c: "size_to_slab_idx sz = Inr i"
    and ff: "find_free_slab K i s = Inr (NULL, s)"
  obtains "kmalloc K sz s = Inl (Panic ''pmalloc: out of memory'')" "big_left A < 2"
  | a s' A' H1 e where "kmalloc K sz s = Inr (a, s')"
      "heap_grant K s A H a (slot_sz i) s' A' (add_slab H1 i \<lparr>sl_entry = e, sl_page = a, sl_bits = 1\<rparr>)"
      "H1 ! i = H ! i" "length H1 = 14" "\<forall>x. in_block (page_sz i) a x \<longrightarrow> cover A x = 1"
      "big_left A \<le> big_left A' + 2"
proof -
  have i: "i < 14" "0 < i" using size_class [OF c] size_class_pos [OF _ c] big by simp_all
  note km = kmalloc_def [of K sz s] big c
  obtain rs l where l: "H ! i = rs @ [l]" "slab_last (loop_fuel K) (mem s) (slab_head K i) = Inr (sl_entry l)"
    by (rule last_record [OF rel i(1) f])
  show thesis
  proof (rule kmalloc64_spec [OF rel f])
    assume "kmalloc64 K s = Inl (Panic ''pmalloc: out of memory'')" "big_left A = 0"
    with that(1) ff l(2) show thesis by (simp add: km)
  next
    fix e s1 A1 H1
    assume e: "kmalloc64 K s = Inr (e, s1)" "heap_grant K s A H e 64 s1 A1 H1" "\<And>j. j \<noteq> 0 \<Longrightarrow> H1 ! j = H ! j"
      and left: "big_left A \<le> Suc (big_left A1)"
    have rel1: "heap_rel K s1 A1 H1" and c1: "cover A1 x \<le> cover A x" for x
      using e(2) by (simp_all add: heap_grant_def heap_step_def)
    have Hi: "H1 ! i = H ! i" using e(3) [of i] i(2) by simp
    then have l1: "H1 ! i = rs @ [l]" using l(1) by simp
    obtain n where n: "n < 2"
      "(if i > SLAB_4K then pmalloc K PM_512K s1 else pmalloc K PM_4K s1) = pmalloc K (pm_size n) s1"
      "pm_sz n = page_sz i" by (rule class_block [OF i(1)])
    have n3: "n < 3" using n(1) by simp
    have k: "kmalloc K sz s = ebind (pmalloc K (pm_size n) s1) (\<lambda>(page, s).
        let s = set_slab_next (sl_entry l) e (set_slab_bitmap e 1 (set_slab_address e page s))
        in Inr (slab_address (mem s) e, s))"
      using ff l(2) e(1) n(2) by (simp add: km Let_def)
    show thesis
    proof (rule pm_block [OF rel1 n3])
      assume none: "pmalloc K (pm_size n) s1 = Inl (Panic ''pmalloc: out of memory'')" "pm_take n A1 = None"
      then have "big_left A1 = 0" using n(1) by (intro none_left)
      with none that(1) k left show thesis by simp
    next
      fix p A2 s2
      assume p: "pmalloc K (pm_size n) s1 = Inr (p, s2)" "pm_granted K (pm_sz n) s1 A1 p A2 s2"
        "pm_aligned A2" "4096 dvd unat p" "pm_take n A1 = Some (p, A2)"
      have "length A1 = 3" using heap_relD(1) [OF rel1] by (simp add: pm_rel_def)
      from pm_take_big_left [OF p(5) n(1) this] left have bl: "big_left A \<le> big_left A2 + 2" by simp
      note sg = slab_grant [OF rel i(2,1) l1 e(2) p(2) [unfolded n(3)] p(3,4)]
      have one: "\<forall>x. in_block (page_sz i) p x \<longrightarrow> cover A x = 1"
      proof (intro allI impI)
        fix x assume "in_block (page_sz i) p x"
        with granted_page(6) [OF rel1 p(2) [unfolded n(3)] p(3,4)] have "cover A1 x = 1" by simp
        moreover have "cover A x \<le> 1" using heap_relD(1) [OF rel] by (simp add: pm_rel_def)
        ultimately show "cover A x = 1" using c1 [of x] by simp
      qed
      show thesis by (rule that(2) [OF _ sg(1) Hi heap_relD(4) [OF rel1] one bl]) (use k p(1) sg(2) in simp)
    qed
  qed
qed

lemma kmalloc_large_spec:
  assumes rel: "heap_rel K s A H" and f: "fuel_ok K s" and big: "\<not> sz \<le> 64" and c: "size_to_slab_idx sz = Inr i"
  obtains "kmalloc K sz s = Inl (Panic ''pmalloc: out of memory'')" "big_left A < 2"
  | a s' A' H' where "kmalloc K sz s = Inr (a, s')" "heap_grant K s A H a (slot_sz i) s' A' H'"
      "big_left A \<le> big_left A' + 2"
proof -
  have i: "i < 14" "0 < i" using size_class [OF c] size_class_pos [OF _ c] big by simp_all
  note km = kmalloc_def [of K sz s] big c
  show thesis
  proof (rule find_slot [OF rel i(1) f])
    fix a s1 H'
    assume ff: "find_free_slab K i s = Inr (a, s1)" "a \<noteq> NULL"
      and g: "heap_grant K s A H a (slot_sz i) (s1\<lparr>mem := memset (mem s1) a 0 (of_nat (slot_sz i))\<rparr>) A H'"
    have "kmalloc K sz s = Inr (a, s1\<lparr>mem := memset (mem s1) a 0 (of_nat (slot_sz i))\<rparr>)"
      using ff by (simp add: km class_words(1) [OF i(1)] del: push_bit_of_1)
    then show thesis by (rule that(2) [OF _ g]) simp
  next
    assume ff: "find_free_slab K i s = Inr (NULL, s)"
    show thesis by (rule kmalloc_new_slab [OF rel f big c ff]) (use that in blast)+
  qed
qed

text \<open>The class of a request, and the three outcomes of \<^verbatim>\<open>kmalloc\<close>.\<close>

definition class_of :: "uint64 \<Rightarrow> nat" where
  "class_of sz = (case size_to_slab_idx sz of Inr i \<Rightarrow> i | Inl _ \<Rightarrow> 14)"

lemma kmalloc_cases:
  assumes rel: "heap_rel K s A H" and f: "fuel_ok K s" and sz: "sz \<le> 524288"
  obtains "kmalloc K sz s = Inl (Panic ''pmalloc: out of memory'')" "big_left A < 2"
  | a s' A' H' where "kmalloc K sz s = Inr (a, s')" "heap_grant K s A H a (slot_sz (class_of sz)) s' A' H'"
      "big_left A \<le> big_left A' + 2"
proof (cases "sz \<le> 64")
  case True
  then have c: "class_of sz = 0" "kmalloc K sz s = kmalloc64 K s"
    by (simp_all add: class_of_def size_to_slab_idx_def kmalloc_def)
  show thesis
    by (rule kmalloc64_spec [OF rel f]) (use that c in auto)
next
  case False
  obtain i where i: "size_to_slab_idx sz = Inr i" using size_class_some [OF sz] by blast
  then have c: "class_of sz = i" by (simp add: class_of_def)
  show thesis
    by (rule kmalloc_large_spec [OF rel f False i]) (use that c in auto)
qed

end
