(* ===== verification/HeapFree.thy ===== *)
theory HeapFree
  imports HeapAlloc
begin

text \<open>
  \<^verbatim>\<open>kmfree\<close> on the abstract heap: the search for the slab of an address, the cleared bit, and the
  release of slabs that have become empty.
\<close>

section \<open>The search for the slab of an address\<close>

lemma in_page_test:
  fixes p addr :: uint64
  assumes "unat p + n < 18446744073709551616"
  shows "p + of_nat n > addr \<and> p \<le> addr \<longleftrightarrow> in_block n p (unat addr)"
  using unat_add_no_wrap [OF assms] by (auto simp: in_block_def word_less_nat_alt word_le_nat_alt)

lemma slab_find_in_spec:
  assumes "chain (slab_next m) e (map sl_entry rs)" and "length rs < fuel"
    and "\<forall>r \<in> set rs. slab_address m (sl_entry r) = sl_page r \<and> unat (sl_page r) + n < 18446744073709551616"
  shows "(\<forall>r \<in> set rs. \<not> in_block n (sl_page r) (unat addr)) \<Longrightarrow>
      slab_find_in fuel m (of_nat n) addr e prev = Inr None"
    and "rs = us @ r # vs \<Longrightarrow> \<forall>q \<in> set us. \<not> in_block n (sl_page q) (unat addr) \<Longrightarrow>
      in_block n (sl_page r) (unat addr) \<Longrightarrow>
      slab_find_in fuel m (of_nat n) addr e prev = Inr (Some (sl_entry r, if us = [] then prev else sl_entry (last us)))"
proof -
  show "slab_find_in fuel m (of_nat n) addr e prev = Inr None" if "\<forall>r \<in> set rs. \<not> in_block n (sl_page r) (unat addr)"
    using assms that
  proof (induction rs arbitrary: e fuel prev)
    case Nil
    then obtain f where "fuel = Suc f" by (cases fuel) auto
    with Nil show ?case by simp
  next
    case (Cons r rs)
    then obtain f where f: "fuel = Suc f" "length rs < f" by (cases fuel) auto
    from Cons.prems have e: "e = sl_entry r" "e \<noteq> NULL" by auto
    have "\<not> (slab_address m e + of_nat n > addr \<and> slab_address m e \<le> addr)"
      using Cons.prems(3,4) e in_page_test [of "sl_page r" n addr] by simp
    with Cons.IH [of "slab_next m e" f e] Cons.prems f e show ?case by simp
  qed
  show "slab_find_in fuel m (of_nat n) addr e prev = Inr (Some (sl_entry r, if us = [] then prev else sl_entry (last us)))"
    if "rs = us @ r # vs" "\<forall>q \<in> set us. \<not> in_block n (sl_page q) (unat addr)" "in_block n (sl_page r) (unat addr)"
    using assms that
  proof (induction us arbitrary: rs e fuel prev)
    case Nil
    then obtain f where f: "fuel = Suc f" by (cases fuel) auto
    from Nil.prems have e: "e = sl_entry r" "e \<noteq> NULL" by auto
    have "slab_address m e + of_nat n > addr \<and> slab_address m e \<le> addr"
      using Nil.prems(3,4,6) e in_page_test [of "sl_page r" n addr] by simp
    with e f show ?case by simp
  next
    case (Cons q us)
    then obtain f where f: "fuel = Suc f" "length (us @ r # vs) < f" by (cases fuel) auto
    from Cons.prems have e: "e = sl_entry q" "e \<noteq> NULL" "chain (slab_next m) (slab_next m e) (map sl_entry (us @ r # vs))"
      by auto
    have "\<not> (slab_address m e + of_nat n > addr \<and> slab_address m e \<le> addr)"
      using Cons.prems(3,4,5) e in_page_test [of "sl_page q" n addr] by simp
    with Cons.IH [OF e(3) f(2) _ refl] Cons.prems f e show ?case by auto
  qed
qed

lemma class_page_word: "i < 14 \<Longrightarrow> slab_page_size i = of_nat (page_sz i)"
  by (simp add: slab_page_size_def page_sz_def SLAB_4K_def PM_values)

lemma slab_find_spec:
  assumes rel: "heap_rel K s A H" and f: "fuel_ok K s" and i: "i < 14" and H: "H ! i = us @ r # vs"
    and a: "in_block (page_sz i) (sl_page r) (unat addr)"
  shows "slab_find K (mem s) addr [0..<SLAB_NUM] =
    Inr (Some (i, sl_entry r, if us = [] then NULL else sl_entry (last us)))"
proof -
  have r: "slab_in H i r" using H i by (simp add: slab_in_def)
  have fields: "\<forall>q \<in> set (H ! j). slab_address (mem s) (sl_entry q) = sl_page q \<and>
      unat (sl_page q) + page_sz j < 18446744073709551616" if "j < 14" for j
    using that slab_okD(1) [OF heap_relD(6) [OF rel]] block_ok_no_wrap [OF slab_okD(4) [OF heap_relD(6) [OF rel]]]
    by (auto simp: slab_in_def)
  have other: "\<not> in_block (page_sz j) (sl_page q) (unat addr)" if "slab_in H j q" "(j, q) \<noteq> (i, r)" for j q
    using heap_relD(8) [OF rel that(1) r that(2), of "unat addr"] a by blast
  have d: "r \<notin> set us"
    using chain_distinct [OF heap_relD(5) [OF rel i]] H by (auto simp: distinct_map)
  have found: "slab_find_in (loop_fuel K) (mem s) (slab_page_size i) addr (slab_head K i) NULL =
      Inr (Some (sl_entry r, if us = [] then NULL else sl_entry (last us)))"
    unfolding class_page_word [OF i]
    by (rule slab_find_in_spec(2) [OF heap_relD(5) [OF rel i] chain_length [OF rel i f] fields [OF i] H _ a])
      (use other [of i] d H i in \<open>auto simp: slab_in_def\<close>)
  have skip: "slab_find_in (loop_fuel K) (mem s) (slab_page_size j) addr (slab_head K j) NULL = Inr None"
    if "j < i" for j
  proof -
    have j: "j < 14" using that i by simp
    show ?thesis
      unfolding class_page_word [OF j]
      by (rule slab_find_in_spec(1) [OF heap_relD(5) [OF rel j] chain_length [OF rel j f] fields [OF j]])
        (use other [of j] that j in \<open>auto simp: slab_in_def\<close>)
  qed
  have "slab_find K (mem s) addr (js @ i # ks) =
      Inr (Some (i, sl_entry r, if us = [] then NULL else sl_entry (last us)))" if "\<forall>j \<in> set js. j < i" for js ks
    using that by (induction js) (simp_all add: found skip)
  moreover have "[0..<SLAB_NUM] = [0..<i] @ i # [Suc i..<SLAB_NUM]"
    using upt_add_eq_append [of 0 i "SLAB_NUM - i"] i by (simp add: SLAB_NUM_def upt_conv_Cons del: upt_rec_numeral)
  ultimately show ?thesis by simp
qed

section \<open>Clearing a bit\<close>

lemma slot_inj:
  assumes rel: "heap_rel K s A H" and r: "slab_in H i r" "slab_in H i' r'" and k: "k < slots i" "k' < slots i'"
    and eq: "slot i r k = slot i' r' k'"
  shows "i = i' \<and> r = r' \<and> k = k'"
  using slots_of_pages_apart [OF rel r k, of "unat (slot i r k)"] slot_start [of i r k] slot_start [of i' r' k'] eq by auto

lemma live_clear:
  assumes rel: "heap_rel K s A H" and r: "slab_in H i r" and bk: "bit (sl_bits r) k"
    and b: "\<forall>l. bit b l \<longleftrightarrow> bit (sl_bits r) l \<and> l \<noteq> k"
  shows "live (upd_slab H i r (r\<lparr>sl_bits := b\<rparr>)) = live H - {(slot i r k, slot_sz i)}"
proof -
  have len: "length H = 14" by (rule heap_relD(4) [OF rel])
  let ?r = "r\<lparr>sl_bits := b\<rparr>"
  have fits: "l < slots j" if "slab_in H j q" "bit (sl_bits q) l" for j q l
    using slab_okD(3) [OF heap_relD(6) [OF rel that(1)] that(2)] .
  have in': "slab_in (upd_slab H i r ?r) i ?r" using slab_in_upd [OF len r] by blast
  show ?thesis
  proof (rule set_eqI, rule iffI)
    fix an assume "an \<in> live (upd_slab H i r ?r)"
    then obtain j q l where q: "slab_in (upd_slab H i r ?r) j q" "bit (sl_bits q) l"
      "an = (slot j q l, slot_sz j)" "slot j q l \<notin> entries H"
      by (auto simp: live_def entries_upd [OF len r])
    show "an \<in> live H - {(slot i r k, slot_sz i)}"
    proof (cases "j = i \<and> q = ?r")
      case True
      with q(2) b have l: "bit (sl_bits r) l" "l \<noteq> k" by auto
      have "slot i r l \<noteq> slot i r k" using slot_inj [OF rel r r fits [OF r l(1)] fits [OF r bk]] l(2) by blast
      with True q l r show ?thesis by (auto simp: live_def)
    next
      case False
      with q(1) have q': "slab_in H j q" "(j, q) \<noteq> (i, r)" by (auto simp: slab_in_upd [OF len r])
      have "slot j q l \<noteq> slot i r k"
        using slot_inj [OF rel q'(1) r fits [OF q'(1) q(2)] fits [OF r bk]] q'(2) by blast
      with q q' show ?thesis by (auto simp: live_def)
    qed
  next
    fix an assume "an \<in> live H - {(slot i r k, slot_sz i)}"
    then obtain j q l where q: "slab_in H j q" "bit (sl_bits q) l" "an = (slot j q l, slot_sz j)"
      "slot j q l \<notin> entries H" "an \<noteq> (slot i r k, slot_sz i)" by (auto simp: live_def)
    show "an \<in> live (upd_slab H i r ?r)"
    proof (cases "(j, q) = (i, r)")
      case True
      then have "bit (sl_bits ?r) l" using q b by auto
      from liveI [OF in' this] True q show ?thesis by (simp add: entries_upd [OF len r])
    next
      case False
      with q(1) have "slab_in (upd_slab H i r ?r) j q" using slab_in_upd [OF len r] by blast
      from liveI [OF this q(2)] q show ?thesis by (simp add: entries_upd [OF len r])
    qed
  qed
qed

text \<open>What a release may change.\<close>

definition heap_freed ::
  "klayout \<Rightarrow> kstate \<Rightarrow> pm_abs \<Rightarrow> heap_abs \<Rightarrow> kstate \<Rightarrow> pm_abs \<Rightarrow> heap_abs \<Rightarrow> bool" where
  "heap_freed K s A H s' A' H' \<longleftrightarrow> heap_rel K s' A' H' \<and> s' = s\<lparr>mem := mem s', pmmap := pmmap s'\<rparr> \<and>
     (\<forall>x. cover A x \<le> cover A' x) \<and> (\<forall>x. cover A' x \<noteq> cover A x \<longrightarrow> x \<in> heap_bytes K H \<and> x \<notin> heap_bytes K H') \<and>
     (\<forall>x \<in> heap_bytes K H'. x \<in> heap_bytes K H) \<and>
     (\<forall>x. unat x \<notin> heap_bytes K H \<longrightarrow> mem s' x = mem s x) \<and>
     (\<forall>a n x. (a, n) \<in> live H' \<longrightarrow> in_block n a (unat x) \<longrightarrow> mem s' x = mem s x) \<and>
     big_left A \<le> big_left A'"

lemma heap_freed_trans:
  assumes 1: "heap_freed K s A H s1 A1 H1" and 2: "heap_freed K s1 A1 H1 s2 A2 H2" and sub: "live H2 \<subseteq> live H1"
  shows "heap_freed K s A H s2 A2 H2"
  unfolding heap_freed_def
proof (intro conjI allI impI ballI)
  show "heap_rel K s2 A2 H2" using 2 by (simp add: heap_freed_def)
  show "s2 = s\<lparr>mem := mem s2, pmmap := pmmap s2\<rparr>" using 1 2 unfolding heap_freed_def by (blast intro: pm_same_trans)
  show "cover A x \<le> cover A2 x" for x using 1 2 unfolding heap_freed_def by (meson order_trans)
  show "x \<in> heap_bytes K H" if "cover A2 x \<noteq> cover A x" for x using 1 2 that unfolding heap_freed_def by metis
  show "x \<notin> heap_bytes K H2" if "cover A2 x \<noteq> cover A x" for x using 1 2 that unfolding heap_freed_def by metis
  show "x \<in> heap_bytes K H" if "x \<in> heap_bytes K H2" for x using 1 2 that unfolding heap_freed_def by metis
  show "mem s2 x = mem s x" if "unat x \<notin> heap_bytes K H" for x using 1 2 that unfolding heap_freed_def by metis
  show "mem s2 x = mem s x" if "(a, n) \<in> live H2" "in_block n a (unat x)" for a n x
    using 1 2 sub that unfolding heap_freed_def by (metis subsetD)
  show "big_left A \<le> big_left A2" using 1 2 by (simp add: heap_freed_def)
qed

lemma clear_slot:
  assumes rel: "heap_rel K s A H" and r: "slab_in H i r" and k: "bit (sl_bits r) k" and notent: "slot i r k \<notin> entries H"
  defines "b \<equiv> sl_bits r AND NOT (push_bit k 1)"
  defines "H1 \<equiv> upd_slab H i r (r\<lparr>sl_bits := b\<rparr>)"
  shows "heap_freed K s A H (set_slab_bitmap (sl_entry r) b s) A H1" and "live H1 = live H - {(slot i r k, slot_sz i)}"
    and "\<forall>l. bit b l \<longleftrightarrow> bit (sl_bits r) l \<and> l \<noteq> k" and "entries H1 = entries H" and "heap_bytes K H1 = heap_bytes K H"
proof -
  let ?s = "set_slab_bitmap (sl_entry r) b s"
  have len: "length H = 14" by (rule heap_relD(4) [OF rel])
  have b: "\<forall>l. bit b l \<longleftrightarrow> bit (sl_bits r) l \<and> l \<noteq> k"
    unfolding b_def by (auto simp: bit_and_iff bit_not_iff bit_exp_iff dest: bit_imp_le_length)
  then show "\<forall>l. bit b l \<longleftrightarrow> bit (sl_bits r) l \<and> l \<noteq> k" .
  show live: "live H1 = live H - {(slot i r k, slot_sz i)}" unfolding H1_def by (rule live_clear [OF rel r k b])
  show "entries H1 = entries H" unfolding H1_def by (rule entries_upd [OF len r])
  show bytes: "heap_bytes K H1 = heap_bytes K H" unfolding H1_def by (rule heap_bytes_upd [OF len r])
  have rel1: "heap_rel K ?s A H1"
    unfolding H1_def
  proof (rule heap_set_bits [OF rel r])
    show "l < slots i" if "bit b l" for l using that b slab_okD(3) [OF heap_relD(6) [OF rel r]] by simp
    show "sl_entry q \<noteq> slot 0 r l" if "i = 0" "bit (sl_bits r) l" "\<not> bit b l" "slab_in H j q" for l j q
    proof -
      have "l = k" using that(2,3) b by simp
      with notent that(1,4) show ?thesis unfolding entries_def by (metis (mono_tags, lifting) mem_Collect_eq)
    qed
  qed
  have out: "mem ?s x = mem s x" if "\<not> in_block 24 (sl_entry r) (unat x)" for x
    using that entry_bytes [OF rel r, of x] store_in_record [of _ "sl_entry r" x] by (simp add: set_slab_bitmap_def)
  show "heap_freed K s A H ?s A H1"
    unfolding heap_freed_def bytes
  proof (intro conjI allI impI ballI)
    show "mem ?s x = mem s x" if "unat x \<notin> heap_bytes K H" for x
      by (rule out) (use that record_in_heap [OF rel r] in auto)
    show "mem ?s x = mem s x" if x: "(a, n) \<in> live H1" "in_block n a (unat x)" for a n x
      by (rule out [OF live_not_record [OF rel _ r x(2)]]) (use x(1) live in simp)
  qed (use rel1 in \<open>simp_all add: set_slab_bitmap_def\<close>)
qed

section \<open>Unlinking a slab\<close>

definition drop_slab :: "heap_abs \<Rightarrow> nat \<Rightarrow> slab \<Rightarrow> heap_abs" where
  "drop_slab H i r = H[i := remove1 r (H ! i)]"

lemma slab_in_drop:
  assumes rel: "heap_rel K s A H" and r: "slab_in H i r"
  shows "slab_in (drop_slab H i r) j q \<longleftrightarrow> slab_in H j q \<and> (j, q) \<noteq> (i, r)"
proof -
  have i: "i < 14" using r by (simp add: slab_in_def)
  have "distinct (H ! i)" using chain_distinct [OF heap_relD(5) [OF rel i]] by (simp add: distinct_map)
  then show ?thesis using i heap_relD(4) [OF rel] by (cases "j = i") (auto simp: slab_in_def drop_slab_def)
qed

lemma heap_unlink:
  assumes rel: "heap_rel K s A H" and i: "i < 14" and H: "H ! i = us @ l # r # vs"
    and last: "i = 0 \<longrightarrow> (\<forall>k. bit (sl_bits r) k \<longrightarrow> k = 0)"
  defines "s' \<equiv> set_slab_next (sl_entry l) (slab_next (mem s) (sl_entry r)) s"
  shows "heap_rel K s' A (drop_slab H i r)"
    and "\<forall>x. \<not> in_block 24 (sl_entry l) (unat x) \<longrightarrow> mem s' x = mem s x"
    and "slab_bitmap (mem s') (sl_entry r) = sl_bits r"
proof -
  let ?H = "drop_slab H i r"
  have len: "length H = 14" by (rule heap_relD(4) [OF rel])
  have l: "slab_in H i l" and r: "slab_in H i r" using H i by (simp_all add: slab_in_def)
  have st: "mem s' = store64 (mem s) (sl_entry l + 16) (slab_next (mem s) (sl_entry r))" "pmmap s' = pmmap s"
    "memtotal s' = memtotal s" by (simp_all add: s'_def set_slab_next_def)
  have out: "mem s' x = mem s x" if "\<not> in_block 24 (sl_entry l) (unat x)" for x
    unfolding st by (rule store_in_record [of _ "sl_entry l"]) (use that entry_bytes [OF rel l] in simp_all)
  then show "\<forall>x. \<not> in_block 24 (sl_entry l) (unat x) \<longrightarrow> mem s' x = mem s x" by blast
  have other: "slab_address (mem s') (sl_entry q) = slab_address (mem s) (sl_entry q)"
    "slab_bitmap (mem s') (sl_entry q) = slab_bitmap (mem s) (sl_entry q)"
    "slab_next (mem s') (sl_entry q) = slab_next (mem s) (sl_entry q)"
    if "slab_in H j q" "(j, q) \<noteq> (i, l)" for j q
    using that entries_apart [OF rel that(1) l that(2)] entry_bytes [OF rel that(1)] out
    by (auto intro!: fields_cong)
  have selff: "slab_address (mem s') (sl_entry l) = slab_address (mem s) (sl_entry l)"
    "slab_bitmap (mem s') (sl_entry l) = slab_bitmap (mem s) (sl_entry l)"
    "slab_next (mem s') (sl_entry l) = slab_next (mem s) (sl_entry r)"
    unfolding st by (simp_all add: fields_set)
  have ab: "slab_address (mem s') (sl_entry q) = sl_page q" "slab_bitmap (mem s') (sl_entry q) = sl_bits q"
    if "slab_in H j q" for j q
    using slab_okD(1,2) [OF heap_relD(6) [OF rel that]] other(1,2) [OF that] selff(1,2)
    by (cases "(j, q) = (i, l)"; simp)+
  then show "slab_bitmap (mem s') (sl_entry r) = sl_bits r" using r by blast
  have d: "distinct (map sl_entry (us @ l # r # vs))" using chain_distinct [OF heap_relD(5) [OF rel i]] H by simp
  then have "distinct (us @ l # r # vs)" by (rule distinct_map [THEN iffD1, THEN conjunct1])
  then have Hi: "?H ! i = us @ l # vs" using H len i by (simp add: drop_slab_def remove1_append)
  have "mem s' x = mem s x" if "cover A (unat x) \<noteq> 0" for x
    by (rule out) (use that entry_uncovered [OF rel l, of "unat x"] in auto)
  then have pm: "pm_rel K s' A" by (rule pm_rel_frame [OF heap_relD(1) [OF rel] st(2,3)])
  have ch: "chain (slab_next (mem s')) (slab_head K j) (map sl_entry (?H ! j))" if j: "j < 14" for j
  proof (cases "j = i")
    case True
    have "chain ((slab_next (mem s))(sl_entry l := slab_next (mem s) (sl_entry r))) (slab_head K i)
        (map sl_entry us @ sl_entry l # map sl_entry vs)"
      by (rule chain_delete) (use heap_relD(5) [OF rel i] H in simp)
    moreover have "chain ((slab_next (mem s))(sl_entry l := slab_next (mem s) (sl_entry r))) (slab_head K i)
        (map sl_entry us @ sl_entry l # map sl_entry vs) \<longleftrightarrow>
      chain (slab_next (mem s')) (slab_head K i) (map sl_entry us @ sl_entry l # map sl_entry vs)"
    proof (rule chain_cong)
      have q: "slab_next (mem s') (sl_entry q) = slab_next (mem s) (sl_entry q)" "sl_entry q \<noteq> sl_entry l"
        if "q \<in> set us \<union> set vs" for q
      proof -
        have "slab_in H i q" using that H i by (auto simp: slab_in_def)
        moreover show ne: "sl_entry q \<noteq> sl_entry l" using d that by (auto simp: image_iff)
        ultimately show "slab_next (mem s') (sl_entry q) = slab_next (mem s) (sl_entry q)" using other(3) by auto
      qed
      show "((slab_next (mem s))(sl_entry l := slab_next (mem s) (sl_entry r))) a = slab_next (mem s') a"
        if "a \<in> set (map sl_entry us @ sl_entry l # map sl_entry vs)" for a
        using that q selff(3) by auto
    qed
    ultimately show ?thesis using True Hi by simp
  next
    case False
    have "chain (slab_next (mem s')) (slab_head K j) (map sl_entry (H ! j)) \<longleftrightarrow>
        chain (slab_next (mem s)) (slab_head K j) (map sl_entry (H ! j))"
      by (rule chain_cong) (use j False other(3) in \<open>auto simp: slab_in_def\<close>)
    with heap_relD(5) [OF rel j] False show ?thesis by (simp add: drop_slab_def)
  qed
  have ok: "slab_ok K s' A ?H j q" if q: "slab_in ?H j q" for j q
  proof -
    have q': "slab_in H j q" "(j, q) \<noteq> (i, r)" using q by (simp_all add: slab_in_drop [OF rel r])
    have "entry_ok K ?H j q"
    proof (cases "sl_entry q = slab_head K j")
      case False
      with slab_okD(7) [OF heap_relD(6) [OF rel q'(1)]] obtain r0 k where r0: "slab_in H 0 r0" "bit (sl_bits r0) k"
        "sl_entry q = slot 0 r0 k" "j = 0 \<longrightarrow> r0 = q \<and> k = 0" by (auto simp: entry_ok_def)
      have "(0, r0) \<noteq> (i, r)"
      proof
        assume eq: "(0, r0) = (i, r)"
        then have k0: "k = 0" using last r0(2) by auto
        have "sl_entry r = slab_head K 0 \<or> sl_entry r = slot 0 r 0"
          using slab_okD(7) [OF heap_relD(6) [OF rel r]] eq by (auto simp: entry_ok_def)
        moreover have "sl_entry r \<noteq> slab_head K 0"
        proof -
          have "slab_head K 0 = sl_entry (hd (us @ l # r # vs))"
            using heap_relD(5) [OF rel i] H eq by (cases us) auto
          then show ?thesis using d by (cases us) auto
        qed
        ultimately have "sl_entry q = sl_entry r" using r0(3) k0 eq by simp
        with heap_relD(7) [OF rel q'(1) r q'(2)] show False by simp
      qed
      with r0 show ?thesis unfolding entry_ok_def by (auto simp: slab_in_drop [OF rel r])
    qed (simp add: entry_ok_def)
    with heap_relD(6) [OF rel q'(1)] ab [OF q'(1)] show ?thesis unfolding slab_ok_def st(3) by simp
  qed
  have sep: "sl_entry q \<noteq> sl_entry q' \<and>
      (\<forall>x. \<not> (in_block (page_sz j) (sl_page q) x \<and> in_block (page_sz j') (sl_page q') x))"
    if q: "slab_in ?H j q" "slab_in ?H j' q'" "(j, q) \<noteq> (j', q')" for j q j' q'
    using heap_relD(7,8) [OF rel _ _ q(3)] q(1,2) by (simp add: slab_in_drop [OF rel r])
  have "length ?H = 14" using len by (simp add: drop_slab_def)
  with pm heap_relD(2,3) [OF rel] ch ok sep show "heap_rel K s' A ?H" unfolding heap_rel_def by blast
qed

lemma entries_drop:
  assumes rel: "heap_rel K s A H" and r: "slab_in H i r"
  shows "entries (drop_slab H i r) = entries H - {sl_entry r}"
  unfolding entries_def slab_in_drop [OF rel r]
proof (rule set_eqI, rule iffI)
  fix e assume "e \<in> {e. \<exists>j q. (slab_in H j q \<and> (j, q) \<noteq> (i, r)) \<and> e = sl_entry q}"
  then obtain j q where q: "slab_in H j q" "(j, q) \<noteq> (i, r)" "e = sl_entry q" by blast
  from heap_relD(7) [OF rel q(1) r q(2)] q show "e \<in> {e. \<exists>j q. slab_in H j q \<and> e = sl_entry q} - {sl_entry r}" by auto
qed auto

lemma page_not_static:
  assumes rel: "heap_rel K s A H" and r: "slab_in H i r" and x: "in_block (page_sz i) (sl_page r) x"
  shows "\<not> in_block 336 (slabs_at K) x"
  using page_above_kernel [OF slab_okD(4) [OF heap_relD(6) [OF rel r]] x] heap_relD(3) [OF rel]
  by (simp add: heap_layout_def in_block_def)

lemma heap_bytes_drop:
  assumes rel: "heap_rel K s A H" and r: "slab_in H i r"
  shows "x \<in> heap_bytes K (drop_slab H i r) \<longleftrightarrow> x \<in> heap_bytes K H \<and> \<not> in_block (page_sz i) (sl_page r) x"
proof -
  have other: "\<not> in_block (page_sz i) (sl_page r) x" if "slab_in H j q" "(j, q) \<noteq> (i, r)" "in_block (page_sz j) (sl_page q) x" for j q
    using heap_relD(8) [OF rel that(1) r that(2), of x] that(3) by blast
  show ?thesis
    unfolding heap_bytes_def slab_in_drop [OF rel r] using other page_not_static [OF rel r, of x] by auto
qed

text \<open>Dropping a 64-byte slab that holds nothing but its own record.\<close>

lemma live_drop64:
  assumes rel: "heap_rel K s A H" and r: "slab_in H 0 r" and e: "sl_entry r = slot 0 r 0"
    and b: "\<forall>k. bit (sl_bits r) k \<longleftrightarrow> k = 0"
  shows "live (drop_slab H 0 r) = live H"
proof (rule set_eqI, rule iffI)
  fix an assume "an \<in> live (drop_slab H 0 r)"
  then obtain j q l where q: "slab_in H j q" "(j, q) \<noteq> (0, r)" "bit (sl_bits q) l" "an = (slot j q l, slot_sz j)"
    "slot j q l \<notin> entries H - {sl_entry r}" by (auto simp: live_def slab_in_drop [OF rel r] entries_drop [OF rel r])
  have "slot j q l \<noteq> sl_entry r"
    using slot_inj [OF rel q(1) r slab_okD(3) [OF heap_relD(6) [OF rel q(1)] q(3)], of 0] q(2) e by auto
  with q show "an \<in> live H" by (auto simp: live_def)
next
  fix an assume "an \<in> live H"
  then obtain j q l where q: "slab_in H j q" "bit (sl_bits q) l" "an = (slot j q l, slot_sz j)" "slot j q l \<notin> entries H"
    by (auto simp: live_def)
  have "(j, q) \<noteq> (0, r)"
  proof
    assume eq: "(j, q) = (0, r)"
    then have "l = 0" using q(2) b by simp
    then have "slot j q l = sl_entry r" using eq e by simp
    with q(4) r show False by (auto simp: entries_def)
  qed
  with q show "an \<in> live (drop_slab H 0 r)"
    by (auto simp: live_def slab_in_drop [OF rel r] entries_drop [OF rel r])
qed

text \<open>Dropping an empty slab of a larger class: its record becomes an ordinary object.\<close>

lemma live_drop_large:
  assumes rel: "heap_rel K s A H" and r: "slab_in H i r" and b: "sl_bits r = 0"
    and r0: "slab_in H 0 r0" "bit (sl_bits r0) k0" "sl_entry r = slot 0 r0 k0" and i: "0 < i"
  shows "live (drop_slab H i r) = insert (sl_entry r, 64) (live H)"
proof (rule set_eqI, rule iffI)
  have fits: "l < slots j" if "slab_in H j q" "bit (sl_bits q) l" for j q l
    using slab_okD(3) [OF heap_relD(6) [OF rel that(1)] that(2)] .
  fix an assume "an \<in> live (drop_slab H i r)"
  then obtain j q l where q: "slab_in H j q" "(j, q) \<noteq> (i, r)" "bit (sl_bits q) l" "an = (slot j q l, slot_sz j)"
    "slot j q l \<notin> entries H - {sl_entry r}" by (auto simp: live_def slab_in_drop [OF rel r] entries_drop [OF rel r])
  show "an \<in> insert (sl_entry r, 64) (live H)"
  proof (cases "slot j q l = sl_entry r")
    case True
    with slot_inj [OF rel q(1) r0(1) fits [OF q(1,3)] fits [OF r0(1,2)]] r0(3) have "j = 0" by simp
    with True q(4) show ?thesis by simp
  next
    case False
    with q show ?thesis by (auto simp: live_def)
  qed
next
  fix an assume an: "an \<in> insert (sl_entry r, 64) (live H)"
  show "an \<in> live (drop_slab H i r)"
  proof (cases "an = (sl_entry r, 64)")
    case True
    have "slab_in (drop_slab H i r) 0 r0" using r0(1) i by (simp add: slab_in_drop [OF rel r])
    from liveI [OF this r0(2)] True r0(3) show ?thesis by (simp add: entries_drop [OF rel r])
  next
    case False
    with an obtain j q l where q: "slab_in H j q" "bit (sl_bits q) l" "an = (slot j q l, slot_sz j)" "slot j q l \<notin> entries H"
      by (auto simp: live_def)
    have "(j, q) \<noteq> (i, r)" using q(2) b by auto
    with q show ?thesis by (auto simp: live_def slab_in_drop [OF rel r] entries_drop [OF rel r])
  qed
qed

section \<open>Giving a page back\<close>

lemma heap_give:
  assumes rel: "heap_rel K s A H" and ok: "block_ok K (memtotal s) 4096 p" "4096 dvd unat p"
    and unc: "\<forall>x. in_block 4096 p x \<longrightarrow> cover A x = 0 \<and> x \<notin> heap_bytes K H"
  obtains s' where "pmfree K p PM_4K s = Inr s'" and "heap_rel K s' (A[0 := p # A ! 0]) H"
    and "s' = s\<lparr>mem := mem s', pmmap := pmmap s'\<rparr>" and "\<forall>x. \<not> in_block 4096 p (unat x) \<longrightarrow> mem s' x = mem s x"
    and "\<forall>x. cover (A[0 := p # A ! 0]) x = cover A x + of_bool (in_block 4096 p x)"
proof -
  let ?A = "A[0 := p # A ! 0]"
  let ?s = "s\<lparr>mem := store64 (mem s) p (pmmap s ! 0), pmmap := (pmmap s)[0 := p]\<rparr>"
  have pm: "pm_rel K s A" by (rule heap_relD(1) [OF rel])
  have len: "length A = 3" using pm by (simp add: pm_rel_def)
  have z: "(0 :: nat) < 3" by simp
  have one: "cover A x \<le> 1" for x using pm by (simp add: pm_rel_def)
  have room: "cover A x + of_bool (in_block (pm_sz 0) p x) \<le> 1" for x using one [of x] unc by auto
  have ok0: "block_ok K (memtotal s) (pm_sz 0) p" using ok(1) by simp
  have free: "pmfree K p PM_4K s = Inr ?s" and rel': "pm_rel K ?s ?A"
    using pmfree_step [OF pm z ok0 room] by (simp_all add: pm_size_def)
  have cov: "cover ?A x = cover A x + of_bool (in_block 4096 p x)" for x
    using cover_update [OF len z, of "p # A ! 0" x] by simp
  have nw: "unat p + 8 \<le> 18446744073709551616" using block_ok_no_wrap [OF ok(1)] by simp
  have out: "mem ?s x = mem s x" if "\<not> in_block 4096 p (unat x)" for x
    using that bytes_at_in_block [OF nw, of x] by (auto simp: quad_cell.store_outside in_block_def)
  have f: "slab_address (mem ?s) (sl_entry r) = slab_address (mem s) (sl_entry r)"
    "slab_bitmap (mem ?s) (sl_entry r) = slab_bitmap (mem s) (sl_entry r)"
    "slab_next (mem ?s) (sl_entry r) = slab_next (mem s) (sl_entry r)" if "slab_in H i r" for i r
  proof -
    have "mem ?s x = mem s x" if "x \<in> bytes_at (sl_entry r) 24" for x
      by (rule out) (use that entry_bytes [OF rel \<open>slab_in H i r\<close>] record_in_heap [OF rel \<open>slab_in H i r\<close>] unc in auto)
    from fields_cong [OF this] show "slab_address (mem ?s) (sl_entry r) = slab_address (mem s) (sl_entry r)"
      "slab_bitmap (mem ?s) (sl_entry r) = slab_bitmap (mem s) (sl_entry r)"
      "slab_next (mem ?s) (sl_entry r) = slab_next (mem s) (sl_entry r)" by simp_all
  qed
  have ch: "chain (slab_next (mem ?s)) (slab_head K i) (map sl_entry (H ! i))" if "i < 14" for i
  proof -
    have "chain (slab_next (mem ?s)) (slab_head K i) (map sl_entry (H ! i)) \<longleftrightarrow>
        chain (slab_next (mem s)) (slab_head K i) (map sl_entry (H ! i))"
      by (rule chain_cong) (use that f(3) in \<open>auto simp: slab_in_def\<close>)
    with heap_relD(5) [OF rel that] show ?thesis by simp
  qed
  have slabs: "slab_ok K ?s ?A H i r" if "slab_in H i r" for i r
  proof -
    have "cover ?A x = 0" if x: "in_block (page_sz i) (sl_page r) x" for x
    proof -
      have "x \<in> heap_bytes K H" using x \<open>slab_in H i r\<close> by (auto simp: heap_bytes_def)
      then show ?thesis using cov [of x] unc slab_okD(6) [OF heap_relD(6) [OF rel \<open>slab_in H i r\<close>] x] by auto
    qed
    with heap_relD(6) [OF rel that] f [OF that] show ?thesis by (simp add: slab_ok_def page_ok_def)
  qed
  have "4096 dvd unat a" if "a \<in> set (A ! 0)" for a using heap_relD(2) [OF rel] that z unfolding pm_aligned_def by blast
  then have al: "pm_aligned ?A"
    using heap_relD(2) [OF rel] ok(2) len by (auto simp: pm_aligned_def nth_list_update)
  have "heap_rel K ?s ?A H"
    using rel rel' al ch slabs unfolding heap_rel_def by blast
  then show thesis using that [of ?s] free cov out by simp
qed

section \<open>The request\<close>

lemma slot_index:
  assumes ok: "block_ok K mt (page_sz i) (sl_page r)" and i: "i < 14" and k: "k < slots i"
  shows "(slot i r k - sl_page r) div push_bit i SLAB_MIN_SIZE = of_nat k"
    and "\<not> of_nat k \<ge> slab_page_size i div push_bit i SLAB_MIN_SIZE" and "unat (of_nat k :: uint64) = k"
proof -
  note sz = slot_sz_bounds [OF i]
  have small: "page_sz i < 18446744073709551616" "slot_sz i < 18446744073709551616" "slots i < 18446744073709551616"
    using sz slots_bounds [OF i] by linarith+
  have u: "unat (of_nat m :: uint64) = m" if "m < 18446744073709551616" for m using that by (rule unat_of_nat_small)
  have kz: "k * slot_sz i < 18446744073709551616" using slot_fits [OF i k] small(1) by linarith
  show uk: "unat (of_nat k :: uint64) = k" using k small(3) by (intro u) linarith
  have sub: "slot i r k - sl_page r = of_nat (k * slot_sz i)" by (simp add: slot_def)
  show "(slot i r k - sl_page r) div push_bit i SLAB_MIN_SIZE = of_nat k"
    unfolding class_words(1) [OF i] sub word_unat_eq_iff unat_div uk u [OF kz] u [OF small(2)] using sz by simp
  have "unat (slab_page_size i div push_bit i SLAB_MIN_SIZE) = slots i"
    unfolding class_words(1) [OF i] class_page_word [OF i] unat_div u [OF small(1)] u [OF small(2)] by (simp add: slots_def)
  then show "\<not> of_nat k \<ge> slab_page_size i div push_bit i SLAB_MIN_SIZE"
    using k uk by (simp add: word_le_nat_alt)
qed

lemma kmfree_step:
  assumes rel: "heap_rel K s A H" and f: "fuel_ok K s" and i: "i < 14" and H: "H ! i = us @ r # vs"
    and k: "bit (sl_bits r) k" and al: "slot_sz i dvd unat (slot i r k)"
  defines "b \<equiv> sl_bits r AND NOT (push_bit k 1)"
  defines "s1 \<equiv> set_slab_bitmap (sl_entry r) b s"
  defines "prev \<equiv> if us = [] then NULL else sl_entry (last us)"
  shows "kmfree_rec (Suc n) K (slot i r k) s =
    ebind (if b = 0 \<and> us \<noteq> [] then kmfree_rec n K (sl_entry r) (set_slab_next prev (slab_next (mem s1) (sl_entry r)) s1)
           else Inr s1) (\<lambda>s.
    if slab_bitmap (mem s) (sl_entry r) = 1 \<and> i = 0 \<and> us \<noteq> [] then
      pmfree K (sl_entry r) PM_4K (set_slab_next prev (slab_next (mem s) (sl_entry r)) s)
    else Inr s)"
proof -
  have r: "slab_in H i r" using H i by (simp add: slab_in_def)
  note ok = heap_relD(6) [OF rel r]
  have bo: "block_ok K (memtotal s) (page_sz i) (sl_page r)" and kb: "k < slots i"
    using slab_okD(4) [OF ok] slab_okD(3) [OF ok k] by auto
  have "in_block (page_sz i) (sl_page r) (unat (slot i r k))" by (rule slot_in_page [OF bo i kb slot_start])
  from slab_find_spec [OF rel f i H this]
  have find: "slab_find K (mem s) (slot i r k) [0..<SLAB_NUM] = Inr (Some (i, sl_entry r, prev))" by (simp add: prev_def)
  have "unat (slot i r k) = unat (sl_page r) + k * slot_sz i" by (rule unat_slot [OF bo i kb])
  then have a0: "slot i r k \<noteq> NULL" using bo by (auto simp: block_ok_def word_unat_eq_iff)
  have md: "slot i r k mod push_bit i SLAB_MIN_SIZE = 0"
    unfolding class_words(1) [OF i] word_unat_eq_iff unat_mod
    using al slot_sz_bounds [OF i] unat_of_nat_small [of "slot_sz i"] by (simp add: dvd_imp_mod_0)
  have i0: "push_bit i SLAB_MIN_SIZE = SLAB_MIN_SIZE \<longleftrightarrow> i = 0"
    using i by (elim class_cases) (simp_all add: SLAB_MIN_SIZE_def)
  have pn: "prev \<noteq> NULL \<longleftrightarrow> us \<noteq> []"
  proof (cases "us = []")
    case False
    then have "last us \<in> set (H ! i)" using H by simp
    then have "sl_entry (last us) \<in> set (map sl_entry (H ! i))" by (metis image_eqI list.set_map)
    moreover have "NULL \<notin> set as" if "chain nx p as" for nx p as using that by (induction as arbitrary: p) auto
    ultimately show ?thesis using heap_relD(5) [OF rel i] False unfolding prev_def by metis
  qed (simp add: prev_def)
  have bm: "slab_bitmap (mem s) (sl_entry r) = sl_bits r" "slab_address (mem s) (sl_entry r) = sl_page r"
    using slab_okD(1,2) [OF ok] by auto
  have bm1: "slab_bitmap (mem s1) (sl_entry r) = b" by (simp add: s1_def set_slab_bitmap_def fields_set)
  have small: "\<not> KiB 4 < slab_page_size 0" by (simp add: slab_page_size_def SLAB_4K_def KiB_def PM_values)
  note ix = slot_index [OF bo i kb]
  show ?thesis
    unfolding kmfree_rec.simps(2) find ebind_Inr option.case prod.case Let_def bm ix(1) ix(3)
      b_def [symmetric] s1_def [symmetric] bm1 i0 pn
    using a0 md ix(2) small by (cases "i = 0") (simp_all cong: if_cong)
qed

lemma not_first:
  assumes rel: "heap_rel K s A H" and i: "i < 14" and H: "H ! i = us @ r # vs" and us: "us \<noteq> []"
  obtains r0 k0 where "slab_in H 0 r0" "bit (sl_bits r0) k0" "sl_entry r = slot 0 r0 k0" "i = 0 \<Longrightarrow> r0 = r \<and> k0 = 0"
proof -
  have r: "slab_in H i r" using H i by (simp add: slab_in_def)
  have d: "distinct (map sl_entry (us @ r # vs))" using chain_distinct [OF heap_relD(5) [OF rel i]] H by simp
  have "slab_head K i = sl_entry (hd us)" using heap_relD(5) [OF rel i] H us by (cases us) auto
  moreover have "sl_entry (hd us) \<noteq> sl_entry r" using d us by (cases us) auto
  ultimately have "sl_entry r \<noteq> slab_head K i" by simp
  with slab_okD(7) [OF heap_relD(6) [OF rel r]] that show thesis unfolding entry_ok_def by blast
qed

lemma upd_nth:
  assumes rel: "heap_rel K s A H" and i: "i < 14" and H: "H ! i = us @ r # vs"
  shows "upd_slab H i r r' ! i = us @ r' # vs"
proof -
  have "distinct (map sl_entry (us @ r # vs))" using chain_distinct [OF heap_relD(5) [OF rel i]] H by simp
  then have "distinct (us @ r # vs)" by (rule distinct_map [THEN iffD1, THEN conjunct1])
  then have n: "r \<notin> set us" "r \<notin> set vs" by auto
  have "map (\<lambda>q. if q = r then r' else q) qs = qs" if "r \<notin> set qs" for qs
    using that by (induction qs) auto
  with n show ?thesis using H i heap_relD(4) [OF rel] by (simp add: upd_slab_def)
qed

lemma unlink_freed:
  assumes rel: "heap_rel K s A H" and i: "i < 14" and H: "H ! i = us @ l # r # vs"
    and last: "i = 0 \<longrightarrow> (\<forall>k. bit (sl_bits r) k \<longrightarrow> k = 0)"
  defines "s' \<equiv> set_slab_next (sl_entry l) (slab_next (mem s) (sl_entry r)) s"
  shows "heap_freed K s A H s' A (drop_slab H i r)"
proof -
  have l: "slab_in H i l" and r: "slab_in H i r" using H i by (simp_all add: slab_in_def)
  note un = heap_unlink [OF rel i H last, folded s'_def]
  have "distinct (map sl_entry (us @ l # r # vs))" using chain_distinct [OF heap_relD(5) [OF rel i]] H by simp
  then have "l \<noteq> r" by auto
  then have l': "slab_in (drop_slab H i r) i l" using l by (simp add: slab_in_drop [OF rel r])
  have same: "s' = s\<lparr>mem := mem s', pmmap := pmmap s'\<rparr>" by (simp add: s'_def set_slab_next_def)
  show ?thesis
    unfolding heap_freed_def
  proof (intro conjI allI impI ballI)
    show "x \<in> heap_bytes K H" if "x \<in> heap_bytes K (drop_slab H i r)" for x
      using that by (simp add: heap_bytes_drop [OF rel r])
    show "mem s' x = mem s x" if "unat x \<notin> heap_bytes K H" for x
      using un(2) record_in_heap [OF rel l] that by blast
    show "mem s' x = mem s x" if "(a, n) \<in> live (drop_slab H i r)" "in_block n a (unat x)" for a n x
      using un(2) live_not_record [OF un(1) that(1) l' that(2)] by blast
  qed (use un(1) same in \<open>simp_all\<close>)
qed

lemma kmfree64_spec:
  assumes rel: "heap_rel K s A H" and f: "fuel_ok K s" and a: "(a, 64) \<in> live H"
  obtains s' A' H' where "kmfree_rec (Suc n) K a s = Inr s'" and "heap_freed K s A H s' A' H'"
    and "live H' = live H - {(a, 64)}"
proof -
  obtain j r k where r: "slab_in H j r" and k: "bit (sl_bits r) k" and aj: "a = slot j r k" "64 = slot_sz j"
    "slot j r k \<notin> entries H" by (rule liveE [OF a])
  have j0: "j = 0" using slot_sz_inj [of j 0] aj(2) by simp
  note r = r [unfolded j0] and ak = aj(1) [unfolded j0] and notent = aj(3) [unfolded j0]
  have z: "(0 :: nat) < 14" by simp
  note ok = heap_relD(6) [OF rel r]
  obtain us vs where H: "H ! 0 = us @ r # vs" using r by (auto simp: slab_in_def in_set_conv_decomp)
  have "unat (slot 0 r k) = unat (sl_page r) + k * 64"
    using unat_slot [OF slab_okD(4) [OF ok] z slab_okD(3) [OF ok k]] by simp
  moreover have "(64 :: nat) dvd 4096" by simp
  ultimately have al: "slot_sz 0 dvd unat (slot 0 r k)"
    using slab_okD(5) [OF ok] by (simp add: dvd_trans [of 64 4096])
  define b where "b = sl_bits r AND NOT (push_bit k 1)"
  let ?s1 = "set_slab_bitmap (sl_entry r) b s" and ?r1 = "r\<lparr>sl_bits := b\<rparr>"
  let ?H1 = "upd_slab H 0 r ?r1"
  note cl = clear_slot [OF rel r k notent, folded b_def]
  have rel1: "heap_rel K ?s1 A ?H1" using cl(1) by (simp add: heap_freed_def)
  have H1: "?H1 ! 0 = us @ ?r1 # vs" by (rule upd_nth [OF rel z H])
  have bm: "slab_bitmap (mem ?s1) (sl_entry r) = b" by (simp add: set_slab_bitmap_def fields_set)
  have nz: "b \<noteq> 0" if us: "us \<noteq> []"
  proof -
    obtain r0 k0 where "bit (sl_bits r0) k0" "sl_entry r = slot 0 r0 k0" "r0 = r" "k0 = 0"
      by (rule not_first [OF rel z H us]) auto
    then have z0: "bit (sl_bits r) 0" "sl_entry r = slot 0 r 0" by simp_all
    have "slot 0 r k \<noteq> sl_entry r" using notent r unfolding entries_def by blast
    then have "k \<noteq> 0" unfolding z0(2) by metis
    then have "bit b 0" using cl(3) z0(1) by simp
    then show ?thesis by auto
  qed
  have step: "kmfree_rec (Suc n) K a s = (if b = 1 \<and> us \<noteq> [] then
      pmfree K (sl_entry r) PM_4K (set_slab_next (sl_entry (last us)) (slab_next (mem ?s1) (sl_entry r)) ?s1) else Inr ?s1)"
    unfolding ak kmfree_step [OF rel f z H k al, folded b_def] using nz bm by (cases "us = []") simp_all
  show thesis
  proof (cases "b = 1 \<and> us \<noteq> []")
    case False
    then have run: "kmfree_rec (Suc n) K a s = Inr ?s1" unfolding step by (simp only: if_False)
    show thesis by (rule that [OF run cl(1)]) (use cl(2) ak in simp)
  next
    case True
    then obtain us' l where us: "us = us' @ [l]" by (metis append_butlast_last_id)
    have H1': "?H1 ! 0 = us' @ l # ?r1 # vs" using H1 us by simp
    have b0: "\<forall>k. bit (sl_bits ?r1) k \<longleftrightarrow> k = 0" using True by (simp add: bit_1_iff)
    then have last: "0 = (0 :: nat) \<longrightarrow> (\<forall>k. bit (sl_bits ?r1) k \<longrightarrow> k = 0)" by blast
    note un = unlink_freed [OF rel1 z H1' last] and uh = heap_unlink [OF rel1 z H1' last]
    have r1: "slab_in ?H1 0 ?r1" using H1 by (simp add: slab_in_def)
    obtain r0 k0 where e: "sl_entry ?r1 = slot 0 r0 k0" "r0 = ?r1" "k0 = 0"
      by (rule not_first [OF rel1 z H1]) (use True in auto)
    have lv: "live (drop_slab ?H1 0 ?r1) = live ?H1"
      by (rule live_drop64 [OF rel1 r1 _ b0]) (use e in simp)
    let ?s2 = "set_slab_next (sl_entry l) (slab_next (mem ?s1) (sl_entry r)) ?s1" and ?H2 = "drop_slab ?H1 0 ?r1"
    have rel2: "heap_rel K ?s2 A ?H2" using uh(1) by simp
    have ep: "sl_entry r = sl_page r" using e by (simp add: slot_def)
    note ok1 = heap_relD(6) [OF rel1 r1]
    have mt2: "memtotal ?s2 = memtotal ?s1" by (simp add: set_slab_next_def)
    have bo: "block_ok K (memtotal ?s2) 4096 (sl_page r)" "4096 dvd unat (sl_page r)"
      unfolding mt2 using slab_okD(4,5) [OF ok1] by simp_all
    have unc: "\<forall>x. in_block 4096 (sl_page r) x \<longrightarrow> cover A x = 0 \<and> x \<notin> heap_bytes K ?H2"
      using slab_okD(6) [OF ok1] by (simp add: heap_bytes_drop [OF rel1 r1])
    obtain s3 where g: "pmfree K (sl_page r) PM_4K ?s2 = Inr s3" "heap_rel K s3 (A[0 := sl_page r # A ! 0]) ?H2"
      "s3 = ?s2\<lparr>mem := mem s3, pmmap := pmmap s3\<rparr>" "\<forall>x. \<not> in_block 4096 (sl_page r) (unat x) \<longrightarrow> mem s3 x = mem ?s2 x"
      "\<forall>x. cover (A[0 := sl_page r # A ! 0]) x = cover A x + of_bool (in_block 4096 (sl_page r) x)"
      by (rule heap_give [OF rel2 bo unc])
    let ?A = "A[0 := sl_page r # A ! 0]"
    have hb: "in_block 4096 (sl_page r) x \<Longrightarrow> x \<in> heap_bytes K ?H1" for x
      using r1 by (force simp: heap_bytes_def)
    have un': "heap_freed K ?s1 A ?H1 ?s2 A ?H2" using un by simp
    have "heap_freed K ?s1 A ?H1 s3 ?A ?H2"
      unfolding heap_freed_def
    proof (intro conjI allI impI ballI)
      show "s3 = ?s1\<lparr>mem := mem s3, pmmap := pmmap s3\<rparr>"
        by (rule pm_same_trans [OF _ g(3)]) (simp add: set_slab_next_def)
      show "x \<in> heap_bytes K ?H1" if "cover ?A x \<noteq> cover A x" for x using that g(5) hb by (auto split: if_splits)
      show "x \<notin> heap_bytes K ?H2" if "cover ?A x \<noteq> cover A x" for x using that g(5) unc by (auto split: if_splits)
      show "x \<in> heap_bytes K ?H1" if "x \<in> heap_bytes K ?H2" for x using that un' unfolding heap_freed_def by blast
      show "mem s3 x = mem ?s1 x" if "unat x \<notin> heap_bytes K ?H1" for x
        using that g(4) hb un' unfolding heap_freed_def by metis
      show "mem s3 x = mem ?s1 x" if "(c, m) \<in> live ?H2" "in_block m c (unat x)" for c m x
      proof -
        have "unat x \<in> heap_bytes K ?H2" by (rule live_uncovered(2) [OF rel2 that])
        then have "mem s3 x = mem ?s2 x" using g(4) unc by blast
        with un' that show ?thesis unfolding heap_freed_def by metis
      qed
      show "big_left A \<le> big_left ?A" by (simp add: big_left_def nth_list_update)
    qed (use g(2,5) in simp_all)
    then have fr: "heap_freed K s A H s3 ?A ?H2" by (rule heap_freed_trans [OF cl(1)]) (simp add: lv)
    have run: "kmfree_rec (Suc n) K a s = Inr s3"
      unfolding step ep using True us g(1) [unfolded ep] by (simp only: simp_thms if_True last_snoc)
    show thesis by (rule that [OF run fr]) (use lv cl(2) ak in simp)
  qed
qed

lemma heap_freed_same:
  assumes "heap_freed K s A H s' A' H'"
  shows "fuel_ok K s' \<longleftrightarrow> fuel_ok K s"
proof -
  have "s' = s\<lparr>mem := mem s', pmmap := pmmap s'\<rparr>" using assms by (simp add: heap_freed_def)
  then have "memtotal s' = memtotal s" by (rule ssubst [where P = "\<lambda>t. memtotal t = memtotal s"]) simp
  then show ?thesis by (simp add: fuel_ok_def)
qed

text \<open>
  The last object of a slab that is not the first of a larger class: the slab leaves the heap, its
  record is released, and its page is neither free nor part of the heap any more.
\<close>

lemma kmfree_last:
  assumes rel: "heap_rel K s A H" and f: "fuel_ok K s" and i: "0 < i" "i < 14" and H: "H ! i = us @ r # vs"
    and us: "us \<noteq> []" and k: "\<forall>l. bit (sl_bits r) l \<longleftrightarrow> l = k" and al: "slot_sz i dvd unat (slot i r k)"
    and notent: "slot i r k \<notin> entries H"
  obtains s' A' H' where "kmfree_rec (Suc (Suc n)) K (slot i r k) s = Inr s'" and "heap_freed K s A H s' A' H'"
    and "live H' = live H - {(slot i r k, slot_sz i)}"
    and "\<forall>x. in_block (page_sz i) (sl_page r) x \<longrightarrow> cover A' x = 0 \<and> x \<notin> heap_bytes K H'"
    and "\<forall>x. in_block (slot_sz i) (slot i r k) (unat x) \<longrightarrow> mem s' x = mem s x"
proof -
  have r: "slab_in H i r" using H i by (simp add: slab_in_def)
  have k1: "bit (sl_bits r) k" using k by simp
  define b where "b = sl_bits r AND NOT (push_bit k 1)"
  let ?s1 = "set_slab_bitmap (sl_entry r) b s" and ?r1 = "r\<lparr>sl_bits := b\<rparr>"
  let ?H1 = "upd_slab H i r ?r1"
  note cl = clear_slot [OF rel r k1 notent, folded b_def]
  have b0: "b = 0" using cl(3) k by (intro bit_eqI) simp
  have rel1: "heap_rel K ?s1 A ?H1" using cl(1) by (simp add: heap_freed_def)
  obtain us' l where us': "us = us' @ [l]" using us by (metis append_butlast_last_id)
  have H1: "?H1 ! i = us @ ?r1 # vs" by (rule upd_nth [OF rel i(2) H])
  then have H1': "?H1 ! i = us' @ l # ?r1 # vs" using us' by simp
  have r1: "slab_in ?H1 i ?r1" using H1 i by (simp add: slab_in_def)
  have last: "i = 0 \<longrightarrow> (\<forall>k. bit (sl_bits ?r1) k \<longrightarrow> k = 0)" using i by simp
  let ?s2 = "set_slab_next (sl_entry l) (slab_next (mem ?s1) (sl_entry r)) ?s1" and ?H2 = "drop_slab ?H1 i ?r1"
  have un: "heap_freed K ?s1 A ?H1 ?s2 A ?H2" using unlink_freed [OF rel1 i(2) H1' last] by simp
  have rel2: "heap_rel K ?s2 A ?H2" using un by (simp add: heap_freed_def)
  obtain r0 k0 where r0: "slab_in ?H1 0 r0" "bit (sl_bits r0) k0" "sl_entry ?r1 = slot 0 r0 k0"
    by (rule not_first [OF rel1 i(2) H1 us])
  have lv2: "live ?H2 = insert (sl_entry r, 64) (live ?H1)"
    using live_drop_large [OF rel1 r1 _ r0 i(1)] b0 by simp
  have "sl_entry r \<in> entries ?H1"
    unfolding entries_def mem_Collect_eq using r1 by (intro exI [of _ i] exI [of _ ?r1]) simp
  then have ne: "(sl_entry r, m) \<notin> live ?H1" for m by (auto simp: live_def)
  have f2: "fuel_ok K ?s2" using f heap_freed_same [OF un] heap_freed_same [OF cl(1)] by simp
  have e2: "(sl_entry r, 64) \<in> live ?H2" using lv2 by simp
  obtain s' A' H' where s': "kmfree_rec (Suc n) K (sl_entry r) ?s2 = Inr s'" "heap_freed K ?s2 A ?H2 s' A' H'"
    "live H' = live ?H2 - {(sl_entry r, 64)}" by (rule kmfree64_spec [OF rel2 f2 e2])
  have lv: "live H' = live ?H1" using s'(3) lv2 ne by auto
  have "heap_freed K ?s1 A ?H1 s' A' H'" by (rule heap_freed_trans [OF un s'(2)]) (use s'(3) in blast)
  then have fr: "heap_freed K s A H s' A' H'" by (rule heap_freed_trans [OF cl(1)]) (simp add: lv)
  have run: "kmfree_rec (Suc (Suc n)) K (slot i r k) s = Inr s'"
    unfolding kmfree_step [OF rel f i(2) H k1 al, folded b_def]
    using b0 us us' s'(1) i(1) by (simp del: kmfree_rec.simps)
  have leak: "cover A' x = 0 \<and> x \<notin> heap_bytes K H'" if x: "in_block (page_sz i) (sl_page r) x" for x
  proof -
    have out: "x \<notin> heap_bytes K ?H2" using x by (simp add: heap_bytes_drop [OF rel1 r1])
    then have "cover A' x = cover A x" "x \<notin> heap_bytes K H'" using s'(2) unfolding heap_freed_def by blast+
    with slab_okD(6) [OF heap_relD(6) [OF rel r] x] show ?thesis by simp
  qed
  have keep: "mem s' x = mem s x" if x: "in_block (slot_sz i) (slot i r k) (unat x)" for x
  proof -
    have lk: "(slot i r k, slot_sz i) \<in> live H" by (rule liveI [OF r k1 notent])
    have l: "slab_in H i l" using H i(2) us' by (simp add: slab_in_def)
    have "in_block (page_sz i) (sl_page r) (unat x)"
      by (rule slot_in_page [OF slab_okD(4) [OF heap_relD(6) [OF rel r]] i(2) slab_okD(3) [OF heap_relD(6) [OF rel r] k1] x])
    then have "unat x \<notin> heap_bytes K ?H2" by (simp add: heap_bytes_drop [OF rel1 r1])
    then have "mem s' x = mem ?s2 x" using s'(2) unfolding heap_freed_def by blast
    also have "mem ?s2 x = mem ?s1 x"
      using heap_unlink(2) [OF rel1 i(2) H1' last] live_not_record [OF rel lk l x] by simp
    also have "mem ?s1 x = mem s x"
      using live_not_record [OF rel lk r x] entry_bytes [OF rel r, of x] store_in_record [of _ "sl_entry r" x]
      by (simp add: set_slab_bitmap_def)
    finally show ?thesis .
  qed
  show thesis by (rule that [OF run fr]) (use lv cl(2) leak keep in auto)
qed

lemma live_aligned:
  assumes rel: "heap_rel K s A H" and a: "(a, n) \<in> live H" and n: "n \<le> 4096"
  shows "n dvd unat a"
proof -
  obtain i r k where r: "slab_in H i r" "bit (sl_bits r) k" "a = slot i r k" "n = slot_sz i" by (rule liveE [OF a])
  have i: "i < 14" using r(1) by (simp add: slab_in_def)
  note ok = heap_relD(6) [OF rel r(1)]
  have "unat a = unat (sl_page r) + k * n"
    using unat_slot [OF slab_okD(4) [OF ok] i slab_okD(3) [OF ok r(2)]] r(3,4) by simp
  moreover have "n dvd 4096" using i n r(4) by (elim class_cases) (simp_all add: slot_sz_def)
  then have "n dvd unat (sl_page r)" using slab_okD(5) [OF ok] by (rule dvd_trans)
  ultimately show ?thesis by simp
qed

lemma heap_fuel:
  assumes rel: "heap_rel K s A H" and f: "fuel_ok K s"
  obtains n where "loop_fuel K = Suc (Suc n)"
proof -
  obtain rs r where "H ! 0 = rs @ [r]" by (rule heap_nonempty [OF rel, of 0]) auto
  then have r: "slab_in H 0 r" by (simp add: slab_in_def)
  note ok = heap_relD(6) [OF rel r]
  have "0 < unat (sl_page r)" using slab_okD(4) [OF ok] by (simp add: block_ok_def unat_gt_0)
  then have "4096 \<le> unat (sl_page r)" using slab_okD(5) [OF ok] by (rule dvd_imp_le [rotated])
  moreover have "unat (sl_page r) + 4096 \<le> unat (memtotal s)" using slab_okD(4) [OF ok] by (simp add: block_ok_def)
  ultimately have "8192 \<le> unat (memtotal s)" by linarith
  then have "8192 div 4096 \<le> unat (memtotal s) div 4096" by (rule div_le_mono)
  with f have "2 < loop_fuel K" by (simp add: fuel_ok_def)
  then show thesis using that [of "loop_fuel K - 2"] by simp
qed

lemma kmfree_spec:
  assumes rel: "heap_rel K s A H" and f: "fuel_ok K s" and a: "(a, n) \<in> live H" and al: "n dvd unat a"
  obtains s' A' H' where "kmfree K a s = Inr s'" and "heap_freed K s A H s' A' H'" and "live H' = live H - {(a, n)}"
    and "n \<noteq> 64 \<longrightarrow> (\<forall>x. in_block n a (unat x) \<longrightarrow> mem s' x = mem s x)"
proof -
  obtain m where m: "loop_fuel K = Suc (Suc m)" by (rule heap_fuel [OF rel f])
  obtain i r k where r: "slab_in H i r" and k: "bit (sl_bits r) k" and ak: "a = slot i r k" "n = slot_sz i"
    and notent: "slot i r k \<notin> entries H" by (rule liveE [OF a])
  have i: "i < 14" using r by (simp add: slab_in_def)
  have al': "slot_sz i dvd unat (slot i r k)" using al ak by simp
  obtain us vs where H: "H ! i = us @ r # vs" using r by (auto simp: slab_in_def in_set_conv_decomp)
  define b where "b = sl_bits r AND NOT (push_bit k 1)"
  note cl = clear_slot [OF rel r k notent, folded b_def]
  consider "i = 0" | "0 < i" "b = 0" "us \<noteq> []" | "0 < i" "b \<noteq> 0 \<or> us = []"
    using neq0_conv [of i] by blast
  then show thesis
  proof cases
    case 1
    then have a64: "(a, 64) \<in> live H" using a ak by simp
    obtain s' A' H' where s': "kmfree_rec (Suc (Suc m)) K a s = Inr s'" "heap_freed K s A H s' A' H'"
      "live H' = live H - {(a, 64)}" by (rule kmfree64_spec [OF rel f a64])
    have "kmfree K a s = Inr s'" unfolding kmfree_def m by (rule s'(1))
    then show thesis by (rule that [OF _ s'(2)]) (use s'(3) 1 ak in simp_all)
  next
    case 2
    have "\<not> bit b l" for l unfolding 2(2) by simp
    with cl(3) k have only: "\<forall>l. bit (sl_bits r) l \<longleftrightarrow> l = k" by metis
    obtain s' A' H' where s': "kmfree_rec (Suc (Suc m)) K (slot i r k) s = Inr s'" "heap_freed K s A H s' A' H'"
      "live H' = live H - {(slot i r k, slot_sz i)}" "\<forall>x. in_block (slot_sz i) (slot i r k) (unat x) \<longrightarrow> mem s' x = mem s x"
      by (rule kmfree_last [OF rel f 2(1) i H 2(3) only al' notent])
    have "kmfree K a s = Inr s'" unfolding kmfree_def m ak(1) by (rule s'(1))
    then show thesis by (rule that [OF _ s'(2)]) (use s'(3,4) ak in simp_all)
  next
    case 3
    then have off: "(b = 0 \<and> us \<noteq> []) = False" "(i = 0) = False" by auto
    have "kmfree K a s = Inr (set_slab_bitmap (sl_entry r) b s)"
      unfolding kmfree_def m ak(1) kmfree_step [OF rel f i H k al', folded b_def] off by simp
    moreover have "mem (set_slab_bitmap (sl_entry r) b s) x = mem s x" if "in_block n a (unat x)" for x
      using live_not_record [OF rel a r that] entry_bytes [OF rel r, of x] store_in_record [of _ "sl_entry r" x]
      by (simp add: set_slab_bitmap_def)
    ultimately show thesis by (intro that [OF _ cl(1)]) (use cl(2) ak in simp_all)
  qed
qed

text \<open>An object that is not aligned to its size, as a page of 512 KiB may hold, cannot be released.\<close>

lemma kmfree_unaligned:
  assumes rel: "heap_rel K s A H" and f: "fuel_ok K s" and a: "(a, n) \<in> live H" and al: "\<not> n dvd unat a"
  shows "kmfree K a s = Inl (Panic ''kmfree: invalid addr %x\<newline>'')"
proof -
  obtain m where m: "loop_fuel K = Suc (Suc m)" by (rule heap_fuel [OF rel f])
  obtain i r k where r: "slab_in H i r" and k: "bit (sl_bits r) k" and ak: "a = slot i r k" "n = slot_sz i" by (rule liveE [OF a])
  have i: "i < 14" using r by (simp add: slab_in_def)
  obtain us vs where H: "H ! i = us @ r # vs" using r by (auto simp: slab_in_def in_set_conv_decomp)
  note ok = heap_relD(6) [OF rel r]
  have bo: "block_ok K (memtotal s) (page_sz i) (sl_page r)" and kb: "k < slots i"
    using slab_okD(4) [OF ok] slab_okD(3) [OF ok k] by auto
  have "in_block (page_sz i) (sl_page r) (unat a)" unfolding ak by (rule slot_in_page [OF bo i kb slot_start])
  note find = slab_find_spec [OF rel f i H this]
  have "unat a = unat (sl_page r) + k * slot_sz i" unfolding ak by (rule unat_slot [OF bo i kb])
  then have a0: "a \<noteq> NULL" using bo by (auto simp: block_ok_def word_unat_eq_iff)
  have "a mod push_bit i SLAB_MIN_SIZE \<noteq> 0"
    unfolding class_words(1) [OF i] word_unat_eq_iff unat_mod
    using al ak(2) slot_sz_bounds [OF i] unat_of_nat_small [of "slot_sz i"] by (simp add: dvd_eq_mod_eq_0)
  then show ?thesis using find a0 by (simp add: kmfree_def m Let_def)
qed

end
