(* ===== verification/HeapUse.thy ===== *)
theory HeapUse
  imports HeapFree
begin

text \<open>
  \<^verbatim>\<open>slab_init\<close> builds the heap, and what its users may rely on afterwards.
\<close>

section \<open>Start-up\<close>

text \<open>The first classes of the static array, each with a page and no object.\<close>

definition heap_part :: "klayout \<Rightarrow> kstate \<Rightarrow> pm_abs \<Rightarrow> uint64 list \<Rightarrow> bool" where
  "heap_part K s A ps \<longleftrightarrow> pm_rel K s A \<and> pm_aligned A \<and> heap_layout K \<and>
     (\<forall>j<length ps. slab_address (mem s) (slab_head K j) = ps ! j \<and> slab_bitmap (mem s) (slab_head K j) = 0 \<and>
        slab_next (mem s) (slab_head K j) = NULL \<and> page_ok K (memtotal s) A j (ps ! j)) \<and>
     (\<forall>j j' x. j < length ps \<longrightarrow> j' < length ps \<longrightarrow> j \<noteq> j' \<longrightarrow>
        \<not> (in_block (page_sz j) (ps ! j) x \<and> in_block (page_sz j') (ps ! j') x))"

lemma head_bytes:
  assumes "heap_layout K" and "i < 14"
  shows "x \<in> bytes_at (slab_head K i) 24 \<longleftrightarrow> in_block 24 (slab_head K i) (unat x)"
proof -
  have "unat (slab_head K i) + 24 \<le> 18446744073709551616"
    using unat_slab_head(2) [OF assms] unat_less_2p64 [of "kernel_end K"] by linarith
  then show ?thesis using bytes_at_in_block [of "slab_head K i" 24] by simp
qed

lemma heads_apart:
  assumes "heap_layout K" and "i < 14" "j < 14" "i \<noteq> j"
  shows "\<not> (in_block 24 (slab_head K i) x \<and> in_block 24 (slab_head K j) x)"
proof -
  have "24 * i + 24 \<le> 24 * j \<or> 24 * j + 24 \<le> 24 * i" using assms(4) by linarith
  then show ?thesis
    unfolding in_block_def unat_slab_head(1) [OF assms(1,2)] unat_slab_head(1) [OF assms(1,3)] by linarith
qed

lemma heads_uncovered:
  assumes "heap_layout K" and "i < 14" and "pm_rel K s A" and "in_block 24 (slab_head K i) x"
  shows "cover A x = 0"
  using cover_below_kernel [OF assms(3), of x] unat_slab_head(2) [OF assms(1,2)] assms(4)
  by (simp add: in_block_def)

lemma heap_part_step:
  assumes part: "heap_part K s A ps" and i: "i < 14" "i = length ps"
    and g: "pm_granted K (page_sz i) s A p A' s1" and al: "pm_aligned A'" "4096 dvd unat p"
  defines "e \<equiv> slab_head K i"
  defines "s' \<equiv> set_slab_next e NULL (set_slab_bitmap e 0 (set_slab_address e p s1))"
  shows "heap_part K s' A' (ps @ [p])"
    and "\<forall>x. cover A (unat x) = 0 \<longrightarrow> \<not> in_block 336 (slabs_at K) (unat x) \<longrightarrow> mem s' x = mem s x"
    and "s' = s\<lparr>mem := mem s', pmmap := pmmap s'\<rparr>"
proof -
  have rel: "pm_rel K s A" and lay: "heap_layout K"
    and recs: "\<And>j. j < length ps \<Longrightarrow> slab_address (mem s) (slab_head K j) = ps ! j \<and>
      slab_bitmap (mem s) (slab_head K j) = 0 \<and> slab_next (mem s) (slab_head K j) = NULL \<and>
      page_ok K (memtotal s) A j (ps ! j)"
    and apart: "\<And>j j' x. j < length ps \<Longrightarrow> j' < length ps \<Longrightarrow> j \<noteq> j' \<Longrightarrow>
      \<not> (in_block (page_sz j) (ps ! j) x \<and> in_block (page_sz j') (ps ! j') x)"
    using part unfolding heap_part_def by blast+
  have g1: "pm_rel K s1 A'" "block_ok K (memtotal s) (page_sz i) p"
    and cov: "\<And>x. cover A' x + of_bool (in_block (page_sz i) p x) = cover A x"
    and same1: "\<And>x. cover A (unat x) = 0 \<Longrightarrow> mem s1 x = mem s x"
    and one: "\<And>x. cover A x \<le> 1" and st1: "s1 = s\<lparr>mem := mem s1, pmmap := pmmap s1\<rparr>"
    using g unfolding pm_granted_def by blast+
  have mt1: "memtotal s1 = memtotal s" by (subst st1) simp
  have st: "mem s' = store64 (store64 (store64 (mem s1) e p) (e + 8) 0) (e + 16) NULL"
    "pmmap s' = pmmap s1" "memtotal s' = memtotal s"
    using mt1 by (simp_all add: s'_def set_slab_next_def set_slab_bitmap_def set_slab_address_def)
  have out: "mem s' x = mem s1 x" if "\<not> in_block 24 e (unat x)" for x
    using that head_bytes [OF lay i(1), of x] store_in_record [of _ e x] unfolding st(1) e_def [symmetric] by simp
  have unc: "cover A x = 0" "cover A' x = 0" if "in_block 24 (slab_head K j) x" "j < 14" for j x
    using heads_uncovered [OF lay that(2) _ that(1)] rel g1(1) by blast+
  have "mem s' x = mem s1 x" if "cover A' (unat x) \<noteq> 0" for x
    by (rule out) (use that unc(2) [of i "unat x"] i(1) e_def in auto)
  then have rel': "pm_rel K s' A'" by (intro pm_rel_frame [OF g1(1) st(2)]) (simp_all add: st(3) mt1)
  have new: "slab_address (mem s') e = p" "slab_bitmap (mem s') e = 0" "slab_next (mem s') e = NULL"
    unfolding st by (simp_all add: fields_set)
  have old: "slab_address (mem s') (slab_head K j) = ps ! j" "slab_bitmap (mem s') (slab_head K j) = 0"
    "slab_next (mem s') (slab_head K j) = NULL" if j: "j < length ps" for j
  proof -
    have "mem s' x = mem s x" if x: "x \<in> bytes_at (slab_head K j) 24" for x
    proof -
      have x': "in_block 24 (slab_head K j) (unat x)" using x head_bytes [OF lay, of j x] j i by simp
      have "\<not> in_block 24 e (unat x)" using heads_apart [OF lay i(1), of j] x' j i unfolding e_def by auto
      from out [OF this] same1 unc(1) [OF x'] j i show ?thesis by simp
    qed
    from fields_cong [OF this] recs [OF j] show "slab_address (mem s') (slab_head K j) = ps ! j"
      "slab_bitmap (mem s') (slab_head K j) = 0" "slab_next (mem s') (slab_head K j) = NULL" by simp_all
  qed
  have pgs: "page_ok K (memtotal s') A' j (ps ! j)" if "j < length ps" for j
  proof -
    have "cover A' x \<le> cover A x" for x using cov [of x] by linarith
    with recs [OF that] show ?thesis unfolding page_ok_def st(3) by (metis le_zero_eq)
  qed
  have pg: "page_ok K (memtotal s') A' i p"
  proof -
    have "cover A' x = 0" if "in_block (page_sz i) p x" for x using cov [of x] one [of x] that by simp
    with g1(2) al(2) show ?thesis by (simp add: page_ok_def st(3))
  qed
  have sep: "\<not> (in_block (page_sz i) p x \<and> in_block (page_sz j) (ps ! j) x)" if "j < length ps" for j x
  proof
    assume x: "in_block (page_sz i) p x \<and> in_block (page_sz j) (ps ! j) x"
    then have "cover A x = 0" using recs [OF that] by (simp add: page_ok_def)
    with cov [of x] x show False by simp
  qed
  show "heap_part K s' A' (ps @ [p])"
    unfolding heap_part_def
  proof (intro conjI allI impI)
    fix j assume j: "j < length (ps @ [p])"
    consider "j < length ps" | "j = i" using j i(2) by (auto simp: less_Suc_eq)
    then show "slab_address (mem s') (slab_head K j) = (ps @ [p]) ! j"
      "slab_bitmap (mem s') (slab_head K j) = 0" "slab_next (mem s') (slab_head K j) = NULL"
      "page_ok K (memtotal s') A' j ((ps @ [p]) ! j)"
      by (cases; use old pgs new pg i(2) in \<open>simp add: nth_append e_def\<close>)+
  next
    fix j j' x assume "j < length (ps @ [p])" "j' < length (ps @ [p])" "j \<noteq> j'"
    then consider "j < length ps" "j' < length ps" | "j = i" "j' < length ps" | "j < length ps" "j' = i"
      using i(2) by fastforce
    then show "\<not> (in_block (page_sz j) ((ps @ [p]) ! j) x \<and> in_block (page_sz j') ((ps @ [p]) ! j') x)"
      by cases (use apart sep i(2) \<open>j \<noteq> j'\<close> in \<open>auto simp: nth_append\<close>)
  qed (use rel' al lay in auto)
  show "\<forall>x. cover A (unat x) = 0 \<longrightarrow> \<not> in_block 336 (slabs_at K) (unat x) \<longrightarrow> mem s' x = mem s x"
  proof (intro allI impI)
    fix x :: uint64 assume x: "cover A (unat x) = 0" "\<not> in_block 336 (slabs_at K) (unat x)"
    have "\<not> in_block 24 e (unat x)"
      using x(2) i(1) unfolding e_def in_block_def unat_slab_head(1) [OF lay i(1)] by linarith
    from out [OF this] same1 [OF x(1)] show "mem s' x = mem s x" by simp
  qed
  have "s' = s1\<lparr>mem := mem s', pmmap := pmmap s'\<rparr>"
    by (simp add: s'_def set_slab_next_def set_slab_bitmap_def set_slab_address_def)
  then show "s' = s\<lparr>mem := mem s', pmmap := pmmap s'\<rparr>" by (rule pm_same_trans [OF st1])
qed

lemma slab_init_loop_spec:
  assumes "heap_part K s A ps" and "14 - length ps \<le> big_left A" and "length ps \<le> 14"
  shows "\<exists>s' A' ps'. slab_init_loop K [length ps..<14] s = Inr s' \<and> heap_part K s' A' ps' \<and> length ps' = 14 \<and>
    big_left A \<le> big_left A' + (14 - length ps) \<and> (\<forall>x. cover A' x \<le> cover A x) \<and>
    (\<forall>x. cover A (unat x) = 0 \<longrightarrow> \<not> in_block 336 (slabs_at K) (unat x) \<longrightarrow> mem s' x = mem s x) \<and>
    take (length ps) ps' = ps \<and>
    (\<forall>j x. length ps \<le> j \<longrightarrow> j < 14 \<longrightarrow> in_block (page_sz j) (ps' ! j) x \<longrightarrow> cover A x = 1) \<and>
    s' = s\<lparr>mem := mem s', pmmap := pmmap s'\<rparr>"
  using assms
proof (induction "14 - length ps" arbitrary: s A ps)
  case 0
  then show ?case by (intro exI [of _ s] exI [of _ A] exI [of _ ps]) simp
next
  case (Suc n)
  let ?i = "length ps"
  have i: "?i < 14" using Suc.hyps(2) by simp
  have rel: "pm_rel K s A" and al: "pm_aligned A" using Suc.prems(1) by (simp_all add: heap_part_def)
  have len: "length A = 3" using rel by (simp add: pm_rel_def)
  obtain m where m: "m < 2" "(if ?i > SLAB_4K then pmalloc K PM_512K s else pmalloc K PM_4K s) = pmalloc K (pm_size m) s"
    "pm_sz m = page_sz ?i" by (rule class_block [OF i])
  have m3: "m < 3" using m(1) by simp
  have "pm_take m A \<noteq> None"
  proof
    assume "pm_take m A = None"
    then have "big_left A = 0" by (rule none_left [OF _ m(1)])
    with Suc.prems(2) Suc.hyps(2) show False by simp
  qed
  then obtain p A1 where t: "pm_take m A = Some (p, A1)" by auto
  from pmalloc_take [OF rel m3] t obtain s1 where s1: "pmalloc K (pm_size m) s = Inr (p, s1)"
    "pm_granted K (page_sz ?i) s A p A1 s1" using m(3) by auto
  note ta = pm_take_aligned [OF t al m3 len]
  let ?s = "set_slab_next (slab_head K ?i) NULL (set_slab_bitmap (slab_head K ?i) 0 (set_slab_address (slab_head K ?i) p s1))"
  have al1: "pm_aligned A1" "4096 dvd unat p" using ta by simp_all
  note st = heap_part_step [OF Suc.prems(1) i refl s1(2) al1]
  have left: "big_left A \<le> Suc (big_left A1)" by (rule pm_take_big_left [OF t m(1) len])
  have c1: "cover A1 x \<le> cover A x" for x using s1(2) unfolding pm_granted_def by (metis le_add1)
  have "\<exists>s' A' ps'. slab_init_loop K [length (ps @ [p])..<14] ?s = Inr s' \<and> heap_part K s' A' ps' \<and> length ps' = 14 \<and>
    big_left A1 \<le> big_left A' + (14 - length (ps @ [p])) \<and> (\<forall>x. cover A' x \<le> cover A1 x) \<and>
    (\<forall>x. cover A1 (unat x) = 0 \<longrightarrow> \<not> in_block 336 (slabs_at K) (unat x) \<longrightarrow> mem s' x = mem ?s x) \<and>
    take (length (ps @ [p])) ps' = ps @ [p] \<and>
    (\<forall>j x. length (ps @ [p]) \<le> j \<longrightarrow> j < 14 \<longrightarrow> in_block (page_sz j) (ps' ! j) x \<longrightarrow> cover A1 x = 1) \<and>
    s' = ?s\<lparr>mem := mem s', pmmap := pmmap s'\<rparr>"
    by (rule Suc.hyps(1) [OF _ st(1)]) (use Suc.hyps(2) Suc.prems(2) left i in simp_all)
  then obtain s' A' ps' where r: "slab_init_loop K [length (ps @ [p])..<14] ?s = Inr s'" "heap_part K s' A' ps'"
    "length ps' = 14" "big_left A1 \<le> big_left A' + (14 - length (ps @ [p]))" "\<forall>x. cover A' x \<le> cover A1 x"
    and f: "\<forall>x. cover A1 (unat x) = 0 \<longrightarrow> \<not> in_block 336 (slabs_at K) (unat x) \<longrightarrow> mem s' x = mem ?s x"
    and pre: "take (length (ps @ [p])) ps' = ps @ [p]"
    and pgs: "\<forall>j x. length (ps @ [p]) \<le> j \<longrightarrow> j < 14 \<longrightarrow> in_block (page_sz j) (ps' ! j) x \<longrightarrow> cover A1 x = 1"
    and same: "s' = ?s\<lparr>mem := mem s', pmmap := pmmap s'\<rparr>" by (elim exE conjE) (rule that)
  have "slab_init_loop K [?i..<14] s = slab_init_loop K [Suc ?i..<14] ?s"
    using s1(1) m(2) by (subst upt_rec) (simp add: i Let_def)
  then have run: "slab_init_loop K [?i..<14] s = Inr s'" using r(1) by simp
  have sm: "s' = s\<lparr>mem := mem s', pmmap := pmmap s'\<rparr>" by (rule pm_same_trans [OF st(3) same])
  have lt: "big_left A \<le> big_left A' + (14 - length ps)" using r(4) left i by simp
  have cv: "cover A' x \<le> cover A x" for x using r(5) c1 by (meson order_trans)
  have fr: "mem s' x = mem s x" if x: "cover A (unat x) = 0" "\<not> in_block 336 (slabs_at K) (unat x)" for x
  proof -
    have "cover A1 (unat x) = 0" using c1 [of "unat x"] x(1) by simp
    with f st(2) x show ?thesis by simp
  qed
  have "ps' = (ps @ [p]) @ drop (length (ps @ [p])) ps'" 
    by (rule append_take_drop_id [of "length (ps @ [p])" ps', unfolded pre, symmetric])
  then obtain qs where qs: "ps' = ps @ p # qs" by simp
  then have here: "ps' ! ?i = p" and first: "take ?i ps' = ps" by simp_all
  have one: "cover A x \<le> 1" for x using rel by (simp add: pm_rel_def)
  have pc: "cover A x = 1" if j: "?i \<le> j" "j < 14" "in_block (page_sz j) (ps' ! j) x" for j x
  proof (cases "j = ?i")
    case True
    then have "in_block (page_sz ?i) p x" using j(3) here by simp
    moreover have "cover A1 x + of_bool (in_block (page_sz ?i) p x) = cover A x" using s1(2) unfolding pm_granted_def by blast
    ultimately show ?thesis using one [of x] by simp
  next
    case False
    then have "length (ps @ [p]) \<le> j" using j(1) by simp
    then have "cover A1 x = 1" using pgs j(2,3) by blast
    with c1 [of x] one [of x] show ?thesis by linarith
  qed
  show ?case
    by (intro exI [of _ s'] exI [of _ A'] exI [of _ ps'] conjI allI impI run r(2,3) lt cv fr sm first pc)
qed

lemma heap_part_full:
  assumes part: "heap_part K s A ps" and len: "length ps = 14"
  defines "H \<equiv> map (\<lambda>i. [\<lparr>sl_entry = slab_head K i, sl_page = ps ! i, sl_bits = 0\<rparr>]) [0..<14]"
  shows "heap_rel K s A H" and "live H = {}"
proof -
  have rel: "pm_rel K s A" "pm_aligned A" and lay: "heap_layout K"
    and recs: "\<And>j. j < 14 \<Longrightarrow> slab_address (mem s) (slab_head K j) = ps ! j \<and>
      slab_bitmap (mem s) (slab_head K j) = 0 \<and> slab_next (mem s) (slab_head K j) = NULL \<and>
      page_ok K (memtotal s) A j (ps ! j)"
    and apart: "\<And>j j' x. j < 14 \<Longrightarrow> j' < 14 \<Longrightarrow> j \<noteq> j' \<Longrightarrow>
      \<not> (in_block (page_sz j) (ps ! j) x \<and> in_block (page_sz j') (ps ! j') x)"
    using part unfolding heap_part_def len by blast+
  have nth: "H ! i = [\<lparr>sl_entry = slab_head K i, sl_page = ps ! i, sl_bits = 0\<rparr>]" if "i < 14" for i
    using that by (simp add: H_def del: upt_rec_numeral)
  have mem_H: "slab_in H i r \<longleftrightarrow> i < 14 \<and> r = \<lparr>sl_entry = slab_head K i, sl_page = ps ! i, sl_bits = 0\<rparr>" for i r
    using nth by (auto simp: slab_in_def)
  have ne: "slab_head K i \<noteq> slab_head K j" if "i < 14" "j < 14" "i \<noteq> j" for i j
    using heads_apart [OF lay that, of "unat (slab_head K i)"] by (auto simp: in_block_def)
  have head: "slab_head K i \<noteq> NULL" if "i < 14" for i
    using unat_slab_head(1) [OF lay that] lay by (auto simp: heap_layout_def word_unat_eq_iff)
  have ch: "chain (slab_next (mem s)) (slab_head K i) (map sl_entry (H ! i))" if "i < 14" for i
    using recs [OF that] head [OF that] by (simp add: nth [OF that])
  have ok: "slab_ok K s A H i r" if "slab_in H i r" for i r
    using that recs [of i] by (simp add: mem_H slab_ok_def entry_ok_def)
  have sep: "sl_entry r \<noteq> sl_entry r' \<and>
      (\<forall>x. \<not> (in_block (page_sz i) (sl_page r) x \<and> in_block (page_sz i') (sl_page r') x))"
    if "slab_in H i r" "slab_in H i' r'" "(i, r) \<noteq> (i', r')" for i r i' r'
  proof -
    have "i < 14" "i' < 14" "i \<noteq> i'" using that by (auto simp: mem_H)
    with ne apart that(1,2) show ?thesis by (simp add: mem_H)
  qed
  have "length H = 14" by (simp add: H_def del: upt_rec_numeral)
  with rel lay ch ok sep show "heap_rel K s A H" unfolding heap_rel_def by blast
  show "live H = {}" by (auto simp: live_def mem_H)
qed

lemma slab_init_heap:
  assumes rel: "pm_rel K s A" and al: "pm_aligned A" and lay: "heap_layout K" and left: "14 \<le> big_left A"
  obtains s' A' H where "slab_init_loop K [0..<SLAB_NUM] s = Inr s'" and "heap_rel K s' A' H" and "live H = {}"
    and "big_left A \<le> big_left A' + 14" and "s' = s\<lparr>mem := mem s', pmmap := pmmap s'\<rparr>"
    and "\<forall>x. cover A (unat x) = 0 \<longrightarrow> \<not> in_block 336 (slabs_at K) (unat x) \<longrightarrow> mem s' x = mem s x"
    and "\<forall>i<14. \<exists>r. H ! i = [r] \<and> sl_bits r = 0" and "\<forall>x. cover A' x \<le> cover A x"
    and "\<forall>x \<in> heap_bytes K H. in_block 336 (slabs_at K) x \<or> cover A x = 1"
proof -
  have "heap_part K s A []" using rel al lay by (simp add: heap_part_def)
  from slab_init_loop_spec [OF this] left obtain s' A' ps where s': "slab_init_loop K [0..<14] s = Inr s'"
    "heap_part K s' A' ps" "length ps = 14" "big_left A \<le> big_left A' + 14"
    "\<forall>x. cover A (unat x) = 0 \<longrightarrow> \<not> in_block 336 (slabs_at K) (unat x) \<longrightarrow> mem s' x = mem s x"
    "s' = s\<lparr>mem := mem s', pmmap := pmmap s'\<rparr>" "\<forall>x. cover A' x \<le> cover A x"
    and pc: "\<forall>j x. j < 14 \<longrightarrow> in_block (page_sz j) (ps ! j) x \<longrightarrow> cover A x = 1"
    by (auto simp del: upt_rec_numeral)
  let ?H = "map (\<lambda>i. [\<lparr>sl_entry = slab_head K i, sl_page = ps ! i, sl_bits = 0\<rparr>]) [0..<14]"
  have "\<forall>i<14. \<exists>r. ?H ! i = [r] \<and> sl_bits r = 0" by (simp del: upt_rec_numeral)
  moreover have "\<forall>x \<in> heap_bytes K ?H. in_block 336 (slabs_at K) x \<or> cover A x = 1"
    using pc by (auto simp: heap_bytes_def slab_in_def simp del: upt_rec_numeral)
  ultimately show thesis using heap_part_full [OF s'(2,3)] that [of s' A' ?H] s'(1,4,5,6,7)
    by (simp add: SLAB_NUM_def del: upt_rec_numeral)
qed

section \<open>The contract\<close>

text \<open>
  What the users of a heap rely on: an object that is handed out has room for the request, reads as
  zero and shares no byte with an object in use; a release takes exactly that object away;
  and neither operation changes an object that stays in use.  A sequence of requests of one size
  is given as a relation.
\<close>

inductive alloc_run :: "(uint64 \<Rightarrow> 's \<Rightarrow> (uint64 \<times> 's) kres) \<Rightarrow> uint64 \<Rightarrow> 's \<Rightarrow> uint64 list \<Rightarrow> 's \<Rightarrow> bool"
  for alloc n where
  run_Nil: "alloc_run alloc n s [] s"
| run_Cons: "alloc n s = Inr (a, s1) \<Longrightarrow> alloc_run alloc n s1 as s' \<Longrightarrow> alloc_run alloc n s (a # as) s'"

locale object_heap =
  fixes alloc :: "uint64 \<Rightarrow> 's \<Rightarrow> (uint64 \<times> 's) kres"
    and release :: "uint64 \<Rightarrow> 's \<Rightarrow> 's kres"
    and inv :: "'s \<Rightarrow> 'h \<Rightarrow> bool"
    and objs :: "'h \<Rightarrow> (uint64 \<times> nat) set"
    and room :: "uint64 \<Rightarrow> nat"
    and rd :: "'s \<Rightarrow> uint64 \<Rightarrow> uint8"
  assumes alloc_ok: "inv s h \<Longrightarrow> alloc n s = Inr (a, s') \<Longrightarrow>
      \<exists>h'. inv s' h' \<and> objs h' = insert (a, room n) (objs h) \<and> unat n \<le> room n \<and>
        (\<forall>x. in_block (room n) a (unat x) \<longrightarrow> rd s' x = 0) \<and>
        (\<forall>b m x. (b, m) \<in> objs h \<longrightarrow> \<not> (in_block (room n) a x \<and> in_block m b x)) \<and>
        (\<forall>b m x. (b, m) \<in> objs h \<longrightarrow> in_block m b (unat x) \<longrightarrow> rd s' x = rd s x)"
    and release_ok: "inv s h \<Longrightarrow> (a, m) \<in> objs h \<Longrightarrow> m \<le> 4096 \<Longrightarrow>
      \<exists>s' h'. release a s = Inr s' \<and> inv s' h' \<and> objs h' = objs h - {(a, m)} \<and>
        (\<forall>b k x. (b, k) \<in> objs h' \<longrightarrow> in_block k b (unat x) \<longrightarrow> rd s' x = rd s x)"
    and room_pos: "0 < room n"
begin

lemma alloc_fresh: "inv s h \<Longrightarrow> alloc n s = Inr (a, s') \<Longrightarrow> (a, m) \<notin> objs h \<or> m = 0"
  using alloc_ok [of s h n a s'] room_pos [of n] by (force simp: in_block_def)

lemma run_objects:
  assumes "alloc_run alloc n s as s'" and "inv s h"
  shows "\<exists>h'. inv s' h' \<and> objs h' = objs h \<union> (\<lambda>a. (a, room n)) ` set as \<and>
    (\<forall>b m x. (b, m) \<in> objs h \<longrightarrow> in_block m b (unat x) \<longrightarrow> rd s' x = rd s x) \<and>
    (\<forall>a \<in> set as. \<forall>b m x. (b, m) \<in> objs h \<longrightarrow> \<not> (in_block (room n) a x \<and> in_block m b x)) \<and>
    (\<forall>a \<in> set as. \<forall>x. in_block (room n) a (unat x) \<longrightarrow> rd s' x = 0) \<and>
    sorted_wrt (\<lambda>a b. \<forall>x. \<not> (in_block (room n) a x \<and> in_block (room n) b x)) as"
  using assms
proof (induction arbitrary: h rule: alloc_run.induct)
  case (run_Nil s)
  then show ?case by (intro exI [of _ h]) simp
next
  case (run_Cons s a s1 as s')
  from alloc_ok [OF run_Cons.prems run_Cons.hyps(1)] obtain h1 where h1: "inv s1 h1"
    "objs h1 = insert (a, room n) (objs h)" "\<forall>x. in_block (room n) a (unat x) \<longrightarrow> rd s1 x = 0"
    "\<forall>b m x. (b, m) \<in> objs h \<longrightarrow> \<not> (in_block (room n) a x \<and> in_block m b x)"
    "\<forall>b m x. (b, m) \<in> objs h \<longrightarrow> in_block m b (unat x) \<longrightarrow> rd s1 x = rd s x" by blast
  from run_Cons.IH [OF h1(1)] obtain h' where h': "inv s' h'"
    "objs h' = objs h1 \<union> (\<lambda>a. (a, room n)) ` set as"
    "\<forall>b m x. (b, m) \<in> objs h1 \<longrightarrow> in_block m b (unat x) \<longrightarrow> rd s' x = rd s1 x"
    "\<forall>c \<in> set as. \<forall>b m x. (b, m) \<in> objs h1 \<longrightarrow> \<not> (in_block (room n) c x \<and> in_block m b x)"
    "\<forall>c \<in> set as. \<forall>x. in_block (room n) c (unat x) \<longrightarrow> rd s' x = 0"
    "sorted_wrt (\<lambda>a b. \<forall>x. \<not> (in_block (room n) a x \<and> in_block (room n) b x)) as" by blast
  have mem1: "(a, room n) \<in> objs h1" "(b, m) \<in> objs h \<Longrightarrow> (b, m) \<in> objs h1" for b m
    using h1(2) by simp_all
  have "objs h' = objs h \<union> (\<lambda>a. (a, room n)) ` set (a # as)" using h'(2) h1(2) by auto
  moreover have "rd s' x = rd s x" if "(b, m) \<in> objs h" "in_block m b (unat x)" for b m x
    using that h'(3) h1(5) mem1(2) by metis
  moreover have "\<not> (in_block (room n) c x \<and> in_block m b x)" if "c \<in> set (a # as)" "(b, m) \<in> objs h" for c b m x
    using that h1(4) h'(4) mem1(2) by (cases "c = a") auto
  moreover have "rd s' x = 0" if "c \<in> set (a # as)" "in_block (room n) c (unat x)" for c x
    using that h'(3,5) h1(3) mem1(1) by (cases "c \<in> set as") auto
  moreover have "\<forall>x. \<not> (in_block (room n) a x \<and> in_block (room n) b x)" if "b \<in> set as" for b
    using h'(4) that mem1(1) by blast
  ultimately show ?case using h'(1,6) by (intro exI [of _ h'] conjI) simp_all
qed

lemma alloc_release:
  assumes "inv s h" and "alloc n s = Inr (a, s1)" and "room n \<le> 4096"
  shows "\<exists>s2 h2. release a s1 = Inr s2 \<and> inv s2 h2 \<and> objs h2 = objs h \<and>
    (\<forall>b m x. (b, m) \<in> objs h \<longrightarrow> in_block m b (unat x) \<longrightarrow> rd s2 x = rd s x)"
proof -
  from alloc_ok [OF assms(1,2)] obtain h1 where h1: "inv s1 h1" "objs h1 = insert (a, room n) (objs h)"
    "\<forall>b m x. (b, m) \<in> objs h \<longrightarrow> in_block m b (unat x) \<longrightarrow> rd s1 x = rd s x" by blast
  have a: "(a, room n) \<in> objs h1" using h1(2) by simp
  from release_ok [OF h1(1) a assms(3)] obtain s2 h2 where s2: "release a s1 = Inr s2" "inv s2 h2"
    "objs h2 = objs h1 - {(a, room n)}"
    "\<forall>b k x. (b, k) \<in> objs h2 \<longrightarrow> in_block k b (unat x) \<longrightarrow> rd s2 x = rd s1 x" by blast
  have "(a, room n) \<notin> objs h" using alloc_fresh [OF assms(1,2), of "room n"] room_pos [of n] by simp
  then have "objs h2 = objs h" using s2(3) h1(2) by auto
  with s2 h1(3) show ?thesis by auto
qed

end

text \<open>The slab allocator meets the contract.\<close>

definition heap_inv :: "klayout \<Rightarrow> kstate \<Rightarrow> pm_abs \<times> heap_abs \<Rightarrow> bool" where
  "heap_inv K s h \<longleftrightarrow> heap_rel K s (fst h) (snd h) \<and> fuel_ok K s"

lemma kmalloc_too_large: "524288 < sz \<Longrightarrow> kmalloc K sz s = Inl (Panic ''kmalloc: size %d not supported\<newline>'')"
proof -
  assume "524288 < sz"
  then have "\<not> sz \<le> c" if "c \<le> 524288" for c using that by (meson not_le order_trans)
  then show ?thesis by (simp add: kmalloc_def size_to_slab_idx_def KiB_def)
qed

lemma class_room: "sz \<le> 524288 \<Longrightarrow> unat sz \<le> slot_sz (class_of sz)"
  using size_class_some [of sz] size_class(2) [of sz] by (auto simp: class_of_def)

lemma heap_step_fuel: "heap_step K L s A H s' A' H' \<Longrightarrow> fuel_ok K s' \<longleftrightarrow> fuel_ok K s"
proof -
  assume "heap_step K L s A H s' A' H'"
  then have "s' = s\<lparr>mem := mem s', pmmap := pmmap s'\<rparr>" by (simp add: heap_step_def)
  then have "memtotal s' = memtotal s" by (rule ssubst [where P = "\<lambda>t. memtotal t = memtotal s"]) simp
  then show ?thesis by (simp add: fuel_ok_def)
qed

interpretation kheap: object_heap "kmalloc K" "kmfree K" "heap_inv K" "\<lambda>h. live (snd h)" "\<lambda>n. slot_sz (class_of n)" mem
  for K
proof unfold_locales
  fix s h n a s'
  assume inv: "heap_inv K s h" and r: "kmalloc K n s = Inr (a, s')"
  obtain A H where h: "h = (A, H)" by (cases h)
  have rel: "heap_rel K s A H" and f: "fuel_ok K s" using inv h by (simp_all add: heap_inv_def)
  have n: "n \<le> 524288" using r kmalloc_too_large [of n K s] by (cases "n \<le> 524288") auto
  obtain A' H' where g: "heap_grant K s A H a (slot_sz (class_of n)) s' A' H'"
    by (rule kmalloc_cases [OF rel f n]) (use r in auto)
  have "heap_inv K s' (A', H')"
    using g f heap_step_fuel [of K "live H" s A H s' A' H'] by (simp add: heap_inv_def heap_grant_def heap_step_def)
  with g class_room [OF n] show "\<exists>h'. heap_inv K s' h' \<and> live (snd h') = insert (a, slot_sz (class_of n)) (live (snd h)) \<and>
      unat n \<le> slot_sz (class_of n) \<and>
      (\<forall>x. in_block (slot_sz (class_of n)) a (unat x) \<longrightarrow> mem s' x = 0) \<and>
      (\<forall>b m x. (b, m) \<in> live (snd h) \<longrightarrow> \<not> (in_block (slot_sz (class_of n)) a x \<and> in_block m b x)) \<and>
      (\<forall>b m x. (b, m) \<in> live (snd h) \<longrightarrow> in_block m b (unat x) \<longrightarrow> mem s' x = mem s x)"
    unfolding h by (intro exI [of _ "(A', H')"]) (simp add: heap_grant_def heap_step_def)
next
  fix s h a m
  assume inv: "heap_inv K s h" and a: "(a, m) \<in> live (snd h)" and m: "m \<le> 4096"
  obtain A H where h: "h = (A, H)" by (cases h)
  have rel: "heap_rel K s A H" and f: "fuel_ok K s" and a': "(a, m) \<in> live H" using inv a h by (simp_all add: heap_inv_def)
  obtain s' A' H' where s': "kmfree K a s = Inr s'" "heap_freed K s A H s' A' H'" "live H' = live H - {(a, m)}"
    by (rule kmfree_spec [OF rel f a' live_aligned [OF rel a' m]])
  have "heap_inv K s' (A', H')"
    using s'(2) f heap_freed_same [OF s'(2)] by (simp add: heap_inv_def heap_freed_def)
  with s' show "\<exists>s' h'. kmfree K a s = Inr s' \<and> heap_inv K s' h' \<and> live (snd h') = live (snd h) - {(a, m)} \<and>
      (\<forall>b k x. (b, k) \<in> live (snd h') \<longrightarrow> in_block k b (unat x) \<longrightarrow> mem s' x = mem s x)"
    unfolding h by (intro exI [of _ s'] exI [of _ "(A', H')"]) (simp add: heap_freed_def)
next
  show "0 < slot_sz (class_of n)" for n by (simp add: slot_sz_def)
qed

section \<open>Properties\<close>

text \<open>
  C4. A request of at most 512 KiB either stops for want of memory, and then fewer than two
  blocks of 512 KiB are left, or returns an object at least as large as the request: above the kernel, zeroed, sharing
  no byte with an object in use.  It is the one object that is added; the objects in use and all
  memory that is neither free nor the heap's keep their contents.
\<close>

theorem kmalloc_grants:
  assumes "heap_rel K s A H" and "fuel_ok K s" and "sz \<le> 524288"
  shows "kmalloc K sz s = Inl (Panic ''pmalloc: out of memory'') \<and> big_left A < 2 \<or>
    (\<exists>a n s' A' H'. kmalloc K sz s = Inr (a, s') \<and> heap_rel K s' A' H' \<and> fuel_ok K s' \<and>
       live H' = insert (a, n) (live H) \<and> unat sz \<le> n \<and> a \<noteq> NULL \<and> kernel_end K \<le> a \<and>
       (\<forall>x. in_block n a (unat x) \<longrightarrow> mem s' x = 0) \<and>
       (\<forall>b m x. (b, m) \<in> live H \<longrightarrow> \<not> (in_block n a x \<and> in_block m b x)) \<and>
       (\<forall>b m x. (b, m) \<in> live H \<longrightarrow> in_block m b (unat x) \<longrightarrow> mem s' x = mem s x) \<and>
       (\<forall>x. cover A (unat x) = 0 \<longrightarrow> unat x \<notin> heap_bytes K H \<longrightarrow> mem s' x = mem s x))"
proof (rule kmalloc_cases [OF assms])
  fix a s' A' H'
  assume r: "kmalloc K sz s = Inr (a, s')" and g: "heap_grant K s A H a (slot_sz (class_of sz)) s' A' H'"
  have "fuel_ok K s'" using g assms(2) heap_step_fuel [of K "live H" s A H s' A' H'] by (simp add: heap_grant_def)
  with r g class_room [OF assms(3)] show ?thesis
    by (intro disjI2 exI [of _ a] exI [of _ "slot_sz (class_of sz)"] exI [of _ s'] exI [of _ A'] exI [of _ H'])
      (simp add: heap_grant_def heap_step_def)
qed simp

lemma demo_heap:
  obtains s A H where "slab_init_loop demo_layout [0..<SLAB_NUM] demo_state = Inr s" and "heap_rel demo_layout s A H"
    and "fuel_ok demo_layout s" and "live H = {}" and "114 \<le> big_left A" and "\<forall>i<14. \<exists>r. H ! i = [r] \<and> sl_bits r = 0"
    and "\<forall>x. unat x < 0x200000 \<longrightarrow> \<not> in_block 336 0x1F0000 (unat x) \<longrightarrow> mem s x = 0" and "memtotal s = 0x20000000"
proof -
  have al: "pm_aligned [[], [], [0x4000000]]" by (auto simp: pm_aligned_def elim!: pm_idx_cases)
  have lay: "heap_layout demo_layout" by (simp add: heap_layout_def demo_layout_def)
  have bl: "big_left [[], [], [0x4000000]] = 128" by (simp add: big_left_def)
  then have left: "14 \<le> big_left [[], [], [0x4000000]]" by simp
  obtain s A H where s: "slab_init_loop demo_layout [0..<SLAB_NUM] demo_state = Inr s" "heap_rel demo_layout s A H"
    "live H = {}" "big_left [[], [], [0x4000000]] \<le> big_left A + 14"
    "s = demo_state\<lparr>mem := mem s, pmmap := pmmap s\<rparr>" "\<forall>i<14. \<exists>r. H ! i = [r] \<and> sl_bits r = 0"
    "\<forall>x. cover [[], [], [0x4000000]] (unat x) = 0 \<longrightarrow> \<not> in_block 336 (slabs_at demo_layout) (unat x) \<longrightarrow> mem s x = mem demo_state x"
    by (rule slab_init_heap [OF demo_pm_rel al lay left])
  have mt: "memtotal s = memtotal demo_state"
    by (rule ssubst [OF s(5), where P = "\<lambda>t. memtotal t = memtotal demo_state"]) simp
  then have f: "fuel_ok demo_layout s" by (simp add: fuel_ok_def demo_state_def demo_layout_def)
  have z: "mem s x = 0" if x: "unat x < 0x200000" "\<not> in_block 336 0x1F0000 (unat x)" for x
  proof -
    have "cover [[], [], [0x4000000]] (unat x) = 0"
      using cover_below_kernel [OF demo_pm_rel, of "unat x"] x(1) by (simp add: demo_layout_def)
    with s(7) x(2) show ?thesis by (simp add: demo_state_def demo_layout_def)
  qed
  show thesis by (rule that [OF s(1,2) f s(3) _ s(6)]) (use s(4) bl z mt in \<open>simp_all add: demo_state_def\<close>)
qed

theorem kmalloc_grants_witness:
  "\<exists>s. (\<exists>A H. heap_rel demo_layout s A H) \<and>
     (kmalloc demo_layout 100 s = Inl (Panic ''pmalloc: out of memory'') \<or>
      (\<exists>a s'. kmalloc demo_layout 100 s = Inr (a, s') \<and> mem s' a = 0))"
proof -
  obtain s A H where s: "heap_rel demo_layout s A H" "fuel_ok demo_layout s" by (rule demo_heap)
  have start: "in_block n a (unat a)" if "unat (100 :: uint64) \<le> n" for a :: uint64 and n
    using that by (simp add: in_block_def)
  have "(100 :: uint64) \<le> 524288" by simp
  from kmalloc_grants [OF s this] start s(1) show ?thesis by blast
qed

text \<open>
  C5. Releasing an object in use that is aligned to its size returns, takes exactly that object
  away, and leaves every other object and all memory outside the heap as it was.  No byte of an
  object in use becomes free memory.  An object that is not aligned to its size, which the larger classes
  can hand out because their pages are only aligned to 4 KiB, cannot be released: the kernel stops.
\<close>

theorem kmfree_releases:
  assumes "heap_rel K s A H" and "fuel_ok K s" and "(a, n) \<in> live H"
  shows "if n dvd unat a then \<exists>s' A' H'. kmfree K a s = Inr s' \<and> heap_rel K s' A' H' \<and> live H' = live H - {(a, n)} \<and>
      (\<forall>b m x. (b, m) \<in> live H' \<longrightarrow> in_block m b (unat x) \<longrightarrow> mem s' x = mem s x) \<and>
      (\<forall>x. unat x \<notin> heap_bytes K H \<longrightarrow> mem s' x = mem s x) \<and>
      (\<forall>x. cover A x \<le> cover A' x) \<and>
      (\<forall>b m x. (b, m) \<in> live H' \<longrightarrow> in_block m b x \<longrightarrow> cover A' x = 0)
    else kmfree K a s = Inl (Panic ''kmfree: invalid addr %x\<newline>'')"
proof (cases "n dvd unat a")
  case True
  obtain s' A' H' where s': "kmfree K a s = Inr s'" "heap_freed K s A H s' A' H'" "live H' = live H - {(a, n)}"
    by (rule kmfree_spec [OF assms True])
  have rel': "heap_rel K s' A' H'" using s'(2) by (simp add: heap_freed_def)
  show ?thesis unfolding if_P [OF True]
    by (intro exI [of _ s'] exI [of _ A'] exI [of _ H'])
      (use s' live_uncovered(1) [OF rel'] in \<open>simp add: heap_freed_def\<close>)
qed (simp add: kmfree_unaligned [OF assms])

text \<open>An object of 128 bytes for the witnesses.\<close>

lemma demo_object:
  obtains s A H a n where "heap_rel demo_layout s A H" and "fuel_ok demo_layout s" and "live H = {(a, n)}" and "n dvd unat a"
proof -
  obtain s A H where s: "heap_rel demo_layout s A H" "fuel_ok demo_layout s" "live H = {}" "114 \<le> big_left A"
    by (rule demo_heap)
  have sz: "(100 :: uint64) \<le> 524288" by simp
  have n: "slot_sz (class_of 100) \<le> 4096" by (simp add: class_of_def size_to_slab_idx_def slot_sz_def)
  show thesis
  proof (rule kmalloc_cases [OF s(1,2) sz])
    fix a s' A' H'
    assume g: "heap_grant demo_layout s A H a (slot_sz (class_of 100)) s' A' H'"
    have rel': "heap_rel demo_layout s' A' H'" and lv: "live H' = {(a, slot_sz (class_of 100))}"
      using g s(3) by (simp_all add: heap_grant_def heap_step_def)
    have f: "fuel_ok demo_layout s'" using g s(2) heap_step_fuel by (auto simp: heap_grant_def)
    show thesis by (rule that [OF rel' f lv live_aligned [OF rel' _ n]]) (simp add: lv)
  next
    assume "big_left A < 2"
    with s(4) show thesis by simp
  qed
qed

theorem kmfree_releases_witness:
  "\<exists>s a s' A' H'. kmfree demo_layout a s = Inr s' \<and> heap_rel demo_layout s' A' H' \<and> live H' = {}"
proof -
  obtain s A H a n where s: "heap_rel demo_layout s A H" "fuel_ok demo_layout s" "live H = {(a, n)}" "n dvd unat a"
    by (rule demo_object)
  have "(a, n) \<in> live H" using s(3) by simp
  from kmfree_releases [OF s(1,2) this, unfolded if_P [OF s(4)]] obtain s' A' H' where
    "kmfree demo_layout a s = Inr s'" "heap_rel demo_layout s' A' H'" "live H' = live H - {(a, n)}" by blast
  with s(3) have "kmfree demo_layout a s = Inr s' \<and> heap_rel demo_layout s' A' H' \<and> live H' = {}" by simp
  then show ?thesis by (intro exI)
qed

lemma kmalloc_n_run: "kmalloc_n K sz n s = Inr (as, s') \<Longrightarrow> alloc_run (kmalloc K) sz s as s' \<and> length as = n"
proof (induction n arbitrary: s as)
  case 0
  then show ?case by (auto intro: alloc_run.intros)
next
  case (Suc n)
  then show ?case by (auto simp: ebind_eq_Inr intro: alloc_run.intros)
qed

text \<open>
  Any number of objects of one size, requested one after the other, have room for the request,
  read as zero at the end, share no byte with each other nor with the objects in use before, and
  the latter keep their contents.
\<close>

theorem kmalloc_n_disjoint:
  assumes "heap_rel K s A H" and "fuel_ok K s" and "kmalloc_n K sz n s = Inr (as, s')"
  shows "length as = n \<and> (n \<noteq> 0 \<longrightarrow> unat sz \<le> slot_sz (class_of sz)) \<and>
    (\<exists>A' H'. heap_rel K s' A' H' \<and> live H' = live H \<union> (\<lambda>a. (a, slot_sz (class_of sz))) ` set as) \<and>
    (\<forall>i j x. i < j \<longrightarrow> j < n \<longrightarrow>
       \<not> (in_block (slot_sz (class_of sz)) (as ! i) x \<and> in_block (slot_sz (class_of sz)) (as ! j) x)) \<and>
    (\<forall>a \<in> set as. \<forall>x. in_block (slot_sz (class_of sz)) a (unat x) \<longrightarrow> mem s' x = 0) \<and>
    (\<forall>a \<in> set as. \<forall>b m x. (b, m) \<in> live H \<longrightarrow> \<not> (in_block (slot_sz (class_of sz)) a x \<and> in_block m b x)) \<and>
    (\<forall>b m x. (b, m) \<in> live H \<longrightarrow> in_block m b (unat x) \<longrightarrow> mem s' x = mem s x)"
proof -
  have run: "alloc_run (kmalloc K) sz s as s'" and len: "length as = n" using kmalloc_n_run [OF assms(3)] by simp_all
  have inv: "heap_inv K s (A, H)" using assms(1,2) by (simp add: heap_inv_def)
  have sz: "unat sz \<le> slot_sz (class_of sz)" if "n \<noteq> 0"
  proof -
    from run len that obtain a s1 where "kmalloc K sz s = Inr (a, s1)" by (cases rule: alloc_run.cases) auto
    then have "sz \<le> 524288" using kmalloc_too_large [of sz K s] by (cases "sz \<le> 524288") auto
    then show ?thesis by (rule class_room)
  qed
  from kheap.run_objects [OF run inv] obtain h' where h': "heap_inv K s' h'"
    "live (snd h') = live H \<union> (\<lambda>a. (a, slot_sz (class_of sz))) ` set as"
    "\<forall>b m x. (b, m) \<in> live H \<longrightarrow> in_block m b (unat x) \<longrightarrow> mem s' x = mem s x"
    "\<forall>a \<in> set as. \<forall>b m x. (b, m) \<in> live H \<longrightarrow> \<not> (in_block (slot_sz (class_of sz)) a x \<and> in_block m b x)"
    "\<forall>a \<in> set as. \<forall>x. in_block (slot_sz (class_of sz)) a (unat x) \<longrightarrow> mem s' x = 0"
    "sorted_wrt (\<lambda>a b. \<forall>x. \<not> (in_block (slot_sz (class_of sz)) a x \<and> in_block (slot_sz (class_of sz)) b x)) as"
    by auto
  have "heap_rel K s' (fst h') (snd h')" using h'(1) by (simp add: heap_inv_def)
  then have ex: "\<exists>A' H'. heap_rel K s' A' H' \<and> live H' = live H \<union> (\<lambda>a. (a, slot_sz (class_of sz))) ` set as"
    using h'(2) by blast
  have dj: "\<not> (in_block (slot_sz (class_of sz)) (as ! i) x \<and> in_block (slot_sz (class_of sz)) (as ! j) x)"
    if "i < j" "j < n" for i j x
    using sorted_wrt_nth_less [OF h'(6) that(1)] that(2) len by simp
  show ?thesis
    by (intro conjI impI allI len ex sz dj h'(3-5))
qed

lemma demo_kmalloc:
  obtains s A H a s' where "heap_rel demo_layout s A H" and "fuel_ok demo_layout s" and "live H = {}"
    and "kmalloc demo_layout 100 s = Inr (a, s')"
proof -
  obtain s A H where s: "heap_rel demo_layout s A H" "fuel_ok demo_layout s" "live H = {}" "114 \<le> big_left A"
    by (rule demo_heap)
  have sz: "(100 :: uint64) \<le> 524288" by simp
  show thesis by (rule kmalloc_cases [OF s(1,2) sz]) (use that s in auto)
qed

theorem kmalloc_n_disjoint_witness:
  "\<exists>s a s' A' H'. kmalloc_n demo_layout 100 1 s = Inr ([a], s') \<and> heap_rel demo_layout s' A' H' \<and> live H' = {(a, 128)}"
proof -
  obtain s A H a s' where s: "heap_rel demo_layout s A H" "fuel_ok demo_layout s" "live H = {}"
    "kmalloc demo_layout 100 s = Inr (a, s')" by (rule demo_kmalloc)
  have n: "kmalloc_n demo_layout 100 1 s = Inr ([a], s')" using s(4) by simp
  have "slot_sz (class_of 100) = 128" by (simp add: class_of_def size_to_slab_idx_def slot_sz_def)
  with kmalloc_n_disjoint [OF s(1,2) n] s(3) obtain A' H' where "heap_rel demo_layout s' A' H'" "live H' = {(a, 128)}"
    by auto
  with n have "kmalloc_n demo_layout 100 1 s = Inr ([a], s') \<and> heap_rel demo_layout s' A' H' \<and> live H' = {(a, 128)}" by simp
  then show ?thesis by (intro exI)
qed

text \<open>
  Requesting an object of at most 4 KiB and releasing it at once never panics and leaves the
  same objects in use, with the same contents.
\<close>

theorem kmalloc_kmfree_roundtrip:
  assumes "heap_rel K s A H" and "fuel_ok K s" and "sz \<le> 4096" and "kmalloc K sz s = Inr (a, s1)"
  shows "\<exists>s2 A2 H2. kmfree K a s1 = Inr s2 \<and> heap_rel K s2 A2 H2 \<and> live H2 = live H \<and>
    (\<forall>b m x. (b, m) \<in> live H \<longrightarrow> in_block m b (unat x) \<longrightarrow> mem s2 x = mem s x)"
proof -
  have inv: "heap_inv K s (A, H)" using assms(1,2) by (simp add: heap_inv_def)
  have "slot_sz (class_of sz) \<le> 4096"
    using assms(3) by (simp add: class_of_def size_to_slab_idx_def KiB_def slot_sz_def)
  from kheap.alloc_release [OF inv assms(4) this] show ?thesis by (auto simp: heap_inv_def)
qed

theorem kmalloc_kmfree_roundtrip_witness:
  "\<exists>s a s1 s2. kmalloc demo_layout 100 s = Inr (a, s1) \<and> kmfree demo_layout a s1 = Inr s2"
proof -
  obtain s A H a s1 where s: "heap_rel demo_layout s A H" "fuel_ok demo_layout s"
    "kmalloc demo_layout 100 s = Inr (a, s1)" by (rule demo_kmalloc)
  have "(100 :: uint64) \<le> 4096" by simp
  from kmalloc_kmfree_roundtrip [OF s(1,2) this s(3)] s(3) show ?thesis by blast
qed

text \<open>
  Start-up.  With fourteen blocks of 512 KiB left and the static array inside the kernel,
  the loop of \<^verbatim>\<open>slab_init\<close> returns with a sound heap that holds no object, and changes no memory
  outside the array and the free blocks.
\<close>

theorem slab_init_empty_heap:
  assumes "pm_rel K s A" and "pm_aligned A" and "heap_layout K" and "14 \<le> big_left A"
  shows "\<exists>s' A' H. slab_init_loop K [0..<SLAB_NUM] s = Inr s' \<and> heap_rel K s' A' H \<and> live H = {} \<and>
    big_left A \<le> big_left A' + 14 \<and>
    (\<forall>x. cover A (unat x) = 0 \<longrightarrow> \<not> in_block 336 (slabs_at K) (unat x) \<longrightarrow> mem s' x = mem s x)"
  by (rule slab_init_heap [OF assms]) blast

theorem slab_init_empty_heap_witness:
  "\<exists>s' A' H. slab_init_loop demo_layout [0..<SLAB_NUM] demo_state = Inr s' \<and> heap_rel demo_layout s' A' H \<and> live H = {}"
proof -
  have al: "pm_aligned [[], [], [0x4000000]]" by (auto simp: pm_aligned_def elim!: pm_idx_cases)
  have lay: "heap_layout demo_layout" by (simp add: heap_layout_def demo_layout_def)
  have "14 \<le> big_left [[], [], [0x4000000]]" by (simp add: big_left_def)
  from slab_init_empty_heap [OF demo_pm_rel al lay this] show ?thesis by blast
qed


lemma demo_full_class:
  obtains s A H where "heap_rel demo_layout s A H" and "fuel_ok demo_layout s" and "114 \<le> big_left A"
    and "find_free_slab demo_layout 6 s = Inr (NULL, s)"
proof -
  obtain s A H where s: "heap_rel demo_layout s A H" "fuel_ok demo_layout s" "114 \<le> big_left A"
    "\<forall>i<14. \<exists>r. H ! i = [r] \<and> sl_bits r = 0" by (rule demo_heap)
  have i6: "(6 :: nat) < 14" by simp
  obtain r where r: "H ! 6 = [] @ r # []" using s(4) [rule_format, OF i6] by auto
  then have r': "slab_in H 6 r" by (simp add: slab_in_def)
  let ?s = "set_slab_bitmap (sl_entry r) 1 s" and ?H = "upd_slab H 6 r (r\<lparr>sl_bits := 1\<rparr>)"
  have rel: "heap_rel demo_layout ?s A ?H"
    by (rule heap_set_bits [OF s(1) r']) (simp_all add: bit_1_iff slots_def page_sz_def slot_sz_def)
  have f: "fuel_ok demo_layout ?s" using s(2) by (simp add: fuel_ok_def set_slab_bitmap_def)
  have "slot_free 6 (r\<lparr>sl_bits := 1\<rparr>) = None"
  proof (rule ccontr)
    assume "slot_free 6 (r\<lparr>sl_bits := 1\<rparr>) \<noteq> None"
    then obtain k where k: "slot_free 6 (r\<lparr>sl_bits := 1\<rparr>) = Some k" by auto
    from slot_free_Some [OF k i6] show False by (simp add: bit_1_iff slots_def page_sz_def slot_sz_def)
  qed
  then have "find_free_slab demo_layout 6 ?s = Inr (NULL, ?s)"
    using find_free_slab_spec [OF rel i6 f] upd_nth [OF s(1) i6 r, of "r\<lparr>sl_bits := 1\<rparr>"] by simp
  with that rel f s(3) show thesis by blast
qed


end
