(* ===== verification/ListOps.thy ===== *)
theory ListOps
  imports HeapUse KList
begin

text \<open>
  The lists of \<^verbatim>\<open>list.c\<close> as a client of the heap.  A list is its head, a static cell without an
  element, and a chain of cells that are objects of the heap; every cell points back to the one
  before it.  Pushing appends an element and removing takes the first occurrence out.
\<close>

section \<open>Back links\<close>

primrec backs :: "(uint64 \<Rightarrow> uint64) \<Rightarrow> uint64 \<Rightarrow> uint64 list \<Rightarrow> bool" where
  "backs pv p [] \<longleftrightarrow> True"
| "backs pv p (c # cs) \<longleftrightarrow> pv c = p \<and> backs pv c cs"

lemma backs_cong: "(\<And>c. c \<in> set cs \<Longrightarrow> pv c = pv' c) \<Longrightarrow> backs pv p cs \<longleftrightarrow> backs pv' p cs"
  by (induction cs arbitrary: p) auto

lemma backs_append: "backs pv p (us @ vs) \<longleftrightarrow> backs pv p us \<and> backs pv (last (p # us)) vs"
  by (induction us arbitrary: p) auto

section \<open>The shape of a list\<close>

definition klist :: "mem_t \<Rightarrow> uint64 \<Rightarrow> uint64 list \<Rightarrow> bool" where
  "klist m l cs \<longleftrightarrow> chain (list_next m) l (l # cs) \<and> backs (list_prev m) l cs \<and>
     list_node m l = NULL \<and> list_prev m l = NULL"

definition list_static :: "klayout \<Rightarrow> uint64 \<Rightarrow> bool" where
  "list_static K l \<longleftrightarrow> l \<noteq> NULL \<and> unat l + 24 \<le> unat (kernel_end K) \<and>
     (\<forall>x. \<not> (in_block 24 l x \<and> in_block 336 (slabs_at K) x))"

definition list_inv :: "klayout \<Rightarrow> kstate \<Rightarrow> pm_abs \<Rightarrow> heap_abs \<Rightarrow> uint64 \<Rightarrow> uint64 list \<Rightarrow> bool" where
  "list_inv K s A H l cs \<longleftrightarrow> heap_rel K s A H \<and> Suc (unat (memtotal s) div 64) < loop_fuel K \<and> list_static K l \<and>
     klist (mem s) l cs \<and> (\<forall>c \<in> set cs. (c, 64) \<in> live H)"

lemma cell_fields: "list_node = slab_address" "list_prev = slab_bitmap" "list_next = slab_next"
  by (simp_all add: fun_eq_iff list_node_def list_prev_def list_next_def slab_address_def slab_bitmap_def slab_next_def)

lemma cells_cong:
  assumes "\<And>x. x \<in> bytes_at e 24 \<Longrightarrow> m' x = m x"
  shows "list_node m' e = list_node m e" "list_prev m' e = list_prev m e" "list_next m' e = list_next m e"
  unfolding cell_fields using fields_cong [OF assms] by simp_all

lemmas cells_set = fields_set [folded cell_fields]

lemma live_apart:
  assumes rel: "heap_rel K s A H" and a: "(a, n) \<in> live H" and b: "(b, m) \<in> live H" and ne: "a \<noteq> b"
  shows "\<not> (in_block n a x \<and> in_block m b x)"
proof -
  obtain i r k where r: "slab_in H i r" "bit (sl_bits r) k" "a = slot i r k" "n = slot_sz i" by (rule liveE [OF a])
  obtain j q l where q: "slab_in H j q" "bit (sl_bits q) l" "b = slot j q l" "m = slot_sz j" by (rule liveE [OF b])
  have "(i, r, k) \<noteq> (j, q, l)" using ne r(3) q(3) by auto
  from slots_of_pages_apart [OF rel r(1) q(1) slab_okD(3) [OF heap_relD(6) [OF rel r(1)] r(2)]
      slab_okD(3) [OF heap_relD(6) [OF rel q(1)] q(2)] this] r q
  show ?thesis by simp
qed

lemma live_no_wrap:
  assumes rel: "heap_rel K s A H" and a: "(a, n) \<in> live H"
  shows "unat a + n \<le> unat (memtotal s)" "unat (kernel_end K) \<le> unat a" "a \<noteq> NULL" "unat a + n < 18446744073709551616"
proof -
  obtain i r k where r: "slab_in H i r" "bit (sl_bits r) k" "a = slot i r k" "n = slot_sz i" by (rule liveE [OF a])
  have i: "i < 14" using r(1) by (simp add: slab_in_def)
  note ok = heap_relD(6) [OF rel r(1)]
  note kb = slab_okD(3) [OF ok r(2)] and bo = slab_okD(4) [OF ok]
  have u: "unat a = unat (sl_page r) + k * slot_sz i" using unat_slot [OF bo i kb] r(3) by simp
  with slot_fits [OF i kb] bo r(4) show "unat a + n \<le> unat (memtotal s)" "unat (kernel_end K) \<le> unat a"
    by (simp_all add: block_ok_def word_le_nat_alt)
  from u bo show "a \<noteq> NULL" by (auto simp: block_ok_def word_unat_eq_iff)
  from \<open>unat a + n \<le> unat (memtotal s)\<close> slot_fits [OF i kb] u r(4) block_ok_no_wrap [OF bo]
  show "unat a + n < 18446744073709551616" by linarith
qed

text \<open>Writes into objects in use, or into memory that is neither free nor the heap's, leave the heap alone.\<close>

lemma heap_object_write:
  assumes rel: "heap_rel K s A H" and same: "pmmap s' = pmmap s" "memtotal s' = memtotal s"
    and w: "\<forall>x. mem s' x = mem s x \<or> (\<exists>a n. (a, n) \<in> live H \<and> in_block n a (unat x)) \<or>
      cover A (unat x) = 0 \<and> unat x \<notin> heap_bytes K H"
  shows "heap_rel K s' A H"
proof (rule heap_frame [OF rel same])
  show "mem s' x = mem s x" if "cover A (unat x) \<noteq> 0" for x
    using w that live_uncovered(1) [OF rel] by metis
  show "mem s' x = mem s x" if "slab_in H i r" "in_block 24 (sl_entry r) (unat x)" for i r x
    using w that live_not_record [OF rel _ that(1)] record_in_heap [OF rel that] by metis
qed

lemma static_outside:
  assumes rel: "heap_rel K s A H" and st: "list_static K l" and x: "in_block 24 l x"
  shows "cover A x = 0" and "x \<notin> heap_bytes K H"
proof -
  have lt: "x < unat (kernel_end K)" using st x by (simp add: list_static_def in_block_def)
  then show "cover A x = 0" using cover_below_kernel [OF heap_relD(1) [OF rel], of x] by simp
  have "\<not> in_block (page_sz i) (sl_page r) x" if "slab_in H i r" for i r
    using page_above_kernel [OF slab_okD(4) [OF heap_relD(6) [OF rel that]], of x] lt by auto
  then show "x \<notin> heap_bytes K H" using st x unfolding heap_bytes_def list_static_def by blast
qed

lemma list_cell_bytes:
  assumes inv: "list_inv K s A H l cs" and c: "c \<in> set (l # cs)"
  shows "x \<in> bytes_at c 24 \<longleftrightarrow> in_block 24 c (unat x)"
proof -
  have "unat c + 24 \<le> 18446744073709551616"
  proof (cases "c = l")
    case True
    then have "unat c + 24 \<le> unat (kernel_end K)" using inv by (simp add: list_inv_def list_static_def)
    then show ?thesis using unat_less_2p64 [of "kernel_end K"] by linarith
  next
    case False
    with c inv have "heap_rel K s A H" "(c, 64) \<in> live H" by (auto simp: list_inv_def)
    from live_no_wrap(4) [OF this] show ?thesis by linarith
  qed
  then show ?thesis using bytes_at_in_block [of c 24 x] by simp
qed

lemma list_cells_apart:
  assumes inv: "list_inv K s A H l cs" and c: "c \<in> set (l # cs)" "d \<in> set (l # cs)" "c \<noteq> d"
  shows "\<not> (in_block 24 c x \<and> in_block 24 d x)"
proof -
  have rel: "heap_rel K s A H" and st: "list_static K l" and lv: "\<And>c. c \<in> set cs \<Longrightarrow> (c, 64) \<in> live H"
    using inv by (auto simp: list_inv_def)
  have up: "in_block 64 e x" if "in_block 24 e x" for e :: uint64 using that by (simp add: in_block_def)
  have sep: "\<not> (in_block 24 l x \<and> in_block 24 e x)" if "e \<in> set cs" for e
    using static_outside(2) [OF rel st, of x] live_uncovered(2) [OF rel lv [OF that], of x] up by blast
  show ?thesis
  proof (cases "c = l \<or> d = l")
    case True
    with c sep show ?thesis by auto
  next
    case False
    with c lv have "(c, 64) \<in> live H" "(d, 64) \<in> live H" by auto
    from live_apart [OF rel this c(3), of x] up show ?thesis by blast
  qed
qed

lemma object_not_cell:
  assumes inv: "list_inv K s A H l cs" and b: "(b, m) \<in> live H" "b \<notin> set cs" "in_block m b x" and c: "c \<in> set (l # cs)"
  shows "\<not> in_block 24 c x"
proof (cases "c = l")
  case True
  have "heap_rel K s A H" "list_static K l" using inv by (auto simp: list_inv_def)
  with True static_outside(2) [of K s A H l x] live_uncovered(2) [of K s A H b m x] b show ?thesis by blast
next
  case False
  then have rel: "heap_rel K s A H" and cl: "(c, 64) \<in> live H" "c \<noteq> b" using c b(2) inv by (auto simp: list_inv_def)
  have "in_block 64 c x" if "in_block 24 c x" using that by (simp add: in_block_def)
  then show ?thesis using live_apart [OF rel cl(1) b(1) cl(2), of x] b(3) by blast
qed

section \<open>Writes into cells\<close>

definition own_cell :: "klayout \<Rightarrow> pm_abs \<Rightarrow> heap_abs \<Rightarrow> uint64 \<Rightarrow> bool" where
  "own_cell K A H c \<longleftrightarrow> unat c + 24 < 18446744073709551616 \<and>
     ((\<exists>n\<ge>24. (c, n) \<in> live H) \<or> (\<forall>x. in_block 24 c x \<longrightarrow> cover A x = 0 \<and> x \<notin> heap_bytes K H))"

lemma own_cell_live: "heap_rel K s A H \<Longrightarrow> (c, n) \<in> live H \<Longrightarrow> 24 \<le> n \<Longrightarrow> own_cell K A H c"
  using live_no_wrap(4) [of K s A H c n] by (auto simp: own_cell_def)

lemma own_cell_static: "heap_rel K s A H \<Longrightarrow> list_static K l \<Longrightarrow> own_cell K A H l"
proof -
  assume rel: "heap_rel K s A H" and st: "list_static K l"
  have "unat l + 24 \<le> unat (kernel_end K)" using st by (simp add: list_static_def)
  then have "unat l + 24 < 18446744073709551616" using unat_less_2p64 [of "kernel_end K"] by linarith
  with static_outside [OF rel st] show ?thesis by (simp add: own_cell_def)
qed

lemma own_store:
  assumes rel: "heap_rel K s A H" and own: "own_cell K A H c" and a: "a = c \<or> a = c + 8 \<or> a = c + 16"
  shows "heap_rel K (s\<lparr>mem := store64 (mem s) a v\<rparr>) A H"
    and "\<not> in_block 24 c (unat x) \<Longrightarrow> store64 (mem s) a v x = mem s x"
proof -
  have b: "y \<in> bytes_at c 24 \<longleftrightarrow> in_block 24 c (unat y)" for y
    using bytes_at_in_block [of c 24] own by (simp add: own_cell_def)
  have out: "store64 (mem s) a v y = mem s y" if "\<not> in_block 24 c (unat y)" for y
    using store_in_record [OF a, of y] b that by simp
  then show "\<not> in_block 24 c (unat x) \<Longrightarrow> store64 (mem s) a v x = mem s x" .
  have up: "in_block n c y" if "in_block 24 c y" "24 \<le> n" for y n using that by (simp add: in_block_def)
  show "heap_rel K (s\<lparr>mem := store64 (mem s) a v\<rparr>) A H"
  proof (rule heap_object_write [OF rel])
    show "\<forall>x. mem (s\<lparr>mem := store64 (mem s) a v\<rparr>) x = mem s x \<or>
        (\<exists>a n. (a, n) \<in> live H \<and> in_block n a (unat x)) \<or> cover A (unat x) = 0 \<and> unat x \<notin> heap_bytes K H"
    proof
      fix x
      show "mem (s\<lparr>mem := store64 (mem s) a v\<rparr>) x = mem s x \<or>
          (\<exists>a n. (a, n) \<in> live H \<and> in_block n a (unat x)) \<or> cover A (unat x) = 0 \<and> unat x \<notin> heap_bytes K H"
      proof (cases "in_block 24 c (unat x)")
        case True
        with own up show ?thesis unfolding own_cell_def by blast
      qed (simp add: out)
    qed
  qed simp_all
qed

lemma list_inv_own:
  assumes inv: "list_inv K s A H l cs" and c: "c \<in> set (l # cs)"
  shows "own_cell K A H c"
proof (cases "c = l")
  case True
  then show ?thesis using inv own_cell_static by (auto simp: list_inv_def)
next
  case False
  with c inv have "heap_rel K s A H" "(c, 64) \<in> live H" by (auto simp: list_inv_def)
  then show ?thesis by (rule own_cell_live) simp
qed

lemma list_inv_fuel: "list_inv K s A H l cs \<Longrightarrow> fuel_ok K s"
  using div_le_mono2 [of 64 4096 "unat (memtotal s)"] by (simp add: list_inv_def fuel_ok_def)

text \<open>A list whose cells keep their bytes keeps its shape.\<close>

lemma klist_cong:
  assumes inv: "list_inv K s A H l cs" and same: "\<forall>c \<in> set (l # cs). \<forall>x. in_block 24 c (unat x) \<longrightarrow> m' x = mem s x"
  shows "klist m' l cs" and "map (list_node m') cs = map (list_node (mem s)) cs"
proof -
  have f: "list_node m' c = list_node (mem s) c" "list_prev m' c = list_prev (mem s) c" "list_next m' c = list_next (mem s) c"
    if "c \<in> set (l # cs)" for c
    using cells_cong [of c m' "mem s"] list_cell_bytes [OF inv that] same that by auto
  have "chain (list_next m') l (l # cs) \<longleftrightarrow> chain (list_next (mem s)) l (l # cs)"
    by (rule chain_cong) (rule f(3))
  moreover have "backs (list_prev m') l cs \<longleftrightarrow> backs (list_prev (mem s)) l cs"
    by (rule backs_cong) (simp add: f(2))
  ultimately show "klist m' l cs" using inv f [of l] by (simp add: list_inv_def klist_def)
  show "map (list_node m') cs = map (list_node (mem s)) cs" using f(1) by simp
qed

lemma list_length:
  assumes inv: "list_inv K s A H l cs"
  shows "Suc (length cs) < loop_fuel K"
proof -
  have rel: "heap_rel K s A H" and lv: "\<And>c. c \<in> set cs \<Longrightarrow> (c, 64) \<in> live H"
    and d: "distinct cs" and f: "Suc (unat (memtotal s) div 64) < loop_fuel K"
    using inv chain_distinct [of "list_next (mem s)" l "l # cs"] by (auto simp: list_inv_def klist_def)
  let ?r = "\<lambda>c. \<lparr>sl_entry = c, sl_page = c, sl_bits = 0\<rparr>"
  have "length (map ?r cs) * 64 \<le> unat (memtotal s)"
  proof (rule disjoint_pages_bound)
    show "unat (sl_page r) + 64 \<le> unat (memtotal s)" if "r \<in> set (map ?r cs)" for r
      using that lv live_no_wrap(1) [OF rel] by fastforce
    show "distinct (map ?r cs)" using d by (simp add: distinct_map inj_on_def)
    show "\<not> (in_block 64 (sl_page r) x \<and> in_block 64 (sl_page r') x)"
      if "r \<in> set (map ?r cs)" "r' \<in> set (map ?r cs)" "r \<noteq> r'" for r r' x
    proof -
      note rs = that
      obtain c where c: "r = ?r c" "c \<in> set cs" using rs(1) by auto
      obtain c' where c': "r' = ?r c'" "c' \<in> set cs" using rs(2) by auto
      have "c \<noteq> c'" using rs(3) c(1) c'(1) by auto
      from live_apart [OF rel lv [OF c(2)] lv [OF c'(2)] this] c(1) c'(1) show ?thesis by simp
    qed
  qed simp
  then have "length cs \<le> unat (memtotal s) div 64" by (simp add: less_eq_div_iff_mult_less_eq)
  with f show ?thesis by simp
qed

section \<open>Pushing\<close>

lemma list_last_spec:
  assumes "chain (list_next m) e (cs @ [c])" and "length cs < fuel"
  shows "list_last fuel m e = Inr c"
  using assms
proof (induction cs arbitrary: e fuel)
  case Nil
  then obtain f where "fuel = Suc f" by (cases fuel) auto
  with Nil show ?case by auto
next
  case (Cons q cs)
  then obtain f where f: "fuel = Suc f" "length cs < f" by (cases fuel) auto
  from Cons.prems have e: "chain (list_next m) (list_next m e) (cs @ [c])" by auto
  have "list_next m e \<noteq> NULL" using e by (cases cs) auto
  with Cons.IH [OF e f(2)] f(1) show ?case by simp
qed

lemma list_inv_grant:
  assumes inv: "list_inv K s A H l cs" and g: "heap_grant K s A H a n s' A' H'"
  shows "list_inv K s' A' H' l cs" and "map (list_node (mem s')) cs = map (list_node (mem s)) cs"
proof -
  have rel: "heap_rel K s A H" and st: "list_static K l" and lv: "\<And>c. c \<in> set cs \<Longrightarrow> (c, 64) \<in> live H"
    and f: "Suc (unat (memtotal s) div 64) < loop_fuel K" using inv by (auto simp: list_inv_def)
  have step: "heap_step K (live H) s A H s' A' H'" and live': "live H' = insert (a, n) (live H)"
    using g by (simp_all add: heap_grant_def)
  have same: "s' = s\<lparr>mem := mem s', pmmap := pmmap s'\<rparr>" using step by (simp add: heap_step_def)
  have mt: "memtotal s' = memtotal s" by (rule ssubst [OF same, where P = "\<lambda>t. memtotal t = memtotal s"]) simp
  have up: "in_block 64 c x" if "in_block 24 c x" for c :: uint64 and x using that by (simp add: in_block_def)
  have keep: "\<forall>c \<in> set (l # cs). \<forall>x. in_block 24 c (unat x) \<longrightarrow> mem s' x = mem s x"
  proof (intro ballI allI impI)
    fix c and x :: uint64 assume c: "c \<in> set (l # cs)" and x: "in_block 24 c (unat x)"
    show "mem s' x = mem s x"
    proof (cases "c = l")
      case True
      with static_outside [OF rel st, of "unat x"] x step show ?thesis unfolding heap_step_def by blast
    next
      case False
      then have "(c, 64) \<in> live H" using c lv by simp
      with up [OF x] step show ?thesis unfolding heap_step_def by blast
    qed
  qed
  note kc = klist_cong [OF inv keep]
  show "map (list_node (mem s')) cs = map (list_node (mem s)) cs" by (rule kc(2))
  show "list_inv K s' A' H' l cs"
    using kc(1) st lv live' step f mt by (simp add: list_inv_def heap_step_def)
qed

lemma set_list_fields:
  "set_list_node e v s = s\<lparr>mem := store64 (mem s) e v\<rparr>" "set_list_prev e v s = s\<lparr>mem := store64 (mem s) (e + 8) v\<rparr>"
  "set_list_next e v s = s\<lparr>mem := store64 (mem s) (e + 16) v\<rparr>"
  by (simp_all add: set_list_node_def set_list_prev_def set_list_next_def)

text \<open>An object that is not a cell of the list can be written without touching the list.\<close>

lemma new_cell_apart:
  assumes "list_inv K s A H l cs" and "(n, 64) \<in> live H" "n \<notin> set cs" and "c \<in> set (l # cs)"
  shows "\<not> (in_block 24 n x \<and> in_block 24 c x)"
  using object_not_cell [OF assms(1-3) _ assms(4), of x] by (auto simp: in_block_def)

lemma list_object_write:
  assumes inv: "list_inv K s A H l cs" and n: "(n, m) \<in> live H" "n \<notin> set cs"
    and same: "pmmap s' = pmmap s" "memtotal s' = memtotal s"
    and out: "\<forall>x. \<not> in_block m n (unat x) \<longrightarrow> mem s' x = mem s x"
  shows "list_inv K s' A H l cs" and "map (list_node (mem s')) cs = map (list_node (mem s)) cs"
proof -
  have rel: "heap_rel K s A H" using inv by (simp add: list_inv_def)
  have keep: "\<forall>c \<in> set (l # cs). \<forall>x. in_block 24 c (unat x) \<longrightarrow> mem s' x = mem s x"
    using out object_not_cell [OF inv n] by blast
  note kc = klist_cong [OF inv keep]
  show "map (list_node (mem s')) cs = map (list_node (mem s)) cs" by (rule kc(2))
  have "heap_rel K s' A H" by (rule heap_object_write [OF rel same]) (use out n(1) in blast)
  with kc(1) inv same show "list_inv K s' A H l cs" by (simp add: list_inv_def)
qed

lemma new_cell_write:
  fixes v :: uint64
  assumes inv: "list_inv K s A H l cs" and n: "(n, 64) \<in> live H" "n \<notin> set cs" and a: "a = n \<or> a = n + 8 \<or> a = n + 16"
  defines "s' \<equiv> s\<lparr>mem := store64 (mem s) a v\<rparr>"
  shows "list_inv K s' A H l cs" and "map (list_node (mem s')) cs = map (list_node (mem s)) cs"
    and "\<forall>x. \<not> in_block 24 n (unat x) \<longrightarrow> mem s' x = mem s x"
proof -
  have rel: "heap_rel K s A H" using inv by (simp add: list_inv_def)
  have on: "own_cell K A H n" by (rule own_cell_live [OF rel n(1)]) simp
  show out: "\<forall>x. \<not> in_block 24 n (unat x) \<longrightarrow> mem s' x = mem s x"
    unfolding s'_def using own_store(2) [OF rel on a] by simp
  have out64: "\<forall>x. \<not> in_block 64 n (unat x) \<longrightarrow> mem s' x = mem s x"
    using out in_block_sub [of 24 n _ 64] by auto
  have same: "pmmap s' = pmmap s" "memtotal s' = memtotal s" by (simp_all add: s'_def)
  show "list_inv K s' A H l cs" "map (list_node (mem s')) cs = map (list_node (mem s)) cs"
    by (rule list_object_write [OF inv n same out64])+
qed

text \<open>Linking a filled cell behind the last one.\<close>

lemma list_link:
  assumes inv: "list_inv K s A H l cs" and n: "(n, 64) \<in> live H" "n \<notin> set cs"
    and nf: "list_prev (mem s) n = last (l # cs)" "list_next (mem s) n = NULL"
  defines "s' \<equiv> s\<lparr>mem := store64 (mem s) (last (l # cs) + 16) n\<rparr>"
  shows "list_inv K s' A H l (cs @ [n])"
    and "map (list_node (mem s')) (cs @ [n]) = map (list_node (mem s)) (cs @ [n])"
    and "\<forall>x. \<not> in_block 24 (last (l # cs)) (unat x) \<longrightarrow> mem s' x = mem s x"
proof -
  have rel: "heap_rel K s A H" and st: "list_static K l" and k: "klist (mem s) l cs" using inv by (auto simp: list_inv_def)
  define p where "p = last (l # cs)"
  have p: "p \<in> set (l # cs)" unfolding p_def by (rule last_in_set) simp
  have op: "own_cell K A H p" by (rule list_inv_own [OF inv p])
  have st': "mem s' = store64 (mem s) (p + 16) n" by (simp add: s'_def p_def)
  have out: "mem s' x = mem s x" if "\<not> in_block 24 p (unat x)" for x
    unfolding st' using own_store(2) [OF rel op _ that, of "p + 16" n] by simp
  then show "\<forall>x. \<not> in_block 24 (last (l # cs)) (unat x) \<longrightarrow> mem s' x = mem s x" unfolding p_def by blast
  have rel': "heap_rel K s' A H" unfolding s'_def p_def [symmetric] by (rule own_store(1) [OF rel op]) simp
  have nb: "x \<in> bytes_at n 24 \<longleftrightarrow> in_block 24 n (unat x)" for x
    using bytes_at_in_block [of n 24] live_no_wrap(4) [OF rel n(1)] by simp
  have nf': "list_node (mem s') n = list_node (mem s) n" "list_prev (mem s') n = p" "list_next (mem s') n = NULL"
    using cells_cong [of n "mem s'" "mem s"] nf out new_cell_apart [OF inv n p] nb p_def by auto
  have pf: "list_node (mem s') p = list_node (mem s) p" "list_prev (mem s') p = list_prev (mem s) p"
    "list_next (mem s') p = n" unfolding st' by (simp_all add: cells_set)
  have cf: "list_node (mem s') c = list_node (mem s) c" "list_prev (mem s') c = list_prev (mem s) c"
    "c \<noteq> p \<Longrightarrow> list_next (mem s') c = list_next (mem s) c" if "c \<in> set (l # cs)" for c
  proof -
    have "c \<noteq> p \<Longrightarrow> list_node (mem s') c = list_node (mem s) c \<and> list_prev (mem s') c = list_prev (mem s) c \<and>
        list_next (mem s') c = list_next (mem s) c"
      using cells_cong [of c "mem s'" "mem s"] out list_cells_apart [OF inv that p] list_cell_bytes [OF inv that] by auto
    then show "list_node (mem s') c = list_node (mem s) c" "list_prev (mem s') c = list_prev (mem s) c"
      "c \<noteq> p \<Longrightarrow> list_next (mem s') c = list_next (mem s) c" using pf by (cases "c = p"; simp)+
  qed
  obtain us where us: "l # cs = us @ [p]" unfolding p_def by (metis append_butlast_last_id list.distinct(1))
  have nl: "n \<noteq> l" using live_no_wrap(2) [OF rel n(1)] st by (auto simp: list_static_def)
  have nus: "n \<notin> set (us @ [p])" using nl n(2) us by (metis set_ConsD)
  have "chain ((list_next (mem s))(p := n, n := NULL)) l (us @ [p, n])"
    by (rule chain_snoc [OF _ live_no_wrap(3) [OF rel n(1)] nus]) (use k us in \<open>simp add: klist_def\<close>)
  moreover have "chain ((list_next (mem s))(p := n, n := NULL)) l (us @ [p, n]) \<longleftrightarrow> chain (list_next (mem s')) l (us @ [p, n])"
  proof (rule chain_cong)
    fix c assume c: "c \<in> set (us @ [p, n])"
    have "c \<in> set (l # cs)" if "c \<noteq> n" unfolding us using c that by auto
    then show "((list_next (mem s))(p := n, n := NULL)) c = list_next (mem s') c"
      using pf(3) nf'(3) cf(3) [of c] nus by (cases "c = n"; cases "c = p") auto
  qed
  ultimately have "chain (list_next (mem s')) l ((us @ [p]) @ [n])" by simp
  then have ch: "chain (list_next (mem s')) l ((l # cs) @ [n])" unfolding us .
  have "backs (list_prev (mem s')) l cs \<longleftrightarrow> backs (list_prev (mem s)) l cs" by (intro backs_cong) (simp add: cf(2))
  then have bk: "backs (list_prev (mem s')) l (cs @ [n])" using k nf'(2) by (simp add: backs_append p_def klist_def)
  have "klist (mem s') l (cs @ [n])" using ch bk cf(1,2) [of l] k by (simp add: klist_def)
  then show "list_inv K s' A H l (cs @ [n])" using rel' inv n(1) by (auto simp: list_inv_def s'_def)
  show "map (list_node (mem s')) (cs @ [n]) = map (list_node (mem s)) (cs @ [n])" using cf(1) nf'(1) by simp
qed

lemma list_append:
  fixes v :: uint64
  assumes inv: "list_inv K s A H l cs" and n: "(n, 64) \<in> live H" "n \<notin> set cs"
  defines "p \<equiv> last (l # cs)"
  defines "s' \<equiv> set_list_next p n (set_list_next n NULL (set_list_prev n p (set_list_node n v s)))"
  shows "list_inv K s' A H l (cs @ [n])"
    and "map (list_node (mem s')) (cs @ [n]) = map (list_node (mem s)) cs @ [v]"
    and "\<forall>x. \<not> in_block 24 n (unat x) \<longrightarrow> \<not> in_block 24 p (unat x) \<longrightarrow> mem s' x = mem s x"
proof -
  let ?s1 = "s\<lparr>mem := store64 (mem s) n v\<rparr>"
  let ?s2 = "?s1\<lparr>mem := store64 (mem ?s1) (n + 8) p\<rparr>"
  let ?s3 = "?s2\<lparr>mem := store64 (mem ?s2) (n + 16) NULL\<rparr>"
  have s': "s' = ?s3\<lparr>mem := store64 (mem ?s3) (p + 16) n\<rparr>" by (simp add: s'_def set_list_fields)
  have a: "n = n \<or> n = n + 8 \<or> n = n + 16" "n + 8 = n \<or> n + 8 = n + 8 \<or> n + 8 = n + 16"
    "n + 16 = n \<or> n + 16 = n + 8 \<or> n + 16 = n + 16" by simp_all
  note w1 = new_cell_write [OF inv n a(1), where v = v]
  note w2 = new_cell_write [OF w1(1) n a(2), where v = p]
  note w3 = new_cell_write [OF w2(1) n a(3), where v = NULL]
  have f: "list_node (mem ?s3) n = v" "list_prev (mem ?s3) n = last (l # cs)" "list_next (mem ?s3) n = NULL"
    by (simp_all add: cells_set p_def)
  note ln = list_link [OF w3(1) n f(2,3), folded p_def, folded s']
  show "list_inv K s' A H l (cs @ [n])" by (rule ln(1))
  have "map (list_node (mem ?s3)) cs = map (list_node (mem s)) cs" using w1(2) w2(2) w3(2) by simp
  with ln(2) f(1) show "map (list_node (mem s')) (cs @ [n]) = map (list_node (mem s)) cs @ [v]" by simp
  show "\<forall>x. \<not> in_block 24 n (unat x) \<longrightarrow> \<not> in_block 24 p (unat x) \<longrightarrow> mem s' x = mem s x"
    using ln(3) w1(3) w2(3) w3(3) by simp
qed

section \<open>Memory that the kernel's data owns\<close>

text \<open>The kernel's image without the heap's static records, and the objects in use.\<close>

definition kernel_data :: "klayout \<Rightarrow> heap_abs \<Rightarrow> nat \<Rightarrow> bool" where
  "kernel_data K H x \<longleftrightarrow> x < unat (kernel_end K) \<and> \<not> in_block 336 (slabs_at K) x \<or> (\<exists>b k. (b, k) \<in> live H \<and> in_block k b x)"

lemma kernel_data_live: "live H' = live H \<Longrightarrow> kernel_data K H' x = kernel_data K H x"
  by (simp add: kernel_data_def)

lemma kernel_data_insert: "live H' = insert (a, n) (live H) \<Longrightarrow> kernel_data K H' x \<longleftrightarrow> kernel_data K H x \<or> in_block n a x"
  by (auto simp: kernel_data_def)

text \<open>Operations that are made of grants of the heap and of writes to such memory.\<close>

inductive data_run :: "klayout \<Rightarrow> kstate \<Rightarrow> pm_abs \<Rightarrow> heap_abs \<Rightarrow> kstate \<Rightarrow> pm_abs \<Rightarrow> heap_abs \<Rightarrow> bool" for K s A H where
  run_start: "data_run K s A H s A H"
| run_grant: "data_run K s A H s1 A1 H1 \<Longrightarrow> heap_grant K s1 A1 H1 a n s2 A2 H2 \<Longrightarrow> data_run K s A H s2 A2 H2"
| run_write: "data_run K s A H s1 A1 H1 \<Longrightarrow> s2 = s1\<lparr>mem := mem s2\<rparr> \<Longrightarrow>
    \<forall>x. \<not> kernel_data K H1 (unat x) \<longrightarrow> mem s2 x = mem s1 x \<Longrightarrow> data_run K s A H s2 A1 H1"

lemma data_run_trans: "data_run K s1 A1 H1 s2 A2 H2 \<Longrightarrow> data_run K s A H s1 A1 H1 \<Longrightarrow> data_run K s A H s2 A2 H2"
  by (induction rule: data_run.induct) (auto intro: run_grant run_write)

lemma cell_kernel_data:
  assumes "list_inv K s A H l cs" and "c \<in> set (l # cs)" and "in_block 24 c x"
  shows "kernel_data K H x"
proof (cases "c = l")
  case True
  have "list_static K l" using assms(1) by (simp add: list_inv_def)
  then show ?thesis using True assms(3) by (auto simp: kernel_data_def list_static_def in_block_def)
next
  case False
  then have "(c, 64) \<in> live H" "in_block 64 c x" using assms by (auto simp: list_inv_def in_block_def)
  then show ?thesis by (auto simp: kernel_data_def)
qed

lemma list_kept:
  assumes inv: "list_inv K s A H l cs" and rel: "heap_rel K s' A' H'" and lv: "\<forall>c \<in> set cs. (c, 64) \<in> live H'"
    and mt: "memtotal s' = memtotal s" and keep: "\<forall>c \<in> set (l # cs). \<forall>x. in_block 24 c (unat x) \<longrightarrow> mem s' x = mem s x"
  shows "list_inv K s' A' H' l cs" and "map (list_node (mem s')) cs = map (list_node (mem s)) cs"
  using klist_cong [OF inv keep] inv rel mt lv by (auto simp: list_inv_def)

lemma list_push_spec:
  assumes inv: "list_inv K s A H l cs"
  obtains "list_push K l node s = Inl (Panic ''pmalloc: out of memory'')" "big_left A < 2"
  | c s' A' H' where "list_push K l node s = Inr s'" "list_inv K s' A' H' l (cs @ [c])"
      "map (list_node (mem s')) (cs @ [c]) = map (list_node (mem s)) cs @ [node]"
      "live H' = insert (c, 64) (live H)" "\<forall>n. (c, n) \<notin> live H"
      "\<forall>b m x. (b, m) \<in> live H \<longrightarrow> b \<notin> set cs \<longrightarrow> in_block m b (unat x) \<longrightarrow> mem s' x = mem s x"
      "big_left A \<le> big_left A' + 2"
      "\<exists>s1. heap_grant K s A H c 64 s1 A' H' \<and> s' = s1\<lparr>mem := mem s'\<rparr> \<and>
        (\<forall>x. \<not> in_block 24 c (unat x) \<longrightarrow> \<not> in_block 24 (last (l # cs)) (unat x) \<longrightarrow> mem s' x = mem s1 x)"
proof -
  have rel: "heap_rel K s A H" and st: "list_static K l" and k: "klist (mem s) l cs" using inv by (auto simp: list_inv_def)
  define p where "p = last (l # cs)"
  obtain us where us: "l # cs = us @ [p]" unfolding p_def by (metis append_butlast_last_id list.distinct(1))
  have "length us = length cs" using arg_cong [OF us, of length] by simp
  then have last: "list_last (loop_fuel K) (mem s) l = Inr p"
    using list_last_spec [of "mem s" l us p "loop_fuel K"] k us list_length [OF inv] by (simp add: klist_def)
  have sz: "sizeof_list_t \<le> 524288" "slot_sz (class_of sizeof_list_t) = 64"
    by (simp_all add: sizeof_list_t_def class_of_def size_to_slab_idx_def slot_sz_def)
  show thesis
  proof (rule kmalloc_cases [OF rel list_inv_fuel [OF inv] sz(1)])
    assume "kmalloc K sizeof_list_t s = Inl (Panic ''pmalloc: out of memory'')" "big_left A < 2"
    with that(1) last show thesis by (simp add: list_push_def)
  next
    fix c s1 A' H'
    assume r: "kmalloc K sizeof_list_t s = Inr (c, s1)" and "heap_grant K s A H c (slot_sz (class_of sizeof_list_t)) s1 A' H'"
      and bl: "big_left A \<le> big_left A' + 2"
    then have g: "heap_grant K s A H c 64 s1 A' H'" by (simp add: sz)
    have lv: "live H' = insert (c, 64) (live H)" and fresh: "\<forall>b m x. (b, m) \<in> live H \<longrightarrow> \<not> (in_block 64 c x \<and> in_block m b x)"
      and keep: "\<forall>b m x. (b, m) \<in> live H \<longrightarrow> in_block m b (unat x) \<longrightarrow> mem s1 x = mem s x"
      using g unfolding heap_grant_def heap_step_def by blast+
    note i1 = list_inv_grant [OF inv g]
    have cn: "\<forall>n. (c, n) \<notin> live H"
    proof (intro allI notI)
      fix n assume c: "(c, n) \<in> live H"
      then obtain i where "n = slot_sz i" by (rule liveE)
      then have "in_block n c (unat c)" "in_block 64 c (unat c)" by (simp_all add: in_block_def slot_sz_def)
      with fresh c show False by blast
    qed
    have new: "(c, 64) \<in> live H'" "c \<notin> set cs" using lv cn inv by (auto simp: list_inv_def)
    note ap = list_append [OF i1(1) new, where v = node, folded p_def]
    let ?s = "set_list_next p c (set_list_next c NULL (set_list_prev c p (set_list_node c node s1)))"
    have run: "list_push K l node s = Inr ?s" using last r by (simp add: list_push_def Let_def)
    have p: "p \<in> set (l # cs)" unfolding us by simp
    have rest: "mem ?s x = mem s x" if b: "(b, m) \<in> live H" "b \<notin> set cs" "in_block m b (unat x)" for b m x
    proof -
      have "\<not> in_block 24 c (unat x)" using fresh b(1,3) by (auto simp: in_block_def)
      moreover have "\<not> in_block 24 p (unat x)" by (rule object_not_cell [OF inv b p])
      ultimately have "mem ?s x = mem s1 x" using ap(3) by blast
      with keep b show ?thesis by metis
    qed
    have steps: "heap_grant K s A H c 64 s1 A' H' \<and> ?s = s1\<lparr>mem := mem ?s\<rparr> \<and>
        (\<forall>x. \<not> in_block 24 c (unat x) \<longrightarrow> \<not> in_block 24 (last (l # cs)) (unat x) \<longrightarrow> mem ?s x = mem s1 x)"
      using g ap(3) unfolding p_def [symmetric] by (simp add: set_list_fields)
    have names: "map (list_node (mem ?s)) (cs @ [c]) = map (list_node (mem s)) cs @ [node]" using ap(2) i1(2) by simp
    have others: "\<forall>b m x. (b, m) \<in> live H \<longrightarrow> b \<notin> set cs \<longrightarrow> in_block m b (unat x) \<longrightarrow> mem ?s x = mem s x"
      using rest by blast
    show thesis by (rule that(2) [OF run ap(1) names lv cn others bl], rule exI [of _ s1], rule steps)
  qed
qed

lemma push_data_run:
  assumes inv: "list_inv K s' A' H' l (cs @ [c])" and "\<exists>s1. heap_grant K s A H c 64 s1 A' H' \<and> s' = s1\<lparr>mem := mem s'\<rparr> \<and>
    (\<forall>x. \<not> in_block 24 c (unat x) \<longrightarrow> \<not> in_block 24 (last (l # cs)) (unat x) \<longrightarrow> mem s' x = mem s1 x)"
  shows "data_run K s A H s' A' H'"
proof -
  obtain s1 where g: "heap_grant K s A H c 64 s1 A' H'" and s1: "s' = s1\<lparr>mem := mem s'\<rparr>"
    and out: "\<And>x. \<not> in_block 24 c (unat x) \<Longrightarrow> \<not> in_block 24 (last (l # cs)) (unat x) \<Longrightarrow> mem s' x = mem s1 x"
    using assms(2) by blast
  have "last (l # cs) \<in> set (l # cs @ [c])" "c \<in> set (l # cs @ [c])" by auto
  then have "\<forall>x. \<not> kernel_data K H' (unat x) \<longrightarrow> mem s' x = mem s1 x"
    using out cell_kernel_data [OF inv] by metis
  then show ?thesis by (rule run_write [OF run_grant [OF run_start g] s1])
qed

section \<open>Removing\<close>

lemma cell_store:
  assumes inv: "list_inv K s A H l cs" and d: "d \<in> set (l # cs)" and e: "e \<in> set (l # cs)"
  shows "list_node (store64 m (e + 8) v) d = list_node m d" "list_node (store64 m (e + 16) v) d = list_node m d"
    "list_prev (store64 m (e + 8) v) d = (if d = e then v else list_prev m d)"
    "list_prev (store64 m (e + 16) v) d = list_prev m d"
    "list_next (store64 m (e + 8) v) d = list_next m d"
    "list_next (store64 m (e + 16) v) d = (if d = e then v else list_next m d)"
proof -
  have other: "store64 m a v x = m x" if "d \<noteq> e" "a = e \<or> a = e + 8 \<or> a = e + 16" "x \<in> bytes_at d 24" for a x
    by (rule store_in_record [OF that(2)])
      (use list_cells_apart [OF inv d e that(1)] list_cell_bytes [OF inv d] list_cell_bytes [OF inv e] that(3) in blast)
  note c8 = cells_cong [of d "store64 m (e + 8) v" m] and c16 = cells_cong [of d "store64 m (e + 16) v" m]
  show "list_node (store64 m (e + 8) v) d = list_node m d" "list_node (store64 m (e + 16) v) d = list_node m d"
    "list_prev (store64 m (e + 8) v) d = (if d = e then v else list_prev m d)"
    "list_prev (store64 m (e + 16) v) d = list_prev m d"
    "list_next (store64 m (e + 8) v) d = list_next m d"
    "list_next (store64 m (e + 16) v) d = (if d = e then v else list_next m d)"
    by (cases "d = e"; use c8 c16 other in \<open>simp add: cells_set\<close>)+
qed

lemma list_drop_cell:
  assumes inv: "list_inv K s A H l cs" and cs: "cs = us @ c # vs"
  defines "p \<equiv> last (l # us)"
  shows "list_inv K (list_unlink c s) A H l (us @ vs)"
    and "map (list_node (mem (list_unlink c s))) (us @ vs) = map (list_node (mem s)) (us @ vs)"
    and "\<forall>x. (\<forall>d \<in> set (l # cs). \<not> in_block 24 d (unat x)) \<longrightarrow> mem (list_unlink c s) x = mem s x"
proof -
  have rel: "heap_rel K s A H" and k: "klist (mem s) l cs" using inv by (auto simp: list_inv_def)
  have p: "p \<in> set (l # cs)" "p \<in> set (l # us)" unfolding p_def cs using last_in_set [of "l # us"] by auto
  have d: "distinct (l # cs)" using k chain_distinct unfolding klist_def by blast
  have ch: "chain (list_next (mem s)) l (l # us @ c # vs)" and bk: "backs (list_prev (mem s)) l (us @ c # vs)"
    using k cs by (auto simp: klist_def)
  have pc: "list_prev (mem s) c = p" using bk by (simp add: backs_append p_def)
  have p0: "p \<noteq> NULL" using ch p(2) cs inv
    by (cases "p = l") (auto simp: list_inv_def list_static_def dest: live_no_wrap(3))
  let ?nx = "list_next (mem s) c"
  let ?s1 = "s\<lparr>mem := store64 (mem s) (p + 16) ?nx\<rparr>"
  have c: "c \<in> set (l # cs)" using cs by simp
  have cp: "c \<noteq> p" using d p(2) cs by auto
  have n1: "list_next (mem ?s1) c = ?nx" "list_prev (mem ?s1) c = p"
    using cell_store [OF inv c p(1)] cp pc by simp_all
  have nv: "?nx = (case vs of [] \<Rightarrow> NULL | v # _ \<Rightarrow> v)"
    using chain_suffix [of "list_next (mem s)" l "l # us" c vs] ch by (cases vs) auto
  have v0: "v \<noteq> NULL" if "vs = v # ws" for v ws
    using that cs inv live_no_wrap(3) [OF rel, of v 64] by (simp add: list_inv_def)
  have un: "list_unlink c s = (case vs of [] \<Rightarrow> ?s1 | v # _ \<Rightarrow> ?s1\<lparr>mem := store64 (mem ?s1) (v + 8) p\<rparr>)"
    using p0 pc n1 nv v0 by (cases vs) (simp_all add: list_unlink_def set_list_fields Let_def)
  let ?m = "mem (list_unlink c s)"
  have vin: "v \<in> set (l # cs)" if "vs = v # ws" for v ws using that cs by simp
  have fields: "list_node ?m e = list_node (mem s) e"
    "list_next ?m e = (if e = p then ?nx else list_next (mem s) e)"
    "list_prev ?m e = (if vs \<noteq> [] \<and> e = hd vs then p else list_prev (mem s) e)" if "e \<in> set (l # cs)" for e
    using cell_store [OF inv that p(1)] cell_store [OF inv that vin] by (cases vs; simp add: un)+
  have os: "own_cell K A H e" if "e \<in> set (l # cs)" for e by (rule list_inv_own [OF inv that])
  have rel1: "heap_rel K ?s1 A H" by (rule own_store(1) [OF rel os [OF p(1)]]) simp
  have same: "heap_rel K (list_unlink c s) A H \<and> memtotal (list_unlink c s) = memtotal s"
  proof (cases vs)
    case Nil
    then show ?thesis using rel1 by (simp add: un)
  next
    case (Cons v ws)
    have "heap_rel K (?s1\<lparr>mem := store64 (mem ?s1) (v + 8) p\<rparr>) A H"
      by (rule own_store(1) [OF rel1 os [OF vin [OF Cons]]]) simp
    then show ?thesis using Cons by (simp add: un)
  qed
  obtain as where as: "l # us = as @ [p]" unfolding p_def by (metis append_butlast_last_id list.distinct(1))
  have split: "l # us @ zs = as @ p # zs" for zs using as by (metis append_Cons append_assoc append_Nil)
  have "chain ((list_next (mem s))(p := ?nx)) l (as @ p # vs)"
    by (rule chain_delete) (use ch split [of "c # vs"] in simp)
  moreover have "chain ((list_next (mem s))(p := ?nx)) l (as @ p # vs) \<longleftrightarrow> chain (list_next ?m) l (as @ p # vs)"
  proof (rule chain_cong)
    fix e assume "e \<in> set (as @ p # vs)"
    then have "e \<in> set (l # cs)" using split [of vs, symmetric] cs by auto
    then show "((list_next (mem s))(p := ?nx)) e = list_next ?m e" using fields(2) by simp
  qed
  ultimately have ch': "chain (list_next ?m) l (l # us @ vs)" by (simp only: split)
  have hv: "vs \<noteq> [] \<Longrightarrow> hd vs \<notin> set (l # us)" using d cs by (cases vs) auto
  have "backs (list_prev ?m) l us \<longleftrightarrow> backs (list_prev (mem s)) l us"
    by (rule backs_cong) (use fields(3) hv cs in auto)
  moreover have "backs (list_prev ?m) p vs"
  proof (cases vs)
    case (Cons v ws)
    have "backs (list_prev ?m) v ws \<longleftrightarrow> backs (list_prev (mem s)) v ws"
      by (rule backs_cong) (use fields(3) Cons d cs in auto)
    then show ?thesis using Cons fields(3) [of v] cs bk by (simp add: backs_append)
  qed simp
  ultimately have bk': "backs (list_prev ?m) l (us @ vs)" using bk by (simp add: backs_append p_def)
  have "list_prev ?m l = NULL" using fields(3) [of l] hv k by (auto simp: klist_def)
  with ch' bk' fields(1) [of l] k have "klist ?m l (us @ vs)" by (simp add: klist_def)
  with same inv cs show "list_inv K (list_unlink c s) A H l (us @ vs)" by (simp add: list_inv_def)
  show "map (list_node ?m) (us @ vs) = map (list_node (mem s)) (us @ vs)" using fields(1) cs by simp
  show "\<forall>x. (\<forall>d \<in> set (l # cs). \<not> in_block 24 d (unat x)) \<longrightarrow> ?m x = mem s x"
  proof (intro allI impI)
    fix x :: uint64 assume x: "\<forall>d \<in> set (l # cs). \<not> in_block 24 d (unat x)"
    have "\<not> in_block 24 p (unat x)" using x p(1) by blast
    then have 1: "mem ?s1 x = mem s x" using own_store(2) [OF rel os [OF p(1)], of "p + 16" x] by simp
    show "?m x = mem s x"
    proof (cases vs)
      case (Cons v ws)
      have "store64 (mem ?s1) (v + 8) p x = mem ?s1 x"
        using own_store(2) [OF rel1 os [OF vin [OF Cons]], of "v + 8" x] bspec [OF x vin [OF Cons]] by simp
      with 1 Cons show ?thesis by (simp add: un)
    qed (use 1 in \<open>simp add: un\<close>)
  qed
qed

lemma list_inv_freed:
  assumes inv: "list_inv K s A H l cs" and fr: "heap_freed K s A H s' A' H'" and lv: "\<forall>c \<in> set cs. (c, 64) \<in> live H'"
  shows "list_inv K s' A' H' l cs" and "map (list_node (mem s')) cs = map (list_node (mem s)) cs"
proof -
  have rel: "heap_rel K s A H" and st: "list_static K l" using inv by (auto simp: list_inv_def)
  have up: "in_block 64 c x" if "in_block 24 c x" for c :: uint64 and x using that by (simp add: in_block_def)
  have keep: "\<forall>c \<in> set (l # cs). \<forall>x. in_block 24 c (unat x) \<longrightarrow> mem s' x = mem s x"
  proof (intro ballI allI impI)
    fix c and x :: uint64 assume c: "c \<in> set (l # cs)" and x: "in_block 24 c (unat x)"
    show "mem s' x = mem s x"
    proof (cases "c = l")
      case True
      with static_outside(2) [OF rel st, of "unat x"] x fr show ?thesis unfolding heap_freed_def by blast
    next
      case False
      then have "(c, 64) \<in> live H'" using c lv by simp
      with up [OF x] fr show ?thesis unfolding heap_freed_def by blast
    qed
  qed
  note kc = klist_cong [OF inv keep]
  show "map (list_node (mem s')) cs = map (list_node (mem s)) cs" by (rule kc(2))
  have "s' = s\<lparr>mem := mem s', pmmap := pmmap s'\<rparr>" using fr by (simp add: heap_freed_def)
  then have "memtotal s' = memtotal s" by (rule ssubst [where P = "\<lambda>t. memtotal t = memtotal s"]) simp
  with kc(1) inv lv fr show "list_inv K s' A' H' l cs" by (simp add: list_inv_def heap_freed_def)
qed

lemma list_remove_from_spec:
  assumes "chain (list_next (mem s)) e cs" and "length cs < fuel"
  shows "\<forall>c \<in> set cs. list_node (mem s) c \<noteq> node \<Longrightarrow> list_remove_from fuel K e node s = Inr s"
    and "cs = us @ c # vs \<Longrightarrow> \<forall>d \<in> set us. list_node (mem s) d \<noteq> node \<Longrightarrow> list_node (mem s) c = node \<Longrightarrow>
      list_remove_from fuel K e node s = kmfree K c (list_unlink c s)"
proof -
  show "list_remove_from fuel K e node s = Inr s" if "\<forall>c \<in> set cs. list_node (mem s) c \<noteq> node"
    using assms that
  proof (induction cs arbitrary: e fuel)
    case Nil
    then obtain f where "fuel = Suc f" by (cases fuel) auto
    with Nil show ?case by simp
  next
    case (Cons c cs)
    then obtain f where f: "fuel = Suc f" "length cs < f" by (cases fuel) auto
    with Cons.IH [of "list_next (mem s) e" f] Cons.prems show ?case by auto
  qed
  show "list_remove_from fuel K e node s = kmfree K c (list_unlink c s)"
    if "cs = us @ c # vs" "\<forall>d \<in> set us. list_node (mem s) d \<noteq> node" "list_node (mem s) c = node"
    using assms that
  proof (induction us arbitrary: cs e fuel)
    case Nil
    then obtain f where "fuel = Suc f" by (cases fuel) auto
    with Nil show ?case by auto
  next
    case (Cons d us)
    then obtain f where f: "fuel = Suc f" "length (us @ c # vs) < f" by (cases fuel) auto
    from Cons.prems have "chain (list_next (mem s)) (list_next (mem s) e) (us @ c # vs)" by auto
    from Cons.IH [OF this f(2) refl] Cons.prems f(1) show ?case by auto
  qed
qed

lemma list_remove_spec:
  assumes inv: "list_inv K s A H l cs" and n0: "node \<noteq> NULL"
  shows "\<exists>s' A' H' cs'. list_remove K l node s = Inr s' \<and> list_inv K s' A' H' l cs' \<and>
    map (list_node (mem s')) cs' = remove1 node (map (list_node (mem s)) cs) \<and>
    set cs' \<subseteq> set cs \<and> live H' = live H - {(c, 64) |c. c \<in> set cs - set cs'} \<and>
    (\<forall>b m x. (b, m) \<in> live H \<longrightarrow> b \<notin> set cs \<longrightarrow> in_block m b (unat x) \<longrightarrow> mem s' x = mem s x)"
proof -
  have rel: "heap_rel K s A H" and st: "list_static K l" and k: "klist (mem s) l cs"
    and lv: "\<And>c. c \<in> set cs \<Longrightarrow> (c, 64) \<in> live H" using inv by (auto simp: list_inv_def)
  have ch: "chain (list_next (mem s)) l (l # cs)" and ln: "list_node (mem s) l = NULL" using k by (auto simp: klist_def)
  have len: "length (l # cs) < loop_fuel K" using list_length [OF inv] by simp
  note rf = list_remove_from_spec [OF ch len, where K = K and node = node]
  show ?thesis
  proof (cases "node \<in> set (map (list_node (mem s)) cs)")
    case False
    have "list_remove K l node s = Inr s" unfolding list_remove_def by (rule rf(1)) (use False n0 ln in auto)
    with inv False show ?thesis
      by (intro exI [of _ s] exI [of _ A] exI [of _ H] exI [of _ cs]) (simp add: remove1_idem)
  next
    case True
    then have "\<exists>c \<in> set cs. list_node (mem s) c = node" by auto
    then obtain us c vs where cs: "cs = us @ c # vs" "list_node (mem s) c = node" "\<forall>d \<in> set us. list_node (mem s) d \<noteq> node"
      using split_list_first_prop [of cs "\<lambda>c. list_node (mem s) c = node"] by blast
    have run: "list_remove K l node s = kmfree K c (list_unlink c s)"
      unfolding list_remove_def by (rule rf(2) [where us = "l # us" and vs = vs]) (use cs n0 ln in auto)
    note dc = list_drop_cell [OF inv cs(1)]
    let ?s1 = "list_unlink c s"
    have rel1: "heap_rel K ?s1 A H" using dc(1) by (simp add: list_inv_def)
    have c: "(c, 64) \<in> live H" using lv cs(1) by simp
    obtain s' A' H' where s': "kmfree K c ?s1 = Inr s'" "heap_freed K ?s1 A H s' A' H'" "live H' = live H - {(c, 64)}"
      by (rule kmfree_spec [OF rel1 list_inv_fuel [OF dc(1)] c live_aligned [OF rel1 c]]) simp
    have d: "distinct cs" using chain_distinct [OF ch] by simp
    have stay: "\<forall>d \<in> set (us @ vs). (d, 64) \<in> live H'" using d lv s'(3) cs(1) by auto
    note fr = list_inv_freed [OF dc(1) s'(2) stay]
    have nd: "map (list_node (mem s')) (us @ vs) = remove1 node (map (list_node (mem s)) cs)"
      unfolding fr(2) dc(2) using cs by (auto simp: remove1_append)
    have "set cs - set (us @ vs) = {c}" using d cs(1) by auto
    then have lv': "live H' = live H - {(e, 64) |e. e \<in> set cs - set (us @ vs)}" using s'(3) by auto
    have rest: "mem s' x = mem s x" if b: "(b, m) \<in> live H" "b \<notin> set cs" "in_block m b (unat x)" for b m x
    proof -
      have "\<forall>e \<in> set (l # cs). \<not> in_block 24 e (unat x)" using object_not_cell [OF inv b] by blast
      then have "mem ?s1 x = mem s x" using dc(3) by blast
      moreover have "(b, m) \<in> live H'" using b(1,2) s'(3) cs(1) by auto
      then have "mem s' x = mem ?s1 x" using s'(2) b(3) unfolding heap_freed_def by metis
      ultimately show ?thesis by simp
    qed
    have sub: "set (us @ vs) \<subseteq> set cs" using cs(1) by auto
    show ?thesis
      by (intro exI [of _ s'] exI [of _ A'] exI [of _ H'] exI [of _ "us @ vs"] conjI allI impI)
        (use run s'(1) fr(1) nd sub lv' rest in auto)
  qed
qed

section \<open>Properties\<close>

text \<open>
  C27. Pushing appends the element behind the elements of the list, in a cell that was not in use
  before; no object outside the list changes.  It fails only for want of memory.
\<close>

theorem list_push_appends:
  assumes "list_inv K s A H l cs"
  shows "list_push K l node s = Inl (Panic ''pmalloc: out of memory'') \<and> big_left A < 2 \<or>
    (\<exists>c s' A' H'. list_push K l node s = Inr s' \<and> list_inv K s' A' H' l (cs @ [c]) \<and>
       map (list_node (mem s')) (cs @ [c]) = map (list_node (mem s)) cs @ [node] \<and>
       live H' = insert (c, 64) (live H) \<and> (\<forall>n. (c, n) \<notin> live H) \<and>
       (\<forall>b m x. (b, m) \<in> live H \<longrightarrow> b \<notin> set cs \<longrightarrow> in_block m b (unat x) \<longrightarrow> mem s' x = mem s x))"
  by (rule list_push_spec [OF assms]) blast+

lemma empty_list:
  assumes "heap_rel K s A H" and "list_static K l" and "Suc (unat (memtotal s) div 64) < loop_fuel K"
    and "\<And>x. in_block 24 l (unat x) \<Longrightarrow> mem s x = 0"
  shows "list_inv K s A H l []"
proof -
  have "unat l + 24 \<le> 18446744073709551616"
    using assms(2) unat_less_2p64 [of "kernel_end K"] unfolding list_static_def by linarith
  then have "mem s x = 0" if "x \<in> bytes_at l 24" for x using that bytes_at_in_block [of l 24 x] assms(4) by simp
  from cells_cong [of l "mem s" "\<lambda>_. 0", OF this] have "klist (mem s) l []"
    using assms(2) by (simp add: klist_def list_node_def list_prev_def list_next_def list_static_def)
  then show ?thesis using assms(1-3) by (simp add: list_inv_def)
qed

lemma demo_empty_list:
  assumes "heap_rel demo_layout s A H" and "memtotal s = 0x20000000"
    and "\<forall>x. unat x < 0x200000 \<longrightarrow> \<not> in_block 336 0x1F0000 (unat x) \<longrightarrow> mem s x = 0"
  shows "list_inv demo_layout s A H (proc_list_at demo_layout) []"
  by (rule empty_list [OF assms(1)]) (use assms(2,3) in \<open>auto simp: list_static_def demo_layout_def in_block_def\<close>)

lemma demo_list:
  obtains s A H where "list_inv demo_layout s A H (proc_list_at demo_layout) []" and "114 \<le> big_left A"
proof -
  obtain s A H where s: "heap_rel demo_layout s A H" "114 \<le> big_left A"
    "\<forall>x. unat x < 0x200000 \<longrightarrow> \<not> in_block 336 0x1F0000 (unat x) \<longrightarrow> mem s x = 0" "memtotal s = 0x20000000"
    by (rule demo_heap)
  show thesis by (rule that [OF demo_empty_list [OF s(1,4,3)] s(2)])
qed

lemma demo_list_one:
  obtains s A H c where "list_inv demo_layout s A H (proc_list_at demo_layout) [c]" and "list_node (mem s) c = 7"
proof -
  obtain s A H where s: "list_inv demo_layout s A H (proc_list_at demo_layout) []" "114 \<le> big_left A" by (rule demo_list)
  show thesis by (rule list_push_spec [OF s(1), of 7]) (use s(2) that in auto)
qed

theorem list_push_appends_witness:
  "\<exists>s s' c. list_push demo_layout (proc_list_at demo_layout) 7 s = Inr s' \<and> list_node (mem s') c = 7"
proof -
  obtain s A H where s: "list_inv demo_layout s A H (proc_list_at demo_layout) []" "114 \<le> big_left A" by (rule demo_list)
  from list_push_appends [OF s(1), of 7] s(2) show ?thesis by auto
qed

text \<open>
  C28. Removing an element takes its first occurrence out of the list and releases its cell, and does nothing if
  the element is not in the list; no object outside the list changes.
\<close>

theorem list_remove_first:
  assumes inv: "list_inv K s A H l cs" and n0: "node \<noteq> NULL"
  shows "\<exists>s' A' H' cs'. list_remove K l node s = Inr s' \<and> list_inv K s' A' H' l cs' \<and>
    map (list_node (mem s')) cs' = remove1 node (map (list_node (mem s)) cs) \<and>
    set cs' \<subseteq> set cs \<and> live H' = live H - {(c, 64) |c. c \<in> set cs - set cs'} \<and>
    (\<forall>b m x. (b, m) \<in> live H \<longrightarrow> b \<notin> set cs \<longrightarrow> in_block m b (unat x) \<longrightarrow> mem s' x = mem s x)"
  by (rule list_remove_spec [OF assms])

theorem list_remove_first_witness:
  "\<exists>s s' A' H'. list_remove demo_layout (proc_list_at demo_layout) 7 s = Inr s' \<and>
     list_inv demo_layout s' A' H' (proc_list_at demo_layout) []"
proof -
  obtain s A H c where s: "list_inv demo_layout s A H (proc_list_at demo_layout) [c]" "list_node (mem s) c = 7"
    by (rule demo_list_one)
  have "(7 :: uint64) \<noteq> NULL" by simp
  from list_remove_first [OF s(1) this] s(2) obtain s' A' H' cs' where
    "list_remove demo_layout (proc_list_at demo_layout) 7 s = Inr s'"
    "list_inv demo_layout s' A' H' (proc_list_at demo_layout) cs'" "map (list_node (mem s')) cs' = []" by auto
  then show ?thesis by auto
qed

end
