(* ===== verification/KernelMem.thy ===== *)
theory KernelMem
  imports VmWalk ListOps
begin

text \<open>
  The parts of memory management together.  Page tables, heap and user pages are all carved out of
  the page allocator of \<^verbatim>\<open>mm/pm.c\<close>; the invariant below says that each is sound and that they share no
  byte, and every operation of \<^verbatim>\<open>mm/slab.c\<close> and \<^verbatim>\<open>arch/x86/vm.c\<close> that runs after start-up keeps it.
\<close>

section \<open>The joint invariant\<close>

text \<open>The page that a user address lies in belongs to that address alone.\<close>

definition user_frame :: "mem_t \<Rightarrow> uint64 \<Rightarrow> uint64 \<Rightarrow> uint64 option" where
  "user_frame m r va = map_option (\<lambda>(d, p). pte_frame (load64 m p)) (vm_leaf m r va)"

definition user_ok :: "klayout \<Rightarrow> mem_t \<Rightarrow> uint64 \<Rightarrow> pm_abs \<Rightarrow> heap_abs \<Rightarrow> bool" where
  "user_ok K m r A H \<longleftrightarrow>
     (\<forall>va d p. user_va va \<longrightarrow> vm_leaf m r va = Some (d, p) \<longrightarrow> d = 3 \<and>
        table_ok A (pte_frame (load64 m p)) \<and> kernel_end K \<le> pte_frame (load64 m p) \<and>
        (\<forall>x. in_block 4096 (pte_frame (load64 m p)) x \<longrightarrow> x \<notin> vm_bytes m r \<and> x \<notin> heap_bytes K H)) \<and>
     (\<forall>va va' f. user_va va \<longrightarrow> user_va va' \<longrightarrow> user_frame m r va = Some f \<longrightarrow>
        user_frame m r va' = Some f \<longrightarrow> same_path 4 va va')"

definition mm_inv :: "klayout \<Rightarrow> kstate \<Rightarrow> pm_abs \<Rightarrow> heap_abs \<Rightarrow> bool" where
  "mm_inv K s A H \<longleftrightarrow> heap_rel K s A H \<and> vm_inv K s A \<and> cr3 s = pgdir s \<and> fuel_ok K s \<and>
     (\<forall>x \<in> vm_bytes (mem s) (pgdir s). unat (kernel_end K) \<le> x \<and> x \<notin> heap_bytes K H) \<and>
     user_ok K (mem s) (pgdir s) A H"

lemma mm_invD:
  assumes "mm_inv K s A H"
  shows "heap_rel K s A H" and "vm_inv K s A" and "cr3 s = pgdir s" and "fuel_ok K s"
    and "x \<in> vm_bytes (mem s) (pgdir s) \<Longrightarrow> unat (kernel_end K) \<le> x"
    and "x \<in> vm_bytes (mem s) (pgdir s) \<Longrightarrow> x \<notin> heap_bytes K H"
    and "user_ok K (mem s) (pgdir s) A H" and "vm_ok (mem s) (pgdir s) A" and "pm_rel K s A"
  using assms by (simp_all add: mm_inv_def vm_inv_def)

lemma user_okD:
  assumes "user_ok K m r A H" and "user_va va" and "vm_leaf m r va = Some (d, p)"
  shows "d = 3" and "table_ok A (pte_frame (load64 m p))" and "kernel_end K \<le> pte_frame (load64 m p)"
    and "in_block 4096 (pte_frame (load64 m p)) x \<Longrightarrow> x \<notin> vm_bytes m r"
    and "in_block 4096 (pte_frame (load64 m p)) x \<Longrightarrow> x \<notin> heap_bytes K H"
  using assms unfolding user_ok_def by blast+

lemma user_ok_inj:
  assumes u: "user_ok K m r A H" and va: "user_va va" "user_va va'"
    and lf: "vm_leaf m r va = Some (d, p)" "vm_leaf m r va' = Some (d', q)"
    and fr: "pte_frame (load64 m p) = pte_frame (load64 m q)"
  shows "same_path 4 va va'"
proof -
  have "user_frame m r va = Some (pte_frame (load64 m p))" "user_frame m r va' = Some (pte_frame (load64 m p))"
    using lf fr by (simp_all add: user_frame_def)
  with u va show ?thesis unfolding user_ok_def by blast
qed

section \<open>Frames\<close>

lemma cover_above_kernel:
  assumes "pm_rel K s A" and "cover A x = 1"
  shows "unat (kernel_end K) \<le> x"
proof (rule ccontr)
  assume below: "\<not> unat (kernel_end K) \<le> x"
  then have "cov (pm_sz i) (A ! i) x = 0" if "i < 3" for i
    using assms(1) that by (fastforce simp: cov_def filter_empty_conv pm_rel_def block_ok_def in_block_def word_le_nat_alt)
  from this [of 0] this [of 1] this [of 2] assms(2) show False by (simp add: cover_def)
qed

lemma heap_bytes_above:
  assumes "heap_rel K s A H" and "x \<in> heap_bytes K H"
  shows "in_block 336 (slabs_at K) x \<or> unat (kernel_end K) \<le> x"
  using assms slab_okD(4) [OF heap_relD(6) [OF assms(1)]]
  by (fastforce simp: heap_bytes_def block_ok_def in_block_def word_le_nat_alt)

text \<open>The tables depend on their own bytes only.\<close>

lemma tree_frame:
  assumes ok: "vm_ok m r A" and same: "\<And>x. unat x \<in> vm_bytes m r \<Longrightarrow> m' x = m x"
  shows tree_frame_tab: "tab m' r va d = tab m r va d"
    and tree_frame_load: "tab m r va d = Some t \<Longrightarrow> load64 m' (pt_entry t d va) = load64 m (pt_entry t d va)"
    and tree_frame_leaf: "vm_leaf m' r va = vm_leaf m r va"
    and tree_frame_leaf_load: "vm_leaf m r va = Some (d, p) \<Longrightarrow> load64 m' p = load64 m p"
    and tree_frame_bytes: "vm_bytes m' r = vm_bytes m r"
proof -
  have l: "load64 m' (pt_entry t d va) = load64 m (pt_entry t d va)" if "tab m r va d = Some t" for va d t
    by (rule quad_cell.load_local) (use entry_in_tree [OF ok that] same in blast)
  then show "tab m r va d = Some t \<Longrightarrow> load64 m' (pt_entry t d va) = load64 m (pt_entry t d va)" .
  have tb: "tab m' r va d = tab m r va d" for va d
    by (induction d) (auto simp: Let_def l split: option.splits)
  then show "tab m' r va d = tab m r va d" .
  show "vm_bytes m' r = vm_bytes m r" by (simp add: vm_bytes_def tb)
  show ll: "load64 m' p = load64 m p" if "vm_leaf m r va = Some (d, p)" for va d p
    by (rule vm_leafD [OF that]) (use l in blast)
  show "vm_leaf m' r va = vm_leaf m r va"
  proof (cases "vm_leaf m r va")
    case None
    have False if lf: "vm_leaf m' r va = Some (d, p)" for d p
    proof -
      obtain t where t: "tab m' r va d = Some t" "p = pt_entry t d va" "load64 m' p AND PG_P \<noteq> 0" "\<not> descends d (load64 m' p)"
        by (rule vm_leafD [OF lf])
      then have "tab m r va d = Some t" using tb by simp
      from vm_leafI [OF this] l [OF this] t None show False by simp
    qed
    with None show ?thesis by (cases "vm_leaf m' r va") auto
  next
    case (Some dp)
    obtain d p where dp: "dp = (d, p)" by (cases dp)
    obtain t where t: "tab m r va d = Some t" "p = pt_entry t d va" "load64 m p AND PG_P \<noteq> 0" "\<not> descends d (load64 m p)"
      using Some dp by (auto elim: vm_leafD)
    have "tab m' r va d = Some t" using tb t(1) by simp
    from vm_leafI [OF this] l [OF t(1)] t Some dp show ?thesis by simp
  qed
qed

lemma tree_frame_ok:
  assumes ok: "vm_ok m r A" and same: "\<And>x. unat x \<in> vm_bytes m r \<Longrightarrow> m' x = m x"
    and unc: "\<And>x. x \<in> vm_bytes m r \<Longrightarrow> cover A' x = 0"
  shows "vm_ok m' r A'"
proof -
  have tb: "tab m' r va d = tab m r va d" for va d by (rule tree_frame_tab [OF ok same])
  have l: "load64 m' (pt_entry t d va) = load64 m (pt_entry t d va)" if "tab m r va d = Some t" for va d t
    by (rule tree_frame_load [OF ok same that])
  have "table_ok A' t" if "tab m r va d = Some t" for va d t
    using vm_okD(1) [OF ok that] unc that unfolding table_ok_def vm_bytes_def by blast
  then show ?thesis using ok l unfolding vm_ok_def tb by auto
qed

lemma tree_frame_user:
  assumes ok: "vm_ok m r A" and same: "\<And>x. unat x \<in> vm_bytes m r \<Longrightarrow> m' x = m x"
  shows "user_frame m' r va = user_frame m r va"
proof -
  have lf: "vm_leaf m' r va = vm_leaf m r va" by (rule tree_frame_leaf [OF ok same])
  have "load64 m' p = load64 m p" if "vm_leaf m r va = Some (d, p)" for d p
    by (rule tree_frame_leaf_load [OF ok same that])
  with lf show ?thesis by (cases "vm_leaf m r va") (auto simp: user_frame_def)
qed

lemma tree_frame_user_ok:
  assumes ok: "vm_ok m r A" and same: "\<And>x. unat x \<in> vm_bytes m r \<Longrightarrow> m' x = m x"
    and u: "user_ok K m r A H"
    and unc: "\<And>va d p x. user_va va \<Longrightarrow> vm_leaf m r va = Some (d, p) \<Longrightarrow>
      in_block 4096 (pte_frame (load64 m p)) x \<Longrightarrow> cover A' x = 0 \<and> x \<notin> heap_bytes K H'"
  shows "user_ok K m' r A' H'"
proof -
  have lf: "vm_leaf m' r va = vm_leaf m r va" for va by (rule tree_frame_leaf [OF ok same])
  have tb: "vm_bytes m' r = vm_bytes m r" by (rule tree_frame_bytes [OF ok same])
  have uf: "user_frame m' r va = user_frame m r va" for va by (rule tree_frame_user [OF ok same])
  have "d = 3 \<and> table_ok A' (pte_frame (load64 m' p)) \<and> kernel_end K \<le> pte_frame (load64 m' p) \<and>
      (\<forall>x. in_block 4096 (pte_frame (load64 m' p)) x \<longrightarrow> x \<notin> vm_bytes m' r \<and> x \<notin> heap_bytes K H')"
    if "user_va va" "vm_leaf m' r va = Some (d, p)" for va d p
  proof -
    have v: "vm_leaf m r va = Some (d, p)" using that(2) lf by simp
    have e: "load64 m' p = load64 m p" by (rule tree_frame_leaf_load [OF ok same v])
    show ?thesis unfolding e tb using user_okD [OF u that(1) v] unc [OF that(1) v] by (auto simp: table_ok_def)
  qed
  moreover have "same_path 4 va va'"
    if "user_va va" "user_va va'" "user_frame m' r va = Some f" "user_frame m' r va' = Some f" for va va' f
    using u that unfolding user_ok_def uf by blast
  ultimately show ?thesis unfolding user_ok_def by blast
qed


text \<open>A change outside the free blocks, the slab records and the tables keeps the invariant.\<close>

lemma mm_frame:
  assumes inv: "mm_inv K s A H" and same: "pmmap s' = pmmap s" "memtotal s' = memtotal s" "pgdir s' = pgdir s" "cr3 s' = cr3 s"
    and free: "\<And>x. cover A (unat x) \<noteq> 0 \<Longrightarrow> mem s' x = mem s x"
    and recs: "\<And>i r x. slab_in H i r \<Longrightarrow> in_block 24 (sl_entry r) (unat x) \<Longrightarrow> mem s' x = mem s x"
    and tree: "\<And>x. unat x \<in> vm_bytes (mem s) (pgdir s) \<Longrightarrow> mem s' x = mem s x"
  shows "mm_inv K s' A H"
proof -
  note ok = mm_invD(8) [OF inv] and u = mm_invD(7) [OF inv]
  have "heap_rel K s' A H" by (rule heap_frame [OF mm_invD(1) [OF inv] same(1,2) free recs])
  moreover have "vm_ok (mem s') (pgdir s) A"
    by (rule tree_frame_ok [OF ok tree]) (use ok in \<open>auto simp: vm_bytes_def dest!: vm_okD(1) simp: table_ok_def\<close>)
  moreover have "vm_bytes (mem s') (pgdir s) = vm_bytes (mem s) (pgdir s)" by (rule tree_frame_bytes [OF ok tree])
  moreover have "user_ok K (mem s') (pgdir s) A H"
    by (rule tree_frame_user_ok [OF ok tree u]) (use user_okD(2,5) [OF u] in \<open>auto simp: table_ok_def\<close>)
  ultimately show ?thesis
    using inv same unfolding mm_inv_def vm_inv_def fuel_ok_def heap_rel_def by simp
qed

section \<open>User memory\<close>

text \<open>What a user program would read: zero where nothing is mapped yet.\<close>

definition uview :: "kstate \<Rightarrow> uint64 \<Rightarrow> uint8" where
  "uview s va = (case translate (mem s) (cr3 s) va of None \<Rightarrow> 0 | Some pa \<Rightarrow> mem s pa)"

lemma mm_translate:
  assumes inv: "mm_inv K s A H"
  shows "translate m (cr3 s) va = map_option (\<lambda>(d, p). leaf_addr d (load64 m p) va) (vm_leaf m (pgdir s) va)"
  unfolding translate_leaf mm_invD(3) [OF inv] table_frame [OF vm_inv_root [OF mm_invD(2) [OF inv]]] ..

lemma user_pa:
  assumes inv: "mm_inv K s A H" and va: "user_va va" and tr: "translate (mem s) (cr3 s) va = Some pa"
  obtains p where "vm_leaf (mem s) (pgdir s) va = Some (3, p)" and "pa = pte_frame (load64 (mem s) p) OR va AND 0xFFF"
    and "in_block 4096 (pte_frame (load64 (mem s) p)) (unat pa)"
    and "cover A (unat pa) = 0" and "unat pa \<notin> vm_bytes (mem s) (pgdir s)" and "unat pa \<notin> heap_bytes K H"
    and "unat (kernel_end K) \<le> unat pa"
proof -
  note u = mm_invD(7) [OF inv]
  from tr obtain d p where lf: "vm_leaf (mem s) (pgdir s) va = Some (d, p)" and pa: "pa = leaf_addr d (load64 (mem s) p) va"
    unfolding mm_translate [OF inv] by auto
  note uo = user_okD [OF u va lf]
  have pa3: "pa = pte_frame (load64 (mem s) p) OR va AND 0xFFF" using pa uo(1) by (simp add: leaf_addr_def)
  have inb: "in_block 4096 (pte_frame (load64 (mem s) p)) (unat pa)"
    unfolding pa3 by (rule page_offset_in) (use uo(2) in \<open>simp_all add: table_ok_def\<close>)
  show thesis
  proof (rule that [OF _ pa3 inb])
    show "cover A (unat pa) = 0" using uo(2) inb by (simp add: table_ok_def)
    show "unat (kernel_end K) \<le> unat pa" using uo(3) inb by (simp add: in_block_def word_le_nat_alt)
  qed (use lf uo(1,4,5) inb in simp_all)
qed

lemma aligned_blocks_same:
  assumes "4096 dvd unat f" and "4096 dvd unat g" and "in_block 4096 f x" and "in_block 4096 g x"
  shows "f = (g :: uint64)"
proof -
  obtain i j where i: "unat f = 4096 * i" and j: "unat g = 4096 * j" using assms(1,2) by (auto simp: dvd_def)
  have "i = x div 4096" "j = x div 4096" using assms(3,4) i j by (auto simp: in_block_def)
  with i j show ?thesis by (simp add: word_unat_eq_iff)
qed

lemma page_bits: "bit (f OR va AND 0xFFF) i = bit va i" if "4096 dvd unat f" "i < 12" for f va :: uint64
  using that bit_aligned [OF that(1), of i] by (auto simp: low_mask bit_or_iff bit_and_iff bit_mask_iff dest: bit_imp_le_length)

lemma same_path4_bits:
  assumes "same_path 4 va va'" and "12 \<le> i" and "i < 48"
  shows "bit va i = bit va' i"
proof (cases "21 \<le> i")
  case True
  with assms same_path_mono [of 3 4 va va'] show ?thesis by (intro same_path_bits) simp_all
next
  case False
  have "pt_idx 3 va = pt_idx 3 va'" using assms(1) by (simp add: same_path_def)
  then have "bit (pt_idx 3 va) (i - 12) = bit (pt_idx 3 va') (i - 12)" by simp
  moreover have "i - 12 < 9" using False assms(2) by linarith
  ultimately show ?thesis using assms(2) by (simp add: bit_pt_idx)
qed

lemma user_translate_inj:
  assumes inv: "mm_inv K s A H" and va: "user_va va" "user_va va'"
    and tr: "translate (mem s) (cr3 s) va = Some pa" "translate (mem s) (cr3 s) va' = Some pa"
  shows "va = va'"
proof -
  obtain p where p: "vm_leaf (mem s) (pgdir s) va = Some (3, p)" "pa = pte_frame (load64 (mem s) p) OR va AND 0xFFF"
    "in_block 4096 (pte_frame (load64 (mem s) p)) (unat pa)" by (rule user_pa [OF inv va(1) tr(1)])
  obtain q where q: "vm_leaf (mem s) (pgdir s) va' = Some (3, q)" "pa = pte_frame (load64 (mem s) q) OR va' AND 0xFFF"
    "in_block 4096 (pte_frame (load64 (mem s) q)) (unat pa)" by (rule user_pa [OF inv va(2) tr(2)])
  note u = mm_invD(7) [OF inv]
  have al: "4096 dvd unat (pte_frame (load64 (mem s) p))" "4096 dvd unat (pte_frame (load64 (mem s) q))"
    using user_okD(2) [OF u va(1) p(1)] user_okD(2) [OF u va(2) q(1)] by (simp_all add: table_ok_def)
  have fr: "pte_frame (load64 (mem s) p) = pte_frame (load64 (mem s) q)"
    by (rule aligned_blocks_same [OF al p(3) q(3)])
  then have sp: "same_path 4 va va'"
    by (rule user_ok_inj [OF u va p(1) q(1)])
  have small: "unat va < 2 ^ 47" "unat va' < 2 ^ 47" using va by (simp_all add: user_va_def word_less_nat_alt)
  show ?thesis
  proof (rule bit_eqI)
    fix i :: nat
    consider "i < 12" | "12 \<le> i" "i < 48" | "48 \<le> i" by linarith
    then show "bit va i = bit va' i"
    proof cases
      case 1
      then show ?thesis using page_bits [OF al(1), of i va] page_bits [OF al(2), of i va'] p(2) q(2) by simp
    next
      case 2
      then show ?thesis by (rule same_path4_bits [OF sp])
    next
      case 3
      then show ?thesis using bit_below [OF _ small(1), of i] bit_below [OF _ small(2), of i] by auto
    qed
  qed
qed


text \<open>User memory depends on the tables and on the user pages.\<close>

lemma uview_frame:
  assumes inv: "mm_inv K s A H" and va: "user_va va" and same: "cr3 s' = cr3 s"
    and tree: "\<And>x. unat x \<in> vm_bytes (mem s) (pgdir s) \<Longrightarrow> mem s' x = mem s x"
    and pg: "\<And>pa. translate (mem s) (cr3 s) va = Some pa \<Longrightarrow> mem s' pa = mem s pa"
  shows "translate (mem s') (cr3 s) va = translate (mem s) (cr3 s) va" and "uview s' va = uview s va"
proof -
  note ok = mm_invD(8) [OF inv]
  have lf: "vm_leaf (mem s') (pgdir s) va = vm_leaf (mem s) (pgdir s) va" by (rule tree_frame_leaf [OF ok tree])
  have "load64 (mem s') p = load64 (mem s) p" if "vm_leaf (mem s) (pgdir s) va = Some (d, p)" for d p
    by (rule tree_frame_leaf_load [OF ok tree that])
  then show tr: "translate (mem s') (cr3 s) va = translate (mem s) (cr3 s) va"
    unfolding mm_translate [OF inv] lf by (auto simp: option.map_sel split: option.splits intro!: map_option_cong)
  with pg show "uview s' va = uview s va"
    by (simp add: uview_def same split: option.splits)
qed

section \<open>The operations of the heap\<close>

lemma mm_heap_change:
  assumes inv: "mm_inv K s A H" and rel: "heap_rel K s' A' H'" and st: "s' = s\<lparr>mem := mem s', pmmap := pmmap s'\<rparr>"
    and out: "\<And>x. cover A (unat x) = 0 \<Longrightarrow> unat x \<notin> heap_bytes K H \<Longrightarrow> mem s' x = mem s x"
    and cov: "\<And>x. cover A x = 0 \<Longrightarrow> x \<notin> heap_bytes K H \<Longrightarrow> cover A' x = 0"
    and hb: "\<And>x. x \<in> heap_bytes K H' \<Longrightarrow> x \<in> heap_bytes K H \<or> cover A x = 1"
  shows "mm_inv K s' A' H'" and "user_va va \<Longrightarrow> uview s' va = uview s va"
    and "unat x < unat (kernel_end K) \<Longrightarrow> \<not> in_block 336 (slabs_at K) (unat x) \<Longrightarrow> mem s' x = mem s x"
    and "user_va va \<Longrightarrow> translate (mem s') (cr3 s') va = translate (mem s) (cr3 s) va"
proof -
  have sm: "pgdir s' = pgdir s" "cr3 s' = cr3 s" "memtotal s' = memtotal s" by (subst st, simp)+
  note ok = mm_invD(8) [OF inv] and u = mm_invD(7) [OF inv]
  have tc: "cover A x = 0" if "x \<in> vm_bytes (mem s) (pgdir s)" for x
    using that vm_okD(1) [OF ok] unfolding vm_bytes_def table_ok_def by blast
  have tree: "mem s' x = mem s x" if "unat x \<in> vm_bytes (mem s) (pgdir s)" for x
    by (rule out [OF tc [OF that] mm_invD(6) [OF inv that]])
  have tc': "cover A' x = 0" if "x \<in> vm_bytes (mem s) (pgdir s)" for x
    by (rule cov [OF tc [OF that] mm_invD(6) [OF inv that]])
  have "vm_ok (mem s') (pgdir s) A'" by (rule tree_frame_ok [OF ok tree tc'])
  moreover have tb: "vm_bytes (mem s') (pgdir s) = vm_bytes (mem s) (pgdir s)" by (rule tree_frame_bytes [OF ok tree])
  moreover have "user_ok K (mem s') (pgdir s) A' H'"
  proof (rule tree_frame_user_ok [OF ok tree u])
    fix va d p x
    assume va: "user_va va" and lf: "vm_leaf (mem s) (pgdir s) va = Some (d, p)"
      and x: "in_block 4096 (pte_frame (load64 (mem s) p)) x"
    note uo = user_okD [OF u va lf]
    have "cover A x = 0" using uo(2) x by (simp add: table_ok_def)
    with uo(5) [OF x] cov hb [of x] show "cover A' x = 0 \<and> x \<notin> heap_bytes K H'" by auto
  qed
  moreover have "x \<notin> heap_bytes K H'" if "x \<in> vm_bytes (mem s) (pgdir s)" for x
    using hb [of x] tc [OF that] mm_invD(6) [OF inv that] by auto
  ultimately show "mm_inv K s' A' H'"
    using inv rel sm unfolding mm_inv_def vm_inv_def fuel_ok_def heap_rel_def by simp
  have pg: "mem s' pa = mem s pa" if "user_va va" "translate (mem s) (cr3 s) va = Some pa" for va pa
    by (rule user_pa [OF inv that]) (use out in blast)
  show "uview s' va = uview s va" if "user_va va" by (rule uview_frame(2) [OF inv that sm(2) tree pg [OF that]])
  show "translate (mem s') (cr3 s') va = translate (mem s) (cr3 s) va" if "user_va va"
    unfolding sm(2) by (rule uview_frame(1) [OF inv that sm(2) tree pg [OF that]])
  show "mem s' x = mem s x" if "unat x < unat (kernel_end K)" "\<not> in_block 336 (slabs_at K) (unat x)"
  proof (rule out)
    have "cover A (unat x) \<le> 1" using mm_invD(9) [OF inv] by (simp add: pm_rel_def)
    with cover_above_kernel [OF mm_invD(9) [OF inv], of "unat x"] that(1) show "cover A (unat x) = 0" by linarith
    show "unat x \<notin> heap_bytes K H"
      using that heap_bytes_above [OF mm_invD(1) [OF inv]] by force
  qed
qed


lemma mm_grant:
  assumes inv: "mm_inv K s A H" and g: "heap_grant K s A H a n s' A' H'"
  shows "mm_inv K s' A' H'" and "user_va va \<Longrightarrow> uview s' va = uview s va"
    and "unat x < unat (kernel_end K) \<Longrightarrow> \<not> in_block 336 (slabs_at K) (unat x) \<Longrightarrow> mem s' x = mem s x"
    and "user_va va \<Longrightarrow> translate (mem s') (cr3 s') va = translate (mem s) (cr3 s) va"
proof -
  have st: "heap_rel K s' A' H'" "s' = s\<lparr>mem := mem s', pmmap := pmmap s'\<rparr>" "\<And>x. cover A' x \<le> cover A x"
    "\<And>x. x \<in> heap_bytes K H' \<Longrightarrow> x \<in> heap_bytes K H \<or> cover A x = 1"
    "\<And>x. cover A (unat x) = 0 \<Longrightarrow> unat x \<notin> heap_bytes K H \<Longrightarrow> mem s' x = mem s x"
    using g unfolding heap_grant_def heap_step_def by blast+
  have c: "cover A' x = 0" if "cover A x = 0" for x using st(3) [of x] that by simp
  note ch = mm_heap_change [OF inv st(1,2)]
  show "mm_inv K s' A' H'" by (rule ch(1)) (use st c in auto)
  show "uview s' va = uview s va" if "user_va va" by (rule ch(2)) (use st c that in auto)
  show "mem s' x = mem s x" if "unat x < unat (kernel_end K)" "\<not> in_block 336 (slabs_at K) (unat x)"
    by (rule ch(3)) (use st c that in auto)
  show "translate (mem s') (cr3 s') va = translate (mem s) (cr3 s) va" if "user_va va"
    by (rule ch(4)) (use st c that in auto)
qed

lemma mm_kmalloc:
  assumes inv: "mm_inv K s A H" and sz: "sz \<le> 524288"
  obtains "kmalloc K sz s = Inl (Panic ''pmalloc: out of memory'')" "big_left A < 2"
  | a s' A' H' where "kmalloc K sz s = Inr (a, s')" "heap_grant K s A H a (slot_sz (class_of sz)) s' A' H'"
      "big_left A \<le> big_left A' + 2" "mm_inv K s' A' H'" "\<forall>va. user_va va \<longrightarrow> uview s' va = uview s va"
      "\<forall>x. unat x < unat (kernel_end K) \<longrightarrow> \<not> in_block 336 (slabs_at K) (unat x) \<longrightarrow> mem s' x = mem s x"
proof (rule kmalloc_cases [OF mm_invD(1,4) [OF inv] sz])
  fix a s' A' H'
  assume k: "kmalloc K sz s = Inr (a, s')" and g: "heap_grant K s A H a (slot_sz (class_of sz)) s' A' H'"
    and b: "big_left A \<le> big_left A' + 2"
  note gr = mm_grant [OF inv g]
  show thesis by (rule that(2) [OF k g b gr(1)]) (use gr(2,3) in blast)+
qed (use that(1) in blast)

lemma mm_kmfree:
  assumes inv: "mm_inv K s A H" and a: "(a, n) \<in> live H" and al: "n dvd unat a"
  obtains s' A' H' where "kmfree K a s = Inr s'" "heap_freed K s A H s' A' H'" "live H' = live H - {(a, n)}"
      "mm_inv K s' A' H'" "\<forall>va. user_va va \<longrightarrow> uview s' va = uview s va"
      "\<forall>x. unat x < unat (kernel_end K) \<longrightarrow> \<not> in_block 336 (slabs_at K) (unat x) \<longrightarrow> mem s' x = mem s x"
      "n \<noteq> 64 \<longrightarrow> (\<forall>x. in_block n a (unat x) \<longrightarrow> mem s' x = mem s x)"
      "\<forall>va. user_va va \<longrightarrow> translate (mem s') (cr3 s') va = translate (mem s) (cr3 s) va"
proof (rule kmfree_spec [OF mm_invD(1,4) [OF inv] a al])
  fix s' A' H'
  assume k: "kmfree K a s = Inr s'" and g: "heap_freed K s A H s' A' H'" and l: "live H' = live H - {(a, n)}"
    and own: "n \<noteq> 64 \<longrightarrow> (\<forall>x. in_block n a (unat x) \<longrightarrow> mem s' x = mem s x)"
  have st: "heap_rel K s' A' H'" "s' = s\<lparr>mem := mem s', pmmap := pmmap s'\<rparr>"
    "\<And>x. cover A' x \<noteq> cover A x \<Longrightarrow> x \<in> heap_bytes K H"
    "\<And>x. x \<in> heap_bytes K H' \<Longrightarrow> x \<in> heap_bytes K H"
    "\<And>x. unat x \<notin> heap_bytes K H \<Longrightarrow> mem s' x = mem s x"
    using g unfolding heap_freed_def by blast+
  have c: "cover A' x = 0" if "cover A x = 0" "x \<notin> heap_bytes K H" for x using st(3) [of x] that by auto
  note ch = mm_heap_change [OF inv st(1,2)]
  show thesis
  proof (rule that [OF k g l])
    show "mm_inv K s' A' H'" by (rule ch(1)) (use st c in auto)
    have "uview s' va = uview s va" if "user_va va" for va by (rule ch(2)) (use st c that in auto)
    then show "\<forall>va. user_va va \<longrightarrow> uview s' va = uview s va" by blast
    have "mem s' x = mem s x" if "unat x < unat (kernel_end K)" "\<not> in_block 336 (slabs_at K) (unat x)" for x
      by (rule ch(3)) (use st c that in auto)
    then show "\<forall>x. unat x < unat (kernel_end K) \<longrightarrow> \<not> in_block 336 (slabs_at K) (unat x) \<longrightarrow> mem s' x = mem s x" by blast
    show "n \<noteq> 64 \<longrightarrow> (\<forall>x. in_block n a (unat x) \<longrightarrow> mem s' x = mem s x)" by (rule own)
    have "translate (mem s') (cr3 s') va = translate (mem s) (cr3 s) va" if "user_va va" for va
      by (rule ch(4)) (use st c that in auto)
    then show "\<forall>va. user_va va \<longrightarrow> translate (mem s') (cr3 s') va = translate (mem s) (cr3 s) va" by blast
  qed
qed

section \<open>Page faults\<close>

lemma uview_unmapped: "translate (mem s) (cr3 s) va = None \<Longrightarrow> uview s va = 0"
  by (simp add: uview_def)

text \<open>The memory of the kernel: its image and its heap.\<close>

definition kernel_bytes :: "klayout \<Rightarrow> heap_abs \<Rightarrow> nat set" where
  "kernel_bytes K H = {x. x < unat (kernel_end K) \<or> x \<in> heap_bytes K H}"

lemma heap_uncovered:
  assumes rel: "heap_rel K s A H" and x: "x \<in> kernel_bytes K H"
  shows "cover A x = 0"
proof -
  have le: "cover A x \<le> 1" using heap_relD(1) [OF rel] by (simp add: pm_rel_def)
  show ?thesis
  proof (cases "x < unat (kernel_end K)")
    case True
    with cover_above_kernel [OF heap_relD(1) [OF rel], of x] le show ?thesis by linarith
  next
    case False
    with x consider "in_block 336 (slabs_at K) x" | i r where "slab_in H i r" "in_block (page_sz i) (sl_page r) x"
      by (auto simp: kernel_bytes_def heap_bytes_def)
    then show ?thesis
    proof cases
      case 1
      with False heap_relD(3) [OF rel] show ?thesis by (simp add: heap_layout_def in_block_def)
    next
      case 2
      then show ?thesis using slab_okD(6) [OF heap_relD(6) [OF rel 2(1)]] by blast
    qed
  qed
qed


lemma user_pages_apart:
  assumes inv: "mm_inv K s A H" and va: "user_va va" and lf: "vm_leaf (mem s) (pgdir s) va = Some (d, p)"
    and x: "in_block 4096 (pte_frame (load64 (mem s) p)) x"
  shows "cover A x = 0" and "x \<notin> vm_bytes (mem s) (pgdir s)" and "x \<notin> heap_bytes K H"
  using user_okD(2,4,5) [OF mm_invD(7) [OF inv] va lf] x by (simp_all add: table_ok_def)

text \<open>Taking pages away from the allocator leaves the heap as it is.\<close>

lemma heap_under:
  assumes rel: "heap_rel K s A H" and new: "pm_rel K s' A'" "pm_aligned A'" "memtotal s' = memtotal s"
    and le: "\<And>x. cover A' x \<le> cover A x"
    and recs: "\<And>i r x. slab_in H i r \<Longrightarrow> in_block 24 (sl_entry r) (unat x) \<Longrightarrow> mem s' x = mem s x"
  shows "heap_rel K s' A' H"
proof -
  have f: "slab_address (mem s') (sl_entry r) = slab_address (mem s) (sl_entry r)"
    "slab_bitmap (mem s') (sl_entry r) = slab_bitmap (mem s) (sl_entry r)"
    "slab_next (mem s') (sl_entry r) = slab_next (mem s) (sl_entry r)" if "slab_in H i r" for i r
    using that recs entry_bytes [OF rel that] by (auto intro!: fields_cong)
  have "chain (slab_next (mem s')) q (map sl_entry (H ! i)) \<longleftrightarrow> chain (slab_next (mem s)) q (map sl_entry (H ! i))"
    if "i < 14" for i q
    by (rule chain_cong) (use that f(3) in \<open>auto simp: slab_in_def\<close>)
  moreover have "slab_ok K s' A' H i r" if "slab_in H i r" for i r
    using heap_relD(6) [OF rel that] f [OF that] new(3) le unfolding slab_ok_def page_ok_def by (metis le_zero_eq)
  ultimately show ?thesis using rel new(1,2) unfolding heap_rel_def by blast
qed

lemma record_in_kernel:
  assumes rel: "heap_rel K s A H" and r: "slab_in H i r" and x: "in_block 24 (sl_entry r) x"
  shows "x \<in> kernel_bytes K H"
proof (rule entry_place [OF rel r])
  assume "unat (sl_entry r) + 24 \<le> unat (kernel_end K)"
  with x show ?thesis by (simp add: kernel_bytes_def in_block_def)
next
  fix r0 k
  assume r0: "slab_in H 0 r0" and "\<And>x. in_block 24 (sl_entry r) x \<Longrightarrow> in_block 64 (slot 0 r0 k) x"
    and "\<And>x. in_block 64 (slot 0 r0 k) x \<Longrightarrow> in_block 4096 (sl_page r0) x"
  with x have "in_block (page_sz 0) (sl_page r0) x" by (simp add: page_sz_def)
  with r0 show ?thesis unfolding kernel_bytes_def heap_bytes_def by blast
qed

lemma same_path_trans: "same_path d v w \<Longrightarrow> same_path d v w' \<Longrightarrow> same_path d w w'"
  by (simp add: same_path_def)

lemma vm_leaf_same_page:
  assumes "vm_leaf m r v = Some (d, q)" and "same_path 4 va v"
  shows "vm_leaf m r va = Some (d, q)"
proof -
  have tb: "tab m r va j = tab m r v j" if "j \<le> 4" for j
    using tab_same_path [OF same_path_mono [OF that assms(2)]] .
  have ix: "pt_entry t j va = pt_entry t j v" if "j < 4" for t j
    using assms(2) that by (simp add: same_path_def pt_entry_def)
  have "vm_leaf m r va = vm_leaf m r v"
    using tb [of 2] by (cases "tab m r v 2") (simp_all add: vm_leaf_def Let_def ix)
  with assms(1) show ?thesis by simp
qed

lemma vm_growsD:
  assumes "vm_grows K s A s' A'"
  shows "vm_inv K s' A'" and "s' = s\<lparr>mem := mem s', pmmap := pmmap s'\<rparr>"
    and "vm_leaf (mem s) (pgdir s) va = Some (d, p) \<Longrightarrow>
        vm_leaf (mem s') (pgdir s) va = Some (d, p) \<and> load64 (mem s') p = load64 (mem s) p"
    and "cover A' x \<le> cover A x" and "blocks_kept A A'"
    and "x \<in> vm_bytes (mem s') (pgdir s) \<Longrightarrow> x \<in> vm_bytes (mem s) (pgdir s) \<or> cover A x = 1"
    and "cover A (unat y) = 0 \<Longrightarrow> unat y \<notin> vm_bytes (mem s) (pgdir s) \<Longrightarrow> mem s' y = mem s y"
  using assms unfolding vm_grows_def by blast+

text \<open>
  A first access maps a fresh page.  Nothing that the kernel or the user can see changes, apart from
  the address of the fault and the message about it.
\<close>

lemma mm_fault:
  assumes inv: "mm_inv K s A H" and pages: "4 \<le> pm_pages A" and va: "user_va va"
    and none: "translate (mem s) (cr3 s) va = None"
  obtains pa s' A' where "user_addr K va s = Inr (pa, s')" and "mm_inv K s' A' H"
    and "translate (mem s') (cr3 s') va = Some pa" and "\<forall>v. user_va v \<longrightarrow> uview s' v = uview s v"
    and "\<forall>v. translate (mem s) (cr3 s) v \<noteq> None \<longrightarrow> translate (mem s') (cr3 s') v \<noteq> None"
    and "\<forall>x. unat x \<in> kernel_bytes K H \<longrightarrow> mem s' x = mem s x" and "pm_pages A \<le> 4 + pm_pages A'"
    and "\<exists>out. s' = s\<lparr>mem := mem s', pmmap := pmmap s', cr2 := va, console := out\<rparr>"
    and "\<forall>v. same_path 4 va v \<longrightarrow> translate (mem s') (cr3 s') v \<noteq> None" and "blocks_kept A A'"
proof -
  note vi = mm_invD(2) [OF inv] and cr = mm_invD(3) [OF inv] and ok = mm_invD(8) [OF inv]
  have vs: "USER_ADDR_START \<le> va" using va by (simp add: user_va_def)
  have lf0: "vm_leaf (mem s) (pgdir s) va = None" using none by (simp add: mm_translate [OF inv])
  obtain p s' A' out where run: "user_addr K va s = Inr (leaf_addr 3 (load64 (mem s') p) va, s')"
    and m0: "vm_mapped K (s\<lparr>cr2 := va, console := out\<rparr>) A va 3 p s' A'" and pg: "pm_pages A \<le> 4 + pm_pages A'"
    and c3: "cr3 s' = pgdir s" and r: "pgdir s' = pgdir s"
    by (rule user_fault [OF vi cr pages vs lf0])
  let ?s = "s\<lparr>cr2 := va, console := out\<rparr>" and ?f = "pte_frame (load64 (mem s') p)"
  have mp: "vm_grows K ?s A s' A'" "vm_leaf (mem s') (pgdir ?s) va = Some (3, p)"
    "\<And>va'. vm_leaf (mem s') (pgdir ?s) va' =
        (if vm_leaf (mem ?s) (pgdir ?s) va = None \<and> same_path (Suc 3) va va' then Some (3, p)
         else vm_leaf (mem ?s) (pgdir ?s) va')"
    using m0 unfolding vm_mapped_def by blast+
  have f: "table_ok A' ?f" "\<And>x. in_block 4096 ?f (unat x) \<Longrightarrow> mem s' x = 0"
    "\<And>x. in_block 4096 ?f x \<Longrightarrow> cover A x = 1" "\<And>x. in_block 4096 ?f x \<Longrightarrow> x \<notin> vm_bytes (mem s') (pgdir s)"
    using m0 lf0 vs unfolding vm_mapped_def by (simp_all add: not_less [symmetric])
  note gr = vm_growsD [OF mp(1)]
  have lfk: "vm_leaf (mem s') (pgdir s) v = Some (d, q) \<and> load64 (mem s') q = load64 (mem s) q"
    if "vm_leaf (mem s) (pgdir s) v = Some (d, q)" for v d q using gr(3) [of v d q] that by simp
  have bytes: "x \<in> vm_bytes (mem s) (pgdir s) \<or> cover A x = 1" if "x \<in> vm_bytes (mem s') (pgdir s)" for x
    using gr(6) [of x] that by simp
  have same: "mem s' x = mem s x" if "cover A (unat x) = 0" "unat x \<notin> vm_bytes (mem s) (pgdir s)" for x
    using gr(7) [of x] that by simp
  have lf: "vm_leaf (mem s') (pgdir s) v = (if same_path 4 va v then Some (3, p) else vm_leaf (mem s) (pgdir s) v)" for v
    using mp(3) [of v] lf0 by simp
  have kern: "mem s' x = mem s x" if "unat x \<in> kernel_bytes K H" for x
  proof (rule same [OF heap_uncovered [OF mm_invD(1) [OF inv] that]])
    show "unat x \<notin> vm_bytes (mem s) (pgdir s)"
      using that mm_invD(5,6) [OF inv, of "unat x"] by (auto simp: kernel_bytes_def)
  qed
  have c1: "cover A x \<le> 1" for x using mm_invD(9) [OF inv] by (simp add: pm_rel_def)
  have f_out: "x \<notin> heap_bytes K H" "unat (kernel_end K) \<le> x" if "in_block 4096 ?f x" for x
    using f(3) [OF that] heap_uncovered [OF mm_invD(1) [OF inv], of x] cover_above_kernel [OF mm_invD(9) [OF inv], of x]
    by (auto simp: kernel_bytes_def)
  have mt: "memtotal s' = memtotal s" using vm_grows_same [OF mp(1)] by simp
  have hr: "heap_rel K s' A' H"
  proof (rule heap_under [OF mm_invD(1) [OF inv] _ _ mt gr(4)])
    show "pm_rel K s' A'" "pm_aligned A'" using gr(1) by (simp_all add: vm_inv_def)
    show "mem s' x = mem s x" if "slab_in H i q" "in_block 24 (sl_entry q) (unat x)" for i q x
      by (rule kern [OF record_in_kernel [OF mm_invD(1) [OF inv] that]])
  qed
  have old: "d = 3" "table_ok A' (pte_frame (load64 (mem s') q))" "kernel_end K \<le> pte_frame (load64 (mem s') q)"
    "\<And>x. in_block 4096 (pte_frame (load64 (mem s') q)) x \<Longrightarrow> x \<notin> vm_bytes (mem s') (pgdir s) \<and> x \<notin> heap_bytes K H"
    "pte_frame (load64 (mem s') q) \<noteq> ?f"
    if v: "user_va v" "vm_leaf (mem s) (pgdir s) v = Some (d, q)" for v d q
  proof -
    have e: "load64 (mem s') q = load64 (mem s) q" using lfk [OF v(2)] by simp
    note uk = user_okD [OF mm_invD(7) [OF inv] v] and ap = user_pages_apart [OF inv v]
    show "d = 3" "kernel_end K \<le> pte_frame (load64 (mem s') q)" using uk(1,3) e by simp_all
    show "table_ok A' (pte_frame (load64 (mem s') q))"
      using uk(2) gr(4) unfolding e table_ok_def by (metis le_zero_eq)
    show "x \<notin> vm_bytes (mem s') (pgdir s) \<and> x \<notin> heap_bytes K H"
      if "in_block 4096 (pte_frame (load64 (mem s') q)) x" for x
      using ap [of x] that bytes [of x] unfolding e by auto
    show "pte_frame (load64 (mem s') q) \<noteq> ?f"
    proof
      assume "pte_frame (load64 (mem s') q) = ?f"
      then have "in_block 4096 ?f (unat ?f)" "cover A (unat ?f) = 0"
        using ap(1) [of "unat ?f"] e by (simp_all add: in_block_def)
      with f(3) show False by fastforce
    qed
  qed
  have uf: "user_frame (mem s') (pgdir s) v = (if same_path 4 va v then Some ?f else user_frame (mem s) (pgdir s) v)" for v
    using lf [of v] lfk [of v] by (cases "vm_leaf (mem s) (pgdir s) v") (auto simp: user_frame_def)
  have fu: "unat (kernel_end K) \<le> unat ?f" using f_out(2) [of "unat ?f"] by (simp add: in_block_def)
  have new: "user_frame (mem s) (pgdir s) v \<noteq> Some ?f" if "user_va v" for v
  proof
    assume "user_frame (mem s) (pgdir s) v = Some ?f"
    then obtain d q where "vm_leaf (mem s) (pgdir s) v = Some (d, q)" "pte_frame (load64 (mem s) q) = ?f"
      by (auto simp: user_frame_def)
    with old(5) [OF that] lfk show False by metis
  qed
  have uo: "user_ok K (mem s') (pgdir s) A' H"
    unfolding user_ok_def
  proof (intro conjI allI impI)
    fix v d q x
    assume v: "user_va v" and l: "vm_leaf (mem s') (pgdir s) v = Some (d, q)"
    show "d = 3" "table_ok A' (pte_frame (load64 (mem s') q))" "kernel_end K \<le> pte_frame (load64 (mem s') q)"
      using l lf [of v] old(1-3) [OF v] f(1) fu by (auto simp: word_le_nat_alt split: if_splits)
    assume x: "in_block 4096 (pte_frame (load64 (mem s') q)) x"
    show "x \<notin> vm_bytes (mem s') (pgdir s)" "x \<notin> heap_bytes K H"
      using l lf [of v] old(4) [OF v _ x] f(4) [of x] f_out(1) [of x] x by (auto split: if_splits)
  next
    fix v v' g
    assume v: "user_va v" "user_va v'" and g: "user_frame (mem s') (pgdir s) v = Some g" "user_frame (mem s') (pgdir s) v' = Some g"
    show "same_path 4 v v'"
      using g uf [of v] uf [of v'] new [OF v(1)] new [OF v(2)] same_path_trans [of 4 va v v'] mm_invD(7) [OF inv] v
      unfolding user_ok_def by (auto split: if_splits)
  qed
  have tb: "unat (kernel_end K) \<le> x \<and> x \<notin> heap_bytes K H" if "x \<in> vm_bytes (mem s') (pgdir s)" for x
    using bytes [OF that] mm_invD(5,6) [OF inv, of x] heap_uncovered [OF mm_invD(1) [OF inv], of x]
      cover_above_kernel [OF mm_invD(9) [OF inv], of x]
    by (auto simp: kernel_bytes_def)
  have inv': "mm_inv K s' A' H"
    using hr gr(1) c3 r mt mm_invD(4) [OF inv] tb uo by (simp add: mm_inv_def fuel_ok_def)
  have tr: "translate m (cr3 s') v = map_option (\<lambda>(d, p). leaf_addr d (load64 m p) v) (vm_leaf m (pgdir s) v)" for m v
    using mm_translate [OF inv'] r by simp
  have trva: "translate (mem s') (cr3 s') v = Some (?f OR v AND 0xFFF)" if "same_path 4 va v" for v
    using lf [of v] that by (simp add: tr leaf_addr_def)
  have trold: "translate (mem s') (cr3 s') v = translate (mem s) (cr3 s) v" if "\<not> same_path 4 va v" for v
    using lf [of v] lfk [of v] that
    by (cases "vm_leaf (mem s) (pgdir s) v") (auto simp: tr mm_translate [OF inv])
  have none': "translate (mem s) (cr3 s) v = None" if "same_path 4 va v" for v
  proof (rule ccontr)
    assume "translate (mem s) (cr3 s) v \<noteq> None"
    then obtain d q where "vm_leaf (mem s) (pgdir s) v = Some (d, q)" unfolding mm_translate [OF inv] by auto
    with vm_leaf_same_page [OF this that] lf0 show False by simp
  qed
  have view: "uview s' v = uview s v" if v: "user_va v" for v
  proof (cases "same_path 4 va v")
    case True
    have "in_block 4096 ?f (unat (?f OR v AND 0xFFF))"
      by (rule page_offset_in) (use f(1) in \<open>simp_all add: table_ok_def\<close>)
    then show ?thesis using f(2) trva [OF True] none' [OF True] by (simp add: uview_def)
  next
    case False
    have "mem s' pa = mem s pa" if "translate (mem s) (cr3 s) v = Some pa" for pa
      by (rule user_pa [OF inv v that]) (use same in blast)
    then show ?thesis unfolding uview_def trold [OF False] by (simp split: option.splits)
  qed
  have st: "\<exists>out. s' = s\<lparr>mem := mem s', pmmap := pmmap s', cr2 := va, console := out\<rparr>"
    by (rule exI [of _ out], rule ssubst [OF gr(2)]) simp
  have sp: "same_path 4 va va" by (simp add: same_path_def)
  have la: "leaf_addr 3 (load64 (mem s') p) va = ?f OR va AND 0xFFF" by (simp add: leaf_addr_def)
  show thesis
  proof (rule that [OF run inv' _ _ _ _ pg st _ gr(5)])
    show "translate (mem s') (cr3 s') va = Some (leaf_addr 3 (load64 (mem s') p) va)" using trva [OF sp] la by simp
    have "translate (mem s') (cr3 s') v \<noteq> None" if "translate (mem s) (cr3 s) v \<noteq> None" for v
      using that trold [of v] none' [of v] by (cases "same_path 4 va v") auto
    then show "\<forall>v. translate (mem s) (cr3 s) v \<noteq> None \<longrightarrow> translate (mem s') (cr3 s') v \<noteq> None" by blast
    show "\<forall>v. same_path 4 va v \<longrightarrow> translate (mem s') (cr3 s') v \<noteq> None" using trva by simp
  qed (use view kern in blast)+
qed

end
