(* ===== verification/UserMem.thy ===== *)
theory UserMem
  imports KernelMem
begin

text \<open>
  User memory as a client sees it: an array of bytes that is zero at first.  Loads and stores through
  the page tables, with the page faults they cause, act on this array and on nothing else.
\<close>

section \<open>Pages still to be mapped\<close>

definition unmapped :: "kstate \<Rightarrow> uint64 set \<Rightarrow> nat set" where
  "unmapped s S = (\<lambda>v. unat v div 4096) ` {v \<in> S. user_va v \<and> translate (mem s) (cr3 s) v = None}"

definition user_room :: "kstate \<Rightarrow> pm_abs \<Rightarrow> uint64 set \<Rightarrow> bool" where
  "user_room s A S \<longleftrightarrow> 4 * card (unmapped s S) \<le> pm_pages A"

lemma finite_unmapped [simp]: "finite (unmapped s S)"
  by (simp add: unmapped_def)

text \<open>What accesses to user memory leave as it is.\<close>

definition user_run :: "klayout \<Rightarrow> heap_abs \<Rightarrow> uint64 set \<Rightarrow> kstate \<Rightarrow> pm_abs \<Rightarrow> kstate \<Rightarrow> pm_abs \<Rightarrow> bool" where
  "user_run K H S s A s' A' \<longleftrightarrow> mm_inv K s' A' H \<and>
     (\<forall>x. unat x \<in> kernel_bytes K H \<longrightarrow> mem s' x = mem s x) \<and>
     (user_room s A S \<longrightarrow> user_room s' A' S) \<and>
     big_left A + 4 * card (unmapped s' S) \<le> big_left A' + 4 * card (unmapped s S) \<and>
     (\<exists>c out. s' = s\<lparr>mem := mem s', pmmap := pmmap s', cr2 := c, console := out\<rparr>)"

lemma user_runD:
  assumes "user_run K H S s A s' A'"
  shows "mm_inv K s' A' H" and "unat x \<in> kernel_bytes K H \<Longrightarrow> mem s' x = mem s x"
    and "user_room s A S \<Longrightarrow> user_room s' A' S"
    and "big_left A + 4 * card (unmapped s' S) \<le> big_left A' + 4 * card (unmapped s S)"
    and "\<exists>c out. s' = s\<lparr>mem := mem s', pmmap := pmmap s', cr2 := c, console := out\<rparr>"
  using assms unfolding user_run_def by blast+

lemma user_run_refl: "mm_inv K s A H \<Longrightarrow> user_run K H S s A s A"
  unfolding user_run_def by (cases s) auto

lemma user_state_trans:
  assumes "\<exists>c out. s1 = s\<lparr>mem := mem s1, pmmap := pmmap s1, cr2 := c, console := out\<rparr>"
    and "\<exists>c out. s2 = s1\<lparr>mem := mem s2, pmmap := pmmap s2, cr2 := c, console := out\<rparr>"
  shows "\<exists>c out. s2 = s\<lparr>mem := mem s2, pmmap := pmmap s2, cr2 := c, console := out\<rparr>"
  using assms by (cases s; cases s1; cases s2) auto

lemma user_run_trans:
  assumes 1: "user_run K H S s A s1 A1" and 2: "user_run K H S s1 A1 s2 A2"
  shows "user_run K H S s A s2 A2"
  unfolding user_run_def
proof (intro conjI allI impI)
  show "\<exists>c out. s2 = s\<lparr>mem := mem s2, pmmap := pmmap s2, cr2 := c, console := out\<rparr>"
    by (rule user_state_trans [OF user_runD(5) [OF 1] user_runD(5) [OF 2]])
  show "mem s2 x = mem s x" if "unat x \<in> kernel_bytes K H" for x
    using user_runD(2) [OF 1 that] user_runD(2) [OF 2 that] by simp
qed (use user_runD(1,3,4) [OF 1] user_runD(1,3,4) [OF 2] in auto)

lemma same_page_path:
  assumes "unat va div 4096 = unat v div 4096"
  shows "same_path 4 va v"
proof -
  have unat_bit: "bit (unat w) n = bit w n" for w :: uint64 and n
    by transfer (simp add: bit_nat_iff take_bit_nat_eq bit_take_bit_iff)
  have b: "bit va i = bit v i" if "12 \<le> i" for i
  proof -
    have "bit (drop_bit 12 (unat va)) (i - 12) = bit (drop_bit 12 (unat v)) (i - 12)"
      using assms by (simp add: drop_bit_eq_div)
    then show ?thesis using that by (simp add: bit_drop_bit_eq unat_bit)
  qed
  show ?thesis unfolding same_path_def
  proof (intro allI impI)
    fix d :: nat assume "d < 4"
    then show "pt_idx d va = pt_idx d v"
      by (intro bit_eqI) (auto simp: bit_pt_idx b)
  qed
qed

section \<open>Single accesses\<close>

lemma user_va_start: "user_va va \<Longrightarrow> \<not> va < USER_ADDR_START"
  by (simp add: user_va_def not_less)

text \<open>The address is translated, after a page fault where the page is missing.\<close>

lemma mm_user_addr:
  assumes inv: "mm_inv K s A H" and va: "user_va va" and room: "user_room s A S" and S: "va \<in> S"
  obtains pa s' A' where "user_addr K va s = Inr (pa, s')" and "user_run K H S s A s' A'"
    and "translate (mem s') (cr3 s') va = Some pa" and "\<forall>v. user_va v \<longrightarrow> uview s' v = uview s v"
proof (cases "translate (mem s) (cr3 s) va")
  case (Some pa)
  then show thesis using that [of pa s A] user_run_refl [OF inv] user_va_start [OF va] by (simp add: user_addr_def)
next
  case None
  have mis: "unat va div 4096 \<in> unmapped s S" using None va S by (auto simp: unmapped_def)
  then have "0 < card (unmapped s S)" by (auto simp: card_gt_0_iff)
  then have pages: "4 \<le> pm_pages A" using room unfolding user_room_def by linarith
  obtain pa s' A' where f: "user_addr K va s = Inr (pa, s')" "mm_inv K s' A' H"
    "translate (mem s') (cr3 s') va = Some pa" "\<forall>v. user_va v \<longrightarrow> uview s' v = uview s v"
    "\<forall>v. translate (mem s) (cr3 s) v \<noteq> None \<longrightarrow> translate (mem s') (cr3 s') v \<noteq> None"
    "\<forall>x. unat x \<in> kernel_bytes K H \<longrightarrow> mem s' x = mem s x" "pm_pages A \<le> 4 + pm_pages A'"
    "\<exists>out. s' = s\<lparr>mem := mem s', pmmap := pmmap s', cr2 := va, console := out\<rparr>"
    "\<forall>v. same_path 4 va v \<longrightarrow> translate (mem s') (cr3 s') v \<noteq> None" "blocks_kept A A'"
    by (rule mm_fault [OF inv pages va None])
  have "unmapped s' S \<subseteq> unmapped s S - {unat va div 4096}"
  proof
    fix n assume "n \<in> unmapped s' S"
    then obtain v where v: "v \<in> S" "user_va v" "translate (mem s') (cr3 s') v = None" "n = unat v div 4096"
      by (auto simp: unmapped_def)
    from v(3) f(5) have "translate (mem s) (cr3 s) v = None" by metis
    then have "n \<in> unmapped s S" using v by (auto simp: unmapped_def)
    moreover have "n \<noteq> unat va div 4096" using v(3,4) f(9) same_page_path [of va v] by metis
    ultimately show "n \<in> unmapped s S - {unat va div 4096}" by simp
  qed
  then have "card (unmapped s' S) \<le> card (unmapped s S - {unat va div 4096})" by (intro card_mono) simp_all
  then have less: "Suc (card (unmapped s' S)) \<le> card (unmapped s S)"
    using card_Suc_Diff1 [OF finite_unmapped mis] by simp
  then have "user_room s' A' S" using room f(7) by (simp add: user_room_def)
  moreover have "big_left A + 4 * card (unmapped s' S) \<le> big_left A' + 4 * card (unmapped s S)"
    using less f(7,10) by (simp add: blocks_kept_def)
  ultimately have run: "user_run K H S s A s' A'"
    unfolding user_run_def using f(2,6,8) by blast
  show thesis by (rule that [OF f(1) run f(3,4)])
qed

lemma mm_vload:
  assumes inv: "mm_inv K s A H" and va: "user_va va" and room: "user_room s A S" and S: "va \<in> S"
  obtains s' A' where "vload8 K va s = Inr (uview s va, s')" and "user_run K H S s A s' A'"
    and "\<forall>v. user_va v \<longrightarrow> uview s' v = uview s v"
proof -
  obtain pa s' A' where a: "user_addr K va s = Inr (pa, s')" "user_run K H S s A s' A'"
    "translate (mem s') (cr3 s') va = Some pa" "\<forall>v. user_va v \<longrightarrow> uview s' v = uview s v"
    by (rule mm_user_addr [OF inv va room S])
  have "vload8 K va s = Inr (uview s va, s')"
    using a(1,3) a(4) [rule_format, OF va, symmetric] by (simp add: vload8_def load8_def uview_def)
  then show thesis using a(2,4) by (rule that)
qed

text \<open>A byte written to a mapped user page.\<close>

lemma mm_user_write:
  fixes b :: uint8
  assumes inv: "mm_inv K s A H" and va: "user_va va" and tr: "translate (mem s) (cr3 s) va = Some pa"
  defines "s' \<equiv> s\<lparr>mem := store8 (mem s) pa b\<rparr>"
  shows "mm_inv K s' A H" and "user_va v \<Longrightarrow> uview s' v = (if v = va then b else uview s v)"
    and "unat x \<in> kernel_bytes K H \<Longrightarrow> mem s' x = mem s x"
    and "user_va v \<Longrightarrow> translate (mem s') (cr3 s') v = translate (mem s) (cr3 s) v"
proof -
  obtain p where p: "cover A (unat pa) = 0" "unat pa \<notin> vm_bytes (mem s) (pgdir s)" "unat pa \<notin> heap_bytes K H"
    "unat (kernel_end K) \<le> unat pa" by (rule user_pa [OF inv va tr])
  have st: "mem s' x = (if x = pa then b else mem s x)" for x by (simp add: s'_def store8_def)
  have tree: "mem s' x = mem s x" if "unat x \<in> vm_bytes (mem s) (pgdir s)" for x using that p(2) st by auto
  show kern: "mem s' x = mem s x" if "unat x \<in> kernel_bytes K H" for x
    using that p(3,4) st by (auto simp: kernel_bytes_def)
  show "mm_inv K s' A H"
  proof (rule mm_frame [OF inv])
    show "mem s' x = mem s x" if "cover A (unat x) \<noteq> 0" for x using that p(1) st by auto
    show "mem s' x = mem s x" if "slab_in H i r" "in_block 24 (sl_entry r) (unat x)" for i r x
      by (rule kern [OF record_in_kernel [OF mm_invD(1) [OF inv] that]])
  qed (use tree in \<open>simp_all add: s'_def\<close>)
  have c3: "cr3 s' = cr3 s" by (simp add: s'_def)
  show tv: "translate (mem s') (cr3 s') v = translate (mem s) (cr3 s) v" if v: "user_va v" for v
  proof -
    note ok = mm_invD(8) [OF inv]
    have lf: "vm_leaf (mem s') (pgdir s) v = vm_leaf (mem s) (pgdir s) v" by (rule tree_frame_leaf [OF ok tree])
    have "load64 (mem s') q = load64 (mem s) q" if "vm_leaf (mem s) (pgdir s) v = Some (d, q)" for d q
      by (rule tree_frame_leaf_load [OF ok tree that])
    then show ?thesis unfolding c3 mm_translate [OF inv] lf by (auto intro!: map_option_cong)
  qed
  show "uview s' v = (if v = va then b else uview s v)" if v: "user_va v" for v
  proof (cases "translate (mem s) (cr3 s) v")
    case None
    with tr show ?thesis unfolding uview_def tv [OF v] by auto
  next
    case (Some pa')
    then have "pa' = pa \<longleftrightarrow> v = va" using user_translate_inj [OF inv v va] tr by auto
    with Some show ?thesis unfolding uview_def tv [OF v] by (simp add: st)
  qed
qed

lemma mm_vstore:
  assumes inv: "mm_inv K s A H" and va: "user_va va" and room: "user_room s A S" and S: "va \<in> S"
  obtains s' A' where "vstore8 K va b s = Inr s'" and "user_run K H S s A s' A'"
    and "\<forall>v. user_va v \<longrightarrow> uview s' v = (if v = va then b else uview s v)"
proof -
  obtain pa s1 A' where a: "user_addr K va s = Inr (pa, s1)" "user_run K H S s A s1 A'"
    "translate (mem s1) (cr3 s1) va = Some pa" "\<forall>v. user_va v \<longrightarrow> uview s1 v = uview s v"
    by (rule mm_user_addr [OF inv va room S])
  let ?s = "s1\<lparr>mem := store8 (mem s1) pa b\<rparr>"
  note w = mm_user_write [OF user_runD(1) [OF a(2)] va a(3), where b = b]
  have "unmapped ?s S = unmapped s1 S" unfolding unmapped_def using w(4) by auto
  then have "user_room s1 A' S \<longrightarrow> user_room ?s A' S" and "card (unmapped ?s S) = card (unmapped s1 S)"
    by (simp_all add: user_room_def)
  moreover have "\<exists>c out. ?s = s1\<lparr>mem := mem ?s, pmmap := pmmap ?s, cr2 := c, console := out\<rparr>" by (cases s1) auto
  ultimately have "user_run K H S s1 A' ?s A'" unfolding user_run_def using w(1,3) by simp
  then have "user_run K H S s A ?s A'" by (rule user_run_trans [OF a(2)])
  moreover have "vstore8 K va b s = Inr ?s" using a(1) by (simp add: vstore8_def)
  moreover have "uview ?s v = (if v = va then b else uview s v)" if "user_va v" for v
    using w(2) [OF that] a(4) that by simp
  ultimately show thesis using that by blast
qed

section \<open>Writes by the kernel\<close>

text \<open>A change in kernel memory that leaves the records of the heap alone.\<close>

lemma mm_kernel_write:
  assumes inv: "mm_inv K s A H"
    and same: "pmmap s' = pmmap s" "memtotal s' = memtotal s" "pgdir s' = pgdir s" "cr3 s' = cr3 s"
    and out: "\<forall>x. mem s' x \<noteq> mem s x \<longrightarrow> unat x \<in> kernel_bytes K H \<and>
      (\<forall>i r. slab_in H i r \<longrightarrow> \<not> in_block 24 (sl_entry r) (unat x))"
  shows "mm_inv K s' A H" and "user_va va \<Longrightarrow> uview s' va = uview s va" and "unmapped s' S = unmapped s S"
    and "user_va va \<Longrightarrow> translate (mem s') (cr3 s') va = translate (mem s) (cr3 s) va"
proof -
  note rel = mm_invD(1) [OF inv]
  have keep: "mem s' x = mem s x" if "unat x \<notin> kernel_bytes K H" for x using out that by blast
  have tree: "mem s' x = mem s x" if "unat x \<in> vm_bytes (mem s) (pgdir s)" for x
    by (rule keep) (use mm_invD(5,6) [OF inv that] in \<open>simp add: kernel_bytes_def\<close>)
  show "mm_inv K s' A H"
  proof (rule mm_frame [OF inv same])
    show "mem s' x = mem s x" if "cover A (unat x) \<noteq> 0" for x
      by (rule keep) (use that heap_uncovered [OF rel, of "unat x"] in auto)
    show "mem s' x = mem s x" if "slab_in H i r" "in_block 24 (sl_entry r) (unat x)" for i r x
      using out that by blast
  qed (use tree in simp)
  have pg: "mem s' pa = mem s pa" if "user_va va" "translate (mem s) (cr3 s) va = Some pa" for va pa
    by (rule user_pa [OF inv that]) (use keep in \<open>simp add: kernel_bytes_def\<close>)
  show "user_va va \<Longrightarrow> uview s' va = uview s va" by (rule uview_frame(2) [OF inv _ same(4) tree pg])
  have tr: "translate (mem s') (cr3 s) va = translate (mem s) (cr3 s) va" if "user_va va" for va
    by (rule uview_frame(1) [OF inv that same(4) tree pg [OF that]])
  then show "unmapped s' S = unmapped s S" unfolding unmapped_def same(4) by auto
  show "user_va va \<Longrightarrow> translate (mem s') (cr3 s') va = translate (mem s) (cr3 s) va" unfolding same(4) by (rule tr)
qed

lemma object_is_kernel:
  assumes "heap_rel K s A H" and "(a, n) \<in> live H" and "in_block n a x"
  shows "x \<in> kernel_bytes K H \<and> (\<forall>i r. slab_in H i r \<longrightarrow> \<not> in_block 24 (sl_entry r) x)"
  using live_uncovered(2) [OF assms] live_not_record [OF assms(1,2) _ assms(3)] by (auto simp: kernel_bytes_def)

lemma image_is_kernel:
  assumes "heap_rel K s A H" and "x < unat (kernel_end K)" and "\<not> in_block 336 (slabs_at K) x"
  shows "x \<in> kernel_bytes K H \<and> (\<forall>i r. slab_in H i r \<longrightarrow> \<not> in_block 24 (sl_entry r) x)"
  using record_in_heap [OF assms(1)] heap_bytes_above [OF assms(1)] assms(2,3) by (fastforce simp: kernel_bytes_def)

text \<open>A change inside an object by its owner.\<close>

lemma mm_object_write:
  assumes inv: "mm_inv K s A H" and l: "(a, n) \<in> live H"
    and same: "pmmap s' = pmmap s" "memtotal s' = memtotal s" "pgdir s' = pgdir s" "cr3 s' = cr3 s"
    and out: "\<forall>x. \<not> in_block n a (unat x) \<longrightarrow> mem s' x = mem s x"
  shows "mm_inv K s' A H" and "user_va va \<Longrightarrow> uview s' va = uview s va" and "unmapped s' S = unmapped s S"
    and "user_va va \<Longrightarrow> translate (mem s') (cr3 s') va = translate (mem s) (cr3 s) va"
proof -
  have "\<forall>x. mem s' x \<noteq> mem s x \<longrightarrow> unat x \<in> kernel_bytes K H \<and>
      (\<forall>i r. slab_in H i r \<longrightarrow> \<not> in_block 24 (sl_entry r) (unat x))"
    using out object_is_kernel [OF mm_invD(1) [OF inv] l] by blast
  note w = mm_kernel_write [OF inv same this]
  show "mm_inv K s' A H" and "user_va va \<Longrightarrow> uview s' va = uview s va" and "unmapped s' S = unmapped s S"
    and "user_va va \<Longrightarrow> translate (mem s') (cr3 s') va = translate (mem s) (cr3 s) va"
    by (rule w, assumption?)+
qed

section \<open>Ranges of user memory\<close>

definition urange :: "uint64 \<Rightarrow> nat \<Rightarrow> uint64 set" where
  "urange dst n = {v. unat (v - dst) < n}"

lemma urange_Suc: "n < 2 ^ 64 \<Longrightarrow> urange dst (Suc n) = insert dst (urange (dst + 1) n)"
proof -
  assume n: "n < 2 ^ 64"
  have "unat (v - dst) < Suc n \<longleftrightarrow> v = dst \<or> unat (v - (dst + 1)) < n" for v
  proof (cases "v = dst")
    case False
    then have "v - dst \<noteq> 0" by simp
    then have "unat (v - dst - 1) = unat (v - dst) - 1" "0 < unat (v - dst)"
      by (rule unat_minus_one) (use \<open>v - dst \<noteq> 0\<close> in \<open>simp add: unat_gt_0\<close>)
    then have "unat (v - dst) = Suc (unat (v - dst - 1))" by linarith
    moreover have "v - dst - 1 = v - (dst + 1)" by simp
    ultimately show ?thesis using False by (simp only: Suc_less_eq simp_thms)
  qed simp
  then show ?thesis by (auto simp: urange_def)
qed

lemma urange_0 [simp]: "urange dst 0 = {}"
  by (simp add: urange_def)

lemma range_pages:
  assumes "unat dst + n \<le> 2 ^ 64"
  shows "card (unmapped s (urange dst n)) \<le> n div 4096 + 2"
proof -
  have "unmapped s (urange dst n) \<subseteq> {unat dst div 4096 .. unat dst div 4096 + (n div 4096 + 1)}"
  proof
    fix k assume "k \<in> unmapped s (urange dst n)"
    then obtain v where v: "unat (v - dst) < n" "k = unat v div 4096" by (auto simp: unmapped_def urange_def)
    have "unat (dst + of_nat (unat (v - dst))) = unat dst + unat (v - dst)"
      by (rule unat_add_no_wrap) (use v(1) assms in simp)
    then have "unat v = unat dst + unat (v - dst)" by simp
    with v show "k \<in> {unat dst div 4096 .. unat dst div 4096 + (n div 4096 + 1)}" by simp linarith
  qed
  then have "card (unmapped s (urange dst n)) \<le> card {unat dst div 4096 .. unat dst div 4096 + (n div 4096 + 1)}"
    by (intro card_mono) simp_all
  then show ?thesis by simp
qed

lemma range_room:
  assumes "unat dst + n \<le> 2 ^ 64" and "4 * (n div 4096 + 2) \<le> pm_pages A"
  shows "user_room s A (urange dst n)"
  using range_pages [OF assms(1), of s] assms(2) by (simp add: user_room_def)

text \<open>\<^verbatim>\<open>memcpy\<close> from the kernel to the user.\<close>

lemma mm_vmemcpy:
  assumes "mm_inv K s A H" and "user_room s A S" and "urange dst n \<subseteq> S" and "\<forall>v \<in> urange dst n. user_va v"
    and "\<forall>x \<in> urange src n. unat x \<in> kernel_bytes K H" and "n \<le> 2 ^ 64"
  shows "\<exists>s' A'. vmemcpy K dst src n s = Inr s' \<and> user_run K H S s A s' A' \<and>
    (\<forall>v. user_va v \<longrightarrow> uview s' v = (if v \<in> urange dst n then mem s (src + (v - dst)) else uview s v))"
  using assms
proof (induction n arbitrary: dst src s A)
  case 0
  then have "user_run K H S s A s A" by (intro user_run_refl)
  then show ?case by auto
next
  case (Suc n)
  have n: "n < 2 ^ 64" using Suc.prems(6) by simp
  note rng = urange_Suc [OF n]
  have va: "user_va dst" and S: "dst \<in> S" using Suc.prems(3,4) rng by auto
  obtain s1 A1 where 1: "vstore8 K dst (mem s src) s = Inr s1" "user_run K H S s A s1 A1"
    "\<forall>v. user_va v \<longrightarrow> uview s1 v = (if v = dst then mem s src else uview s v)"
    by (rule mm_vstore [OF Suc.prems(1) va Suc.prems(2) S])
  have "\<exists>s' A'. vmemcpy K (dst + 1) (src + 1) n s1 = Inr s' \<and> user_run K H S s1 A1 s' A' \<and>
    (\<forall>v. user_va v \<longrightarrow> uview s' v = (if v \<in> urange (dst + 1) n then mem s1 (src + 1 + (v - (dst + 1))) else uview s1 v))"
    by (rule Suc.IH) (use Suc.prems rng user_runD(1,3) [OF 1(2)] n in \<open>auto simp: urange_Suc\<close>)
  then obtain s' A' where 2: "vmemcpy K (dst + 1) (src + 1) n s1 = Inr s'" "user_run K H S s1 A1 s' A'"
    "\<forall>v. user_va v \<longrightarrow> uview s' v = (if v \<in> urange (dst + 1) n then mem s1 (src + 1 + (v - (dst + 1))) else uview s1 v)"
    by blast
  have "uview s' v = (if v \<in> urange dst (Suc n) then mem s (src + (v - dst)) else uview s v)" if v: "user_va v" for v
  proof (cases "v \<in> urange (dst + 1) n")
    case True
    have off: "src + 1 + (v - (dst + 1)) = src + (v - dst)" by simp
    have "v \<in> urange dst (Suc n)" using True rng by simp
    then have "src + (v - dst) \<in> urange src (Suc n)" by (simp add: urange_def)
    then have "mem s1 (src + (v - dst)) = mem s (src + (v - dst))" using user_runD(2) [OF 1(2)] Suc.prems(5) by blast
    with True 2(3) v rng off show ?thesis by auto
  next
    case False
    with 1(3) 2(3) v rng show ?thesis by auto
  qed
  moreover have "vmemcpy K dst src (Suc n) s = Inr s'" using 1(1) 2(1) by (simp add: load8_def)
  ultimately show ?case using user_run_trans [OF 1(2) 2(2)] by blast
qed

end
