(* ===== verification/MmInit.thy ===== *)
theory MmInit
  imports UserMem Kernel
begin

text \<open>
  Memory management as \<^verbatim>\<open>mm_init\<close> of \<^verbatim>\<open>mm/init.c\<close> starts it: the page allocator, the page tables built
  from its pages and the heap built from its blocks hold together in one state.
\<close>

section \<open>The end of allocatable memory\<close>

lemma scan_table_result:
  assumes "scan_table m table body is = Some r"
  shows "\<exists>e. body e = Some r"
  using assms by (induction "is") (auto simp: Let_def split: if_splits option.splits)

lemma page_mask_aligned:
  assumes "12 \<le> n"
  shows "4096 dvd unat (e AND (BIT64_MASK w AND NOT (BIT64_MASK n)))"
proof -
  let ?x = "e AND (BIT64_MASK w AND NOT (BIT64_MASK n))"
  have "take_bit 12 ?x = 0"
    by (rule bit_eqI) (use assms in \<open>auto simp: bit_simps BIT64_MASK_eq\<close>)
  then have "take_bit 12 (unat ?x) = 0" by (metis unsigned_take_bit_eq unsigned_0)
  then show ?thesis by (simp add: take_bit_eq_mod mod_eq_0_iff_dvd)
qed

lemma allocatable_max_aligned:
  "4096 dvd unat (find_allocatable_max m pml4 (BIT64_MASK w AND NOT (BIT64_MASK 12)) (BIT64_MASK w AND NOT (BIT64_MASK 21)))"
    (is "4096 dvd unat (find_allocatable_max m pml4 ?a ?b)")
proof -
  have al: "4096 dvd unat (e AND ?a)" "4096 dvd unat (e AND ?b)" for e
    by (rule page_mask_aligned, simp)+
  show ?thesis
    unfolding find_allocatable_max_def
    by (auto split: option.splits if_splits dest!: scan_table_result simp: al)
qed

section \<open>The composition\<close>

lemma vm_slab_ready:
  assumes rel: "pm_rel K s A" and al: "pm_aligned A" and big: "23 \<le> big_left A"
    and mt: "unat (memtotal s) \<le> phys_limit" and lay: "heap_layout K" and fu: "fuel_ok K s"
  obtains s1 s2 A' H where "vm_init K s = Inr s1" and "slab_init_loop K [0..<SLAB_NUM] s1 = Inr s2"
    and "mm_inv K s2 A' H" and "live H = {}" and "big_left A \<le> big_left A' + 23"
    and "\<forall>va < 0x100000000. translate (mem s2) (cr3 s2) va = Some va"
    and "\<forall>va. user_va va \<longrightarrow> uview s2 va = 0"
    and "\<forall>x. cover A (unat x) = 0 \<longrightarrow> \<not> in_block 336 (slabs_at K) (unat x) \<longrightarrow> mem s2 x = mem s x"
    and "memtotal s2 = memtotal s"
proof -
  have "9 \<le> pm_pages A" using big by (simp add: pm_pages_def big_left_def)
  from vm_init_spec [OF rel al this mt] obtain s1 A1 where v: "vm_init K s = Inr s1" "vm_inv K s1 A1"
    "cr3 s1 = pgdir s1" "pm_pages A \<le> 9 + pm_pages A1"
    "\<forall>va < 0x100000000. translate (mem s1) (cr3 s1) va = Some va"
    "\<forall>x. cover A (unat x) = 0 \<longrightarrow> mem s1 x = mem s x" "blocks_kept A A1" "\<forall>x. cover A1 x \<le> cover A x"
    "\<forall>x \<in> vm_bytes (mem s1) (pgdir s1). cover A x = 1" "memtotal s1 = memtotal s"
    "\<forall>va. user_va va \<longrightarrow> vm_leaf (mem s1) (pgdir s1) va = None"
    by (elim exE conjE) (rule that)
  have inv: "pm_rel K s1 A1" "pm_aligned A1" "vm_ok (mem s1) (pgdir s1) A1" "unat (memtotal s1) \<le> phys_limit"
    using v(2) by (simp_all add: vm_inv_def)
  have bl: "big_left A \<le> big_left A1 + 9" using v(4,7) by (simp add: blocks_kept_def)
  then have "14 \<le> big_left A1" using big by simp
  then obtain s2 A2 H where
    h: "slab_init_loop K [0..<SLAB_NUM] s1 = Inr s2" "heap_rel K s2 A2 H" "live H = {}"
    "big_left A1 \<le> big_left A2 + 14" "s2 = s1\<lparr>mem := mem s2, pmmap := pmmap s2\<rparr>"
    "\<forall>x. cover A1 (unat x) = 0 \<longrightarrow> \<not> in_block 336 (slabs_at K) (unat x) \<longrightarrow> mem s2 x = mem s1 x"
    "\<forall>i<14. \<exists>r. H ! i = [r] \<and> sl_bits r = 0" "\<forall>x. cover A2 x \<le> cover A1 x"
    "\<forall>x \<in> heap_bytes K H. in_block 336 (slabs_at K) x \<or> cover A1 x = 1"
    by (rule slab_init_heap [OF inv(1,2) lay])
  have same: "pgdir s2 = pgdir s1" "cr3 s2 = cr3 s1" "memtotal s2 = memtotal s1" by (subst h(5), simp)+
  have tab0: "cover A1 x = 0" if "x \<in> vm_bytes (mem s1) (pgdir s1)" for x
    using that vm_okD(1) [OF inv(3)] unfolding vm_bytes_def table_ok_def by blast
  have above: "unat (kernel_end K) \<le> x" if "x \<in> vm_bytes (mem s1) (pgdir s1)" for x
    using cover_above_kernel [OF rel] v(9) that by blast
  then have head: "\<not> in_block 336 (slabs_at K) x" if "x \<in> vm_bytes (mem s1) (pgdir s1)" for x
    using that lay by (fastforce simp: heap_layout_def in_block_def)
  have tree: "mem s2 x = mem s1 x" if "unat x \<in> vm_bytes (mem s1) (pgdir s1)" for x
    using h(6) tab0 [OF that] head [OF that] by blast
  have unc: "cover A2 x = 0" if "x \<in> vm_bytes (mem s1) (pgdir s1)" for x
    using h(8) tab0 [OF that] by (metis le_zero_eq)
  have ok: "vm_ok (mem s2) (pgdir s1) A2" by (rule tree_frame_ok [OF inv(3) tree unc])
  have tb: "vm_bytes (mem s2) (pgdir s1) = vm_bytes (mem s1) (pgdir s1)" by (rule tree_frame_bytes [OF inv(3) tree])
  have lf: "vm_leaf (mem s2) (pgdir s1) va = vm_leaf (mem s1) (pgdir s1) va" for va
    by (rule tree_frame_leaf [OF inv(3) tree])
  have nol: "vm_leaf (mem s2) (pgdir s1) va = None" if "user_va va" for va using lf v(11) that by simp
  have "user_ok K (mem s2) (pgdir s1) A2 H"
    unfolding user_ok_def by (auto simp: nol user_frame_def)
  moreover have "x \<notin> heap_bytes K H" if "x \<in> vm_bytes (mem s1) (pgdir s1)" for x
    using h(9) tab0 [OF that] head [OF that] by auto
  moreover have "fuel_ok K s2" using fu same(3) v(10) by (simp add: fuel_ok_def)
  moreover have "vm_inv K s2 A2" using h(2) ok inv(4) same by (simp add: vm_inv_def heap_rel_def)
  ultimately have mi: "mm_inv K s2 A2 H" using h(2) above v(3) same tb by (simp add: mm_inv_def)
  have root: "pte_frame (pgdir s1) = pgdir s1" by (rule table_frame [OF vm_inv_root [OF v(2)]])
  have tr: "translate (mem s2) (cr3 s2) va = translate (mem s1) (cr3 s1) va" for va
  proof (cases "vm_leaf (mem s1) (pgdir s1) va")
    case None
    then show ?thesis using lf [of va] v(3) same by (simp add: translate_leaf root)
  next
    case (Some dp)
    obtain d p where dp: "dp = (d, p)" by (cases dp)
    have "load64 (mem s2) p = load64 (mem s1) p" using Some dp by (intro tree_frame_leaf_load [OF inv(3) tree]) simp_all
    then show ?thesis using lf [of va] Some dp v(3) same by (simp add: translate_leaf root)
  qed
  have "uview s2 va = 0" if "user_va va" for va
    by (rule uview_unmapped) (use nol [OF that] mm_translate [OF mi] same in simp)
  moreover have "mem s2 x = mem s x" if "cover A (unat x) = 0" "\<not> in_block 336 (slabs_at K) (unat x)" for x
  proof -
    have "cover A1 (unat x) = 0" using v(8) that(1) by (metis le_zero_eq)
    with h(6) that v(6) show ?thesis by simp
  qed
  ultimately show thesis using that [OF v(1) h(1) mi h(3)] bl h(4) v(5,10) same(3) tr by simp
qed

text \<open>
  C6.  With a physical-address width the shift macros support, 16 MiB or more of writable memory above
  the kernel, memory that page-table entries can address, and the array of slabs inside the kernel,
  \<^verbatim>\<open>mm_init\<close> reaches the self test of the heap in a state that satisfies the joint invariant of memory
  management: the page allocator, the tree of page tables, loaded in the processor and mapping
  every address below 4 GiB to itself, and the heap are sound and share no byte.  The heap holds no
  object, user memory reads as zero, at least nine blocks of 512 KiB are left, and the memory below the
  end of the kernel is as before except for the array of slabs.  What \<^verbatim>\<open>mm_init\<close> does is then what the
  self test does from that state.
\<close>

theorem mm_init_ready:
  fixes K :: klayout and s :: kstate
  defines "w \<equiv> unat (cpuid_out K 0x80000008 CPUID_EAX AND 0xFF)"
  defines "m12 \<equiv> BIT64_MASK w AND NOT (BIT64_MASK 12)" and "m21 \<equiv> BIT64_MASK w AND NOT (BIT64_MASK 21)"
  defines "amax \<equiv> find_allocatable_max (mem s) (cr3 s AND m12) m12 m21"
  assumes "w < 64" and "pmmap s = [NULL, NULL, NULL]" and "heap_layout K"
    and "unat (kernel_end K) + 67108864 < 18446744073709551616"
    and "unat (kernel_end K) + 16777216 \<le> unat amax" and "amax \<le> memtotal s"
    and "unat (memtotal s) \<le> phys_limit" and "unat (memtotal s) div 4096 < loop_fuel K"
  shows "\<exists>s' A H. mm_init K s = slab_tests K s' \<and> mm_inv K s' A H \<and> live H = {} \<and> 9 \<le> big_left A \<and>
    (\<forall>va. user_va va \<longrightarrow> uview s' va = 0) \<and> (\<forall>va < 0x100000000. translate (mem s') (cr3 s') va = Some va) \<and>
    (\<forall>x. unat x < unat (kernel_end K) \<longrightarrow> \<not> in_block 336 (slabs_at K) (unat x) \<longrightarrow> mem s' x = mem s x)"
proof -
  let ?eax = "cpuid_out K 0x80000008 CPUID_EAX"
  have "kernel_end K \<noteq> NULL" using assms(7) by (auto simp: heap_layout_def)
  moreover have "kernel_end K \<le> amax" using assms(9) by (simp add: word_le_nat_alt)
  ultimately obtain s1 A lo where p: "pm_init K ?eax s = Inr s1" "pm_rel K s1 A"
    "unat (kernel_end K) \<le> lo" "\<forall>x. cover A x = of_bool (lo \<le> x \<and> x < unat amax)"
    "\<forall>x. \<not> (lo \<le> unat x \<and> unat x < unat amax) \<longrightarrow> mem s1 x = mem s x"
    "4096 dvd unat amax \<longrightarrow> (\<forall>j<3. \<forall>a \<in> set (A ! j). 4096 dvd unat a)"
    "(unat amax - unat (kernel_end K)) div 524288 = length (A ! 1) + 128 * length (A ! 2)"
    "\<exists>out. s1 = s\<lparr>mem := mem s1, pmmap := pmmap s1, console := out\<rparr>"
    using pm_init_spec [of ?eax s K] assms(5,6,8,10,12) unfolding assms(1-4) by blast
  have "4096 dvd unat amax" unfolding amax_def m12_def m21_def by (rule allocatable_max_aligned)
  with p(6) have al: "pm_aligned A" by (simp add: pm_aligned_def)
  have "32 \<le> (unat amax - unat (kernel_end K)) div 524288"
    using assms(9) div_le_mono [of 16777216 "unat amax - unat (kernel_end K)" 524288] by simp
  with p(7) have big32: "32 \<le> big_left A" by (simp add: big_left_def)
  then have big: "23 \<le> big_left A" by simp
  from p(8) have mt: "memtotal s1 = memtotal s" by (elim exE) (erule ssubst, simp)
  with assms(11) have lim: "unat (memtotal s1) \<le> phys_limit" by simp
  have fu: "fuel_ok K s1" using assms(12) mt by (simp add: fuel_ok_def)
  obtain s2 s3 A' H where
    r: "vm_init K s1 = Inr s2" "slab_init_loop K [0..<SLAB_NUM] s2 = Inr s3" "mm_inv K s3 A' H" "live H = {}"
    "big_left A \<le> big_left A' + 23" "\<forall>va < 0x100000000. translate (mem s3) (cr3 s3) va = Some va"
    "\<forall>va. user_va va \<longrightarrow> uview s3 va = 0"
    "\<forall>x. cover A (unat x) = 0 \<longrightarrow> \<not> in_block 336 (slabs_at K) (unat x) \<longrightarrow> mem s3 x = mem s1 x"
    by (rule vm_slab_ready [OF p(2) al big lim assms(7) fu])
  have "cpuid K 0x80000008 CPUID_EAX s = Inr (?eax, s)" by (simp add: cpuid_def CPUID_EAX_def)
  then have "mm_init K s = slab_tests K s3"
    using p(1) r(1,2) by (simp add: mm_init_def slab_init_def)
  moreover have "mem s3 x = mem s x"
    if x: "unat x < unat (kernel_end K)" "\<not> in_block 336 (slabs_at K) (unat x)" for x
  proof -
    have "mem s3 x = mem s1 x" using r(8) x p(3,4) by auto
    also have "\<dots> = mem s x" using p(3,5) x(1) by simp
    finally show ?thesis .
  qed
  moreover have "9 \<le> big_left A'" using r(5) big32 by simp
  ultimately show ?thesis using r(3,4,6,7) by blast
qed


theorem mm_init_ready_witness:
  "\<exists>s' A H. mm_init (demo_layout\<lparr>cpuid_out := \<lambda>_ _. 40\<rparr>) boot_state = slab_tests (demo_layout\<lparr>cpuid_out := \<lambda>_ _. 40\<rparr>) s' \<and>
    mm_inv (demo_layout\<lparr>cpuid_out := \<lambda>_ _. 40\<rparr>) s' A H \<and> live H = {} \<and>
    translate (mem s') (cr3 s') 0xFEE00000 = Some 0xFEE00000"
proof -
  let ?K = "demo_layout\<lparr>cpuid_out := \<lambda>_ _. 40\<rparr>"
  let ?w = "unat (cpuid_out ?K 0x80000008 CPUID_EAX AND 0xFF)"
  have amax: "find_allocatable_max (mem boot_state)
      (cr3 boot_state AND (BIT64_MASK ?w AND NOT (BIT64_MASK 12)))
      (BIT64_MASK ?w AND NOT (BIT64_MASK 12)) (BIT64_MASK ?w AND NOT (BIT64_MASK 21)) = 0x8000000"
    using boot_allocatable_max by (simp add: BIT64_MASK_def boot_state_def demo_state_def)
  have "?w < 64" and "pmmap boot_state = [NULL, NULL, NULL]" and "heap_layout ?K"
    and "unat (kernel_end ?K) + 67108864 < 18446744073709551616"
    and "unat (kernel_end ?K) + 16777216 \<le> unat (0x8000000 :: uint64)" and "0x8000000 \<le> memtotal boot_state"
    and "unat (memtotal boot_state) \<le> phys_limit" and "unat (memtotal boot_state) div 4096 < loop_fuel ?K"
    by (simp_all add: boot_state_def demo_state_def demo_layout_def heap_layout_def)
  note boot = this
  from mm_init_ready [of ?K boot_state, unfolded amax, OF boot] obtain s' A H where
    "mm_init ?K boot_state = slab_tests ?K s'" "mm_inv ?K s' A H" "live H = {}"
    "\<forall>va < 0x100000000. translate (mem s') (cr3 s') va = Some va"
    by (elim exE conjE) (rule that)
  then show ?thesis by (intro exI [of _ s'] exI [of _ A] exI [of _ H]) simp
qed

section \<open>A machine to evaluate on\<close>

lemma demo_mm_layout:
  fixes D :: device and L :: "string \<Rightarrow> uint64"
  defines "K \<equiv> demo_layout\<lparr>port_dev := D, local_at := L\<rparr>"
  obtains s A H where "mm_inv K s A H" and "live H = {}" and "105 \<le> big_left A"
    and "\<forall>va. user_va va \<longrightarrow> uview s va = 0"
    and "\<forall>x. unat x < 0x200000 \<longrightarrow> \<not> in_block 336 0x1F0000 (unat x) \<longrightarrow> mem s x = 0" and "memtotal s = 0x20000000"
proof -
  let ?A = "[[], [], [0x4000000]]"
  have pre: "23 \<le> big_left ?A" "unat (memtotal demo_state) \<le> phys_limit" "heap_layout K" "fuel_ok K demo_state"
    by (simp_all add: K_def big_left_def demo_state_def demo_layout_def heap_layout_def fuel_ok_def)
  have rel: "pm_rel K demo_state ?A" using demo_pm_rel by (simp add: K_def pm_rel_def block_ok_def)
  then obtain s1 s2 A H where s: "mm_inv K s2 A H" "live H = {}" "big_left ?A \<le> big_left A + 23"
    "\<forall>va. user_va va \<longrightarrow> uview s2 va = 0" "memtotal s2 = memtotal demo_state"
    "\<forall>x. cover ?A (unat x) = 0 \<longrightarrow> \<not> in_block 336 (slabs_at K) (unat x) \<longrightarrow> mem s2 x = mem demo_state x"
    by (rule vm_slab_ready [OF _ demo_aligned(1) pre])
  have "mem s2 x = 0" if x: "unat x < 0x200000" "\<not> in_block 336 0x1F0000 (unat x)" for x
  proof -
    have "cover ?A (unat x) = 0"
      using cover_below_kernel [OF rel, of "unat x"] x(1) by (simp add: K_def demo_layout_def)
    with s(6) x(2) show ?thesis by (simp add: K_def demo_state_def demo_layout_def)
  qed
  moreover have "big_left ?A = 128" "memtotal demo_state = 0x20000000" by (simp_all add: big_left_def demo_state_def)
  ultimately show thesis using that [of s2 A H] s(1-5) by simp
qed

lemma demo_mm_dev:
  fixes D :: device
  defines "K \<equiv> demo_layout\<lparr>port_dev := D\<rparr>"
  obtains s A H where "mm_inv K s A H" and "live H = {}" and "105 \<le> big_left A"
    and "\<forall>va. user_va va \<longrightarrow> uview s va = 0"
proof -
  have K: "demo_layout\<lparr>port_dev := D, local_at := local_at demo_layout\<rparr> = K" by (simp add: K_def)
  show thesis by (rule demo_mm_layout [where D = D and L = "local_at demo_layout", unfolded K]) (rule that)
qed

lemma demo_mm:
  obtains s A H where "mm_inv demo_layout s A H" and "live H = {}" and "105 \<le> big_left A"
    and "\<forall>va. user_va va \<longrightarrow> uview s va = 0"
proof -
  have "demo_layout\<lparr>port_dev := port_dev demo_layout\<rparr> = demo_layout" by simp
  with demo_mm_dev [of "port_dev demo_layout"] that show thesis by metis
qed

end
