(* ===== verification/MemClient.thy ===== *)
theory MemClient
  imports MmInit
begin

text \<open>
  What memory management is for.  A client that allocates, releases, reads and writes heap objects and
  user memory, in any order, sees independent arrays of bytes: one for each object, zero when it is
  handed out, and one for user memory.
\<close>

section \<open>User memory as an array\<close>

datatype ('a, 'v) access = Rd 'a | Wr 'a 'v

primrec access_at :: "('a, 'v) access \<Rightarrow> 'a" where
  "access_at (Rd a) = a"
| "access_at (Wr a v) = a"

primrec accesses ::
    "('a \<Rightarrow> 's \<Rightarrow> ('v \<times> 's) kres) \<Rightarrow> ('a \<Rightarrow> 'v \<Rightarrow> 's \<Rightarrow> 's kres) \<Rightarrow> ('a, 'v) access list \<Rightarrow> 's \<Rightarrow> ('v list \<times> 's) kres" where
  "accesses load store [] s = Inr ([], s)"
| "accesses load store (x # xs) s =
     (case x of
        Rd a \<Rightarrow> ebind (load a s) (\<lambda>(v, s). ebind (accesses load store xs s) (\<lambda>(vs, s). Inr (v # vs, s)))
      | Wr a v \<Rightarrow> ebind (store a v s) (\<lambda>s. accesses load store xs s))"

primrec array_reads :: "('a, 'v) access list \<Rightarrow> ('a \<Rightarrow> 'v) \<Rightarrow> 'v list" where
  "array_reads [] u = []"
| "array_reads (x # xs) u = (case x of Rd a \<Rightarrow> u a # array_reads xs u | Wr a v \<Rightarrow> array_reads xs (u(a := v)))"

primrec array_final :: "('a, 'v) access list \<Rightarrow> ('a \<Rightarrow> 'v) \<Rightarrow> 'a \<Rightarrow> 'v" where
  "array_final [] u = u"
| "array_final (x # xs) u = (case x of Rd a \<Rightarrow> array_final xs u | Wr a v \<Rightarrow> array_final xs (u(a := v)))"

text \<open>The contract of a memory that is accessed through a state, and what follows for sequences.\<close>

locale array_memory =
  fixes inv :: "'s \<Rightarrow> bool" and valid :: "'a \<Rightarrow> bool" and view :: "'s \<Rightarrow> 'a \<Rightarrow> 'v"
    and load :: "'a \<Rightarrow> 's \<Rightarrow> ('v \<times> 's) kres" and store :: "'a \<Rightarrow> 'v \<Rightarrow> 's \<Rightarrow> 's kres" and kept :: "'s \<Rightarrow> 's \<Rightarrow> bool"
  assumes load_ok: "inv s \<Longrightarrow> valid a \<Longrightarrow>
      \<exists>s'. load a s = Inr (view s a, s') \<and> inv s' \<and> kept s s' \<and> (\<forall>b. valid b \<longrightarrow> view s' b = view s b)"
    and store_ok: "inv s \<Longrightarrow> valid a \<Longrightarrow>
      \<exists>s'. store a v s = Inr s' \<and> inv s' \<and> kept s s' \<and> (\<forall>b. valid b \<longrightarrow> view s' b = ((view s)(a := v)) b)"
    and kept_refl: "kept s s"
    and kept_trans: "kept s s1 \<Longrightarrow> kept s1 s2 \<Longrightarrow> kept s s2"
begin

lemma array_cong:
  assumes "\<And>x. x \<in> set xs \<Longrightarrow> valid (access_at x)" and "\<And>b. valid b \<Longrightarrow> u b = u' b"
  shows "array_reads xs u = array_reads xs u'" and "valid b \<Longrightarrow> array_final xs u b = array_final xs u' b"
proof -
  have "array_reads xs u = array_reads xs u' \<and> (\<forall>b. valid b \<longrightarrow> array_final xs u b = array_final xs u' b)"
    using assms
  proof (induction xs arbitrary: u u')
    case (Cons x xs)
    have "array_reads xs (u(a := v)) = array_reads xs (u'(a := v)) \<and>
        (\<forall>b. valid b \<longrightarrow> array_final xs (u(a := v)) b = array_final xs (u'(a := v)) b)" for a v
      by (rule Cons.IH) (use Cons.prems in simp_all)
    moreover have "array_reads xs u = array_reads xs u' \<and> (\<forall>b. valid b \<longrightarrow> array_final xs u b = array_final xs u' b)"
      by (rule Cons.IH) (use Cons.prems in simp_all)
    moreover have "valid (access_at x)" using Cons.prems(1) by simp
    ultimately show ?case using Cons.prems(2) by (cases x) simp_all
  qed simp
  then show "array_reads xs u = array_reads xs u'" and "valid b \<Longrightarrow> array_final xs u b = array_final xs u' b" by simp_all
qed

lemma accesses_ok:
  assumes "inv s" and "\<And>x. x \<in> set xs \<Longrightarrow> valid (access_at x)"
  shows "\<exists>s'. accesses load store xs s = Inr (array_reads xs (view s), s') \<and> inv s' \<and> kept s s' \<and>
    (\<forall>b. valid b \<longrightarrow> view s' b = array_final xs (view s) b)"
  using assms
proof (induction xs arbitrary: s)
  case Nil
  then show ?case using kept_refl by simp
next
  case (Cons x xs)
  have rest: "\<And>y. y \<in> set xs \<Longrightarrow> valid (access_at y)" using Cons.prems(2) by simp
  have later: "\<exists>s2. accesses load store xs s1 = Inr (array_reads xs u, s2) \<and> inv s2 \<and> kept s s2 \<and>
      (\<forall>b. valid b \<longrightarrow> view s2 b = array_final xs u b)"
    if i1: "inv s1" and k1: "kept s s1" and v1: "\<forall>b. valid b \<longrightarrow> view s1 b = u b" for s1 u
  proof -
    obtain s2 where s2: "accesses load store xs s1 = Inr (array_reads xs (view s1), s2)" "inv s2" "kept s1 s2"
      "\<forall>b. valid b \<longrightarrow> view s2 b = array_final xs (view s1) b"
      using Cons.IH [OF i1 rest] by blast
    have "array_reads xs (view s1) = array_reads xs u" by (rule array_cong(1) [OF rest]) (use v1 in blast)+
    moreover have "array_final xs (view s1) b = array_final xs u b" if b: "valid b" for b
      by (rule array_cong(2) [OF rest _ b]) (use v1 in blast)+
    ultimately show ?thesis using s2 kept_trans [OF k1 s2(3)] by auto
  qed
  have v: "valid (access_at x)" using Cons.prems(2) by simp
  show ?case
  proof (cases x)
    case (Rd a)
    obtain s1 where s1: "load a s = Inr (view s a, s1)" "inv s1" "kept s s1" "\<forall>b. valid b \<longrightarrow> view s1 b = view s b"
      using load_ok [OF Cons.prems(1), of a] v Rd by auto
    show ?thesis using later [OF s1(2-4)] s1(1) Rd by auto
  next
    case (Wr a v)
    obtain s1 where s1: "store a v s = Inr s1" "inv s1" "kept s s1" "\<forall>b. valid b \<longrightarrow> view s1 b = ((view s)(a := v)) b"
      using store_ok [OF Cons.prems(1), of a v] \<open>valid (access_at x)\<close> Wr by auto
    show ?thesis using later [OF s1(2,3), of "(view s)(a := v)"] s1(1,4) Wr by simp
  qed
qed

end

definition user_inv :: "klayout \<Rightarrow> heap_abs \<Rightarrow> uint64 set \<Rightarrow> kstate \<Rightarrow> bool" where
  "user_inv K H S s \<longleftrightarrow> (\<exists>A. mm_inv K s A H \<and> user_room s A S)"

definition kernel_kept :: "klayout \<Rightarrow> heap_abs \<Rightarrow> kstate \<Rightarrow> kstate \<Rightarrow> bool" where
  "kernel_kept K H s s' \<longleftrightarrow> (\<forall>x. unat x \<in> kernel_bytes K H \<longrightarrow> mem s' x = mem s x)"

interpretation umem: array_memory "user_inv K H S" "\<lambda>va. user_va va \<and> va \<in> S" uview "vload8 K" "vstore8 K" "kernel_kept K H"
  for K H S
proof unfold_locales
  fix s and va :: uint64 and b :: uint8
  assume "user_inv K H S s" and va: "user_va va \<and> va \<in> S"
  then obtain A where inv: "mm_inv K s A H" and room: "user_room s A S" by (auto simp: user_inv_def)
  have run: "user_inv K H S s' \<and> kernel_kept K H s s'" if "user_run K H S s A s' A'" for s' A'
    using user_runD(1-3) [OF that] room by (auto simp: user_inv_def kernel_kept_def)
  from va have va: "user_va va" "va \<in> S" by simp_all
  show "\<exists>s'. vload8 K va s = Inr (uview s va, s') \<and> user_inv K H S s' \<and> kernel_kept K H s s' \<and>
      (\<forall>b. user_va b \<and> b \<in> S \<longrightarrow> uview s' b = uview s b)"
    by (rule mm_vload [OF inv va(1) room va(2)]) (use run in blast)
  obtain s' A' where "vstore8 K va b s = Inr s'" "user_run K H S s A s' A'"
    "\<forall>v. user_va v \<longrightarrow> uview s' v = (if v = va then b else uview s v)"
    by (rule mm_vstore [OF inv va(1) room va(2)])
  then show "\<exists>s'. vstore8 K va b s = Inr s' \<and> user_inv K H S s' \<and> kernel_kept K H s s' \<and>
      (\<forall>c. user_va c \<and> c \<in> S \<longrightarrow> uview s' c = ((uview s)(va := b)) c)"
    using run by auto
qed (simp_all add: kernel_kept_def)

text \<open>
  Demand paging cannot be observed.  When memory management is sound and enough pages are left for
  the addresses a program uses, a sequence of loads and stores at user addresses runs without a panic and
  reads exactly what the same sequence reads from an array, also where it touches pages that were not mapped;
  afterwards user memory is that array, memory management is sound, and
  the kernel's image and every byte of its heap are as before.
\<close>

theorem user_memory_array:
  assumes "mm_inv K s A H" and "user_room s A S" and "\<forall>x \<in> set xs. user_va (access_at x) \<and> access_at x \<in> S"
  shows "\<exists>s' A'. accesses (vload8 K) (vstore8 K) xs s = Inr (array_reads xs (uview s), s') \<and>
    mm_inv K s' A' H \<and> (\<forall>va \<in> S. user_va va \<longrightarrow> uview s' va = array_final xs (uview s) va) \<and>
    (\<forall>x. unat x \<in> kernel_bytes K H \<longrightarrow> mem s' x = mem s x)"
proof -
  have "user_inv K H S s" using assms(1,2) by (auto simp: user_inv_def)
  from umem.accesses_ok [OF this, of xs] assms(3) show ?thesis
    by (auto simp: user_inv_def kernel_kept_def)
qed

section \<open>Heap objects and user memory together\<close>

datatype mm_op = KAlloc uint64 | KFree nat | KGet nat nat | KSet nat nat uint8 | UGet uint64 | USet uint64 uint8

text \<open>
  A client keeps the objects it was given in a list and names them by position.  One operation: the
  bytes it reads, the new state and the new list.
\<close>

definition drop_at :: "nat \<Rightarrow> 'a list \<Rightarrow> 'a list" where
  "drop_at i xs = take i xs @ drop (Suc i) xs"

primrec mm_do :: "klayout \<Rightarrow> mm_op \<Rightarrow> kstate \<times> uint64 list \<Rightarrow> (uint8 list \<times> kstate \<times> uint64 list) kres" where
  "mm_do K (KAlloc n) st = ebind (kmalloc K n (fst st)) (\<lambda>(a, s). Inr ([], s, snd st @ [a]))"
| "mm_do K (KFree i) st = ebind (kmfree K (snd st ! i) (fst st)) (\<lambda>s. Inr ([], s, drop_at i (snd st)))"
| "mm_do K (KGet i j) st = Inr ([load8 (mem (fst st)) (snd st ! i + of_nat j)], st)"
| "mm_do K (KSet i j b) st =
     Inr ([], (fst st)\<lparr>mem := store8 (mem (fst st)) (snd st ! i + of_nat j) b\<rparr>, snd st)"
| "mm_do K (UGet va) st = ebind (vload8 K va (fst st)) (\<lambda>(b, s). Inr ([b], s, snd st))"
| "mm_do K (USet va b) st = ebind (vstore8 K va b (fst st)) (\<lambda>s. Inr ([], s, snd st))"

primrec mm_run :: "klayout \<Rightarrow> mm_op list \<Rightarrow> kstate \<times> uint64 list \<Rightarrow> (uint8 list \<times> kstate \<times> uint64 list) kres" where
  "mm_run K [] st = Inr ([], st)"
| "mm_run K (x # xs) st =
     ebind (mm_do K x st) (\<lambda>(out, st). ebind (mm_run K xs st) (\<lambda>(out', st). Inr (out @ out', st)))"

text \<open>The specification: the contents of every object and of user memory.\<close>

type_synonym mm_spec = "uint8 list list \<times> (uint64 \<Rightarrow> uint8)"

primrec spec_ok :: "mm_op \<Rightarrow> mm_spec \<Rightarrow> bool" where
  "spec_ok (KAlloc n) c \<longleftrightarrow> n \<le> 4096"
| "spec_ok (KFree i) c \<longleftrightarrow> i < length (fst c)"
| "spec_ok (KGet i j) c \<longleftrightarrow> i < length (fst c) \<and> j < length (fst c ! i)"
| "spec_ok (KSet i j b) c \<longleftrightarrow> i < length (fst c) \<and> j < length (fst c ! i)"
| "spec_ok (UGet va) c \<longleftrightarrow> user_va va"
| "spec_ok (USet va b) c \<longleftrightarrow> user_va va"

primrec spec_out :: "mm_op \<Rightarrow> mm_spec \<Rightarrow> uint8 list" where
  "spec_out (KAlloc n) c = []"
| "spec_out (KFree i) c = []"
| "spec_out (KGet i j) c = [fst c ! i ! j]"
| "spec_out (KSet i j b) c = []"
| "spec_out (UGet va) c = [snd c va]"
| "spec_out (USet va b) c = []"

primrec spec_do :: "mm_op \<Rightarrow> mm_spec \<Rightarrow> mm_spec" where
  "spec_do (KAlloc n) c = (fst c @ [replicate (unat n) 0], snd c)"
| "spec_do (KFree i) c = (drop_at i (fst c), snd c)"
| "spec_do (KGet i j) c = c"
| "spec_do (KSet i j b) c = ((fst c)[i := (fst c ! i)[j := b]], snd c)"
| "spec_do (UGet va) c = c"
| "spec_do (USet va b) c = (fst c, (snd c)(va := b))"

primrec spec_run_ok :: "mm_op list \<Rightarrow> mm_spec \<Rightarrow> bool" where
  "spec_run_ok [] c \<longleftrightarrow> True"
| "spec_run_ok (x # xs) c \<longleftrightarrow> spec_ok x c \<and> spec_run_ok xs (spec_do x c)"

primrec spec_outs :: "mm_op list \<Rightarrow> mm_spec \<Rightarrow> uint8 list" where
  "spec_outs [] c = []"
| "spec_outs (x # xs) c = spec_out x c @ spec_outs xs (spec_do x c)"

text \<open>The abstraction relation.\<close>

definition holds_bytes :: "kstate \<Rightarrow> heap_abs \<Rightarrow> uint64 \<Rightarrow> uint8 list \<Rightarrow> bool" where
  "holds_bytes s H a bs \<longleftrightarrow> (\<exists>n \<le> 4096. (a, n) \<in> live H \<and> length bs \<le> n) \<and>
     (\<forall>j < length bs. mem s (a + of_nat j) = bs ! j)"

definition mm_refines :: "klayout \<Rightarrow> nat \<Rightarrow> kstate \<times> uint64 list \<Rightarrow> mm_spec \<Rightarrow> bool" where
  "mm_refines K k st c \<longleftrightarrow> (\<exists>A H. mm_inv K (fst st) A H \<and> k \<le> big_left A \<and> distinct (snd st) \<and>
     list_all2 (holds_bytes (fst st) H) (snd st) (fst c) \<and> (\<forall>va. user_va va \<longrightarrow> uview (fst st) va = snd c va))"

lemma class_small: "n \<le> 4096 \<Longrightarrow> slot_sz (class_of n) \<le> 4096"
  by (simp add: class_of_def size_to_slab_idx_def KiB_def slot_sz_def)

lemma holds_bytes_kept:
  assumes h: "holds_bytes s H a bs" and lv: "\<And>n. (a, n) \<in> live H \<Longrightarrow> (a, n) \<in> live H'"
    and rel: "heap_rel K s A H" and same: "\<And>n x. (a, n) \<in> live H \<Longrightarrow> in_block n a (unat x) \<Longrightarrow> mem s' x = mem s x"
  shows "holds_bytes s' H' a bs"
proof -
  obtain n where n: "n \<le> 4096" "(a, n) \<in> live H" "length bs \<le> n" "\<forall>j < length bs. mem s (a + of_nat j) = bs ! j"
    using h by (auto simp: holds_bytes_def)
  have "mem s' (a + of_nat j) = bs ! j" if "j < length bs" for j
  proof -
    have "unat (a + of_nat j) = unat a + j"
      by (rule unat_add_no_wrap) (use live_no_wrap(4) [OF rel n(2)] that n(3) in linarith)
    then have "in_block n a (unat (a + of_nat j))" using that n(3) by (simp add: in_block_def)
    with same [OF n(2)] n(4) that show ?thesis by simp
  qed
  with n(1,3) lv [OF n(2)] show ?thesis unfolding holds_bytes_def by blast
qed

lemma object_byte:
  assumes rel: "heap_rel K s A H" and h: "holds_bytes s H a bs" and j: "j < length bs"
  obtains n where "(a, n) \<in> live H" and "in_block n a (unat (a + of_nat j))" and "n \<le> 4096"
proof -
  obtain n where n: "n \<le> 4096" "(a, n) \<in> live H" "length bs \<le> n" using h by (auto simp: holds_bytes_def)
  have "unat (a + of_nat j) = unat a + j"
    by (rule unat_add_no_wrap) (use live_no_wrap(4) [OF rel n(2)] j n(3) in linarith)
  with n j show thesis using that [of n] by (simp add: in_block_def)
qed

lemma drop_at_distinct:
  assumes "distinct xs" and "i < length xs"
  shows "distinct (drop_at i xs)" and "set (drop_at i xs) = set xs - {xs ! i}"
proof -
  note xs = id_take_nth_drop [OF assms(2)]
  have "distinct (take i xs @ xs ! i # drop (Suc i) xs)" using assms(1) xs by simp
  then show "distinct (drop_at i xs)" by (auto simp: drop_at_def)
  have "set xs = set (take i xs @ xs ! i # drop (Suc i) xs)" using xs by simp
  with \<open>distinct (take i xs @ xs ! i # drop (Suc i) xs)\<close> show "set (drop_at i xs) = set xs - {xs ! i}"
    by (auto simp: drop_at_def)
qed

lemma drop_at_all2: "list_all2 P xs ys \<Longrightarrow> list_all2 P (drop_at i xs) (drop_at i ys)"
  by (simp add: drop_at_def list_all2_appendI)

lemma live_pos: "(a, n) \<in> live H \<Longrightarrow> 0 < n"
  by (auto elim!: liveE simp: slot_sz_def)

lemma granted_fresh:
  assumes "heap_grant K s A H a n s' A' H'" and "0 < n"
  shows "(a, m) \<notin> live H"
proof
  assume l: "(a, m) \<in> live H"
  have "in_block n a (unat a)" "in_block m a (unat a)" using assms(2) live_pos [OF l] by (simp_all add: in_block_def)
  with assms(1) l show False unfolding heap_grant_def by blast
qed

lemma alloc_refines:
  assumes r: "mm_refines K (k + 4) st c" and n: "n \<le> 4096"
  shows "\<exists>st'. mm_do K (KAlloc n) st = Inr ([], st') \<and> mm_refines K k st' (spec_do (KAlloc n) c)"
proof -
  obtain s objs where st: "st = (s, objs)" by (cases st)
  from r obtain A H where inv: "mm_inv K s A H" and big: "k + 4 \<le> big_left A" and dis: "distinct objs"
    and ob: "list_all2 (holds_bytes s H) objs (fst c)" and us: "\<forall>va. user_va va \<longrightarrow> uview s va = snd c va"
    by (auto simp: mm_refines_def st)
  note rel = mm_invD(1) [OF inv]
  have big_sz: "n \<le> 524288" using n by (simp add: word_le_nat_alt)
  show ?thesis
  proof (rule mm_kmalloc [OF inv big_sz])
    assume "big_left A < 2"
    with big show ?thesis by simp
  next
    let ?n = "slot_sz (class_of n)"
    fix a s' A' H'
    assume k: "kmalloc K n s = Inr (a, s')" and g: "heap_grant K s A H a ?n s' A' H'"
      and b: "big_left A \<le> big_left A' + 2" and inv': "mm_inv K s' A' H'"
      and uv: "\<forall>va. user_va va \<longrightarrow> uview s' va = uview s va"
    have lv: "live H' = insert (a, ?n) (live H)" and zero: "\<forall>x. in_block ?n a (unat x) \<longrightarrow> mem s' x = 0"
      and apart: "\<forall>a' n' x. (a', n') \<in> live H \<longrightarrow> \<not> (in_block ?n a x \<and> in_block n' a' x)"
      and same: "\<forall>a n x. (a, n) \<in> live H \<longrightarrow> in_block n a (unat x) \<longrightarrow> mem s' x = mem s x"
      using g unfolding heap_grant_def heap_step_def by blast+
    have new: "a' \<noteq> a" if "(a', n') \<in> live H" for a' n'
    proof
      assume "a' = a"
      with that live_pos [OF that] have "in_block n' a' (unat a)" "in_block ?n a (unat a)" by (simp_all add: in_block_def slot_sz_def)
      with apart that show False by blast
    qed
    have all: "holds_bytes s' H' a' bs" if "holds_bytes s H a' bs" for a' bs
      by (rule holds_bytes_kept [OF that _ rel]) (use lv same in auto)
    have "distinct (objs @ [a])"
      using dis new ob by (auto simp: holds_bytes_def list_all2_conv_all_nth in_set_conv_nth) metis
    moreover have "holds_bytes s' H' a (replicate (unat n) 0)"
    proof -
      have len: "unat n \<le> ?n" by (rule class_room [OF big_sz])
      have al: "(a, ?n) \<in> live H'" using lv by simp
      have "mem s' (a + of_nat j) = 0" if "j < unat n" for j
      proof -
        have "unat (a + of_nat j) = unat a + j"
          by (rule unat_add_no_wrap) (use live_no_wrap(4) [OF mm_invD(1) [OF inv'] al] that len in linarith)
        then show ?thesis using zero that len by (simp add: in_block_def)
      qed
      then show ?thesis unfolding holds_bytes_def using al class_small [OF n] len by auto
    qed
    ultimately have "mm_refines K k (s', objs @ [a]) (spec_do (KAlloc n) c)"
      unfolding mm_refines_def
      using inv' big b us uv list.rel_mono_strong [OF ob all]
      by (intro exI [of _ A'] exI [of _ H']) (auto intro!: list_all2_appendI)
    with k show ?thesis by (simp add: st)
  qed
qed

lemma free_refines:
  assumes r: "mm_refines K k st c" and i: "i < length (fst c)"
  shows "\<exists>st'. mm_do K (KFree i) st = Inr ([], st') \<and> mm_refines K k st' (spec_do (KFree i) c)"
proof -
  obtain s objs where st: "st = (s, objs)" by (cases st)
  from r obtain A H where inv: "mm_inv K s A H" and big: "k \<le> big_left A" and dis: "distinct objs"
    and ob: "list_all2 (holds_bytes s H) objs (fst c)" and us: "\<forall>va. user_va va \<longrightarrow> uview s va = snd c va"
    by (auto simp: mm_refines_def st)
  note rel = mm_invD(1) [OF inv]
  have io: "i < length objs" using i list_all2_lengthD [OF ob] by simp
  have "holds_bytes s H (objs ! i) (fst c ! i)" by (rule list_all2_nthD [OF ob io])
  then obtain n where n: "n \<le> 4096" "(objs ! i, n) \<in> live H" by (auto simp: holds_bytes_def)
  obtain s' A' H' where f: "kmfree K (objs ! i) s = Inr s'" "heap_freed K s A H s' A' H'"
    "live H' = live H - {(objs ! i, n)}" "mm_inv K s' A' H'" "\<forall>va. user_va va \<longrightarrow> uview s' va = uview s va"
    by (rule mm_kmfree [OF inv n(2) live_aligned [OF rel n(2,1)]])
  have same: "\<forall>a m x. (a, m) \<in> live H' \<longrightarrow> in_block m a (unat x) \<longrightarrow> mem s' x = mem s x" "big_left A \<le> big_left A'"
    using f(2) unfolding heap_freed_def by blast+
  have all: "holds_bytes s' H' a bs" if "a \<in> set (drop_at i objs)" "holds_bytes s H a bs" for a bs
  proof (rule holds_bytes_kept [OF that(2) _ rel])
    have ne: "a \<noteq> objs ! i" using that(1) drop_at_distinct(2) [OF dis io] by simp
    then show "(a, m) \<in> live H'" if "(a, m) \<in> live H" for m using that f(3) by simp
    then show "mem s' x = mem s x" if "(a, m) \<in> live H" "in_block m a (unat x)" for m x using that same(1) by blast
  qed
  have "list_all2 (holds_bytes s' H') (drop_at i objs) (drop_at i (fst c))"
    by (rule list.rel_mono_strong [OF drop_at_all2 [OF ob]]) (use all in blast)
  then have "mm_refines K k (s', drop_at i objs) (spec_do (KFree i) c)"
    unfolding mm_refines_def using f(4,5) big same(2) us drop_at_distinct(1) [OF dis io]
    by (intro exI [of _ A'] exI [of _ H']) auto
  with f(1) show ?thesis by (simp add: st)
qed

lemma set_refines:
  assumes r: "mm_refines K k st c" and i: "i < length (fst c)" and j: "j < length (fst c ! i)"
  shows "\<exists>st'. mm_do K (KSet i j b) st = Inr ([], st') \<and> mm_refines K k st' (spec_do (KSet i j b) c)"
proof -
  obtain s objs where st: "st = (s, objs)" by (cases st)
  from r obtain A H where inv: "mm_inv K s A H" and big: "k \<le> big_left A" and dis: "distinct objs"
    and ob: "list_all2 (holds_bytes s H) objs (fst c)" and us: "\<forall>va. user_va va \<longrightarrow> uview s va = snd c va"
    by (auto simp: mm_refines_def st)
  note rel = mm_invD(1) [OF inv]
  have len: "length objs = length (fst c)" by (rule list_all2_lengthD [OF ob])
  have hb: "holds_bytes s H (objs ! k) (fst c ! k)" if "k < length objs" for k by (rule list_all2_nthD [OF ob that])
  let ?a = "objs ! i" and ?m = "store8 (mem s) (objs ! i + of_nat j) b"
  have io: "i < length objs" using i len by simp
  obtain n where n: "(?a, n) \<in> live H" "in_block n ?a (unat (?a + of_nat j))" "n \<le> 4096"
    by (rule object_byte [OF rel hb [OF io] j])
  have out: "\<forall>x. \<not> in_block n ?a (unat x) \<longrightarrow> ?m x = mem s x" using n(2) by (auto simp: store8_def)
  have w: "mm_inv K (s\<lparr>mem := ?m\<rparr>) A H" "\<And>va. user_va va \<Longrightarrow> uview (s\<lparr>mem := ?m\<rparr>) va = uview s va"
    by (rule mm_object_write [OF inv n(1)]; use out in simp)+
  have "holds_bytes (s\<lparr>mem := ?m\<rparr>) H (objs ! q) ((fst c)[i := (fst c ! i)[j := b]] ! q)" if q: "q < length objs" for q
  proof (cases "q = i")
    case True
    have "?m (?a + of_nat l) = (fst c ! i)[j := b] ! l" if l: "l < length (fst c ! i)" for l
    proof -
      have "?a + of_nat l = ?a + of_nat j \<longleftrightarrow> l = j"
      proof -
        obtain n' where n': "(?a, n') \<in> live H" "length (fst c ! i) \<le> n'" using hb [OF io] by (auto simp: holds_bytes_def)
        have "unat (?a + of_nat l) = unat ?a + l" "unat (?a + of_nat j) = unat ?a + j"
          by (rule unat_add_no_wrap, use live_no_wrap(4) [OF rel n'(1)] l j n'(2) in linarith)+
        then show ?thesis by (metis add_left_cancel)
      qed
      moreover have "mem s (?a + of_nat l) = fst c ! i ! l" using hb [OF io] l by (simp add: holds_bytes_def)
      ultimately show ?thesis using l by (auto simp: store8_def nth_list_update)
    qed
    then show ?thesis using hb [OF io] True i by (simp add: holds_bytes_def)
  next
    case False
    then have ne: "objs ! q \<noteq> ?a" using dis q io by (simp add: nth_eq_iff_index_eq)
    have "holds_bytes (s\<lparr>mem := ?m\<rparr>) H (objs ! q) (fst c ! q)"
      by (rule holds_bytes_kept [OF hb [OF q] _ rel]) (use out live_apart [OF rel _ n(1) ne] in auto)
    then show ?thesis using False by simp
  qed
  then have "list_all2 (holds_bytes (s\<lparr>mem := ?m\<rparr>) H) objs ((fst c)[i := (fst c ! i)[j := b]])"
    using len by (simp add: list_all2_conv_all_nth)
  then have "mm_refines K k (s\<lparr>mem := ?m\<rparr>, objs) (spec_do (KSet i j b) c)"
    unfolding mm_refines_def using w big us dis by (intro exI [of _ A] exI [of _ H]) auto
  then show ?thesis by (simp add: st)
qed

text \<open>An access to user memory.\<close>

lemma one_page_room: "1 \<le> big_left A \<Longrightarrow> user_room s A {va}"
proof -
  assume big: "1 \<le> big_left A"
  have "unmapped s {va} \<subseteq> {unat va div 4096}" by (auto simp: unmapped_def)
  then have "card (unmapped s {va}) \<le> 1" using card_mono [of "{unat va div 4096}" "unmapped s {va}"] by simp
  moreover have "4 \<le> pm_pages A" using big by (simp add: pm_pages_def big_left_def)
  ultimately show ?thesis unfolding user_room_def by linarith
qed

lemma user_run_refines:
  assumes inv: "mm_inv K s A H" and big: "k + 4 \<le> big_left A"
    and ob: "list_all2 (holds_bytes s H) objs (fst c)" and dis: "distinct objs"
    and run: "user_run K H {va} s A s' A'" and us: "\<forall>v. user_va v \<longrightarrow> uview s' v = u v"
  shows "mm_refines K k (s', objs) (fst c, u)"
proof -
  note rel = mm_invD(1) [OF inv]
  have "card (unmapped s {va}) \<le> 1"
    using card_mono [of "{unat va div 4096}" "unmapped s {va}"] by (auto simp: unmapped_def)
  then have "k \<le> big_left A'" using user_runD(4) [OF run] big by linarith
  moreover have "holds_bytes s' H a bs" if "holds_bytes s H a bs" for a bs
  proof (rule holds_bytes_kept [OF that _ rel])
    show "mem s' x = mem s x" if "(a, n) \<in> live H" "in_block n a (unat x)" for n x
      by (rule user_runD(2) [OF run]) (use live_uncovered(2) [OF rel that] in \<open>simp add: kernel_bytes_def\<close>)
  qed
  then have "list_all2 (holds_bytes s' H) objs (fst c)" by (rule list.rel_mono_strong [OF ob])
  ultimately show ?thesis
    unfolding mm_refines_def using user_runD(1) [OF run] dis us by (intro exI [of _ A'] exI [of _ H]) simp
qed

lemma user_refines:
  assumes r: "mm_refines K (k + 4) st c" and va: "user_va va"
  shows "\<exists>st'. mm_do K (UGet va) st = Inr ([snd c va], st') \<and> mm_refines K k st' c"
    and "\<exists>st'. mm_do K (USet va b) st = Inr ([], st') \<and> mm_refines K k st' (spec_do (USet va b) c)"
proof -
  obtain s objs where st: "st = (s, objs)" by (cases st)
  from r obtain A H where inv: "mm_inv K s A H" and big: "k + 4 \<le> big_left A" and dis: "distinct objs"
    and ob: "list_all2 (holds_bytes s H) objs (fst c)" and us: "\<forall>va. user_va va \<longrightarrow> uview s va = snd c va"
    by (auto simp: mm_refines_def st)
  have room: "user_room s A {va}" by (rule one_page_room) (use big in simp)
  note fin = user_run_refines [OF inv big ob dis]
  obtain s1 A1 where l: "vload8 K va s = Inr (uview s va, s1)" "user_run K H {va} s A s1 A1"
    "\<forall>v. user_va v \<longrightarrow> uview s1 v = uview s v"
    by (rule mm_vload [OF inv va room singletonI])
  have "mm_refines K k (s1, objs) (fst c, snd c)" by (rule fin [OF l(2)]) (use l(3) us in simp)
  then show "\<exists>st'. mm_do K (UGet va) st = Inr ([snd c va], st') \<and> mm_refines K k st' c"
    using l(1) us va by (simp add: st)
  obtain s2 A2 where w: "vstore8 K va b s = Inr s2" "user_run K H {va} s A s2 A2"
    "\<forall>v. user_va v \<longrightarrow> uview s2 v = (if v = va then b else uview s v)"
    by (rule mm_vstore [OF inv va room singletonI])
  have "mm_refines K k (s2, objs) (fst c, (snd c)(va := b))" by (rule fin [OF w(2)]) (use w(3) us in simp)
  then show "\<exists>st'. mm_do K (USet va b) st = Inr ([], st') \<and> mm_refines K k st' (spec_do (USet va b) c)"
    using w(1) by (simp add: st)
qed

lemma mm_refines_mono: "mm_refines K k st c \<Longrightarrow> l \<le> k \<Longrightarrow> mm_refines K l st c"
  unfolding mm_refines_def by (meson order_trans)

lemma mm_do_refines:
  assumes r: "mm_refines K (k + 4) st c" and ok: "spec_ok x c"
  shows "\<exists>st'. mm_do K x st = Inr (spec_out x c, st') \<and> mm_refines K k st' (spec_do x c)"
proof -
  have r': "mm_refines K k st c" by (rule mm_refines_mono [OF r]) simp
  show ?thesis
  proof (cases x)
    case (KAlloc n)
    then show ?thesis using alloc_refines [OF r] ok by simp
  next
    case (KFree i)
    then show ?thesis using free_refines [OF r'] ok by simp
  next
    case (KGet i j)
    from r' obtain H where "list_all2 (holds_bytes (fst st) H) (snd st) (fst c)" by (auto simp: mm_refines_def)
    then have "holds_bytes (fst st) H (snd st ! i) (fst c ! i)"
      using ok KGet by (simp add: list_all2_conv_all_nth)
    then show ?thesis using ok KGet r' by (simp add: holds_bytes_def load8_def)
  next
    case (KSet i j b)
    then show ?thesis using set_refines [OF r'] ok by simp
  next
    case (UGet va)
    then show ?thesis using user_refines(1) [OF r] ok by simp
  next
    case (USet va b)
    then show ?thesis using user_refines(2) [OF r] ok by simp
  qed
qed

text \<open>
  C7.  The whole of memory management against its specification.  From a sound state with four
  blocks of 512 KiB left for every operation, any sequence of allocations of up to 4 KiB, releases, reads and
  writes of bytes of live objects, and reads and writes of user memory (demand-paged) runs without a panic; every byte that is
  read is the one that the specification - a list of independent arrays, zero when allocated, and an
  array for user memory - gives, and the final state again represents the specification's.
\<close>

theorem memory_refines_arrays:
  assumes "mm_refines K (k + 4 * length xs) st c" and "spec_run_ok xs c"
  shows "\<exists>st'. mm_run K xs st = Inr (spec_outs xs c, st') \<and> mm_refines K k st' (fold spec_do xs c)"
  using assms
proof (induction xs arbitrary: st c)
  case (Cons x xs)
  have "mm_refines K (k + 4 * length xs + 4) st c" using Cons.prems(1) by (simp add: add.commute add.left_commute)
  then obtain st1 where s1: "mm_do K x st = Inr (spec_out x c, st1)" "mm_refines K (k + 4 * length xs) st1 (spec_do x c)"
    using mm_do_refines [of K "k + 4 * length xs" st c x] Cons.prems(2) by auto
  obtain st2 where "mm_run K xs st1 = Inr (spec_outs xs (spec_do x c), st2)" "mm_refines K k st2 (fold spec_do xs (spec_do x c))"
    using Cons.IH [OF s1(2)] Cons.prems(2) by auto
  with s1(1) show ?case by simp
qed simp

theorem memory_refines_arrays_witness:
  "\<exists>st st'. mm_refines demo_layout 24 st ([], \<lambda>_. 0) \<and>
    mm_run demo_layout [KAlloc 100, USet USER_ADDR_START 7, KSet 0 99 5, KAlloc 3000, KGet 0 99, UGet USER_ADDR_START] st =
      Inr ([5, 7], st')"
proof -
  obtain s A H where s: "mm_inv demo_layout s A H" "live H = {}" "105 \<le> big_left A"
    "\<forall>va. user_va va \<longrightarrow> uview s va = 0" by (rule demo_mm)
  have r: "mm_refines demo_layout 24 (s, []) ([], \<lambda>_. 0)"
    unfolding mm_refines_def using s by (intro exI [of _ A] exI [of _ H]) simp
  let ?xs = "[KAlloc 100, USet USER_ADDR_START 7, KSet 0 99 5, KAlloc 3000, KGet 0 99, UGet USER_ADDR_START]"
  have "user_va USER_ADDR_START" by (simp add: user_va_def USER_ADDR_START_def)
  then have ok: "spec_run_ok ?xs ([], \<lambda>_. 0)" and out: "spec_outs ?xs ([], \<lambda>_. 0) = [5, 7]" by simp_all
  have "mm_refines demo_layout (0 + 4 * length ?xs) (s, []) ([], \<lambda>_. 0)" using r by simp
  from memory_refines_arrays [OF this ok] obtain st' where "mm_run demo_layout ?xs (s, []) = Inr ([5, 7], st')"
    unfolding out by blast
  with r show ?thesis by blast
qed

theorem user_memory_array_witness:
  "\<exists>s s'. accesses (vload8 demo_layout) (vstore8 demo_layout)
      [Rd USER_ADDR_START, Wr (USER_ADDR_START + 0x200000) 9, Rd (USER_ADDR_START + 0x200000)] s = Inr ([0, 9], s')"
proof -
  obtain s A H where s: "mm_inv demo_layout s A H" "live H = {}" "105 \<le> big_left A"
    "\<forall>va. user_va va \<longrightarrow> uview s va = 0" by (rule demo_mm)
  let ?S = "{USER_ADDR_START, USER_ADDR_START + 0x200000}"
  have va: "user_va USER_ADDR_START" "user_va (USER_ADDR_START + 0x200000)"
    by (simp_all add: user_va_def USER_ADDR_START_def)
  have "unmapped s ?S \<subseteq> {unat USER_ADDR_START div 4096, unat (USER_ADDR_START + 0x200000) div 4096}" by (auto simp: unmapped_def)
  then have "card (unmapped s ?S) \<le> 2"
    using card_mono [of "{unat USER_ADDR_START div 4096, unat (USER_ADDR_START + 0x200000) div 4096}" "unmapped s ?S"]
    by (simp add: USER_ADDR_START_def)
  moreover have "8 \<le> pm_pages A" using s(3) by (simp add: pm_pages_def big_left_def)
  ultimately have room: "user_room s A ?S" unfolding user_room_def by linarith
  show ?thesis
    using user_memory_array [OF s(1) room, of "[Rd USER_ADDR_START, Wr (USER_ADDR_START + 0x200000) 9, Rd (USER_ADDR_START + 0x200000)]"]
      va s(4) by auto
qed

end
