(* ===== verification/IdeRead.thy ===== *)
theory IdeRead
  imports Ide PhysMem
begin

text \<open>
  The disk driver of \<^verbatim>\<open>arch/x86/ide.c\<close> against a disk.  The disk is described by what the ATA standard
  says of the registers the driver uses: the task-file registers hold what was last written to
  them, and after the command to read sectors the data register delivers the words of the
  addressed sectors one by one.
\<close>

section \<open>The disk\<close>

text \<open>The last byte written to a register, and the words taken from the data register since the last command.\<close>

fun ata_reg :: "uint16 \<Rightarrow> trace \<Rightarrow> uint8" where
  "ata_reg p [] = 0"
| "ata_reg p (Out8 q v # tr) = (if q = p then v else ata_reg p tr)"
| "ata_reg p (_ # tr) = ata_reg p tr"

fun ata_taken :: "trace \<Rightarrow> nat" where
  "ata_taken [] = 0"
| "ata_taken (Out8 q v # tr) = (if q = IDE_COMMAND then 0 else ata_taken tr)"
| "ata_taken (In32 q v # tr) = (if q = 0x1F0 then Suc (ata_taken tr) else ata_taken tr)"
| "ata_taken (_ # tr) = ata_taken tr"

definition ata_lba :: "trace \<Rightarrow> nat" where
  "ata_lba tr = unat (ata_reg 0x1F3 tr) + 2 ^ 8 * unat (ata_reg 0x1F4 tr) + 2 ^ 16 * unat (ata_reg 0x1F5 tr) +
     2 ^ 24 * (unat (ata_reg 0x1F6 tr) mod 16)"

definition ata_count :: "trace \<Rightarrow> nat" where
  "ata_count tr = (if ata_reg 0x1F2 tr = 0 then 256 else unat (ata_reg 0x1F2 tr))"

primrec polls_until :: "device \<Rightarrow> (uint8 \<Rightarrow> bool) \<Rightarrow> nat \<Rightarrow> trace \<Rightarrow> bool" where
  "polls_until D P 0 tr \<longleftrightarrow> False"
| "polls_until D P (Suc n) tr \<longleftrightarrow>
     (let v = ucast (D tr IDE_COMMAND) in P v \<or> polls_until D P n (In8 IDE_COMMAND v # tr))"

definition ata_ready :: "uint8 \<Rightarrow> bool" where
  "ata_ready v \<longleftrightarrow> v AND (ATA_SR_BSY OR ATA_SR_DRDY) = ATA_SR_DRDY"

definition ata_data :: "uint8 \<Rightarrow> bool" where
  "ata_data v \<longleftrightarrow> v AND ATA_SR_DRQ \<noteq> 0"

text \<open>The disk answers within the time the driver waits, and delivers its words in order.\<close>

definition ata_disk :: "device \<Rightarrow> (nat \<Rightarrow> uint32) \<Rightarrow> bool" where
  "ata_disk D disk \<longleftrightarrow> (\<forall>tr. polls_until D ata_ready 10000 tr) \<and>
     (\<forall>tr. ata_reg IDE_COMMAND tr = ATA_CMD_READ_PIO \<longrightarrow> ata_taken tr < 128 * ata_count tr \<longrightarrow>
        polls_until D ata_data 10000 tr \<and> D tr 0x1F0 = disk (128 * ata_lba tr + ata_taken tr))"

section \<open>Waiting\<close>

text \<open>Both polling loops end: with a status that passes the test, or with their panic.\<close>

lemma ready_loop:
  "(\<exists>tr. ide_wait_ready_loop n K s = Inr (s\<lparr>io := tr\<rparr>) \<and> polls_until (port_dev K) ata_ready n (io s) \<and>
      (\<forall>p. ata_reg p tr = ata_reg p (io s)) \<and> ata_taken tr = ata_taken (io s)) \<or>
   ide_wait_ready_loop n K s = Inl (Panic ''IDE: Wait Ready Timeout\<newline>'') \<and> \<not> polls_until (port_dev K) ata_ready n (io s)"
proof (induction n arbitrary: s)
  case (Suc n)
  let ?v = "ucast (port_dev K (io s) IDE_COMMAND) :: uint8"
  have i: "k_inb K IDE_COMMAND s = (?v, s\<lparr>io := In8 IDE_COMMAND ?v # io s\<rparr>)" by (simp add: k_inb_def inb_def Let_def)
  show ?case
  proof (cases "ata_ready ?v")
    case True
    then have "ide_wait_ready_loop (Suc n) K s = Inr (s\<lparr>io := In8 IDE_COMMAND ?v # io s\<rparr>)"
      by (simp add: i ata_ready_def)
    with True show ?thesis by (intro disjI1 exI [of _ "In8 IDE_COMMAND ?v # io s"]) (simp add: Let_def)
  next
    case False
    then have "ide_wait_ready_loop (Suc n) K s = ide_wait_ready_loop n K (s\<lparr>io := In8 IDE_COMMAND ?v # io s\<rparr>)"
      by (simp add: i ata_ready_def)
    with Suc.IH [of "s\<lparr>io := In8 IDE_COMMAND ?v # io s\<rparr>"] False show ?thesis by (simp add: Let_def)
  qed
qed simp

lemma data_loop:
  "(\<exists>tr. ide_wait_data_loop n K s = Inr (s\<lparr>io := tr\<rparr>) \<and> polls_until (port_dev K) ata_data n (io s) \<and>
      (\<forall>p. ata_reg p tr = ata_reg p (io s)) \<and> ata_taken tr = ata_taken (io s)) \<or>
   ide_wait_data_loop n K s = Inl (Panic ''IDE: Wait Data Timeout\<newline>'') \<and> \<not> polls_until (port_dev K) ata_data n (io s)"
proof (induction n arbitrary: s)
  case (Suc n)
  let ?v = "ucast (port_dev K (io s) IDE_COMMAND) :: uint8"
  have i: "k_inb K IDE_COMMAND s = (?v, s\<lparr>io := In8 IDE_COMMAND ?v # io s\<rparr>)" by (simp add: k_inb_def inb_def Let_def)
  show ?case
  proof (cases "ata_data ?v")
    case True
    then have "ide_wait_data_loop (Suc n) K s = Inr (s\<lparr>io := In8 IDE_COMMAND ?v # io s\<rparr>)"
      by (simp add: i ata_data_def)
    with True show ?thesis by (intro disjI1 exI [of _ "In8 IDE_COMMAND ?v # io s"]) (simp add: Let_def)
  next
    case False
    then have "ide_wait_data_loop (Suc n) K s = ide_wait_data_loop n K (s\<lparr>io := In8 IDE_COMMAND ?v # io s\<rparr>)"
      by (simp add: i ata_data_def)
    with Suc.IH [of "s\<lparr>io := In8 IDE_COMMAND ?v # io s\<rparr>"] False show ?thesis by (simp add: Let_def)
  qed
qed simp

section \<open>Taking the data\<close>

text \<open>\<open>k\<close> words from a position of the transfer are in memory at an address.\<close>

definition words_at :: "mem_t \<Rightarrow> uint64 \<Rightarrow> nat \<Rightarrow> (nat \<Rightarrow> uint32) \<Rightarrow> nat \<Rightarrow> bool" where
  "words_at m buf n disk k \<longleftrightarrow> (\<forall>i<n. load32 m (buf + of_nat (4 * i)) = disk (k + i))"

lemma words_at_append:
  "words_at m buf (n + n') disk k \<longleftrightarrow> words_at m buf n disk k \<and> words_at m (buf + of_nat (4 * n)) n' disk (k + n)"
proof
  assume l: "words_at m buf (n + n') disk k"
  have "load32 m (buf + of_nat (4 * n) + of_nat (4 * i)) = disk (k + n + i)" if "i < n'" for i
  proof -
    have "load32 m (buf + of_nat (4 * (n + i))) = disk (k + (n + i))" using l that unfolding words_at_def by (metis nat_add_left_cancel_less)
    then show ?thesis by (simp add: algebra_simps)
  qed
  with l show "words_at m buf n disk k \<and> words_at m (buf + of_nat (4 * n)) n' disk (k + n)" by (simp add: words_at_def)
next
  assume r: "words_at m buf n disk k \<and> words_at m (buf + of_nat (4 * n)) n' disk (k + n)"
  show "words_at m buf (n + n') disk k"
    unfolding words_at_def
  proof (intro allI impI)
    fix i assume i: "i < n + n'"
    show "load32 m (buf + of_nat (4 * i)) = disk (k + i)"
    proof (cases "i < n")
      case False
      then obtain j where j: "i = n + j" "j < n'" using i by (metis add.commute less_diff_conv2 le_add_diff_inverse not_less)
      with r have "load32 m (buf + of_nat (4 * n) + of_nat (4 * j)) = disk (k + n + j)" by (simp add: words_at_def)
      then show ?thesis by (simp add: j algebra_simps)
    qed (use r in \<open>simp add: words_at_def\<close>)
  qed
qed

lemma words_at_cong:
  assumes "words_at m buf n disk k" and "unat buf + 4 * n \<le> 18446744073709551616"
    and same: "\<forall>x. unat buf \<le> unat x \<longrightarrow> unat x < unat buf + 4 * n \<longrightarrow> m' x = m x"
  shows "words_at m' buf n disk k"
  unfolding words_at_def
proof (intro allI impI)
  fix i assume i: "i < n"
  have u: "unat (buf + of_nat (4 * i)) = unat buf + 4 * i" by (rule unat_add_no_wrap) (use assms(2) i in linarith)
  have "m' x = m x" if "x \<in> bytes_at (buf + of_nat (4 * i)) 4" for x
  proof -
    have "unat (buf + of_nat (4 * i)) + 4 \<le> 18446744073709551616" using u assms(2) i by linarith
    then have "unat (buf + of_nat (4 * i)) \<le> unat x \<and> unat x < unat (buf + of_nat (4 * i)) + 4"
      using that bytes_at_interval [of "buf + of_nat (4 * i)" 4] by auto
    then show ?thesis using same u i by simp
  qed
  then have "load32 m' (buf + of_nat (4 * i)) = load32 m (buf + of_nat (4 * i))" by (rule word_cell.load_local)
  with assms(1) i show "load32 m' (buf + of_nat (4 * i)) = disk (k + i)" by (simp add: words_at_def)
qed

text \<open>What a transfer keeps: everything but memory and the trace, the task file, and memory outside the buffer.\<close>

definition ata_moved :: "kstate \<Rightarrow> uint64 \<Rightarrow> nat \<Rightarrow> kstate \<Rightarrow> bool" where
  "ata_moved s buf n s' \<longleftrightarrow> s' = s\<lparr>mem := mem s', io := io s'\<rparr> \<and> (\<forall>p. ata_reg p (io s') = ata_reg p (io s)) \<and>
     ata_taken (io s') = ata_taken (io s) + n \<and>
     (\<forall>x. \<not> (unat buf \<le> unat x \<and> unat x < unat buf + 4 * n) \<longrightarrow> mem s' x = mem s x)"

lemma ata_moved_regs:
  assumes "ata_moved s buf n s'"
  shows "ata_lba (io s') = ata_lba (io s)" "ata_count (io s') = ata_count (io s)" "ata_taken (io s') = ata_taken (io s) + n"
    "ata_reg IDE_COMMAND (io s') = ata_reg IDE_COMMAND (io s)"
  using assms by (simp_all add: ata_moved_def ata_lba_def ata_count_def)

lemma ata_moved_trans:
  assumes 1: "ata_moved s buf n s1" and 2: "ata_moved s1 (buf + of_nat (4 * n)) n' s2"
    and nw: "unat buf + 4 * n + 4 * n' \<le> 18446744073709551616"
  shows "ata_moved s buf (n + n') s2"
proof (cases "n' = 0")
  case True
  with 1 2 show ?thesis unfolding ata_moved_def by (cases s; cases s1; cases s2) simp
next
  case False
  then have u: "unat (buf + of_nat (4 * n)) = unat buf + 4 * n" by (intro unat_add_no_wrap) (use nw in linarith)
  have s2: "s2 = s\<lparr>mem := mem s2, io := io s2\<rparr>" using 1 2 unfolding ata_moved_def by (cases s; cases s1; cases s2) simp
  have "mem s2 x = mem s x" if "\<not> (unat buf \<le> unat x \<and> unat x < unat buf + 4 * (n + n'))" for x
  proof -
    have "\<not> (unat (buf + of_nat (4 * n)) \<le> unat x \<and> unat x < unat (buf + of_nat (4 * n)) + 4 * n')"
      and "\<not> (unat buf \<le> unat x \<and> unat x < unat buf + 4 * n)" using that unfolding u by auto
    with 1 2 show ?thesis unfolding ata_moved_def by metis
  qed
  with s2 1 2 show ?thesis unfolding ata_moved_def by simp
qed

text \<open>The device delivers the next \<open>n\<close> words of the transfer that the trace describes.\<close>

definition delivers :: "device \<Rightarrow> (nat \<Rightarrow> uint32) \<Rightarrow> trace \<Rightarrow> nat \<Rightarrow> bool" where
  "delivers D disk tr0 n \<longleftrightarrow> (\<forall>tr. (\<forall>p. ata_reg p tr = ata_reg p tr0) \<longrightarrow> ata_taken tr0 \<le> ata_taken tr \<longrightarrow>
     ata_taken tr < ata_taken tr0 + n \<longrightarrow> D tr 0x1F0 = disk (128 * ata_lba tr0 + ata_taken tr))"

lemma delivers_later:
  assumes "delivers D disk tr0 (n + n')" and "\<forall>p. ata_reg p tr = ata_reg p tr0" and "ata_taken tr = ata_taken tr0 + n"
  shows "delivers D disk tr n'"
proof -
  have "ata_lba tr = ata_lba tr0" using assms(2) by (simp add: ata_lba_def)
  then show ?thesis using assms unfolding delivers_def by simp
qed

lemma read_words:
  assumes "unat buf + 4 * n \<le> 18446744073709551616" and "delivers (port_dev K) disk (io s) n"
  shows "ata_moved s buf n (ide_read_words n K buf s) \<and>
    words_at (mem (ide_read_words n K buf s)) buf n disk (128 * ata_lba (io s) + ata_taken (io s))"
  using assms
proof (induction n arbitrary: buf s)
  case 0
  then show ?case by (simp add: ata_moved_def words_at_def)
next
  case (Suc n)
  let ?v = "port_dev K (io s) 0x1F0"
  let ?s1 = "s\<lparr>io := In32 0x1F0 ?v # io s, mem := store32 (mem s) buf ?v\<rparr>"
  have step: "ide_read_words (Suc n) K buf s = ide_read_words n K (buf + 4) ?s1"
    by (simp add: k_inl_def inl_def Let_def)
  have b: "x \<in> bytes_at buf 4 \<longleftrightarrow> unat buf \<le> unat x \<and> unat x < unat buf + 4" for x
    using bytes_at_interval [of buf 4] Suc.prems(1) by auto
  have m1: "ata_moved s buf 1 ?s1"
    using word_cell.store_outside [of _ buf "mem s" ?v] b by (cases s) (simp add: ata_moved_def)
  have v: "?v = disk (128 * ata_lba (io s) + ata_taken (io s))" using Suc.prems(2) by (simp add: delivers_def)
  then have w1: "words_at (mem ?s1) buf 1 disk (128 * ata_lba (io s) + ata_taken (io s))"
    by (simp add: words_at_def word_cell.load_store)
  show ?case
  proof (cases "n = 0")
    case True
    with m1 w1 step show ?thesis by simp
  next
    case False
    then obtain k where k: "n = Suc k" by (cases n) auto
    have u: "unat (buf + of_nat 4) = unat buf + 4" by (rule unat_add_no_wrap) (use Suc.prems(1) k in simp)
    then have nw: "unat (buf + 4) + 4 * n \<le> 18446744073709551616" using Suc.prems(1) by simp
    have "delivers (port_dev K) disk (io ?s1) n"
      by (rule delivers_later [of _ _ "io s" 1]) (use Suc.prems(2) in simp_all)
    from Suc.IH [OF nw this] have IH: "ata_moved ?s1 (buf + of_nat (4 * 1)) n (ide_read_words n K (buf + 4) ?s1)"
      "words_at (mem (ide_read_words n K (buf + 4) ?s1)) (buf + of_nat (4 * 1)) n disk (128 * ata_lba (io s) + ata_taken (io s) + 1)"
      by (simp_all add: ata_lba_def)
    have mv: "ata_moved s buf (Suc n) (ide_read_words n K (buf + 4) ?s1)"
      using ata_moved_trans [OF m1 IH(1)] Suc.prems(1) by simp
    have "words_at (mem (ide_read_words n K (buf + 4) ?s1)) buf 1 disk (128 * ata_lba (io s) + ata_taken (io s))"
      by (rule words_at_cong [OF w1]) (use Suc.prems(1) IH(1) u in \<open>auto simp: ata_moved_def\<close>)
    with IH(2) have "words_at (mem (ide_read_words n K (buf + 4) ?s1)) buf (1 + n) disk (128 * ata_lba (io s) + ata_taken (io s))"
      by (simp only: words_at_append)
    with mv step show ?thesis by simp
  qed
qed

lemma read_sectors:
  assumes "unat buf + 512 * n \<le> 18446744073709551616" and "delivers (port_dev K) disk (io s) (128 * n)"
    and "\<forall>tr. (\<forall>p. ata_reg p tr = ata_reg p (io s)) \<longrightarrow> ata_taken tr < ata_taken (io s) + 128 * n \<longrightarrow>
      polls_until (port_dev K) ata_data 10000 tr"
  shows "\<exists>s'. ide_read_sectors n K buf s = Inr s' \<and> ata_moved s buf (128 * n) s' \<and>
    words_at (mem s') buf (128 * n) disk (128 * ata_lba (io s) + ata_taken (io s))"
  using assms
proof (induction n arbitrary: buf s)
  case 0
  then show ?case by (cases s) (simp add: ata_moved_def words_at_def)
next
  case (Suc n)
  have "polls_until (port_dev K) ata_data 10000 (io s)" using Suc.prems(3) by simp
  then obtain tr where tr: "ide_wait_data_loop 10000 K s = Inr (s\<lparr>io := tr\<rparr>)"
    "\<forall>p. ata_reg p tr = ata_reg p (io s)" "ata_taken tr = ata_taken (io s)"
    using data_loop [of 10000 K s] by blast
  let ?s0 = "s\<lparr>io := tr\<rparr>" and ?s1 = "ide_read_words 128 K buf (s\<lparr>io := tr\<rparr>)"
  have step: "ide_read_sectors (Suc n) K buf s = ide_read_sectors n K (buf + 512) ?s1"
    using tr(1) by (simp add: ide_wait_data_def)
  have lba: "ata_lba tr = ata_lba (io s)" using tr(2) by (simp add: ata_lba_def)
  have d0: "delivers (port_dev K) disk (io ?s0) (128 + 128 * n)"
    using delivers_later [of "port_dev K" disk "io s" 0 "128 + 128 * n" tr] Suc.prems(2) tr(2,3) by simp
  then have "delivers (port_dev K) disk (io ?s0) 128" unfolding delivers_def by simp
  from read_words [OF _ this, of buf] Suc.prems(1) have w: "ata_moved ?s0 buf 128 ?s1"
    "words_at (mem ?s1) buf 128 disk (128 * ata_lba (io s) + ata_taken (io s))" by (simp_all add: lba tr(3))
  have m1: "ata_moved s buf 128 ?s1" using w(1) tr(2,3) unfolding ata_moved_def by (cases s) auto
  show ?case
  proof (cases "n = 0")
    case True
    with step m1 w(2) show ?thesis by simp
  next
    case False
    then obtain k where k: "n = Suc k" by (cases n) auto
    have u: "unat (buf + of_nat 512) = unat buf + 512" by (rule unat_add_no_wrap) (use Suc.prems(1) k in simp)
    have nw: "unat (buf + 512) + 512 * n \<le> 18446744073709551616" using u Suc.prems(1) by simp
    have d1: "delivers (port_dev K) disk (io ?s1) (128 * n)"
      by (rule delivers_later [OF d0]) (use w(1) in \<open>simp_all add: ata_moved_def\<close>)
    have p1: "\<forall>tr. (\<forall>p. ata_reg p tr = ata_reg p (io ?s1)) \<longrightarrow> ata_taken tr < ata_taken (io ?s1) + 128 * n \<longrightarrow>
        polls_until (port_dev K) ata_data 10000 tr" using Suc.prems(3) m1 by (simp add: ata_moved_def)
    from Suc.IH [OF nw d1 p1] obtain s' where s': "ide_read_sectors n K (buf + 512) ?s1 = Inr s'"
      "ata_moved ?s1 (buf + of_nat (4 * 128)) (128 * n) s'"
      "words_at (mem s') (buf + of_nat (4 * 128)) (128 * n) disk (128 * ata_lba (io s) + ata_taken (io s) + 128)"
      using ata_moved_regs [OF m1] by (auto simp: add.assoc)
    have mv: "ata_moved s buf (128 + 128 * n) s'" by (rule ata_moved_trans [OF m1 s'(2)]) (use Suc.prems(1) in simp)
    have "words_at (mem s') buf 128 disk (128 * ata_lba (io s) + ata_taken (io s))"
      by (rule words_at_cong [OF w(2)]) (use Suc.prems(1) s'(2) u in \<open>auto simp: ata_moved_def\<close>)
    with s'(3) have "words_at (mem s') buf (128 + 128 * n) disk (128 * ata_lba (io s) + ata_taken (io s))"
      by (simp only: words_at_append)
    with mv step s'(1) show ?thesis by simp
  qed
qed

section \<open>The command\<close>

lemma select_regs:
  assumes "sector < 0x10000000"
  shows "ata_lba (io (ide_select sector count s)) = unat sector" "ata_reg 0x1F2 (io (ide_select sector count s)) = ucast count"
    "ata_taken (io (ide_select sector count s)) = 0" "ata_reg IDE_COMMAND (io (ide_select sector count s)) = ATA_CMD_READ_PIO"
proof -
  let ?tr = "io (ide_select sector count s)"
  have r: "ata_reg 0x1F3 ?tr = ucast (sector AND 0xFF)" "ata_reg 0x1F4 ?tr = ucast (drop_bit 8 sector AND 0xFF)"
    "ata_reg 0x1F5 ?tr = ucast (drop_bit 16 sector AND 0xFF)"
    "ata_reg 0x1F6 ?tr = 0xE0 OR ucast (drop_bit 24 sector AND 0xF)"
    by (simp_all add: ide_select_def k_outb_def outb_def Let_def IDE_COMMAND_def)
  show "ata_reg 0x1F2 ?tr = ucast count" "ata_taken ?tr = 0" "ata_reg IDE_COMMAND ?tr = ATA_CMD_READ_PIO"
    by (simp_all add: ide_select_def k_outb_def outb_def Let_def IDE_COMMAND_def)
  have m: "(0xFF :: uint32) = mask 8" "(0xF :: uint32) = mask 4" by (simp_all add: mask_numeral)
  have "take_bit 32 (unat sector) = unat sector" using unsigned_less [of sector] by (intro take_bit_nat_eq_self) simp
  then have dr: "unat (drop_bit k sector) = drop_bit k (unat sector)" for k by (simp add: unsigned_drop_bit_eq)
  have byte: "unat (ucast (drop_bit k sector AND 0xFF) :: uint8) = unat sector div 2 ^ k mod 256" for k
  proof -
    have "unat (ucast (take_bit 8 (drop_bit k sector)) :: uint8) = take_bit 8 (unat (take_bit 8 (drop_bit k sector)))"
      by (simp add: unsigned_ucast_eq)
    also have "\<dots> = take_bit 8 (drop_bit k (unat sector))" by (simp add: unsigned_take_bit_eq dr)
    finally show ?thesis unfolding m by (simp add: take_bit_eq_mask [symmetric] take_bit_eq_mod drop_bit_eq_div)
  qed
  have low: "unat (0xE0 OR ucast (drop_bit 24 sector AND 0xF) :: uint8) mod 16 = unat sector div 2 ^ 24 mod 16"
  proof -
    let ?z = "ucast (take_bit 4 (drop_bit 24 sector)) :: uint8"
    have "unat (0xE0 OR ?z) mod 16 = unat (take_bit 4 (0xE0 OR ?z))" by (simp only: unsigned_take_bit_eq) (simp add: take_bit_eq_mod)
    also have "take_bit 4 (0xE0 OR ?z) = take_bit 4 ?z" by simp
    also have "unat (take_bit 4 ?z) = take_bit 4 (unat ?z)" by (rule unsigned_take_bit_eq)
    also have "unat ?z = take_bit 8 (unat (take_bit 4 (drop_bit 24 sector)))" by (simp add: unsigned_ucast_eq)
    also have "\<dots> = take_bit 4 (drop_bit 24 (unat sector))" by (simp add: unsigned_take_bit_eq dr)
    finally show ?thesis unfolding m by (simp add: take_bit_eq_mask [symmetric] take_bit_eq_mod drop_bit_eq_div)
  qed
  let ?n = "unat sector"
  have bits: "?n < 2 ^ 28" using assms by (simp add: word_less_nat_alt)
  have d: "?n = ?n mod 256 + 256 * (?n div 256)" "?n div 256 = ?n div 256 mod 256 + 256 * (?n div 256 div 256)"
    "?n div 256 div 256 = ?n div 256 div 256 mod 256 + 256 * (?n div 256 div 256 div 256)" by simp_all
  have sum: "?n mod 256 + 256 * (?n div 256 mod 256) + 65536 * (?n div 256 div 256 mod 256) +
      16777216 * (?n div 256 div 256 div 256) = ?n" using d by linarith
  have "?n div 256 div 256 div 256 mod 16 = ?n div 256 div 256 div 256" using bits by simp
  moreover have "?n div 2 ^ 16 = ?n div 256 div 256" "?n div 2 ^ 24 = ?n div 256 div 256 div 256"
    by (simp_all add: div_mult2_eq [symmetric])
  ultimately show "ata_lba ?tr = unat sector"
    unfolding ata_lba_def r using byte [of 0] byte [of 8] byte [of 16] low sum by simp
qed

section \<open>Properties\<close>

lemma io_same_trans:
  assumes "s1 = s\<lparr>mem := mem s1, io := io s1\<rparr>" and "s2 = s1\<lparr>mem := mem s2, io := io s2\<rparr>"
  shows "s2 = s\<lparr>mem := mem s2, io := io s2\<rparr>"
  using assms by (cases s; cases s1; cases s2) simp

lemma words_same: "ide_read_words k K b t = t\<lparr>mem := mem (ide_read_words k K b t), io := io (ide_read_words k K b t)\<rparr>"
proof (induction k arbitrary: b t)
  case (Suc k)
  let ?v = "port_dev K (io t) 0x1F0"
  let ?t = "t\<lparr>io := In32 0x1F0 ?v # io t, mem := store32 (mem t) b ?v\<rparr>"
  have step: "ide_read_words (Suc k) K b t = ide_read_words k K (b + 4) ?t" by (simp add: k_inl_def inl_def Let_def)
  have "?t = t\<lparr>mem := mem ?t, io := io ?t\<rparr>" by (cases t) simp
  then show ?case unfolding step by (rule io_same_trans [OF _ Suc.IH])
qed simp

lemma sectors_total:
  "(\<exists>s'. ide_read_sectors n K buf s = Inr s' \<and> s' = s\<lparr>mem := mem s', io := io s'\<rparr>) \<or>
   ide_read_sectors n K buf s = Inl (Panic ''IDE: Wait Data Timeout\<newline>'')"
proof (induction n arbitrary: buf s)
  case 0
  then show ?case by simp
next
  case (Suc n)
  from data_loop [of 10000 K s] consider tr where "ide_wait_data K s = Inr (s\<lparr>io := tr\<rparr>)"
    | "ide_wait_data K s = Inl (Panic ''IDE: Wait Data Timeout\<newline>'')" unfolding ide_wait_data_def by blast
  then show ?case
  proof cases
    case (1 tr)
    let ?t = "ide_read_words 128 K buf (s\<lparr>io := tr\<rparr>)"
    have step: "ide_read_sectors (Suc n) K buf s = ide_read_sectors n K (buf + 512) ?t" using 1 by simp
    have "s\<lparr>io := tr\<rparr> = s\<lparr>mem := mem (s\<lparr>io := tr\<rparr>), io := io (s\<lparr>io := tr\<rparr>)\<rparr>" by (cases s) simp
    then have t: "?t = s\<lparr>mem := mem ?t, io := io ?t\<rparr>" by (rule io_same_trans [OF _ words_same])
    from Suc.IH [of "buf + 512" ?t] show ?thesis unfolding step using io_same_trans [OF t] by blast
  qed simp
qed

text \<open>
  C35. Reading sectors always ends, whatever the device does: the driver returns, or it panics
  with one of its two timeouts.  Only memory and the trace of accesses change.
\<close>

theorem ide_read_seq_ends:
  "(\<exists>s'. ide_read_seq K sector buf count s = Inr s' \<and> s' = s\<lparr>mem := mem s', io := io s'\<rparr>) \<or>
   ide_read_seq K sector buf count s = Inl (Panic ''IDE: Wait Ready Timeout\<newline>'') \<or>
   ide_read_seq K sector buf count s = Inl (Panic ''IDE: Wait Data Timeout\<newline>'')"
proof -
  from ready_loop [of 10000 K s] consider tr where "ide_wait_ready K s = Inr (s\<lparr>io := tr\<rparr>)"
    | "ide_wait_ready K s = Inl (Panic ''IDE: Wait Ready Timeout\<newline>'')" unfolding ide_wait_ready_def by blast
  then show ?thesis
  proof cases
    case (1 tr)
    let ?t = "ide_select sector count (s\<lparr>io := tr\<rparr>)"
    have step: "ide_read_seq K sector buf count s = ide_read_sectors (unat count) K buf ?t" using 1 by (simp add: ide_read_seq_def)
    have t: "?t = s\<lparr>mem := mem ?t, io := io ?t\<rparr>" by (cases s) (simp add: ide_select_def k_outb_def Let_def)
    from sectors_total [of "unat count" K buf ?t] show ?thesis unfolding step using io_same_trans [OF t] by blast
  qed (simp add: ide_read_seq_def)
qed

lemma ide_read_seq_spec:
  assumes disk: "ata_disk (port_dev K) disk" and sector: "sector < 0x10000000" and count: "0 < count" "count \<le> 256"
    and buf: "unat buf + 512 * unat count \<le> 18446744073709551616"
  shows "\<exists>s'. ide_read_seq K sector buf count s = Inr s' \<and> s' = s\<lparr>mem := mem s', io := io s'\<rparr> \<and>
    (\<forall>i < 128 * unat count. load32 (mem s') (buf + of_nat (4 * i)) = disk (128 * unat sector + i)) \<and>
    (\<forall>x. \<not> (unat buf \<le> unat x \<and> unat x < unat buf + 512 * unat count) \<longrightarrow> mem s' x = mem s x)"
proof -
  have "polls_until (port_dev K) ata_ready 10000 (io s)" using disk by (simp add: ata_disk_def)
  then obtain tr where tr: "ide_wait_ready_loop 10000 K s = Inr (s\<lparr>io := tr\<rparr>)"
    using ready_loop [of 10000 K s] by blast
  let ?s = "ide_select sector count (s\<lparr>io := tr\<rparr>)"
  note sel = select_regs [OF sector, of count "s\<lparr>io := tr\<rparr>"]
  have c: "0 < unat count" "unat count \<le> 256" using count by (auto simp: word_less_nat_alt word_le_nat_alt)
  have "unat (ucast count :: uint8) = unat count mod 256" by (simp add: unsigned_ucast_eq take_bit_eq_mod)
  then have cnt: "ata_count (io ?s) = unat count"
    using c sel(2) by (cases "unat count = 256") (auto simp: ata_count_def word_unat_eq_iff)
  have deliver: "D = port_dev K \<Longrightarrow> \<forall>t. (\<forall>p. ata_reg p t = ata_reg p (io ?s)) \<longrightarrow> ata_taken t < 128 * unat count \<longrightarrow>
      polls_until D ata_data 10000 t \<and> D t 0x1F0 = disk (128 * unat sector + ata_taken t)" for D
  proof (intro allI impI)
    fix t assume D: "D = port_dev K" and t: "\<forall>p. ata_reg p t = ata_reg p (io ?s)" "ata_taken t < 128 * unat count"
    have "ata_lba t = unat sector" "ata_count t = unat count" "ata_reg IDE_COMMAND t = ATA_CMD_READ_PIO"
      using t(1) sel(1,4) cnt unfolding ata_lba_def ata_count_def by metis+
    with disk t(2) D show "polls_until D ata_data 10000 t \<and> D t 0x1F0 = disk (128 * unat sector + ata_taken t)"
      unfolding ata_disk_def by metis
  qed
  have "delivers (port_dev K) disk (io ?s) (128 * unat count)"
    using deliver [OF refl] sel(1,3) by (simp add: delivers_def)
  from read_sectors [OF buf this] deliver [OF refl] sel(1,3)
  obtain s' where s': "ide_read_sectors (unat count) K buf ?s = Inr s'" "ata_moved ?s buf (128 * unat count) s'"
    "words_at (mem s') buf (128 * unat count) disk (128 * unat sector)" by auto
  have "ide_read_seq K sector buf count s = Inr s'" using tr s'(1) by (simp add: ide_read_seq_def ide_wait_ready_def)
  moreover have "?s = s\<lparr>mem := mem ?s, io := io ?s\<rparr>" by (cases s) (simp add: ide_select_def k_outb_def Let_def)
  then have "s' = s\<lparr>mem := mem s', io := io s'\<rparr>" by (rule io_same_trans) (use s'(2) in \<open>simp add: ata_moved_def\<close>)
  moreover have "mem ?s = mem s" by (simp add: ide_select_def k_outb_def Let_def)
  ultimately show ?thesis using s'(2,3) unfolding ata_moved_def words_at_def by auto
qed


text \<open>A disk with the given words that is always ready, and one whose words are their own numbers.\<close>

definition disk_dev :: "(nat \<Rightarrow> uint32) \<Rightarrow> device" where
  "disk_dev disk tr p = (if p = 0x1F0 then disk (128 * ata_lba tr + ata_taken tr) else 0x48)"

definition demo_disk :: device where
  "demo_disk = disk_dev of_nat"

lemma disk_dev_ata: "ata_disk (disk_dev disk) disk"
proof -
  have "polls_until (disk_dev disk) ata_ready (Suc 9999) tr" "polls_until (disk_dev disk) ata_data (Suc 9999) tr" for tr
    by (simp_all only: polls_until.simps) (simp_all add: disk_dev_def IDE_COMMAND_def ata_ready_def ata_data_def ATA_SR_BSY_def ATA_SR_DRDY_def
        ATA_SR_DRQ_def Let_def)
  then show ?thesis
    by (simp add: ata_disk_def) (simp add: disk_dev_def)
qed

lemma demo_ata: "ata_disk demo_disk of_nat"
  unfolding demo_disk_def by (rule disk_dev_ata)


end
