(* ===== verification/FatRead.thy ===== *)
theory FatRead
  imports MemClient IdeRead
begin

text \<open>
  Reading a file, \<^verbatim>\<open>fs/fat16/read.c\<close>: the clusters that \<^verbatim>\<open>fat16_readi\<close> fetches from the disk into a heap
  buffer and copies to user memory.  The disk is the one of the driver's theory.
\<close>

section \<open>The bytes of the disk\<close>

definition disk_byte :: "(nat \<Rightarrow> uint32) \<Rightarrow> nat \<Rightarrow> uint8" where
  "disk_byte disk k = le_bytes 4 (unat (disk (k div 4))) ! (k mod 4)"

text \<open>The position on the disk of the first byte of a cluster.\<close>

definition cluster_pos :: "FAT16 \<Rightarrow> nat \<Rightarrow> nat" where
  "cluster_pos f c = 512 * (unat (data_entry f) + (c - 2) * unat (sector_per_cluster f))"

lemma load32_byte:
  assumes "j < 4"
  shows "m (a + of_nat j) = le_bytes 4 (unat (load32 m a)) ! j"
proof -
  have "le_val (load_bytes m a 4) < 256 ^ 4" using le_val_less [of "load_bytes m a 4"] by simp
  then have "unat (load32 m a) = le_val (load_bytes m a 4)" by (simp add: load32_def unat_of_nat)
  then have "le_bytes 4 (unat (load32 m a)) = load_bytes m a 4"
    using le_bytes_val [of "load_bytes m a 4"] by simp
  then show ?thesis using assms nth_load_bytes [of j 4 m a] by simp
qed

lemma words_bytes:
  assumes "\<forall>i < n. load32 m (buf + of_nat (4 * i)) = disk (k + i)" and "j < 4 * n"
  shows "m (buf + of_nat j) = disk_byte disk (4 * k + j)"
proof -
  have "m (buf + of_nat (4 * (j div 4)) + of_nat (j mod 4)) = le_bytes 4 (unat (disk (k + j div 4))) ! (j mod 4)"
    using load32_byte [of "j mod 4" m "buf + of_nat (4 * (j div 4))"] assms by simp
  moreover have "buf + of_nat (4 * (j div 4)) + of_nat (j mod 4) = buf + of_nat (4 * (j div 4) + j mod 4)"
    by (simp only: of_nat_add add.assoc)
  moreover have "4 * (j div 4) + j mod 4 = j" by simp
  ultimately have "m (buf + of_nat j) = le_bytes 4 (unat (disk (k + j div 4))) ! (j mod 4)" by metis
  then show ?thesis by (simp add: disk_byte_def)
qed

section \<open>One cluster\<close>

text \<open>A file system whose geometry \<^verbatim>\<open>fat16_init\<close> computed, with clusters of up to 4 KiB.\<close>

definition fat_geometry :: "FAT16 \<Rightarrow> bool" where
  "fat_geometry f \<longleftrightarrow> 0 < sector_per_cluster f \<and> sector_per_cluster f \<le> 8 \<and>
     unat (cluster_size f) = 512 * unat (sector_per_cluster f)"

lemma half_word: "(ucast (w :: uint16) :: uint32) = of_nat (unat w)" "unat (ucast (w :: uint16) :: uint32) = unat w"
proof -
  have "unat w < 65536" using unsigned_less [of w] by simp
  then show "unat (ucast w :: uint32) = unat w" by (simp add: unsigned_ucast_eq take_bit_nat_eq_self)
  then show "(ucast w :: uint32) = of_nat (unat w)" by (simp add: word_unat_eq_iff unat_of_nat)
qed

lemma cluster_sector:
  assumes f: "fat_geometry f" and c: "2 \<le> unat c"
  defines "sector \<equiv> (ucast (data_entry f) + (ucast (c :: uint16) - 2) * ucast (sector_per_cluster f) :: uint32)"
  shows "sector < 0x10000000" and "512 * unat sector = cluster_pos f (unat c)"
proof -
  let ?d = "unat (data_entry f)" and ?p = "unat (sector_per_cluster f)"
  have p: "?p \<le> 8" using f by (simp add: fat_geometry_def word_le_nat_alt)
  have b: "?d < 65536" "unat c < 65536" using unsigned_less [of "data_entry f"] unsigned_less [of c] by simp_all
  have le: "(unat c - 2) * ?p \<le> 65536 * 8" using b(2) p by (intro mult_le_mono) simp_all
  have c2: "(ucast c - 2 :: uint32) = of_nat (unat c - 2)"
    unfolding half_word(1) of_nat_diff [OF c] by simp
  have s: "sector = of_nat (?d + (unat c - 2) * ?p)"
    unfolding sector_def c2 unfolding half_word(1) by (simp only: of_nat_add of_nat_mult)
  have u: "unat sector = ?d + (unat c - 2) * ?p"
    unfolding s unat_of_nat using b(1) le by (intro mod_less) simp
  then show "512 * unat sector = cluster_pos f (unat c)" by (simp add: cluster_pos_def)
  show "sector < 0x10000000" using u b(1) le by (simp add: word_less_nat_alt)
qed

lemma read_cluster:
  assumes disk: "ata_disk (port_dev K) disk" and f: "fat_geometry (fat16 s)" and c: "2 \<le> unat c"
    and buf: "unat buf + unat (cluster_size (fat16 s)) < 18446744073709551616"
  obtains s' where "fat16_read_cluster K c buf s = Inr s'" and "s' = s\<lparr>mem := mem s', io := io s'\<rparr>"
    and "\<forall>j < unat (cluster_size (fat16 s)). mem s' (buf + of_nat j) = disk_byte disk (cluster_pos (fat16 s) (unat c) + j)"
    and "\<forall>x. \<not> in_block (unat (cluster_size (fat16 s))) buf (unat x) \<longrightarrow> mem s' x = mem s x"
proof -
  let ?f = "fat16 s" and ?cnt = "ucast (sector_per_cluster (fat16 s)) :: uint32"
  let ?sec = "ucast (data_entry ?f) + (ucast c - 2) * ucast (sector_per_cluster ?f) :: uint32"
  note sec = cluster_sector [OF f c]
  have cs: "unat (cluster_size ?f) = 512 * unat (sector_per_cluster ?f)" using f by (simp add: fat_geometry_def)
  have uc: "unat ?cnt = unat (sector_per_cluster ?f)" by (rule half_word(2))
  have cnt: "0 < ?cnt" "?cnt \<le> 256"
    using f uc by (simp_all add: fat_geometry_def word_less_nat_alt word_le_nat_alt)
  have "unat buf + 512 * unat ?cnt \<le> 18446744073709551616" using buf cs uc by simp
  from ide_read_seq_spec [OF disk sec(1) cnt this, of s] obtain s' where
    s': "ide_read_seq K ?sec buf ?cnt s = Inr s'" "s' = s\<lparr>mem := mem s', io := io s'\<rparr>"
    "\<forall>i < 128 * unat ?cnt. load32 (mem s') (buf + of_nat (4 * i)) = disk (128 * unat ?sec + i)"
    "\<forall>x. \<not> (unat buf \<le> unat x \<and> unat x < unat buf + 512 * unat ?cnt) \<longrightarrow> mem s' x = mem s x"
    by (elim exE conjE) (rule that)
  have "mem s' (buf + of_nat j) = disk_byte disk (cluster_pos ?f (unat c) + j)" if "j < unat (cluster_size ?f)" for j
  proof -
    have "j < 4 * (128 * unat ?cnt)" using that cs uc by simp
    from words_bytes [OF s'(3) this] sec(2) show ?thesis by simp
  qed
  moreover have "fat16_read_cluster K c buf s = Inr s'" using s'(1) by (simp add: fat16_read_cluster_def)
  ultimately show thesis using that [of s'] s'(2,4) cs uc by (simp add: in_block_def)
qed

lemma urange_elem: "n \<le> 2 ^ 64 \<Longrightarrow> v \<in> urange a n \<longleftrightarrow> (\<exists>k < n. v = a + of_nat k)"
proof
  assume "v \<in> urange a n"
  then show "\<exists>k < n. v = a + of_nat k" by (intro exI [of _ "unat (v - a)"]) (simp add: urange_def)
next
  assume n: "n \<le> 2 ^ 64" and "\<exists>k < n. v = a + of_nat k"
  then obtain k where k: "k < n" "v = a + of_nat k" by blast
  then have "unat (v - a) = k" using n by (simp add: unat_of_nat)
  with k show "v \<in> urange a n" by (simp add: urange_def)
qed

lemma urange_shift:
  assumes "D + n \<le> 2 ^ 64"
  shows "v \<in> urange (a + of_nat D) n \<longleftrightarrow> D \<le> unat (v - a) \<and> unat (v - a) < D + n"
    and "v \<in> urange (a + of_nat D) n \<Longrightarrow> unat (v - (a + of_nat D)) = unat (v - a) - D"
proof -
  have "v \<in> urange (a + of_nat D) n \<longleftrightarrow> (\<exists>k < n. v = a + of_nat D + of_nat k)" by (rule urange_elem) (use assms in simp)
  also have "\<dots> \<longleftrightarrow> (\<exists>k < n. v - a = of_nat (D + k))" by (auto simp: algebra_simps)
  also have "\<dots> \<longleftrightarrow> (\<exists>k < n. unat (v - a) = D + k)"
  proof -
    have "v - a = of_nat (D + k) \<longleftrightarrow> unat (v - a) = D + k" if "k < n" for k
      using that assms by (simp add: word_unat_eq_iff unat_of_nat del: of_nat_add)
    then show ?thesis by blast
  qed
  also have "\<dots> \<longleftrightarrow> D \<le> unat (v - a) \<and> unat (v - a) < D + n" by (auto simp: le_iff_add)
  finally show eq: "v \<in> urange (a + of_nat D) n \<longleftrightarrow> D \<le> unat (v - a) \<and> unat (v - a) < D + n" .
  assume "v \<in> urange (a + of_nat D) n"
  with eq have D: "D \<le> unat (v - a)" by simp
  then have "D < 18446744073709551616" using unat_less_2p64 [of "v - a"] by linarith
  then have d: "unat (of_nat D :: uint64) = D" by (simp add: unat_of_nat)
  have "unat (v - a - of_nat D) = unat (v - a) - unat (of_nat D :: uint64)"
    by (rule unat_sub) (use D d in \<open>simp add: word_le_nat_alt\<close>)
  then show "unat (v - (a + of_nat D)) = unat (v - a) - D" using d by (simp add: algebra_simps)
qed

text \<open>A cluster is fetched into the buffer, and a part of it copied to the user.\<close>

lemma cluster_copy:
  assumes inv: "mm_inv K s A H" and room: "user_room s A S" and disk: "ata_disk (port_dev K) disk"
    and f: "fat_geometry (fat16 s)" and c: "2 \<le> unat c"
    and buf: "(buf, n) \<in> live H" "unat (cluster_size (fat16 s)) \<le> n"
    and rng: "urange d cnt \<subseteq> S" "\<forall>v \<in> urange d cnt. user_va v" and cnt: "off + cnt \<le> unat (cluster_size (fat16 s))"
  obtains s1 s' A' where "fat16_read_cluster K c buf s = Inr s1" and "fat16 s1 = fat16 s"
    and "vmemcpy K d (buf + of_nat off) cnt s1 = Inr s'" and "fat16 s' = fat16 s"
    and "mm_inv K s' A' H" and "user_room s' A' S"
    and "\<forall>v. user_va v \<longrightarrow> uview s' v = (if v \<in> urange d cnt
      then disk_byte disk (cluster_pos (fat16 s) (unat c) + off + unat (v - d)) else uview s v)"
proof -
  let ?cs = "unat (cluster_size (fat16 s))"
  note rel = mm_invD(1) [OF inv]
  have nw: "unat buf + n < 18446744073709551616" by (rule live_no_wrap(4) [OF rel buf(1)])
  have cs: "?cs < 65536" using unsigned_less [of "cluster_size (fat16 s)"] by simp
  have bw: "unat buf + ?cs < 18446744073709551616" using nw buf(2) by simp
  obtain s1 where s1: "fat16_read_cluster K c buf s = Inr s1" "s1 = s\<lparr>mem := mem s1, io := io s1\<rparr>"
    "\<forall>j < ?cs. mem s1 (buf + of_nat j) = disk_byte disk (cluster_pos (fat16 s) (unat c) + j)"
    "\<forall>x. \<not> in_block ?cs buf (unat x) \<longrightarrow> mem s1 x = mem s x"
    by (rule read_cluster [OF disk f c bw])
  have same: "pmmap s1 = pmmap s" "memtotal s1 = memtotal s" "pgdir s1 = pgdir s" "cr3 s1 = cr3 s" "fat16 s1 = fat16 s"
    by (subst s1(2), simp)+
  have out: "\<forall>x. \<not> in_block n buf (unat x) \<longrightarrow> mem s1 x = mem s x" using s1(4) in_block_sub [OF _ buf(2)] by blast
  note w = mm_object_write [OF inv buf(1) same(1-4) out]
  have room1: "user_room s1 A S" using room w(3) by (simp add: user_room_def)
  have src: "unat x = unat buf + off + k" "in_block n buf (unat x)" if "k < cnt" "x = buf + of_nat off + of_nat k" for x k
  proof -
    have "x = buf + of_nat (off + k)" using that(2) by simp
    then show "unat x = unat buf + off + k" using unat_add_no_wrap [of buf "off + k"] nw that(1) cnt buf(2) by simp
    then show "in_block n buf (unat x)" using that(1) cnt buf(2) by (simp add: in_block_def)
  qed
  have small: "cnt \<le> 2 ^ 64" using cnt cs by simp
  have kern: "\<forall>x \<in> urange (buf + of_nat off) cnt. unat x \<in> kernel_bytes K H"
  proof
    fix x assume "x \<in> urange (buf + of_nat off) cnt"
    then obtain k where "k < cnt" "x = buf + of_nat off + of_nat k" using urange_elem [OF small] by blast
    from live_uncovered(2) [OF rel buf(1) src(2) [OF this]] show "unat x \<in> kernel_bytes K H" by (simp add: kernel_bytes_def)
  qed
  from mm_vmemcpy [OF w(1) room1 rng kern small] obtain s' A' where
    s': "vmemcpy K d (buf + of_nat off) cnt s1 = Inr s'" "user_run K H S s1 A s' A'"
    "\<forall>v. user_va v \<longrightarrow> uview s' v = (if v \<in> urange d cnt then mem s1 (buf + of_nat off + (v - d)) else uview s1 v)"
    by (elim exE conjE) (rule that)
  have f': "fat16 s' = fat16 s"
  proof -
    from user_runD(5) [OF s'(2)] have "fat16 s' = fat16 s1" by (elim exE) (erule ssubst, simp)
    then show ?thesis using same(5) by simp
  qed
  have val: "mem s1 (buf + of_nat off + (v - d)) = disk_byte disk (cluster_pos (fat16 s) (unat c) + off + unat (v - d))"
    if "v \<in> urange d cnt" for v
  proof -
    have "off + unat (v - d) < ?cs" using that cnt by (simp add: urange_def)
    moreover have "buf + of_nat off + (v - d) = buf + of_nat (off + unat (v - d))" by simp
    ultimately show ?thesis using s1(3) by (metis add.assoc)
  qed
  have "\<forall>v. user_va v \<longrightarrow> uview s' v = (if v \<in> urange d cnt
      then disk_byte disk (cluster_pos (fat16 s) (unat c) + off + unat (v - d)) else uview s v)"
    using s'(3) val w(2) by simp
  then show thesis
    by (rule that [OF s1(1) same(5) s'(1) f' user_runD(1) [OF s'(2)] user_runD(3) [OF s'(2) room1]])
qed

section \<open>A whole read\<close>

lemma cluster_pos_add:
  assumes "fat_geometry f" and "2 \<le> c"
  shows "cluster_pos f (c + i) = cluster_pos f c + i * unat (cluster_size f)"
proof -
  have "c + i - 2 = c - 2 + i" using assms(2) by simp
  then show ?thesis using assms(1) by (simp add: cluster_pos_def fat_geometry_def algebra_simps)
qed

text \<open>
  A read of \<open>sz\<close> bytes that starts at a cluster boundary: iteration \<open>i\<close> copies a whole cluster or, at the end, the rest.
  \<open>cs\<close> is the size of a cluster.
\<close>

definition file_part :: "(nat \<Rightarrow> uint32) \<Rightarrow> nat \<Rightarrow> uint64 \<Rightarrow> nat \<Rightarrow> nat \<Rightarrow> kstate \<Rightarrow> kstate \<Rightarrow> bool" where
  "file_part disk pos dst lo hi s s' \<longleftrightarrow> (\<forall>v. user_va v \<longrightarrow> uview s' v =
     (if lo \<le> unat (v - dst) \<and> unat (v - dst) < hi then disk_byte disk (pos + unat (v - dst)) else uview s v))"

lemma file_part_empty: "hi \<le> lo \<Longrightarrow> file_part disk pos dst lo hi s s"
  by (auto simp: file_part_def)

lemma file_part_join:
  assumes "file_part disk pos dst lo mid s s1" and "file_part disk pos dst mid hi s1 s2" and "lo \<le> mid" and "mid \<le> hi"
  shows "file_part disk pos dst lo hi s s2"
  using assms unfolding file_part_def by auto

lemma clusters_before: "c0 \<le> i \<Longrightarrow> i < c1 \<Longrightarrow> (i - c0) * cs + cs \<le> (c1 - c0) * (cs :: nat)"
  using mult_le_mono1 [of "Suc (i - c0)" "c1 - c0" cs] by fastforce

lemma readi_step:
  assumes inv: "mm_inv K s A H" and room: "user_room s A S" and disk: "ata_disk (port_dev K) disk"
    and f: "fat16 s = f" "fat_geometry f" "unat (cluster_size f) = cs" and c: "2 \<le> unat cl" "unat cl + c1 \<le> 65535"
    and buf: "(buf, n) \<in> live H" "cs \<le> n"
    and rng: "urange dst (unat sz) \<subseteq> S" "\<forall>v \<in> urange dst (unat sz). user_va v"
    and sz: "unat sz = (c1 - c0) * cs + r1" "r1 < cs" and i: "c0 \<le> i" "i \<le> c1"
  obtains s' A' where
    "readi_loop K cl buf dst sz c0 0 c1 r1 [i..<Suc c1] s = readi_loop K cl buf dst sz c0 0 c1 r1 [Suc i..<Suc c1] s'"
    and "mm_inv K s' A' H" and "user_room s' A' S" and "fat16 s' = f"
    and "file_part disk (cluster_pos f (unat cl) + c0 * cs) dst ((i - c0) * cs)
      ((i - c0) * cs + (if i = c1 then r1 else cs)) s s'"
proof -
  have cs: "cs < 65536" "cs \<le> 4096" using f unsigned_less [of "cluster_size f"] by (auto simp: fat_geometry_def word_le_nat_alt)
  let ?D = "(i - c0) * cs" and ?cnt = "if i = c1 then r1 else cs"
  have D1: "?D + ?cnt \<le> unat sz"
    using i sz(1) clusters_before [OF i(1), of c1 cs] by (cases "i = c1") simp_all
  have "?D \<le> 65535 * 4096" using i c(2) cs(2) by (intro mult_le_mono) simp_all
  then have ov: "?D < 2147483648" by simp
  have "unat sz \<le> 2 ^ 64" by (simp add: order_less_imp_le)
  then have D2: "?D + ?cnt \<le> 2 ^ 64" by (rule order_trans [OF D1])
  have sub: "urange (dst + of_nat ?D) ?cnt \<subseteq> S" "\<forall>v \<in> urange (dst + of_nat ?D) ?cnt. user_va v"
    using urange_shift(1) [OF D2] D1 rng by (auto simp: urange_def)
  have ui: "unat (cl + of_nat i) = unat cl + i" using c(2) i(2) by (simp add: unat_word_ariths unat_of_nat)
  have c2: "2 \<le> unat (cl + of_nat i)" using c(1) ui by simp
  have g: "fat_geometry (fat16 s)" "unat (cluster_size (fat16 s)) \<le> n" "0 + ?cnt \<le> unat (cluster_size (fat16 s))"
    using f buf(2) sz(2) by simp_all
  obtain s1 s2 A2 where r: "fat16_read_cluster K (cl + of_nat i) buf s = Inr s1" "fat16 s1 = fat16 s"
    "vmemcpy K (dst + of_nat ?D) (buf + of_nat 0) ?cnt s1 = Inr s2" "fat16 s2 = fat16 s"
    "mm_inv K s2 A2 H" "user_room s2 A2 S"
    "\<forall>v. user_va v \<longrightarrow> uview s2 v = (if v \<in> urange (dst + of_nat ?D) ?cnt
      then disk_byte disk (cluster_pos (fat16 s) (unat (cl + of_nat i)) + 0 + unat (v - (dst + of_nat ?D))) else uview s v)"
    by (rule cluster_copy [OF inv room disk g(1) c2 buf(1) g(2) sub g(3)])
  have csz: "unat (of_int (int cs - int 0) :: uint64) = cs" using cs(1) by (simp add: unat_of_nat)
  have one: "i = c0 \<Longrightarrow> i = c1 \<Longrightarrow> unat sz = r1" using sz(1) by simp
  have run: "readi_loop K cl buf dst sz c0 0 c1 r1 [i..<Suc c1] s = readi_loop K cl buf dst sz c0 0 c1 r1 [Suc i..<Suc c1] s2"
    using i r(1,2,3) f(1,3) ov csz one
    by (subst upt_conv_Cons) (auto simp: Let_def not_le)
  have ic: "i * cs = ?D + c0 * cs" using i(1) by (simp add: diff_mult_distrib)
  have pos: "cluster_pos f (unat (cl + of_nat i)) + unat (v - (dst + of_nat ?D)) =
      cluster_pos f (unat cl) + c0 * cs + unat (v - dst)" if "v \<in> urange (dst + of_nat ?D) ?cnt" for v
    unfolding ui cluster_pos_add [OF f(2) c(1)] f(3) using ic urange_shift [OF D2, of v dst] that by simp
  have "file_part disk (cluster_pos f (unat cl) + c0 * cs) dst ?D (?D + ?cnt) s s2"
    unfolding file_part_def
  proof (intro allI impI)
    fix v assume "user_va v"
    then show "uview s2 v = (if ?D \<le> unat (v - dst) \<and> unat (v - dst) < ?D + ?cnt
        then disk_byte disk (cluster_pos f (unat cl) + c0 * cs + unat (v - dst)) else uview s v)"
      using r(7) urange_shift(1) [OF D2, of v dst] pos [of v] f(1) by (simp del: of_nat_mult)
  qed
  then show thesis using that [OF run r(5,6)] r(4) f(1) by simp
qed

lemma readi_loop_aligned:
  assumes "mm_inv K s A H" and "user_room s A S" and disk: "ata_disk (port_dev K) disk"
    and "fat16 s = f" and f: "fat_geometry f" "unat (cluster_size f) = cs" and c: "2 \<le> unat cl" "unat cl + c1 \<le> 65535"
    and buf: "(buf, n) \<in> live H" "cs \<le> n"
    and rng: "urange dst (unat sz) \<subseteq> S" "\<forall>v \<in> urange dst (unat sz). user_va v"
    and sz: "unat sz = (c1 - c0) * cs + r1" "r1 < cs" and "c0 \<le> i" "i \<le> Suc c1" and le: "c0 \<le> c1"
  shows "\<exists>s' A'. readi_loop K cl buf dst sz c0 0 c1 r1 [i..<Suc c1] s = Inr s' \<and> mm_inv K s' A' H \<and>
    file_part disk (cluster_pos f (unat cl) + c0 * cs) dst ((i - c0) * cs) (unat sz) s s'"
  using assms(1,2,4,15,16)
proof (induction "Suc c1 - i" arbitrary: i s A)
  case 0
  then have i: "i = Suc c1" by simp
  have "unat sz \<le> (i - c0) * cs" using sz le by (simp add: i Suc_diff_le)
  with 0 i file_part_empty show ?case by auto
next
  case (Suc k)
  have i: "c0 \<le> i" "i \<le> c1" using Suc.hyps(2) Suc.prems(4) by simp_all
  obtain s1 A1 where r: "readi_loop K cl buf dst sz c0 0 c1 r1 [i..<Suc c1] s = readi_loop K cl buf dst sz c0 0 c1 r1 [Suc i..<Suc c1] s1"
    "mm_inv K s1 A1 H" "user_room s1 A1 S" "fat16 s1 = f"
    "file_part disk (cluster_pos f (unat cl) + c0 * cs) dst ((i - c0) * cs) ((i - c0) * cs + (if i = c1 then r1 else cs)) s s1"
    by (rule readi_step [OF Suc.prems(1,2) disk Suc.prems(3) f c buf rng sz i])
  show ?case
  proof (cases "i = c1")
    case True
    then show ?thesis using r sz(1) by auto
  next
    case False
    have mid: "(Suc i - c0) * cs = (i - c0) * cs + cs" using i by (simp add: Suc_diff_le)
    have hi: "(Suc i - c0) * cs \<le> unat sz" using False i sz(1) clusters_before [OF i(1), of c1 cs] mid by simp
    have "\<exists>s' A'. readi_loop K cl buf dst sz c0 0 c1 r1 [Suc i..<Suc c1] s1 = Inr s' \<and> mm_inv K s' A' H \<and>
        file_part disk (cluster_pos f (unat cl) + c0 * cs) dst ((Suc i - c0) * cs) (unat sz) s1 s'"
      by (rule Suc.hyps(1)) (use Suc.hyps(2) r(2-4) i in simp_all)
    with r(1,5) False mid hi show ?thesis
      by (auto intro!: file_part_join [of disk _ dst "(i - c0) * cs" "(i - c0) * cs + cs" s _ "unat sz"])
  qed
qed

text \<open>Both kinds of read for which the code copies to the right places.\<close>

lemma readi_loop_reads:
  assumes inv: "mm_inv K s A H" and room: "user_room s A S" and disk: "ata_disk (port_dev K) disk"
    and f: "fat16 s = f" "fat_geometry f" "unat (cluster_size f) = cs"
    and c: "2 \<le> unat cl" "unat cl + (off + unat sz) div cs \<le> 65535"
    and buf: "(buf, n) \<in> live H" "cs \<le> n"
    and rng: "urange dst (unat sz) \<subseteq> S" "\<forall>v \<in> urange dst (unat sz). user_va v"
    and kind: "off mod cs = 0 \<or> off div cs = (off + unat sz) div cs"
  shows "\<exists>s' A'. readi_loop K cl buf dst sz (off div cs) (off mod cs) ((off + unat sz) div cs) ((off + unat sz) mod cs)
      [off div cs..<Suc ((off + unat sz) div cs)] s = Inr s' \<and> mm_inv K s' A' H \<and>
    file_part disk (cluster_pos f (unat cl) + off) dst 0 (unat sz) s s'"
proof (cases "off mod cs = 0")
  case True
  let ?c0 = "off div cs" and ?c1 = "(off + unat sz) div cs" and ?r1 = "(off + unat sz) mod cs"
  have pos: "0 < cs" using f by (auto simp: fat_geometry_def word_less_nat_alt)
  have off: "?c0 * cs = off" using True by (simp add: mult_div_mod_eq [symmetric] mod_eq_0_iff_dvd)
  have le: "?c0 \<le> ?c1" by (rule div_le_mono) simp
  have "?c1 * cs + ?r1 = off + unat sz" by simp
  then have sz: "unat sz = (?c1 - ?c0) * cs + ?r1" using off le mult_le_mono1 [OF le, of cs] by (simp add: diff_mult_distrib)
  show ?thesis
    using readi_loop_aligned [OF inv room disk f(1,2,3) c buf rng sz _ order_refl _ le] pos off le True by simp
next
  case False
  let ?c0 = "off div cs"
  have eq: "(off + unat sz) div cs = ?c0" using kind False by simp
  have pos: "0 < cs" using f by (auto simp: fat_geometry_def word_less_nat_alt)
  have "off + unat sz < Suc ?c0 * cs" using eq pos by (metis dividend_less_div_times mult.commute mult_Suc_right add.commute mult_Suc)
  then have "off + unat sz < cs + ?c0 * cs" by simp
  moreover have "?c0 * cs + off mod cs = off" by simp
  moreover have "unat (cluster_size (fat16 s)) = cs" using f by simp
  ultimately have cnt: "off mod cs + unat sz \<le> unat (cluster_size (fat16 s))" by linarith
  have ui: "unat (cl + of_nat ?c0) = unat cl + ?c0" using c(2) eq by (simp add: unat_word_ariths unat_of_nat)
  have c2: "2 \<le> unat (cl + of_nat ?c0)" using c(1) ui by simp
  have g: "fat_geometry (fat16 s)" "unat (cluster_size (fat16 s)) \<le> n" using f buf(2) by simp_all
  obtain s1 s2 A2 where r: "fat16_read_cluster K (cl + of_nat ?c0) buf s = Inr s1" "fat16 s1 = fat16 s"
    "vmemcpy K dst (buf + of_nat (off mod cs)) (unat sz) s1 = Inr s2" "fat16 s2 = fat16 s"
    "mm_inv K s2 A2 H" "user_room s2 A2 S"
    "\<forall>v. user_va v \<longrightarrow> uview s2 v = (if v \<in> urange dst (unat sz)
      then disk_byte disk (cluster_pos (fat16 s) (unat (cl + of_nat ?c0)) + off mod cs + unat (v - dst)) else uview s v)"
    by (rule cluster_copy [OF inv room disk g(1) c2 buf(1) g(2) rng cnt])
  have "cluster_pos f (unat (cl + of_nat ?c0)) + off mod cs = cluster_pos f (unat cl) + off"
    unfolding ui cluster_pos_add [OF f(2) c(1)] f(3) by simp
  then have "file_part disk (cluster_pos f (unat cl) + off) dst 0 (unat sz) s s2"
    using r(7) f(1) by (simp add: file_part_def urange_def)
  then show ?thesis using r(1,2,3,5) by (intro exI [of _ s2] exI [of _ A2]) (simp add: eq Let_def)
qed

lemma half_arg: "unat (half_arg w) = unat w"
proof -
  have "unat w < 65536" using unsigned_less [of w] by simp
  then show ?thesis by (simp add: unsigned_ucast_eq take_bit_nat_eq_self)
qed

lemma cut16: "unat x < 65536 \<Longrightarrow> unat (ucast (x :: uint64) :: uint16) = unat x"
  by (simp add: unsigned_ucast_eq take_bit_nat_eq_self)

text \<open>The quotients and remainders that \<^verbatim>\<open>fat16_readi\<close> forms in 16 bits.\<close>

lemma readi_places:
  fixes x :: uint64
  assumes "0 < unat cs" and "unat x div unat cs \<le> 65535"
  shows "unat (ucast (x div half_arg cs) :: uint16) = unat x div unat cs"
    and "unat (ucast (x mod half_arg cs) :: uint16) = unat x mod unat cs"
proof -
  have "unat (x div half_arg cs) = unat x div unat cs" by (simp add: unat_div half_arg)
  then show "unat (ucast (x div half_arg cs) :: uint16) = unat x div unat cs" using assms(2) by (simp add: cut16)
  have m: "unat (x mod half_arg cs) = unat x mod unat cs" by (simp add: unat_mod half_arg)
  have "unat x mod unat cs < unat cs" "unat cs < 65536" using assms(1) unsigned_less [of cs] by simp_all
  then have "unat x mod unat cs < 65536" by linarith
  with m show "unat (ucast (x mod half_arg cs) :: uint16) = unat x mod unat cs" by (simp add: cut16)
qed

lemma user_range:
  assumes "USER_ADDR_START \<le> dst" and "unat dst + m \<le> 2 ^ 47"
  shows "\<forall>v \<in> urange dst m. user_va v"
proof
  have m: "m \<le> 2 ^ 64" using assms(2) by simp
  fix v assume "v \<in> urange dst m"
  then obtain k where k: "k < m" "v = dst + of_nat k" using urange_elem [OF m, of v dst] by auto
  have "unat v = unat dst + k" unfolding k(2) by (rule unat_add_no_wrap) (use assms(2) k(1) in simp)
  then show "user_va v" using assms k(1) by (simp add: user_va_def word_le_nat_alt word_less_nat_alt)
qed

text \<open>What \<^verbatim>\<open>fat16_readi\<close> does around its loop, for any loop that changes user memory by \<open>g\<close> within \<open>m\<close> bytes.\<close>

lemma fat16_readi_frame:
  fixes offset sz :: uint64 and g :: "uint64 \<Rightarrow> uint8 \<Rightarrow> uint8"
  defines "off \<equiv> unat offset" and "len \<equiv> unat sz"
  assumes inv: "mm_inv K s A H" and f: "fat16 s = f" "fat_geometry f" "unat (cluster_size f) = cs"
    and c: "unat (inode_id (mem s) ino) + (off + len) div cs \<le> 65535"
    and size: "off + len \<le> unat (inode_size (mem s) ino)"
    and dst: "USER_ADDR_START \<le> dst" "unat dst + m \<le> 2 ^ 47" and pages: "4 * (m div 4096 + 2) \<le> 128 * (big_left A - 2)"
    and loop: "\<And>buf n s1 A1 H1. mm_inv K s1 A1 H1 \<Longrightarrow> user_room s1 A1 (urange dst m) \<Longrightarrow> fat16 s1 = f \<Longrightarrow>
      (buf, n) \<in> live H1 \<Longrightarrow> cs \<le> n \<Longrightarrow> \<forall>v \<in> urange dst m. user_va v \<Longrightarrow>
      \<exists>s2 A2. readi_loop K (ucast (inode_id (mem s) ino)) buf dst sz (off div cs) (off mod cs) ((off + len) div cs)
          ((off + len) mod cs) [off div cs..<Suc ((off + len) div cs)] s1 = Inr s2 \<and> mm_inv K s2 A2 H1 \<and>
        (\<forall>v. user_va v \<longrightarrow> uview s2 v = g v (uview s1 v))"
  shows "\<exists>s' A' H'. fat16_readi K ino dst offset sz s = Inr (0, s') \<and> mm_inv K s' A' H' \<and> live H' = live H \<and>
    (\<forall>v. user_va v \<longrightarrow> uview s' v = g v (uview s v))"
proof -
  let ?id = "inode_id (mem s) ino" and ?cl = "ucast (inode_id (mem s) ino) :: uint16" and ?S = "urange dst m"
  have id: "unat ?id \<le> 65535" using c by simp
  have cs: "0 < cs" "cs \<le> 4096" using f by (auto simp: fat_geometry_def word_less_nat_alt word_le_nat_alt)
  have nw: "unat (offset + sz) = off + len"
    using unat_add_no_wrap [of offset "unat sz"] le_less_trans [OF size unat_less_2p64] by (simp add: off_def len_def)
  have csw: "half_arg (cluster_size f) \<le> 4096" using cs(2) f(3) by (simp add: word_le_nat_alt half_arg)
  then have csb: "half_arg (cluster_size f) \<le> 524288" by (simp add: word_le_nat_alt)
  have u0: "0 < unat (cluster_size f)" using cs(1) f(3) by simp
  have d0: "unat offset div unat (cluster_size f) \<le> 65535" "unat (offset + sz) div unat (cluster_size f) \<le> 65535"
    using c div_le_mono [of off "off + len" cs] unfolding nw f(3) off_def [symmetric] by simp_all
  note pl = readi_places [OF u0 d0(1), unfolded f(3), folded off_def] readi_places [OF u0 d0(2), unfolded nw f(3)]
  have user: "\<forall>v \<in> urange dst m. user_va v" by (rule user_range [OF dst])
  have big: "2 \<le> big_left A" using pages by simp
  show ?thesis
  proof (rule mm_kmalloc [OF inv csb])
    assume "big_left A < 2"
    with big show ?thesis by simp
  next
    let ?n = "slot_sz (class_of (half_arg (cluster_size f)))"
    fix buf s1 A1 H1
    assume k: "kmalloc K (half_arg (cluster_size f)) s = Inr (buf, s1)" and g: "heap_grant K s A H buf ?n s1 A1 H1"
      and b: "big_left A \<le> big_left A1 + 2" and inv1: "mm_inv K s1 A1 H1"
      and uv: "\<forall>va. user_va va \<longrightarrow> uview s1 va = uview s va"
    have bl0: "0 < ?n" by (simp add: slot_sz_def)
    have lv: "live H1 = insert (buf, ?n) (live H)" and st: "s1 = s\<lparr>mem := mem s1, pmmap := pmmap s1\<rparr>"
      and fresh: "(buf, ?n) \<notin> live H"
      using g granted_fresh [OF g, of ?n] bl0 unfolding heap_grant_def heap_step_def by blast+
    have f1: "fat16 s1 = f" by (subst st) (simp add: f(1))
    have bl: "(buf, ?n) \<in> live H1" "cs \<le> ?n" using lv class_room [OF csb] f(3) by (simp_all add: half_arg)
    have "4 * (m div 4096 + 2) \<le> pm_pages A1" using pages b by (simp add: pm_pages_def big_left_def)
    then have room: "user_room s1 A1 ?S" by (rule range_room [rotated]) (use dst(2) in simp)
    from loop [OF inv1 room f1 bl user] obtain s2 A2 where l: "readi_loop K ?cl buf dst sz (off div cs) (off mod cs) ((off + len) div cs)
        ((off + len) mod cs) [off div cs..<Suc ((off + len) div cs)] s1 = Inr s2" "mm_inv K s2 A2 H1"
      "\<forall>v. user_va v \<longrightarrow> uview s2 v = g v (uview s1 v)"
      by (elim exE conjE) (rule that)
    obtain s3 A3 H3 where fr: "kmfree K buf s2 = Inr s3" "live H3 = live H1 - {(buf, ?n)}" "mm_inv K s3 A3 H3"
      "\<forall>va. user_va va \<longrightarrow> uview s3 va = uview s2 va"
      by (rule mm_kmfree [OF l(2) bl(1) live_aligned [OF mm_invD(1) [OF l(2)] bl(1) class_small [OF csw]]])
    have cs0: "cluster_size f \<noteq> 0" using u0 by auto
    have "fat16_readi K ino dst offset sz s = Inr (0, s3)"
      using id size nw k l(1) fr(1) cs0 pl f(1) unfolding fat16_readi_def len_def
      by (simp add: Let_def word_le_nat_alt not_less word_less_nat_alt del: upt_Suc)
    moreover have "live H3 = live H" using fr(2) lv fresh by auto
    moreover have "\<forall>v. user_va v \<longrightarrow> uview s3 v = g v (uview s v)" using l(3) uv fr(4) by simp
    ultimately show ?thesis using fr(3) by blast
  qed
qed

lemma fat16_readi_spec:
  fixes offset sz :: uint64
  defines "off \<equiv> unat offset" and "len \<equiv> unat sz"
  assumes inv: "mm_inv K s A H" and disk: "ata_disk (port_dev K) disk"
    and f: "fat16 s = f" "fat_geometry f" "unat (cluster_size f) = cs"
    and c: "2 \<le> unat (inode_id (mem s) ino)" "unat (inode_id (mem s) ino) + (off + len) div cs \<le> 65535"
    and size: "off + len \<le> unat (inode_size (mem s) ino)"
    and dst: "USER_ADDR_START \<le> dst" "unat dst + len \<le> 2 ^ 47"
    and kind: "off mod cs = 0 \<or> off div cs = (off + len) div cs"
    and pages: "4 * (len div 4096 + 2) \<le> 128 * (big_left A - 2)"
  shows "\<exists>s' A' H'. fat16_readi K ino dst offset sz s = Inr (0, s') \<and> mm_inv K s' A' H' \<and> live H' = live H \<and>
    file_part disk (cluster_pos f (unat (inode_id (mem s) ino)) + off) dst 0 len s s'"
proof -
  let ?id = "inode_id (mem s) ino" and ?g = "\<lambda>v u. if 0 \<le> unat (v - dst) \<and> unat (v - dst) < len
    then disk_byte disk (cluster_pos f (unat (inode_id (mem s) ino)) + off + unat (v - dst)) else u"
  have cl: "unat (ucast ?id :: uint16) = unat ?id" by (rule cut16) (use c(2) in simp)
  have "2 \<le> unat (ucast ?id :: uint16)" "unat (ucast ?id :: uint16) + (unat offset + unat sz) div cs \<le> 65535"
    using c cl by (simp_all add: off_def len_def)
  note lp = readi_loop_reads [OF _ _ disk _ f(2,3) this _ _ order_refl _ kind [unfolded off_def len_def], unfolded cl file_part_def]
  show ?thesis unfolding file_part_def off_def len_def
    by (rule fat16_readi_frame [OF inv f c(2) [unfolded off_def len_def] size [unfolded off_def len_def] dst(1) dst(2) [unfolded len_def]
        pages [unfolded len_def]]) (rule lp; assumption)
qed


lemma demo_file:
  obtains s A H where "mm_inv (demo_layout\<lparr>port_dev := demo_disk\<rparr>) s A H" and "105 \<le> big_left A"
    and "inode_id (mem s) 0x1000 = 5" and "inode_size (mem s) 0x1000 = 2000" and "fat16 s = fat16 demo_state"
    and "fat_geometry (fat16 s)" and "unat (cluster_size (fat16 s)) = 512" and "ata_disk (port_dev (demo_layout\<lparr>port_dev := demo_disk\<rparr>)) of_nat"
proof -
  let ?K = "demo_layout\<lparr>port_dev := demo_disk\<rparr>"
  obtain s0 A H where s0: "mm_inv ?K s0 A H" "105 \<le> big_left A" by (rule demo_mm_dev [of demo_disk])
  let ?s = "s0\<lparr>mem := store64 (store64 (mem s0) 0x1000 5) 0x1008 2000, fat16 := fat16 demo_state\<rparr>"
  have "\<forall>x. mem ?s x \<noteq> mem s0 x \<longrightarrow> unat x \<in> kernel_bytes ?K H \<and>
      (\<forall>i r. slab_in H i r \<longrightarrow> \<not> in_block 24 (sl_entry r) (unat x))"
  proof (intro allI impI)
    fix x assume "mem ?s x \<noteq> mem s0 x"
    then have "store64 (store64 (mem s0) 0x1000 5) 0x1008 2000 x \<noteq> mem s0 x" by simp
    then have "x \<in> bytes_at 0x1000 8 \<or> x \<in> bytes_at 0x1008 8" by (metis quad_cell.store_outside)
    then have "unat x < 0x1010" using bytes_at_in_block [of "0x1000" 8 x] bytes_at_in_block [of "0x1008" 8 x]
      by (auto simp: in_block_def)
    then show "unat x \<in> kernel_bytes ?K H \<and> (\<forall>i r. slab_in H i r \<longrightarrow> \<not> in_block 24 (sl_entry r) (unat x))"
      by (intro image_is_kernel [OF mm_invD(1) [OF s0(1)]]) (simp_all add: demo_layout_def in_block_def)
  qed
  then have inv: "mm_inv ?K ?s A H" by (intro mm_kernel_write(1) [OF s0(1)]) simp_all
  have bytes_apart: "bytes_at (0x1008 :: uint64) 8 \<inter> bytes_at 0x1000 8 = {}"
    by (auto simp: bytes_at_in_block in_block_def)
  have ino: "inode_id (mem ?s) 0x1000 = 5" "inode_size (mem ?s) 0x1000 = 2000"
    using quad_cell.load_store_other [of "0x1008" "0x1000"] bytes_apart
    by (simp_all add: inode_id_def inode_size_def quad_cell.load_store)
  show thesis
    by (rule that [OF inv s0(2) ino]) (simp_all add: fat_geometry_def demo_state_def demo_ata)
qed


section \<open>A read across a cluster boundary that starts inside a cluster\<close>

lemma readi_loop_gap:
  assumes inv: "mm_inv K s A H" and room: "user_room s A S" and disk: "ata_disk (port_dev K) disk"
    and f: "fat16 s = f" "fat_geometry f" "unat (cluster_size f) = cs" and c: "2 \<le> unat cl" "unat cl + Suc c0 \<le> 65535"
    and buf: "(buf, n) \<in> live H" "cs \<le> n" and r: "r0 < cs" "r1 < cs"
    and rng: "urange dst (cs + r1) \<subseteq> S" "\<forall>v \<in> urange dst (cs + r1). user_va v"
  shows "\<exists>s' A'. readi_loop K cl buf dst sz c0 r0 (Suc c0) r1 [c0..<Suc (Suc c0)] s = Inr s' \<and> mm_inv K s' A' H \<and>
    (\<forall>v. user_va v \<longrightarrow> uview s' v =
      (if unat (v - dst) < cs - r0 then disk_byte disk (cluster_pos f (unat cl) + c0 * cs + r0 + unat (v - dst))
       else if cs \<le> unat (v - dst) \<and> unat (v - dst) < cs + r1 then disk_byte disk (cluster_pos f (unat cl) + c0 * cs + unat (v - dst))
       else uview s v))"
proof -
  have "unat (cluster_size f) < 65536" using unsigned_less [of "cluster_size f"] by simp
  then have cs: "cs < 65536" using f(3) by simp
  have u0: "unat (cl + of_nat c0) = unat cl + c0" using c(2) by (simp add: unat_word_ariths unat_of_nat)
  have u1: "unat (cl + of_nat (Suc c0)) = unat cl + Suc c0" using c(2) by (simp add: unat_word_ariths unat_of_nat)
  have c2: "2 \<le> unat (cl + of_nat c0)" "2 \<le> unat (cl + of_nat (Suc c0))" unfolding u0 u1 using c(1) by simp_all
  have le: "cs + r1 \<le> 2 ^ 64" using cs r(2) by simp
  have sub0: "urange dst (cs - r0) \<subseteq> S" "\<forall>v \<in> urange dst (cs - r0). user_va v" using rng by (auto simp: urange_def)
  have sub1: "urange (dst + of_nat cs) r1 \<subseteq> S" "\<forall>v \<in> urange (dst + of_nat cs) r1. user_va v"
    using urange_shift(1) [OF le] rng by (auto simp: urange_def)
  have g0: "fat_geometry (fat16 s)" "unat (cluster_size (fat16 s)) \<le> n" "r0 + (cs - r0) \<le> unat (cluster_size (fat16 s))"
    using f buf(2) r(1) by simp_all
  obtain s1 s2 A2 where 1: "fat16_read_cluster K (cl + of_nat c0) buf s = Inr s1" "fat16 s1 = fat16 s"
    "vmemcpy K dst (buf + of_nat r0) (cs - r0) s1 = Inr s2" "fat16 s2 = fat16 s" "mm_inv K s2 A2 H" "user_room s2 A2 S"
    "\<forall>v. user_va v \<longrightarrow> uview s2 v = (if v \<in> urange dst (cs - r0)
      then disk_byte disk (cluster_pos (fat16 s) (unat (cl + of_nat c0)) + r0 + unat (v - dst)) else uview s v)"
    by (rule cluster_copy [OF inv room disk g0(1) c2(1) buf(1) g0(2) sub0 g0(3)])
  have g1: "fat_geometry (fat16 s2)" "unat (cluster_size (fat16 s2)) \<le> n" "0 + r1 \<le> unat (cluster_size (fat16 s2))"
    using f 1(4) buf(2) r(2) by simp_all
  obtain s3 s4 A4 where 2: "fat16_read_cluster K (cl + of_nat (Suc c0)) buf s2 = Inr s3" "fat16 s3 = fat16 s2"
    "vmemcpy K (dst + of_nat cs) (buf + of_nat 0) r1 s3 = Inr s4" "fat16 s4 = fat16 s2" "mm_inv K s4 A4 H" "user_room s4 A4 S"
    "\<forall>v. user_va v \<longrightarrow> uview s4 v = (if v \<in> urange (dst + of_nat cs) r1
      then disk_byte disk (cluster_pos (fat16 s2) (unat (cl + of_nat (Suc c0))) + 0 + unat (v - (dst + of_nat cs))) else uview s2 v)"
    by (rule cluster_copy [OF 1(5,6) disk g1(1) c2(2) buf(1) g1(2) sub1 g1(3)])
  have csz: "unat (of_int (int cs - int r0) :: uint64) = cs - r0"
  proof -
    have "(of_int (int cs - int r0) :: uint64) = of_nat (cs - r0)" using r(1) by (simp add: of_nat_diff)
    then show ?thesis using cs by (simp add: unat_of_nat)
  qed
  have uc: "uint (cluster_size f) = int cs" by (simp add: f(3) [symmetric])
  have up: "[c0..<Suc (Suc c0)] = [c0, Suc c0]" by (simp add: upt_conv_Cons)
  have run: "readi_loop K cl buf dst sz c0 r0 (Suc c0) r1 [c0..<Suc (Suc c0)] s = Inr s4"
    unfolding up using 1(1,2,3,4) 2(1,2,3) f(1,3) csz cs uc by (simp add: Let_def del: of_int_diff)
  have val: "uview s4 v = (if unat (v - dst) < cs - r0 then disk_byte disk (cluster_pos f (unat cl) + c0 * cs + r0 + unat (v - dst))
       else if cs \<le> unat (v - dst) \<and> unat (v - dst) < cs + r1 then disk_byte disk (cluster_pos f (unat cl) + c0 * cs + unat (v - dst))
       else uview s v)" if v: "user_va v" for v
  proof -
    have p0: "cluster_pos f (unat (cl + of_nat c0)) = cluster_pos f (unat cl) + c0 * cs"
      unfolding u0 cluster_pos_add [OF f(2) c(1)] f(3) by simp
    have p1: "cluster_pos f (unat (cl + of_nat (Suc c0))) = cluster_pos f (unat cl) + c0 * cs + cs"
      unfolding u1 cluster_pos_add [OF f(2) c(1)] f(3) by simp
    have in0: "v \<in> urange dst (cs - r0) \<longleftrightarrow> unat (v - dst) < cs - r0" by (simp add: urange_def)
    note in1 = urange_shift [OF le, of v dst]
    show ?thesis using 1(7) 2(7) v 1(4) f(1) in0 in1 p0 p1 by (auto simp: add.assoc)
  qed
  then show ?thesis using run 2(5) by blast
qed



end
