(* ===== verification/InodeOps.thy ===== *)
theory InodeOps
  imports ListOps Inode
begin

text \<open>
  In-core inodes, \<^verbatim>\<open>fs/inode.c\<close>, on the lists of the heap: what \<^verbatim>\<open>ialloc\<close> finds or adds, and when
  \<^verbatim>\<open>ifree\<close> lets a record go.
\<close>

definition inode_inv :: "klayout \<Rightarrow> kstate \<Rightarrow> pm_abs \<Rightarrow> heap_abs \<Rightarrow> uint64 list \<Rightarrow> uint64 list \<Rightarrow> bool" where
  "inode_inv K s A H cs ips \<longleftrightarrow> list_inv K s A H (inode_list_at K) cs \<and> map (list_node (mem s)) cs = ips \<and>
     distinct ips \<and> (\<forall>ip \<in> set ips. (ip, 64) \<in> live H \<and> ip \<notin> set cs)"

lemma inode_invD:
  assumes "inode_inv K s A H cs ips"
  shows "list_inv K s A H (inode_list_at K) cs" "map (list_node (mem s)) cs = ips" "distinct ips"
    "ip \<in> set ips \<Longrightarrow> (ip, 64) \<in> live H" "ip \<in> set ips \<Longrightarrow> ip \<notin> set cs" "heap_rel K s A H"
  using assms by (auto simp: inode_inv_def list_inv_def)

lemma inode_bytes:
  assumes "heap_rel K s A H" and "(ip, 64) \<in> live H"
  shows "x \<in> bytes_at ip 24 \<longleftrightarrow> in_block 24 ip (unat x)"
  using bytes_at_in_block [of ip 24 x] live_no_wrap(4) [OF assms] by simp

lemma inode_parts: "bytes_at ip 8 \<subseteq> bytes_at ip 24" "bytes_at (ip + 8) 8 \<subseteq> bytes_at ip 24"
  "bytes_at (ip + 16) 2 \<subseteq> bytes_at ip 24"
  using bytes_at_offset_subset [of 0 8 24 ip] bytes_at_offset_subset [of 8 8 24 ip]
    bytes_at_offset_subset [of 16 2 24 ip] by simp_all

lemma inode_cong:
  assumes "\<And>x. x \<in> bytes_at ip 24 \<Longrightarrow> m' x = m x"
  shows "inode_id m' ip = inode_id m ip" "inode_size m' ip = inode_size m ip" "inode_refcnt m' ip = inode_refcnt m ip"
  using assms inode_parts [of ip] unfolding inode_id_def inode_size_def inode_refcnt_def
  by (auto intro!: quad_cell.load_local half_cell.load_local)

lemma inode_set:
  "inode_id (store16 m (ip + 16) r) ip = inode_id m ip" "inode_size (store16 m (ip + 16) r) ip = inode_size m ip"
  "inode_refcnt (store16 m (ip + 16) r) ip = r"
  "inode_id (store64 m (ip + 8) v) ip = inode_id m ip" "inode_size (store64 m (ip + 8) v) ip = v"
  "inode_id (store64 m ip v) ip = v" "inode_refcnt (store64 m (ip + 8) v) ip = inode_refcnt m ip"
proof -
  have "bytes_at (ip + 16) 2 \<inter> bytes_at ip 8 = {}" "bytes_at (ip + 16) 2 \<inter> bytes_at (ip + 8) 8 = {}"
    by (rule bytes_at_apart; simp)+
  then show "inode_id (store16 m (ip + 16) r) ip = inode_id m ip" "inode_size (store16 m (ip + 16) r) ip = inode_size m ip"
    unfolding inode_id_def inode_size_def by (auto intro!: quad_cell.load_local half_cell.store_outside)
  have "bytes_at (ip + 8) 8 \<inter> bytes_at (ip + 16) 2 = {}" by (rule bytes_at_apart) simp_all
  then show "inode_refcnt (store64 m (ip + 8) v) ip = inode_refcnt m ip"
    unfolding inode_refcnt_def by (auto intro!: half_cell.load_local quad_cell.store_outside)
qed (simp_all add: inode_id_def inode_size_def inode_refcnt_def half_cell.load_store quad_apart)

lemma inode_same:
  assumes "heap_rel K s A H" and "(q, 64) \<in> live H" and "\<forall>x. in_block 64 q (unat x) \<longrightarrow> m' x = m x"
  shows "inode_id m' q = inode_id m q" "inode_size m' q = inode_size m q" "inode_refcnt m' q = inode_refcnt m q"
proof -
  have "m' x = m x" if "x \<in> bytes_at q 24" for x
    using assms(3) that inode_bytes [OF assms(1,2), of x] in_block_sub [of 24 q "unat x" 64] by simp
  from inode_cong [OF this] show "inode_id m' q = inode_id m q" "inode_size m' q = inode_size m q"
    "inode_refcnt m' q = inode_refcnt m q" by simp_all
qed

text \<open>Writes into one inode.\<close>

lemma inode_store_out:
  assumes rel: "heap_rel K s A H" and ip: "(ip, 64) \<in> live H" and x: "\<not> in_block 24 ip (unat x)"
  shows "store64 m ip v x = m x" "store64 m (ip + 8) v x = m x" "store16 m (ip + 16) r x = m x"
proof -
  have "x \<notin> bytes_at ip 24" using inode_bytes [OF rel ip, of x] x by simp
  then have "x \<notin> bytes_at ip 8" "x \<notin> bytes_at (ip + 8) 8" "x \<notin> bytes_at (ip + 16) 2" using inode_parts [of ip] by auto
  then show "store64 m ip v x = m x" "store64 m (ip + 8) v x = m x" "store16 m (ip + 16) r x = m x"
    by (simp_all add: quad_cell.store_outside half_cell.store_outside)
qed

lemma inode_write:
  assumes inv: "inode_inv K s A H cs ips" and ip: "(ip, 64) \<in> live H" "ip \<notin> set cs"
    and same: "pmmap s' = pmmap s" "memtotal s' = memtotal s"
    and out: "\<forall>x. \<not> in_block 24 ip (unat x) \<longrightarrow> mem s' x = mem s x"
  shows "inode_inv K s' A H cs ips"
    and "q \<in> set ips \<Longrightarrow> q \<noteq> ip \<Longrightarrow> inode_id (mem s') q = inode_id (mem s) q \<and>
      inode_size (mem s') q = inode_size (mem s) q \<and> inode_refcnt (mem s') q = inode_refcnt (mem s) q"
proof -
  note D = inode_invD [OF inv]
  have out64: "\<forall>x. \<not> in_block 64 ip (unat x) \<longrightarrow> mem s' x = mem s x" using out in_block_sub [of 24 ip _ 64] by auto
  note w = list_object_write [OF D(1) ip same out64]
  have "map (list_node (mem s')) cs = ips" using w(2) D(2) by (rule trans)
  then show "inode_inv K s' A H cs ips" using w(1) inv by (simp add: inode_inv_def)
  show "inode_id (mem s') q = inode_id (mem s) q \<and> inode_size (mem s') q = inode_size (mem s) q \<and>
      inode_refcnt (mem s') q = inode_refcnt (mem s) q" if q: "q \<in> set ips" "q \<noteq> ip"
  proof -
    have "mem s' x = mem s x" if "x \<in> bytes_at q 24" for x
    proof -
      have x: "in_block 24 q (unat x)" using that inode_bytes [OF D(6) D(4) [OF q(1)]] by simp
      then have "in_block 64 q (unat x)" by (rule in_block_sub) simp
      then have "\<not> in_block 64 ip (unat x)" using live_apart [OF D(6) D(4) [OF q(1)] ip(1) q(2), of "unat x"] by blast
      with out64 show ?thesis by blast
    qed
    from inode_cong [OF this] show ?thesis by simp
  qed
qed

lemma inode_kernel_data: "(ip, 64) \<in> live H \<Longrightarrow> in_block 24 ip x \<Longrightarrow> kernel_data K H x"
  using in_block_sub [of 24 ip x 64] unfolding kernel_data_def by auto

section \<open>The search\<close>

lemma inode_find_spec:
  assumes "chain (list_next m) p cs" and "length cs < fuel"
  shows "inode_find fuel m p ino = Inr (find (\<lambda>ip. inode_id m ip = ino) (map (list_node m) cs))"
  using assms
proof (induction cs arbitrary: p fuel)
  case Nil
  then obtain f where "fuel = Suc f" by (cases fuel) auto
  with Nil show ?case by simp
next
  case (Cons c cs)
  then obtain f where f: "fuel = Suc f" "length cs < f" by (cases fuel) auto
  with Cons.IH [of "list_next m p" f] Cons.prems show ?case by auto
qed

lemma inode_find_list:
  assumes inv: "inode_inv K s A H cs ips" and n: "inode_id (mem s) NULL \<noteq> ino"
  shows "inode_find (loop_fuel K) (mem s) (inode_list_at K) ino = Inr (find (\<lambda>ip. inode_id (mem s) ip = ino) ips)"
proof -
  note D = inode_invD [OF inv]
  have k: "chain (list_next (mem s)) (inode_list_at K) (inode_list_at K # cs)" "list_node (mem s) (inode_list_at K) = NULL"
    using D(1) by (auto simp: list_inv_def klist_def)
  have "length (inode_list_at K # cs) < loop_fuel K" using list_length [OF D(1)] by simp
  from inode_find_spec [OF k(1) this, of ino] k(2) D(2) n show ?thesis by auto
qed

section \<open>A new inode\<close>

lemma inode_inv_grant:
  assumes inv: "inode_inv K s A H cs ips" and g: "heap_grant K s A H a n s' A' H'"
  shows "inode_inv K s' A' H' cs ips"
    and "q \<in> set ips \<Longrightarrow> inode_id (mem s') q = inode_id (mem s) q \<and> inode_size (mem s') q = inode_size (mem s) q \<and>
      inode_refcnt (mem s') q = inode_refcnt (mem s) q"
proof -
  note D = inode_invD [OF inv]
  note i1 = list_inv_grant [OF D(1) g]
  have lv: "live H' = insert (a, n) (live H)" using g by (simp add: heap_grant_def)
  have "map (list_node (mem s')) cs = ips" using i1(2) D(2) by (rule trans)
  then show "inode_inv K s' A' H' cs ips" using i1(1) inv lv by (simp add: inode_inv_def)
  have keep: "\<forall>b m x. (b, m) \<in> live H \<longrightarrow> in_block m b (unat x) \<longrightarrow> mem s' x = mem s x"
    using g unfolding heap_grant_def heap_step_def by blast
  show "inode_id (mem s') q = inode_id (mem s) q \<and> inode_size (mem s') q = inode_size (mem s) q \<and>
      inode_refcnt (mem s') q = inode_refcnt (mem s) q" if q: "q \<in> set ips"
  proof -
    have "\<forall>x. in_block 64 q (unat x) \<longrightarrow> mem s' x = mem s x" using keep D(4) [OF q] by blast
    from inode_same [OF D(6) D(4) [OF q] this] show ?thesis by simp
  qed
qed

lemma inode_push:
  assumes inv: "inode_inv K s A H cs ips" and ip: "(ip, 64) \<in> live H" "ip \<notin> set cs" "ip \<notin> set ips"
  obtains "list_push K (inode_list_at K) ip s = Inl (Panic ''pmalloc: out of memory'')" "big_left A < 2"
  | c s' A' H' where "list_push K (inode_list_at K) ip s = Inr s'" "inode_inv K s' A' H' (cs @ [c]) (ips @ [ip])"
      "\<forall>q \<in> set (ips @ [ip]). inode_id (mem s') q = inode_id (mem s) q \<and> inode_size (mem s') q = inode_size (mem s) q \<and>
        inode_refcnt (mem s') q = inode_refcnt (mem s) q"
      "data_run K s A H s' A' H'" "big_left A \<le> big_left A' + 2" "live H \<subseteq> live H'"
proof -
  note D = inode_invD [OF inv]
  have all: "(q, 64) \<in> live H \<and> q \<notin> set cs" if "q \<in> set (ips @ [ip])" for q using that D(4,5) [of q] ip by auto
  show thesis
  proof (rule list_push_spec [OF D(1), of ip])
    fix c s' A' H'
    assume r: "list_push K (inode_list_at K) ip s = Inr s'" and i: "list_inv K s' A' H' (inode_list_at K) (cs @ [c])"
      and nd: "map (list_node (mem s')) (cs @ [c]) = map (list_node (mem s)) cs @ [ip]"
      and lv: "live H' = insert (c, 64) (live H)" "\<forall>n. (c, n) \<notin> live H"
      and keep: "\<forall>b m x. (b, m) \<in> live H \<longrightarrow> b \<notin> set cs \<longrightarrow> in_block m b (unat x) \<longrightarrow> mem s' x = mem s x"
      and bl: "big_left A \<le> big_left A' + 2"
      and steps: "\<exists>s1. heap_grant K s A H c 64 s1 A' H' \<and> s' = s1\<lparr>mem := mem s'\<rparr> \<and>
        (\<forall>x. \<not> in_block 24 c (unat x) \<longrightarrow> \<not> in_block 24 (last (inode_list_at K # cs)) (unat x) \<longrightarrow> mem s' x = mem s1 x)"
    have "(q, 64) \<in> live H' \<and> q \<notin> set (cs @ [c])" if "q \<in> set (ips @ [ip])" for q using all [OF that] lv by auto
    moreover have "map (list_node (mem s')) (cs @ [c]) = ips @ [ip]" using nd D(2) by simp
    ultimately have inv': "inode_inv K s' A' H' (cs @ [c]) (ips @ [ip])" using i D(3) ip(3) by (simp add: inode_inv_def)
    have f: "\<forall>q \<in> set (ips @ [ip]). inode_id (mem s') q = inode_id (mem s) q \<and> inode_size (mem s') q = inode_size (mem s) q \<and>
        inode_refcnt (mem s') q = inode_refcnt (mem s) q"
    proof
      fix q assume "q \<in> set (ips @ [ip])"
      note q = all [OF this]
      then have "\<forall>x. in_block 64 q (unat x) \<longrightarrow> mem s' x = mem s x" using keep by blast
      from inode_same [OF D(6) conjunct1 [OF q] this] show "inode_id (mem s') q = inode_id (mem s) q \<and>
          inode_size (mem s') q = inode_size (mem s) q \<and> inode_refcnt (mem s') q = inode_refcnt (mem s) q" by simp
    qed
    show thesis by (rule that(2) [OF r inv' f push_data_run [OF i steps] bl]) (use lv(1) in blast)
  qed (use that(1) in blast)
qed

lemma ialloc_new:
  assumes inv: "inode_inv K s A H cs ips" and n: "inode_id (mem s) NULL \<noteq> ino"
    and none: "find (\<lambda>ip. inode_id (mem s) ip = ino) ips = None"
  obtains "ialloc K ino s = Inl (Panic ''pmalloc: out of memory'')" "big_left A < 4"
  | ip s' A' H' cs' where "ialloc K ino s = Inr (ip, s')" "inode_inv K s' A' H' cs' (ips @ [ip])"
      "inode_id (mem s') ip = ino" "inode_refcnt (mem s') ip = 1" "inode_size (mem s') ip = 0"
      "\<forall>q \<in> set ips. inode_id (mem s') q = inode_id (mem s) q \<and> inode_size (mem s') q = inode_size (mem s) q \<and>
        inode_refcnt (mem s') q = inode_refcnt (mem s) q"
      "data_run K s A H s' A' H'" "live H \<subseteq> live H'"
proof -
  note D = inode_invD [OF inv]
  have ia: "ialloc K ino s = ebind (kmalloc K sizeof_inode_t s) (\<lambda>(ip, s).
      let s = set_inode_refcnt ip 1 (set_inode_size ip 0 (set_inode_id ip ino s))
      in ebind (list_push K (inode_list_at K) ip s) (\<lambda>s. Inr (ip, s)))"
    using inode_find_list [OF inv n] none by (simp add: ialloc_def Let_def)
  have sz: "sizeof_inode_t \<le> 524288" "slot_sz (class_of sizeof_inode_t) = 64"
    by (simp_all add: sizeof_inode_t_def class_of_def size_to_slab_idx_def slot_sz_def)
  show thesis
  proof (rule kmalloc_cases [OF D(6) list_inv_fuel [OF D(1)] sz(1)])
    assume "kmalloc K sizeof_inode_t s = Inl (Panic ''pmalloc: out of memory'')" "big_left A < 2"
    with that(1) ia show thesis by simp
  next
    fix ip s1 A1 H1
    assume r: "kmalloc K sizeof_inode_t s = Inr (ip, s1)" and bl: "big_left A \<le> big_left A1 + 2"
      and "heap_grant K s A H ip (slot_sz (class_of sizeof_inode_t)) s1 A1 H1"
    then have g: "heap_grant K s A H ip 64 s1 A1 H1" by (simp add: sz)
    have lv1: "live H1 = insert (ip, 64) (live H)" and fresh: "\<forall>b m x. (b, m) \<in> live H \<longrightarrow> \<not> (in_block 64 ip x \<and> in_block m b x)"
      using g unfolding heap_grant_def by blast+
    note g1 = inode_inv_grant [OF inv g]
    have "(ip, 64) \<notin> live H" using fresh by (force simp: in_block_def)
    then have ip: "(ip, 64) \<in> live H1" "ip \<notin> set cs" "ip \<notin> set ips" using lv1 D(1,4) by (auto simp: list_inv_def)
    let ?s2 = "set_inode_refcnt ip 1 (set_inode_size ip 0 (set_inode_id ip ino s1))"
    have same: "pmmap ?s2 = pmmap s1" "memtotal ?s2 = memtotal s1"
      by (simp_all add: set_inode_refcnt_def set_inode_size_def set_inode_id_def)
    have out: "\<forall>x. \<not> in_block 24 ip (unat x) \<longrightarrow> mem ?s2 x = mem s1 x"
      using inode_store_out [OF inode_invD(6) [OF g1(1)] ip(1)]
      by (simp add: set_inode_refcnt_def set_inode_size_def set_inode_id_def)
    note w = inode_write [OF g1(1) ip(1,2) same out]
    have f2: "inode_id (mem ?s2) ip = ino" "inode_refcnt (mem ?s2) ip = 1" "inode_size (mem ?s2) ip = 0"
      by (simp_all add: set_inode_refcnt_def set_inode_size_def set_inode_id_def inode_set)
    show thesis
    proof (rule inode_push [OF w(1) ip])
      assume "list_push K (inode_list_at K) ip ?s2 = Inl (Panic ''pmalloc: out of memory'')" "big_left A1 < 2"
      with that(1) ia r bl show thesis by simp
    next
      fix c s' A' H'
      assume p: "list_push K (inode_list_at K) ip ?s2 = Inr s'" "inode_inv K s' A' H' (cs @ [c]) (ips @ [ip])"
        and f: "\<forall>q \<in> set (ips @ [ip]). inode_id (mem s') q = inode_id (mem ?s2) q \<and>
          inode_size (mem s') q = inode_size (mem ?s2) q \<and> inode_refcnt (mem s') q = inode_refcnt (mem ?s2) q"
        and dr: "data_run K ?s2 A1 H1 s' A' H'" and sub: "live H1 \<subseteq> live H'"
      have "q \<noteq> ip" if "q \<in> set ips" for q using that ip(3) by auto
      with f g1(2) w(2) have others: "\<forall>q \<in> set ips. inode_id (mem s') q = inode_id (mem s) q \<and>
          inode_size (mem s') q = inode_size (mem s) q \<and> inode_refcnt (mem s') q = inode_refcnt (mem s) q" by simp
      have "\<forall>x. \<not> kernel_data K H1 (unat x) \<longrightarrow> mem ?s2 x = mem s1 x" using out inode_kernel_data [OF ip(1)] by blast
      then have "data_run K s A H ?s2 A1 H1" by (intro run_write [OF run_grant [OF run_start g]])
          (simp_all add: set_inode_refcnt_def set_inode_size_def set_inode_id_def)
      then have run: "data_run K s A H s' A' H'" by (rule data_run_trans [OF dr])
      show thesis by (rule that(2) [OF _ p(2) _ _ _ others run]) (use ia r p(1) f f2 lv1 sub in auto)
    qed
  qed
qed

lemma ialloc_found:
  assumes inv: "inode_inv K s A H cs ips" and n: "inode_id (mem s) NULL \<noteq> ino"
    and found: "find (\<lambda>ip. inode_id (mem s) ip = ino) ips = Some ip"
  obtains s' where "ialloc K ino s = Inr (ip, s')" "inode_inv K s' A H cs ips" "inode_id (mem s') ip = ino"
    "inode_refcnt (mem s') ip = inode_refcnt (mem s) ip + 1" "inode_size (mem s') ip = inode_size (mem s) ip"
    "\<forall>q \<in> set ips. q \<noteq> ip \<longrightarrow> inode_id (mem s') q = inode_id (mem s) q \<and>
      inode_size (mem s') q = inode_size (mem s) q \<and> inode_refcnt (mem s') q = inode_refcnt (mem s) q"
    "data_run K s A H s' A H" "ip \<in> set ips"
proof -
  have ip: "ip \<in> set ips" "inode_id (mem s) ip = ino" using found by (auto simp: find_Some_iff)
  note D = inode_invD [OF inv]
  let ?s = "set_inode_refcnt ip (inode_refcnt (mem s) ip + 1) s"
  have run: "ialloc K ino s = Inr (ip, ?s)" using inode_find_list [OF inv n] found by (simp add: ialloc_def)
  have same: "pmmap ?s = pmmap s" "memtotal ?s = memtotal s" by (simp_all add: set_inode_refcnt_def)
  have out: "\<forall>x. \<not> in_block 24 ip (unat x) \<longrightarrow> mem ?s x = mem s x"
    using inode_store_out(3) [OF D(6) D(4) [OF ip(1)]] by (simp add: set_inode_refcnt_def)
  note w = inode_write [OF inv D(4) [OF ip(1)] D(5) [OF ip(1)] same out]
  have "\<forall>x. \<not> kernel_data K H (unat x) \<longrightarrow> mem ?s x = mem s x" using out inode_kernel_data [OF D(4) [OF ip(1)]] by blast
  then have "data_run K s A H ?s A H" by (intro run_write [OF run_start]) (simp_all add: set_inode_refcnt_def)
  then show thesis by (intro that [of ?s]) (use run w ip in \<open>simp_all add: set_inode_refcnt_def inode_set\<close>)
qed

section \<open>Letting an inode go\<close>

lemma ifree_release:
  assumes inv: "inode_inv K s A H cs ips" and ip: "ip \<in> set ips" and r: "\<not> inode_refcnt (mem s) ip > 2"
  obtains s' A' H' cs' where "ifree K ip s = Inr s'" "inode_inv K s' A' H' cs' (remove1 ip ips)" "(ip, 64) \<notin> live H'"
    "\<forall>q \<in> set ips. q \<noteq> ip \<longrightarrow> inode_id (mem s') q = inode_id (mem s) q \<and>
      inode_size (mem s') q = inode_size (mem s) q \<and> inode_refcnt (mem s') q = inode_refcnt (mem s) q"
proof -
  note D = inode_invD [OF inv]
  have ip0: "ip \<noteq> NULL" by (rule live_no_wrap(3) [OF D(6) D(4) [OF ip]])
  obtain s1 A1 H1 cs1 where l: "list_remove K (inode_list_at K) ip s = Inr s1" "list_inv K s1 A1 H1 (inode_list_at K) cs1"
    "map (list_node (mem s1)) cs1 = remove1 ip (map (list_node (mem s)) cs)" "set cs1 \<subseteq> set cs"
    "live H1 = live H - {(c, 64) |c. c \<in> set cs - set cs1}"
    and keep: "\<forall>b m x. (b, m) \<in> live H \<longrightarrow> b \<notin> set cs \<longrightarrow> in_block m b (unat x) \<longrightarrow> mem s1 x = mem s x"
    using list_remove_spec [OF D(1) ip0] by (elim exE conjE) (rule that)
  have rel1: "heap_rel K s1 A1 H1" using l(2) by (simp add: list_inv_def)
  have q1: "(q, 64) \<in> live H1" if "q \<in> set ips" for q using D(4,5) [OF that] l(5) by auto
  obtain s' A' H' where f: "kmfree K ip s1 = Inr s'" "heap_freed K s1 A1 H1 s' A' H'" "live H' = live H1 - {(ip, 64)}"
    by (rule kmfree_spec [OF rel1 list_inv_fuel [OF l(2)] q1 [OF ip] live_aligned [OF rel1 q1 [OF ip]]]) simp
  have "c \<noteq> ip" if "c \<in> set cs1" for c using that l(4) D(5) [OF ip] by auto
  then have "\<forall>c \<in> set cs1. (c, 64) \<in> live H'" using l(2) f(3) by (auto simp: list_inv_def)
  note li = list_inv_freed [OF l(2) f(2) this]
  have nodes: "map (list_node (mem s')) cs1 = remove1 ip ips" using li(2) l(3) D(2) by simp
  have "ifree K ip s = Inr s'" using r l(1) f(1) by (simp add: ifree_def)
  moreover have "(q, 64) \<in> live H' \<and> q \<notin> set cs1" if "q \<in> set (remove1 ip ips)" for q
  proof -
    have "q \<in> set ips" "q \<noteq> ip" using that D(3) by auto
    with q1 f(3) D(5) l(4) show ?thesis by auto
  qed
  then have "inode_inv K s' A' H' cs1 (remove1 ip ips)" using li(1) nodes D(3) by (simp add: inode_inv_def)
  moreover have "(ip, 64) \<notin> live H'" using f(3) by simp
  moreover have "inode_id (mem s') q = inode_id (mem s) q \<and> inode_size (mem s') q = inode_size (mem s) q \<and>
      inode_refcnt (mem s') q = inode_refcnt (mem s) q" if q: "q \<in> set ips" "q \<noteq> ip" for q
  proof -
    have "(q, 64) \<in> live H'" using q1 [OF q(1)] f(3) q(2) by simp
    then have "\<forall>x. in_block 64 q (unat x) \<longrightarrow> mem s' x = mem s1 x" using f(2) unfolding heap_freed_def by blast
    moreover have "\<forall>x. in_block 64 q (unat x) \<longrightarrow> mem s1 x = mem s x" using keep D(4,5) [OF q(1)] by blast
    ultimately have "\<forall>x. in_block 64 q (unat x) \<longrightarrow> mem s' x = mem s x" by simp
    from inode_same [OF D(6) D(4) [OF q(1)] this] show ?thesis by simp
  qed
  ultimately show thesis using that by blast
qed

section \<open>Properties\<close>

text \<open>
  C29. Looking up an inode number that is in the list returns the record in the list and adds one to
  its count; a number that is not in the list gets a new record at the end of the list with count
  one and size zero, or the kernel stops for want of memory.  No other inode changes.  The word at address
  0, which the search reads first, must not equal the number.
\<close>

theorem ialloc_counts:
  assumes inv: "inode_inv K s A H cs ips" and n: "inode_id (mem s) NULL \<noteq> ino"
  shows "case find (\<lambda>ip. inode_id (mem s) ip = ino) ips of
      Some ip \<Rightarrow> \<exists>s'. ialloc K ino s = Inr (ip, s') \<and> inode_inv K s' A H cs ips \<and> inode_id (mem s') ip = ino \<and>
        inode_refcnt (mem s') ip = inode_refcnt (mem s) ip + 1 \<and> inode_size (mem s') ip = inode_size (mem s) ip \<and>
        (\<forall>q \<in> set ips. q \<noteq> ip \<longrightarrow> inode_id (mem s') q = inode_id (mem s) q \<and>
          inode_size (mem s') q = inode_size (mem s) q \<and> inode_refcnt (mem s') q = inode_refcnt (mem s) q)
    | None \<Rightarrow> ialloc K ino s = Inl (Panic ''pmalloc: out of memory'') \<and> big_left A < 4 \<or>
        (\<exists>ip s' A' H' cs'. ialloc K ino s = Inr (ip, s') \<and> inode_inv K s' A' H' cs' (ips @ [ip]) \<and>
          inode_id (mem s') ip = ino \<and> inode_refcnt (mem s') ip = 1 \<and> inode_size (mem s') ip = 0 \<and>
          (\<forall>q \<in> set ips. inode_id (mem s') q = inode_id (mem s) q \<and>
            inode_size (mem s') q = inode_size (mem s) q \<and> inode_refcnt (mem s') q = inode_refcnt (mem s) q))"
proof (cases "find (\<lambda>ip. inode_id (mem s) ip = ino) ips")
  case (Some ip)
  show ?thesis unfolding Some option.case by (rule ialloc_found [OF inv n Some]) blast
next
  case None
  show ?thesis unfolding None option.case by (rule ialloc_new [OF inv n None]) blast+
qed

lemma demo_inodes:
  obtains s A H where "inode_inv demo_layout s A H [] []" and "114 \<le> big_left A" and "inode_id (mem s) NULL = 0"
proof -
  obtain s A H where s: "heap_rel demo_layout s A H" "114 \<le> big_left A"
    "\<forall>x. unat x < 0x200000 \<longrightarrow> \<not> in_block 336 0x1F0000 (unat x) \<longrightarrow> mem s x = 0" "memtotal s = 0x20000000"
    by (rule demo_heap)
  have z: "mem s x = 0" if "in_block 24 a (unat x)" "unat a + 24 \<le> 0x1F0000 \<or> unat a = 0x1F8100" for x a :: uint64
    using s(3) that by (auto simp: in_block_def)
  have "list_inv demo_layout s A H (inode_list_at demo_layout) []"
    by (rule empty_list [OF s(1)]) (use s(3,4) in \<open>auto simp: list_static_def demo_layout_def in_block_def\<close>)
  then have "inode_inv demo_layout s A H [] []" by (simp add: inode_inv_def)
  moreover have "mem s x = 0" if "x \<in> bytes_at NULL 24" for x
    using that bytes_at_in_block [of NULL 24 x] z [of NULL x] by simp
  from inode_cong(1) [of NULL "mem s" "\<lambda>_. 0", OF this] have "inode_id (mem s) NULL = 0" by (simp add: inode_id_def)
  ultimately show thesis using that s(2) by blast
qed

theorem ialloc_counts_witness:
  "\<exists>s ip s'. ialloc demo_layout 5 s = Inr (ip, s') \<and> inode_refcnt (mem s') ip = 1 \<and> inode_id (mem s') ip = 5"
proof -
  obtain s A H where s: "inode_inv demo_layout s A H [] []" "114 \<le> big_left A" "inode_id (mem s) NULL = 0" by (rule demo_inodes)
  have "inode_id (mem s) NULL \<noteq> 5" using s(3) by simp
  from ialloc_counts [OF s(1) this] s(2) show ?thesis by auto
qed

text \<open>
  C36. Letting an inode go lowers its count while the count is above two; otherwise, even when the
  count is two, the record leaves the list and its memory is released.  No other inode changes.
\<close>

theorem ifree_counts:
  assumes inv: "inode_inv K s A H cs ips" and ip: "ip \<in> set ips"
  shows "\<exists>s' A' H' cs' ips'. ifree K ip s = Inr s' \<and> inode_inv K s' A' H' cs' ips' \<and>
    (if inode_refcnt (mem s) ip > 2
     then ips' = ips \<and> live H' = live H \<and> inode_refcnt (mem s') ip = inode_refcnt (mem s) ip - 1
     else ips' = remove1 ip ips \<and> (ip, 64) \<notin> live H') \<and>
    (\<forall>q \<in> set ips. q \<noteq> ip \<longrightarrow> inode_id (mem s') q = inode_id (mem s) q \<and>
       inode_size (mem s') q = inode_size (mem s) q \<and> inode_refcnt (mem s') q = inode_refcnt (mem s) q)"
proof (cases "inode_refcnt (mem s) ip > 2")
  case True
  note D = inode_invD [OF inv]
  let ?s = "set_inode_refcnt ip (inode_refcnt (mem s) ip - 1) s"
  have same: "pmmap ?s = pmmap s" "memtotal ?s = memtotal s" by (simp_all add: set_inode_refcnt_def)
  have out: "\<forall>x. \<not> in_block 24 ip (unat x) \<longrightarrow> mem ?s x = mem s x"
    using inode_store_out(3) [OF D(6) D(4) [OF ip]] by (simp add: set_inode_refcnt_def)
  note w = inode_write [OF inv D(4) [OF ip] D(5) [OF ip] same out]
  have "ifree K ip s = Inr ?s" "inode_refcnt (mem ?s) ip = inode_refcnt (mem s) ip - 1"
    using True by (simp_all add: ifree_def set_inode_refcnt_def inode_set)
  with w True show ?thesis
    by (intro exI [of _ ?s] exI [of _ A] exI [of _ H] exI [of _ cs] exI [of _ ips]) simp
next
  case False
  obtain s' A' H' cs' where "ifree K ip s = Inr s'" "inode_inv K s' A' H' cs' (remove1 ip ips)" "(ip, 64) \<notin> live H'"
    "\<forall>q \<in> set ips. q \<noteq> ip \<longrightarrow> inode_id (mem s') q = inode_id (mem s) q \<and>
      inode_size (mem s') q = inode_size (mem s) q \<and> inode_refcnt (mem s') q = inode_refcnt (mem s) q"
    by (rule ifree_release [OF inv ip False])
  with False show ?thesis
    by (intro exI [of _ s'] exI [of _ A'] exI [of _ H'] exI [of _ cs'] exI [of _ "remove1 ip ips"]) simp
qed

theorem ifree_counts_witness:
  "\<exists>s ip s' A' H'. inode_refcnt (mem s) ip = 1 \<and> ifree demo_layout ip s = Inr s' \<and> inode_inv demo_layout s' A' H' [] []"
proof -
  obtain s A H where s: "inode_inv demo_layout s A H [] []" "114 \<le> big_left A" "inode_id (mem s) NULL = 0" by (rule demo_inodes)
  have "inode_id (mem s) NULL \<noteq> 5" using s(3) by simp
  then obtain ip s1 A1 H1 cs1 where i: "inode_inv demo_layout s1 A1 H1 cs1 ([] @ [ip])" "inode_refcnt (mem s1) ip = 1"
    by (rule ialloc_new [OF s(1)]) (use s(2) in auto)
  have ip: "ip \<in> set ([] @ [ip])" by simp
  from ifree_counts [OF i(1) ip] i(2) obtain s' A' H' cs' where f: "ifree demo_layout ip s1 = Inr s'"
    "inode_inv demo_layout s' A' H' cs' []" by auto
  from inode_invD(2) [OF f(2)] have "cs' = []" by simp
  with f i(2) show ?thesis by blast
qed

end
