(* ===== verification/FatDir.thy ===== *)
theory FatDir
  imports FatRead InodeOps
begin

text \<open>
  Directories, \<^verbatim>\<open>fs/fat16/common.c\<close> and \<^verbatim>\<open>fs/fat16/name.c\<close>: the search of a directory that \<^verbatim>\<open>fat16_find_cluster\<close>
  makes in a heap buffer, against what the disk holds.
\<close>

section \<open>Memory that the kernel's data owns\<close>

lemma kernel_data_write:
  assumes inv: "mm_inv K s A H"
    and same: "pmmap s' = pmmap s" "memtotal s' = memtotal s" "pgdir s' = pgdir s" "cr3 s' = cr3 s"
    and out: "\<forall>x. \<not> kernel_data K H (unat x) \<longrightarrow> mem s' x = mem s x"
  shows "mm_inv K s' A H" and "user_va va \<Longrightarrow> uview s' va = uview s va"
    and "user_va va \<Longrightarrow> translate (mem s') (cr3 s') va = translate (mem s) (cr3 s) va"
proof -
  note rel = mm_invD(1) [OF inv]
  have "\<forall>x. mem s' x \<noteq> mem s x \<longrightarrow> unat x \<in> kernel_bytes K H \<and>
      (\<forall>i r. slab_in H i r \<longrightarrow> \<not> in_block 24 (sl_entry r) (unat x))"
    using out image_is_kernel [OF rel] object_is_kernel [OF rel] unfolding kernel_data_def by blast
  note w = mm_kernel_write [OF inv same this]
  show "mm_inv K s' A H" and "user_va va \<Longrightarrow> uview s' va = uview s va"
    and "user_va va \<Longrightarrow> translate (mem s') (cr3 s') va = translate (mem s) (cr3 s) va"
    by (rule w, assumption?)+
qed

lemma kernel_data_grant:
  assumes inv: "mm_inv K s A H" and g: "heap_grant K s A H a n s' A' H'" and x: "kernel_data K H (unat x)"
  shows "mem s' x = mem s x" and "\<not> in_block n a (unat x)"
proof -
  have st: "kernel_end K \<le> a" "\<forall>b k x. (b, k) \<in> live H \<longrightarrow> in_block k b (unat x) \<longrightarrow> mem s' x = mem s x"
    "\<forall>b k x. (b, k) \<in> live H \<longrightarrow> \<not> (in_block n a x \<and> in_block k b x)"
    using g unfolding heap_grant_def heap_step_def by blast+
  show "mem s' x = mem s x" using x st(2) mm_grant(3) [OF inv g] unfolding kernel_data_def by blast
  show "\<not> in_block n a (unat x)"
    using x st(1,3) unfolding kernel_data_def by (fastforce simp: in_block_def word_le_nat_alt)
qed

lemma kernel_data_freed:
  assumes inv: "mm_inv K s A H" and g: "heap_freed K s A H s' A' H'" and x: "kernel_data K H' (unat x)"
  shows "mem s' x = mem s x"
proof -
  have st: "\<forall>b k x. (b, k) \<in> live H' \<longrightarrow> in_block k b (unat x) \<longrightarrow> mem s' x = mem s x"
    "\<forall>x. unat x \<notin> heap_bytes K H \<longrightarrow> mem s' x = mem s x"
    using g unfolding heap_freed_def by blast+
  from x consider "unat x < unat (kernel_end K)" "\<not> in_block 336 (slabs_at K) (unat x)"
    | b k where "(b, k) \<in> live H'" "in_block k b (unat x)" unfolding kernel_data_def by blast
  then show ?thesis
  proof cases
    case 1
    then have "unat x \<notin> heap_bytes K H" using heap_bytes_above [OF mm_invD(1) [OF inv]] by force
    with st(2) show ?thesis by blast
  qed (use st(1) in blast)
qed

section \<open>Directory entries\<close>

text \<open>An entry in the bytes \<open>g\<close> of a directory, at byte \<open>p\<close>: blanks end the name.\<close>

definition dirent_chars :: "(nat \<Rightarrow> uint8) \<Rightarrow> nat \<Rightarrow> uint8 list" where
  "dirent_chars g p = map (\<lambda>j. if g (p + j) = 0x20 then 0 else g (p + j)) [0..<11]"

definition dirent_name :: "(nat \<Rightarrow> uint8) \<Rightarrow> nat \<Rightarrow> uint8 list" where
  "dirent_name g p = takeWhile (\<lambda>c. c \<noteq> 0) (dirent_chars g p)"

lemma length_dirent_chars [simp]: "length (dirent_chars g p) = 11"
  by (simp add: dirent_chars_def)

definition dirent_used :: "(nat \<Rightarrow> uint8) \<Rightarrow> nat \<Rightarrow> bool" where
  "dirent_used g p \<longleftrightarrow> g p \<noteq> 0 \<and> g (p + 11) \<noteq> 0x0F"

definition dirent_cluster :: "(nat \<Rightarrow> uint8) \<Rightarrow> nat \<Rightarrow> uint16" where
  "dirent_cluster g p = of_nat (le_val (map (\<lambda>j. g (p + 26 + j)) [0..<2]))"

definition dirent_size :: "(nat \<Rightarrow> uint8) \<Rightarrow> nat \<Rightarrow> uint32" where
  "dirent_size g p = of_nat (le_val (map (\<lambda>j. g (p + 28 + j)) [0..<4]))"

definition dir_index :: "(nat \<Rightarrow> uint8) \<Rightarrow> nat \<Rightarrow> uint8 list \<Rightarrow> nat list \<Rightarrow> nat option" where
  "dir_index g p name is = find (\<lambda>i. dirent_used g (p + 32 * i) \<and> dirent_name g (p + 32 * i) = name) is"

text \<open>The cluster and the size of the first entry with a name, among \<open>n\<close> entries from \<open>p\<close> on.\<close>

definition dir_lookup :: "(nat \<Rightarrow> uint8) \<Rightarrow> nat \<Rightarrow> nat \<Rightarrow> uint8 list \<Rightarrow> (uint16 \<times> uint32) option" where
  "dir_lookup g p n name =
     map_option (\<lambda>i. (dirent_cluster g (p + 32 * i), dirent_size g (p + 32 * i))) (dir_index g p name [0..<n])"

lemma cstr_load:
  assumes "load_bytes m a n = bs @ 0 # rest" and "0 \<notin> set bs"
  shows "is_cstr m a bs"
  using assms
proof (induction bs arbitrary: a n)
  case Nil
  then show ?case by (cases n) auto
next
  case (Cons b bs)
  then obtain k where "n = Suc k" by (cases n) auto
  with Cons show ?case by auto
qed

lemma cstr_cut: "\<exists>rest. bs @ [0 :: uint8] = takeWhile (\<lambda>c. c \<noteq> 0) bs @ 0 # rest"
  by (induction bs) auto

lemma cstr_stored:
  assumes "length bs < 18446744073709551616"
  shows "is_cstr (store_bytes m a (bs @ [0])) a (takeWhile (\<lambda>c. c \<noteq> 0) bs)"
proof -
  obtain rest where r: "bs @ [0] = takeWhile (\<lambda>c. c \<noteq> 0) bs @ 0 # rest" using cstr_cut by blast
  have "load_bytes (store_bytes m a (bs @ [0])) a (length (bs @ [0])) = bs @ [0]"
    by (rule load_store_bytes) (use assms in simp)
  with r have "load_bytes (store_bytes m a (bs @ [0])) a (length (bs @ [0])) = takeWhile (\<lambda>c. c \<noteq> 0) bs @ 0 # rest" by simp
  then show ?thesis by (rule cstr_load) (auto dest: set_takeWhileD)
qed

lemma load_run: "(\<And>j. j < n \<Longrightarrow> m (a + of_nat j) = g j) \<Longrightarrow> load_bytes m a n = map g [0..<n]"
  by (rule nth_equalityI) (simp_all add: nth_load_bytes)

lemma entry_loads:
  assumes d: "\<And>j. j < 32 \<Longrightarrow> m (d + of_nat j) = g (p + j)"
  shows "load8 m d = g p" and "dir_attr m d = g (p + 11)" and "dir_cluster m d = dirent_cluster g p"
    and "dir_size m d = dirent_size g p"
    and "entry_name m d = dirent_chars g p @ [0]"
proof -
  have at: "m (d + of_nat k + of_nat j) = g (p + k + j)" if "k + j < 32" for k j
    using d [of "k + j"] that by (simp add: add.assoc)
  show "load8 m d = g p" "dir_attr m d = g (p + 11)"
    using d [of 0] d [of 11] by (simp_all add: load8_def dir_attr_def)
  have "load_bytes m (d + of_nat 26) 2 = map (\<lambda>j. g (p + 26 + j)) [0..<2]" by (rule load_run, rule at) simp
  then show "dir_cluster m d = dirent_cluster g p" by (simp add: dir_cluster_def load16_def dirent_cluster_def)
  have "load_bytes m (d + of_nat 28) 4 = map (\<lambda>j. g (p + 28 + j)) [0..<4]" by (rule load_run, rule at) simp
  then show "dir_size m d = dirent_size g p" by (simp add: dir_size_def load32_def dirent_size_def)
  have "load8 m (d + of_nat j) = g (p + j)" if "j < 11" for j using d [of j] that by (simp add: load8_def)
  then show "entry_name m d = dirent_chars g p @ [0]"
    by (simp add: entry_name_def dirent_chars_def Let_def)
qed

text \<open>The search goes through the entries in order and writes only its copy of the names.\<close>

lemma find_entry_spec:
  assumes "\<forall>j < 32 * n. mem s (dir + of_nat j) = g (p + j)" and dir: "\<forall>j < 32 * n. dir + of_nat j \<notin> bytes_at (local_at K ''entry_filename'') 12"
    and "is_cstr (mem s) filename name" and fn: "bytes_at filename (Suc (length name)) \<inter> bytes_at (local_at K ''entry_filename'') 12 = {}"
    and fuel: "length name < loop_fuel K" and "\<forall>i \<in> set is. i < n"
  shows "\<exists>s'. find_entry K filename dir is s = Inr (dir_index g p name is, s') \<and> s' = s\<lparr>mem := mem s'\<rparr> \<and>
    (\<forall>x. x \<notin> bytes_at (local_at K ''entry_filename'') 12 \<longrightarrow> mem s' x = mem s x)"
  using assms(1,3,6)
proof (induction "is" arbitrary: s)
  case Nil
  then show ?case by (simp add: dir_index_def)
next
  case (Cons i "is")
  let ?e = "local_at K ''entry_filename''" and ?d = "dir_at dir i" and ?p = "p + 32 * i"
  have "mem s (?d + of_nat j) = g (?p + j)" if "j < 32" for j
  proof -
    have "32 * i + j < 32 * n" using that Cons.prems(3) by auto
    moreover have "?d + of_nat j = dir + of_nat (32 * i + j)" by (simp add: dir_at_def add.assoc)
    ultimately show ?thesis using Cons.prems(1) by (metis add.assoc)
  qed
  note ld = entry_loads [of "mem s" ?d g ?p, OF this]
  show ?case
  proof (cases "dirent_used g ?p")
    case False
    then have "find_entry K filename dir (i # is) s = find_entry K filename dir is s"
      using ld(1,2) by (auto simp: Let_def dirent_used_def)
    moreover have "dir_index g p name (i # is) = dir_index g p name is" using False by (simp add: dir_index_def)
    ultimately show ?thesis using Cons.IH [OF Cons.prems(1,2)] Cons.prems(3) by simp
  next
    case True
    let ?bs = "dirent_chars g ?p"
    let ?s = "s\<lparr>mem := store_bytes (mem s) ?e (?bs @ [0])\<rparr>"
    have out: "mem ?s x = mem s x" if "x \<notin> bytes_at ?e 12" for x
      using store_bytes_outside [of x ?e "?bs @ [0]"] that by simp
    have e: "is_cstr (mem ?s) ?e (dirent_name g ?p)"
      using cstr_stored [of ?bs "mem s" ?e] by (simp add: dirent_name_def)
    have f: "is_cstr (mem ?s) filename name"
      using is_cstr_cong [of filename name "mem ?s" "mem s"] out fn Cons.prems(2) by blast
    have cmp: "strcmp (loop_fuel K) (mem ?s) filename ?e = Inr (if name = dirent_name g ?p then 0 else 1)"
      by (rule strcmp_spec [OF f e]) (use fuel in simp)
    have step: "find_entry K filename dir (i # is) s =
        (if dirent_name g ?p = name then Inr (Some i, ?s) else find_entry K filename dir is ?s)"
      using True ld cmp by (auto simp: Let_def dirent_used_def)
    have g: "\<forall>j < 32 * n. mem ?s (dir + of_nat j) = g (p + j)" using Cons.prems(1) dir out by simp
    from Cons.IH [OF g f] Cons.prems(3) obtain s' where
      s': "find_entry K filename dir is ?s = Inr (dir_index g p name is, s')" "s' = ?s\<lparr>mem := mem s'\<rparr>"
      "\<forall>x. x \<notin> bytes_at ?e 12 \<longrightarrow> mem s' x = mem ?s x" by (elim meta_impE exE conjE) (simp, rule that)
    show ?thesis
    proof (cases "dirent_name g ?p = name")
      case True
      with step \<open>dirent_used g ?p\<close> out show ?thesis by (auto simp: dir_index_def)
    next
      case False
      have "s' = s\<lparr>mem := mem s'\<rparr>" by (subst s'(2)) simp
      moreover have "find_entry K filename dir (i # is) s = Inr (dir_index g p name (i # is), s')"
        using False step s'(1) by (simp add: dir_index_def)
      moreover have "\<forall>x. x \<notin> bytes_at ?e 12 \<longrightarrow> mem s' x = mem s x" using s'(3) out by simp
      ultimately show ?thesis by (intro exI [of _ s'] conjI)
    qed
  qed
qed

section \<open>Reading a directory\<close>

text \<open>
  Where a directory lies on the disk, how many entries it has, and the size of the buffer it is read to.  The
  geometry is one that \<^verbatim>\<open>fat16_init\<close> accepts, with a root directory of whole sectors.
\<close>

definition dir_pos :: "FAT16 \<Rightarrow> uint16 \<Rightarrow> nat" where
  "dir_pos f c = (if c = 0 then 512 * unat (rootdir_entry f) else cluster_pos f (unat c))"

definition dir_entries :: "FAT16 \<Rightarrow> uint16 \<Rightarrow> nat" where
  "dir_entries f c = unat (if c = 0 then root_entries f else cluster_size f div 32)"

definition dir_bytes :: "FAT16 \<Rightarrow> uint16 \<Rightarrow> uint64" where
  "dir_bytes f c = (if c = 0 then 32 * half_arg (root_entries f) else half_arg (cluster_size f))"

definition dir_geometry :: "FAT16 \<Rightarrow> bool" where
  "dir_geometry f \<longleftrightarrow> fat_geometry f \<and> sector_size f = 512 \<and> 0 < root_entries f \<and> root_entries f \<le> 4096 \<and>
     16 dvd unat (root_entries f)"

lemma dir_sizes:
  assumes "dir_geometry f"
  shows "unat (dir_bytes f c) = 32 * dir_entries f c" and "512 \<le> unat (dir_bytes f c)" and "dir_bytes f c \<le> 524288"
    and "32 * unat (root_entries f) = 512 * (unat (root_entries f) div 16)"
proof -
  have r: "unat (root_entries f) \<le> 4096" "16 dvd unat (root_entries f)" "0 < unat (root_entries f)"
    and cs: "unat (cluster_size f) = 512 * unat (sector_per_cluster f)" "0 < unat (sector_per_cluster f)" "unat (sector_per_cluster f) \<le> 8"
    using assms by (simp_all add: dir_geometry_def fat_geometry_def word_le_nat_alt word_less_nat_alt)
  have ra: "unat (half_arg (root_entries f)) = unat (root_entries f)" and ca: "unat (half_arg (cluster_size f)) = unat (cluster_size f)"
    by (rule half_arg)+
  have ub: "unat (32 * half_arg (root_entries f)) = 32 * unat (root_entries f)"
    using r(1) ra by (simp add: unat_word_ariths)
  have cd: "32 * unat (cluster_size f div 32) = unat (cluster_size f)" using cs(1) by (simp add: unat_div)
  obtain q where q: "unat (root_entries f) = 16 * q" using r(2) by (elim dvdE)
  show "unat (dir_bytes f c) = 32 * dir_entries f c" using ub ca cd by (simp add: dir_bytes_def dir_entries_def)
  show "512 \<le> unat (dir_bytes f c)" using ub ca cs q r(3) by (simp add: dir_bytes_def)
  show "dir_bytes f c \<le> 524288" using ub ca cs r(1) by (simp add: dir_bytes_def word_le_nat_alt)
  show "32 * unat (root_entries f) = 512 * (unat (root_entries f) div 16)" using q by simp
qed

lemma read_rootdir:
  assumes disk: "ata_disk (port_dev K) disk" and f: "dir_geometry (fat16 s)"
    and buf: "unat buf + 32 * unat (root_entries (fat16 s)) < 18446744073709551616"
  obtains s' where "fat16_read_rootdir K buf s = Inr s'" and "s' = s\<lparr>mem := mem s', io := io s'\<rparr>"
    and "\<forall>j < 32 * unat (root_entries (fat16 s)). mem s' (buf + of_nat j) = disk_byte disk (512 * unat (rootdir_entry (fat16 s)) + j)"
    and "\<forall>x. \<not> in_block (32 * unat (root_entries (fat16 s))) buf (unat x) \<longrightarrow> mem s' x = mem s x"
proof -
  let ?f = "fat16 s" and ?n = "unat (root_entries (fat16 s))"
  let ?sec = "ucast (rootdir_entry ?f) :: uint32"
  let ?cnt = "ucast (sizeof_FAT16_DIR_ENTRY * half_arg (root_entries ?f) div half_arg (sector_size ?f)) :: uint32"
  note sz = dir_sizes [OF f]
  have ss: "sector_size ?f = 512" "?n \<le> 4096" "0 < ?n" "16 dvd ?n"
    using f by (simp_all add: dir_geometry_def word_le_nat_alt word_less_nat_alt)
  have "unat (half_arg (root_entries ?f)) = ?n" by (rule half_arg)
  then have "unat (sizeof_FAT16_DIR_ENTRY * half_arg (root_entries ?f) div half_arg (sector_size ?f)) = 32 * ?n div 512"
    using ss(1,2) by (simp add: sizeof_FAT16_DIR_ENTRY_def unat_word_ariths unat_div)
  also have "\<dots> = ?n div 16" using sz(4) by simp
  finally have "unat ?cnt = take_bit 32 (?n div 16)" by (simp only: unsigned_ucast_eq) simp
  then have uc: "unat ?cnt = ?n div 16" using ss(2) by (simp add: take_bit_nat_eq_self)
  have cnt: "0 < ?cnt" "?cnt \<le> 256" using uc ss(2-4) by (auto simp: word_less_nat_alt word_le_nat_alt dvd_def)
  have us: "unat ?sec = unat (rootdir_entry ?f)" by (rule half_word(2))
  have "unat (rootdir_entry ?f) < 65536" using unsigned_less [of "rootdir_entry ?f"] by simp
  with us have sec: "?sec < 0x10000000" by (simp add: word_less_nat_alt)
  have bytes: "512 * unat ?cnt = 32 * ?n" using uc sz(4) by simp
  have "unat buf + 512 * unat ?cnt \<le> 18446744073709551616" using buf bytes by simp
  from ide_read_seq_spec [OF disk sec cnt this, of s] obtain s' where
    s': "ide_read_seq K ?sec buf ?cnt s = Inr s'" "s' = s\<lparr>mem := mem s', io := io s'\<rparr>"
    "\<forall>i < 128 * unat ?cnt. load32 (mem s') (buf + of_nat (4 * i)) = disk (128 * unat ?sec + i)"
    "\<forall>x. \<not> (unat buf \<le> unat x \<and> unat x < unat buf + 512 * unat ?cnt) \<longrightarrow> mem s' x = mem s x"
    by (elim exE conjE) (rule that)
  have "mem s' (buf + of_nat j) = disk_byte disk (512 * unat (rootdir_entry ?f) + j)" if "j < 32 * ?n" for j
  proof -
    have "j < 4 * (128 * unat ?cnt)" using that bytes by simp
    from words_bytes [OF s'(3) this] us show ?thesis by simp
  qed
  moreover have "fat16_read_rootdir K buf s = Inr s'" using s'(1) ss(1) by (simp add: fat16_read_rootdir_def)
  ultimately show thesis using that [of s'] s'(2,4) bytes by (simp add: in_block_def)
qed

lemma read_dir:
  assumes disk: "ata_disk (port_dev K) disk" and f: "dir_geometry (fat16 s)" and c: "c = 0 \<or> 2 \<le> unat c"
    and buf: "unat buf + unat (dir_bytes (fat16 s) c) < 18446744073709551616"
  obtains s' where "(if c = 0 then fat16_read_rootdir K buf s else fat16_read_cluster K c buf s) = Inr s'"
    and "s' = s\<lparr>mem := mem s', io := io s'\<rparr>"
    and "\<forall>j < 32 * dir_entries (fat16 s) c. mem s' (buf + of_nat j) = disk_byte disk (dir_pos (fat16 s) c + j)"
    and "\<forall>x. \<not> in_block (unat (dir_bytes (fat16 s) c)) buf (unat x) \<longrightarrow> mem s' x = mem s x"
proof (cases "c = 0")
  case True
  have b: "unat (dir_bytes (fat16 s) c) = 32 * unat (root_entries (fat16 s))" "dir_entries (fat16 s) c = unat (root_entries (fat16 s))"
    "dir_pos (fat16 s) c = 512 * unat (rootdir_entry (fat16 s))"
    using dir_sizes(1) [OF f, of c] True by (simp_all add: dir_entries_def dir_pos_def)
  show thesis by (rule read_rootdir [OF disk f buf [unfolded b(1)]]) (rule that; use True b in simp)
next
  case False
  have b: "unat (dir_bytes (fat16 s) c) = unat (cluster_size (fat16 s))" "32 * dir_entries (fat16 s) c = unat (cluster_size (fat16 s))"
    "dir_pos (fat16 s) c = cluster_pos (fat16 s) (unat c)"
    using dir_sizes(1) [OF f, of c] False by (simp_all add: dir_bytes_def dir_pos_def half_arg)
  have g: "fat_geometry (fat16 s)" "2 \<le> unat c" using f c False by (simp_all add: dir_geometry_def)
  show thesis by (rule read_cluster [OF disk g buf [unfolded b(1)]]) (rule that; use False b in simp)
qed

section \<open>Looking a name up\<close>

text \<open>The 64 bits in which \<^verbatim>\<open>fat16_find_cluster\<close> returns a cluster and a size, or 0.\<close>

definition lookup_word :: "(uint16 \<times> uint32) option \<Rightarrow> uint64" where
  "lookup_word r = (case r of None \<Rightarrow> 0 | Some (cl, sz) \<Rightarrow> half_arg cl OR push_bit 32 (word_arg sz))"

text \<open>What a lookup may change: its copy of the names, and free and heap memory that no object owns.\<close>

definition dir_run :: "klayout \<Rightarrow> uint64 set \<Rightarrow> kstate \<Rightarrow> pm_abs \<Rightarrow> heap_abs \<Rightarrow> kstate \<Rightarrow> pm_abs \<Rightarrow> heap_abs \<Rightarrow> bool" where
  "dir_run K E s A H s' A' H' \<longleftrightarrow> mm_inv K s' A' H' \<and> live H' = live H \<and>
     s' = s\<lparr>mem := mem s', pmmap := pmmap s', io := io s'\<rparr> \<and>
     (\<forall>x. kernel_data K H (unat x) \<longrightarrow> x \<notin> E \<longrightarrow> mem s' x = mem s x) \<and>
     (\<forall>va. user_va va \<longrightarrow> uview s' va = uview s va \<and> translate (mem s') (cr3 s') va = translate (mem s) (cr3 s) va)"

lemma dir_runD:
  assumes "dir_run K E s A H s' A' H'"
  shows "mm_inv K s' A' H'" and "live H' = live H" and "s' = s\<lparr>mem := mem s', pmmap := pmmap s', io := io s'\<rparr>"
    and "\<forall>x. kernel_data K H (unat x) \<longrightarrow> x \<notin> E \<longrightarrow> mem s' x = mem s x"
    and "\<forall>va. user_va va \<longrightarrow> uview s' va = uview s va \<and> translate (mem s') (cr3 s') va = translate (mem s) (cr3 s) va"
  using assms unfolding dir_run_def by blast+

text \<open>Memory of the two local buffers: data of the kernel, apart from each other.\<close>

definition name_buffers :: "klayout \<Rightarrow> heap_abs \<Rightarrow> uint64 \<Rightarrow> uint8 list \<Rightarrow> bool" where
  "name_buffers K H filename name \<longleftrightarrow> length name < loop_fuel K \<and>
     (\<forall>x \<in> bytes_at filename (Suc (length name)) \<union> bytes_at (local_at K ''entry_filename'') 12. kernel_data K H (unat x)) \<and>
     bytes_at filename (Suc (length name)) \<inter> bytes_at (local_at K ''entry_filename'') 12 = {}"

lemma class_above_64: "64 < sz \<Longrightarrow> sz \<le> 524288 \<Longrightarrow> slot_sz (class_of sz) \<noteq> 64"
  using class_room [of sz] by (auto simp: word_less_nat_alt)

lemma fetch_dir:
  assumes inv: "mm_inv K s A H" and disk: "ata_disk (port_dev K) disk" and f: "dir_geometry (fat16 s)"
    and c: "c = 0 \<or> 2 \<le> unat c" and left: "2 \<le> big_left A"
  defines "sz \<equiv> dir_bytes (fat16 s) c"
  obtains dir s1 s2 A2 H2 where "kmalloc K sz s = Inr (dir, s1)"
    and "\<forall>filename. fat16_find_cluster K filename c s =
      ebind (find_entry K filename dir [0..<dir_entries (fat16 s) c] s2) (\<lambda>(r, s). ebind (kmfree K dir s) (\<lambda>s.
      case r of Some i \<Rightarrow> Inr (half_arg (dir_cluster (mem s) (dir_at dir i)) OR
              push_bit 32 (word_arg (dir_size (mem s) (dir_at dir i))), s) | None \<Rightarrow> Inr (0, s)))"
    and "mm_inv K s2 A2 H2" and "live H2 = insert (dir, slot_sz (class_of sz)) (live H)" and "(dir, slot_sz (class_of sz)) \<notin> live H"
    and "s2 = s\<lparr>mem := mem s2, pmmap := pmmap s2, io := io s2\<rparr>"
    and "\<forall>x. kernel_data K H (unat x) \<longrightarrow> mem s2 x = mem s x \<and> \<not> in_block (slot_sz (class_of sz)) dir (unat x)"
    and "\<forall>va. user_va va \<longrightarrow> uview s2 va = uview s va \<and> translate (mem s2) (cr3 s2) va = translate (mem s) (cr3 s) va"
    and "\<forall>j < 32 * dir_entries (fat16 s) c. mem s2 (dir + of_nat j) = disk_byte disk (dir_pos (fat16 s) c + j)"
    and "big_left A \<le> big_left A2 + 2"
proof -
  note ds = dir_sizes(1-3) [OF f, of c]
  have sz: "sz \<le> 524288" "unat sz = 32 * dir_entries (fat16 s) c" using ds by (simp_all add: sz_def)
  let ?n = "slot_sz (class_of sz)"
  obtain dir s1 A1 H1 where k: "kmalloc K sz s = Inr (dir, s1)" and g: "heap_grant K s A H dir ?n s1 A1 H1"
    and bl: "big_left A \<le> big_left A1 + 2" and inv1: "mm_inv K s1 A1 H1"
  proof (rule mm_kmalloc [OF inv sz(1)])
    assume "big_left A < 2"
    with left show thesis by simp
  qed (rule that; assumption)
  have st: "live H1 = insert (dir, ?n) (live H)" "unat dir + ?n < 18446744073709551616"
    "\<forall>b k x. (b, k) \<in> live H \<longrightarrow> \<not> (in_block ?n dir x \<and> in_block k b x)" "s1 = s\<lparr>mem := mem s1, pmmap := pmmap s1\<rparr>"
    using g unfolding heap_grant_def heap_step_def by blast+
  have n: "unat sz \<le> ?n" by (rule class_room [OF sz(1)])
  have e: "fat16 s1 = fat16 s" by (subst st(4), simp)
  have f1: "dir_geometry (fat16 s1)" and nw: "unat dir + unat (dir_bytes (fat16 s1) c) < 18446744073709551616"
    using f st(2) n by (simp_all add: e sz_def)
  obtain s2 where r: "(if c = 0 then fat16_read_rootdir K dir s1 else fat16_read_cluster K c dir s1) = Inr s2"
    "s2 = s1\<lparr>mem := mem s2, io := io s2\<rparr>"
    "\<forall>j < 32 * dir_entries (fat16 s1) c. mem s2 (dir + of_nat j) = disk_byte disk (dir_pos (fat16 s1) c + j)"
    "\<forall>x. \<not> in_block (unat (dir_bytes (fat16 s1) c)) dir (unat x) \<longrightarrow> mem s2 x = mem s1 x"
    by (rule read_dir [OF disk f1 c nw])
  have same: "pmmap s2 = pmmap s1" "memtotal s2 = memtotal s1" "pgdir s2 = pgdir s1" "cr3 s2 = cr3 s1" by (subst r(2), simp)+
  have out: "\<forall>x. \<not> in_block ?n dir (unat x) \<longrightarrow> mem s2 x = mem s1 x"
    using r(4) in_block_sub [of "unat sz" dir _ ?n] n by (auto simp: e sz_def)
  have dl: "(dir, ?n) \<in> live H1" using st(1) by simp
  note w = mm_object_write [OF inv1 dl same out]
  show thesis
  proof (rule that [OF k _ w(1) st(1)])
    show "\<forall>filename. fat16_find_cluster K filename c s =
      ebind (find_entry K filename dir [0..<dir_entries (fat16 s) c] s2) (\<lambda>(r, s). ebind (kmfree K dir s) (\<lambda>s.
      case r of Some i \<Rightarrow> Inr (half_arg (dir_cluster (mem s) (dir_at dir i)) OR
              push_bit 32 (word_arg (dir_size (mem s) (dir_at dir i))), s) | None \<Rightarrow> Inr (0, s)))"
      using k r(1) by (cases "c = 0") (simp_all add: fat16_find_cluster_def sz_def dir_bytes_def dir_entries_def Let_def sizeof_FAT16_DIR_ENTRY_def)
    show "(dir, ?n) \<notin> live H" using st(3) n ds(2) by (force simp: in_block_def sz_def)
    show "s2 = s\<lparr>mem := mem s2, pmmap := pmmap s2, io := io s2\<rparr>" by (subst r(2), subst st(4)) (simp add: same)
    show "\<forall>x. kernel_data K H (unat x) \<longrightarrow> mem s2 x = mem s x \<and> \<not> in_block ?n dir (unat x)"
      using kernel_data_grant [OF inv g] out by simp
    show "\<forall>va. user_va va \<longrightarrow> uview s2 va = uview s va \<and> translate (mem s2) (cr3 s2) va = translate (mem s) (cr3 s) va"
      using w(2,4) mm_grant(2,4) [OF inv g] by simp
    show "\<forall>j < 32 * dir_entries (fat16 s) c. mem s2 (dir + of_nat j) = disk_byte disk (dir_pos (fat16 s) c + j)"
      using r(3) by (simp add: e)
  qed (rule bl)
qed

lemma block_offset:
  assumes "unat a + n < 18446744073709551616" and "j < n"
  shows "in_block n a (unat (a + of_nat j))"
  using unat_add_no_wrap [of a j] assms by (simp add: in_block_def)

lemma find_cluster_cases:
  assumes inv: "mm_inv K s A H" and disk: "ata_disk (port_dev K) disk" and f: "dir_geometry (fat16 s)"
    and c: "c = 0 \<or> 2 \<le> unat c" and left: "2 \<le> big_left A"
    and name: "is_cstr (mem s) filename name" and bufs: "name_buffers K H filename name"
  defines "sz \<equiv> dir_bytes (fat16 s) c"
  obtains dir s1 where "kmalloc K sz s = Inr (dir, s1)" and "\<not> slot_sz (class_of sz) dvd unat dir"
      and "fat16_find_cluster K filename c s = Inl (Panic ''kmfree: invalid addr %x\<newline>'')" and "4096 < slot_sz (class_of sz)"
  | dir s1 s' A' H' where "kmalloc K sz s = Inr (dir, s1)" and "slot_sz (class_of sz) dvd unat dir"
      and "fat16_find_cluster K filename c s =
        Inr (lookup_word (dir_lookup (disk_byte disk) (dir_pos (fat16 s) c) (dir_entries (fat16 s) c) name), s')"
      and "dir_run K (bytes_at (local_at K ''entry_filename'') 12) s A H s' A' H'" and "big_left A \<le> big_left A' + 2"
proof -
  let ?n = "slot_sz (class_of sz)" and ?p = "dir_pos (fat16 s) c" and ?N = "dir_entries (fat16 s) c"
    and ?e = "local_at K ''entry_filename''" and ?g = "disk_byte disk"
  let ?r = "dir_index ?g ?p name [0..<?N]"
  note ds = dir_sizes(1-3) [OF f, of c, folded sz_def]
  obtain dir s1 s2 A2 H2 where k: "kmalloc K sz s = Inr (dir, s1)"
    and run: "\<forall>filename. fat16_find_cluster K filename c s =
      ebind (find_entry K filename dir [0..<?N] s2) (\<lambda>(r, s). ebind (kmfree K dir s) (\<lambda>s.
      case r of Some i \<Rightarrow> Inr (half_arg (dir_cluster (mem s) (dir_at dir i)) OR
              push_bit 32 (word_arg (dir_size (mem s) (dir_at dir i))), s) | None \<Rightarrow> Inr (0, s)))"
    and inv2: "mm_inv K s2 A2 H2" and lv: "live H2 = insert (dir, ?n) (live H)" "(dir, ?n) \<notin> live H"
    and st2: "s2 = s\<lparr>mem := mem s2, pmmap := pmmap s2, io := io s2\<rparr>"
    and data: "\<forall>x. kernel_data K H (unat x) \<longrightarrow> mem s2 x = mem s x \<and> \<not> in_block ?n dir (unat x)"
    and user: "\<forall>va. user_va va \<longrightarrow> uview s2 va = uview s va \<and> translate (mem s2) (cr3 s2) va = translate (mem s) (cr3 s) va"
    and bytes: "\<forall>j < 32 * ?N. mem s2 (dir + of_nat j) = ?g (?p + j)" and bl: "big_left A \<le> big_left A2 + 2"
    unfolding sz_def by (rule fetch_dir [OF inv disk f c left])
  have dl: "(dir, ?n) \<in> live H2" using lv(1) by simp
  have nw: "unat dir + ?n < 18446744073709551616" by (rule live_no_wrap(4) [OF mm_invD(1) [OF inv2] dl])
  have fit: "32 * ?N \<le> ?n" using class_room [OF ds(3)] ds(1) by simp
  have ind: "in_block ?n dir (unat (dir + of_nat j))" if "j < 32 * ?N" for j by (rule block_offset [OF nw]) (use that fit in simp)
  have B: "length name < loop_fuel K" "\<forall>x \<in> bytes_at filename (Suc (length name)). kernel_data K H (unat x)"
    "\<forall>x \<in> bytes_at ?e 12. kernel_data K H (unat x)" "bytes_at filename (Suc (length name)) \<inter> bytes_at ?e 12 = {}"
    using bufs unfolding name_buffers_def by blast+
  have apart: "\<forall>j < 32 * ?N. dir + of_nat j \<notin> bytes_at ?e 12" using ind B(3) data by blast
  have name2: "is_cstr (mem s2) filename name"
    using is_cstr_cong [of filename name "mem s2" "mem s"] B(2) data name by blast
  have is_lt: "\<forall>i \<in> set [0..<?N]. i < ?N" by simp
  from find_entry_spec [OF bytes apart name2 B(4,1) is_lt] obtain s3 where
    f3: "find_entry K filename dir [0..<?N] s2 = Inr (?r, s3)" and st3: "s3 = s2\<lparr>mem := mem s3\<rparr>"
    and out3: "\<forall>x. x \<notin> bytes_at ?e 12 \<longrightarrow> mem s3 x = mem s2 x" by (elim exE conjE) (rule that)
  have same: "pmmap s3 = pmmap s2" "memtotal s3 = memtotal s2" "pgdir s3 = pgdir s2" "cr3 s3 = cr3 s2" by (subst st3, simp)+
  have "\<forall>x. \<not> kernel_data K H2 (unat x) \<longrightarrow> mem s3 x = mem s2 x"
    using out3 B(3) kernel_data_insert [OF lv(1)] by blast
  note w = kernel_data_write [OF inv2 same this]
  have bytes3: "\<forall>j < 32 * ?N. mem s3 (dir + of_nat j) = ?g (?p + j)" using bytes apart out3 by simp
  show thesis
  proof (cases "?n dvd unat dir")
    case False
    then have "4096 < ?n" using live_aligned [OF mm_invD(1) [OF w(1)] dl] by (meson not_le)
    moreover have "fat16_find_cluster K filename c s = Inl (Panic ''kmfree: invalid addr %x\<newline>'')"
      using run f3 kmfree_unaligned [OF mm_invD(1,4) [OF w(1)] dl False] by simp
    ultimately show thesis using that(1) [OF k False] by simp
  next
    case True
    obtain s' A' H' where fr: "kmfree K dir s3 = Inr s'" "heap_freed K s3 A2 H2 s' A' H'" "live H' = live H2 - {(dir, ?n)}"
      "mm_inv K s' A' H'" "\<forall>va. user_va va \<longrightarrow> uview s' va = uview s3 va"
      "?n \<noteq> 64 \<longrightarrow> (\<forall>x. in_block ?n dir (unat x) \<longrightarrow> mem s' x = mem s3 x)"
      "\<forall>va. user_va va \<longrightarrow> translate (mem s') (cr3 s') va = translate (mem s3) (cr3 s3) va"
      by (rule mm_kmfree [OF w(1) dl True])
    have lv': "live H' = live H" using fr(3) lv by auto
    have st4: "s' = s3\<lparr>mem := mem s', pmmap := pmmap s'\<rparr>" "big_left A2 \<le> big_left A'"
      using fr(2) unfolding heap_freed_def by blast+
    have n64: "?n \<noteq> 64" using ds fit by auto
    have val: "half_arg (dir_cluster (mem s') (dir_at dir i)) OR push_bit 32 (word_arg (dir_size (mem s') (dir_at dir i))) =
        half_arg (dirent_cluster ?g (?p + 32 * i)) OR push_bit 32 (word_arg (dirent_size ?g (?p + 32 * i)))" if "i < ?N" for i
    proof -
      have "mem s' (dir_at dir i + of_nat j) = ?g (?p + 32 * i + j)" if "j < 32" for j
      proof -
        have j: "32 * i + j < 32 * ?N" using that \<open>i < ?N\<close> by simp
        have "dir_at dir i + of_nat j = dir + of_nat (32 * i + j)" by (simp add: dir_at_def add.assoc)
        moreover have "mem s' (dir + of_nat (32 * i + j)) = ?g (?p + (32 * i + j))"
          using fr(6) [rule_format, OF n64 ind [OF j]] bytes3 [rule_format, OF j] by (rule trans)
        ultimately show ?thesis by (simp only: add.assoc)
      qed
      from entry_loads(3,4) [of "mem s'" "dir_at dir i" ?g "?p + 32 * i", OF this] show ?thesis by simp
    qed
    have idx: "i < ?N" if "?r = Some i" for i using that by (auto simp: dir_index_def find_Some_iff)
    have "fat16_find_cluster K filename c s = Inr (lookup_word (dir_lookup ?g ?p ?N name), s')"
      using run f3 fr(1) val idx by (auto simp: lookup_word_def dir_lookup_def split: option.splits)
    moreover have "dir_run K (bytes_at ?e 12) s A H s' A' H'"
      unfolding dir_run_def
    proof (intro conjI fr(4) lv' allI impI)
      show "s' = s\<lparr>mem := mem s', pmmap := pmmap s', io := io s'\<rparr>"
        by (subst st4(1), subst st3, subst st2) (subst st4(1), subst st3, simp)
      show "mem s' x = mem s x" if "kernel_data K H (unat x)" "x \<notin> bytes_at ?e 12" for x
        using kernel_data_freed [OF w(1) fr(2), of x] kernel_data_live [OF lv'] that out3 data by simp
      show "uview s' va = uview s va" "translate (mem s') (cr3 s') va = translate (mem s) (cr3 s) va" if "user_va va" for va
        using that fr(5,7) w(2,3) user by simp_all
    qed
    ultimately show thesis using that(2) [OF k True] bl st4(2) by simp
  qed
qed

section \<open>Properties\<close>


text \<open>A disk with one file in its root directory, \<^verbatim>\<open>INIT\<close>, of 2000 bytes from cluster 5 on.\<close>

definition demo_dir :: "nat \<Rightarrow> uint32" where
  "demo_dir k = (if k = 8448 then 0x54494E49 else if k = 8449 \<or> k = 8450 then 0x20202020
     else if k = 8454 then 0x00050000 else if k = 8455 then 2000 else 0)"

definition demo_fat :: FAT16 where
  "demo_fat = (fat16 demo_state)\<lparr>root_entries := 128\<rparr>"

definition demo_names :: klayout where
  "demo_names = demo_layout\<lparr>port_dev := disk_dev demo_dir,
     local_at := (\<lambda>n. if n = ''filename'' then 0x1FC000 else 0x1FC100)\<rparr>"

lemma demo_geometry: "dir_geometry demo_fat" "dir_bytes demo_fat 0 = 4096" "ata_disk (port_dev demo_names) demo_dir"
  by (simp_all add: dir_geometry_def fat_geometry_def demo_fat_def demo_state_def dir_bytes_def demo_names_def disk_dev_ata)

lemma demo_dirent:
  "dirent_used (disk_byte demo_dir) 33792" "dirent_name (disk_byte demo_dir) 33792 = [0x49, 0x4E, 0x49, 0x54]"
  by (simp_all add: dirent_used_def dirent_name_def dirent_chars_def disk_byte_def demo_dir_def nth_le_bytes upt_rec)

lemma demo_lookup:
  "dir_lookup (disk_byte demo_dir) (dir_pos demo_fat 0) (dir_entries demo_fat 0) [0x49, 0x4E, 0x49, 0x54] = Some (5, 2000)"
proof -
  have b: "disk_byte demo_dir k = le_bytes 4 (unat (demo_dir (k div 4))) ! (k mod 4)" for k by (simp add: disk_byte_def)
  have pos: "dir_pos demo_fat 0 = 33792" "dir_entries demo_fat 0 = 128"
    by (simp_all add: dir_pos_def dir_entries_def demo_fat_def demo_state_def)
  have "[0..<128] = (0 :: nat) # [1..<128]" by (simp add: upt_conv_Cons)
  then have idx: "dir_index (disk_byte demo_dir) 33792 [0x49, 0x4E, 0x49, 0x54] [0..<128] = Some 0"
    using demo_dirent by (simp add: dir_index_def del: upt_Suc)
  have "dirent_cluster (disk_byte demo_dir) 33792 = 5" "dirent_size (disk_byte demo_dir) 33792 = 2000"
    by (simp_all add: dirent_cluster_def dirent_size_def b demo_dir_def nth_le_bytes upt_rec)
  with idx show ?thesis unfolding pos dir_lookup_def by simp
qed

lemma demo_lookup_other:
  assumes "name \<noteq> [0x49, 0x4E, 0x49, 0x54]"
  shows "dir_lookup (disk_byte demo_dir) (dir_pos demo_fat 0) (dir_entries demo_fat 0) name = None"
proof -
  have pos: "dir_pos demo_fat 0 = 33792" by (simp add: dir_pos_def demo_fat_def demo_state_def)
  have "\<not> (dirent_used (disk_byte demo_dir) (33792 + 32 * i) \<and> dirent_name (disk_byte demo_dir) (33792 + 32 * i) = name)" for i
  proof (cases i)
    case 0
    with demo_dirent(2) assms show ?thesis by simp
  next
    case (Suc k)
    have "disk_byte demo_dir (33792 + 32 * i) = 0" by (simp add: Suc disk_byte_def demo_dir_def nth_le_bytes)
    then show ?thesis by (simp add: dirent_used_def)
  qed
  then show ?thesis unfolding pos dir_lookup_def dir_index_def by (simp add: find_None_iff)
qed

lemma demo_names_data:
  assumes "a = 0x1FC000 \<or> a = 0x1FC100" and "x \<in> bytes_at a 12"
  shows "unat a \<le> unat x" and "unat x < unat a + 12" and "kernel_data demo_names H (unat x)"
  using assms bytes_at_in_block [of a 12 x] by (auto simp: in_block_def kernel_data_def demo_names_def demo_layout_def)

lemma demo_names_state:
  obtains s A H where "mm_inv demo_names s A H" and "live H = {}" and "105 \<le> big_left A" and "fat16 s = demo_fat"
    and "\<forall>va. user_va va \<longrightarrow> uview s va = 0" and "memtotal s = 0x20000000"
    and "\<forall>x. unat x < 0x200000 \<longrightarrow> \<not> in_block 336 0x1F0000 (unat x) \<longrightarrow> mem s x = 0"
proof -
  obtain s A H where s: "mm_inv demo_names s A H" "live H = {}" "105 \<le> big_left A" "\<forall>va. user_va va \<longrightarrow> uview s va = 0"
    "\<forall>x. unat x < 0x200000 \<longrightarrow> \<not> in_block 336 0x1F0000 (unat x) \<longrightarrow> mem s x = 0" "memtotal s = 0x20000000"
    unfolding demo_names_def by (rule demo_mm_layout)
  note w = kernel_data_write [OF s(1), of "s\<lparr>fat16 := demo_fat\<rparr>", simplified]
  show thesis by (rule that [OF w(1) s(2,3)]) (use w(2) s(4-6) in simp_all)
qed


end
