(* ===== verification/AddrSpace.thy ===== *)
theory AddrSpace
  imports MemClient
begin

text \<open>
  The address space of a new process: a fresh page becomes the table of the user slot of the page directory, as
  \<^verbatim>\<open>palloc\<close> and \<^verbatim>\<open>switch_uvm\<close> arrange it.
\<close>

section \<open>A page that nothing uses\<close>

definition spare_page :: "klayout \<Rightarrow> kstate \<Rightarrow> pm_abs \<Rightarrow> heap_abs \<Rightarrow> uint64 \<Rightarrow> bool" where
  "spare_page K s A H page \<longleftrightarrow> table_ok A page \<and> kernel_end K \<le> page \<and>
     (\<forall>x. in_block 4096 page (unat x) \<longrightarrow> mem s x = 0) \<and>
     (\<forall>x. in_block 4096 page x \<longrightarrow> x \<notin> vm_bytes (mem s) (pgdir s) \<and> x \<notin> heap_bytes K H) \<and>
     (\<forall>va. user_va va \<longrightarrow> user_frame (mem s) (pgdir s) va \<noteq> Some page)"

lemma spare_pageD:
  assumes "spare_page K s A H page"
  shows "table_ok A page" and "kernel_end K \<le> page" and "in_block 4096 page (unat x) \<Longrightarrow> mem s x = 0"
    and "in_block 4096 page y \<Longrightarrow> y \<notin> vm_bytes (mem s) (pgdir s)" and "in_block 4096 page y \<Longrightarrow> y \<notin> heap_bytes K H"
    and "user_va va \<Longrightarrow> user_frame (mem s) (pgdir s) va \<noteq> Some page" and "fresh_table s A page"
  using assms unfolding spare_page_def fresh_table_def by blast+

lemma spare_frame:
  assumes inv: "mm_inv K s A H" and sp: "spare_page K s A H page" and same: "pgdir s' = pgdir s"
    and tree: "\<And>x. unat x \<in> vm_bytes (mem s) (pgdir s) \<Longrightarrow> mem s' x = mem s x"
    and page: "\<And>x. in_block 4096 page (unat x) \<Longrightarrow> mem s' x = mem s x"
    and unc: "\<And>x. in_block 4096 page x \<Longrightarrow> cover A' x = 0 \<and> x \<notin> heap_bytes K H'"
  shows "spare_page K s' A' H' page"
proof -
  note ok = mm_invD(8) [OF inv] and D = spare_pageD [OF sp]
  have "vm_bytes (mem s') (pgdir s) = vm_bytes (mem s) (pgdir s)" by (rule tree_frame_bytes [OF ok tree])
  moreover have "user_frame (mem s') (pgdir s) va = user_frame (mem s) (pgdir s) va" for va
    by (rule tree_frame_user [OF ok tree])
  moreover have "table_ok A' page" using D(1) unc by (simp add: table_ok_def)
  ultimately show ?thesis unfolding spare_page_def same using D(2-6) page unc by simp
qed

text \<open>Changes to kernel memory and heap allocations leave it alone.\<close>

lemma spare_kernel:
  assumes inv: "mm_inv K s A H" and sp: "spare_page K s A H page" and same: "pgdir s' = pgdir s"
    and out: "\<And>x. unat x \<notin> kernel_bytes K H \<Longrightarrow> mem s' x = mem s x"
  shows "spare_page K s' A H page"
proof (rule spare_frame [OF inv sp same])
  fix x :: uint64 assume "unat x \<in> vm_bytes (mem s) (pgdir s)"
  with mm_invD(5,6) [OF inv this] show "mem s' x = mem s x" by (intro out) (simp add: kernel_bytes_def)
next
  fix x :: uint64 assume x: "in_block 4096 page (unat x)"
  have "unat (kernel_end K) \<le> unat x" using spare_pageD(2) [OF sp] x by (simp add: in_block_def word_le_nat_alt)
  with spare_pageD(5) [OF sp x] show "mem s' x = mem s x" by (intro out) (simp add: kernel_bytes_def)
qed (use spare_pageD(1,5) [OF sp] in \<open>simp add: table_ok_def\<close>)

lemma spare_grant:
  assumes inv: "mm_inv K s A H" and sp: "spare_page K s A H page" and g: "heap_grant K s A H a n s' A' H'"
  shows "spare_page K s' A' H' page"
proof -
  have st: "s' = s\<lparr>mem := mem s', pmmap := pmmap s'\<rparr>" and le: "\<And>x. cover A' x \<le> cover A x"
    and hb: "\<And>x. x \<in> heap_bytes K H' \<Longrightarrow> x \<in> heap_bytes K H \<or> cover A x = 1"
    and out: "\<And>x. cover A (unat x) = 0 \<Longrightarrow> unat x \<notin> heap_bytes K H \<Longrightarrow> mem s' x = mem s x"
    using g unfolding heap_grant_def heap_step_def by blast+
  have pg: "cover A x = 0" "x \<notin> heap_bytes K H" if "in_block 4096 page x" for x
    using spare_pageD(1,5) [OF sp] that by (simp_all add: table_ok_def)
  show ?thesis
  proof (rule spare_frame [OF inv sp])
    show "pgdir s' = pgdir s" by (subst st) simp
    show "mem s' x = mem s x" if "unat x \<in> vm_bytes (mem s) (pgdir s)" for x
    proof (rule out)
      show "cover A (unat x) = 0" using that vm_okD(1) [OF mm_invD(8) [OF inv]] unfolding vm_bytes_def table_ok_def by blast
      show "unat x \<notin> heap_bytes K H" by (rule mm_invD(6) [OF inv that])
    qed
    show "mem s' x = mem s x" if "in_block 4096 page (unat x)" for x by (rule out [OF pg [OF that]])
    show "cover A' x = 0 \<and> x \<notin> heap_bytes K H'" if "in_block 4096 page x" for x
      using pg [OF that] le [of x] hb [of x] by auto
  qed
qed

text \<open>A page from the allocator.\<close>

lemma mm_page:
  assumes inv: "mm_inv K s A H" and left: "0 < pm_pages A"
  obtains page s' A' where "pmalloc K PM_4K s = Inr (page, s')" and "mm_inv K s' A' H" and "spare_page K s' A' H page"
    and "s' = s\<lparr>mem := mem s', pmmap := pmmap s'\<rparr>" and "big_left A \<le> big_left A' + 1"
    and "\<forall>x. unat x \<in> kernel_bytes K H \<longrightarrow> mem s' x = mem s x" and "\<forall>v. user_va v \<longrightarrow> uview s' v = uview s v"
proof -
  note vi = mm_invD(2) [OF inv] and ok = mm_invD(8) [OF inv] and rel = mm_invD(1) [OF inv]
  have "pm_rel K s A" "pm_aligned A" using vi by (simp_all add: vm_inv_def)
  then obtain page A' s' where g: "pmalloc K PM_4K s = Inr (page, s')" "pm_granted K 4096 s A page A' s'"
    "pm_aligned A'" "4096 dvd unat page" "pm_pages A = Suc (pm_pages A')" "blocks_kept A A'"
    by (rule page_grant [OF _ _ left])
  have gr: "vm_grows K s A s' A'" "fresh_table s' A' page" by (rule granted_grows [OF vi g(2,3,4,6)])+
  have G: "pm_rel K s' A'" "block_ok K (memtotal s) 4096 page" "\<forall>x. in_block 4096 page (unat x) \<longrightarrow> mem s' x = 0"
    "s' = s\<lparr>mem := mem s', pmmap := pmmap s'\<rparr>" "\<And>x. cover A (unat x) = 0 \<Longrightarrow> mem s' x = mem s x"
    "\<And>x. cover A' x + of_bool (in_block 4096 page x) = cover A x" "\<And>x. cover A x \<le> 1"
    using g(2) unfolding pm_granted_def by blast+
  have le: "cover A' x \<le> cover A x" for x using G(6) [of x] by linarith
  have sm: "pgdir s' = pgdir s" "cr3 s' = cr3 s" "memtotal s' = memtotal s" by (subst G(4), simp)+
  have kern: "mem s' x = mem s x" if "unat x \<in> kernel_bytes K H" for x by (rule G(5) [OF heap_uncovered [OF rel that]])
  have tree0: "cover A x = 0" if "x \<in> vm_bytes (mem s) (pgdir s)" for x
    using that vm_okD(1) [OF ok] unfolding vm_bytes_def table_ok_def by blast
  have tree: "mem s' x = mem s x" if "unat x \<in> vm_bytes (mem s) (pgdir s)" for x by (rule G(5) [OF tree0 [OF that]])
  have tb: "vm_bytes (mem s') (pgdir s) = vm_bytes (mem s) (pgdir s)" by (rule tree_frame_bytes [OF ok tree])
  have pg: "cover A x = 1" if "in_block 4096 page x" for x using G(6) [of x] G(7) [of x] that by simp
  have "heap_rel K s' A' H"
    by (rule heap_under [OF rel G(1) g(3) sm(3) le]) (use kern record_in_kernel [OF rel] in blast)
  moreover have "user_ok K (mem s') (pgdir s) A' H"
  proof (rule tree_frame_user_ok [OF ok tree mm_invD(7) [OF inv]])
    fix va d p x
    assume v: "user_va va" "vm_leaf (mem s) (pgdir s) va = Some (d, p)" and x: "in_block 4096 (pte_frame (load64 (mem s) p)) x"
    show "cover A' x = 0 \<and> x \<notin> heap_bytes K H"
      using user_pages_apart(1,3) [OF inv v x] le [of x] by simp
  qed
  ultimately have inv': "mm_inv K s' A' H"
    using inv gr(1) sm tb unfolding mm_inv_def fuel_ok_def vm_grows_def by simp
  have "user_frame (mem s) (pgdir s) va \<noteq> Some page" if va: "user_va va" for va
  proof
    assume "user_frame (mem s) (pgdir s) va = Some page"
    then obtain d p where "vm_leaf (mem s) (pgdir s) va = Some (d, p)" "pte_frame (load64 (mem s) p) = page"
      by (auto simp: user_frame_def)
    with user_pages_apart(1) [OF inv va, of d p "unat page"] pg [of "unat page"] show False by (simp add: in_block_def)
  qed
  moreover have "user_frame (mem s') (pgdir s) va = user_frame (mem s) (pgdir s) va" for va
    by (rule tree_frame_user [OF ok tree])
  moreover have "x \<notin> heap_bytes K H" if "in_block 4096 page x" for x
    using pg [OF that] heap_uncovered [OF rel, of x] by (auto simp: kernel_bytes_def)
  ultimately have sp: "spare_page K s' A' H page"
    using gr(2) G(2,3) sm(1) unfolding spare_page_def fresh_table_def by (simp add: block_ok_def)
  have up: "mem s' pa = mem s pa" if "user_va v" "translate (mem s) (cr3 s) v = Some pa" for v pa
    by (rule user_pa [OF inv that]) (use G(5) in blast)
  have "uview s' v = uview s v" if "user_va v" for v by (rule uview_frame(2) [OF inv that sm(2) tree up [OF that]])
  then show thesis using that [OF g(1) inv' sp G(4)] g(5,6) kern by (simp add: blocks_kept_def)
qed

section \<open>A new table in the user slot\<close>

text \<open>What the tree looks like when the root entry of \<open>va\<close> is set to an empty table.\<close>

lemma graft_tab:
  fixes s :: kstate and va
  assumes ok: "vm_ok (mem s) (pgdir s) A" and fresh: "fresh_table s A page" and e: "descends 0 e" "pte_frame e = page"
  defines "m \<equiv> store64 (mem s) (pt_entry (pgdir s) 0 va) e"
  shows "tab m (pgdir s) v d = (if 0 < d \<and> pt_idx 0 v = pt_idx 0 va then if d = 1 then Some page else None
      else tab (mem s) (pgdir s) v d)"
    and "tab (mem s) (pgdir s) v d = Some t \<Longrightarrow> 0 < d \<or> pt_idx 0 v \<noteq> pt_idx 0 va \<Longrightarrow>
      load64 m (pt_entry t d v) = load64 (mem s) (pt_entry t d v)"
    and "load64 m (pt_entry page d v) = 0"
proof -
  let ?r = "pgdir s"
  have root: "tab (mem s) ?r va 0 = Some ?r" by simp
  note ld = set_entry_loads [OF ok root, where e = e, folded m_def]
  have ne: "pt_entry t d v \<noteq> pt_entry ?r 0 va" if "tab (mem s) ?r v d = Some t" "0 < d \<or> pt_idx 0 v \<noteq> pt_idx 0 va" for v d t
  proof
    assume "pt_entry t d v = pt_entry ?r 0 va"
    then have "t = ?r" "pt_idx d v = pt_idx 0 va"
      using pt_entry_inject [OF vm_okD(1) [OF ok that(1)] vm_okD(1) [OF ok root]] by blast+
    moreover have "d = 0" using vm_okD(3) [OF ok that(1), of va 0] \<open>t = ?r\<close> by simp
    ultimately show False using that(2) by simp
  qed
  show same: "load64 m (pt_entry t d v) = load64 (mem s) (pt_entry t d v)"
    if "tab (mem s) ?r v d = Some t" "0 < d \<or> pt_idx 0 v \<noteq> pt_idx 0 va" for v d t
    by (rule ld(2) [OF that(1) ne [OF that]])
  show zero: "load64 m (pt_entry page d v) = 0" for d v by (rule ld(3) [OF fresh])
  show "tab m ?r v d = (if 0 < d \<and> pt_idx 0 v = pt_idx 0 va then if d = 1 then Some page else None
      else tab (mem s) ?r v d)"
  proof (induction d)
    case (Suc d)
    show ?case
    proof (cases "pt_idx 0 v = pt_idx 0 va")
      case True
      then have "pt_entry ?r 0 v = pt_entry ?r 0 va" by (simp add: pt_entry_def)
      with Suc True ld(1) e zero show ?thesis by (cases d) (auto simp: Let_def descends_def split: if_splits)
    next
      case False
      with Suc same [of v d] show ?thesis by (cases "tab (mem s) ?r v d") (simp_all add: Let_def)
    qed
  qed simp
qed

lemma leaf_cong:
  assumes tb: "\<And>d. tab m' r v d = tab m r v d"
    and l: "\<And>d t. tab m r v d = Some t \<Longrightarrow> load64 m' (pt_entry t d v) = load64 m (pt_entry t d v)"
  shows "vm_leaf m' r v = vm_leaf m r v"
proof -
  have sub: "vm_leaf m2 r v = Some (d, p)"
    if lf: "vm_leaf m1 r v = Some (d, p)" and t1: "\<And>d. tab m1 r v d = tab m2 r v d"
      and l1: "\<And>d t. tab m1 r v d = Some t \<Longrightarrow> load64 m2 (pt_entry t d v) = load64 m1 (pt_entry t d v)" for m1 m2 d p
    by (rule vm_leafD [OF lf]) (use t1 l1 vm_leafI [of m2 r v d] in metis)
  show ?thesis
  proof (cases "vm_leaf m' r v")
    case None
    then show ?thesis using sub [of m _ _ m'] tb l by (cases "vm_leaf m r v") auto
  next
    case (Some dp)
    obtain d p where "dp = (d, p)" by (cases dp)
    with Some sub [of m' d p m] tb l show ?thesis by simp
  qed
qed

lemma graft_leaf:
  fixes s :: kstate and va
  assumes ok: "vm_ok (mem s) (pgdir s) A" and fresh: "fresh_table s A page" and e: "descends 0 e" "pte_frame e = page"
  defines "m \<equiv> store64 (mem s) (pt_entry (pgdir s) 0 va) e"
  shows "vm_leaf m (pgdir s) v = (if pt_idx 0 v = pt_idx 0 va then None else vm_leaf (mem s) (pgdir s) v)"
    and "pt_idx 0 v \<noteq> pt_idx 0 va \<Longrightarrow> vm_leaf (mem s) (pgdir s) v = Some (d, p) \<Longrightarrow> load64 m p = load64 (mem s) p"
proof -
  note tb = graft_tab [OF ok fresh e, where va = va, folded m_def]
  show "vm_leaf m (pgdir s) v = (if pt_idx 0 v = pt_idx 0 va then None else vm_leaf (mem s) (pgdir s) v)"
  proof (cases "pt_idx 0 v = pt_idx 0 va")
    case True
    then show ?thesis using tb(1) [of v 2] by (simp add: vm_leaf_def)
  next
    case False
    then have "vm_leaf m (pgdir s) v = vm_leaf (mem s) (pgdir s) v" by (intro leaf_cong) (use tb in simp_all)
    with False show ?thesis by simp
  qed
  show "load64 m p = load64 (mem s) p" if "pt_idx 0 v \<noteq> pt_idx 0 va" "vm_leaf (mem s) (pgdir s) v = Some (d, p)"
    by (rule vm_leafD [OF that(2)]) (use tb(2) that(1) in blast)
qed

lemma graft_ok:
  fixes s :: kstate and va
  assumes ok: "vm_ok (mem s) (pgdir s) A" and fresh: "fresh_table s A page" and e: "descends 0 e" "pte_frame e = page"
    and small: "unat e < phys_limit"
  defines "m \<equiv> store64 (mem s) (pt_entry (pgdir s) 0 va) e"
  shows "vm_ok m (pgdir s) A" and "vm_bytes m (pgdir s) \<subseteq> vm_bytes (mem s) (pgdir s) \<union> {x. in_block 4096 page x}"
proof -
  let ?r = "pgdir s"
  note tb = graft_tab [OF ok fresh e, where va = va, folded m_def]
  have new: "table_ok A page" "in_block 4096 page (unat page)" "unat page \<notin> vm_bytes (mem s) ?r"
    using fresh by (auto simp: fresh_table_def in_block_def)
  have kinds: "d = 1 \<and> t = page \<and> pt_idx 0 v = pt_idx 0 va \<or>
      tab (mem s) ?r v d = Some t \<and> (d = 0 \<or> pt_idx 0 v \<noteq> pt_idx 0 va)" if "tab m ?r v d = Some t" for v d t
    using that tb(1) [of v d] by (auto split: if_splits)
  have old: "t \<noteq> page" if "tab (mem s) ?r v d = Some t" for v d t
    using that new(2,3) unfolding vm_bytes_def by blast
  have el: "load64 m (pt_entry ?r 0 v) = e" if "pt_idx 0 v = pt_idx 0 va" for v
    using that by (simp add: m_def pt_entry_def quad_cell.load_store)
  have "table_ok A t \<and> (load64 m (pt_entry t d v) AND PG_P \<noteq> 0 \<longrightarrow> unat (load64 m (pt_entry t d v)) < phys_limit)"
    if t: "tab m ?r v d = Some t" for v d t
    using kinds [OF t]
  proof (elim disjE conjE)
    assume "t = page"
    then show ?thesis using new(1) tb(3) [of d v] by simp
  next
    assume o: "tab (mem s) ?r v d = Some t" and "d = 0"
    then have "t = ?r" by simp
    then show ?thesis using vm_okD(1,2) [OF ok o] tb(2) [OF o] el [of v] small \<open>d = 0\<close> by (cases "pt_idx 0 v = pt_idx 0 va") simp_all
  next
    assume o: "tab (mem s) ?r v d = Some t" and "pt_idx 0 v \<noteq> pt_idx 0 va"
    then show ?thesis using vm_okD(1,2) [OF ok o] tb(2) [OF o] by simp
  qed
  moreover have "d = d' \<and> same_path d v v'" if t: "tab m ?r v d = Some t" "tab m ?r v' d' = Some t" for v v' d d' t
  proof (cases "t = page")
    case True
    have "d = 1" "d' = 1" "pt_idx 0 v = pt_idx 0 v'"
      using kinds [OF t(1)] kinds [OF t(2)] old [of v d t] old [of v' d' t] True by auto
    then show ?thesis by (simp add: same_path_def)
  next
    case False
    then have "tab (mem s) ?r v d = Some t" "tab (mem s) ?r v' d' = Some t" using kinds [OF t(1)] kinds [OF t(2)] by auto
    then show ?thesis using vm_okD(3) [OF ok] by blast
  qed
  ultimately show "vm_ok m ?r A" unfolding vm_ok_def by blast
  show "vm_bytes m ?r \<subseteq> vm_bytes (mem s) ?r \<union> {x. in_block 4096 page x}"
    using kinds unfolding vm_bytes_def by blast
qed

lemma mm_graft:
  fixes s :: kstate and va
  assumes inv: "mm_inv K s A H" and sp: "spare_page K s A H page" and e: "descends 0 e" "pte_frame e = page"
    and small: "unat e < phys_limit"
  defines "s' \<equiv> s\<lparr>mem := store64 (mem s) (pt_entry (pgdir s) 0 va) e\<rparr>"
  shows "mm_inv K s' A H" and "user_va v \<Longrightarrow> uview s' v = (if pt_idx 0 v = pt_idx 0 va then 0 else uview s v)"
    and "unat x \<in> kernel_bytes K H \<Longrightarrow> mem s' x = mem s x"
proof -
  let ?r = "pgdir s"
  note ok = mm_invD(8) [OF inv] and rel = mm_invD(1) [OF inv] and D = spare_pageD [OF sp] and u = mm_invD(7) [OF inv]
  have m: "mem s' = store64 (mem s) (pt_entry ?r 0 va) e" and r: "pgdir s' = ?r" by (simp_all add: s'_def)
  note gk = graft_ok [OF ok D(7) e small, where va = va, folded m] and lf = graft_leaf [OF ok D(7) e, where va = va, folded m]
  have root: "tab (mem s) ?r va 0 = Some ?r" by simp
  have out: "mem s' x = mem s x" if "unat x \<notin> vm_bytes (mem s) ?r" for x
    unfolding m by (rule quad_cell.store_outside) (use that entry_in_tree [OF ok root] in blast)
  have tree0: "cover A x = 0" if "x \<in> vm_bytes (mem s) ?r" for x
    using that vm_okD(1) [OF ok] unfolding vm_bytes_def table_ok_def by blast
  show kern: "mem s' x = mem s x" if "unat x \<in> kernel_bytes K H" for x
    by (rule out) (use that mm_invD(5,6) [OF inv, of "unat x"] in \<open>auto simp: kernel_bytes_def\<close>)
  have "heap_rel K s' A H"
  proof (rule heap_frame [OF rel])
    show "mem s' x = mem s x" if "cover A (unat x) \<noteq> 0" for x by (rule out) (use that tree0 [of "unat x"] in auto)
    show "mem s' x = mem s x" if "slab_in H i q" "in_block 24 (sl_entry q) (unat x)" for i q x
      by (rule kern [OF record_in_kernel [OF rel that]])
  qed (simp_all add: s'_def)
  moreover have "vm_inv K s' A"
    using mm_invD(2) [OF inv] gk(1) calculation unfolding vm_inv_def heap_rel_def by (simp add: s'_def)
  moreover have "unat (kernel_end K) \<le> x \<and> x \<notin> heap_bytes K H" if "x \<in> vm_bytes (mem s') ?r" for x
    using gk(2) that mm_invD(5,6) [OF inv] D(2,5) by (fastforce simp: in_block_def word_le_nat_alt)
  moreover have "user_ok K (mem s') ?r A H"
  proof -
    have keep: "vm_leaf (mem s) ?r v = Some (d, p)" "load64 (mem s') p = load64 (mem s) p"
      if "vm_leaf (mem s') ?r v = Some (d, p)" for v d p
      using that lf(1) [of v] lf(2) [of v d p] by (simp_all split: if_splits)
    have uf: "user_frame (mem s) ?r v = Some f" if "user_frame (mem s') ?r v = Some f" for v f
      using that keep [of v] by (auto simp: user_frame_def)
    have "d = 3 \<and> table_ok A (pte_frame (load64 (mem s') p)) \<and> kernel_end K \<le> pte_frame (load64 (mem s') p) \<and>
        (\<forall>x. in_block 4096 (pte_frame (load64 (mem s') p)) x \<longrightarrow> x \<notin> vm_bytes (mem s') ?r \<and> x \<notin> heap_bytes K H)"
      if v: "user_va v" and l: "vm_leaf (mem s') ?r v = Some (d, p)" for v d p
    proof -
      note k = keep [OF l] and uk = user_okD [OF u v keep(1) [OF l]]
      have "pte_frame (load64 (mem s) p) \<noteq> page" using D(6) [OF v] k(1) by (auto simp: user_frame_def)
      then have "\<not> in_block 4096 page x" if "in_block 4096 (pte_frame (load64 (mem s) p)) x" for x
        using that aligned_blocks_same [OF _ _ that] uk(2) D(1) by (auto simp: table_ok_def)
      then show ?thesis unfolding k(2) using uk gk(2) by auto
    qed
    then show ?thesis using u uf unfolding user_ok_def by blast
  qed
  ultimately show inv': "mm_inv K s' A H"
    using inv r unfolding mm_inv_def fuel_ok_def by (simp add: s'_def)
  have tr: "translate n (cr3 s') v = map_option (\<lambda>(d, p). leaf_addr d (load64 n p) v) (vm_leaf n ?r v)" for n v
    using mm_translate [OF inv'] r by simp
  show "uview s' v = (if pt_idx 0 v = pt_idx 0 va then 0 else uview s v)" if v: "user_va v"
  proof (cases "pt_idx 0 v = pt_idx 0 va")
    case True
    then show ?thesis using lf(1) [of v] by (simp add: uview_def tr)
  next
    case False
    have c: "cr3 s' = cr3 s" by (simp add: s'_def)
    have "translate (mem s') (cr3 s') v = translate (mem s) (cr3 s) v"
      using lf(1) [of v] lf(2) [OF False] False unfolding tr mm_translate [OF inv] by (cases "vm_leaf (mem s) ?r v") auto
    moreover have "mem s' pa = mem s pa" if "translate (mem s) (cr3 s) v = Some pa" for pa
      by (rule user_pa [OF inv v that]) (use out in blast)
    ultimately show ?thesis using False by (simp add: uview_def split: option.splits)
  qed
qed

end
