(* ===== verification/ProcOps.thy ===== *)
theory ProcOps
  imports Proc AddrSpace
begin

text \<open>
  Processes, \<^verbatim>\<open>arch/x86/proc.c\<close>, on top of memory management: what releasing a process really does, and
  how the first process is started.
\<close>

section \<open>Releasing a process\<close>

text \<open>
  C21.  \<^verbatim>\<open>pfree\<close> never returns, whatever the process and the state: \<^verbatim>\<open>free_uvm\<close> clears the entry of the
  user page table, and the entry is then handed to \<^verbatim>\<open>pmfree\<close>, which stops the kernel on address 0 (unless an
  earlier step already stopped it).
\<close>

theorem pfree_never_returns: "\<exists>e. pfree K p s = Inl e"
proof (cases "pfree K p s")
  case (Inr s')
  then obtain s1 s2 s3 where f: "free_uvm K p s1 = Inr s2" and m: "pmfree K (proc_upml4 (mem s2) p) PM_4K s2 = Inr s3"
    unfolding pfree_def ebind_eq_Inr by blast
  from f obtain s0 where "s2 = set_proc_upml4 p 0 s0"
    unfolding free_uvm_def by (auto simp: ebind_eq_Inr Let_def split: if_splits)
  then have "proc_upml4 (mem s2) p = 0"
    by (simp add: set_proc_upml4_def proc_upml4_def quad_cell.load_store)
  with m show ?thesis by (auto simp: pmfree_def ebind_eq_Inr)
qed simp

section \<open>Memory and the list of processes\<close>

definition proc_inv :: "klayout \<Rightarrow> kstate \<Rightarrow> pm_abs \<Rightarrow> heap_abs \<Rightarrow> uint64 list \<Rightarrow> bool" where
  "proc_inv K s A H cs \<longleftrightarrow> mm_inv K s A H \<and> list_inv K s A H (proc_list_at K) cs"

lemma proc_invD:
  assumes "proc_inv K s A H cs"
  shows "mm_inv K s A H" and "list_inv K s A H (proc_list_at K) cs" and "heap_rel K s A H"
    and "c \<in> set cs \<Longrightarrow> (c, 64) \<in> live H" and "list_static K (proc_list_at K)"
  using assms by (auto simp: proc_inv_def list_inv_def)

text \<open>Objects keep their bytes.\<close>

definition keeps :: "kstate \<Rightarrow> kstate \<Rightarrow> uint64 \<Rightarrow> nat \<Rightarrow> bool" where
  "keeps s s' a n \<longleftrightarrow> (\<forall>x. in_block n a (unat x) \<longrightarrow> mem s' x = mem s x)"

lemma keeps_trans: "keeps s s1 a n \<Longrightarrow> keeps s1 s2 a n \<Longrightarrow> keeps s s2 a n"
  by (simp add: keeps_def)

text \<open>Cells of an object: a load at an offset sees the object's own bytes only.\<close>

lemma cell_in_object:
  assumes "unat a + n < 18446744073709551616" and "i + 8 \<le> n" and "x \<in> bytes_at (a + of_nat i) 8"
  shows "in_block n a (unat x)"
proof -
  have "unat (a + of_nat i) = unat a + i" by (rule unat_add_no_wrap) (use assms in linarith)
  then show ?thesis using assms bytes_at_in_block [of "a + of_nat i" 8 x] by (auto simp: in_block_def)
qed

lemma keeps_load:
  assumes "keeps s s' a n" and "i + 8 \<le> n" and "unat a + n < 18446744073709551616"
  shows "load64 (mem s') (a + of_nat i) = load64 (mem s) (a + of_nat i)"
  by (rule quad_cell.load_local) (use assms cell_in_object [OF assms(3,2)] in \<open>simp add: keeps_def\<close>)

lemma store_in_object:
  assumes "unat a + n < 18446744073709551616" and "i + 8 \<le> n" and "\<not> in_block n a (unat x)"
  shows "store64 m (a + of_nat i) v x = m x"
  by (rule quad_cell.store_outside) (use cell_in_object [OF assms(1,2)] assms(3) in blast)

lemma stat_in_object:
  assumes "unat a + n < 18446744073709551616" and "8 \<le> n"
  shows "\<not> in_block n a (unat x) \<Longrightarrow> store32 m a v x = m x" and "keeps s s' a n \<Longrightarrow> load32 (mem s') a = load32 (mem s) a"
proof -
  have "bytes_at a 4 \<subseteq> bytes_at (a + of_nat 0) 8" using bytes_at_offset_subset [of 0 4 8 a] by simp
  then have "in_block n a (unat x)" if "x \<in> bytes_at a 4" for x using that cell_in_object [OF assms(1), of 0] assms(2) by auto
  then show "\<not> in_block n a (unat x) \<Longrightarrow> store32 m a v x = m x" and "keeps s s' a n \<Longrightarrow> load32 (mem s') a = load32 (mem s) a"
    by (auto simp: keeps_def intro: word_cell.store_outside word_cell.load_local)
qed

lemma stat_apart:
  "8 \<le> unat (a - p) \<Longrightarrow> 8 \<le> unat (p - a) \<Longrightarrow> load32 (store64 m a v) p = load32 m p"
  "8 \<le> unat (a - p) \<Longrightarrow> 8 \<le> unat (p - a) \<Longrightarrow> load64 (store32 m p w) a = load64 m a"
proof -
  assume "8 \<le> unat (a - p)" "8 \<le> unat (p - a)"
  then have "bytes_at a 8 \<inter> bytes_at p 4 = {}" by (intro bytes_at_apart) simp_all
  then show "load32 (store64 m a v) p = load32 m p" "load64 (store32 m p w) a = load64 m a"
    by (auto intro!: word_cell.load_local quad_cell.load_local word_cell.store_outside quad_cell.store_outside)
qed

lemmas proc_fields = proc_stat_def proc_pid_def proc_kstack_def proc_context_def proc_upml4_def
lemmas proc_setters = set_proc_stat_def set_proc_pid_def set_proc_kstack_def set_proc_context_def set_proc_wchan_def
  set_proc_ofile_def set_proc_upml4_def set_ctx_def
lemmas cell_loads = word_cell.load_store quad_cell.load_store quad_apart stat_apart

lemma proc_same:
  assumes "keeps s s' p 512" and "unat p + 512 < 18446744073709551616"
  shows "proc_stat (mem s') p = proc_stat (mem s) p" "proc_pid (mem s') p = proc_pid (mem s) p"
    "proc_kstack (mem s') p = proc_kstack (mem s) p" "proc_context (mem s') p = proc_context (mem s) p"
    "proc_upml4 (mem s') p = proc_upml4 (mem s) p"
    "load64 (mem s') (p + 48) = load64 (mem s) (p + 48)" "load64 (mem s') (p + 56) = load64 (mem s) (p + 56)"
  unfolding proc_fields using keeps_load [OF assms(1) _ assms(2), of 8] keeps_load [OF assms(1) _ assms(2), of 16]
    keeps_load [OF assms(1) _ assms(2), of 24] keeps_load [OF assms(1) _ assms(2), of 40]
    keeps_load [OF assms(1) _ assms(2), of 48] keeps_load [OF assms(1) _ assms(2), of 56]
    stat_in_object(2) [OF assms(2) _ assms(1)] by simp_all

section \<open>Steps of an operation\<close>

text \<open>
  What a step of an operation on processes leaves as it is: memory management and the list are sound, no object is
  released, user memory reads as before, and nothing but memory, the free lists and the counter of
  process numbers changes.  At most \<open>k\<close> large blocks are used.
\<close>

definition proc_run ::
    "klayout \<Rightarrow> uint64 list \<Rightarrow> nat \<Rightarrow> kstate \<Rightarrow> pm_abs \<Rightarrow> heap_abs \<Rightarrow> kstate \<Rightarrow> pm_abs \<Rightarrow> heap_abs \<Rightarrow> bool" where
  "proc_run K cs k s A H s' A' H' \<longleftrightarrow> proc_inv K s' A' H' cs \<and>
     map (list_node (mem s')) cs = map (list_node (mem s)) cs \<and> live H \<subseteq> live H' \<and> big_left A \<le> big_left A' + k \<and>
     (\<forall>v. user_va v \<longrightarrow> uview s' v = uview s v) \<and> s' = s\<lparr>mem := mem s', pmmap := pmmap s', nextpid := nextpid s'\<rparr>"

lemma proc_runD:
  assumes "proc_run K cs k s A H s' A' H'"
  shows "proc_inv K s' A' H' cs" and "map (list_node (mem s')) cs = map (list_node (mem s)) cs"
    and "x \<in> live H \<Longrightarrow> x \<in> live H'" and "big_left A \<le> big_left A' + k" and "user_va v \<Longrightarrow> uview s' v = uview s v"
    and "s' = s\<lparr>mem := mem s', pmmap := pmmap s', nextpid := nextpid s'\<rparr>" and "pgdir s' = pgdir s"
proof -
  show st: "s' = s\<lparr>mem := mem s', pmmap := pmmap s', nextpid := nextpid s'\<rparr>" using assms unfolding proc_run_def by blast
  show "pgdir s' = pgdir s" by (subst st) simp
qed (use assms in \<open>auto simp: proc_run_def\<close>)

lemma proc_run_trans:
  assumes 1: "proc_run K cs k s A H s1 A1 H1" and 2: "proc_run K cs l s1 A1 H1 s2 A2 H2"
  shows "proc_run K cs (k + l) s A H s2 A2 H2"
  unfolding proc_run_def
proof (intro conjI)
  show "s2 = s\<lparr>mem := mem s2, pmmap := pmmap s2, nextpid := nextpid s2\<rparr>"
    using proc_runD(6) [OF 1] proc_runD(6) [OF 2] by (cases s; cases s1; cases s2) auto
qed (use proc_runD(1-5) [OF 1] proc_runD(1-5) [OF 2] in auto)

lemma proc_run_alloc:
  assumes inv: "proc_inv K s A H cs" and sz: "sz \<le> 4096" "slot_sz (class_of sz) = n" and left: "2 \<le> big_left A"
  obtains a s' A' H' where "kmalloc K sz s = Inr (a, s')" and "proc_run K cs 2 s A H s' A' H'"
    and "live H' = insert (a, n) (live H)" and "\<forall>m. (a, m) \<notin> live H"
    and "\<forall>b m. (b, m) \<in> live H \<longrightarrow> keeps s s' b m" and "nextpid s' = nextpid s"
proof -
  note mm = proc_invD(1) [OF inv]
  have big: "sz \<le> 524288" using sz(1) by (simp add: word_le_nat_alt)
  show thesis
  proof (rule mm_kmalloc [OF mm big])
    fix a s' A' H'
    assume k: "kmalloc K sz s = Inr (a, s')" and g0: "heap_grant K s A H a (slot_sz (class_of sz)) s' A' H'"
      and b: "big_left A \<le> big_left A' + 2" and inv': "mm_inv K s' A' H'" and uv: "\<forall>va. user_va va \<longrightarrow> uview s' va = uview s va"
    have g: "heap_grant K s A H a n s' A' H'" using g0 sz(2) by simp
    have fresh: "\<forall>m. (a, m) \<notin> live H" using granted_fresh [OF g] sz(2) by (auto simp: slot_sz_def)
    note li = list_inv_grant [OF proc_invD(2) [OF inv] g]
    have st: "live H' = insert (a, n) (live H)" "\<forall>b m. (b, m) \<in> live H \<longrightarrow> keeps s s' b m"
      "s' = s\<lparr>mem := mem s', pmmap := pmmap s'\<rparr>"
      using g unfolding heap_grant_def heap_step_def keeps_def by blast+
    have np: "nextpid s' = nextpid s" by (subst st(3)) simp
    have "s' = s\<lparr>mem := mem s', pmmap := pmmap s', nextpid := nextpid s'\<rparr>" using st(3) np by (cases s; cases s') simp
    then have "proc_run K cs 2 s A H s' A' H'"
      unfolding proc_run_def using inv' li b uv st(1) by (auto simp: proc_inv_def)
    then show thesis by (rule that [OF k _ st(1) fresh st(2) np])
  qed (use left in simp)
qed

text \<open>A write to an object that is not a cell of the list.\<close>

lemma proc_write:
  assumes inv: "proc_inv K s A H cs" and a: "(a, n) \<in> live H" "a \<notin> set cs"
    and same: "s' = s\<lparr>mem := mem s', nextpid := nextpid s'\<rparr>" and out: "\<forall>x. \<not> in_block n a (unat x) \<longrightarrow> mem s' x = mem s x"
  shows "proc_run K cs 0 s A H s' A H" and "(b, m) \<in> live H \<Longrightarrow> b \<noteq> a \<Longrightarrow> keeps s s' b m"
    and "spare_page K s A H page \<Longrightarrow> spare_page K s' A H page"
proof -
  note mm = proc_invD(1) [OF inv] and rel = proc_invD(3) [OF inv]
  have eq: "pmmap s' = pmmap s" "memtotal s' = memtotal s" "pgdir s' = pgdir s" "cr3 s' = cr3 s" by (subst same, simp)+
  note w = mm_object_write [OF mm a(1) eq out] and li = list_object_write [OF proc_invD(2) [OF inv] a eq(1,2) out]
  have "s' = s\<lparr>mem := mem s', pmmap := pmmap s', nextpid := nextpid s'\<rparr>" using same eq(1) by (cases s; cases s') simp
  then show "proc_run K cs 0 s A H s' A H" unfolding proc_run_def using w(1,2) li by (simp add: proc_inv_def)
  show "keeps s s' b m" if "(b, m) \<in> live H" "b \<noteq> a"
    using out live_apart [OF rel that(1) a(1) that(2)] unfolding keeps_def by blast
  show "spare_page K s' A H page" if "spare_page K s A H page"
  proof (rule spare_kernel [OF mm that eq(3)])
    show "mem s' x = mem s x" if "unat x \<notin> kernel_bytes K H" for x
      using out object_is_kernel [OF rel a(1)] that by blast
  qed
qed

text \<open>A page for the tables of the new address space.\<close>

lemma live_kept:
  assumes "heap_rel K s A H" and "(b, m) \<in> live H" and "\<forall>x. unat x \<in> kernel_bytes K H \<longrightarrow> mem s' x = mem s x"
  shows "keeps s s' b m"
  using object_is_kernel [OF assms(1,2)] assms(3) unfolding keeps_def by blast

lemma list_kernel_kept:
  assumes inv: "list_inv K s A H l cs" and rel: "heap_rel K s' A' H" and mt: "memtotal s' = memtotal s"
    and keep: "\<forall>x. unat x \<in> kernel_bytes K H \<longrightarrow> mem s' x = mem s x"
  shows "list_inv K s' A' H l cs" and "map (list_node (mem s')) cs = map (list_node (mem s)) cs"
proof -
  have I: "heap_rel K s A H" "list_static K l" "\<And>c. c \<in> set cs \<Longrightarrow> (c, 64) \<in> live H"
    using inv by (auto simp: list_inv_def)
  have "unat x \<in> kernel_bytes K H" if c: "c \<in> set (l # cs)" and x: "in_block 24 c (unat x)" for c and x :: uint64
  proof (cases "c = l")
    case True
    then show ?thesis using I(2) x by (simp add: list_static_def in_block_def kernel_bytes_def)
  next
    case False
    have "in_block 64 c (unat x)" using x by (simp add: in_block_def)
    then show ?thesis using object_is_kernel [OF I(1) I(3)] False c by simp
  qed
  with keep have "\<forall>c \<in> set (l # cs). \<forall>x. in_block 24 c (unat x) \<longrightarrow> mem s' x = mem s x" by blast
  note kc = klist_cong [OF inv this]
  show "map (list_node (mem s')) cs = map (list_node (mem s)) cs" by (rule kc(2))
  show "list_inv K s' A' H l cs" using inv kc(1) rel mt by (simp add: list_inv_def)
qed

lemma proc_run_page:
  assumes inv: "proc_inv K s A H cs" and left: "1 \<le> big_left A"
  obtains page s' A' where "pmalloc K PM_4K s = Inr (page, s')" and "proc_run K cs 1 s A H s' A' H"
    and "spare_page K s' A' H page" and "\<forall>b m. (b, m) \<in> live H \<longrightarrow> keeps s s' b m" and "nextpid s' = nextpid s"
proof -
  note mm = proc_invD(1) [OF inv]
  have "0 < pm_pages A" using left by (auto simp: pm_pages_def big_left_def)
  then obtain page s' A' where g: "pmalloc K PM_4K s = Inr (page, s')" "mm_inv K s' A' H" "spare_page K s' A' H page"
    "s' = s\<lparr>mem := mem s', pmmap := pmmap s'\<rparr>" "big_left A \<le> big_left A' + 1"
    "\<forall>x. unat x \<in> kernel_bytes K H \<longrightarrow> mem s' x = mem s x" "\<forall>v. user_va v \<longrightarrow> uview s' v = uview s v"
    by (rule mm_page [OF mm])
  have eq: "memtotal s' = memtotal s" "nextpid s' = nextpid s" by (subst g(4), simp)+
  note li = list_kernel_kept [OF proc_invD(2) [OF inv] mm_invD(1) [OF g(2)] eq(1) g(6)]
  have "s' = s\<lparr>mem := mem s', pmmap := pmmap s', nextpid := nextpid s'\<rparr>" using g(4) eq(2) by (cases s; cases s') simp
  then have "proc_run K cs 1 s A H s' A' H" unfolding proc_run_def using g(2,5,7) li by (simp add: proc_inv_def)
  then show thesis
    by (rule that [OF g(1) _ g(3) _ eq(2)]) (use live_kept [OF proc_invD(3) [OF inv] _ g(6)] in blast)
qed

text \<open>The new process at the end of the list.\<close>

lemma proc_push:
  assumes inv: "proc_inv K s A H cs" and left: "2 \<le> big_left A"
  obtains c s' A' H' where "list_push K (proc_list_at K) node s = Inr s'" and "proc_inv K s' A' H' (cs @ [c])"
    and "map (list_node (mem s')) (cs @ [c]) = map (list_node (mem s)) cs @ [node]"
    and "live H' = insert (c, 64) (live H)" and "\<forall>n. (c, n) \<notin> live H"
    and "\<forall>b m. (b, m) \<in> live H \<longrightarrow> b \<notin> set cs \<longrightarrow> keeps s s' b m" and "big_left A \<le> big_left A' + 2"
    and "\<forall>v. user_va v \<longrightarrow> uview s' v = uview s v" and "s' = s\<lparr>mem := mem s', pmmap := pmmap s'\<rparr>"
    and "\<forall>page. spare_page K s A H page \<longrightarrow> spare_page K s' A' H' page"
proof -
  let ?l = "proc_list_at K"
  note mm = proc_invD(1) [OF inv]
  show thesis
  proof (rule list_push_spec [OF proc_invD(2) [OF inv], of node])
    assume "big_left A < 2"
    with left show thesis by simp
  next
    fix c s' A' H'
    assume run: "list_push K ?l node s = Inr s'" and li: "list_inv K s' A' H' ?l (cs @ [c])"
      and nodes: "map (list_node (mem s')) (cs @ [c]) = map (list_node (mem s)) cs @ [node]"
      and lv: "live H' = insert (c, 64) (live H)" and fresh: "\<forall>n. (c, n) \<notin> live H"
      and keep: "\<forall>b m x. (b, m) \<in> live H \<longrightarrow> b \<notin> set cs \<longrightarrow> in_block m b (unat x) \<longrightarrow> mem s' x = mem s x"
      and bl: "big_left A \<le> big_left A' + 2"
      and "\<exists>s1. heap_grant K s A H c 64 s1 A' H' \<and> s' = s1\<lparr>mem := mem s'\<rparr> \<and>
        (\<forall>x. \<not> in_block 24 c (unat x) \<longrightarrow> \<not> in_block 24 (last (?l # cs)) (unat x) \<longrightarrow> mem s' x = mem s1 x)"
    then obtain s1 where g: "heap_grant K s A H c 64 s1 A' H'" and s': "s' = s1\<lparr>mem := mem s'\<rparr>"
      and out: "\<And>x. \<not> in_block 24 c (unat x) \<Longrightarrow> \<not> in_block 24 (last (?l # cs)) (unat x) \<Longrightarrow> mem s' x = mem s1 x" by blast
    note gr = mm_grant [OF mm g] and rel = mm_invD(1) [OF mm_grant(1) [OF mm g]]
    have s1: "s1 = s\<lparr>mem := mem s1, pmmap := pmmap s1\<rparr>" using g unfolding heap_grant_def heap_step_def by blast
    have eq: "pmmap s' = pmmap s1" "memtotal s' = memtotal s1" "pgdir s' = pgdir s1" "cr3 s' = cr3 s1" by (subst s', simp)+
    have cell: "unat x \<in> kernel_bytes K H' \<and> (\<forall>i r. slab_in H' i r \<longrightarrow> \<not> in_block 24 (sl_entry r) (unat x))"
      if e: "e = ?l \<or> e \<in> set (cs @ [c])" and x: "in_block 24 e (unat x)" for e x
      using e
    proof
      assume "e = ?l"
      with x proc_invD(5) [OF inv] show ?thesis
        by (intro image_is_kernel [OF rel]) (auto simp: list_static_def in_block_def)
    next
      assume "e \<in> set (cs @ [c])"
      then have "(e, 64) \<in> live H'" using li by (auto simp: list_inv_def)
      then show ?thesis by (rule object_is_kernel [OF rel]) (use x in \<open>simp add: in_block_def\<close>)
    qed
    have "last (?l # cs) = ?l \<or> last (?l # cs) \<in> set (cs @ [c])" by auto
    then have ch: "\<forall>x. mem s' x \<noteq> mem s1 x \<longrightarrow> unat x \<in> kernel_bytes K H' \<and>
        (\<forall>i r. slab_in H' i r \<longrightarrow> \<not> in_block 24 (sl_entry r) (unat x))"
      using out cell [of "last (?l # cs)"] cell [of c] by (metis in_set_conv_decomp)
    note w = mm_kernel_write [OF gr(1) eq ch]
    have "spare_page K s' A' H' page" if "spare_page K s A H page" for page
      by (rule spare_kernel [OF gr(1) spare_grant [OF mm that g] eq(3)]) (use ch in blast)
    moreover have "s' = s\<lparr>mem := mem s', pmmap := pmmap s'\<rparr>" using s' s1 by (cases s; cases s1; cases s') simp
    ultimately show thesis
      using that [OF run _ nodes lv fresh _ bl] w(1,2) gr(2) li keep by (simp add: proc_inv_def keeps_def)
  qed
qed

section \<open>A new process\<close>

text \<open>What \<^verbatim>\<open>palloc\<close> builds: \<open>p\<close> is the record, \<open>ks\<close> the kernel stack, \<open>page\<close> the user table.\<close>

definition new_proc :: "klayout \<Rightarrow> uint64 \<Rightarrow> uint64 \<Rightarrow> uint64 \<Rightarrow> uint64 \<Rightarrow> mem_t \<Rightarrow> bool" where
  "new_proc K pid p ks page m \<longleftrightarrow> proc_pid m p = pid \<and> proc_kstack m p = ks \<and> proc_context m p = ks + 968 \<and>
     proc_upml4 m p = page OR (PG_P OR PG_RW OR PG_US) \<and>
     load64 m (p + 48) = stdio_at K \<and> load64 m (p + 56) = stdio_at K \<and>
     load64 m (ks + 1016) = sysret_at K \<and> load64 m (ks + 984) = RFLAGS_IF"

lemma new_proc_kept:
  assumes n: "new_proc K pid p ks page (mem s)" and k: "keeps s s' p 512" "keeps s s' ks 1024"
    and w: "unat p + 512 < 18446744073709551616" "unat ks + 1024 < 18446744073709551616"
  shows "new_proc K pid p ks page (mem s')"
  using n proc_same [OF k(1) w(1)] keeps_load [OF k(2) _ w(2), of 1016] keeps_load [OF k(2) _ w(2), of 984]
  by (simp add: new_proc_def)

lemma new_proc_sizes: "slot_sz (class_of sizeof_proc_t) = 512" "slot_sz (class_of KSTACK_SIZE) = 1024"
  "sizeof_proc_t \<le> 4096" "KSTACK_SIZE \<le> 4096"
  by (simp_all add: sizeof_proc_t_def KSTACK_SIZE_def KiB_def class_of_def size_to_slab_idx_def slot_sz_def)

text \<open>The first half: the record with its number, and the stack.\<close>

lemma palloc_objects:
  assumes inv: "proc_inv K s A H cs" and left: "4 \<le> big_left A"
  obtains p ks s1 s2 s3 A' H' where "kmalloc K sizeof_proc_t s = Inr (p, s1)"
    and "s2 = (set_proc_pid p (nextpid s1) (set_proc_stat p SET s1))\<lparr>nextpid := nextpid s1 + 1\<rparr>"
    and "kmalloc K KSTACK_SIZE s2 = Inr (ks, s3)" and "proc_run K cs 4 s A H s3 A' H'"
    and "live H' = insert (ks, 1024) (insert (p, 512) (live H))" and "\<forall>m. (p, m) \<notin> live H" and "\<forall>m. (ks, m) \<notin> live H"
    and "p \<noteq> ks" and "\<forall>b m. (b, m) \<in> live H \<longrightarrow> keeps s s3 b m" and "nextpid s3 = nextpid s + 1"
    and "proc_stat (mem s3) p = procstat_code SET" and "proc_pid (mem s3) p = nextpid s"
proof -
  note sz = new_proc_sizes
  have "2 \<le> big_left A" using left by simp
  then obtain p s1 A1 H1 where 1: "kmalloc K sizeof_proc_t s = Inr (p, s1)" "proc_run K cs 2 s A H s1 A1 H1"
    "live H1 = insert (p, 512) (live H)" "\<forall>m. (p, m) \<notin> live H" "\<forall>b m. (b, m) \<in> live H \<longrightarrow> keeps s s1 b m"
    "nextpid s1 = nextpid s" by (rule proc_run_alloc [OF inv sz(3,1)])
  define s2 where "s2 = (set_proc_pid p (nextpid s1) (set_proc_stat p SET s1))\<lparr>nextpid := nextpid s1 + 1\<rparr>"
  note i1 = proc_runD(1) [OF 1(2)]
  have pl: "(p, 512) \<in> live H1" "p \<notin> set cs" using 1(3,4) proc_invD(4) [OF inv] by auto
  note wr = live_no_wrap(4) [OF proc_invD(3) [OF i1] pl(1)]
  have o2: "\<forall>x. \<not> in_block 512 p (unat x) \<longrightarrow> mem s2 x = mem s1 x"
    using store_in_object [OF wr, of 8] stat_in_object(1) [OF wr] by (simp add: s2_def proc_setters)
  have e2: "s2 = s1\<lparr>mem := mem s2, nextpid := nextpid s2\<rparr>" by (simp add: s2_def proc_setters)
  note 2 = proc_write [OF i1 pl e2 o2]
  have f2: "proc_stat (mem s2) p = procstat_code SET" "proc_pid (mem s2) p = nextpid s" "nextpid s2 = nextpid s + 1"
    by (simp_all add: s2_def proc_setters proc_fields cell_loads 1(6))
  have "2 \<le> big_left A1" using proc_runD(4) [OF 1(2)] left by simp
  then obtain ks s3 A3 H3 where 3: "kmalloc K KSTACK_SIZE s2 = Inr (ks, s3)" "proc_run K cs 2 s2 A1 H1 s3 A3 H3"
    "live H3 = insert (ks, 1024) (live H1)" "\<forall>m. (ks, m) \<notin> live H1" "\<forall>b m. (b, m) \<in> live H1 \<longrightarrow> keeps s2 s3 b m"
    "nextpid s3 = nextpid s2" by (rule proc_run_alloc [OF proc_runD(1) [OF 2(1)] sz(4,2)])
  have run: "proc_run K cs 4 s A H s3 A3 H3"
    using proc_run_trans [OF proc_run_trans [OF 1(2) 2(1)] 3(2)] by simp
  have keep: "keeps s s3 b m" if b: "(b, m) \<in> live H" for b m
  proof -
    have b1: "(b, m) \<in> live H1" "b \<noteq> p" using b 1(3,4) by auto
    show ?thesis using 1(5) 3(5) b b1 2(2) [OF b1] keeps_trans by blast
  qed
  have ps: "keeps s2 s3 p 512" using 3(5) pl(1) by blast
  show thesis
  proof (rule that [OF 1(1) s2_def 3(1) run _ 1(4)])
    show "proc_stat (mem s3) p = procstat_code SET" "proc_pid (mem s3) p = nextpid s"
      using proc_same(1,2) [OF ps wr] f2 by simp_all
  qed (use 1(3,4) 3(3,4,6) f2 keep in auto)
qed

text \<open>The second half: the fields of the record and the first context on the stack.\<close>

lemma palloc_context:
  assumes inv: "proc_inv K s A H cs" and o: "(p, 512) \<in> live H" "p \<notin> set cs" "(ks, 1024) \<in> live H" "ks \<notin> set cs" "p \<noteq> ks"
  defines "s1 \<equiv> set_proc_context p (ks + 968) (set_proc_kstack p ks s)"
  defines "s2 \<equiv> set_ctx 2 (ks + 968) RFLAGS_IF (set_ctx 6 (ks + 968) (sysret_at K) s1)"
  defines "s3 \<equiv> set_proc_wchan p NULL s2"
  shows "proc_run K cs 0 s A H s3 A H"
    and "(b, m) \<in> live H \<Longrightarrow> b \<noteq> p \<Longrightarrow> b \<noteq> ks \<Longrightarrow> keeps s s3 b m"
    and "proc_context (mem s1) p = ks + 968" "proc_context (mem (set_ctx 6 (ks + 968) (sysret_at K) s1)) p = ks + 968"
    and "proc_stat (mem s3) p = proc_stat (mem s) p" "proc_pid (mem s3) p = proc_pid (mem s) p"
    "proc_kstack (mem s3) p = ks" "proc_context (mem s3) p = ks + 968"
    "load64 (mem s3) (ks + 1016) = sysret_at K" "load64 (mem s3) (ks + 984) = RFLAGS_IF" and "nextpid s3 = nextpid s"
proof -
  note wr = live_no_wrap(4) [OF proc_invD(3) [OF inv]]
  note wp = wr [OF o(1)] and wk = wr [OF o(3)]
  have x1: "\<forall>x. \<not> in_block 512 p (unat x) \<longrightarrow> mem s1 x = mem s x"
    using store_in_object [OF wp, of 16] store_in_object [OF wp, of 24] by (simp add: s1_def proc_setters)
  note 1 = proc_write [OF inv o(1,2) _ x1]
  have e1: "s1 = s\<lparr>mem := mem s1, nextpid := nextpid s1\<rparr>" by (simp add: s1_def proc_setters)
  note i1 = proc_runD(1) [OF 1(1) [OF e1]]
  have x2: "\<forall>x. \<not> in_block 1024 ks (unat x) \<longrightarrow> mem s2 x = mem s1 x"
    and y2: "\<forall>x. \<not> in_block 1024 ks (unat x) \<longrightarrow> mem (set_ctx 6 (ks + 968) (sysret_at K) s1) x = mem s1 x"
    using store_in_object [OF wk, of 1016] store_in_object [OF wk, of 984] by (simp_all add: s2_def proc_setters add.commute)
  have e2: "s2 = s1\<lparr>mem := mem s2, nextpid := nextpid s2\<rparr>" by (simp add: s2_def proc_setters)
  note 2 = proc_write [OF i1 o(3,4) e2 x2]
  note i2 = proc_runD(1) [OF 2(1)]
  have x3: "\<forall>x. \<not> in_block 512 p (unat x) \<longrightarrow> mem s3 x = mem s2 x"
    using store_in_object [OF wp, of 32] by (simp add: s3_def proc_setters)
  have e3: "s3 = s2\<lparr>mem := mem s3, nextpid := nextpid s3\<rparr>" by (simp add: s3_def proc_setters)
  note 3 = proc_write [OF i2 o(1,2) e3 x3]
  show "proc_run K cs 0 s A H s3 A H" using proc_run_trans [OF proc_run_trans [OF 1(1) [OF e1] 2(1)] 3(1)] by simp
  show "keeps s s3 b m" if "(b, m) \<in> live H" "b \<noteq> p" "b \<noteq> ks"
    using 1(2) [OF e1 that(1,2)] 2(2) [OF that(1,3)] 3(2) [OF that(1,2)] keeps_trans by blast
  have f1: "proc_stat (mem s1) p = proc_stat (mem s) p" "proc_pid (mem s1) p = proc_pid (mem s) p"
    "proc_kstack (mem s1) p = ks" "proc_context (mem s1) p = ks + 968"
    by (simp_all add: s1_def proc_setters proc_fields cell_loads)
  then show "proc_context (mem s1) p = ks + 968" by simp
  have k2: "keeps s1 s2 p 512" "keeps s1 (set_ctx 6 (ks + 968) (sysret_at K) s1) p 512"
    using x2 y2 live_apart [OF proc_invD(3) [OF i1] o(1,3,5)] unfolding keeps_def by blast+
  show "proc_context (mem (set_ctx 6 (ks + 968) (sysret_at K) s1)) p = ks + 968"
    using proc_same(4) [OF k2(2) wp] f1 by simp
  have f3: "proc_stat (mem s3) p = proc_stat (mem s2) p" "proc_pid (mem s3) p = proc_pid (mem s2) p"
    "proc_kstack (mem s3) p = proc_kstack (mem s2) p" "proc_context (mem s3) p = proc_context (mem s2) p"
    by (simp_all add: s3_def proc_setters proc_fields cell_loads)
  show "proc_stat (mem s3) p = proc_stat (mem s) p" "proc_pid (mem s3) p = proc_pid (mem s) p"
    "proc_kstack (mem s3) p = ks" "proc_context (mem s3) p = ks + 968"
    using f1 f3 proc_same [OF k2(1) wp] by simp_all
  have "mem s2 = store64 (store64 (mem s1) (ks + 1016) (sysret_at K)) (ks + 984) RFLAGS_IF"
    by (simp add: s2_def proc_setters add.commute)
  then have "load64 (mem s2) (ks + 1016) = sysret_at K" "load64 (mem s2) (ks + 984) = RFLAGS_IF"
    by (simp_all add: cell_loads)
  moreover have k3: "keeps s2 s3 ks 1024" by (rule 3(2) [OF o(3)]) (use o(5) in simp)
  ultimately show "load64 (mem s3) (ks + 1016) = sysret_at K" "load64 (mem s3) (ks + 984) = RFLAGS_IF"
    using keeps_load [OF k3 _ wk, of 1016] keeps_load [OF k3 _ wk, of 984] by simp_all
  show "nextpid s3 = nextpid s" by (simp add: s1_def s2_def s3_def proc_setters)
qed

text \<open>The page-table entry and the open files.\<close>

lemma palloc_fields:
  fixes e f :: uint64
  assumes inv: "proc_inv K s A H cs" and o: "(p, 512) \<in> live H" "p \<notin> set cs"
  defines "s' \<equiv> set_proc_ofile p FD_STDOUT f (set_proc_ofile p FD_STDIN f (set_proc_upml4 p e s))"
  shows "proc_run K cs 0 s A H s' A H" and "(b, m) \<in> live H \<Longrightarrow> b \<noteq> p \<Longrightarrow> keeps s s' b m"
    and "spare_page K s A H page \<Longrightarrow> spare_page K s' A H page"
    and "proc_stat (mem s') p = proc_stat (mem s) p" "proc_pid (mem s') p = proc_pid (mem s) p"
    "proc_kstack (mem s') p = proc_kstack (mem s) p" "proc_context (mem s') p = proc_context (mem s) p"
    "proc_upml4 (mem s') p = e" "load64 (mem s') (p + 48) = f" "load64 (mem s') (p + 56) = f" and "nextpid s' = nextpid s"
proof -
  note wp = live_no_wrap(4) [OF proc_invD(3) [OF inv] o(1)]
  have m: "mem s' = store64 (store64 (store64 (mem s) (p + 40) e) (p + 48) f) (p + 56) f"
    by (simp add: s'_def proc_setters FD_STDIN_def FD_STDOUT_def add.commute)
  have out: "\<forall>x. \<not> in_block 512 p (unat x) \<longrightarrow> mem s' x = mem s x"
    using store_in_object [OF wp, of 40] store_in_object [OF wp, of 48] store_in_object [OF wp, of 56] by (simp add: m)
  have eq: "s' = s\<lparr>mem := mem s', nextpid := nextpid s'\<rparr>" by (simp add: s'_def proc_setters)
  note w = proc_write [OF inv o eq out]
  show "proc_run K cs 0 s A H s' A H" by (rule w)
  show "(b, m) \<in> live H \<Longrightarrow> b \<noteq> p \<Longrightarrow> keeps s s' b m" by (rule w(2))
  show "spare_page K s A H page \<Longrightarrow> spare_page K s' A H page" by (rule w(3))
  show "nextpid s' = nextpid s" by (simp add: s'_def proc_setters)
  show "proc_stat (mem s') p = proc_stat (mem s) p" "proc_pid (mem s') p = proc_pid (mem s) p"
    "proc_kstack (mem s') p = proc_kstack (mem s) p" "proc_context (mem s') p = proc_context (mem s) p"
    "proc_upml4 (mem s') p = e" "load64 (mem s') (p + 48) = f" "load64 (mem s') (p + 56) = f"
    by (simp_all add: m proc_fields cell_loads)
qed

text \<open>Everything between the second allocation and the list.\<close>

lemma palloc_filled:
  assumes inv: "proc_inv K s A H cs" and o: "(p, 512) \<in> live H" "p \<notin> set cs" "(ks, 1024) \<in> live H" "ks \<notin> set cs" "p \<noteq> ks"
    and left: "1 \<le> big_left A"
  obtains page s1 s2 A' where "pmalloc K PM_4K (set_proc_wchan p NULL (set_ctx 2 (ks + 968) RFLAGS_IF
      (set_ctx 6 (ks + 968) (sysret_at K) (set_proc_context p (ks + 968) (set_proc_kstack p ks s))))) = Inr (page, s1)"
    and "s2 = set_proc_ofile p FD_STDOUT (devfs_stdio K) (set_proc_ofile p FD_STDIN (devfs_stdio K)
      (set_proc_upml4 p (page OR PG_P OR PG_RW OR PG_US) s1))"
    and "proc_run K cs 1 s A H s2 A' H" and "spare_page K s2 A' H page" and "new_proc K (proc_pid (mem s) p) p ks page (mem s2)"
    and "proc_stat (mem s2) p = proc_stat (mem s) p" and "nextpid s2 = nextpid s"
    and "\<forall>b m. (b, m) \<in> live H \<longrightarrow> b \<noteq> p \<longrightarrow> b \<noteq> ks \<longrightarrow> keeps s s2 b m"
proof -
  note wr = live_no_wrap(4) [OF proc_invD(3) [OF inv]]
  define s4 where "s4 = set_proc_wchan p NULL (set_ctx 2 (ks + 968) RFLAGS_IF
      (set_ctx 6 (ks + 968) (sysret_at K) (set_proc_context p (ks + 968) (set_proc_kstack p ks s))))"
  note 4 = palloc_context [OF inv o, folded s4_def]
  obtain page s5 A5 where 5: "pmalloc K PM_4K s4 = Inr (page, s5)" "proc_run K cs 1 s4 A H s5 A5 H"
    "spare_page K s5 A5 H page" "\<forall>b m. (b, m) \<in> live H \<longrightarrow> keeps s4 s5 b m" "nextpid s5 = nextpid s4"
    by (rule proc_run_page [OF proc_runD(1) [OF 4(1)] left])
  define s6 where "s6 = set_proc_ofile p FD_STDOUT (devfs_stdio K)
    (set_proc_ofile p FD_STDIN (devfs_stdio K) (set_proc_upml4 p (page OR PG_P OR PG_RW OR PG_US) s5))"
  note 6 = palloc_fields [OF proc_runD(1) [OF 5(2)] o(1,2), where e = "page OR PG_P OR PG_RW OR PG_US" and f = "devfs_stdio K",
      folded s6_def]
  have r6: "proc_run K cs 1 s A H s6 A5 H" using proc_run_trans [OF proc_run_trans [OF 4(1) 5(2)] 6(1)] by simp
  note k5 = 5(4) [rule_format]
  note p5 = proc_same [OF k5 [OF o(1)] wr [OF o(1)]]
  note c6 = keeps_trans [OF k5 [OF o(3)] 6(2) [OF o(3) o(5) [symmetric]]]
  have "load64 (mem s6) (ks + 1016) = sysret_at K" "load64 (mem s6) (ks + 984) = RFLAGS_IF"
    using keeps_load [OF c6 _ wr [OF o(3)], of 1016] keeps_load [OF c6 _ wr [OF o(3)], of 984] 4(9,10) by simp_all
  then have np: "new_proc K (proc_pid (mem s) p) p ks page (mem s6)"
    using 4(6-8) p5 6(5-10) by (simp add: new_proc_def devfs_stdio_def or.assoc)
  have "keeps s s6 b m" if b: "(b, m) \<in> live H" "b \<noteq> p" "b \<noteq> ks" for b m
    by (rule keeps_trans [OF keeps_trans [OF 4(2) [OF b] k5 [OF b(1)]] 6(2) [OF b(1,2)]])
  then show thesis
    using that [OF 5(1) [unfolded s4_def] s6_def r6 6(3) [OF 5(3)] np] 6(4) p5(1) 4(5) 6(11) 5(5) 4(11) by simp
qed

text \<open>\<^verbatim>\<open>palloc\<close> as a whole.\<close>

lemma palloc_spec:
  assumes inv: "proc_inv K s A H cs" and left: "7 \<le> big_left A"
  obtains p ks page c s' A' H' where "palloc K s = Inr (p, s')" and "proc_inv K s' A' H' (cs @ [c])"
    and "map (list_node (mem s')) (cs @ [c]) = map (list_node (mem s)) cs @ [p]"
    and "live H' = {(p, 512), (ks, 1024), (c, 64)} \<union> live H" and "\<forall>a m. (a, m) \<in> live H \<longrightarrow> a \<noteq> p \<and> a \<noteq> ks \<and> a \<noteq> c"
    and "distinct [p, ks, c]" and "proc_stat (mem s') p = procstat_code SET" and "new_proc K (nextpid s) p ks page (mem s')"
    and "spare_page K s' A' H' page" and "\<forall>b m. (b, m) \<in> live H \<longrightarrow> b \<notin> set cs \<longrightarrow> keeps s s' b m"
    and "\<forall>v. user_va v \<longrightarrow> uview s' v = uview s v" and "big_left A \<le> big_left A' + 7"
    and "s' = s\<lparr>mem := mem s', pmmap := pmmap s', nextpid := nextpid s + 1\<rparr>"
proof -
  have "4 \<le> big_left A" using left by simp
  then obtain p ks s1 s2 s3 A3 H3 where 3: "kmalloc K sizeof_proc_t s = Inr (p, s1)"
    "s2 = (set_proc_pid p (nextpid s1) (set_proc_stat p SET s1))\<lparr>nextpid := nextpid s1 + 1\<rparr>"
    "kmalloc K KSTACK_SIZE s2 = Inr (ks, s3)" "proc_run K cs 4 s A H s3 A3 H3"
    "live H3 = insert (ks, 1024) (insert (p, 512) (live H))" "\<forall>m. (p, m) \<notin> live H" "\<forall>m. (ks, m) \<notin> live H"
    "p \<noteq> ks" "\<forall>b m. (b, m) \<in> live H \<longrightarrow> keeps s s3 b m" "nextpid s3 = nextpid s + 1"
    "proc_stat (mem s3) p = procstat_code SET" "proc_pid (mem s3) p = nextpid s"
    by (rule palloc_objects [OF inv])
  have o: "(p, 512) \<in> live H3" "p \<notin> set cs" "(ks, 1024) \<in> live H3" "ks \<notin> set cs" "p \<noteq> ks"
    using 3(5-8) proc_invD(4) [OF inv] by auto
  have "1 \<le> big_left A3" using proc_runD(4) [OF 3(4)] left by simp
  then obtain page s5 s6 A5 where 6: "pmalloc K PM_4K (set_proc_wchan p NULL (set_ctx 2 (ks + 968) RFLAGS_IF
      (set_ctx 6 (ks + 968) (sysret_at K) (set_proc_context p (ks + 968) (set_proc_kstack p ks s3))))) = Inr (page, s5)"
    "s6 = set_proc_ofile p FD_STDOUT (devfs_stdio K) (set_proc_ofile p FD_STDIN (devfs_stdio K)
      (set_proc_upml4 p (page OR PG_P OR PG_RW OR PG_US) s5))"
    "proc_run K cs 1 s3 A3 H3 s6 A5 H3" "spare_page K s6 A5 H3 page" "new_proc K (proc_pid (mem s3) p) p ks page (mem s6)"
    "proc_stat (mem s6) p = proc_stat (mem s3) p" "nextpid s6 = nextpid s3"
    "\<forall>b m. (b, m) \<in> live H3 \<longrightarrow> b \<noteq> p \<longrightarrow> b \<noteq> ks \<longrightarrow> keeps s3 s6 b m"
    by (rule palloc_filled [OF proc_runD(1) [OF 3(4)] o])
  have r6: "proc_run K cs 5 s A H s6 A5 H3" using proc_run_trans [OF 3(4) 6(3)] by simp
  have "2 \<le> big_left A5" using proc_runD(4) [OF r6] left by simp
  then obtain c s7 A7 H7 where 7: "list_push K (proc_list_at K) p s6 = Inr s7" "proc_inv K s7 A7 H7 (cs @ [c])"
    "map (list_node (mem s7)) (cs @ [c]) = map (list_node (mem s6)) cs @ [p]" "live H7 = insert (c, 64) (live H3)"
    "\<forall>n. (c, n) \<notin> live H3" "\<forall>b m. (b, m) \<in> live H3 \<longrightarrow> b \<notin> set cs \<longrightarrow> keeps s6 s7 b m" "big_left A5 \<le> big_left A7 + 2"
    "\<forall>v. user_va v \<longrightarrow> uview s7 v = uview s6 v" "s7 = s6\<lparr>mem := mem s7, pmmap := pmmap s7\<rparr>"
    "\<forall>page. spare_page K s6 A5 H3 page \<longrightarrow> spare_page K s7 A7 H7 page"
    by (rule proc_push [OF proc_runD(1) [OF r6]])
  have 2: "set_proc_pid p (nextpid (set_proc_stat p SET s1)) (set_proc_stat p SET s1)
      \<lparr>nextpid := nextpid (set_proc_pid p (nextpid (set_proc_stat p SET s1)) (set_proc_stat p SET s1)) + 1\<rparr> = s2"
    by (simp add: 3(2) proc_setters)
  have sp: "proc_kstack (mem (set_proc_kstack p ks s3)) p + KSTACK_SIZE - sizeof_context_t = ks + 968"
    by (simp add: proc_kstack_def set_proc_kstack_def cell_loads KSTACK_SIZE_def KiB_def sizeof_context_t_def)
  have run: "palloc K s = Inr (p, s7)"
    by (simp add: palloc_def Let_def 3(1,3) 2 sp palloc_context(3,4) [OF proc_runD(1) [OF 3(4)] o] 6(1) 7(1) [unfolded 6(2)])
  note wr = live_no_wrap(4) [OF proc_invD(3) [OF proc_runD(1) [OF r6]]]
  have k6: "keeps s6 s7 p 512" "keeps s6 s7 ks 1024" using 7(6) o by blast+
  have np: "new_proc K (nextpid s) p ks page (mem s7)"
    using new_proc_kept [OF 6(5) k6 wr [OF o(1)] wr [OF o(3)]] 3(12) by simp
  have keep: "keeps s s7 b m" if b: "(b, m) \<in> live H" "b \<notin> set cs" for b m
  proof -
    have b3: "(b, m) \<in> live H3" "b \<noteq> p" "b \<noteq> ks" by (use b(1) 3(5) in simp, use b(1) 3(6) in blast, use b(1) 3(7) in blast)
    show ?thesis
      by (rule keeps_trans [OF keeps_trans [OF 3(9) [rule_format, OF b(1)] 6(8) [rule_format, OF b3]] 7(6) [rule_format, OF b3(1) b(2)]])
  qed
  have st: "s7 = s\<lparr>mem := mem s7, pmmap := pmmap s7, nextpid := nextpid s + 1\<rparr>"
    using 7(9) proc_runD(6) [OF r6] 3(10) 6(7) by (cases s; cases s6; cases s7) simp
  show thesis
  proof (rule that [OF run 7(2) _ _ _ _ _ np _ _ _ _ st])
    show "proc_stat (mem s7) p = procstat_code SET" using proc_same(1) [OF k6(1) wr [OF o(1)]] 6(6) 3(11) by simp
    show "map (list_node (mem s7)) (cs @ [c]) = map (list_node (mem s)) cs @ [p]" using 7(3) proc_runD(2) [OF r6] by simp
    show "spare_page K s7 A7 H7 page" using 7(10) 6(4) by blast
    show "big_left A \<le> big_left A7 + 7" using proc_runD(4) [OF r6] 7(7) by simp
    have "(c, n) \<notin> live H" for n using 7(5) 3(5) by simp
    with 3(6,7) show "\<forall>a m. (a, m) \<in> live H \<longrightarrow> a \<noteq> p \<and> a \<noteq> ks \<and> a \<noteq> c" by blast
    show "distinct [p, ks, c]" using o(5) 7(5) 3(5) by auto
    show "live H7 = {(p, 512), (ks, 1024), (c, 64)} \<union> live H" unfolding 7(4) 3(5) by auto
    show "\<forall>b m. (b, m) \<in> live H \<longrightarrow> b \<notin> set cs \<longrightarrow> keeps s s7 b m" using keep by blast
    show "\<forall>v. user_va v \<longrightarrow> uview s7 v = uview s v" using 7(8) proc_runD(5) [OF r6] by simp
  qed
qed

section \<open>The first process\<close>

text \<open>Changes outside memory management, and changes that leave the kernel's memory alone.\<close>

lemma proc_mm_change:
  assumes inv: "proc_inv K s A H cs" and mm: "mm_inv K s' A' H" and mt: "memtotal s' = memtotal s"
    and keep: "\<forall>x. unat x \<in> kernel_bytes K H \<longrightarrow> mem s' x = mem s x"
  shows "proc_inv K s' A' H cs" and "map (list_node (mem s')) cs = map (list_node (mem s)) cs"
    and "(b, m) \<in> live H \<Longrightarrow> keeps s s' b m"
  using list_kernel_kept [OF proc_invD(2) [OF inv] mm_invD(1) [OF mm] mt keep] mm
    live_kept [OF proc_invD(3) [OF inv] _ keep] by (simp_all add: proc_inv_def)

lemma proc_same_memory:
  assumes inv: "proc_inv K s A H cs" and m: "mem s' = mem s"
    and same: "pmmap s' = pmmap s" "memtotal s' = memtotal s" "pgdir s' = pgdir s" "cr3 s' = cr3 s"
  shows "proc_inv K s' A H cs" and "user_va v \<Longrightarrow> uview s' v = uview s v"
proof -
  note w = mm_kernel_write [OF proc_invD(1) [OF inv] same]
  show "proc_inv K s' A H cs" by (rule proc_mm_change(1) [OF inv w(1) same(2)]) (simp_all add: m)
  show "user_va v \<Longrightarrow> uview s' v = uview s v" by (rule w(2)) (simp_all add: m)
qed

text \<open>The address space of a new process: the user slot is empty, the rest is as before.\<close>

lemma proc_switch:
  assumes inv: "proc_inv K s A H cs" and sp: "spare_page K s A H page"
    and e: "proc_upml4 (mem s) p = page OR (PG_P OR PG_RW OR PG_US)"
  shows "proc_inv K (switch_uvm p s) A H cs"
    and "map (list_node (mem (switch_uvm p s))) cs = map (list_node (mem s)) cs"
    and "(b, m) \<in> live H \<Longrightarrow> keeps s (switch_uvm p s) b m"
    and "user_va v \<Longrightarrow> uview (switch_uvm p s) v = (if PML4_IDX v = PML4_IDX USER_ADDR_START then 0 else uview s v)"
    and "switch_uvm p s = s\<lparr>mem := mem (switch_uvm p s)\<rparr>"
proof -
  let ?f = "PG_P OR PG_RW OR PG_US"
  note mm = proc_invD(1) [OF inv] and D = spare_pageD [OF sp]
  have f: "pt_flag ?f" by (simp add: pt_flag_def PG_P_def PG_RW_def PG_US_def PG_PS_def)
  note fb = bit_pt_flag(3) [OF f]
  have pg: "4096 dvd unat page" "unat page < phys_limit" using D(1) by (simp_all add: table_ok_def)
  have root: "4096 dvd unat (pgdir s)" using vm_okD(1) [OF mm_invD(8) [OF mm], of 0 0] by (simp add: table_ok_def)
  have sw: "switch_uvm p s = s\<lparr>mem := store64 (mem s) (pt_entry (pgdir s) 0 USER_ADDR_START) (page OR ?f)\<rparr>"
    by (simp add: switch_uvm_def set_pte_def ROUNDDOWN_aligned [OF root] pt_entry_def pt_idx_macros e)
  note g = mm_graft [OF mm sp table_descends [OF f pg(1)] pte_frame_small [OF pg fb] or_flag_small [OF pg(2) fb],
      where va = USER_ADDR_START, folded sw]
  have "\<forall>x. unat x \<in> kernel_bytes K H \<longrightarrow> mem (switch_uvm p s) x = mem s x" using g(3) by simp
  note c = proc_mm_change [OF inv g(1) _ this]
  show "proc_inv K (switch_uvm p s) A H cs" "map (list_node (mem (switch_uvm p s))) cs = map (list_node (mem s)) cs"
    by (rule c; simp add: sw)+
  show "(b, m) \<in> live H \<Longrightarrow> keeps s (switch_uvm p s) b m" by (rule c(3)) (simp_all add: sw)
  show "user_va v \<Longrightarrow> uview (switch_uvm p s) v = (if PML4_IDX v = PML4_IDX USER_ADDR_START then 0 else uview s v)"
    using g(2) by (simp add: pt_idx_macros)
  show "switch_uvm p s = s\<lparr>mem := mem (switch_uvm p s)\<rparr>" by (simp add: sw)
qed

text \<open>A constant array copied to user memory.\<close>

lemma mm_vstore_bytes:
  assumes "mm_inv K s A H" and "user_room s A S" and "urange dst (length bs) \<subseteq> S" and "\<forall>v \<in> urange dst (length bs). user_va v"
    and "length bs \<le> 2 ^ 64"
  shows "\<exists>s' A'. vstore_bytes K dst bs s = Inr s' \<and> user_run K H S s A s' A' \<and>
    (\<forall>v. user_va v \<longrightarrow> uview s' v = (if v \<in> urange dst (length bs) then bs ! unat (v - dst) else uview s v))"
  using assms
proof (induction bs arbitrary: dst s A)
  case Nil
  then have "user_run K H S s A s A" by (intro user_run_refl)
  then show ?case by auto
next
  case (Cons b bs)
  let ?n = "length bs"
  have n: "?n < 2 ^ 64" using Cons.prems(5) by simp
  note rng = urange_Suc [OF n]
  have va: "user_va dst" and S: "dst \<in> S" using Cons.prems(3,4) rng by auto
  obtain s1 A1 where 1: "vstore8 K dst b s = Inr s1" "user_run K H S s A s1 A1"
    "\<forall>v. user_va v \<longrightarrow> uview s1 v = (if v = dst then b else uview s v)"
    by (rule mm_vstore [OF Cons.prems(1) va Cons.prems(2) S])
  have "\<exists>s' A'. vstore_bytes K (dst + 1) bs s1 = Inr s' \<and> user_run K H S s1 A1 s' A' \<and>
    (\<forall>v. user_va v \<longrightarrow> uview s' v = (if v \<in> urange (dst + 1) ?n then bs ! unat (v - (dst + 1)) else uview s1 v))"
    by (rule Cons.IH) (use Cons.prems rng user_runD(1,3) [OF 1(2)] n in auto)
  then obtain s' A' where 2: "vstore_bytes K (dst + 1) bs s1 = Inr s'" "user_run K H S s1 A1 s' A'"
    "\<forall>v. user_va v \<longrightarrow> uview s' v = (if v \<in> urange (dst + 1) ?n then bs ! unat (v - (dst + 1)) else uview s1 v)"
    by blast
  have "uview s' v = (if v \<in> urange dst (Suc ?n) then (b # bs) ! unat (v - dst) else uview s v)" if v: "user_va v" for v
  proof (cases "v = dst")
    case True
    have "dst - (dst + 1) = 18446744073709551615" by simp
    then have "unat (dst - (dst + 1)) = unat (18446744073709551615 :: uint64)" by (rule arg_cong)
    then have "v \<notin> urange (dst + 1) ?n" using n True by (simp add: urange_def)
    with True 1(3) 2(3) v rng show ?thesis by auto
  next
    case False
    then have "v - dst \<noteq> 0" by simp
    then have "unat (v - dst - 1) = unat (v - dst) - 1" "0 < unat (v - dst)"
      by (rule unat_minus_one) (use \<open>v - dst \<noteq> 0\<close> in \<open>simp add: unat_gt_0\<close>)
    then have "unat (v - dst) = Suc (unat (v - (dst + 1)))" by (simp add: diff_diff_eq)
    with False 1(3) 2(3) v rng show ?thesis by auto
  qed
  moreover have "vstore_bytes K dst (b # bs) s = Inr s'" using 1(1) 2(1) by simp
  ultimately show ?case using user_run_trans [OF 1(2) 2(2)] by auto
qed

lemma init_range:
  assumes "v \<in> urange USER_ADDR_START (length initcode)"
  shows "user_va v"
proof -
  have "unat (v - USER_ADDR_START) < 49" using assms by (simp add: urange_def initcode_def)
  moreover from this have "unat (USER_ADDR_START + of_nat (unat (v - USER_ADDR_START))) = unat USER_ADDR_START + unat (v - USER_ADDR_START)"
    by (intro unat_add_no_wrap) (simp add: USER_ADDR_START_def)
  ultimately show ?thesis by (simp add: user_va_def USER_ADDR_START_def word_le_nat_alt word_less_nat_alt)
qed

text \<open>The registers that the first switch to a process loads, at the top of its kernel stack.\<close>

definition start_frame :: "klayout \<Rightarrow> uint64 \<Rightarrow> mem_t \<Rightarrow> bool" where
  "start_frame K ks m \<longleftrightarrow> load64 m (ks + 968) = USER_ADDR_START \<and> load64 m (ks + 976) = USER_ADDR_START + KiB 4 \<and>
     load64 m (ks + 984) = RFLAGS_IF \<and> load64 m (ks + 1016) = sysret_at K"

text \<open>The part of \<^verbatim>\<open>uinit\<close> that follows \<^verbatim>\<open>palloc\<close>: the address space, the system-call stack and the program.\<close>

lemma uinit_program:
  assumes inv: "proc_inv K s A H cs" and p: "(p, 512) \<in> live H" "p \<notin> set cs"
    and sp: "spare_page K s A H page" and np: "new_proc K pid p ks page (mem s)" and ks: "(ks, 1024) \<in> live H" "p \<noteq> ks"
    and left: "2 \<le> big_left A"
  obtains s1 s2 A2 where "set_sysenter_stack K (proc_kstack (mem (switch_uvm p (set_proc_stat p RUN s))) p + KSTACK_SIZE)
      (switch_uvm p (set_proc_stat p RUN s)) = Inr s1"
    and "vstore_bytes K USER_ADDR_START initcode s1 = Inr s2" and "proc_inv K s2 A2 H cs"
    and "map (list_node (mem s2)) cs = map (list_node (mem s)) cs" and "proc_stat (mem s2) p = procstat_code RUN"
    and "new_proc K pid p ks page (mem s2)" and "\<forall>b m. (b, m) \<in> live H \<longrightarrow> b \<noteq> p \<longrightarrow> keeps s s2 b m"
    and "\<forall>v. user_va v \<longrightarrow> uview s2 v = (if v \<in> urange USER_ADDR_START (length initcode)
      then initcode ! unat (v - USER_ADDR_START) else if PML4_IDX v = PML4_IDX USER_ADDR_START then 0 else uview s v)"
    and "msrs s2 = (msrs s)(IA32_SYSENTER_ESP := ks + 1024)" and "nextpid s2 = nextpid s"
    and "big_left A \<le> big_left A2 + 8"
proof -
  note rel = proc_invD(3) [OF inv]
  note wr = live_no_wrap(4) [OF rel]
  define sa where "sa = set_proc_stat p RUN s"
  have xa: "\<forall>x. \<not> in_block 512 p (unat x) \<longrightarrow> mem sa x = mem s x"
    using stat_in_object(1) [OF wr [OF p(1)]] by (simp add: sa_def proc_setters)
  have ea: "sa = s\<lparr>mem := mem sa, nextpid := nextpid sa\<rparr>" by (simp add: sa_def proc_setters)
  note a = proc_write [OF inv p ea xa] and ia = proc_runD(1) [OF proc_write(1) [OF inv p ea xa]]
  have fa: "proc_stat (mem sa) p = procstat_code RUN" by (simp add: sa_def proc_setters proc_fields cell_loads)
  have ka: "keeps s sa ks 1024" by (rule a(2) [OF ks(1)]) (use ks(2) in simp)
  have na: "new_proc K pid p ks page (mem sa)"
    using np keeps_load [OF ka _ wr [OF ks(1)], of 1016] keeps_load [OF ka _ wr [OF ks(1)], of 984]
    by (simp add: new_proc_def sa_def proc_setters proc_fields cell_loads)
  define sb where "sb = switch_uvm p sa"
  have "proc_upml4 (mem sa) p = page OR (PG_P OR PG_RW OR PG_US)" using na by (simp add: new_proc_def)
  note b = proc_switch [OF ia a(3) [OF sp] this, folded sb_def]
  have pb: "proc_kstack (mem sb) p + KSTACK_SIZE = ks + 1024"
    using proc_same(3) [OF b(3) [OF p(1)] wr [OF p(1)]] na by (simp add: new_proc_def KSTACK_SIZE_def KiB_def)
  obtain out where c: "set_sysenter_stack K (ks + 1024) sb =
      Inr (sb\<lparr>msrs := (msrs sb)(IA32_SYSENTER_ESP := ks + 1024), console := console sb @ out\<rparr>)" (is "_ = Inr ?sc")
    using set_sysenter_stack_effect by blast
  note ic = proc_same_memory [OF b(1), of ?sc, simplified]
  have "8 \<le> pm_pages A" using left by (simp add: pm_pages_def big_left_def)
  then have room: "user_room ?sc A (urange USER_ADDR_START (length initcode))"
    by (intro range_room) (simp_all add: initcode_def USER_ADDR_START_def)
  obtain sd A2 where d: "vstore_bytes K USER_ADDR_START initcode ?sc = Inr sd"
    "user_run K H (urange USER_ADDR_START (length initcode)) ?sc A sd A2"
    "\<forall>v. user_va v \<longrightarrow> uview sd v = (if v \<in> urange USER_ADDR_START (length initcode)
      then initcode ! unat (v - USER_ADDR_START) else uview ?sc v)"
    using mm_vstore_bytes [OF proc_invD(1) [OF ic(1)] room subset_refl] init_range by (auto simp: initcode_def)
  obtain c2 o2 where sd: "sd = ?sc\<lparr>mem := mem sd, pmmap := pmmap sd, cr2 := c2, console := o2\<rparr>"
    using user_runD(5) [OF d(2)] by blast
  have keep: "\<forall>x. unat x \<in> kernel_bytes K H \<longrightarrow> mem sd x = mem ?sc x" using user_runD(2) [OF d(2)] by blast
  have mt: "memtotal sd = memtotal ?sc" by (subst sd) simp
  note e = proc_mm_change [OF ic(1) user_runD(1) [OF d(2)] mt keep]
  have kd: "keeps sb sd q m" if "(q, m) \<in> live H" for q m using e(3) [OF that] by (simp add: keeps_def)
  note kb = keeps_trans [OF b(3) kd]
  show thesis
  proof (rule that [of ?sc sd A2])
    show "set_sysenter_stack K (proc_kstack (mem (switch_uvm p (set_proc_stat p RUN s))) p + KSTACK_SIZE)
      (switch_uvm p (set_proc_stat p RUN s)) = Inr ?sc" using c pb by (simp add: sa_def [symmetric] sb_def [symmetric])
    have "card (unmapped ?sc (urange USER_ADDR_START (length initcode))) \<le> 2"
      by (rule order_trans [OF range_pages]) (simp_all add: initcode_def USER_ADDR_START_def)
    then show "big_left A \<le> big_left A2 + 8" using user_runD(4) [OF d(2)] by linarith
    show "new_proc K pid p ks page (mem sd)" by (rule new_proc_kept [OF na kb [OF p(1) p(1)] kb [OF ks(1) ks(1)] wr [OF p(1)] wr [OF ks(1)]])
    show "proc_stat (mem sd) p = procstat_code RUN" using proc_same(1) [OF kb [OF p(1) p(1)] wr [OF p(1)]] fa by simp
    show "map (list_node (mem sd)) cs = map (list_node (mem s)) cs" using e(2) b(2) proc_runD(2) [OF a(1)] by simp
    show "\<forall>b m. (b, m) \<in> live H \<longrightarrow> b \<noteq> p \<longrightarrow> keeps s sd b m" using a(2) kb keeps_trans [of s sa _ _ sd] by blast
    show "\<forall>v. user_va v \<longrightarrow> uview sd v = (if v \<in> urange USER_ADDR_START (length initcode)
      then initcode ! unat (v - USER_ADDR_START) else if PML4_IDX v = PML4_IDX USER_ADDR_START then 0 else uview s v)"
      using d(3) ic(2) b(4) proc_runD(5) [OF a(1)] by simp
    have "msrs sb = msrs s" "nextpid sb = nextpid s" by (subst b(5), simp add: sa_def proc_setters)+
    then show "msrs sd = (msrs s)(IA32_SYSENTER_ESP := ks + 1024)" "nextpid sd = nextpid s" by (subst sd, simp)+
  qed (use d(1) e(1) in simp_all)
qed

text \<open>The entry point and the stack of the program go into the frame.\<close>

lemma uinit_frame:
  assumes inv: "proc_inv K s A H cs" and ks: "(ks, 1024) \<in> live H" "ks \<notin> set cs" and p: "(p, 512) \<in> live H" "p \<noteq> ks"
    and np: "new_proc K pid p ks page (mem s)"
  defines "s1 \<equiv> set_ctx 0 (ks + 968) USER_ADDR_START s"
  defines "s2 \<equiv> set_ctx 1 (ks + 968) (USER_ADDR_START + KiB 4) s1"
  shows "proc_run K cs 0 s A H s2 A H" and "keeps s s1 p 512" and "(b, m) \<in> live H \<Longrightarrow> b \<noteq> ks \<Longrightarrow> keeps s s2 b m"
    and "start_frame K ks (mem s2)"
proof -
  note wk = live_no_wrap(4) [OF proc_invD(3) [OF inv] ks(1)]
  have m: "mem s1 = store64 (mem s) (ks + 968) USER_ADDR_START"
    "mem s2 = store64 (store64 (mem s) (ks + 968) USER_ADDR_START) (ks + 976) (USER_ADDR_START + KiB 4)"
    by (simp_all add: s1_def s2_def set_ctx_def add.commute)
  have o: "\<forall>x. \<not> in_block 1024 ks (unat x) \<longrightarrow> mem s1 x = mem s x" "\<forall>x. \<not> in_block 1024 ks (unat x) \<longrightarrow> mem s2 x = mem s x"
    using store_in_object [OF wk, of 968] store_in_object [OF wk, of 976] by (simp_all add: m)
  have e: "s1 = s\<lparr>mem := mem s1, nextpid := nextpid s1\<rparr>" "s2 = s\<lparr>mem := mem s2, nextpid := nextpid s2\<rparr>"
    by (simp_all add: s1_def s2_def set_ctx_def)
  show "keeps s s1 p 512" by (rule proc_write(2) [OF inv ks e(1) o(1) p])
  note w = proc_write [OF inv ks e(2) o(2)]
  show "proc_run K cs 0 s A H s2 A H" by (rule w(1))
  show "(b, m) \<in> live H \<Longrightarrow> b \<noteq> ks \<Longrightarrow> keeps s s2 b m" by (rule w(2))
  show "start_frame K ks (mem s2)" using np by (simp add: start_frame_def new_proc_def m cell_loads)
qed

lemma uinit_spec:
  assumes inv: "proc_inv K s A H cs" and left: "9 \<le> big_left A"
  shows "\<exists>p ks c s' A' H'. uinit K context_switch s = context_switch (local_at K ''dummy.context'') (ks + 968) s' \<and>
    proc_inv K s' A' H' (cs @ [c]) \<and> map (list_node (mem s')) (cs @ [c]) = map (list_node (mem s)) cs @ [p] \<and>
    {(p, 512), (ks, 1024)} \<subseteq> live H' \<and> (\<forall>m. (p, m) \<notin> live H \<and> (ks, m) \<notin> live H) \<and>
    proc_stat (mem s') p = procstat_code RUN \<and> proc_pid (mem s') p = nextpid s \<and> proc_kstack (mem s') p = ks \<and>
    proc_context (mem s') p = ks + 968 \<and> start_frame K ks (mem s') \<and>
    curproc s' = p \<and> nextpid s' = nextpid s + 1 \<and> msrs s' = (msrs s)(IA32_SYSENTER_ESP := ks + 1024) \<and>
    (\<forall>v. user_va v \<longrightarrow> PML4_IDX v = PML4_IDX USER_ADDR_START \<longrightarrow> uview s' v =
      (if unat (v - USER_ADDR_START) < length initcode then initcode ! unat (v - USER_ADDR_START) else 0)) \<and>
    (\<forall>b m. (b, m) \<in> live H \<longrightarrow> b \<notin> set cs \<longrightarrow> keeps s s' b m) \<and> big_left A \<le> big_left A' + 15"
proof -
  have "7 \<le> big_left A" using left by simp
  then obtain p ks page c s1 A1 H1 where 1: "palloc K s = Inr (p, s1)" "proc_inv K s1 A1 H1 (cs @ [c])"
    "map (list_node (mem s1)) (cs @ [c]) = map (list_node (mem s)) cs @ [p]"
    "live H1 = {(p, 512), (ks, 1024), (c, 64)} \<union> live H" "\<forall>a m. (a, m) \<in> live H \<longrightarrow> a \<noteq> p \<and> a \<noteq> ks \<and> a \<noteq> c"
    "distinct [p, ks, c]" "proc_stat (mem s1) p = procstat_code SET" "new_proc K (nextpid s) p ks page (mem s1)"
    "spare_page K s1 A1 H1 page" "\<forall>b m. (b, m) \<in> live H \<longrightarrow> b \<notin> set cs \<longrightarrow> keeps s s1 b m"
    "\<forall>v. user_va v \<longrightarrow> uview s1 v = uview s v" "big_left A \<le> big_left A1 + 7"
    "s1 = s\<lparr>mem := mem s1, pmmap := pmmap s1, nextpid := nextpid s + 1\<rparr>"
    by (rule palloc_spec [OF inv])
  have new: "p \<notin> set (cs @ [c])" "ks \<notin> set (cs @ [c])" using 1(5,6) proc_invD(4) [OF inv] by auto
  have lv: "(p, 512) \<in> live H1" "(ks, 1024) \<in> live H1" "p \<noteq> ks" using 1(4,6) by auto
  have "2 \<le> big_left A1" using left 1(12) by simp
  then obtain s2 s3 A3 where 3: "set_sysenter_stack K (proc_kstack (mem (switch_uvm p (set_proc_stat p RUN s1))) p + KSTACK_SIZE)
      (switch_uvm p (set_proc_stat p RUN s1)) = Inr s2" "vstore_bytes K USER_ADDR_START initcode s2 = Inr s3"
    "proc_inv K s3 A3 H1 (cs @ [c])" "map (list_node (mem s3)) (cs @ [c]) = map (list_node (mem s1)) (cs @ [c])"
    "proc_stat (mem s3) p = procstat_code RUN" "new_proc K (nextpid s) p ks page (mem s3)"
    "\<forall>b m. (b, m) \<in> live H1 \<longrightarrow> b \<noteq> p \<longrightarrow> keeps s1 s3 b m"
    "\<forall>v. user_va v \<longrightarrow> uview s3 v = (if v \<in> urange USER_ADDR_START (length initcode)
      then initcode ! unat (v - USER_ADDR_START) else if PML4_IDX v = PML4_IDX USER_ADDR_START then 0 else uview s1 v)"
    "msrs s3 = (msrs s1)(IA32_SYSENTER_ESP := ks + 1024)" "nextpid s3 = nextpid s1" "big_left A1 \<le> big_left A3 + 8"
    by (rule uinit_program [OF 1(2) lv(1) new(1) 1(9,8) lv(2,3)])
  define s4 where "s4 = set_ctx 0 (ks + 968) USER_ADDR_START s3"
  define s5 where "s5 = set_ctx 1 (ks + 968) (USER_ADDR_START + KiB 4) s4"
  note 5 = uinit_frame [OF 3(3) lv(2) new(2) lv(1,3) 3(6), folded s4_def, folded s5_def]
  note wp = live_no_wrap(4) [OF proc_invD(3) [OF 3(3)] lv(1)]
  note p4 = proc_same [OF 5(2) wp] and p5 = proc_same [OF 5(3) [OF lv(1,3)] wp]
  have np: "proc_context (mem s3) p = ks + 968" "proc_kstack (mem s3) p = ks" "proc_pid (mem s3) p = nextpid s"
    using 3(6) by (simp_all add: new_proc_def)
  define s' where "s' = s5\<lparr>curproc := p\<rparr>"
  have mem': "mem s' = mem s5" by (simp add: s'_def)
  note inv' = proc_same_memory [OF proc_runD(1) [OF 5(1)] mem', unfolded s'_def, simplified, folded s'_def]
  have run: "uinit K context_switch s = context_switch (local_at K ''dummy.context'') (ks + 968) s'"
    using 1(1) 3(1,2) p4(4) p5(4) np(1) by (simp add: uinit_def Let_def s4_def s5_def s'_def)
  have keep: "\<forall>b m. (b, m) \<in> live H \<longrightarrow> b \<notin> set cs \<longrightarrow> keeps s s' b m"
  proof (intro allI impI)
    fix b m assume b: "(b, m) \<in> live H" "b \<notin> set cs"
    have b1: "(b, m) \<in> live H1" "b \<noteq> p" "b \<noteq> ks" by (use b(1) 1(4) in simp, use b(1) 1(5) in blast, use b(1) 1(5) in blast)
    note k1 = 1(10) [rule_format, OF b] and k3 = 3(7) [rule_format, OF b1(1,2)]
    have "keeps s s5 b m" by (rule keeps_trans [OF keeps_trans [OF k1 k3] 5(3) [OF b1(1,3)]])
    then show "keeps s s' b m" by (simp add: keeps_def mem')
  qed
  have "uview s' v = (if unat (v - USER_ADDR_START) < length initcode then initcode ! unat (v - USER_ADDR_START) else 0)"
    if v: "user_va v" "PML4_IDX v = PML4_IDX USER_ADDR_START" for v
    using inv'(2) [OF v(1)] proc_runD(5) [OF 5(1) v(1)] 3(8) v by (simp add: urange_def)
  moreover have "msrs s' = (msrs s)(IA32_SYSENTER_ESP := ks + 1024)" "nextpid s' = nextpid s + 1"
  proof -
    have "msrs s1 = msrs s" "nextpid s1 = nextpid s + 1" by (subst 1(13), simp)+
    then show "msrs s' = (msrs s)(IA32_SYSENTER_ESP := ks + 1024)" "nextpid s' = nextpid s + 1"
      using 3(9,10) by (simp_all add: s'_def s5_def s4_def set_ctx_def)
  qed
  moreover have "map (list_node (mem s')) (cs @ [c]) = map (list_node (mem s)) cs @ [p]"
    unfolding mem' using proc_runD(2) [OF 5(1)] 3(4) 1(3) by simp
  moreover have "\<forall>m. (p, m) \<notin> live H \<and> (ks, m) \<notin> live H" using 1(5) by blast
  moreover have "curproc s' = p" by (simp add: s'_def)
  moreover have "big_left A \<le> big_left A3 + 15" using 1(12) 3(11) by simp
  ultimately show ?thesis using run inv'(1) lv(1,2) p5 np 3(5) 5(4) keep unfolding mem'
    by (intro exI [of _ p] exI [of _ ks] exI [of _ c] exI [of _ s'] exI [of _ A3] exI [of _ H1]) (simp add: mem')
qed

text \<open>
  C11.  The start of the first process.  From a state in which memory management and the list of processes are sound
  and nine blocks of 512 KiB are left (as \<^verbatim>\<open>mm_init\<close> leaves them), \<^verbatim>\<open>uinit\<close> runs without a panic up to
  its context switch, which it makes with the saved context of a new process: a running process with the next
  number, entered at the end of the list, whose record and kernel stack are new objects of the heap.  Its context returns
  through \<^verbatim>\<open>sysret\<close> to the start of user memory with interrupts enabled and a stack one page above; system
  calls will use its kernel stack.  In its address space the start-up program stands at the start of the
  user slot and every other byte of the slot is zero.  Memory management is sound and
  no object outside the list of processes has changed.
\<close>

theorem uinit_starts_init:
  assumes inv: "proc_inv K s A H cs" and left: "9 \<le> big_left A"
  shows "\<exists>p ks c s' A' H'. uinit K context_switch s = context_switch (local_at K ''dummy.context'') (ks + 968) s' \<and>
    proc_inv K s' A' H' (cs @ [c]) \<and> map (list_node (mem s')) (cs @ [c]) = map (list_node (mem s)) cs @ [p] \<and>
    {(p, 512), (ks, 1024)} \<subseteq> live H' \<and> (\<forall>m. (p, m) \<notin> live H \<and> (ks, m) \<notin> live H) \<and>
    proc_stat (mem s') p = procstat_code RUN \<and> proc_pid (mem s') p = nextpid s \<and> proc_kstack (mem s') p = ks \<and>
    proc_context (mem s') p = ks + 968 \<and> start_frame K ks (mem s') \<and>
    curproc s' = p \<and> nextpid s' = nextpid s + 1 \<and> msrs s' = (msrs s)(IA32_SYSENTER_ESP := ks + 1024) \<and>
    (\<forall>v. user_va v \<longrightarrow> PML4_IDX v = PML4_IDX USER_ADDR_START \<longrightarrow> uview s' v =
      (if unat (v - USER_ADDR_START) < length initcode then initcode ! unat (v - USER_ADDR_START) else 0)) \<and>
    (\<forall>b m. (b, m) \<in> live H \<longrightarrow> b \<notin> set cs \<longrightarrow> keeps s s' b m) \<and> big_left A \<le> big_left A' + 15"
  by (rule uinit_spec [OF assms])

lemma demo_procs:
  obtains s A H where "proc_inv demo_layout s A H []" and "105 \<le> big_left A"
proof -
  have K: "demo_layout\<lparr>port_dev := port_dev demo_layout, local_at := local_at demo_layout\<rparr> = demo_layout" by simp
  obtain s A H where s: "mm_inv demo_layout s A H" "105 \<le> big_left A" "memtotal s = 0x20000000"
    "\<forall>x. unat x < 0x200000 \<longrightarrow> \<not> in_block 336 0x1F0000 (unat x) \<longrightarrow> mem s x = 0"
    by (rule demo_mm_layout [where D = "port_dev demo_layout" and L = "local_at demo_layout", unfolded K])
  have "list_inv demo_layout s A H (proc_list_at demo_layout) []"
    by (rule demo_empty_list [OF mm_invD(1) [OF s(1)] s(3,4)])
  then show thesis using that s(1,2) by (simp add: proc_inv_def)
qed

theorem uinit_starts_init_witness:
  "\<exists>s s' p. uinit demo_layout (\<lambda>old new s. Inr s) s = Inr s' \<and> proc_pid (mem s') p = nextpid s \<and>
    proc_stat (mem s') p = procstat_code RUN \<and> uview s' (USER_ADDR_START + 38) = 0x2f \<and> uview s' (USER_ADDR_START + 49) = 0"
proof -
  obtain s A H where s: "proc_inv demo_layout s A H []" "105 \<le> big_left A" by (rule demo_procs)
  have "9 \<le> big_left A" using s(2) by simp
  from uinit_starts_init [OF s(1) this, of "\<lambda>old new s. Inr s"] obtain p s' where
    i: "uinit demo_layout (\<lambda>old new s. Inr s) s = Inr s'" "proc_pid (mem s') p = nextpid s"
    "proc_stat (mem s') p = procstat_code RUN"
    "\<forall>v. user_va v \<longrightarrow> PML4_IDX v = PML4_IDX USER_ADDR_START \<longrightarrow> uview s' v =
      (if unat (v - USER_ADDR_START) < length initcode then initcode ! unat (v - USER_ADDR_START) else 0)"
    by blast
  have va: "user_va (USER_ADDR_START + 38)" "user_va (USER_ADDR_START + 49)"
    "PML4_IDX (USER_ADDR_START + 38) = PML4_IDX USER_ADDR_START" "PML4_IDX (USER_ADDR_START + 49) = PML4_IDX USER_ADDR_START"
    by (simp_all add: user_va_def USER_ADDR_START_def PML4_IDX_def)
  have "uview s' (USER_ADDR_START + 38) = 0x2f" "uview s' (USER_ADDR_START + 49) = 0"
    using i(4) [rule_format, OF va(1,3)] i(4) [rule_format, OF va(2,4)] by (simp_all add: initcode_def)
  with i(1-3) show ?thesis by blast
qed

end
