(* ===== verification/Namei.thy ===== *)
theory Namei
  imports FatDir ProcOps
begin

text \<open>
  Path names, \<^verbatim>\<open>fs/fat16/name.c\<close>: \<^verbatim>\<open>fat16_namei\<close> takes a path in user memory apart, looks its components
  up one directory after the other, and returns an in-core inode for the file.
\<close>

section \<open>A string in user memory\<close>

definition user_string :: "kstate \<Rightarrow> uint64 \<Rightarrow> uint8 list \<Rightarrow> bool" where
  "user_string s path P \<longleftrightarrow> (\<forall>i < length P. user_va (path + of_nat i) \<and>
     translate (mem s) (cr3 s) (path + of_nat i) \<noteq> None \<and> uview s (path + of_nat i) = P ! i)"

lemma user_string_load:
  assumes "user_string s path P" and "i < length P"
  shows "vload8 K (path + of_nat i) s = Inr (P ! i, s)"
proof -
  have va: "user_va (path + of_nat i)" "uview s (path + of_nat i) = P ! i" and "translate (mem s) (cr3 s) (path + of_nat i) \<noteq> None"
    using assms by (auto simp: user_string_def)
  then obtain pa where pa: "translate (mem s) (cr3 s) (path + of_nat i) = Some pa" by blast
  have "\<not> path + of_nat i < USER_ADDR_START" using va(1) by (simp add: user_va_def not_less)
  then have "vload8 K (path + of_nat i) s = Inr (mem s pa, s)" using pa by (simp add: vload8_def user_addr_def load8_def)
  then show ?thesis using va(2) pa by (simp add: uview_def)
qed

lemma user_string_kept:
  assumes "user_string s path P"
    and "\<forall>va. user_va va \<longrightarrow> uview s' va = uview s va \<and> translate (mem s') (cr3 s') va = translate (mem s) (cr3 s) va"
  shows "user_string s' path P"
  using assms by (simp add: user_string_def)

lemma data_run_mm:
  assumes "data_run K s A H s' A' H'" and "mm_inv K s A H"
  shows "mm_inv K s' A' H' \<and> (\<forall>va. user_va va \<longrightarrow> uview s' va = uview s va \<and>
    translate (mem s') (cr3 s') va = translate (mem s) (cr3 s) va)"
  using assms
proof (induction rule: data_run.induct)
  case run_start
  then show ?case by simp
next
  case (run_grant s1 A1 H1 a n s2 A2 H2)
  then have inv: "mm_inv K s1 A1 H1" by simp
  from mm_grant(1,2,4) [OF inv run_grant.hyps(2)] run_grant.IH [OF run_grant.prems] show ?case by simp
next
  case (run_write s1 A1 H1 s2)
  then have inv: "mm_inv K s1 A1 H1" by simp
  have "pmmap s2 = pmmap s1" "memtotal s2 = memtotal s1" "pgdir s2 = pgdir s1" "cr3 s2 = cr3 s1"
    by (subst run_write.hyps(2), simp)+
  from kernel_data_write [OF inv this run_write.hyps(3)] run_write.IH [OF run_write.prems] show ?case by simp
qed

lemma data_run_same:
  assumes "data_run K s A H s' A' H'"
  shows "curproc s' = curproc s \<and> nextpid s' = nextpid s"
  using assms
proof (induction rule: data_run.induct)
  case (run_grant s1 A1 H1 a n s2 A2 H2)
  have e: "s2 = s1\<lparr>mem := mem s2, pmmap := pmmap s2\<rparr>" using run_grant.hyps(2) unfolding heap_grant_def heap_step_def by blast
  have "curproc s2 = curproc s1" "nextpid s2 = nextpid s1" by (subst e, simp)+
  with run_grant.IH show ?case by simp
next
  case (run_write s1 A1 H1 s2)
  have "curproc s2 = curproc s1" "nextpid s2 = nextpid s1" by (subst run_write.hyps(2), simp)+
  with run_write.IH show ?case by simp
qed simp

section \<open>One component\<close>

abbreviation name_at :: "klayout \<Rightarrow> uint64" where "name_at K \<equiv> local_at K ''filename''"

lemma extract_spec:
  assumes "mm_inv K s A H" and "user_string s path P" and F: "\<forall>x \<in> bytes_at (name_at K) 12. kernel_data K H (unat x)"
    and "drop i P = nm @ t # rest" and t: "t = 0 \<or> t = 0x2F" and "0 \<notin> set nm \<and> 0x2F \<notin> set nm" and "j \<le> 11" and "length nm < fuel"
  shows "extract_name fuel K path i j s = Inr (i + length nm, min 11 (j + length nm),
    s\<lparr>mem := store_bytes (mem s) (name_at K + of_nat j) (take (11 - j) nm)\<rparr>)"
  using assms(1,2,4,6-8)
proof (induction nm arbitrary: i j s fuel)
  case Nil
  then obtain n where n: "fuel = Suc n" by (cases fuel) auto
  have i: "i < length P" using Nil.prems(3) by (metis append_Nil drop_eq_Nil not_le list.distinct(1))
  have "P ! i = t" using Nil.prems(3) nth_via_drop by fastforce
  then show ?case using t user_string_load [OF Nil.prems(2) i] Nil.prems(5) by (auto simp: n)
next
  case (Cons c nm)
  then obtain n where n: "fuel = Suc n" "length nm < n" by (cases fuel) auto
  have i: "i < length P" using Cons.prems(3) by (metis append_Cons drop_eq_Nil not_le list.distinct(1))
  have c: "P ! i = c" "drop (Suc i) P = nm @ t # rest"
    using Cons.prems(3) by (metis append_Cons nth_via_drop, metis append_Cons drop_Suc list.sel(3) tl_drop)
  note ld = user_string_load [OF Cons.prems(2) i, of K]
  show ?case
  proof (cases "j < 11")
    case True
    let ?s = "s\<lparr>mem := store8 (mem s) (name_at K + of_nat j) c\<rparr>"
    have "name_at K + of_nat j \<in> bytes_at (name_at K) 12" using True by (auto simp: bytes_at_def)
    then have "\<forall>x. \<not> kernel_data K H (unat x) \<longrightarrow> mem ?s x = mem s x" using F by (auto simp: store8_def)
    note w = kernel_data_write [OF Cons.prems(1) _ _ _ _ this, simplified]
    have "extract_name n K path (Suc i) (Suc j) ?s = Inr (Suc i + length nm, min 11 (Suc j + length nm),
        ?s\<lparr>mem := store_bytes (mem ?s) (name_at K + of_nat (Suc j)) (take (11 - Suc j) nm)\<rparr>)"
      by (rule Cons.IH [OF w(1) user_string_kept [OF Cons.prems(2)] c(2)])
        (use w(2,3) Cons.prems(4) True n(2) in auto)
    moreover have "11 - j = Suc (11 - Suc j)" using True by simp
    then have "take (11 - j) (c # nm) = c # take (11 - Suc j) nm" by (simp only: take_Suc_Cons)
    ultimately show ?thesis using True n(1) ld c(1) Cons.prems(4) by (simp add: store8_def ac_simps)
  next
    case False
    then have j: "j = 11" using Cons.prems(5) by simp
    have "extract_name n K path (Suc i) 11 s = Inr (Suc i + length nm, min 11 (11 + length nm),
        s\<lparr>mem := store_bytes (mem s) (name_at K + of_nat 11) (take (11 - 11) nm)\<rparr>)"
      by (rule Cons.IH [OF Cons.prems(1,2) c(2)]) (use Cons.prems(4) n(2) in auto)
    then show ?thesis using j n(1) ld c(1) Cons.prems(4) by simp
  qed
qed

text \<open>The component ends up as a C string in the local buffer.\<close>

lemma extracted_name:
  fixes m :: mem_t and a :: uint64
  assumes "0 \<notin> set nm"
  defines "m' \<equiv> store8 (store_bytes m a (take 11 nm)) (a + of_nat (min 11 (length nm))) 0"
  shows "is_cstr m' a (take 11 nm)" and "x \<notin> bytes_at a 12 \<Longrightarrow> m' x = m x"
proof -
  have "min 11 (length nm) = length (take 11 nm)" by simp
  then have m: "m' = store_bytes m a (take 11 nm @ [0])"
    unfolding m'_def store_bytes_append store8_def by (simp only: store_bytes.simps)
  have "takeWhile (\<lambda>c. c \<noteq> 0) (take 11 nm) = take 11 nm"
    using assms(1) by (auto simp: takeWhile_eq_all_conv dest: in_set_takeD)
  with cstr_stored [of "take 11 nm" m a] show "is_cstr m' a (take 11 nm)" unfolding m by simp
  show "m' x = m x" if "x \<notin> bytes_at a 12" unfolding m
    by (rule store_bytes_outside) (use that bytes_at_mono [of "length (take 11 nm @ [0])" 12 a] in auto)
qed

section \<open>The resolution of a path\<close>

text \<open>
  The text of a path with the given components, and what it stands for in a tree of directories \<open>L\<close>: the cluster and the
  size of the last component, looked up in the directory that the components before lead to.  Eleven characters
  of a component count.  A path that ends with a slash stands for nothing.
\<close>

primrec path_text :: "uint8 list list \<Rightarrow> uint8 list" where
  "path_text [] = []"
| "path_text (n # ns) = 0x2F # n @ path_text ns"

primrec resolve :: "(uint16 \<Rightarrow> uint8 list \<Rightarrow> (uint16 \<times> uint32) option) \<Rightarrow> uint16 \<Rightarrow> uint8 list list \<Rightarrow> (uint16 \<times> uint32) option" where
  "resolve L d [] = None"
| "resolve L d (n # ns) =
     (if n = [] \<and> ns = [] then None
      else case L d (take 11 n) of
        None \<Rightarrow> None
      | Some (c, sz) \<Rightarrow> if c = 0 then None else if ns = [] then Some (c, sz) else resolve L c ns)"

text \<open>The clusters on the way are numbers that FAT16 gives to files, from 2 on.\<close>

primrec clusters_valid :: "(uint16 \<Rightarrow> uint8 list \<Rightarrow> (uint16 \<times> uint32) option) \<Rightarrow> uint16 \<Rightarrow> uint8 list list \<Rightarrow> bool" where
  "clusters_valid L d [] \<longleftrightarrow> True"
| "clusters_valid L d (n # ns) \<longleftrightarrow>
     (case L d (take 11 n) of None \<Rightarrow> True | Some (c, sz) \<Rightarrow> c \<noteq> 1 \<and> clusters_valid L c ns)"

definition disk_dirs :: "(nat \<Rightarrow> uint32) \<Rightarrow> FAT16 \<Rightarrow> uint16 \<Rightarrow> uint8 list \<Rightarrow> (uint16 \<times> uint32) option" where
  "disk_dirs disk f d name = dir_lookup (disk_byte disk) (dir_pos f d) (dir_entries f d) name"

lemma lookup_word_parts:
  "lookup_word None = 0" "ucast (lookup_word (Some (c, sz))) = c" "ucast (drop_bit 32 (lookup_word (Some (c, sz)))) = sz"
proof -
  show "ucast (lookup_word (Some (c, sz))) = c"
    by (rule bit_word_eqI) (auto simp: lookup_word_def bit_or_iff bit_push_bit_iff bit_ucast_iff)
  show "ucast (drop_bit 32 (lookup_word (Some (c, sz)))) = sz"
    by (rule bit_word_eqI) (auto simp: lookup_word_def bit_or_iff bit_push_bit_iff bit_ucast_iff bit_drop_bit_eq dest: bit_imp_le_length)
qed (simp add: lookup_word_def)

section \<open>What the search relies on\<close>

text \<open>
  The two local buffers lie in data of the kernel, apart from each other, from the inodes and their list and from the
  word at address 0, which belongs to the kernel's image.
\<close>

definition name_bytes :: "klayout \<Rightarrow> uint64 set" where
  "name_bytes K = bytes_at (name_at K) 12 \<union> bytes_at (local_at K ''entry_filename'') 12"

definition name_locals :: "klayout \<Rightarrow> heap_abs \<Rightarrow> uint64 list \<Rightarrow> uint64 list \<Rightarrow> bool" where
  "name_locals K H cs ips \<longleftrightarrow> 12 \<le> loop_fuel K \<and> bytes_at (name_at K) 12 \<inter> bytes_at (local_at K ''entry_filename'') 12 = {} \<and>
     (\<forall>x < 8. kernel_data K H x) \<and>
     (\<forall>x \<in> name_bytes K. kernel_data K H (unat x) \<and> 8 \<le> unat x \<and> \<not> in_block 24 (inode_list_at K) (unat x) \<and>
        (\<forall>q \<in> set cs \<union> set ips. \<not> in_block 64 q (unat x)))"

definition namei_inv ::
  "klayout \<Rightarrow> FAT16 \<Rightarrow> uint64 list \<Rightarrow> uint64 list \<Rightarrow> uint64 \<Rightarrow> uint8 list \<Rightarrow> kstate \<Rightarrow> pm_abs \<Rightarrow> heap_abs \<Rightarrow> bool" where
  "namei_inv K f cs ips path P s A H \<longleftrightarrow> mm_inv K s A H \<and> inode_inv K s A H cs ips \<and> fat16 s = f \<and>
     user_string s path P \<and> name_locals K H cs ips"

text \<open>What stays as it was: the given inodes, the word at address 0, user memory, the current process and the next number.\<close>

definition same_inode :: "kstate \<Rightarrow> kstate \<Rightarrow> uint64 \<Rightarrow> bool" where
  "same_inode s s' q \<longleftrightarrow> inode_id (mem s') q = inode_id (mem s) q \<and> inode_size (mem s') q = inode_size (mem s) q \<and>
     inode_refcnt (mem s') q = inode_refcnt (mem s) q"

definition namei_keep :: "uint64 set \<Rightarrow> kstate \<Rightarrow> kstate \<Rightarrow> bool" where
  "namei_keep Q s s' \<longleftrightarrow> (\<forall>q \<in> Q. same_inode s s' q) \<and> inode_id (mem s') NULL = inode_id (mem s) NULL \<and>
     (\<forall>va. user_va va \<longrightarrow> uview s' va = uview s va) \<and> curproc s' = curproc s \<and> nextpid s' = nextpid s"

lemma namei_keep_trans: "namei_keep Q s s1 \<Longrightarrow> namei_keep Q s1 s2 \<Longrightarrow> namei_keep Q s s2"
  by (simp add: namei_keep_def same_inode_def)

lemma namei_change:
  assumes inv: "namei_inv K f cs ips path P s A H" and mm: "mm_inv K s' A' H'" and lv: "live H' = live H"
    and same: "memtotal s' = memtotal s" "fat16 s' = fat16 s" "curproc s' = curproc s" "nextpid s' = nextpid s"
    and keep: "\<forall>x. kernel_data K H (unat x) \<longrightarrow> x \<notin> name_bytes K \<longrightarrow> mem s' x = mem s x"
    and user: "\<forall>va. user_va va \<longrightarrow> uview s' va = uview s va \<and> translate (mem s') (cr3 s') va = translate (mem s) (cr3 s) va"
  shows "namei_inv K f cs ips path P s' A' H'" and "namei_keep (set ips) s s'"
proof -
  have I: "inode_inv K s A H cs ips" "name_locals K H cs ips" "fat16 s = f" "user_string s path P"
    using inv by (auto simp: namei_inv_def)
  note D = inode_invD [OF I(1)]
  have cells: "\<forall>c \<in> set (inode_list_at K # cs). \<forall>x. in_block 24 c (unat x) \<longrightarrow> mem s' x = mem s x"
  proof (intro ballI allI impI)
    fix c and x :: uint64 assume c: "c \<in> set (inode_list_at K # cs)" and x: "in_block 24 c (unat x)"
    have "x \<notin> name_bytes K" using I(2) c x in_block_sub [OF x, of 64] unfolding name_locals_def by auto
    with keep cell_kernel_data [OF D(1) c x] show "mem s' x = mem s x" by blast
  qed
  have lvc: "\<forall>c \<in> set cs. (c, 64) \<in> live H'" using D(1) lv by (simp add: list_inv_def)
  note li = list_kept [OF D(1) mm_invD(1) [OF mm] lvc same(1) cells]
  have "inode_inv K s' A' H' cs ips" using I(1) li lv by (simp add: inode_inv_def)
  moreover have "name_locals K H' cs ips" using I(2) by (simp add: name_locals_def kernel_data_live [OF lv])
  ultimately show "namei_inv K f cs ips path P s' A' H'"
    using mm I same(2) user_string_kept [OF I(4) user] by (simp add: namei_inv_def)
  have "same_inode s s' q" if q: "q \<in> set ips" for q
  proof -
    have "\<forall>x. in_block 64 q (unat x) \<longrightarrow> mem s' x = mem s x"
    proof (intro allI impI)
      fix x :: uint64 assume x: "in_block 64 q (unat x)"
      have "x \<notin> name_bytes K" using I(2) q x unfolding name_locals_def by auto
      moreover have "kernel_data K H (unat x)" using D(4) [OF q] x unfolding kernel_data_def by blast
      ultimately show "mem s' x = mem s x" using keep by blast
    qed
    from inode_same [OF D(6) D(4) [OF q] this] show ?thesis by (simp add: same_inode_def)
  qed
  moreover have "inode_id (mem s') NULL = inode_id (mem s) NULL"
  proof -
    have "mem s' x = mem s x" if "x \<in> bytes_at NULL 8" for x
    proof -
      have x: "unat x < 8" using that bytes_at_in_block [of NULL 8 x] by (simp add: in_block_def)
      then have "x \<notin> name_bytes K" "kernel_data K H (unat x)" using I(2) unfolding name_locals_def by fastforce+
      with keep show ?thesis by blast
    qed
    then show ?thesis unfolding inode_id_def by (rule quad_cell.load_local)
  qed
  ultimately show "namei_keep (set ips) s s'" using user same(3,4) by (simp add: namei_keep_def)
qed

section \<open>The steps of the loop\<close>

lemma subdir_small:
  assumes "dir_geometry f" and "d \<noteq> 0"
  shows "slot_sz (class_of (dir_bytes f d)) \<le> 4096"
proof -
  have "unat (cluster_size f) \<le> 4096" using assms(1) by (simp add: dir_geometry_def fat_geometry_def word_le_nat_alt)
  then have "dir_bytes f d \<le> 4096" using assms(2) by (simp add: dir_bytes_def word_le_nat_alt half_arg)
  then show ?thesis by (rule class_small)
qed

lemma namei_lookup:
  assumes inv: "namei_inv K f cs ips path P s A H" and disk: "ata_disk (port_dev K) disk" and f: "dir_geometry f"
    and d: "d = 0 \<or> 2 \<le> unat d" and left: "2 \<le> big_left A" and P: "drop i P = nm @ t # rest" "length P \<le> loop_fuel K"
    and t: "t = 0 \<or> t = 0x2F" and nm: "0 \<notin> set nm \<and> 0x2F \<notin> set nm"
  obtains "\<forall>R. ebind (extract_name (loop_fuel K) K path i 0 s) (\<lambda>(i, j, s).
        let s = s\<lparr>mem := store8 (mem s) (name_at K + of_nat j) 0\<rparr> in ebind (fat16_find_cluster K (name_at K) d s) (R i)) =
        (Inl (Panic ''kmfree: invalid addr %x\<newline>'') :: (uint64 \<times> kstate) kres)" and "4096 < slot_sz (class_of (dir_bytes f 0))"
  | s' A' H' where "\<forall>R. ebind (extract_name (loop_fuel K) K path i 0 s) (\<lambda>(i, j, s).
        let s = s\<lparr>mem := store8 (mem s) (name_at K + of_nat j) 0\<rparr> in ebind (fat16_find_cluster K (name_at K) d s) (R i)) =
        (R (i + length nm) (lookup_word (disk_dirs disk f d (take 11 nm)), s') :: (uint64 \<times> kstate) kres)"
      and "namei_inv K f cs ips path P s' A' H'" and "namei_keep (set ips) s s'" and "big_left A \<le> big_left A' + 2"
proof -
  have I: "mm_inv K s A H" "user_string s path P" "name_locals K H cs ips" "fat16 s = f" using inv by (auto simp: namei_inv_def)
  have L: "12 \<le> loop_fuel K" "bytes_at (name_at K) 12 \<inter> bytes_at (local_at K ''entry_filename'') 12 = {}"
    "\<forall>x \<in> name_bytes K. kernel_data K H (unat x)"
    using I(3) unfolding name_locals_def by blast+
  have F: "\<forall>x \<in> bytes_at (name_at K) 12. kernel_data K H (unat x)" using L(3) by (simp add: name_bytes_def)
  have "length (drop i P) = length nm + Suc (length rest)" unfolding P(1) by simp
  then have len: "length nm < loop_fuel K" using P(2) by simp
  let ?m = "store8 (store_bytes (mem s) (name_at K) (take 11 nm)) (name_at K + of_nat (min 11 (length nm))) 0"
  let ?s = "s\<lparr>mem := ?m\<rparr>"
  have ex: "extract_name (loop_fuel K) K path i 0 s = Inr (i + length nm, min 11 (length nm),
      s\<lparr>mem := store_bytes (mem s) (name_at K) (take 11 nm)\<rparr>)"
    using extract_spec [OF I(1,2) F P(1) t nm, of 0] len by simp
  note nx = extracted_name [OF conjunct1 [OF nm], where m = "mem s" and a = "name_at K"]
  have out: "\<forall>x. \<not> kernel_data K H (unat x) \<longrightarrow> mem ?s x = mem s x" using nx(2) F by auto
  note w = kernel_data_write [OF I(1) _ _ _ _ out, simplified]
  have ch: "namei_inv K f cs ips path P ?s A H" "namei_keep (set ips) s ?s"
    by (rule namei_change [OF inv w(1) refl]; use nx(2) w(2,3) in \<open>simp add: name_bytes_def\<close>)+
  have f1: "dir_geometry (fat16 ?s)" "fat16 ?s = f" using f I(4) by simp_all
  have nl: "Suc (length (take 11 nm)) \<le> 12" by simp
  have sub: "bytes_at (name_at K) (Suc (length (take 11 nm))) \<subseteq> bytes_at (name_at K) 12" by (rule bytes_at_mono [OF nl])
  have nb: "name_buffers K H (name_at K) (take 11 nm)"
    unfolding name_buffers_def using sub L F nl by (auto simp: name_bytes_def)
  have cs: "is_cstr (mem ?s) (name_at K) (take 11 nm)" using nx(1) by simp
  show thesis
  proof (rule find_cluster_cases [OF w(1) disk f1(1) d left cs nb], unfold f1(2))
    assume a: "fat16_find_cluster K (name_at K) d ?s = Inl (Panic ''kmfree: invalid addr %x\<newline>'')"
      and b: "4096 < slot_sz (class_of (dir_bytes f d))"
    have "d = 0" using subdir_small [OF f, of d] b by fastforce
    with a b show thesis by (intro that(1)) (simp_all add: ex)
  next
    fix s' A' H'
    assume a: "fat16_find_cluster K (name_at K) d ?s =
        Inr (lookup_word (dir_lookup (disk_byte disk) (dir_pos f d) (dir_entries f d) (take 11 nm)), s')"
      and r: "dir_run K (bytes_at (local_at K ''entry_filename'') 12) ?s A H s' A' H'" and b: "big_left A \<le> big_left A' + 2"
    note R = dir_runD [OF r]
    have e: "memtotal s' = memtotal ?s" "fat16 s' = fat16 ?s" "curproc s' = curproc ?s" "nextpid s' = nextpid ?s" by (subst R(3), simp)+
    have k: "\<forall>x. kernel_data K H (unat x) \<longrightarrow> x \<notin> name_bytes K \<longrightarrow> mem s' x = mem ?s x" using R(4) by (simp add: name_bytes_def)
    note c2 = namei_change [OF ch(1) R(1,2) e k R(5)]
    show thesis by (rule that(2) [OF _ c2(1) namei_keep_trans [OF ch(2) c2(2)] b]) (use a in \<open>simp add: ex disk_dirs_def\<close>)
  qed
qed

section \<open>The result\<close>

text \<open>
  A path that stands for nothing yields the null pointer.  Otherwise the file's inode is the one that
  is in core under that number, with one more user, or a new one; its size is the one of the directory entry.
\<close>

definition namei_result ::
  "klayout \<Rightarrow> kstate \<Rightarrow> uint64 list \<Rightarrow> (uint16 \<times> uint32) option \<Rightarrow> uint64 \<Rightarrow> kstate \<Rightarrow> bool" where
  "namei_result K s ips r ip s' \<longleftrightarrow> (\<exists>A' H' cs' ips'. mm_inv K s' A' H' \<and> inode_inv K s' A' H' cs' ips' \<and>
     (\<forall>q \<in> set ips. q \<noteq> ip \<longrightarrow> same_inode s s' q) \<and> (\<forall>va. user_va va \<longrightarrow> uview s' va = uview s va) \<and>
     curproc s' = curproc s \<and> nextpid s' = nextpid s \<and>
     (case r of
        None \<Rightarrow> ip = NULL \<and> ips' = ips
      | Some (c, sz) \<Rightarrow> ip \<noteq> NULL \<and> inode_id (mem s') ip = half_arg c \<and> inode_size (mem s') ip = word_arg sz \<and>
          (case find (\<lambda>q. inode_id (mem s) q = half_arg c) ips of
             Some q \<Rightarrow> ip = q \<and> ips' = ips \<and> inode_refcnt (mem s') ip = inode_refcnt (mem s) ip + 1
           | None \<Rightarrow> ip \<notin> set ips \<and> ips' = ips @ [ip] \<and> inode_refcnt (mem s') ip = 1)))"

lemma namei_result_later:
  assumes "namei_keep (set ips) s s1" and "namei_result K s1 ips r ip s'"
  shows "namei_result K s ips r ip s'"
proof -
  have id: "inode_id (mem s1) q = inode_id (mem s) q" "inode_refcnt (mem s1) q = inode_refcnt (mem s) q" if "q \<in> set ips" for q
    using assms(1) that by (auto simp: namei_keep_def same_inode_def)
  have fd: "find (\<lambda>q. inode_id (mem s1) q = v) ips = find (\<lambda>q. inode_id (mem s) q = v) ips" for v
    by (rule find_cong [OF refl]) (simp add: id)
  have rc: "inode_refcnt (mem s1) q = inode_refcnt (mem s) q" if "find (\<lambda>q. inode_id (mem s) q = v) ips = Some q" for q v
    using that id(2) by (auto simp: find_Some_iff)
  show ?thesis
    using assms unfolding namei_result_def fd namei_keep_def
    by (elim exE conjE, intro exI conjI; (assumption | (auto simp: same_inode_def rc split: option.splits)[1]))
qed

lemma namei_none:
  assumes "namei_inv K f cs ips path P s A H"
  shows "namei_result K s ips None NULL s"
  using assms unfolding namei_result_def namei_inv_def by (auto simp: same_inode_def)

lemma inode_resize:
  fixes v :: uint64
  assumes mm: "mm_inv K s A H" and inv: "inode_inv K s A H cs ips" and ip: "ip \<in> set ips"
  defines "s' \<equiv> set_inode_size ip v s"
  shows "mm_inv K s' A H" and "inode_inv K s' A H cs ips" and "inode_id (mem s') ip = inode_id (mem s) ip"
    and "inode_size (mem s') ip = v" and "inode_refcnt (mem s') ip = inode_refcnt (mem s) ip"
    and "q \<in> set ips \<Longrightarrow> q \<noteq> ip \<Longrightarrow> same_inode s s' q" and "user_va va \<Longrightarrow> uview s' va = uview s va"
proof -
  note D = inode_invD [OF inv]
  have same: "pmmap s' = pmmap s" "memtotal s' = memtotal s" "pgdir s' = pgdir s" "cr3 s' = cr3 s"
    by (simp_all add: s'_def set_inode_size_def)
  have out: "\<forall>x. \<not> in_block 24 ip (unat x) \<longrightarrow> mem s' x = mem s x"
    using inode_store_out(2) [OF D(6) D(4) [OF ip]] by (simp add: s'_def set_inode_size_def)
  note w = inode_write [OF inv D(4) [OF ip] D(5) [OF ip] same(1,2) out]
  show "inode_inv K s' A H cs ips" by (rule w(1))
  show "same_inode s s' q" if "q \<in> set ips" "q \<noteq> ip" using w(2) [OF that] by (simp add: same_inode_def)
  have "\<forall>x. \<not> kernel_data K H (unat x) \<longrightarrow> mem s' x = mem s x" using out inode_kernel_data [OF D(4) [OF ip]] by blast
  note k = kernel_data_write [OF mm same this]
  show "mm_inv K s' A H" and "user_va va \<Longrightarrow> uview s' va = uview s va" by (rule k, assumption?)+
  show "inode_id (mem s') ip = inode_id (mem s) ip" "inode_size (mem s') ip = v" "inode_refcnt (mem s') ip = inode_refcnt (mem s) ip"
    by (simp_all add: s'_def set_inode_size_def inode_set)
qed

lemma namei_open:
  assumes inv: "namei_inv K f cs ips path P s A H" and left: "4 \<le> big_left A" and n: "inode_id (mem s) NULL \<noteq> half_arg c"
  shows "\<exists>ip s'. ebind (ialloc K (half_arg c) s) (\<lambda>(ip, s). if ip = NULL then Inr (NULL, s)
      else Inr (ip, set_inode_size ip (word_arg sz) s)) = Inr (ip, s') \<and> namei_result K s ips (Some (c, sz)) ip s'"
proof -
  have I: "mm_inv K s A H" "inode_inv K s A H cs ips" using inv by (auto simp: namei_inv_def)
  have fin: ?thesis
    if r: "ialloc K (half_arg c) s = Inr (ip, s1)" "inode_inv K s1 A1 H1 cs1 ips1" "inode_id (mem s1) ip = half_arg c"
      and dr: "data_run K s A H s1 A1 H1" and ip: "ip \<in> set ips1" "set ips \<subseteq> set ips1"
      and others: "\<forall>q \<in> set ips. q \<noteq> ip \<longrightarrow> same_inode s s1 q"
      and found: "case find (\<lambda>q. inode_id (mem s) q = half_arg c) ips of
             Some q \<Rightarrow> ip = q \<and> ips1 = ips \<and> inode_refcnt (mem s1) ip = inode_refcnt (mem s) ip + 1
           | None \<Rightarrow> ip \<notin> set ips \<and> ips1 = ips @ [ip] \<and> inode_refcnt (mem s1) ip = 1" for ip s1 A1 H1 cs1 ips1
  proof -
    note mm1 = data_run_mm [OF dr I(1)]
    note z = inode_resize [OF conjunct1 [OF mm1] r(2) ip(1), where v = "word_arg sz"]
    let ?s = "set_inode_size ip (word_arg sz) s1"
    have ip0: "ip \<noteq> NULL" by (rule live_no_wrap(3) [OF inode_invD(6,4) [OF r(2)]]) (rule ip(1))
    have others': "\<forall>q \<in> set ips. q \<noteq> ip \<longrightarrow> same_inode s ?s q"
      using z(6) others ip(2) by (auto simp: same_inode_def)
    have user: "\<forall>va. user_va va \<longrightarrow> uview ?s va = uview s va" using z(7) mm1 by simp
    have fixed: "curproc ?s = curproc s \<and> nextpid ?s = nextpid s"
      using data_run_same [OF dr] by (simp add: set_inode_size_def)
    have "namei_result K s ips (Some (c, sz)) ip ?s"
      unfolding namei_result_def
      by (rule exI [of _ A1], rule exI [of _ H1], rule exI [of _ cs1], rule exI [of _ ips1])
        (use z(1-5) ip0 r(3) found others' user fixed in \<open>simp split: option.splits\<close>)
    with r(1) ip0 show ?thesis by auto
  qed
  show ?thesis
  proof (cases "find (\<lambda>q. inode_id (mem s) q = half_arg c) ips")
    case (Some q)
    show ?thesis
      by (rule ialloc_found [OF I(2) n Some], rule fin) (assumption | (use Some in \<open>simp add: same_inode_def\<close>))+
  next
    case None
    show ?thesis
    proof (rule ialloc_new [OF I(2) n None])
      assume "big_left A < 4"
      with left show ?thesis by simp
    next
      fix ip s' A' H' cs'
      assume r: "ialloc K (half_arg c) s = Inr (ip, s')" "inode_inv K s' A' H' cs' (ips @ [ip])" "inode_id (mem s') ip = half_arg c"
        "inode_refcnt (mem s') ip = 1" "data_run K s A H s' A' H'"
        "\<forall>q \<in> set ips. inode_id (mem s') q = inode_id (mem s) q \<and> inode_size (mem s') q = inode_size (mem s) q \<and>
          inode_refcnt (mem s') q = inode_refcnt (mem s) q"
      have "ip \<notin> set ips" using inode_invD(3) [OF r(2)] by simp
      then show ?thesis by (intro fin [OF r(1,2,3,5)]) (use r(4,6) None in \<open>auto simp: same_inode_def\<close>)
    qed
  qed
qed

section \<open>The loop\<close>

lemma path_text_end: "\<exists>t rest. path_text ns @ [0] = t # rest \<and> (t = 0 \<or> t = 0x2F) \<and> (t = 0 \<longleftrightarrow> ns = [])"
  by (cases ns) auto

text \<open>One turn of the loop, when there is something left of the path.\<close>

lemma namei_turn:
  assumes inv: "namei_inv K f cs ips path P s A H" and disk: "ata_disk (port_dev K) disk" and f: "dir_geometry f"
    and d: "d = 0 \<or> 2 \<le> unat d" and left: "2 \<le> big_left A" and P: "drop i P = nm @ path_text ns @ [0]" "length P \<le> loop_fuel K"
    and names: "\<forall>n \<in> set (nm # ns). 0 \<notin> set n \<and> 0x2F \<notin> set n" and some: "\<not> (nm = [] \<and> ns = [])"
  obtains "namei_loop (Suc n) K path i d s = Inl (Panic ''kmfree: invalid addr %x\<newline>'')" and "4096 < slot_sz (class_of (dir_bytes f 0))"
  | s' A' H' where "namei_loop (Suc n) K path i d s =
      (case disk_dirs disk f d (take 11 nm) of
         None \<Rightarrow> Inr (NULL, s')
       | Some (c, sz) \<Rightarrow>
           if c = 0 then Inr (NULL, s')
           else if ns = [] then
             ebind (ialloc K (half_arg c) s') (\<lambda>(ip, s). if ip = NULL then Inr (NULL, s) else Inr (ip, set_inode_size ip (word_arg sz) s))
           else if ns = [[]] then
             ebind (kprintf K (''sys_spawn: path ends with '' @ [CHR 0x27, CHR 0x2F, CHR 0x27, CHR 0x0A]) [] s') (\<lambda>s. Inr (NULL, s))
           else namei_loop n K path (i + length nm + 1) c (s'\<lparr>mem := memset (mem s') (name_at K) 0 12\<rparr>))"
      and "namei_inv K f cs ips path P s' A' H'" and "namei_keep (set ips) s s'" and "big_left A \<le> big_left A' + 2"
proof -
  have nm: "0 \<notin> set nm \<and> 0x2F \<notin> set nm" using names by simp
  obtain t rest where t: "path_text ns @ [0] = t # rest" "t = 0 \<or> t = 0x2F" "t = 0 \<longleftrightarrow> ns = []" using path_text_end by blast
  have dr: "drop i P = nm @ t # rest" using P(1) t(1) by simp
  have "length (drop i P) = length nm + Suc (length rest)" unfolding dr by simp
  then have il: "i < length P" "i + length nm < length P" "rest \<noteq> [] \<Longrightarrow> i + length nm + 1 < length P" by (auto simp: neq_Nil_conv)
  have "P ! i = (nm @ t # rest) ! 0" using nth_drop [of i P 0] il(1) by (simp add: dr)
  then have c0: "P ! i \<noteq> 0" using nm some t(3) by (cases nm) auto
  have c1: "P ! (i + length nm) = t" using nth_drop [of i P "length nm"] il(2) by (simp add: dr)
  have c2: "P ! (i + length nm + 1) = hd rest" if "rest \<noteq> []"
    using nth_drop [of i P "length nm + 1"] il(3) [OF that] that by (simp add: dr hd_conv_nth nth_append)
  have str: "user_string s path P" using inv by (simp add: namei_inv_def)
  note ld = user_string_load [OF str il(1), of K]
  show thesis
  proof (rule namei_lookup [OF inv disk f d left dr P(2) t(2) nm])
    assume "\<forall>R. ebind (extract_name (loop_fuel K) K path i 0 s) (\<lambda>(i, j, s).
      let s = s\<lparr>mem := store8 (mem s) (name_at K + of_nat j) 0\<rparr> in ebind (fat16_find_cluster K (name_at K) d s) (R i)) =
      (Inl (Panic ''kmfree: invalid addr %x\<newline>'') :: (uint64 \<times> kstate) kres)" "4096 < slot_sz (class_of (dir_bytes f 0))"
    then show thesis by (intro that(1)) (use ld c0 in \<open>simp_all add: Let_def\<close>)
  next
    fix s' A' H'
    assume lk: "\<forall>R. ebind (extract_name (loop_fuel K) K path i 0 s) (\<lambda>(i, j, s).
      let s = s\<lparr>mem := store8 (mem s) (name_at K + of_nat j) 0\<rparr> in ebind (fat16_find_cluster K (name_at K) d s) (R i)) =
      (R (i + length nm) (lookup_word (disk_dirs disk f d (take 11 nm)), s') :: (uint64 \<times> kstate) kres)"
      and inv': "namei_inv K f cs ips path P s' A' H'" and keep: "namei_keep (set ips) s s'" and bl: "big_left A \<le> big_left A' + 2"
    have str': "user_string s' path P" using inv' by (simp add: namei_inv_def)
    note ld1 = user_string_load [OF str' il(2), of K, unfolded c1]
    have ld2: "vload8 K (path + of_nat (i + length nm + 1)) s' = Inr (hd rest, s')" and r0: "hd rest = 0 \<longleftrightarrow> ns = [[]]" if ne: "ns \<noteq> []"
    proof -
      obtain n' ns' where n': "ns = n' # ns'" using ne by (cases ns) auto
      then have rest: "rest = n' @ path_text ns' @ [0]" using t(1) by simp
      then have "rest \<noteq> []" by simp
      then show "vload8 K (path + of_nat (i + length nm + 1)) s' = Inr (hd rest, s')"
        using user_string_load [OF str' il(3), of K] c2 by simp
      show "hd rest = 0 \<longleftrightarrow> ns = [[]]" using rest n' names by (cases n'; cases ns') auto
    qed
    have "namei_loop (Suc n) K path i d s =
      (case disk_dirs disk f d (take 11 nm) of
         None \<Rightarrow> Inr (NULL, s')
       | Some (c, sz) \<Rightarrow>
           if c = 0 then Inr (NULL, s')
           else if ns = [] then
             ebind (ialloc K (half_arg c) s') (\<lambda>(ip, s). if ip = NULL then Inr (NULL, s) else Inr (ip, set_inode_size ip (word_arg sz) s))
           else if ns = [[]] then
             ebind (kprintf K (''sys_spawn: path ends with '' @ [CHR 0x27, CHR 0x2F, CHR 0x27, CHR 0x0A]) [] s') (\<lambda>s. Inr (NULL, s))
           else namei_loop n K path (i + length nm + 1) c (s'\<lparr>mem := memset (mem s') (name_at K) 0 12\<rparr>))"
    proof (cases "disk_dirs disk f d (take 11 nm)")
      case None
      then show ?thesis using ld c0 lk by (simp add: Let_def lookup_word_parts)
    next
      case (Some cz)
      obtain c sz where cz: "cz = (c, sz)" by (cases cz)
      show ?thesis
      proof (cases "ns = []")
        case True
        then show ?thesis using ld c0 lk Some cz ld1 t(3)
          by (simp add: Let_def lookup_word_parts(1,2)) (unfold lookup_word_parts(3), rule impI, rule refl)
      next
        case False
        then have "t = 0x2F" using t(2,3) by simp
        then show ?thesis using ld c0 lk Some cz ld1 ld2 [OF False] r0 [OF False] False by (simp add: Let_def lookup_word_parts)
      qed
    qed
    then show thesis by (rule that(2) [OF _ inv' keep bl])
  qed
qed

lemma namei_data_write:
  assumes inv: "namei_inv K f cs ips path P s A H" and s': "s' = s\<lparr>mem := mem s', console := console s'\<rparr>"
    and out: "\<forall>x. x \<notin> bytes_at (name_at K) 12 \<longrightarrow> mem s' x = mem s x"
  shows "namei_inv K f cs ips path P s' A H" and "namei_keep (set ips) s s'"
proof -
  have I: "mm_inv K s A H" "\<forall>x \<in> name_bytes K. kernel_data K H (unat x)" using inv by (auto simp: namei_inv_def name_locals_def)
  have e: "pmmap s' = pmmap s" "memtotal s' = memtotal s" "pgdir s' = pgdir s" "cr3 s' = cr3 s" "fat16 s' = fat16 s"
    "curproc s' = curproc s" "nextpid s' = nextpid s"
    by (subst s', simp)+
  have k: "\<forall>x. \<not> kernel_data K H (unat x) \<longrightarrow> mem s' x = mem s x" using out I(2) unfolding name_bytes_def by blast
  note w = kernel_data_write [OF I(1) e(1-4) k]
  have u: "\<forall>va. user_va va \<longrightarrow> uview s' va = uview s va \<and> translate (mem s') (cr3 s') va = translate (mem s) (cr3 s) va"
    using w(2,3) by blast
  have o: "\<forall>x. kernel_data K H (unat x) \<longrightarrow> x \<notin> name_bytes K \<longrightarrow> mem s' x = mem s x" using out by (simp add: name_bytes_def)
  show "namei_inv K f cs ips path P s' A H" and "namei_keep (set ips) s s'"
    by (rule namei_change [OF inv w(1) refl e(2,5-7) o u])+
qed

lemma namei_loop_resolves:
  assumes disk: "ata_disk (port_dev K) disk" and f: "dir_geometry f" and len: "length P \<le> loop_fuel K"
    and "namei_inv K f cs ips path P s A H" and "drop i P = nm @ path_text ns @ [0]" and "d = 0 \<or> 2 \<le> unat d"
    and "\<forall>n \<in> set (nm # ns). 0 \<notin> set n \<and> 0x2F \<notin> set n" and "clusters_valid (disk_dirs disk f) d (nm # ns)"
    and "2 * length ns + 6 \<le> big_left A" and "length ns < fuel"
    and "\<forall>c sz. resolve (disk_dirs disk f) d (nm # ns) = Some (c, sz) \<longrightarrow> inode_id (mem s) NULL \<noteq> half_arg c"
  shows "namei_loop fuel K path i d s = Inl (Panic ''kmfree: invalid addr %x\<newline>'') \<and> 4096 < slot_sz (class_of (dir_bytes f 0)) \<or>
    (\<exists>ip s'. namei_loop fuel K path i d s = Inr (ip, s') \<and> namei_result K s ips (resolve (disk_dirs disk f) d (nm # ns)) ip s')"
  using assms(4-11)
proof (induction ns arbitrary: nm i d s A H fuel)
  case Nil
  then obtain n where fu: "fuel = Suc n" by (cases fuel) auto
  show ?case
  proof (cases "nm = []")
    case True
    have str: "user_string s path P" and il: "i < length P" "P ! i = 0"
      using Nil.prems(1,2) True by (simp_all add: namei_inv_def) (metis drop_all linorder_not_less not_Cons_self2, metis nth_via_drop)
    with True user_string_load [OF str il(1), of K] namei_none [OF Nil.prems(1)] show ?thesis by (simp add: fu)
  next
    case False
    have left: "2 \<le> big_left A" and some: "\<not> (nm = [] \<and> [] = ([] :: uint8 list list))" using Nil.prems(6) False by simp_all
    show ?thesis
    proof (rule namei_turn [OF Nil.prems(1) disk f Nil.prems(3) left Nil.prems(2) len Nil.prems(4) some, of n], goal_cases)
      case 1
      then show ?case by (simp add: fu del: namei_loop.simps)
    next
      case (2 s' A' H')
      show ?case
      proof (cases "resolve (disk_dirs disk f) d [nm]")
        case None
        with 2(1) False have "namei_loop fuel K path i d s = Inr (NULL, s')" by (auto simp: fu simp del: namei_loop.simps split: option.splits if_splits)
        with None namei_result_later [OF 2(3) namei_none [OF 2(2)]] show ?thesis by auto
      next
        case (Some cz)
        obtain c sz where cz: "cz = (c, sz)" by (cases cz)
        with Some False have l: "disk_dirs disk f d (take 11 nm) = Some (c, sz)" "c \<noteq> 0" by (auto split: option.splits if_splits)
        have left': "4 \<le> big_left A'" using Nil.prems(6) 2(4) by simp
        have "inode_id (mem s') NULL \<noteq> half_arg c" using Nil.prems(8) Some cz 2(3) by (auto simp: namei_keep_def)
        from namei_open [OF 2(2) left' this, of sz] obtain ip t where
          o: "ebind (ialloc K (half_arg c) s') (\<lambda>(ip, s). if ip = NULL then Inr (NULL, s)
            else Inr (ip, set_inode_size ip (word_arg sz) s)) = Inr (ip, t)" "namei_result K s' ips (Some (c, sz)) ip t" by blast
        have "namei_loop fuel K path i d s = Inr (ip, t)" using 2(1) o(1) l by (simp add: fu del: namei_loop.simps)
        with namei_result_later [OF 2(3) o(2)] Some cz show ?thesis by auto
      qed
    qed
  qed
next
  case (Cons nm' ns)
  then obtain n where fu: "fuel = Suc n" by (cases fuel) auto
  have left: "2 \<le> big_left A" and some: "\<not> (nm = [] \<and> nm' # ns = [])" using Cons.prems(6) by simp_all
  have n: "length ns < n" using Cons.prems(7) fu by simp
  show ?case
  proof (rule namei_turn [OF Cons.prems(1) disk f Cons.prems(3) left Cons.prems(2) len Cons.prems(4) some, of n], goal_cases)
    case 1
    then show ?case by (simp add: fu del: namei_loop.simps)
  next
    case (2 s' A' H')
    show ?case
    proof (cases "\<exists>c sz. disk_dirs disk f d (take 11 nm) = Some (c, sz) \<and> c \<noteq> 0")
      case False
      then have "namei_loop fuel K path i d s = Inr (NULL, s')" "resolve (disk_dirs disk f) d (nm # nm' # ns) = None"
        using 2(1) by (auto simp: fu simp del: namei_loop.simps split: option.splits)
      with namei_result_later [OF 2(3) namei_none [OF 2(2)]] show ?thesis by auto
    next
      case True
      then obtain c sz where l: "disk_dirs disk f d (take 11 nm) = Some (c, sz)" "c \<noteq> 0" by blast
      have res: "resolve (disk_dirs disk f) d (nm # nm' # ns) = resolve (disk_dirs disk f) c (nm' # ns)" using l by simp
      show ?thesis
      proof (cases "nm' # ns = [[]]")
        case True
        obtain out where out: "kprintf K (''sys_spawn: path ends with '' @ [CHR 0x27, CHR 0x2F, CHR 0x27, CHR 0x0A]) [] s' =
            Inr (s'\<lparr>console := console s' @ out\<rparr>)"
          using kprintf_total [of "''sys_spawn: path ends with '' @ [CHR 0x27, CHR 0x2F, CHR 0x27, CHR 0x0A]" K "[]" s'] by auto
        note w = namei_data_write [OF 2(2), of "s'\<lparr>console := console s' @ out\<rparr>", simplified]
        have "namei_loop fuel K path i d s = Inr (NULL, s'\<lparr>console := console s' @ out\<rparr>)" using 2(1) l True out by (simp add: fu del: namei_loop.simps append.simps)
        moreover have "resolve (disk_dirs disk f) d (nm # nm' # ns) = None" unfolding res using True by simp
        moreover have "namei_result K s ips None NULL (s'\<lparr>console := console s' @ out\<rparr>)"
          by (rule namei_result_later [OF namei_keep_trans [OF 2(3) w(2)] namei_none [OF w(1)]])
        ultimately show ?thesis by auto
      next
        case False
        let ?s = "s'\<lparr>mem := memset (mem s') (name_at K) 0 12\<rparr>"
        have "\<forall>x. x \<notin> bytes_at (name_at K) 12 \<longrightarrow> mem ?s x = mem s' x" by (simp add: memset_apply)
        note w = namei_data_write [OF 2(2) _ this, simplified]
        have "c \<noteq> 1" using Cons.prems(5) l by simp
        then have "unat c \<noteq> 0" "unat c \<noteq> 1" using l(2) by (simp_all add: word_unat_eq_iff)
        then have c2: "c = 0 \<or> 2 \<le> unat c" by simp
        have dr: "drop (i + length nm + 1) P = nm' @ path_text ns @ [0]"
        proof -
          have "drop (length nm + 1) (drop i P) = nm' @ path_text ns @ [0]" unfolding Cons.prems(2) by simp
          then show ?thesis by (simp add: add.commute add.left_commute)
        qed
        have keep: "namei_keep (set ips) s ?s" by (rule namei_keep_trans [OF 2(3) w(2)])
        have "namei_loop fuel K path i d s = namei_loop n K path (i + length nm + 1) c ?s" using 2(1) l False by (auto simp: fu simp del: namei_loop.simps)
        moreover have "namei_loop n K path (i + length nm + 1) c ?s = Inl (Panic ''kmfree: invalid addr %x\<newline>'') \<and>
            4096 < slot_sz (class_of (dir_bytes f 0)) \<or>
          (\<exists>ip t. namei_loop n K path (i + length nm + 1) c ?s = Inr (ip, t) \<and> namei_result K ?s ips (resolve (disk_dirs disk f) c (nm' # ns)) ip t)"
        proof (rule Cons.IH [OF w(1) dr c2 _ _ _ n])
          show "\<forall>n \<in> set (nm' # ns). 0 \<notin> set n \<and> 0x2F \<notin> set n" using Cons.prems(4) by simp
          show "clusters_valid (disk_dirs disk f) c (nm' # ns)" using Cons.prems(5) l by simp
          show "2 * length ns + 6 \<le> big_left A'" using Cons.prems(6) 2(4) by simp
          show "\<forall>c' sz. resolve (disk_dirs disk f) c (nm' # ns) = Some (c', sz) \<longrightarrow> inode_id (mem ?s) NULL \<noteq> half_arg c'"
            using Cons.prems(8) keep unfolding res by (simp add: namei_keep_def)
        qed
        ultimately show ?thesis unfolding res using namei_result_later [OF keep] by auto
      qed
    qed
  qed
qed

lemma namei_spec:
  assumes inv: "namei_inv K f cs ips path (path_text names @ [0]) s A H" and disk: "ata_disk (port_dev K) disk" and f: "dir_geometry f"
    and good: "\<forall>n \<in> set names. 0 \<notin> set n \<and> 0x2F \<notin> set n" and fuel: "length (path_text names) < loop_fuel K"
    and cl: "clusters_valid (disk_dirs disk f) 0 names" and left: "2 * length names + 4 \<le> big_left A"
    and null: "\<forall>c sz. resolve (disk_dirs disk f) 0 names = Some (c, sz) \<longrightarrow> inode_id (mem s) NULL \<noteq> half_arg c"
  shows "(\<exists>ip s'. fat16_namei K path s = Inr (ip, s') \<and> namei_result K s ips (resolve (disk_dirs disk f) 0 names) ip s') \<or>
    fat16_namei K path s = Inl (Panic ''kmfree: invalid addr %x\<newline>'') \<and> 4096 < slot_sz (class_of (dir_bytes f 0))"
proof -
  let ?P = "path_text names @ [0]" and ?L = "disk_dirs disk f"
  let ?s = "s\<lparr>mem := store_bytes (mem s) (name_at K) (replicate 12 0)\<rparr>"
  have "\<forall>x. x \<notin> bytes_at (name_at K) 12 \<longrightarrow> mem ?s x = mem s x" using store_bytes_outside [of _ "name_at K" "replicate 12 0"] by simp
  note w = namei_data_write [OF inv _ this, simplified]
  have "user_string ?s path ?P" using w(1) by (simp add: namei_inv_def)
  from user_string_load [OF this, of 0 K] have ld: "vload8 K path ?s = Inr (?P ! 0, ?s)" by simp
  show ?thesis
  proof (cases names)
    case Nil
    then have "fat16_namei K path s = Inr (NULL, ?s)" using ld by (simp add: fat16_namei_def Let_def)
    with Nil namei_result_later [OF w(2) namei_none [OF w(1)]] show ?thesis by auto
  next
    case (Cons nm ns)
    have run: "fat16_namei K path s = namei_loop (loop_fuel K) K path 1 0 ?s"
      using ld Cons by (simp add: fat16_namei_def Let_def del: namei_loop.simps)
    have "length ns \<le> length (path_text ns)" by (induction ns) auto
    then have fuel2: "length ns < loop_fuel K" "length ?P \<le> loop_fuel K" using fuel Cons by simp_all
    have dr: "drop 1 ?P = nm @ path_text ns @ [0]" using Cons by simp
    have "inode_id (mem ?s) NULL = inode_id (mem s) NULL" using w(2) by (simp add: namei_keep_def)
    then have "namei_loop (loop_fuel K) K path 1 0 ?s = Inl (Panic ''kmfree: invalid addr %x\<newline>'') \<and>
        4096 < slot_sz (class_of (dir_bytes f 0)) \<or>
      (\<exists>ip s'. namei_loop (loop_fuel K) K path 1 0 ?s = Inr (ip, s') \<and> namei_result K ?s ips (resolve ?L 0 (nm # ns)) ip s')"
      by (intro namei_loop_resolves [OF disk f fuel2(2) w(1) dr disjI1 [OF refl] _ _ _ fuel2(1)])
        (use good cl left null Cons in simp_all)
    then show ?thesis unfolding run Cons using namei_result_later [OF w(2)] by blast
  qed
qed

section \<open>Properties\<close>


text \<open>A path of five characters in user memory.\<close>

lemma demo_path:
  assumes len: "length bs = 5" and bs: "0 \<notin> set bs"
  obtains s A H where "mm_inv demo_names s A H" and "live H = {}" and "50 \<le> big_left A" and "fat16 s = demo_fat"
    and "memtotal s = 0x20000000" and "\<forall>x. unat x < 0x200000 \<longrightarrow> \<not> in_block 336 0x1F0000 (unat x) \<longrightarrow> mem s x = 0"
    and "user_string s USER_ADDR_START (bs @ [0])"
proof -
  let ?U = USER_ADDR_START
  let ?S = "urange ?U 6"
  obtain s0 A0 H where s: "mm_inv demo_names s0 A0 H" "live H = {}" "105 \<le> big_left A0" "fat16 s0 = demo_fat"
    "\<forall>va. user_va va \<longrightarrow> uview s0 va = 0" "memtotal s0 = 0x20000000"
    "\<forall>x. unat x < 0x200000 \<longrightarrow> \<not> in_block 336 0x1F0000 (unat x) \<longrightarrow> mem s0 x = 0" by (rule demo_names_state)
  have U: "unat ?U + 6 \<le> 2 ^ 47" "unat ?U + 6 \<le> 2 ^ 64" by (simp_all add: USER_ADDR_START_def)
  have va: "\<forall>v \<in> ?S. user_va v" using user_range [OF order_refl U(1)] by blast
  have cd: "card (unmapped s0 ?S) \<le> 2" using range_pages [OF U(2), of s0] by simp
  then have room: "user_room s0 A0 ?S" using s(3) by (simp add: user_room_def pm_pages_def big_left_def)
  have sub: "urange ?U (length bs) \<subseteq> ?S" by (auto simp: urange_def len)
  have "\<forall>v \<in> urange ?U (length bs). user_va v" "length bs \<le> 2 ^ 64" using sub va len by auto
  from mm_vstore_bytes [OF s(1) room sub this] obtain s1 A1 where
    v: "user_run demo_names H ?S s0 A0 s1 A1"
    "\<forall>v. user_va v \<longrightarrow> uview s1 v = (if v \<in> urange ?U (length bs) then bs ! unat (v - ?U) else uview s0 v)" by blast
  have last: "?U + 5 \<in> ?S" by (simp add: urange_def)
  obtain pa s2 A2 where w: "user_run demo_names H ?S s1 A1 s2 A2" "translate (mem s2) (cr3 s2) (?U + 5) = Some pa"
    "\<forall>v. user_va v \<longrightarrow> uview s2 v = uview s1 v"
    by (rule mm_user_addr [OF user_runD(1) [OF v(1)] _ user_runD(3) [OF v(1) room] last]) (use va last in blast)
  have r: "user_run demo_names H ?S s0 A0 s2 A2" by (rule user_run_trans [OF v(1) w(1)])
  note D = user_runD [OF r]
  have "big_left A0 \<le> big_left A2 + 4 * card (unmapped s0 ?S)" using D(4) by simp
  then have left: "50 \<le> big_left A2" using cd s(3) by simp
  obtain c out where st: "s2 = s0\<lparr>mem := mem s2, pmmap := pmmap s2, cr2 := c, console := out\<rparr>" using D(5) by blast
  have e: "fat16 s2 = demo_fat" "memtotal s2 = 0x20000000" by (subst st, simp add: s(4,6))+
  have z: "\<forall>x. unat x < 0x200000 \<longrightarrow> \<not> in_block 336 0x1F0000 (unat x) \<longrightarrow> mem s2 x = 0"
    using D(2) s(7) by (simp add: kernel_bytes_def demo_names_def demo_layout_def)
  have "user_string s2 ?U (bs @ [0])"
    unfolding user_string_def
  proof (intro allI impI)
    fix i assume i: "i < length (bs @ [0])"
    then have u: "unat (?U + of_nat i - ?U) = i" by (simp add: len unat_of_nat)
    then have in6: "?U + of_nat i \<in> ?S" using i len by (simp add: urange_def)
    then have uv: "user_va (?U + of_nat i)" using va by blast
    then have val: "uview s2 (?U + of_nat i) = (bs @ [0]) ! i"
      using w(3) v(2) s(5) u i len by (simp add: urange_def nth_append)
    show "user_va (?U + of_nat i) \<and> translate (mem s2) (cr3 s2) (?U + of_nat i) \<noteq> None \<and> uview s2 (?U + of_nat i) = (bs @ [0]) ! i"
    proof (intro conjI uv val)
      show "translate (mem s2) (cr3 s2) (?U + of_nat i) \<noteq> None"
      proof (cases "i < 5")
        case True
        have "bs ! i \<in> set bs" using True len by simp
        then have "bs ! i \<noteq> 0" using bs by metis
        then have "uview s2 (?U + of_nat i) \<noteq> 0" using val True len by (simp add: nth_append)
        then show ?thesis using uview_unmapped by blast
      next
        case False
        then have "i = 5" using i len by simp
        then show ?thesis using w(2) by simp
      qed
    qed
  qed
  then show thesis by (rule that [OF D(1) s(2) left e z])
qed

lemma demo_namei:
  assumes "mm_inv demo_names s A H" and "memtotal s = 0x20000000"
    and z: "\<forall>x. unat x < 0x200000 \<longrightarrow> \<not> in_block 336 0x1F0000 (unat x) \<longrightarrow> mem s x = 0"
  shows "inode_inv demo_names s A H [] []" and "name_locals demo_names H [] []" and "inode_id (mem s) NULL = 0"
proof -
  have "list_inv demo_names s A H (inode_list_at demo_names) []"
    by (rule empty_list [OF mm_invD(1) [OF assms(1)]])
      (use assms(2) z in \<open>auto simp: list_static_def demo_names_def demo_layout_def in_block_def\<close>)
  then show "inode_inv demo_names s A H [] []" by (simp add: inode_inv_def)
  have loc: "local_at demo_names ''filename'' = 0x1FC000" "local_at demo_names ''entry_filename'' = 0x1FC100"
    by (simp_all add: demo_names_def)
  have disj: "bytes_at (0x1FC000 :: uint64) 12 \<inter> bytes_at 0x1FC100 12 = {}"
    using demo_names_data(2) [of "0x1FC000"] demo_names_data(1) [of "0x1FC100"] by fastforce
  have data: "kernel_data demo_names H (unat x) \<and> 8 \<le> unat x \<and> \<not> in_block 24 (inode_list_at demo_names) (unat x)"
    if "a = 0x1FC000 \<or> a = 0x1FC100" "x \<in> bytes_at a 12" for a x
    using demo_names_data [OF that] that(1) by (auto simp: demo_names_def demo_layout_def in_block_def)
  show "name_locals demo_names H [] []"
    unfolding name_locals_def name_bytes_def loc using disj data
    by (auto simp: kernel_data_def demo_names_def demo_layout_def in_block_def)
  have "mem s x = 0" if "x \<in> bytes_at NULL 24" for x
    using that bytes_at_in_block [of NULL 24 x] z by (simp add: in_block_def)
  from inode_cong(1) [of NULL "mem s" "\<lambda>_. 0", OF this] show "inode_id (mem s) NULL = 0" by (simp add: inode_id_def)
qed


end
