(* ===== verification/KernelRun.thy ===== *)
theory KernelRun
  imports ProcOps Trap
begin

text \<open>
  The running system: a user program accesses its memory while timer and keyboard interrupts arrive between
  the accesses, \<^verbatim>\<open>arch/x86/trap.c\<close> over memory management.
\<close>

section \<open>Labelled steps\<close>

datatype ('i, 'a, 'v) label = Intr 'i | ReadOf 'a 'v | WriteOf 'a 'v

text \<open>One step: an interrupt handler that returns, or an access with the value read or written.\<close>

inductive mem_step :: "('i \<Rightarrow> 's \<Rightarrow> 's kres) \<Rightarrow> ('a \<Rightarrow> 's \<Rightarrow> ('v \<times> 's) kres) \<Rightarrow> ('a \<Rightarrow> 'v \<Rightarrow> 's \<Rightarrow> 's kres) \<Rightarrow>
    's \<Rightarrow> ('i, 'a, 'v) label \<Rightarrow> 's \<Rightarrow> bool" for irq load store where
  step_intr: "irq i s = Inr s' \<Longrightarrow> mem_step irq load store s (Intr i) s'"
| step_read: "load a s = Inr (v, s') \<Longrightarrow> mem_step irq load store s (ReadOf a v) s'"
| step_write: "store a v s = Inr s' \<Longrightarrow> mem_step irq load store s (WriteOf a v) s'"

inductive_simps mem_step_simps [simp]:
  "mem_step irq load store s (Intr i) s'" "mem_step irq load store s (ReadOf a v) s'" "mem_step irq load store s (WriteOf a v) s'"

inductive mem_runs :: "('i \<Rightarrow> 's \<Rightarrow> 's kres) \<Rightarrow> ('a \<Rightarrow> 's \<Rightarrow> ('v \<times> 's) kres) \<Rightarrow> ('a \<Rightarrow> 'v \<Rightarrow> 's \<Rightarrow> 's kres) \<Rightarrow>
    's \<Rightarrow> ('i, 'a, 'v) label list \<Rightarrow> 's \<Rightarrow> bool" for irq load store where
  runs_none: "mem_runs irq load store s [] s"
| runs_step: "mem_runs irq load store s ls s1 \<Longrightarrow> mem_step irq load store s1 l s2 \<Longrightarrow> mem_runs irq load store s (ls @ [l]) s2"

text \<open>The array that a sequence of labels leaves, and the condition that every read saw the array of its time.\<close>

primrec label_effect :: "('i, 'a, 'v) label \<Rightarrow> ('a \<Rightarrow> 'v) \<Rightarrow> 'a \<Rightarrow> 'v" where
  "label_effect (Intr i) u = u"
| "label_effect (ReadOf a v) u = u"
| "label_effect (WriteOf a v) u = u(a := v)"

primrec label_sees :: "('i, 'a, 'v) label \<Rightarrow> ('a \<Rightarrow> 'v) \<Rightarrow> bool" where
  "label_sees (Intr i) u \<longleftrightarrow> True"
| "label_sees (ReadOf a v) u \<longleftrightarrow> v = u a"
| "label_sees (WriteOf a v) u \<longleftrightarrow> True"

primrec reads_current :: "('i, 'a, 'v) label list \<Rightarrow> ('a \<Rightarrow> 'v) \<Rightarrow> bool" where
  "reads_current [] u \<longleftrightarrow> True"
| "reads_current (l # ls) u \<longleftrightarrow> label_sees l u \<and> reads_current ls (label_effect l u)"

lemma reads_current_snoc: "reads_current (ls @ [l]) u \<longleftrightarrow> reads_current ls u \<and> label_sees l (fold label_effect ls u)"
  by (induction ls arbitrary: u) auto

primrec label_at :: "('i \<Rightarrow> bool) \<Rightarrow> ('a \<Rightarrow> bool) \<Rightarrow> ('i, 'a, 'v) label \<Rightarrow> bool" where
  "label_at I V (Intr i) \<longleftrightarrow> I i"
| "label_at I V (ReadOf a v) \<longleftrightarrow> V a"
| "label_at I V (WriteOf a v) \<longleftrightarrow> V a"

text \<open>A memory with interrupts: handlers return, keep the invariant and do not show in the view.\<close>

locale interrupted_memory = array_memory inv valid view load store kept
  for inv :: "'s \<Rightarrow> bool" and valid :: "'a \<Rightarrow> bool" and view :: "'s \<Rightarrow> 'a \<Rightarrow> 'v"
    and load :: "'a \<Rightarrow> 's \<Rightarrow> ('v \<times> 's) kres" and store :: "'a \<Rightarrow> 'v \<Rightarrow> 's \<Rightarrow> 's kres" and kept :: "'s \<Rightarrow> 's \<Rightarrow> bool" +
  fixes irq :: "'i \<Rightarrow> 's \<Rightarrow> 's kres" and vector :: "'i \<Rightarrow> bool"
  assumes irq_ok: "inv s \<Longrightarrow> vector i \<Longrightarrow>
      \<exists>s'. irq i s = Inr s' \<and> inv s' \<and> kept s s' \<and> (\<forall>b. valid b \<longrightarrow> view s' b = view s b)"
begin

lemma step_keeps:
  assumes "inv s" and "label_at vector valid l" and "mem_step irq load store s l s'"
  shows "inv s'" and "kept s s'" and "label_sees l (view s)" and "valid b \<Longrightarrow> view s' b = label_effect l (view s) b"
proof -
  have "inv s' \<and> kept s s' \<and> label_sees l (view s) \<and> (valid b \<longrightarrow> view s' b = label_effect l (view s) b)" for b
  proof (cases l)
    case (Intr i)
    then show ?thesis using irq_ok [OF assms(1), of i] assms(2,3) by auto
  next
    case (ReadOf a v)
    then show ?thesis using load_ok [OF assms(1), of a] assms(2,3) by auto
  next
    case (WriteOf a v)
    then show ?thesis using store_ok [OF assms(1), of a v] assms(2,3) by auto
  qed
  then show "inv s'" and "kept s s'" and "label_sees l (view s)" and "valid b \<Longrightarrow> view s' b = label_effect l (view s) b" by blast+
qed

lemma effect_cong: "label_at vector valid l \<Longrightarrow> (\<And>b. valid b \<Longrightarrow> u b = u' b) \<Longrightarrow> valid b \<Longrightarrow> label_effect l u b = label_effect l u' b"
  by (cases l) auto

lemma sees_cong: "label_at vector valid l \<Longrightarrow> (\<And>b. valid b \<Longrightarrow> u b = u' b) \<Longrightarrow> label_sees l u \<longleftrightarrow> label_sees l u'"
  by (cases l) auto

text \<open>Any run is a run of an array: interrupts are invisible, and the next step can always be taken.\<close>

lemma runs_array:
  assumes "mem_runs irq load store s ls s'" and "inv s" and "\<forall>l \<in> set ls. label_at vector valid l"
  shows "inv s' \<and> kept s s' \<and> reads_current ls (view s) \<and> (\<forall>b. valid b \<longrightarrow> view s' b = fold label_effect ls (view s) b)"
  using assms
proof (induction rule: mem_runs.induct)
  case (runs_none s)
  then show ?case by (simp add: kept_refl)
next
  case (runs_step s ls s1 l s2)
  then have IH: "inv s1" "kept s s1" "reads_current ls (view s)" "\<And>b. valid b \<Longrightarrow> view s1 b = fold label_effect ls (view s) b"
    and l: "label_at vector valid l" by auto
  note st = step_keeps [OF IH(1) l runs_step.hyps(2)]
  have "label_sees l (fold label_effect ls (view s))" using st(3) sees_cong [OF l, of "view s1" "fold label_effect ls (view s)"] IH(4) by blast
  moreover have "view s2 b = label_effect l (fold label_effect ls (view s)) b" if b: "valid b" for b
    using st(4) [OF b] effect_cong [OF l _ b, of "view s1" "fold label_effect ls (view s)"] IH(4) by simp
  ultimately show ?case using st(1) kept_trans [OF IH(2) st(2)] IH(3) by (simp add: reads_current_snoc)
qed

lemma never_stuck:
  assumes "inv s" and "label_at vector valid l" and "label_sees l (view s)"
  shows "\<exists>s'. mem_step irq load store s l s'"
proof (cases l)
  case (Intr i)
  then show ?thesis using irq_ok [OF assms(1), of i] assms(2) by auto
next
  case (ReadOf a v)
  then show ?thesis using load_ok [OF assms(1), of a] assms(2,3) by auto
next
  case (WriteOf a v)
  then show ?thesis using store_ok [OF assms(1), of a v] assms(2) by auto
qed

text \<open>Conversely, every sequence that an array allows can happen.\<close>

lemma runs_exist:
  assumes "inv s" and "\<forall>l \<in> set ls. label_at vector valid l" and "reads_current ls (view s)"
  shows "\<exists>s'. mem_runs irq load store s ls s'"
  using assms(2,3)
proof (induction ls rule: rev_induct)
  case Nil
  show ?case by (rule exI) (rule runs_none)
next
  case (snoc l ls)
  then obtain s1 where s1: "mem_runs irq load store s ls s1" by (auto simp: reads_current_snoc)
  have r: "inv s1" "\<And>b. valid b \<Longrightarrow> view s1 b = fold label_effect ls (view s) b"
    using runs_array [OF s1 assms(1)] snoc.prems(1) by auto
  have l: "label_at vector valid l" using snoc.prems(1) by simp
  have "label_sees l (view s1)"
    using sees_cong [OF l, of "view s1" "fold label_effect ls (view s)"] r(2) snoc.prems(2) by (simp add: reads_current_snoc)
  from never_stuck [OF r(1) l this] show ?case using runs_step [OF s1] by blast
qed

end

section \<open>The handlers\<close>

definition irq_frame :: "trapframe \<Rightarrow> bool" where
  "irq_frame tf \<longleftrightarrow> tf_trapno tf = 32 \<or> tf_trapno tf = 33"

lemma trap_irq:
  assumes "irq_frame tf"
  shows "\<exists>s'. trap K tf s = Inr s' \<and> ticks s' = ticks s + of_bool (tf_trapno tf = 32) \<and>
    s' = s\<lparr>ticks := ticks s', kbd_flags := kbd_flags s', io := io s', console := console s'\<rparr>"
proof -
  have eoi: "\<exists>tr. apic_eoi K s = s\<lparr>io := tr\<rparr>" for s :: kstate
    by (auto simp: apic_eoi_def write_apic_def k_mmio_read32_def k_mmio_write32_def mmio_read32_def Let_def)
  have kbd: "\<exists>c f tr. kbdgetc K s = (c, s\<lparr>kbd_flags := f, io := tr\<rparr>)"
  proof -
    have "\<exists>n tr. k_inb K KBD_DATA s = (n, s\<lparr>io := tr\<rparr>)" by (auto simp: k_inb_def inb_def Let_def)
    then obtain n tr where "k_inb K KBD_DATA s = (n, s\<lparr>io := tr\<rparr>)" by blast
    from kbdgetc_eq [OF this] show ?thesis by (cases s) auto
  qed
  show ?thesis
  proof (cases "tf_trapno tf = 32")
    case True
    obtain tr where e: "apic_eoi K (s\<lparr>ticks := ticks s + 1\<rparr>) = s\<lparr>ticks := ticks s + 1, io := tr\<rparr>" using eoi [of "s\<lparr>ticks := ticks s + 1\<rparr>"] by auto
    obtain out where "kprintf K ''ticks = %d\<newline>'' [ticks s + 1] (s\<lparr>ticks := ticks s + 1, io := tr\<rparr>) =
        Inr (s\<lparr>ticks := ticks s + 1, io := tr, console := console s @ out\<rparr>)"
      using kprintf_total [of "''ticks = %d\<newline>''" K _ "s\<lparr>ticks := ticks s + 1, io := tr\<rparr>"] by force
    with e True show ?thesis
      by (auto simp: trap_def X86_EX_PF_def T_IRQ0_def IRQ_TIMER_def Let_def)
  next
    case False
    obtain c f tr where k: "kbdgetc K s = (c, s\<lparr>kbd_flags := f, io := tr\<rparr>)" using kbd by blast
    let ?s = "s\<lparr>kbd_flags := f, io := tr\<rparr>"
    obtain out where "kprintf K ''kbd: %c\<newline>'' [ucast c] ?s = Inr (?s\<lparr>console := console ?s @ out\<rparr>)"
      using kprintf_total [of "''kbd: %c\<newline>''" K _ ?s] by force
    moreover obtain t1 t2 where "apic_eoi K (?s\<lparr>console := console ?s @ out\<rparr>) = ?s\<lparr>console := console ?s @ out, io := t1\<rparr>"
      "apic_eoi K ?s = ?s\<lparr>io := t2\<rparr>" using eoi [of "?s\<lparr>console := console ?s @ out\<rparr>"] eoi [of ?s] by auto
    ultimately show ?thesis using k assms False
      by (auto simp: trap_def X86_EX_PF_def T_IRQ0_def IRQ_TIMER_def IRQ_KBD_def irq_frame_def Let_def)
  qed
qed

lemma user_inv_same:
  assumes "user_inv K H S s" and m: "mem s' = mem s"
    and same: "pmmap s' = pmmap s" "memtotal s' = memtotal s" "pgdir s' = pgdir s" "cr3 s' = cr3 s"
  shows "user_inv K H S s'" and "user_va v \<Longrightarrow> uview s' v = uview s v"
proof -
  obtain A where A: "mm_inv K s A H" "user_room s A S" using assms(1) by (auto simp: user_inv_def)
  have "\<forall>x. mem s' x \<noteq> mem s x \<longrightarrow> unat x \<in> kernel_bytes K H \<and>
      (\<forall>i r. slab_in H i r \<longrightarrow> \<not> in_block 24 (sl_entry r) (unat x))" by (simp add: m)
  note w = mm_kernel_write [OF A(1) same this]
  show "user_inv K H S s'" using w(1,3) A(2) by (auto simp: user_inv_def user_room_def)
  show "user_va v \<Longrightarrow> uview s' v = uview s v" by (rule w(2))
qed

interpretation running: interrupted_memory "user_inv K H S" "\<lambda>va. user_va va \<and> va \<in> S" uview "vload8 K" "vstore8 K"
    "kernel_kept K H" "trap K" irq_frame
  for K H S
proof unfold_locales
  fix s tf assume inv: "user_inv K H S s" and tf: "irq_frame tf"
  from trap_irq [OF tf] obtain s' where s': "trap K tf s = Inr s'"
    "s' = s\<lparr>ticks := ticks s', kbd_flags := kbd_flags s', io := io s', console := console s'\<rparr>" by blast
  have eq: "mem s' = mem s" "pmmap s' = pmmap s" "memtotal s' = memtotal s" "pgdir s' = pgdir s" "cr3 s' = cr3 s"
    by (subst s'(2), simp)+
  note u = user_inv_same [OF inv eq]
  show "\<exists>s'. trap K tf s = Inr s' \<and> user_inv K H S s' \<and> kernel_kept K H s s' \<and>
      (\<forall>b. user_va b \<and> b \<in> S \<longrightarrow> uview s' b = uview s b)"
    using s'(1) u eq(1) by (auto simp: kernel_kept_def)
qed

text \<open>Every timer interrupt counts, and nothing else does.\<close>

primrec is_tick :: "(trapframe, 'a, 'v) label \<Rightarrow> bool" where
  "is_tick (Intr tf) \<longleftrightarrow> tf_trapno tf = 32"
| "is_tick (ReadOf a v) \<longleftrightarrow> False"
| "is_tick (WriteOf a v) \<longleftrightarrow> False"

lemma step_ticks:
  assumes inv: "user_inv K H S s" and l: "label_at irq_frame (\<lambda>va. user_va va \<and> va \<in> S) l"
    and st: "mem_step (trap K) (vload8 K) (vstore8 K) s l s'"
  shows "ticks s' = ticks s + of_bool (is_tick l)" and "curproc s' = curproc s"
proof -
  obtain A where A: "mm_inv K s A H" "user_room s A S" using inv by (auto simp: user_inv_def)
  have run: "ticks t = ticks s \<and> curproc t = curproc s" if "user_run K H S s A t A'" for t A'
    using user_runD(5) [OF that] by (elim exE) (erule ssubst, simp)
  have irq: "ticks t = ticks s + of_bool (tf_trapno tf = 32) \<and> curproc t = curproc s" if "irq_frame tf" "trap K tf s = Inr t" for tf t
    using trap_irq [OF that(1), of K s] that(2) by auto (erule ssubst, simp)
  have "ticks s' = ticks s + of_bool (is_tick l) \<and> curproc s' = curproc s"
  proof (cases l)
    case (Intr tf)
    then show ?thesis using irq l st by auto
  next
    case (ReadOf a v)
    then have a: "user_va a" "a \<in> S" "vload8 K a s = Inr (v, s')" using l st by auto
    show ?thesis by (rule mm_vload [OF A(1) a(1) A(2) a(2)]) (use a(3) run ReadOf in auto)
  next
    case (WriteOf a v)
    then have a: "user_va a" "a \<in> S" "vstore8 K a v s = Inr s'" using l st by auto
    show ?thesis by (rule mm_vstore [OF A(1) a(1) A(2) a(2), of v]) (use a(3) run WriteOf in auto)
  qed
  then show "ticks s' = ticks s + of_bool (is_tick l)" and "curproc s' = curproc s" by simp_all
qed

lemma runs_ticks:
  assumes "mem_runs (trap K) (vload8 K) (vstore8 K) s ls s'" and "user_inv K H S s"
    and "\<forall>l \<in> set ls. label_at irq_frame (\<lambda>va. user_va va \<and> va \<in> S) l"
  shows "ticks s' = ticks s + of_nat (length (filter is_tick ls)) \<and> curproc s' = curproc s"
  using assms
proof (induction rule: mem_runs.induct)
  case (runs_step s ls s1 l s2)
  then have "user_inv K H S s1" using running.runs_array [OF runs_step.hyps(1)] by simp
  from step_ticks [OF this _ runs_step.hyps(2)] runs_step show ?case by simp
qed simp

section \<open>The running process\<close>


lemma reads_current_cong:
  assumes "\<forall>l \<in> set ls. label_at I V l" and "\<And>b. V b \<Longrightarrow> u b = u' b"
  shows "reads_current ls u \<longleftrightarrow> reads_current ls u'"
  using assms
proof (induction ls arbitrary: u u')
  case (Cons l ls)
  have "label_effect l u b = label_effect l u' b" if "V b" for b using that Cons.prems by (cases l) auto
  then have "reads_current ls (label_effect l u) \<longleftrightarrow> reads_current ls (label_effect l u')" by (intro Cons.IH) (use Cons.prems in auto)
  moreover have "label_sees l u \<longleftrightarrow> label_sees l u'" using Cons.prems by (cases l) auto
  ultimately show ?case by simp
qed simp

text \<open>What the first process finds in its part of memory.\<close>

definition init_memory :: "uint64 \<Rightarrow> uint8" where
  "init_memory va = (if unat (va - USER_ADDR_START) < length initcode then initcode ! unat (va - USER_ADDR_START) else 0)"

definition init_va :: "uint64 set \<Rightarrow> uint64 \<Rightarrow> bool" where
  "init_va S va \<longleftrightarrow> user_va va \<and> PML4_IDX va = PML4_IDX USER_ADDR_START \<and> va \<in> S"

lemma label_at_mono: "label_at I V l \<Longrightarrow> (\<And>a. V a \<Longrightarrow> V' a) \<Longrightarrow> label_at I V' l"
  by (cases l) auto

lemma pages_room:
  assumes "finite P" and "card P \<le> 32 * n" and "n \<le> big_left A" and "(\<lambda>v. unat v div 4096) ` S \<subseteq> P"
  shows "user_room s A S"
proof -
  have "unmapped s S \<subseteq> P" using assms(4) by (auto simp: unmapped_def)
  then have "card (unmapped s S) \<le> card P" by (rule card_mono [OF assms(1)])
  moreover have "128 * big_left A \<le> pm_pages A" by (simp add: pm_pages_def big_left_def)
  ultimately show ?thesis using assms(2,3) unfolding user_room_def by linarith
qed


definition demo_frame :: "uint64 \<Rightarrow> trapframe" where
  "demo_frame n = \<lparr>tf_r15 = 0, tf_r14 = 0, tf_r13 = 0, tf_r12 = 0, tf_r11 = 0, tf_r10 = 0, tf_r9 = 0, tf_r8 = 0,
     tf_rbp = 0, tf_rdi = 0, tf_rsi = 0, tf_rdx = 0, tf_rcx = 0, tf_rbx = 0, tf_rax = 0, tf_trapno = n, tf_err = 0,
     tf_rip = 0, tf_cs = 0, tf_rflags = 0, tf_rsp = 0, tf_ss = 0\<rparr>"

definition demo_labels :: "uint8 \<Rightarrow> (trapframe, uint64, uint8) label list" where
  "demo_labels v = [ReadOf USER_ADDR_START v, Intr (demo_frame 32), WriteOf USER_ADDR_START 7, Intr (demo_frame 33),
     ReadOf USER_ADDR_START 7]"

lemma demo_labels_ok:
  "\<forall>l \<in> set (demo_labels v). label_at irq_frame (init_va {USER_ADDR_START}) l"
  "\<forall>l \<in> set (demo_labels v). label_at irq_frame (\<lambda>va. user_va va \<and> va \<in> {USER_ADDR_START}) l"
  "reads_current (demo_labels v) u \<longleftrightarrow> v = u USER_ADDR_START"
  by (auto simp: demo_labels_def demo_frame_def irq_frame_def init_va_def user_va_def USER_ADDR_START_def)



end
