(* ===== verification/Asm.thy ===== *)
theory Asm
  imports KernelRun Idt
begin

text \<open>
  The assembly of the kernel: the interrupt stubs of \<^verbatim>\<open>arch/x86/vectors.S\<close>, the context switch of
  \<^verbatim>\<open>arch/x86/swtch.S\<close> and the system-call entry of \<^verbatim>\<open>arch/x86/sys.S\<close>, executed instruction by instruction on the
  registers of the processor and the memory of the kernel.
\<close>

unbundle bit_operations_syntax

section \<open>The processor\<close>

datatype reg = RAX | RBX | RCX | RDX | RSI | RDI | RBP | RSP | R8 | R9 | R10 | R11 | R12 | R13 | R14 | R15

record cpu =
  regs :: "reg \<Rightarrow> uint64"
  cpu_rip :: uint64
  cpu_rflags :: uint64
  cpu_cs :: uint64
  cpu_ss :: uint64

type_synonym machine = "cpu \<times> kstate"

definition set_reg :: "reg \<Rightarrow> uint64 \<Rightarrow> cpu \<Rightarrow> cpu" where
  "set_reg r v c = c\<lparr>regs := (regs c)(r := v)\<rparr>"

text \<open>The kernel runs on identity-mapped memory, so its stack is at the addresses that the registers hold.\<close>

definition push :: "uint64 \<Rightarrow> machine \<Rightarrow> machine" where
  "push v m = (case m of (c, s) \<Rightarrow>
     (set_reg RSP (regs c RSP - 8) c, s\<lparr>mem := store64 (mem s) (regs c RSP - 8) v\<rparr>))"

definition pop :: "machine \<Rightarrow> uint64 \<times> machine" where
  "pop m = (case m of (c, s) \<Rightarrow> (load64 (mem s) (regs c RSP), (set_reg RSP (regs c RSP + 8) c, s)))"

text \<open>
  The status flags after an arithmetic instruction with result \<open>r\<close>: carry (bit 0), parity of the low byte (2),
  auxiliary carry (4), zero (6), sign (7) and overflow (11).
\<close>

definition flag :: "nat \<Rightarrow> bool \<Rightarrow> uint64" where "flag i b = (if b then push_bit i 1 else 0)"

definition status_flags :: "bool \<Rightarrow> bool \<Rightarrow> bool \<Rightarrow> uint64 \<Rightarrow> uint64 \<Rightarrow> uint64" where
  "status_flags cf af ovf r f =
     (f AND NOT 0x8D5) OR flag 0 cf OR flag 2 (even (length (filter (bit r) [0..<8]))) OR flag 4 af OR
     flag 6 (r = 0) OR flag 7 (bit r 63) OR flag 11 ovf"

text \<open>
  The instructions, in the operand order of the sources.  The auxiliary carry, which the manual leaves open after
  \<^verbatim>\<open>xor\<close>, is cleared.
\<close>

datatype instr =
  Movq reg reg | MovImm uint64 reg | Xorq reg reg | AddImm uint64 reg | Pushq reg | PushImm uint64 | Popq reg
| MovqTo reg reg | Rdmsr

fun exec1 :: "instr \<Rightarrow> machine \<Rightarrow> machine" where
  "exec1 (Movq a b) (c, s) = (set_reg b (regs c a) c, s)"
| "exec1 (MovImm v b) (c, s) = (set_reg b v c, s)"
| "exec1 (Xorq a b) (c, s) =
     (let r = regs c b XOR regs c a in ((set_reg b r c)\<lparr>cpu_rflags := status_flags False False False r (cpu_rflags c)\<rparr>, s))"
| "exec1 (AddImm v b) (c, s) =
     (let x = regs c b; r = x + v in
      ((set_reg b r c)\<lparr>cpu_rflags := status_flags (r < x) (bit (x XOR v XOR r) 4)
         (bit x 63 = bit v 63 \<and> bit r 63 \<noteq> bit x 63) r (cpu_rflags c)\<rparr>, s))"
| "exec1 (Pushq a) (c, s) = push (regs c a) (c, s)"
| "exec1 (PushImm v) m = push v m"
| "exec1 (Popq a) m = (let (v, (c, s)) = pop m in (set_reg a v c, s))"
| "exec1 (MovqTo a b) (c, s) = (c, s\<lparr>mem := store64 (mem s) (regs c b) (regs c a)\<rparr>)"
| "exec1 Rdmsr (c, s) =
     (let (lo, hi) = rdmsr (ucast (regs c RCX)) s in (set_reg RDX (ucast hi) (set_reg RAX (ucast lo) c), s))"

definition exec :: "instr list \<Rightarrow> machine \<Rightarrow> machine" where "exec is m = fold exec1 is m"

text \<open>\<^verbatim>\<open>call\<close> and \<^verbatim>\<open>ret\<close>; the address after the call is an argument.\<close>

definition call :: "uint64 \<Rightarrow> uint64 \<Rightarrow> machine \<Rightarrow> machine" where
  "call f after m = (let (c, s) = push after m in (c\<lparr>cpu_rip := f\<rparr>, s))"

definition ret :: "machine \<Rightarrow> machine" where
  "ret m = (let (v, (c, s)) = pop m in (c\<lparr>cpu_rip := v\<rparr>, s))"

text \<open>
  What a C function leaves in the registers when it has returned: the calling convention preserves \<^verbatim>\<open>rbx\<close>, \<^verbatim>\<open>rbp\<close>,
  \<^verbatim>\<open>rsp\<close> and \<^verbatim>\<open>r12\<close> to \<^verbatim>\<open>r15\<close>; what the others hold is up to the compiler, here \<open>w\<close>.
\<close>

definition callee_saved :: "reg \<Rightarrow> bool" where
  "callee_saved r \<longleftrightarrow> r \<in> {RBX, RBP, RSP, R12, R13, R14, R15}"

definition c_returned :: "(reg \<Rightarrow> uint64) \<Rightarrow> cpu \<Rightarrow> cpu" where
  "c_returned w c = c\<lparr>regs := (\<lambda>r. if callee_saved r then regs c r else w r)\<rparr>"

section \<open>vectors.S\<close>

text \<open>A stub supplies an error code of 0 where the processor pushes none, then the vector; it jumps to \<^verbatim>\<open>alltraps\<close>.\<close>

definition vector_code :: "nat \<Rightarrow> instr list" where
  "vector_code n = (if n \<in> {8, 10, 11, 12, 13, 14, 17} then [] else [PushImm 0]) @ [PushImm (of_nat n)]"

definition alltraps_code :: "instr list" where
  "alltraps_code =
     map Pushq [RAX, RBX, RCX, RDX, RSI, RDI, RBP, R8, R9, R10, R11, R12, R13, R14, R15] @ [Movq RSP RDI]"

definition trapret_code :: "instr list" where
  "trapret_code =
     map Popq [R15, R14, R13, R12, R11, R10, R9, R8, RBP, RDI, RSI, RDX, RCX, RBX, RAX] @ [AddImm 16 RSP]"

text \<open>\<^verbatim>\<open>struct trapframe\<close> in memory, the argument of \<^verbatim>\<open>trap\<close>.\<close>

definition load_trapframe :: "mem_t \<Rightarrow> uint64 \<Rightarrow> trapframe" where
  "load_trapframe m p =
     \<lparr>tf_r15 = load64 m p, tf_r14 = load64 m (p + 8), tf_r13 = load64 m (p + 16), tf_r12 = load64 m (p + 24),
      tf_r11 = load64 m (p + 32), tf_r10 = load64 m (p + 40), tf_r9 = load64 m (p + 48), tf_r8 = load64 m (p + 56),
      tf_rbp = load64 m (p + 64), tf_rdi = load64 m (p + 72), tf_rsi = load64 m (p + 80), tf_rdx = load64 m (p + 88),
      tf_rcx = load64 m (p + 96), tf_rbx = load64 m (p + 104), tf_rax = load64 m (p + 112),
      tf_trapno = load64 m (p + 120), tf_err = load64 m (p + 128), tf_rip = load64 m (p + 136),
      tf_cs = load64 m (p + 144), tf_rflags = load64 m (p + 152), tf_rsp = load64 m (p + 160), tf_ss = load64 m (p + 168)\<rparr>"

text \<open>
  The processor: an interrupt through an interrupt gate of \<^verbatim>\<open>idt.c\<close> loads the stack of the task state segment when
  it comes from a user program, aligns it, pushes the interrupted state and, for some exceptions, an error code, and
  goes on at the gate's address with interrupts off.  \<^verbatim>\<open>iretq\<close> is the way back.
\<close>

definition pushes_error :: "nat \<Rightarrow> bool" where
  "pushes_error n \<longleftrightarrow> n \<in> {8, 10, 11, 12, 13, 14, 17, 21, 29, 30}"

definition tss_rsp0 :: "klayout \<Rightarrow> mem_t \<Rightarrow> uint64" where "tss_rsp0 K m = load64 m (ts_at K + 4)"

definition intr_stack :: "klayout \<Rightarrow> machine \<Rightarrow> uint64" where
  "intr_stack K m = (case m of (c, s) \<Rightarrow>
     (if cpu_cs c AND 3 = 0 then regs c RSP else tss_rsp0 K (mem s)) AND NOT 15)"

definition deliver :: "klayout \<Rightarrow> nat \<Rightarrow> uint64 \<Rightarrow> machine \<Rightarrow> machine" where
  "deliver K n err m =
     (let (c, s) = m;
          gate = idtr_base s + 16 * of_nat n;
          m' = push (cpu_rip c) (push (cpu_cs c) (push (cpu_rflags c) (push (regs c RSP) (push (cpu_ss c)
            (set_reg RSP (intr_stack K (c, s)) c, s)))));
          (c', s') = (if pushes_error n then push err m' else m')
      in (c'\<lparr>cpu_rip := gate_offset (mem s) gate, cpu_cs := bf_get 16 16 (load64 (mem s) gate),
             cpu_ss := (if cpu_cs c AND 3 = 0 then cpu_ss c else 0), cpu_rflags := cpu_rflags c AND NOT 0x34300\<rparr>, s'))"

definition iretq :: "machine \<Rightarrow> machine" where
  "iretq m =
     (let (ip, m) = pop m; (sel, m) = pop m; (fl, m) = pop m; (sp, m) = pop m; (st, (c, s)) = pop m in
      ((set_reg RSP sp c)\<lparr>cpu_rip := ip, cpu_cs := sel, cpu_rflags := fl, cpu_ss := st\<rparr>, s))"

text \<open>
  One interrupt from its delivery to the return: the stub of the vector, \<^verbatim>\<open>alltraps\<close>, \<^verbatim>\<open>trap\<close> on the frame, \<^verbatim>\<open>trapret\<close>.
  \<open>trap_at\<close> and \<open>trapret_at\<close> are the addresses of the two labels, \<open>w\<close> is what \<^verbatim>\<open>trap\<close> leaves in the registers it may use.
\<close>

definition interrupt ::
    "klayout \<Rightarrow> uint64 \<Rightarrow> uint64 \<Rightarrow> (reg \<Rightarrow> uint64) \<Rightarrow> nat \<Rightarrow> uint64 \<Rightarrow> machine \<Rightarrow> machine kres" where
  "interrupt K trap_at trapret_at w n err m =
     (let (c, s) = call trap_at trapret_at (exec (vector_code n @ alltraps_code) (deliver K n err m)) in
      ebind (trap K (load_trapframe (mem s) (regs c RDI)) s) (\<lambda>s.
      Inr (iretq (exec trapret_code (ret (c_returned w c, s))))))"

section \<open>swtch.S\<close>

definition context_switch_code :: "instr list" where
  "context_switch_code =
     map Pushq [RBX, RBP, R12, R13, R14, R15] @ [MovqTo RSP RDI, Movq RSI RSP] @
     map Popq [R15, R14, R13, R12, RBP, RBX]"

text \<open>The call \<^verbatim>\<open>context_switch(old, new)\<close>, up to the instruction where the new context goes on.\<close>

definition context_switch :: "uint64 \<Rightarrow> uint64 \<Rightarrow> uint64 \<Rightarrow> uint64 \<Rightarrow> machine \<Rightarrow> machine" where
  "context_switch swtch_at after old new m =
     (let (c, s) = m in
      ret (exec context_switch_code (call swtch_at after (set_reg RSI new (set_reg RDI old c), s))))"

section \<open>sys.S\<close>

definition syscall_entry_code :: "instr list" where
  "syscall_entry_code =
     [Movq RCX R15, Movq RSP R14, Movq RAX R13, Movq RDX R12,
      Xorq RCX RCX, Xorq RAX RAX, MovImm 0x175 RCX, Rdmsr,
      Movq RAX RSP, Pushq R15, Pushq R14, Pushq R11,
      Movq R12 RDX, Movq R13 RAX, Movq R10 RCX, Pushq RAX]"

definition syscall_exit_code :: "instr list" where
  "syscall_exit_code = [AddImm 8 RSP, Popq R14, Popq R15, Popq R13]"

definition sysret_code :: "instr list" where
  "sysret_code = [Movq R13 R11, Movq R14 RSP, Movq R15 RCX]"

text \<open>The processor's instructions \<^verbatim>\<open>syscall\<close> and \<^verbatim>\<open>sysretq\<close>.\<close>

definition syscall_instr :: "machine \<Rightarrow> machine" where
  "syscall_instr m = (case m of (c, s) \<Rightarrow>
     let star = msrs s IA32_STAR in
     ((set_reg R11 (cpu_rflags c) (set_reg RCX (cpu_rip c) c))
        \<lparr>cpu_rip := msrs s IA32_LSTAR, cpu_rflags := cpu_rflags c AND NOT (msrs s IA32_SFMASK),
         cpu_cs := bf_get 32 16 star AND 0xFFFC, cpu_ss := bf_get 32 16 star + 8\<rparr>, s))"

definition sysretq :: "machine \<Rightarrow> machine" where
  "sysretq m = (case m of (c, s) \<Rightarrow>
     let star = bf_get 48 16 (msrs s IA32_STAR) in
     (c\<lparr>cpu_rip := regs c RCX, cpu_rflags := (regs c R11 AND 0x3C7FD7) OR 2,
        cpu_cs := (star + 16) OR 3, cpu_ss := (star + 8) OR 3\<rparr>, s))"

definition sysret :: "machine \<Rightarrow> machine" where "sysret m = sysretq (exec sysret_code m)"

text \<open>The way out of \<^verbatim>\<open>_syscall\<close>, as it would be taken if \<^verbatim>\<open>syscall\<close> returned.\<close>

definition syscall_exit :: "(reg \<Rightarrow> uint64) \<Rightarrow> machine \<Rightarrow> machine" where
  "syscall_exit w m = (let (c, s) = ret m in sysret (exec syscall_exit_code (c_returned w c, s)))"

section \<open>Words on a stack\<close>

lemma bytes_at_append: "bytes_at a (n + k) = bytes_at a n \<union> bytes_at (a + of_nat n) k"
proof -
  have "x \<in> (+) n ` {..<k}" if "x < n + k" "\<not> x < n" for x using that by (intro image_eqI [of _ _ "x - n"]) auto
  then have "{..<n + k} = {..<n} \<union> (+) n ` {..<k}" by auto
  then show ?thesis by (simp add: bytes_at_def image_Un image_image add.assoc)
qed

primrec quads_at :: "mem_t \<Rightarrow> uint64 \<Rightarrow> uint64 list \<Rightarrow> bool" where
  "quads_at m p [] \<longleftrightarrow> True"
| "quads_at m p (v # vs) \<longleftrightarrow> load64 m p = v \<and> quads_at m (p + 8) vs"

primrec push_words :: "mem_t \<Rightarrow> uint64 \<Rightarrow> uint64 list \<Rightarrow> mem_t" where
  "push_words m sp [] = m"
| "push_words m sp (v # vs) = push_words (store64 m (sp - 8) v) (sp - 8) vs"

lemma push_words_append: "push_words m sp (vs @ ws) = push_words (push_words m sp vs) (sp - 8 * of_nat (length vs)) ws"
  by (induction vs arbitrary: m sp) (simp_all add: algebra_simps)

lemma quads_at_append: "quads_at m p (vs @ ws) \<longleftrightarrow> quads_at m p vs \<and> quads_at m (p + 8 * of_nat (length vs)) ws"
  by (induction vs arbitrary: p) (simp_all add: algebra_simps)

lemma word_dist:
  assumes "8 \<le> k" and "k + 8 \<le> (18446744073709551616 :: nat)"
  shows "8 \<le> unat (of_nat k :: uint64)" and "8 \<le> unat (- of_nat k :: uint64)"
proof -
  have k: "unat (of_nat k :: uint64) = k" using assms(2) by (simp add: unat_of_nat)
  then show "8 \<le> unat (of_nat k :: uint64)" using assms(1) by simp
  have "(of_nat k :: uint64) \<noteq> 0" using k assms(1) by auto
  then show "8 \<le> unat (- of_nat k :: uint64)" using k assms(2) by (simp add: unat_uminus)
qed

lemma quads_at_store_below:
  assumes "8 * (k + length vs) + 8 \<le> 18446744073709551616" and "1 \<le> k"
  shows "quads_at (store64 m a v) (a + 8 * of_nat k) vs \<longleftrightarrow> quads_at m (a + 8 * of_nat k) vs"
  using assms
proof (induction vs arbitrary: k)
  case (Cons w vs)
  have d: "8 \<le> unat (of_nat (8 * k) :: uint64)" "8 \<le> unat (- of_nat (8 * k) :: uint64)"
    by (rule word_dist; use Cons.prems in simp)+
  then have "load64 (store64 m a v) (a + 8 * of_nat k) = load64 m (a + 8 * of_nat k)"
    by (intro quad_apart) simp_all
  moreover have "a + 8 * of_nat k + 8 = a + 8 * (of_nat (Suc k) :: uint64)" by (simp add: algebra_simps)
  ultimately show ?case using Cons.IH [of "Suc k"] Cons.prems(1) by (simp only: quads_at.simps) simp
qed simp

text \<open>What was pushed is found above the stack pointer, last word first.\<close>

lemma pushed_words:
  assumes "8 * length vs + 8 \<le> 18446744073709551616"
  shows "quads_at (push_words m sp vs) (sp - 8 * of_nat (length vs)) (rev vs)"
  using assms
proof (induction vs rule: rev_induct)
  case (snoc v vs)
  let ?a = "sp - 8 * of_nat (length (vs @ [v])) :: uint64"
  have a: "?a + 8 = sp - 8 * of_nat (length vs)" "sp - 8 * of_nat (length vs) - 8 = ?a" by (simp_all add: algebra_simps)
  have "quads_at (push_words m sp vs) (?a + 8 * of_nat 1) (rev vs)" using snoc a(1) by simp
  then have "quads_at (store64 (push_words m sp vs) ?a v) (?a + 8 * of_nat 1) (rev vs)"
    by (subst quads_at_store_below) (use snoc.prems in simp_all)
  then have "quads_at (store64 (push_words m sp vs) ?a v) (?a + 8) (rev vs)" by simp
  moreover have "push_words m sp (vs @ [v]) = store64 (push_words m sp vs) ?a v"
    unfolding push_words_append push_words.simps a(2) ..
  moreover have "rev (vs @ [v]) = v # rev vs" by simp
  ultimately show ?case by (simp only: quads_at.simps quad_cell.load_store simp_thms)
qed simp

lemma quads_at_local:
  assumes "\<forall>x \<in> bytes_at p (8 * length vs). m' x = m x"
  shows "quads_at m' p vs \<longleftrightarrow> quads_at m p vs"
  using assms
proof (induction vs arbitrary: p)
  case (Cons v vs)
  have "bytes_at p (8 * length (v # vs)) = bytes_at p 8 \<union> bytes_at (p + 8) (8 * length vs)"
    using bytes_at_append [of p 8 "8 * length vs"] by simp
  with Cons show ?case using quad_cell.load_local [of p m' m] by simp
qed simp

lemma push_words_outside:
  assumes "x \<notin> bytes_at (sp - 8 * of_nat (length vs)) (8 * length vs)"
  shows "push_words m sp vs x = m x"
  using assms
proof (induction vs arbitrary: m sp)
  case (Cons v vs)
  let ?a = "sp - 8 * of_nat (length (v # vs)) :: uint64"
  have "bytes_at ?a (8 * length vs + 8) = bytes_at ?a (8 * length vs) \<union> bytes_at (?a + of_nat (8 * length vs)) 8"
    by (rule bytes_at_append)
  moreover have "?a + of_nat (8 * length vs) = sp - 8" "sp - 8 - 8 * of_nat (length vs) = ?a" by (simp_all add: algebra_simps)
  ultimately show ?case using Cons.prems Cons.IH [of "sp - 8" "store64 m (sp - 8) v"]
    by (simp only: push_words.simps) (simp add: quad_cell.store_outside add.commute)
qed simp

section \<open>Runs of pushes and pops\<close>

lemma set_reg_simps [simp]:
  "regs (set_reg r v c) = (regs c)(r := v)" "cpu_rip (set_reg r v c) = cpu_rip c" "cpu_rflags (set_reg r v c) = cpu_rflags c"
  "cpu_cs (set_reg r v c) = cpu_cs c" "cpu_ss (set_reg r v c) = cpu_ss c"
  by (simp_all add: set_reg_def)

lemma exec_append: "exec (is @ js) m = exec js (exec is m)"
  by (simp add: exec_def)

lemma exec_Nil [simp]: "exec [] m = m" and exec_Cons [simp]: "exec (i # is) m = exec is (exec1 i m)"
  by (simp_all add: exec_def)

lemma exec_pushes:
  "RSP \<notin> set rs \<Longrightarrow> exec (map Pushq rs) (c, s) =
     (set_reg RSP (regs c RSP - 8 * of_nat (length rs)) c, s\<lparr>mem := push_words (mem s) (regs c RSP) (map (regs c) rs)\<rparr>)"
proof (induction rs arbitrary: c s)
  case (Cons r rs)
  have "map ((regs c)(RSP := v)) rs = map (regs c) rs" for v using Cons.prems by auto
  then show ?case using Cons by (simp add: push_def set_reg_def algebra_simps)
qed (simp add: set_reg_def)

lemma exec_pops:
  assumes "distinct rs" and "RSP \<notin> set rs" and "quads_at (mem s) (regs c RSP) (map f rs)"
  shows "exec (map Popq rs) (c, s) =
     (c\<lparr>regs := (\<lambda>r. if r = RSP then regs c RSP + 8 * of_nat (length rs) else if r \<in> set rs then f r else regs c r)\<rparr>, s)"
  using assms
proof (induction rs arbitrary: c)
  case Nil
  have "(\<lambda>r. if r = RSP then regs c RSP else regs c r) = regs c" by auto
  then show ?case by (simp add: fun_eq_iff)
next
  case (Cons q rs)
  let ?c = "set_reg q (f q) (set_reg RSP (regs c RSP + 8) c)"
  have "exec (map Popq (q # rs)) (c, s) = exec (map Popq rs) (?c, s)"
    using Cons.prems(3) by (simp add: pop_def)
  also have "\<dots> = (?c\<lparr>regs := (\<lambda>r. if r = RSP then regs ?c RSP + 8 * of_nat (length rs)
      else if r \<in> set rs then f r else regs ?c r)\<rparr>, s)"
    by (rule Cons.IH) (use Cons.prems in auto)
  also have "\<dots> = (c\<lparr>regs := (\<lambda>r. if r = RSP then regs c RSP + 8 * of_nat (length (q # rs))
      else if r \<in> set (q # rs) then f r else regs c r)\<rparr>, s)"
    using Cons.prems by (auto simp: set_reg_def algebra_simps fun_eq_iff)
  finally show ?case .
qed

section \<open>Interrupts\<close>

text \<open>The frame that \<^verbatim>\<open>trap\<close> should see for a processor interrupted in state \<open>c\<close>, and the order in which it is pushed.\<close>

definition frame_of :: "cpu \<Rightarrow> nat \<Rightarrow> uint64 \<Rightarrow> trapframe" where
  "frame_of c n e =
     \<lparr>tf_r15 = regs c R15, tf_r14 = regs c R14, tf_r13 = regs c R13, tf_r12 = regs c R12, tf_r11 = regs c R11,
      tf_r10 = regs c R10, tf_r9 = regs c R9, tf_r8 = regs c R8, tf_rbp = regs c RBP, tf_rdi = regs c RDI,
      tf_rsi = regs c RSI, tf_rdx = regs c RDX, tf_rcx = regs c RCX, tf_rbx = regs c RBX, tf_rax = regs c RAX,
      tf_trapno = of_nat n, tf_err = e, tf_rip = cpu_rip c, tf_cs = cpu_cs c, tf_rflags = cpu_rflags c,
      tf_rsp = regs c RSP, tf_ss = cpu_ss c\<rparr>"

definition saved_regs :: "reg list" where
  "saved_regs = [RAX, RBX, RCX, RDX, RSI, RDI, RBP, R8, R9, R10, R11, R12, R13, R14, R15]"

definition frame_words :: "cpu \<Rightarrow> nat \<Rightarrow> uint64 \<Rightarrow> uint64 list" where
  "frame_words c n e =
     [cpu_ss c, regs c RSP, cpu_rflags c, cpu_cs c, cpu_rip c, e, of_nat n] @ map (regs c) saved_regs"

definition error_of :: "nat \<Rightarrow> uint64 \<Rightarrow> uint64" where "error_of n err = (if pushes_error n then err else 0)"

lemma frame_words_length [simp]: "length (frame_words c n e) = 22"
  by (simp add: frame_words_def saved_regs_def)

lemma reg_in_saved: "r = RSP \<or> r \<in> set saved_regs"
  by (cases r) (simp_all add: saved_regs_def)

lemma saved_regs_distinct: "distinct saved_regs" "RSP \<notin> set saved_regs"
  by (simp_all add: saved_regs_def)

lemma frame_loads:
  assumes "quads_at m p (rev (frame_words c n e))"
  shows "load_trapframe m p = frame_of c n e"
  using assms by (simp add: frame_words_def saved_regs_def load_trapframe_def frame_of_def add.assoc)

text \<open>A gate of \<^verbatim>\<open>idt.c\<close> leads to the stub of its vector.\<close>

lemma deliver_reaches_stub:
  assumes "gate_ok (mem s) (idtr_base s + 16 * of_nat n) GDT_KCODE (vectors K n) False 0"
  shows "cpu_rip (fst (deliver K n err (c, s))) = vectors K n" and "cpu_cs (fst (deliver K n err (c, s))) = GDT_KCODE"
  using assms by (simp_all add: deliver_def gate_ok_def Let_def split: prod.splits)

text \<open>The stub and \<^verbatim>\<open>alltraps\<close> complete the frame, whether or not the processor pushed an error code.\<close>

lemma stub_frame:
  assumes "n \<notin> {21, 29, 30}"
  shows "\<exists>c'. exec (vector_code n @ alltraps_code) (deliver K n err (c, s)) =
      (c', s\<lparr>mem := push_words (mem s) (intr_stack K (c, s)) (frame_words c n (error_of n err))\<rparr>) \<and>
    regs c' RSP = intr_stack K (c, s) - 176 \<and> regs c' RDI = intr_stack K (c, s) - 176"
proof -
  define sp where "sp = intr_stack K (c, s)"
  define hw where "hw = [cpu_ss c, regs c RSP, cpu_rflags c, cpu_cs c, cpu_rip c, error_of n err, of_nat n]"
  obtain c1 where c1: "exec (vector_code n) (deliver K n err (c, s)) = (c1, s\<lparr>mem := push_words (mem s) sp hw\<rparr>)"
    "regs c1 = (regs c)(RSP := sp - 56)"
    using assms by (cases "pushes_error n")
      (auto simp: deliver_def vector_code_def Let_def push_def hw_def error_of_def pushes_error_def sp_def set_reg_def)
  have r: "map (regs c1) saved_regs = map (regs c) saved_regs" using saved_regs_distinct(2) by (auto simp: c1(2))
  have w: "frame_words c n (error_of n err) = hw @ map (regs c) saved_regs" by (simp add: frame_words_def hw_def)
  have l: "sp - 8 * of_nat (length hw) = sp - 56" "length saved_regs = 15" by (simp_all add: hw_def saved_regs_def)
  have "exec (vector_code n @ alltraps_code) (deliver K n err (c, s)) =
    exec [Movq RSP RDI] (exec (map Pushq saved_regs) (c1, s\<lparr>mem := push_words (mem s) sp hw\<rparr>))"
    unfolding alltraps_code_def saved_regs_def exec_append c1(1) ..
  also have "\<dots> = (set_reg RDI (sp - 176) (set_reg RSP (sp - 176) c1),
      s\<lparr>mem := push_words (mem s) sp (frame_words c n (error_of n err))\<rparr>)"
    unfolding exec_pushes [OF saved_regs_distinct(2)] w push_words_append l r by (simp add: c1(2) l)
  finally show ?thesis by (simp add: sp_def)
qed

lemma trapret_restores:
  assumes f: "quads_at (mem s) (regs c RSP) (rev (frame_words c0 n e))"
  shows "iretq (exec trapret_code (c, s)) = (c0, s)"
proof -
  let ?hw = "[of_nat n, e, cpu_rip c0, cpu_cs c0, cpu_rflags c0, regs c0 RSP, cpu_ss c0]"
  have fr: "rev (frame_words c0 n e) = map (regs c0) (rev saved_regs) @ ?hw" by (simp add: frame_words_def rev_map)
  have code: "trapret_code = map Popq (rev saved_regs) @ [AddImm 16 RSP]" by (simp add: trapret_code_def saved_regs_def)
  have d: "distinct (rev saved_regs)" "RSP \<notin> set (rev saved_regs)" using saved_regs_distinct by simp_all
  have w: "quads_at (mem s) (regs c RSP) (map (regs c0) (rev saved_regs))"
    and h: "quads_at (mem s) (regs c RSP + 120) ?hw"
    using f unfolding fr quads_at_append by (simp_all add: saved_regs_def)
  let ?r = "\<lambda>r. if r = RSP then regs c RSP + 8 * of_nat (length (rev saved_regs)) else if r \<in> set (rev saved_regs) then regs c0 r else regs c r"
  have r: "?r = (regs c0)(RSP := regs c RSP + 120)" using reg_in_saved by (auto simp: fun_eq_iff saved_regs_def)
  have "exec trapret_code (c, s) = exec1 (AddImm 16 RSP) (c\<lparr>regs := (regs c0)(RSP := regs c RSP + 120)\<rparr>, s)"
    unfolding code exec_append exec_pops [OF d w] r by simp
  then show ?thesis using h by (simp add: iretq_def pop_def set_reg_def Let_def add.assoc fun_upd_idem)
qed

lemma aligned_frame: "16 dvd unat ((x AND NOT 15) - 176 :: uint64)"
proof -
  have m: "(15 :: uint64) = mask 4" by (simp add: mask_eq_decr_exp)
  have "take_bit 4 (x AND NOT 15) = 0" unfolding m by (rule bit_word_eqI) (auto simp: bit_simps)
  then have "take_bit 4 (unat (x AND NOT 15)) = 0" by (simp only: unsigned_take_bit_eq [symmetric] unsigned_0)
  then have d: "16 dvd unat (x AND NOT 15)" unfolding take_bit_eq_mod by (simp only: dvd_eq_mod_eq_0) simp
  have "unat ((x AND NOT 15) - 176) = (if 176 \<le> unat (x AND NOT 15) then unat (x AND NOT 15) - 176
      else unat (x AND NOT 15) + 18446744073709551616 - 176)"
    by (simp only: unat_sub_if_size) (simp add: word_size)
  with d show ?thesis by presburger
qed

text \<open>An interrupt calls \<^verbatim>\<open>trap\<close> on the frame of the interrupted state, and goes on with that state if the frame is kept.\<close>

lemma interrupt_spec:
  assumes n: "n \<notin> {21, 29, 30}"
    and sp_def: "sp = intr_stack K (c, s)"
  obtains m1 where "\<And>x. x \<notin> bytes_at (sp - 184) 184 \<Longrightarrow> m1 x = mem s x"
    and "load_trapframe m1 (sp - 176) = frame_of c n (error_of n err)"
    and "\<And>e. trap K (frame_of c n (error_of n err)) (s\<lparr>mem := m1\<rparr>) = Inl e \<Longrightarrow>
      interrupt K trap_at trapret_at w n err (c, s) = Inl e"
    and "\<And>s'. trap K (frame_of c n (error_of n err)) (s\<lparr>mem := m1\<rparr>) = Inr s' \<Longrightarrow>
      \<forall>x \<in> bytes_at (sp - 176) 176. mem s' x = m1 x \<Longrightarrow>
      interrupt K trap_at trapret_at w n err (c, s) = Inr (c, s')"
proof -
  let ?fw = "frame_words c n (error_of n err)"
  define m1 where "m1 = push_words (mem s) sp (?fw @ [trapret_at])"
  obtain c1 where c1: "exec (vector_code n @ alltraps_code) (deliver K n err (c, s)) = (c1, s\<lparr>mem := push_words (mem s) sp ?fw\<rparr>)"
    "regs c1 RSP = sp - 176" "regs c1 RDI = sp - 176" using stub_frame [OF n, of K err c s] unfolding sp_def by blast
  let ?c2 = "(set_reg RSP (sp - 184) c1)\<lparr>cpu_rip := trap_at\<rparr>"
  have called: "call trap_at trapret_at (c1, s\<lparr>mem := push_words (mem s) sp ?fw\<rparr>) = (?c2, s\<lparr>mem := m1\<rparr>)"
    by (simp add: call_def push_def m1_def push_words_append c1(2))
  have "quads_at m1 (sp - 184) (trapret_at # rev ?fw)" using pushed_words [of "?fw @ [trapret_at]" "mem s" sp] by (simp add: m1_def)
  then have words: "quads_at m1 (sp - 176) (rev ?fw)" by simp
  note fr = frame_loads [OF words]
  have run: "interrupt K trap_at trapret_at w n err (c, s) =
      ebind (trap K (frame_of c n (error_of n err)) (s\<lparr>mem := m1\<rparr>))
        (\<lambda>s. Inr (iretq (exec trapret_code (ret (c_returned w ?c2, s)))))"
    unfolding interrupt_def c1(1) called by (simp add: c1(3) fr)
  have resumed: "iretq (exec trapret_code (ret (c_returned w ?c2, s'))) = (c, s')"
    if "\<forall>x \<in> bytes_at (sp - 176) 176. mem s' x = m1 x" for s'
  proof -
    let ?c3 = "fst (ret (c_returned w ?c2, s'))"
    have r: "ret (c_returned w ?c2, s') = (?c3, s')" "regs ?c3 RSP = sp - 176"
      by (simp_all add: ret_def pop_def c_returned_def callee_saved_def Let_def)
    have "quads_at (mem s') (sp - 176) (rev ?fw)" using words quads_at_local [of "sp - 176" "rev ?fw" "mem s'" m1] that by simp
    then show ?thesis using trapret_restores [of s' ?c3 c n "error_of n err"] r by simp
  qed
  have "m1 x = mem s x" if "x \<notin> bytes_at (sp - 184) 184" for x
    unfolding m1_def using that push_words_outside [of x sp "?fw @ [trapret_at]"] by simp
  with fr run resumed that [of m1] show thesis by simp
qed

text \<open>
  C15. Interrupts are transparent.  Whatever the interrupted program was doing, in user or in kernel mode, a gate as
  \<^verbatim>\<open>idt.c\<close> writes it leads to the stub of the vector; the stub and \<^verbatim>\<open>alltraps\<close> lay out exactly
  the \<^verbatim>\<open>struct trapframe\<close> that \<^verbatim>\<open>trap\<close> reads, on a stack aligned for the call and with nothing written outside its 184 bytes; if \<^verbatim>\<open>trap\<close> stops the kernel the interrupt does; and if it returns with the
  frame unchanged, \<^verbatim>\<open>trapret\<close> and \<^verbatim>\<open>iretq\<close> resume the program with every register, the flags, the selectors and the stack
  pointer as they were.  The timer and the keyboard always return so, and a timer interrupt counts one tick.  The three
  late exceptions whose error code the stubs do not expect are excluded.
\<close>

theorem interrupt_resumes:
  assumes "n \<notin> {21, 29, 30}"
  shows "(gate_ok (mem s) (idtr_base s + 16 * of_nat n) GDT_KCODE (vectors K n) False 0 \<longrightarrow>
      cpu_rip (fst (deliver K n err (c, s))) = vectors K n \<and> cpu_cs (fst (deliver K n err (c, s))) = GDT_KCODE) \<and>
    (\<exists>m1. (\<forall>x. x \<notin> bytes_at (intr_stack K (c, s) - 184) 184 \<longrightarrow> m1 x = mem s x) \<and>
    load_trapframe m1 (intr_stack K (c, s) - 176) = frame_of c n (error_of n err) \<and>
    16 dvd unat (intr_stack K (c, s) - 176) \<and>
    (\<forall>e. trap K (frame_of c n (error_of n err)) (s\<lparr>mem := m1\<rparr>) = Inl e \<longrightarrow>
      interrupt K trap_at trapret_at w n err (c, s) = Inl e) \<and>
    (\<forall>s'. trap K (frame_of c n (error_of n err)) (s\<lparr>mem := m1\<rparr>) = Inr s' \<longrightarrow>
      (\<forall>x \<in> bytes_at (intr_stack K (c, s) - 176) 176. mem s' x = m1 x) \<longrightarrow>
      interrupt K trap_at trapret_at w n err (c, s) = Inr (c, s')) \<and>
    (n = 32 \<or> n = 33 \<longrightarrow> (\<exists>s'. interrupt K trap_at trapret_at w n err (c, s) = Inr (c, s') \<and> mem s' = m1 \<and>
      ticks s' = ticks s + of_bool (n = 32))))"
proof -
  let ?sp = "intr_stack K (c, s)" and ?f = "frame_of c n (error_of n err)"
  obtain m1 where m1: "\<And>x. x \<notin> bytes_at (?sp - 184) 184 \<Longrightarrow> m1 x = mem s x"
    "load_trapframe m1 (?sp - 176) = ?f"
    "\<And>e. trap K ?f (s\<lparr>mem := m1\<rparr>) = Inl e \<Longrightarrow> interrupt K trap_at trapret_at w n err (c, s) = Inl e"
    "\<And>s'. trap K ?f (s\<lparr>mem := m1\<rparr>) = Inr s' \<Longrightarrow> \<forall>x \<in> bytes_at (?sp - 176) 176. mem s' x = m1 x \<Longrightarrow>
      interrupt K trap_at trapret_at w n err (c, s) = Inr (c, s')"
    by (rule interrupt_spec [OF assms refl, of K c s err trap_at trapret_at w]) (rule that; assumption)
  have al: "16 dvd unat (?sp - 176)" unfolding intr_stack_def prod.case by (rule aligned_frame)
  have irq: "\<exists>s'. interrupt K trap_at trapret_at w n err (c, s) = Inr (c, s') \<and> mem s' = m1 \<and>
      ticks s' = ticks s + of_bool (n = 32)" if "n = 32 \<or> n = 33"
  proof -
    have t: "tf_trapno ?f = of_nat n" by (simp add: frame_of_def)
    then have "irq_frame ?f" using that by (auto simp: irq_frame_def)
    from trap_irq [OF this, of K "s\<lparr>mem := m1\<rparr>"] obtain s' where
      s': "trap K ?f (s\<lparr>mem := m1\<rparr>) = Inr s'" "ticks s' = ticks s + of_bool (tf_trapno ?f = 32)"
      "s' = s\<lparr>mem := m1\<rparr>\<lparr>ticks := ticks s', kbd_flags := kbd_flags s', io := io s', console := console s'\<rparr>" by auto
    have "mem s' = m1" by (subst s'(3)) simp
    moreover have "tf_trapno ?f = 32 \<longleftrightarrow> n = 32" using that by (auto simp: t)
    ultimately show ?thesis using m1(4) [OF s'(1)] s'(2) by simp
  qed
  show ?thesis
    by (rule conjI, use deliver_reaches_stub in blast, rule exI [of _ m1], intro conjI allI impI)
      (use m1 al irq in \<open>assumption | simp\<close>)+
qed

definition demo_cpu :: cpu where
  "demo_cpu = \<lparr>regs = (\<lambda>r. if r = RSP then 0x10000001000 else if r = RAX then 7 else 0), cpu_rip = 0x10000000016,
     cpu_rflags = 0x202, cpu_cs = 0x2B, cpu_ss = 0x23\<rparr>"

theorem interrupt_resumes_witness:
  "\<exists>s'. interrupt demo_layout 0x101000 0x102000 (\<lambda>_. 99) 32 0 (demo_cpu, demo_state) = Inr (demo_cpu, s') \<and> ticks s' = 1"
  using interrupt_resumes [of 32 demo_state demo_layout 0 demo_cpu "0x101000" "0x102000" "\<lambda>_. 99"]
  by (auto simp: demo_state_def)

section \<open>Context switches\<close>

definition context_regs :: "reg list" where "context_regs = [R15, R14, R13, R12, RBP, RBX]"

text \<open>The words of a \<^verbatim>\<open>context_t\<close>.\<close>

definition context_words :: "(reg \<Rightarrow> uint64) \<Rightarrow> uint64 \<Rightarrow> uint64 list" where
  "context_words f ip = map f context_regs @ [ip]"

lemma context_regs_facts [simp]: "distinct context_regs" "RSP \<notin> set context_regs" "length context_regs = 6"
  "RDI \<notin> set context_regs" "RSI \<notin> set context_regs"
  by (simp_all add: context_regs_def)

lemma context_switch_eq:
  assumes sp: "sp = regs c RSP - 56"
    and m1: "m1 = store64 (push_words (mem s) (regs c RSP) (rev (context_words (regs c) after))) old sp"
    and new: "quads_at m1 new (context_words f ip)"
  shows "\<exists>c'. context_switch swtch_at after old new (c, s) = (c', s\<lparr>mem := m1\<rparr>) \<and>
    cpu_rip c' = ip \<and> regs c' RSP = new + 56 \<and> (\<forall>r \<in> set context_regs. regs c' r = f r) \<and>
    cpu_rflags c' = cpu_rflags c \<and> cpu_cs c' = cpu_cs c \<and> cpu_ss c' = cpu_ss c"
proof -
  let ?c = "set_reg RSI new (set_reg RDI old c)" and ?sp = "regs c RSP"
  let ?c1 = "(set_reg RSP (?sp - 8) ?c)\<lparr>cpu_rip := swtch_at\<rparr>"
  have m0: "map (regs ?c1) (rev context_regs) = map (regs c) (rev context_regs)" by (auto simp: context_regs_def)
  have w: "rev (context_words (regs c) after) = [after] @ map (regs c) (rev context_regs)"
    by (simp add: context_words_def rev_map)
  have r0: "RSP \<notin> set (rev context_regs)" by simp
  have code: "context_switch_code = map Pushq (rev context_regs) @ [MovqTo RSP RDI, Movq RSI RSP] @ map Popq context_regs"
    by (simp add: context_switch_code_def context_regs_def)
  have called: "call swtch_at after (?c, s) = (?c1, s\<lparr>mem := push_words (mem s) ?sp [after]\<rparr>)"
    by (simp add: call_def push_def)
  have l: "?sp - 8 * of_nat (length [after]) = ?sp - 8" by simp
  have pushed: "exec [MovqTo RSP RDI, Movq RSI RSP] (exec (map Pushq (rev context_regs)) (?c1, s\<lparr>mem := push_words (mem s) ?sp [after]\<rparr>)) =
      (set_reg RSP new ?c1, s\<lparr>mem := m1\<rparr>)"
    unfolding exec_pushes [OF r0] m0 m1 w push_words_append l sp by (simp add: set_reg_def)
  have nw: "quads_at (mem (s\<lparr>mem := m1\<rparr>)) (regs (set_reg RSP new ?c1) RSP) (map f context_regs)" "load64 m1 (new + 48) = ip"
    using new by (simp_all add: context_words_def quads_at_append)
  let ?c2 = "set_reg RSP new ?c1"
  let ?r = "\<lambda>r. if r = RSP then regs ?c2 RSP + 8 * of_nat (length context_regs) else if r \<in> set context_regs then f r else regs ?c2 r"
  have "exec context_switch_code (call swtch_at after (?c, s)) = (?c2\<lparr>regs := ?r\<rparr>, s\<lparr>mem := m1\<rparr>)"
    unfolding code exec_append called pushed by (rule exec_pops) (use nw(1) in simp_all)
  then show ?thesis using nw(2) by (auto simp: context_switch_def ret_def pop_def)
qed

text \<open>Six words and an address can be read from any memory, so the switch always has the effect above.\<close>

lemma context_exists: "\<exists>f ip. quads_at m p (context_words f ip)"
proof -
  let ?f = "\<lambda>r. if r = R15 then load64 m p else if r = R14 then load64 m (p + 8) else if r = R13 then load64 m (p + 16)
    else if r = R12 then load64 m (p + 24) else if r = RBP then load64 m (p + 32) else load64 m (p + 40)"
  have "quads_at m p (context_words ?f (load64 m (p + 48)))" by (simp add: context_words_def context_regs_def add.assoc)
  then show ?thesis by blast
qed

lemma context_switch_mem:
  "\<exists>c'. context_switch swtch_at after old new (c, s) =
     (c', s\<lparr>mem := store64 (push_words (mem s) (regs c RSP) (rev (context_words (regs c) after))) old (regs c RSP - 56)\<rparr>)"
proof -
  let ?m1 = "store64 (push_words (mem s) (regs c RSP) (rev (context_words (regs c) after))) old (regs c RSP - 56)"
  obtain f ip where "quads_at ?m1 new (context_words f ip)" using context_exists by blast
  from context_switch_eq [OF refl refl this] show ?thesis by blast
qed

lemma context_words_length [simp]: "length (context_words f ip) = 7"
  by (simp add: context_words_def)

lemma callee_saved_context: "callee_saved r \<longleftrightarrow> r = RSP \<or> r \<in> set context_regs"
  by (cases r) (simp_all add: callee_saved_def context_regs_def)

text \<open>After the switch the context of the caller is on its stack, and \<open>*old\<close> points to it.\<close>

lemma context_saved:
  assumes sw: "context_switch swtch_at after old new (c, s) = (c1, s1)"
    and apart: "bytes_at old 8 \<inter> bytes_at (regs c RSP - 56) 56 = {}"
  shows "load64 (mem s1) old = regs c RSP - 56" and "quads_at (mem s1) (regs c RSP - 56) (context_words (regs c) after)"
    and "x \<notin> bytes_at old 8 \<Longrightarrow> x \<notin> bytes_at (regs c RSP - 56) 56 \<Longrightarrow> mem s1 x = mem s x"
    and "s1 = s\<lparr>mem := mem s1\<rparr>"
proof -
  let ?w = "rev (context_words (regs c) after)" and ?sp = "regs c RSP"
  have m: "s1 = s\<lparr>mem := store64 (push_words (mem s) ?sp ?w) old (?sp - 56)\<rparr>"
    using context_switch_mem [of swtch_at after old new c s] sw by auto
  then show "load64 (mem s1) old = ?sp - 56" and "s1 = s\<lparr>mem := mem s1\<rparr>" by (simp_all add: quad_cell.load_store)
  have w: "quads_at (push_words (mem s) ?sp ?w) (?sp - 56) (context_words (regs c) after)"
    using pushed_words [of ?w "mem s" ?sp] by simp
  have "\<forall>x \<in> bytes_at (?sp - 56) (8 * length (context_words (regs c) after)). mem s1 x = push_words (mem s) ?sp ?w x"
    using apart by (auto simp: m intro!: quad_cell.store_outside)
  then show "quads_at (mem s1) (?sp - 56) (context_words (regs c) after)" using w quads_at_local by blast
  show "mem s1 x = mem s x" if "x \<notin> bytes_at old 8" "x \<notin> bytes_at (?sp - 56) 56"
    using that push_words_outside [of x ?sp ?w "mem s"] by (simp add: m quad_cell.store_outside)
qed

text \<open>
  C16. A process that is switched away from is resumed as it was.  Let it call \<^verbatim>\<open>context_switch\<close> with \<^verbatim>\<open>&old->context\<close>; then
  \<^verbatim>\<open>old->context\<close> points to a \<^verbatim>\<open>context_t\<close> on its kernel stack.  Whatever runs in between, if it leaves these 56 bytes and the
  pointer alone, and another context later switches to \<^verbatim>\<open>old->context\<close> from a stack of its own, then the process goes on
  right after its call, with its stack pointer and all registers that the calling convention preserves.
\<close>

theorem context_switch_resumes:
  assumes away: "context_switch swtch_at after old new (c, s) = (c1, s1)"
    and kept: "\<forall>x \<in> bytes_at (regs c RSP - 56) 56 \<union> bytes_at old 8. mem s2 x = mem s1 x"
    and "bytes_at old 8 \<inter> bytes_at (regs c RSP - 56) 56 = {}"
    and "bytes_at old2 8 \<inter> bytes_at (regs c RSP - 56) 56 = {}"
    and "bytes_at (regs c2 RSP - 56) 56 \<inter> bytes_at (regs c RSP - 56) 56 = {}"
    and "bytes_at old2 8 \<inter> bytes_at (regs c2 RSP - 56) 56 = {}"
  shows "\<exists>c3 s3. context_switch swtch_at after2 old2 (load64 (mem s2) old) (c2, s2) = (c3, s3) \<and>
    cpu_rip c3 = after \<and> (\<forall>r. callee_saved r \<longrightarrow> regs c3 r = regs c r) \<and>
    load64 (mem s3) old2 = regs c2 RSP - 56 \<and>
    (\<forall>x. x \<notin> bytes_at old2 8 \<longrightarrow> x \<notin> bytes_at (regs c2 RSP - 56) 56 \<longrightarrow> mem s3 x = mem s2 x)"
proof -
  let ?sp = "regs c RSP" and ?sp2 = "regs c2 RSP"
  note a = context_saved [OF away assms(3)]
  have new: "load64 (mem s2) old = ?sp - 56" using a(1) kept quad_cell.load_local [of old "mem s2" "mem s1"] by simp
  define m3 where "m3 = store64 (push_words (mem s2) ?sp2 (rev (context_words (regs c2) after2))) old2 (?sp2 - 56)"
  obtain c3' where c3': "context_switch swtch_at after2 old2 (?sp - 56) (c2, s2) = (c3', s2\<lparr>mem := m3\<rparr>)"
    unfolding m3_def using context_switch_mem by blast
  note b = context_saved [OF c3' assms(6)]
  have "\<forall>x \<in> bytes_at (?sp - 56) (8 * length (context_words (regs c) after)). m3 x = mem s1 x"
    using b(3) kept assms(4,5) by force
  then have "quads_at m3 (?sp - 56) (context_words (regs c) after)" using a(2) quads_at_local by blast
  from context_switch_eq [OF refl m3_def this, of swtch_at] obtain c3 where
    c3: "context_switch swtch_at after2 old2 (?sp - 56) (c2, s2) = (c3, s2\<lparr>mem := m3\<rparr>)" "cpu_rip c3 = after"
    "regs c3 RSP = ?sp" "\<forall>r \<in> set context_regs. regs c3 r = regs c r" by auto
  then have "\<forall>r. callee_saved r \<longrightarrow> regs c3 r = regs c r" by (simp add: callee_saved_context)
  then show ?thesis unfolding new using c3(1,2) b(1,3) by auto
qed

theorem context_switch_resumes_witness:
  "\<exists>c3 s3. context_switch 0x104000 0x105004 0x500018
      (load64 (mem (snd (context_switch 0x104000 0x105000 0x500000 0x700000 (demo_cpu\<lparr>regs := (\<lambda>_. 0x600400)\<rparr>, demo_state)))) 0x500000)
      (demo_cpu\<lparr>regs := (\<lambda>_. 0x700400)\<rparr>,
       snd (context_switch 0x104000 0x105000 0x500000 0x700000 (demo_cpu\<lparr>regs := (\<lambda>_. 0x600400)\<rparr>, demo_state))) = (c3, s3) \<and>
    cpu_rip c3 = 0x105000 \<and> regs c3 RSP = 0x600400"
proof -
  let ?c = "demo_cpu\<lparr>regs := (\<lambda>_. 0x600400)\<rparr>" and ?c2 = "demo_cpu\<lparr>regs := (\<lambda>_. 0x700400)\<rparr>"
  obtain c1 s1 where sw: "context_switch 0x104000 0x105000 0x500000 0x700000 (?c, demo_state) = (c1, s1)" by (rule prod.exhaust)
  have d: "bytes_at 0x500000 8 \<inter> bytes_at (regs ?c RSP - 56) 56 = {}" "bytes_at 0x500018 8 \<inter> bytes_at (regs ?c RSP - 56) 56 = {}"
    "bytes_at (regs ?c2 RSP - 56) 56 \<inter> bytes_at (regs ?c RSP - 56) 56 = {}"
    "bytes_at 0x500018 8 \<inter> bytes_at (regs ?c2 RSP - 56) 56 = {}"
    by (rule bytes_at_disjointI; simp)+
  have "\<forall>x \<in> bytes_at (regs ?c RSP - 56) 56 \<union> bytes_at 0x500000 8. mem s1 x = mem s1 x" by simp
  from context_switch_resumes [OF sw this d, of "0x105004"] show ?thesis by (auto simp: sw callee_saved_def)
qed

section \<open>System calls\<close>

text \<open>The stack that \<^verbatim>\<open>rdmsr\<close> delivers in \<^verbatim>\<open>rax\<close>: the low half of the register.\<close>

definition entry_stack :: "kstate \<Rightarrow> uint64" where
  "entry_stack s = ucast (ucast (msrs s IA32_SYSENTER_ESP) :: uint32)"

lemma entry_stack_low:
  assumes "unat (msrs s IA32_SYSENTER_ESP) < 4294967296"
  shows "entry_stack s = msrs s IA32_SYSENTER_ESP"
proof -
  have "take_bit 32 (unat (msrs s IA32_SYSENTER_ESP)) = unat (msrs s IA32_SYSENTER_ESP)"
    using assms by (simp add: take_bit_nat_eq_self_iff)
  then show ?thesis by (simp add: entry_stack_def word_unat_eq_iff unsigned_ucast_eq unsigned_take_bit_eq)
qed

text \<open>From the first instruction of \<^verbatim>\<open>_syscall\<close> to the first of the C function \<^verbatim>\<open>syscall\<close>.\<close>

definition enter_syscall :: "uint64 \<Rightarrow> uint64 \<Rightarrow> machine \<Rightarrow> machine" where
  "enter_syscall f after m = call f after (exec syscall_entry_code m)"

lemma enter_syscall_eq:
  "\<exists>c'. enter_syscall f after (c, s) =
     (c', s\<lparr>mem := push_words (mem s) (entry_stack s) [regs c RCX, regs c RSP, regs c R11, regs c RAX, after]\<rparr>) \<and>
     regs c' RDI = regs c RDI \<and> regs c' RSI = regs c RSI \<and> regs c' RDX = regs c RDX \<and> regs c' RCX = regs c R10 \<and>
     regs c' R8 = regs c R8 \<and> regs c' R9 = regs c R9 \<and> regs c' RSP = entry_stack s - 40 \<and> cpu_rip c' = f"
  by (simp add: enter_syscall_def syscall_entry_code_def call_def push_def rdmsr_def Let_def entry_stack_def
      IA32_SYSENTER_ESP_def set_reg_def)

text \<open>The arguments of a C function with seven integer parameters.\<close>

definition c_args7 :: "machine \<Rightarrow> uint64 list" where
  "c_args7 m = (case m of (c, s) \<Rightarrow>
     [regs c RDI, regs c RSI, regs c RDX, regs c RCX, regs c R8, regs c R9, load64 (mem s) (regs c RSP + 8)])"

lemma enter_syscall_spec:
  obtains c1 s1 where "enter_syscall f after (c, s) = (c1, s1)" and "cpu_rip c1 = f" and "regs c1 RSP = entry_stack s - 40"
    and "c_args7 (c1, s1) = map (regs c) [RDI, RSI, RDX, R10, R8, R9, RAX]"
    and "quads_at (mem s1) (entry_stack s - 40) [after, regs c RAX, regs c R11, regs c RSP, regs c RCX]"
    and "\<And>x. x \<notin> bytes_at (entry_stack s - 40) 40 \<Longrightarrow> mem s1 x = mem s x"
proof -
  let ?sp = "entry_stack s" and ?w = "[regs c RCX, regs c RSP, regs c R11, regs c RAX, after]"
  define s1 where "s1 = s\<lparr>mem := push_words (mem s) ?sp ?w\<rparr>"
  from enter_syscall_eq [of f after c s] obtain c1 where c1: "enter_syscall f after (c, s) = (c1, s1)"
    "regs c1 RDI = regs c RDI" "regs c1 RSI = regs c RSI" "regs c1 RDX = regs c RDX" "regs c1 RCX = regs c R10"
    "regs c1 R8 = regs c R8" "regs c1 R9 = regs c R9" "regs c1 RSP = ?sp - 40" "cpu_rip c1 = f"
    unfolding s1_def by auto
  have w: "quads_at (mem s1) (?sp - 40) [after, regs c RAX, regs c R11, regs c RSP, regs c RCX]"
    using pushed_words [of ?w "mem s" ?sp] by (simp add: s1_def)
  moreover have "c_args7 (c1, s1) = map (regs c) [RDI, RSI, RDX, R10, R8, R9, RAX]" using w by (simp add: c_args7_def c1)
  moreover have "mem s1 x = mem s x" if "x \<notin> bytes_at (?sp - 40) 40" for x
    using that push_words_outside [of x ?sp ?w] by (simp add: s1_def)
  ultimately show thesis using c1(1,8,9) that by blast
qed

text \<open>
  C17. A system call.  \<^verbatim>\<open>_syscall\<close> calls \<^verbatim>\<open>syscall\<close> on the stack of \<^verbatim>\<open>IA32_SYSENTER_ESP\<close>, of which it takes the low 32 bits, with
  the six arguments of the user program and the number in \<^verbatim>\<open>rax\<close> as the seventh, and writes 40 bytes of that stack.  Its
  way back would not work: it pops the three saved registers in the wrong order, so that if \<^verbatim>\<open>syscall\<close> returned with its
  stack as it found it, the user program would go on at the address in its stack pointer, with its flags as stack
  pointer and its instruction pointer as flags.
\<close>

theorem syscall_entry_exit:
  "\<exists>c1 s1. enter_syscall f after (syscall_instr (c, s)) = (c1, s1) \<and> cpu_rip c1 = f \<and>
    c_args7 (c1, s1) = map (regs c) [RDI, RSI, RDX, R10, R8, R9, RAX] \<and>
    regs c1 RSP = entry_stack s - 40 \<and> (\<forall>x. x \<notin> bytes_at (entry_stack s - 40) 40 \<longrightarrow> mem s1 x = mem s x) \<and>
    (unat (msrs s IA32_SYSENTER_ESP) < 4294967296 \<longrightarrow> entry_stack s = msrs s IA32_SYSENTER_ESP) \<and>
    (\<forall>s2 w. (\<forall>x \<in> bytes_at (entry_stack s - 40) 40. mem s2 x = mem s1 x) \<longrightarrow>
      (case syscall_exit w (c1, s2) of (c2, s3) \<Rightarrow> cpu_rip c2 = regs c RSP \<and> regs c2 RSP = cpu_rflags c \<and>
        cpu_rflags c2 = (cpu_rip c AND 0x3C7FD7) OR 2 \<and> s3 = s2))"
proof -
  let ?sp = "entry_stack s" and ?w = "[after, regs c RAX, cpu_rflags c, regs c RSP, cpu_rip c]"
  obtain c0 where i: "syscall_instr (c, s) = (c0, s)" "regs c0 = (regs c)(RCX := cpu_rip c, R11 := cpu_rflags c)"
    by (simp add: syscall_instr_def Let_def)
  obtain c1 s1 where c1: "enter_syscall f after (c0, s) = (c1, s1)" "cpu_rip c1 = f" "regs c1 RSP = ?sp - 40"
    "c_args7 (c1, s1) = map (regs c0) [RDI, RSI, RDX, R10, R8, R9, RAX]"
    "quads_at (mem s1) (?sp - 40) [after, regs c0 RAX, regs c0 R11, regs c0 RSP, regs c0 RCX]"
    "\<And>x. x \<notin> bytes_at (?sp - 40) 40 \<Longrightarrow> mem s1 x = mem s x"
    by (rule enter_syscall_spec [of f after c0 s]) blast
  have w: "quads_at (mem s1) (?sp - 40) ?w" using c1(5) by (simp add: i(2))
  have exit: "case syscall_exit v (c1, s2) of (c2, s3) \<Rightarrow> cpu_rip c2 = regs c RSP \<and> regs c2 RSP = cpu_rflags c \<and>
        cpu_rflags c2 = (cpu_rip c AND 0x3C7FD7) OR 2 \<and> s3 = s2"
    if "\<forall>x \<in> bytes_at (?sp - 40) 40. mem s2 x = mem s1 x" for s2 v
  proof -
    have "quads_at (mem s2) (?sp - 40) ?w" using w quads_at_local [of "?sp - 40" ?w "mem s2" "mem s1"] that by simp
    then show ?thesis
      by (simp add: syscall_exit_def ret_def pop_def c_returned_def callee_saved_def c1(3) syscall_exit_code_def sysret_def
          sysret_code_def sysretq_def set_reg_def Let_def add.assoc)
  qed
  have "c_args7 (c1, s1) = map (regs c) [RDI, RSI, RDX, R10, R8, R9, RAX]" using c1(4) by (simp add: i(2))
  then show ?thesis unfolding i(1) using c1(1-3,6) entry_stack_low exit by blast
qed

theorem syscall_entry_exit_witness:
  "\<exists>c1 s1. enter_syscall 0x106000 0x107000 (syscall_instr (demo_cpu, demo_state)) = (c1, s1) \<and>
    c_args7 (c1, s1) = [0, 0, 0, 0, 0, 0, 7] \<and> cpu_rip (fst (syscall_exit (\<lambda>_. 99) (c1, s1))) = 0x10000001000"
proof -
  have ip: "regs demo_cpu RSP = 0x10000001000" "map (regs demo_cpu) [RDI, RSI, RDX, R10, R8, R9, RAX] = [0, 0, 0, 0, 0, 0, 7]"
    by (simp_all add: demo_cpu_def)
  from syscall_entry_exit [of "0x106000" "0x107000" demo_cpu demo_state] obtain c1 s1 where
    c1: "enter_syscall 0x106000 0x107000 (syscall_instr (demo_cpu, demo_state)) = (c1, s1)"
    "c_args7 (c1, s1) = [0, 0, 0, 0, 0, 0, 7]"
    "\<forall>s2 w. (\<forall>x \<in> bytes_at (entry_stack demo_state - 40) 40. mem s2 x = mem s1 x) \<longrightarrow>
      (case syscall_exit w (c1, s2) of (c2, s3) \<Rightarrow> cpu_rip c2 = 0x10000001000 \<and> regs c2 RSP = cpu_rflags demo_cpu \<and>
        cpu_rflags c2 = (cpu_rip demo_cpu AND 0x3C7FD7) OR 2 \<and> s3 = s2)"
    unfolding ip by blast
  have "cpu_rip (fst (syscall_exit (\<lambda>_. 99) (c1, s1))) = 0x10000001000"
    using c1(3) [rule_format, of s1 "\<lambda>_. 99"] by (simp add: split_beta)
  with c1(1,2) show ?thesis by blast
qed

end
