(* ===== verification/FirstProc.thy ===== *)
theory FirstProc
  imports Asm
begin

text \<open>
  The way into the first user program and back into the kernel: the descriptor table and the entry code of
  \<^verbatim>\<open>arch/x86/entry.S\<close>, the bytes of \<^verbatim>\<open>initcode\<close> in \<^verbatim>\<open>arch/x86/proc.c\<close> as instructions (\<^verbatim>\<open>arch/x86/initcode.S\<close>), and the
  first system call.
\<close>

unbundle bit_operations_syntax

section \<open>entry.S\<close>

definition gdt :: "uint64 list" where
  "gdt = [0x0000000000000000, 0x00af9a000000ffff, 0x00cf92000000ffff, 0x0000000000000000, 0x00cff2000000ffff,
          0x00affa000000ffff, 0x0000000000000000, 0x0000000000000000]"

text \<open>
  The descriptor that a selector names, and what the processor requires of a 64-bit code segment and of a data segment
  of privilege level \<open>dpl\<close>: present, not a system segment, executable with the long bit, or writable.
\<close>

definition segment :: "uint64 \<Rightarrow> uint64" where "segment sel = gdt ! unat (drop_bit 3 sel)"

definition code64 :: "uint64 \<Rightarrow> uint64 \<Rightarrow> bool" where
  "code64 dpl d \<longleftrightarrow> bf_get 47 1 d = 1 \<and> bf_get 45 2 d = dpl \<and> bf_get 43 2 d = 3 \<and> bf_get 53 2 d = 1"

definition data_segment :: "uint64 \<Rightarrow> uint64 \<Rightarrow> bool" where
  "data_segment dpl d \<longleftrightarrow> bf_get 47 1 d = 1 \<and> bf_get 45 2 d = dpl \<and> bf_get 43 2 d = 2 \<and> bf_get 41 1 d = 1"

text \<open>
  \<^verbatim>\<open>_entry\<close>, after \<^verbatim>\<open>lgdt\<close>: the segment registers, the far return that loads \<^verbatim>\<open>cs\<close>, the registers, and \<^verbatim>\<open>boot_info\<close> from the
  register of the loader's calling convention to that of the kernel's.
\<close>

definition entry_code :: "instr list" where
  "entry_code =
     [Pushq RCX, Xorq RAX RAX] @
     map (Movq RAX) [RBX, RCX, RDX, RSI, RDI, R8, R9, R10, R11, R12, R13, R14, R15] @ [Popq RDI]"

definition entry :: "uint64 \<Rightarrow> uint64 \<Rightarrow> machine \<Rightarrow> machine" where
  "entry ret_label stub_at m =
     (let (c, s) = m;
          m = push ret_label (push 0x8 (c\<lparr>cpu_ss := 0x10\<rparr>, s));
          (ip, m) = pop m; (sel, (c, s)) = pop m;
          (c, s) = exec entry_code (c\<lparr>cpu_rip := ip, cpu_cs := sel\<rparr>, s)
      in (c\<lparr>cpu_rip := stub_at\<rparr>, s))"

lemma entry_passes_boot_info:
  "\<exists>c' s'. entry ret_label stub_at (c, s) = (c', s') \<and> cpu_rip c' = stub_at \<and> regs c' RDI = regs c RCX \<and>
    regs c' RSP = regs c RSP \<and> code64 0 (segment (cpu_cs c')) \<and> data_segment 0 (segment (cpu_ss c')) \<and>
    (\<forall>x. x \<notin> bytes_at (regs c RSP - 16) 16 \<longrightarrow> mem s' x = mem s x)"
proof -
  have d: "load64 (store64 (store64 m (a - 8) 8) (a - 16) v) (a - 8) = 8" for m a v
    by (simp add: quad_apart quad_cell.load_store)
  have b: "bytes_at (regs c RSP - 16) 16 = bytes_at (regs c RSP - 16) 8 \<union> bytes_at (regs c RSP - 8) 8"
    using bytes_at_append [of "regs c RSP - 16" 8 8] by simp
  show ?thesis
    by (simp add: entry_def entry_code_def push_def pop_def Let_def d quad_cell.load_store set_reg_def b
        quad_cell.store_outside code64_def data_segment_def segment_def gdt_def bf_get_def BIT64_MASK_def)
qed

section \<open>Instructions of the user program\<close>

text \<open>The five encodings that \<^verbatim>\<open>initcode\<close> uses, with their lengths; \<open>None\<close> for any other byte sequence.\<close>

datatype user_instr = Plain instr | Syscall

definition decode :: "uint8 list \<Rightarrow> (user_instr \<times> uint64) option" where
  "decode b =
     (if take 2 b = [0x48, 0xbf] then Some (Plain (MovImm (of_nat (le_val (take 8 (drop 2 b)))) RDI), 10)
      else if take 3 b = [0x48, 0x31, 0xf6] then Some (Plain (Xorq RSI RSI), 3)
      else if take 3 b = [0x48, 0xc7, 0xc0] then
        Some (Plain (MovImm (scast (of_nat (le_val (take 4 (drop 3 b))) :: uint32)) RAX), 7)
      else if take 3 b = [0x48, 0xc7, 0xc7] then
        Some (Plain (MovImm (scast (of_nat (le_val (take 4 (drop 3 b))) :: uint32)) RDI), 7)
      else if take 2 b = [0x0f, 0x05] then Some (Syscall, 2)
      else None)"

definition fetch :: "kstate \<Rightarrow> uint64 \<Rightarrow> uint8 list" where
  "fetch s ip = map (\<lambda>i. uview s (ip + of_nat i)) [0..<10]"

text \<open>Running the program up to its next system call, within a number of instructions.\<close>

primrec run_to_syscall :: "nat \<Rightarrow> machine \<Rightarrow> machine option" where
  "run_to_syscall 0 m = None"
| "run_to_syscall (Suc n) m = (case m of (c, s) \<Rightarrow>
     case decode (fetch s (cpu_rip c)) of
       None \<Rightarrow> None
     | Some (i, len) \<Rightarrow>
         let m = (c\<lparr>cpu_rip := cpu_rip c + len\<rparr>, s) in
         (case i of Plain j \<Rightarrow> run_to_syscall n (exec1 j m) | Syscall \<Rightarrow> Some (syscall_instr m)))"

definition shell_path :: "uint8 list" where "shell_path = map (of_char :: char \<Rightarrow> uint8) ''/BIN/SHELL'' @ [0]"

lemma initcode_decodes:
  "decode (map (\<lambda>i. init_memory (USER_ADDR_START + of_nat i)) [0..<10]) = Some (Plain (MovImm (USER_ADDR_START + 38) RDI), 10)"
  "decode (map (\<lambda>i. init_memory (USER_ADDR_START + 10 + of_nat i)) [0..<10]) = Some (Plain (Xorq RSI RSI), 3)"
  "decode (map (\<lambda>i. init_memory (USER_ADDR_START + 13 + of_nat i)) [0..<10]) = Some (Plain (MovImm SYS_spawn RAX), 7)"
  "decode (map (\<lambda>i. init_memory (USER_ADDR_START + 20 + of_nat i)) [0..<10]) = Some (Syscall, 2)"
  "decode (map (\<lambda>i. init_memory (USER_ADDR_START + 22 + of_nat i)) [0..<10]) = Some (Plain (MovImm 1 RDI), 7)"
  "decode (map (\<lambda>i. init_memory (USER_ADDR_START + 29 + of_nat i)) [0..<10]) = Some (Plain (MovImm SYS_exit RAX), 7)"
  "decode (map (\<lambda>i. init_memory (USER_ADDR_START + 36 + of_nat i)) [0..<10]) = Some (Syscall, 2)"
  "map (\<lambda>i. init_memory (USER_ADDR_START + 38 + of_nat i)) [0..<11] = shell_path"
  by (simp_all add: decode_def init_memory_def initcode_def upt_rec SYS_spawn_def SYS_exit_def USER_ADDR_START_def shell_path_def)

section \<open>From the first switch to the first system call\<close>

definition init_view :: "kstate \<Rightarrow> bool" where
  "init_view s \<longleftrightarrow> (\<forall>i<64. uview s (USER_ADDR_START + of_nat i) = init_memory (USER_ADDR_START + of_nat i))"

lemma init_addr:
  assumes "i < 64"
  shows "user_va (USER_ADDR_START + of_nat i)" and "PML4_IDX (USER_ADDR_START + of_nat i) = PML4_IDX USER_ADDR_START"
proof -
  have u: "unat (USER_ADDR_START + of_nat i) = 1099511627776 + i"
    using assms by (subst unat_add_no_wrap) (simp_all add: USER_ADDR_START_def)
  then show "user_va (USER_ADDR_START + of_nat i)"
    using assms by (simp add: user_va_def USER_ADDR_START_def word_le_nat_alt word_less_nat_alt)
  have "drop_bit 39 (unat (USER_ADDR_START + of_nat i)) = drop_bit 39 (unat USER_ADDR_START)"
    unfolding u using assms by (simp add: drop_bit_eq_div USER_ADDR_START_def)
  then have "drop_bit 39 (USER_ADDR_START + of_nat i) = drop_bit 39 USER_ADDR_START"
    by (simp only: word_unat_eq_iff unat_drop_bit_eq)
  then show "PML4_IDX (USER_ADDR_START + of_nat i) = PML4_IDX USER_ADDR_START" by (simp add: PML4_IDX_def)
qed

lemma fetch_init:
  assumes "init_view s" and "k \<le> 50"
  shows "fetch s (USER_ADDR_START + of_nat k) = map (\<lambda>i. init_memory (USER_ADDR_START + of_nat k + of_nat i)) [0..<10]"
proof -
  have "uview s (USER_ADDR_START + of_nat k + of_nat i) = init_memory (USER_ADDR_START + of_nat k + of_nat i)" if "i < 10" for i
    using assms that by (simp add: init_view_def add.assoc of_nat_add [symmetric] del: of_nat_add)
  then show ?thesis by (simp add: fetch_def)
qed

lemma init_path:
  assumes "init_view s"
  shows "map (\<lambda>i. uview s (USER_ADDR_START + 38 + of_nat i)) [0..<11] = shell_path"
proof -
  have "uview s (USER_ADDR_START + 38 + of_nat i) = init_memory (USER_ADDR_START + 38 + of_nat i)" if "i < 11" for i
    using assms [unfolded init_view_def, rule_format, of "38 + i"] that by (simp add: add.assoc)
  then show ?thesis unfolding initcode_decodes(8) [symmetric] by simp
qed

lemma init_first_call:
  assumes v: "init_view s" and ip: "cpu_rip c = USER_ADDR_START"
  shows "\<exists>c'. run_to_syscall 4 (c, s) = Some (syscall_instr (c', s)) \<and> cpu_rip c' = USER_ADDR_START + 22 \<and>
    regs c' = (regs c)(RDI := USER_ADDR_START + 38, RSI := 0, RAX := SYS_spawn)"
proof -
  have f: "fetch s USER_ADDR_START = map (\<lambda>i. init_memory (USER_ADDR_START + of_nat i)) [0..<10]"
    "fetch s (USER_ADDR_START + 10) = map (\<lambda>i. init_memory (USER_ADDR_START + 10 + of_nat i)) [0..<10]"
    "fetch s (USER_ADDR_START + 13) = map (\<lambda>i. init_memory (USER_ADDR_START + 13 + of_nat i)) [0..<10]"
    "fetch s (USER_ADDR_START + 20) = map (\<lambda>i. init_memory (USER_ADDR_START + 20 + of_nat i)) [0..<10]"
    using fetch_init [OF v, of 0] fetch_init [OF v, of 10] fetch_init [OF v, of 13] fetch_init [OF v, of 20] by simp_all
  have d: "decode (fetch s USER_ADDR_START) = Some (Plain (MovImm (USER_ADDR_START + 38) RDI), 10)"
    "decode (fetch s (USER_ADDR_START + 10)) = Some (Plain (Xorq RSI RSI), 3)"
    "decode (fetch s (USER_ADDR_START + 13)) = Some (Plain (MovImm SYS_spawn RAX), 7)"
    "decode (fetch s (USER_ADDR_START + 20)) = Some (Syscall, 2)"
    unfolding f by (rule initcode_decodes)+
  show ?thesis by (simp add: eval_nat_numeral ip d add.assoc Let_def set_reg_def) (rule exI, rule conjI, rule refl, simp)
qed

text \<open>The registers that \<^verbatim>\<open>syscall_init\<close> of \<^verbatim>\<open>syscall.c\<close> loads.\<close>

definition syscall_ready :: "klayout \<Rightarrow> kstate \<Rightarrow> bool" where
  "syscall_ready K s \<longleftrightarrow> msrs s IA32_STAR = push_bit 32 GDT_KCODE OR push_bit 48 GDT_UNULL \<and>
     msrs s IA32_LSTAR = syscall_at K \<and> msrs s IA32_SFMASK = 0"

lemma syscall_init_ready:
  assumes "syscall_init K s = Inr s'"
  shows "syscall_ready K s'"
  using syscall_init_effect [of K s] assms msr_numbers_distinct
  by (auto simp: syscall_ready_def syscall_msrs_def)

lemma star_fields:
  "bf_get 32 16 (push_bit 32 GDT_KCODE OR push_bit 48 GDT_UNULL) = 8"
  "bf_get 48 16 (push_bit 32 GDT_KCODE OR push_bit 48 GDT_UNULL) = 24"
  by (simp_all add: bf_get_def GDT_KCODE_def GDT_UNULL_def BIT64_MASK_def)

text \<open>A context that starts in \<^verbatim>\<open>_sysret\<close> enters user mode.\<close>

lemma start_frame_words:
  assumes "start_frame K ks m"
  shows "\<exists>f. quads_at m (ks + 968) (context_words f (sysret_at K)) \<and> f R15 = USER_ADDR_START \<and>
    f R14 = USER_ADDR_START + 0x1000 \<and> f R13 = RFLAGS_IF"
proof -
  obtain f ip where w: "quads_at m (ks + 968) (context_words f ip)" using context_exists by blast
  then have "f R15 = USER_ADDR_START" "f R14 = USER_ADDR_START + 0x1000" "f R13 = RFLAGS_IF" "ip = sysret_at K"
    using assms by (simp_all add: start_frame_def context_words_def context_regs_def add.assoc KiB_def)
  with w show ?thesis by blast
qed

lemma user_segments: "code64 3 (segment 43)" "data_segment 3 (segment 35)" "GDT_UCODE OR 3 = 43" "GDT_UDATA OR 3 = 35"
  by (simp_all add: GDT_UCODE_def GDT_UDATA_def code64_def data_segment_def segment_def gdt_def bf_get_def BIT64_MASK_def)

lemma sysret_enters_user:
  assumes "syscall_ready K s" and "regs c R15 = USER_ADDR_START" and "regs c R14 = sp" and "regs c R13 = RFLAGS_IF"
  shows "\<exists>c'. sysret (c, s) = (c', s) \<and> cpu_rip c' = USER_ADDR_START \<and> regs c' RSP = sp \<and> cpu_rflags c' = 0x202 \<and>
    code64 3 (segment (cpu_cs c')) \<and> data_segment 3 (segment (cpu_ss c')) \<and> cpu_cs c' = GDT_UCODE OR 3 \<and> cpu_ss c' = GDT_UDATA OR 3"
  using assms by (simp add: sysret_def sysret_code_def sysretq_def set_reg_def Let_def syscall_ready_def star_fields RFLAGS_IF_def
      user_segments)

text \<open>
  The stack on which \<^verbatim>\<open>uinit\<close> calls \<^verbatim>\<open>context_switch\<close> is that of the boot loader.  The switch is harmless if it changes
  neither the context it switches to nor what the user program would read.
\<close>

definition harmless :: "uint64 \<Rightarrow> kstate \<Rightarrow> kstate \<Rightarrow> bool" where
  "harmless ks s s' \<longleftrightarrow> (\<forall>x \<in> bytes_at (ks + 968) 56. mem s' x = mem s x) \<and> (\<forall>v. user_va v \<longrightarrow> uview s' v = uview s v)"

lemma start_frame_local:
  assumes "start_frame K ks m" and "\<forall>x \<in> bytes_at (ks + 968) 56. m' x = m x"
  shows "start_frame K ks m'"
proof -
  have "load64 m' (ks + 968 + of_nat i) = load64 m (ks + 968 + of_nat i)" if "i + 8 \<le> 56" for i
    by (rule quad_cell.load_local) (use assms(2) bytes_at_offset_subset [OF that, of "ks + 968"] in auto)
  from this [of 0] this [of 8] this [of 16] this [of 48] show ?thesis using assms(1) by (simp add: start_frame_def add.commute [of ks])
qed

text \<open>
  What happens from \<^verbatim>\<open>_sysret\<close> on: user mode with 64-bit segments of ring 3, interrupts on and the stack at the end of the
  first page; four instructions, of which the last is a system call; and the call of the C function \<open>fn\<close> on the stack of
  \<^verbatim>\<open>IA32_SYSENTER_ESP\<close>, with the number of \<^verbatim>\<open>sys_spawn\<close> and the address of a path in user memory.
\<close>

definition asks_for_shell :: "klayout \<Rightarrow> uint64 \<Rightarrow> uint64 \<Rightarrow> machine \<Rightarrow> bool" where
  "asks_for_shell K fn back_at m \<longleftrightarrow> (\<exists>c2 s c3 c4 s4. sysret m = (c2, s) \<and> s = snd m \<and>
     cpu_rip c2 = USER_ADDR_START \<and> regs c2 RSP = USER_ADDR_START + 0x1000 \<and> cpu_rflags c2 = 0x202 \<and>
     code64 3 (segment (cpu_cs c2)) \<and> data_segment 3 (segment (cpu_ss c2)) \<and>
     run_to_syscall 4 (c2, s) = Some (c3, s) \<and> cpu_rip c3 = syscall_at K \<and> code64 0 (segment (cpu_cs c3)) \<and>
     enter_syscall fn back_at (c3, s) = (c4, s4) \<and> cpu_rip c4 = fn \<and> regs c4 RSP = entry_stack s - 40 \<and>
     (\<exists>a3 a4 a5 a6. c_args7 (c4, s4) = [USER_ADDR_START + 38, 0, a3, a4, a5, a6, SYS_spawn]) \<and>
     map (\<lambda>i. uview s (USER_ADDR_START + 38 + of_nat i)) [0..<11] = shell_path)"

lemma first_switch:
  assumes fr: "start_frame K ks (mem s)" and ready: "syscall_ready K s" and view: "init_view s"
    and sw: "context_switch swtch_at after old (ks + 968) (c, s) = (c1, s1)" and ok: "harmless ks s s1"
  shows "cpu_rip c1 = sysret_at K" and "asks_for_shell K fn back_at (c1, s1)" and "entry_stack s1 = entry_stack s"
proof -
  have s1: "s1 = s\<lparr>mem := mem s1\<rparr>" using context_switch_mem [of swtch_at after old "ks + 968" c s] sw by auto
  have rdy: "syscall_ready K s1" by (subst s1) (use ready in \<open>simp add: syscall_ready_def\<close>)
  have es: "entry_stack s1 = entry_stack s" by (subst s1) (simp add: entry_stack_def)
  have v1: "init_view s1" using view ok init_addr(1) by (simp add: init_view_def harmless_def)
  obtain f where f: "quads_at (mem s1) (ks + 968) (context_words f (sysret_at K))" "f R15 = USER_ADDR_START"
    "f R14 = USER_ADDR_START + 0x1000" "f R13 = RFLAGS_IF"
    using start_frame_words [OF start_frame_local [OF fr, of "mem s1"]] ok by (auto simp: harmless_def)
  have m1: "mem s1 = store64 (push_words (mem s) (regs c RSP) (rev (context_words (regs c) after))) old (regs c RSP - 56)"
    using context_switch_mem [of swtch_at after old "ks + 968" c s] sw by auto
  from context_switch_eq [OF refl m1 f(1), of swtch_at] sw f(2-4) have c1: "cpu_rip c1 = sysret_at K"
    "regs c1 R15 = USER_ADDR_START" "regs c1 R14 = USER_ADDR_START + 0x1000" "regs c1 R13 = RFLAGS_IF"
    by (auto simp: context_regs_def)
  from sysret_enters_user [OF rdy c1(2-4)] obtain c2 where
    c2: "sysret (c1, s1) = (c2, s1)" "cpu_rip c2 = USER_ADDR_START" "regs c2 RSP = USER_ADDR_START + 0x1000"
    "cpu_rflags c2 = 0x202" "code64 3 (segment (cpu_cs c2))" "data_segment 3 (segment (cpu_ss c2))" by auto
  from init_first_call [OF v1 c2(2)] obtain c' where c': "run_to_syscall 4 (c2, s1) = Some (syscall_instr (c', s1))"
    "regs c' = (regs c2)(RDI := USER_ADDR_START + 38, RSI := 0, RAX := SYS_spawn)" by blast
  obtain c3 where c3: "syscall_instr (c', s1) = (c3, s1)" "cpu_rip c3 = syscall_at K" "cpu_cs c3 = 8"
    "regs c3 RDI = USER_ADDR_START + 38" "regs c3 RSI = 0" "regs c3 RAX = SYS_spawn"
    using rdy by (simp add: syscall_instr_def Let_def c'(2) syscall_ready_def star_fields)
  have k: "code64 0 (segment (cpu_cs c3))"
    by (simp add: c3(3) code64_def segment_def gdt_def bf_get_def BIT64_MASK_def)
  obtain c4 s4 where c4: "enter_syscall fn back_at (c3, s1) = (c4, s4)" "cpu_rip c4 = fn" "regs c4 RSP = entry_stack s1 - 40"
    "c_args7 (c4, s4) = map (regs c3) [RDI, RSI, RDX, R10, R8, R9, RAX]"
    by (rule enter_syscall_spec [of fn back_at c3 s1]) blast
  have "\<exists>a3 a4 a5 a6. c_args7 (c4, s4) = [USER_ADDR_START + 38, 0, a3, a4, a5, a6, SYS_spawn]" using c4(4) c3(4-6) by simp
  then show "asks_for_shell K fn back_at (c1, s1)"
    using c2 c'(1) c3(1,2) k c4(1-3) init_path [OF v1] unfolding asks_for_shell_def by auto
  show "cpu_rip c1 = sysret_at K" and "entry_stack s1 = entry_stack s" by (rule c1 es)+
qed

text \<open>A stack in the kernel image, apart from the heap's table, is one that makes the switch harmless.\<close>

definition image_stack :: "klayout \<Rightarrow> cpu \<Rightarrow> bool" where
  "image_stack K c \<longleftrightarrow> (\<forall>x \<in> bytes_at (regs c RSP - 56) 56 \<union> bytes_at (local_at K ''dummy.context'') 8.
     unat x < unat (kernel_end K) \<and> \<not> in_block 336 (slabs_at K) (unat x))"

lemma image_switch_harmless:
  assumes inv: "mm_inv K s A H" and ks: "(ks, 1024) \<in> live H" and st: "image_stack K c"
    and sw: "context_switch swtch_at after (local_at K ''dummy.context'') new (c, s) = (c1, s1)"
  shows "harmless ks s s1"
proof -
  let ?old = "local_at K ''dummy.context''" and ?w = "rev (context_words (regs c) after)"
  note rel = mm_invD(1) [OF inv]
  have m: "s1 = s\<lparr>mem := store64 (push_words (mem s) (regs c RSP) ?w) ?old (regs c RSP - 56)\<rparr>"
    using context_switch_mem [of swtch_at after ?old new c s] sw by auto
  have out: "mem s1 x = mem s x" if "x \<notin> bytes_at ?old 8" "x \<notin> bytes_at (regs c RSP - 56) 56" for x
    using that push_words_outside [of x "regs c RSP" ?w "mem s"] by (simp add: m quad_cell.store_outside)
  then have ch: "\<forall>x. mem s1 x \<noteq> mem s x \<longrightarrow> unat x < unat (kernel_end K) \<and> \<not> in_block 336 (slabs_at K) (unat x)"
    using st by (auto simp: image_stack_def)
  then have k: "\<forall>x. mem s1 x \<noteq> mem s x \<longrightarrow> unat x \<in> kernel_bytes K H \<and>
      (\<forall>i r. slab_in H i r \<longrightarrow> \<not> in_block 24 (sl_entry r) (unat x))"
    using image_is_kernel [OF rel] by blast
  have same: "pmmap s1 = pmmap s" "memtotal s1 = memtotal s" "pgdir s1 = pgdir s" "cr3 s1 = cr3 s" by (simp_all add: m)
  have "mem s1 x = mem s x" if x: "x \<in> bytes_at (ks + 968) 56" for x
  proof -
    have "x \<in> bytes_at ks 1024" using x bytes_at_offset_subset [of 968 56 1024 ks] by auto
    then have "unat ks \<le> unat x" using live_no_wrap(4) [OF rel ks] by (simp add: bytes_at_interval)
    then have "\<not> unat x < unat (kernel_end K)" using live_no_wrap(2) [OF rel ks] by simp
    with ch show ?thesis by blast
  qed
  then show ?thesis using mm_kernel_write(2) [OF inv same k] by (simp add: harmless_def)
qed

text \<open>The switch of \<^verbatim>\<open>swtch.S\<close> as the operations of \<^verbatim>\<open>proc.c\<close> call it, from a processor in state \<open>c\<close>.\<close>

definition asm_switch :: "uint64 \<Rightarrow> uint64 \<Rightarrow> cpu \<Rightarrow> uint64 \<Rightarrow> uint64 \<Rightarrow> kstate \<Rightarrow> kstate kres" where
  "asm_switch swtch_at after c old new s = Inr (snd (context_switch swtch_at after old new (c, s)))"



end
