(* ===== verification/Switch.thy ===== *)
theory Switch
  imports ProcOps
begin

text \<open>
  Switching between processes: \<^verbatim>\<open>switch_proc\<close> of \<^verbatim>\<open>arch/x86/proc.c\<close> on every branch, and what \<^verbatim>\<open>switch_uvm\<close> of \<^verbatim>\<open>arch/x86/vm.c\<close> does to the
  translations that a processor keeps.
\<close>

unbundle bit_operations_syntax

text \<open>
  A processor may keep a translation that it has used until \<^verbatim>\<open>cr3\<close> is written or the address is invalidated.  What it then reads
  at a user address: through the translation it kept, if any, and through the page tables otherwise.
\<close>

type_synonym tlb = "uint64 \<Rightarrow> uint64 option"

definition tlb_sound :: "tlb \<Rightarrow> kstate \<Rightarrow> bool" where
  "tlb_sound t s \<longleftrightarrow> (\<forall>va pa. t va = Some pa \<longrightarrow> translate (mem s) (cr3 s) va = Some pa)"

definition tlb_read :: "tlb \<Rightarrow> kstate \<Rightarrow> uint64 \<Rightarrow> uint8" where
  "tlb_read t s va = (case t va of Some pa \<Rightarrow> mem s pa | None \<Rightarrow> uview s va)"

lemma tlb_sound_read: "tlb_sound t s \<Longrightarrow> tlb_read t s va = uview s va"
  by (cases "t va") (simp_all add: tlb_sound_def tlb_read_def uview_def)

text \<open>Switching to a new process unmaps every address of the user slot, by one store and nothing else.\<close>

lemma switch_unmaps:
  assumes inv: "proc_inv K s A H cs" and sp: "spare_page K s A H page"
    and e: "proc_upml4 (mem s) p = page OR (PG_P OR PG_RW OR PG_US)" and v: "PML4_IDX va = PML4_IDX USER_ADDR_START"
  shows "translate (mem (switch_uvm p s)) (cr3 s) va = None"
    and "\<And>x. unat x \<notin> vm_bytes (mem s) (pgdir s) \<Longrightarrow> mem (switch_uvm p s) x = mem s x"
proof -
  let ?f = "PG_P OR PG_RW OR PG_US"
  note mm = proc_invD(1) [OF inv] and D = spare_pageD [OF sp]
  note ok = mm_invD(8) [OF mm]
  have f: "pt_flag ?f" by (simp add: pt_flag_def PG_P_def PG_RW_def PG_US_def PG_PS_def)
  have pg: "4096 dvd unat page" "unat page < phys_limit" using D(1) by (simp_all add: table_ok_def)
  have root: "4096 dvd unat (pgdir s)" using vm_okD(1) [OF ok, of 0 0] by (simp add: table_ok_def)
  have sw: "mem (switch_uvm p s) = store64 (mem s) (pt_entry (pgdir s) 0 USER_ADDR_START) (page OR ?f)"
    by (simp add: switch_uvm_def set_pte_def ROUNDDOWN_aligned [OF root] pt_entry_def pt_idx_macros e)
  have "vm_leaf (mem (switch_uvm p s)) (pgdir s) va = None"
    using graft_leaf(1) [OF ok D(7) table_descends [OF f pg(1)] pte_frame_small [OF pg bit_pt_flag(3) [OF f]],
        where va = USER_ADDR_START and v = va] v unfolding sw by (simp add: pt_idx_macros)
  then show "translate (mem (switch_uvm p s)) (cr3 s) va = None" unfolding mm_translate [OF mm] by simp
  have r: "tab (mem s) (pgdir s) USER_ADDR_START 0 = Some (pgdir s)" by simp
  show "mem (switch_uvm p s) x = mem s x" if "unat x \<notin> vm_bytes (mem s) (pgdir s)" for x
    unfolding sw by (rule quad_cell.store_outside) (use that entry_in_tree [OF ok r] in blast)
qed



section \<open>switch\_proc\<close>

text \<open>The entry of the page tables that holds the address space of the current process.\<close>

definition user_slot :: "kstate \<Rightarrow> uint64" where
  "user_slot s = pte_at (ROUNDDOWN (pgdir s) (KiB 4)) (PML4_IDX USER_ADDR_START)"

lemma user_slot_bytes:
  assumes "mm_inv K s A H" and "x \<in> bytes_at (user_slot s) 8"
  shows "unat x \<in> vm_bytes (mem s) (pgdir s)"
proof -
  note ok = mm_invD(8) [OF assms(1)]
  have root: "4096 dvd unat (pgdir s)" using vm_okD(1) [OF ok, of 0 0] by (simp add: table_ok_def)
  have "user_slot s = pt_entry (pgdir s) 0 USER_ADDR_START"
    by (simp add: user_slot_def ROUNDDOWN_aligned [OF root] pt_entry_def pt_idx_macros)
  with entry_in_tree [OF ok, of USER_ADDR_START 0 "pgdir s"] assms(2) show ?thesis by simp
qed

lemma stats_stored:
  assumes inv: "proc_inv K s A H cs" and live: "(old, 512) \<in> live H" "(new, 512) \<in> live H" and ne: "old \<noteq> new"
    and m_def: "m = store32 (store32 (mem s) old v) new w"
  shows "load32 m old = v" "load32 m new = w" "load64 m (new + 16) = load64 (mem s) (new + 16)"
    "load64 m (new + 24) = load64 (mem s) (new + 24)" "load64 m (new + 40) = load64 (mem s) (new + 40)"
proof -
  note rel = proc_invD(3) [OF inv]
  note wo = live_no_wrap(4) [OF rel live(1)] and wn = live_no_wrap(4) [OF rel live(2)]
  have ap: "\<not> (in_block 512 old x \<and> in_block 512 new x)" for x by (rule live_apart [OF rel live ne])
  let ?s1 = "s\<lparr>mem := store32 (mem s) old v\<rparr>" and ?s2 = "s\<lparr>mem := m\<rparr>"
  have k1: "keeps s ?s1 new 512" using stat_in_object(1) [OF wo, of _ "mem s" v] ap by (auto simp: keeps_def)
  have k2: "keeps ?s1 ?s2 old 512" using stat_in_object(1) [OF wn, of _ "store32 (mem s) old v" w] ap by (auto simp: keeps_def m_def)
  show "load32 m old = v" using stat_in_object(2) [OF wo _ k2] by (simp add: word_cell.load_store)
  show "load32 m new = w" by (simp add: m_def word_cell.load_store)
  show "load64 m (new + 16) = load64 (mem s) (new + 16)" "load64 m (new + 24) = load64 (mem s) (new + 24)"
    "load64 m (new + 40) = load64 (mem s) (new + 40)"
    using keeps_load [OF k1 _ wn, of 16] keeps_load [OF k1 _ wn, of 24] keeps_load [OF k1 _ wn, of 40]
    by (simp_all add: m_def cell_loads)
qed

text \<open>The state in which \<^verbatim>\<open>switch_proc\<close> reaches \<^verbatim>\<open>context_switch\<close>.\<close>

definition switched :: "uint64 \<Rightarrow> uint64 \<Rightarrow> kstate \<Rightarrow> kstate \<Rightarrow> bool" where
  "switched new old s s' \<longleftrightarrow>
     proc_stat (mem s') old = procstat_code READY \<and> proc_stat (mem s') new = procstat_code RUN \<and> curproc s' = new \<and>
     msrs s' = (msrs s)(IA32_SYSENTER_ESP := proc_kstack (mem s) new + 1024) \<and>
     load64 (mem s') (user_slot s') = proc_upml4 (mem s) new \<and> user_slot s' = user_slot s \<and> cr3 s' = cr3 s \<and>
     (\<forall>x. x \<notin> bytes_at old 4 \<union> bytes_at new 4 \<union> bytes_at (user_slot s) 8 \<longrightarrow> mem s' x = mem s x)"

lemma switch_proc_step:
  assumes inv: "proc_inv K s A H cs" and live: "(old, 512) \<in> live H" "(new, 512) \<in> live H"
    and st: "proc_stat (mem s) old = procstat_code RUN" "proc_stat (mem s) new = procstat_code READY"
  shows "\<exists>s'. switch_proc K f new old s = f (old + 24) (proc_context (mem s) new) s' \<and> switched new old s s'"
proof -
  note rel = proc_invD(3) [OF inv] and mm = proc_invD(1) [OF inv]
  have ne: "old \<noteq> new" using st by auto
  have nn: "old \<noteq> NULL" "new \<noteq> NULL" using live_no_wrap(3) [OF rel] live by blast+
  define m where "m = store32 (store32 (mem s) old (procstat_code READY)) new (procstat_code RUN)"
  note l = stats_stored [OF inv live ne m_def]
  define m' where "m' = store64 m (user_slot s) (load64 (mem s) (new + 40))"
  let ?s = "s\<lparr>mem := m', curproc := new\<rparr>"
  have sw: "switch_uvm new (s\<lparr>mem := m, curproc := new\<rparr>) = ?s"
    by (simp add: switch_uvm_def set_pte_def m'_def user_slot_def proc_upml4_def l(5))
  have out: "x \<notin> bytes_at (user_slot s) 8" if "in_block 512 p (unat x)" "(p, 512) \<in> live H" for x p
    using object_is_kernel [OF rel that(2,1)] mm_invD(5,6) [OF mm, of "unat x"] user_slot_bytes [OF mm, of x]
    by (auto simp: kernel_bytes_def)
  have k: "keeps (s\<lparr>mem := m\<rparr>) (s\<lparr>mem := m'\<rparr>) p 512" if "(p, 512) \<in> live H" for p
    using out [OF _ that] by (auto simp: keeps_def m'_def intro!: quad_cell.store_outside)
  note fo = proc_same [OF k [OF live(1)] live_no_wrap(4) [OF rel live(1)]]
    and fn = proc_same [OF k [OF live(2)] live_no_wrap(4) [OF rel live(2)]]
  obtain out where ss: "set_sysenter_stack K (proc_kstack (mem ?s) new + KSTACK_SIZE) ?s =
      Inr (?s\<lparr>msrs := (msrs s)(IA32_SYSENTER_ESP := proc_kstack (mem s) new + 1024), console := console s @ out\<rparr>)"
    using set_sysenter_stack_effect [of K "proc_kstack (mem ?s) new + KSTACK_SIZE" ?s] fn(3) l(3)
    by (auto simp: KSTACK_SIZE_def KiB_def proc_kstack_def)
  let ?s' = "?s\<lparr>msrs := (msrs s)(IA32_SYSENTER_ESP := proc_kstack (mem s) new + 1024), console := console s @ out\<rparr>"
  have "store32 (store32 (mem s) old 2) new 3 = m" by (simp add: m_def)
  then have "switch_proc K f new old s = f (old + 24) (proc_context (mem s) new) ?s'"
    using nn st ss sw fn(4) l(4)
    by (simp add: switch_proc_def switch_prepare_def set_proc_stat_def proc_context_def Let_def)
  moreover have "m' x = mem s x" if "x \<notin> bytes_at old 4 \<union> bytes_at new 4 \<union> bytes_at (user_slot s) 8" for x
    using that by (simp add: m'_def m_def quad_cell.store_outside word_cell.store_outside)
  moreover have "user_slot ?s' = user_slot s" "load64 m' (user_slot s) = proc_upml4 (mem s) new"
    by (simp_all add: user_slot_def m'_def quad_cell.load_store proc_upml4_def)
  ultimately show ?thesis using fo(1) fn(1) l(1,2) by (intro exI [of _ ?s']) (simp add: proc_stat_def switched_def)
qed

text \<open>
  C18. \<^verbatim>\<open>switch_proc\<close> on every branch.  It panics when one of the processes is missing, and when the old one is not running or
  the new one not ready.  Otherwise it reaches \<^verbatim>\<open>context_switch\<close> with the place of the old context and the new context:
  the old process is ready and the new one running and current, system calls will use the kernel stack of the new one,
  the user part of the page tables is the address space of the new one, and apart from the two states and that entry
  memory is as before.
\<close>

theorem switch_proc_switches:
  assumes inv: "proc_inv K s A H cs"
  shows "(new = NULL \<or> old = NULL \<longrightarrow> switch_proc K f new old s = Inl (Panic ''switch_proc: new/old is NULL\<newline>'')) \<and>
    (new \<noteq> NULL \<and> old \<noteq> NULL \<and> (proc_stat (mem s) old \<noteq> procstat_code RUN \<or> proc_stat (mem s) new \<noteq> procstat_code READY) \<longrightarrow>
      switch_proc K f new old s = Inl (Panic ''switch_proc: stat is invalid\<newline>'')) \<and>
    ((old, 512) \<in> live H \<and> (new, 512) \<in> live H \<and> proc_stat (mem s) old = procstat_code RUN \<and>
      proc_stat (mem s) new = procstat_code READY \<longrightarrow>
      (\<exists>s'. switch_proc K f new old s = f (old + 24) (proc_context (mem s) new) s' \<and> switched new old s s'))"
  using switch_proc_step [OF inv, of old new f] by (auto simp: switch_proc_def)

lemma set_stat_live:
  assumes inv: "proc_inv K s A H cs" and p: "(p, 512) \<in> live H" "p \<notin> set cs"
  shows "proc_inv K (set_proc_stat p v s) A H cs" and "proc_stat (mem (set_proc_stat p v s)) p = procstat_code v"
    and "(b, m) \<in> live H \<Longrightarrow> b \<noteq> p \<Longrightarrow> keeps s (set_proc_stat p v s) b m"
proof -
  have "\<forall>x. \<not> in_block 512 p (unat x) \<longrightarrow> mem (set_proc_stat p v s) x = mem s x"
    using stat_in_object(1) [OF live_no_wrap(4) [OF proc_invD(3) [OF inv] p(1)]] by (simp add: set_proc_stat_def)
  note w = proc_write [OF inv p _ this]
  show "proc_inv K (set_proc_stat p v s) A H cs" by (rule proc_runD(1) [OF w(1)]) (simp add: set_proc_stat_def)
  show "proc_stat (mem (set_proc_stat p v s)) p = procstat_code v" by (simp add: set_proc_stat_def proc_stat_def word_cell.load_store)
  show "(b, m) \<in> live H \<Longrightarrow> b \<noteq> p \<Longrightarrow> keeps s (set_proc_stat p v s) b m" by (rule w(2)) (simp_all add: set_proc_stat_def)
qed

theorem switch_proc_switches_witness:
  "\<exists>s s' old new. switch_proc demo_layout (\<lambda>a b s. Inr s) new old s = Inr s' \<and> proc_pid (mem s) old = 0 \<and>
    proc_pid (mem s) new = 1 \<and> proc_stat (mem s') old = procstat_code READY \<and> proc_stat (mem s') new = procstat_code RUN"
proof -
  obtain s0 A0 H0 where s0: "proc_inv demo_layout s0 A0 H0 []" "105 \<le> big_left A0" by (rule demo_procs)
  let ?s0 = "s0\<lparr>nextpid := 0\<rparr>"
  have i0: "proc_inv demo_layout ?s0 A0 H0 []" by (rule proc_same_memory(1) [OF s0(1)]) simp_all
  have "7 \<le> big_left A0" using s0(2) by simp
  then obtain p ks page c s1 A1 H1 where
    1: "proc_inv demo_layout s1 A1 H1 ([] @ [c])" "live H1 = {(p, 512), (ks, 1024), (c, 64)} \<union> live H0" "distinct [p, ks, c]"
    "new_proc demo_layout (nextpid ?s0) p ks page (mem s1)" "big_left A0 \<le> big_left A1 + 7"
    "s1 = ?s0\<lparr>mem := mem s1, pmmap := pmmap s1, nextpid := nextpid ?s0 + 1\<rparr>"
    by (rule palloc_spec [OF i0]) (rule that; assumption)
  let ?s1 = "set_proc_stat p RUN s1"
  have p1: "(p, 512) \<in> live H1" "p \<notin> set [c]" using 1(2,3) by auto
  note i1 = set_stat_live [OF 1(1) [simplified] p1, where v = RUN]
  have pid1: "proc_pid (mem ?s1) p = 0" "nextpid ?s1 = 1"
    using 1(4) by (simp_all add: new_proc_def set_proc_stat_def proc_pid_def cell_loads) (subst 1(6), simp)
  have "7 \<le> big_left A1" using s0(2) 1(5) by simp
  then obtain q qs page' d s2 A2 H2 where
    2: "proc_inv demo_layout s2 A2 H2 ([c] @ [d])" "live H2 = {(q, 512), (qs, 1024), (d, 64)} \<union> live H1"
    "\<forall>a m. (a, m) \<in> live H1 \<longrightarrow> a \<noteq> q \<and> a \<noteq> qs \<and> a \<noteq> d" "distinct [q, qs, d]"
    "new_proc demo_layout (nextpid ?s1) q qs page' (mem s2)" "\<forall>b m. (b, m) \<in> live H1 \<longrightarrow> b \<notin> set [c] \<longrightarrow> keeps ?s1 s2 b m"
    by (rule palloc_spec [OF i1(1)]) (rule that; assumption)
  let ?s = "set_proc_stat q READY s2"
  have live: "(p, 512) \<in> live H2" "(q, 512) \<in> live H2" and q: "q \<notin> set ([c] @ [d])" "p \<noteq> q"
    using 1(2) 2(2-4) p1(1) by auto
  note i2 = set_stat_live [OF 2(1) live(2) q(1), where v = READY]
  note w = live_no_wrap(4) [OF proc_invD(3) [OF 2(1)] live(1)]
  have kp: "keeps ?s1 ?s p 512" using keeps_trans [of ?s1 s2 p 512 ?s] 2(6) p1 i2(3) [OF live(1) q(2)] by blast
  have st: "proc_stat (mem ?s) p = procstat_code RUN" "proc_pid (mem ?s) p = 0" using proc_same [OF kp w] i1(2) pid1(1) by simp_all
  have "proc_pid (mem ?s) q = 1" using 2(5) pid1(2) by (simp add: new_proc_def set_proc_stat_def proc_pid_def cell_loads)
  with switch_proc_switches [OF i2(1), of q p "\<lambda>a b s. Inr s"] live st i2(2) show ?thesis by (auto simp: switched_def)
qed

end
