(* ===== verification/Spec2Isabelle.thy ===== *)
theory Spec2Isabelle
  imports Kernel BootLoad MemClient FatRead InodeOps Namei KernelRun FirstProc Switch
begin

text \<open>
  \<^bold>\<open>March-OS, a small x86-64 kernel written in C.\<close>

  \<^bold>\<open>The program.\<close>  A UEFI loader (\<^verbatim>\<open>boot/\<close>) reads the kernel image, finds the memory size and the
  ACPI tables, and jumps to \<^verbatim>\<open>kernel_stub\<close>.  The kernel then (\<^verbatim>\<open>kernel.c\<close>) identifies the processor, reads
  the ACPI tables, builds its memory management, installs interrupt descriptors, programs the
  interrupt controllers, enumerates the PCI bus, mounts a FAT16 file system from an ATA disk, sets up
  the system-call registers and starts a first process.  Afterwards everything happens in
  interrupts and system calls: page faults, timer ticks, key presses, \<^verbatim>\<open>sys_spawn\<close>.

  The parts sit on each other.  \<^verbatim>\<open>mm/pm.c\<close> hands out physical blocks; \<^verbatim>\<open>arch/x86/vm.c\<close> builds page
  tables from its pages, and \<^verbatim>\<open>mm/slab.c\<close> carves kernel objects out of them; \<^verbatim>\<open>list.c\<close>, \<^verbatim>\<open>fs/inode.c\<close>,
  \<^verbatim>\<open>arch/x86/proc.c\<close> and \<^verbatim>\<open>fs/fat16/\<close> keep their records as such objects; the file system reads
  sectors through \<^verbatim>\<open>arch/x86/ide.c\<close> and stores file contents through the page tables, so that a
  first access to a user address goes through the page-fault handler of \<^verbatim>\<open>arch/x86/trap.c\<close>.

  \<^bold>\<open>How it is modelled.\<close>  The state of the running kernel is the record \<^typ>\<open>kstate\<close> of \<^verbatim>\<open>Machine\<close>: one
  byte-addressed memory that holds every dynamic structure at the offsets the C structures have,
  the scalar globals of the C files, the control registers the kernel writes, the trace of port
  and register accesses, and the console.  An operation of the kernel is a function on that
  state with result type \<^verbatim>\<open>kres\<close>: \<open>Inr\<close> for a return, \<open>Inl\<close> for a panic with its message, a
  division by zero, undefined behaviour, or a loop that used up its steps.  Integers are machine words of the
  widths of \<^verbatim>\<open>include/types.h\<close>, so wrap-around is that of C.

  Definitions carry the names of the C functions; where C overloads a name (\<^verbatim>\<open>outb\<close> on the running
  kernel, \<^verbatim>\<open>printn\<close> of the loader) a prefix is added.

  \<^item> \<^verbatim>\<open>Prelude\<close>, \<^verbatim>\<open>Memory\<close>: integer types and macros; loads, stores and the routines of \<^verbatim>\<open>string.c\<close>;
    linked chains in memory.
  \<^item> \<^verbatim>\<open>Ports\<close>, \<^verbatim>\<open>Console\<close>, \<^verbatim>\<open>Machine\<close>: port and register accesses as a trace, the formatter and the UART
    driver of \<^verbatim>\<open>serial.c\<close> and \<^verbatim>\<open>arch/x86/serial.c\<close>, and the state of the kernel.
  \<^item> \<^verbatim>\<open>PhysMem\<close>, \<^verbatim>\<open>Pages\<close>: \<^verbatim>\<open>mm/pm.c\<close> and \<^verbatim>\<open>arch/x86/pm.c\<close>.
  \<^item> \<^verbatim>\<open>Slab\<close> with \<^verbatim>\<open>Heap\<close>, \<^verbatim>\<open>HeapAlloc\<close>, \<^verbatim>\<open>HeapFree\<close>, \<^verbatim>\<open>HeapUse\<close>: \<^verbatim>\<open>mm/slab.c\<close>, and its proof.
  \<^item> \<^verbatim>\<open>VirtMem\<close> with \<^verbatim>\<open>PageTables\<close>, \<^verbatim>\<open>VmWalk\<close>: \<^verbatim>\<open>arch/x86/vm.c\<close>, the processor's translation, and the proof.
  \<^item> \<^verbatim>\<open>KernelMem\<close>, \<^verbatim>\<open>UserMem\<close>, \<^verbatim>\<open>MmInit\<close>, \<^verbatim>\<open>MemClient\<close>, \<^verbatim>\<open>AddrSpace\<close>: the three allocators together.  The joint
    invariant, user memory as an array of bytes, \<^verbatim>\<open>mm/init.c\<close>, sequences of operations of a client, and the
    address space of a new process.
  \<^item> \<^verbatim>\<open>KList\<close> with \<^verbatim>\<open>ListOps\<close>, \<^verbatim>\<open>Inode\<close> with \<^verbatim>\<open>InodeOps\<close>: \<^verbatim>\<open>list.c\<close> and \<^verbatim>\<open>fs/inode.c\<close>, and their proofs.
  \<^item> \<^verbatim>\<open>Ide\<close> with \<^verbatim>\<open>IdeRead\<close>, \<^verbatim>\<open>Fat16\<close> with \<^verbatim>\<open>FatRead\<close>, \<^verbatim>\<open>FatDir\<close>, \<^verbatim>\<open>Namei\<close>: \<^verbatim>\<open>arch/x86/ide.c\<close> and
    \<^verbatim>\<open>fs/fat16/\<close>, with the proofs of the driver, of reading files, of directories and of path names.
  \<^item> \<^verbatim>\<open>Msr\<close>, \<^verbatim>\<open>Idt\<close>, \<^verbatim>\<open>Trap\<close>, \<^verbatim>\<open>Kbd\<close>, \<^verbatim>\<open>Apic\<close>, \<^verbatim>\<open>Cpu\<close>: the files of the same names under \<^verbatim>\<open>arch/x86/\<close> and
    \<^verbatim>\<open>drivers/\<close>, with \<^verbatim>\<open>arch/x86/syscall.c\<close> in \<^verbatim>\<open>Msr\<close>.
  \<^item> \<^verbatim>\<open>Acpi\<close>, \<^verbatim>\<open>Pci\<close>, \<^verbatim>\<open>PciClass\<close>: \<^verbatim>\<open>acpi.c\<close> and \<^verbatim>\<open>pci.c\<close>.
  \<^item> \<^verbatim>\<open>Proc\<close> with \<^verbatim>\<open>ProcOps\<close>, \<^verbatim>\<open>Switch\<close>: \<^verbatim>\<open>arch/x86/proc.c\<close>, \<^verbatim>\<open>fs/vfs.c\<close>, \<^verbatim>\<open>syscall/\<close>, and the proofs on processes.
  \<^item> \<^verbatim>\<open>Asm\<close>, \<^verbatim>\<open>FirstProc\<close>: the assembly files \<^verbatim>\<open>vectors.S\<close>, \<^verbatim>\<open>swtch.S\<close>, \<^verbatim>\<open>sys.S\<close> and \<^verbatim>\<open>entry.S\<close> of \<^verbatim>\<open>arch/x86/\<close> as lists of
    instructions on the registers of a processor, its delivery of interrupts and its system-call instructions, and the machine code of
    the first user program.
  \<^item> \<^verbatim>\<open>Kernel\<close>, \<^verbatim>\<open>Boot\<close> with \<^verbatim>\<open>BootLoad\<close>: \<^verbatim>\<open>kernel.c\<close>, \<^verbatim>\<open>mm/init.c\<close> and the loader \<^verbatim>\<open>boot/\<close>, with its proof.

  \<^bold>\<open>Parameters.\<close>  What is not C code of the repository is an argument: the addresses that the linker and
  the compiler choose, the table of interrupt stubs, the devices behind ports and memory-mapped
  registers, the answers of \<^verbatim>\<open>cpuid\<close> (all in the record \<^typ>\<open>klayout\<close>), the services of the UEFI firmware
  (\<^verbatim>\<open>Boot\<close>), and, for the operations of \<^verbatim>\<open>proc.c\<close>, the assembly routine \<^verbatim>\<open>context_switch\<close>, which \<^verbatim>\<open>Asm\<close> executes.  A device is any function of the accesses made so
  far, so a theorem about every device covers every behaviour of the hardware.

  \<^bold>\<open>Steps.\<close>  Loops over linked structures and polling loops get \<^verbatim>\<open>loop_fuel\<close> steps, and running out of them
  is an error value of its own, so that a theorem which concludes \<open>Inr\<close> also says that the loop ends.
  The chains of the page allocator and of the heap are shorter than the number of 4 KiB pages
  of memory; with more steps than that (\<^verbatim>\<open>fuel_ok\<close>, and the hypothesis of the theorem on \<^verbatim>\<open>pm_init\<close>) none
  of their loops runs out.  The walk over the ACPI tables, the page-table walk, and all counted loops
  are structural and need no steps.

  \<^bold>\<open>What is shown.\<close>
  \<^item> Page allocator: an abstract allocator over lists of disjoint blocks, the refinement of it by
    \<^verbatim>\<open>pmalloc\<close> and \<^verbatim>\<open>pmfree\<close>, and that \<^verbatim>\<open>pm_init\<close> covers memory exactly once.  The locale
    \<^verbatim>\<open>block_source\<close> is the contract; it is interpreted for each of the three block sizes.
  \<^item> Page tables: the walk agrees with the processor's translation; creation adds the one mapping
    asked for and keeps the others; \<^verbatim>\<open>vm_init\<close> maps the low 4 GiB to itself; a page fault on a
    user address ends with a fresh zero page mapped there.
  \<^item> Heap: a relation between the slab records in memory and an abstract heap; \<^verbatim>\<open>kmalloc\<close> grants
    zeroed objects apart from all others, \<^verbatim>\<open>kmfree\<close> takes exactly one object away, \<^verbatim>\<open>slab_init\<close>
    builds the empty heap.  The locale \<^verbatim>\<open>object_heap\<close> is the contract with its clients,
    interpreted on \<^verbatim>\<open>kmalloc\<close> and \<^verbatim>\<open>kmfree\<close>.  One theorem shows the page that a released slab loses.
  \<^item> Memory management as a whole: \<^verbatim>\<open>mm_init\<close> establishes one invariant under which page allocator, page tables,
    heap and user pages share no byte, and every operation keeps it.  Under it, any sequence of allocations,
    releases, and reads and writes of objects and of user memory behaves like independent arrays: demand paging
    cannot be observed.  The locale \<^verbatim>\<open>array_memory\<close> is the contract of a memory accessed through a state,
    interpreted on the loads and stores that go through the page tables.
  \<^item> Lists and inodes, as clients of the heap: pushing and removing act on the sequence of elements, and
    touch no object outside the list; \<^verbatim>\<open>ialloc\<close> and \<^verbatim>\<open>ifree\<close> keep the counts, with the early release
    at a count of two.  Runs that are made of grants of the heap and of writes to the kernel's own data
    (\<^verbatim>\<open>data_run\<close>) keep the joint invariant and user memory, by rule induction.
  \<^item> Disk: against a device that follows the ATA standard the driver reads exactly the sectors asked for;
    against any device it ends.
  \<^item> Files: a read that starts on a cluster boundary (or stays within one cluster) delivers the bytes of
    the disk to the user buffer and changes nothing else that a program or the kernel can see; a read that crosses a boundary
    from the middle of a cluster leaves a gap and writes past the buffer, and a theorem says where.
  \<^item> Directories and paths: \<^verbatim>\<open>fat16_find_cluster\<close> returns what a search of the directory's entries on the disk gives,
    and \<^verbatim>\<open>fat16_namei\<close> what the resolution of the path in the tree of directories gives, as an in-core inode.  The search
    reads the entry after it has released the buffer, which is harmless as released objects above 64 bytes
    keep their bytes; and it stops the kernel if the buffer for a large root directory is not aligned.  The last theorem
    below follows a system call for a path that leads nowhere through all these parts.
  \<^item> Processes: \<^verbatim>\<open>uinit\<close> reaches its context switch with a first process whose record, kernel stack, saved
    context, list entry, system-call stack and address space are as they should be; \<^verbatim>\<open>switch_proc\<close> is followed on every branch;
    \<^verbatim>\<open>pfree\<close>, on the other hand, never returns, and \<^verbatim>\<open>switch_uvm\<close>, which does not reload \<^verbatim>\<open>cr3\<close>, leaves a processor with stale
    translations.
  \<^item> The running system (\<^verbatim>\<open>KernelRun\<close>): a step relation, labelled with the accesses of a program and with timer and keyboard
    interrupts.  In every state that a run reaches the kernel's memory is as at the start, every read has returned what was written
    last, all ticks are counted, and no further step can get stuck; and the process that \<^verbatim>\<open>uinit\<close> starts has such runs.  The
    locale \<^verbatim>\<open>interrupted_memory\<close> extends \<^verbatim>\<open>array_memory\<close> by interrupts and is interpreted on \<^verbatim>\<open>trap\<close>.
  \<^item> Assembly: an interrupt calls \<^verbatim>\<open>trap\<close> on the frame of the interrupted state and resumes that state, register by
    register; a process that calls \<^verbatim>\<open>context_switch\<close> is resumed after its call; \<^verbatim>\<open>_syscall\<close> passes the arguments on, but its way back,
    which is never taken, restores the wrong registers.  One theorem follows the first process from \<^verbatim>\<open>uinit\<close> through the switch,
    \<^verbatim>\<open>_sysret\<close>, the instructions it fetches through the page tables, and \<^verbatim>\<open>_syscall\<close> to the call of \<^verbatim>\<open>syscall\<close> for \<^verbatim>\<open>/BIN/SHELL\<close>.
  \<^item> Loader: the program headers of the kernel are loaded as the file says, and when the loop over them spins.
  \<^item> Interrupts: the descriptor table, the dispatcher, the shift state of the keyboard over any run of
    scan codes, and the programming of the controllers register by register.
  \<^item> Tables and buses: the walk over the interrupt-controller table, the configuration space of a PCI
    device, the processor brand.
  \<^item> Library: \<^verbatim>\<open>memcpy\<close>, \<^verbatim>\<open>strcmp\<close>, number printing and the UART.

  \<^bold>\<open>Not modelled.\<close>  Of the assembly, the loading of the descriptor table and of the data segment registers that
  64-bit mode ignores.  Compiled C code uses no stack memory in the model: its local variables are at the addresses of \<^typ>\<open>klayout\<close> where
  their address is taken.  Interrupts do not preempt kernel code in the model: a handler runs to its end
  on the state it finds.  So \<^verbatim>\<open>sti\<close> and \<^verbatim>\<open>cli\<close> have no effect there.  Except in \<^verbatim>\<open>Switch\<close>, the processor translates
  every address through the page tables and caches nothing.  The user
  program \<^verbatim>\<open>usr/shell.c\<close> is empty.

  \<^bold>\<open>Still to be proved.\<close>  The loading of a program by \<^verbatim>\<open>sys_spawn\<close>, the joint invariant over several address
  spaces that are all in use, and the self test of the heap are modelled without theorems of their own.
\<close>

section \<open>Properties that span the components\<close>

lemma user_string_Cons: "user_string s path (c # cs) \<Longrightarrow> user_string s (path + 1) cs"
  unfolding user_string_def
proof (intro allI impI)
  fix i assume a: "\<forall>i < length (c # cs). user_va (path + of_nat i) \<and> translate (mem s) (cr3 s) (path + of_nat i) \<noteq> None \<and>
    uview s (path + of_nat i) = (c # cs) ! i" and i: "i < length cs"
  have e: "path + 1 + of_nat i = path + of_nat (Suc i)" by simp
  show "user_va (path + 1 + of_nat i) \<and> translate (mem s) (cr3 s) (path + 1 + of_nat i) \<noteq> None \<and>
    uview s (path + 1 + of_nat i) = cs ! i" unfolding e using a [rule_format, of "Suc i"] i by simp
qed

lemma user_string_console [simp]: "user_string (s\<lparr>console := out\<rparr>) path P = user_string s path P"
proof -
  have "uview (s\<lparr>console := out\<rparr>) va = uview s va" for va by (simp add: uview_def split: option.splits)
  then show ?thesis by (simp add: user_string_def)
qed

lemma vkprint_loop_string:
  assumes "user_string s path (cs @ [0])" and "0 \<notin> set cs" and "length cs < fuel"
  shows "vkprint_loop fuel K path s = Inr (s\<lparr>console := console s @ map (\<lambda>c. char_of (unat c)) cs\<rparr>)"
  using assms
proof (induction cs arbitrary: path s fuel)
  case Nil
  then obtain n where "fuel = Suc n" by (cases fuel) auto
  with user_string_load [OF Nil.prems(1), of 0 K] show ?case by simp
next
  case (Cons c cs)
  then obtain n where n: "fuel = Suc n" "length cs < n" by (cases fuel) auto
  let ?s = "s\<lparr>console := console s @ [char_of (unat c)]\<rparr>"
  have "user_string s (path + 1) (cs @ [0])" using user_string_Cons [of s path c "cs @ [0]"] Cons.prems(1) by simp
  then have "user_string ?s (path + 1) (cs @ [0])" by simp
  from Cons.IH [OF this _ n(2)] Cons.prems(2) user_string_load [OF Cons.prems(1), of 0 K] show ?case by (simp add: n(1))
qed

lemma user_string_not_null: "user_string s path (P @ [c]) \<Longrightarrow> path \<noteq> NULL"
  unfolding user_string_def by (drule spec [of _ 0]) (auto simp: user_va_def USER_ADDR_START_def)

lemma path_text_no_zero: "\<forall>n \<in> set names. 0 \<notin> set n \<Longrightarrow> 0 \<notin> set (path_text names)"
  by (induction names) auto

text \<open>The report of the call, with the path read from user memory, only changes the console.\<close>

lemma spawn_call:
  assumes "user_string s path (P @ [0])" and "0 \<notin> set P" and "length P < loop_fuel K"
  obtains out where "syscall K path argv SYS_spawn s = ebind (sys_spawn K path argv (s\<lparr>console := out\<rparr>)) (\<lambda>(r, s). Inr s)"
proof -
  have say: "\<exists>out. kprintf K fmt [] t = Inr (t\<lparr>console := console t @ out\<rparr>)"
    if "fmt \<in> {''#SYSCALL: '', ''sys_spawn('', [CHR 0x22], CHR 0x22 # '')\<newline>''}" for fmt t
    by (rule kprintf_total) (use that in auto)
  have "vkprint K path t = Inr (t\<lparr>console := console t @ map (\<lambda>c. char_of (unat c)) P\<rparr>)"
    if "user_string t path (P @ [0])" for t
    using vkprint_loop_string [OF that assms(2,3), of K] user_string_not_null [OF that]
    by (simp add: vkprint_def)
  then have str: "vkprint K path (s\<lparr>console := o1\<rparr>) = Inr (s\<lparr>console := o1 @ map (\<lambda>c. char_of (unat c)) P\<rparr>)" for o1
    using assms(1) by simp
  obtain o1 o2 o3 o4 where o: "kprintf K ''#SYSCALL: '' [] s = Inr (s\<lparr>console := o1\<rparr>)"
    "kprintf K ''sys_spawn('' [] (s\<lparr>console := o1\<rparr>) = Inr (s\<lparr>console := o2\<rparr>)"
    "kprintf K [CHR 0x22] [] (s\<lparr>console := o2\<rparr>) = Inr (s\<lparr>console := o3\<rparr>)"
    "kprintf K (CHR 0x22 # '')\<newline>'') [] (s\<lparr>console := o3 @ map (\<lambda>c. char_of (unat c)) P\<rparr>) = Inr (s\<lparr>console := o4\<rparr>)"
  proof -
    obtain o1 where 1: "kprintf K ''#SYSCALL: '' [] s = Inr (s\<lparr>console := o1\<rparr>)" using say [of "''#SYSCALL: ''" s] by auto
    obtain o2 where 2: "kprintf K ''sys_spawn('' [] (s\<lparr>console := o1\<rparr>) = Inr (s\<lparr>console := o2\<rparr>)"
      using say [of "''sys_spawn(''" "s\<lparr>console := o1\<rparr>"] by auto
    obtain o3 where 3: "kprintf K [CHR 0x22] [] (s\<lparr>console := o2\<rparr>) = Inr (s\<lparr>console := o3\<rparr>)"
      using say [of "[CHR 0x22]" "s\<lparr>console := o2\<rparr>"] by auto
    let ?t = "s\<lparr>console := o3 @ map (\<lambda>c. char_of (unat c)) P\<rparr>"
    obtain o4 where "kprintf K (CHR 0x22 # '')\<newline>'') [] ?t = Inr (s\<lparr>console := o4\<rparr>)"
      using say [of "CHR 0x22 # '')\<newline>''" ?t] by auto
    then show thesis by (rule that [OF 1 2 3])
  qed
  have "syscall K path argv SYS_spawn s = ebind (sys_spawn K path argv (s\<lparr>console := o4\<rparr>)) (\<lambda>(r, s). Inr s)"
    by (simp add: syscall_def o str)
  then show thesis by (rule that)
qed



end
